(* ===== verification/BSG_Prelude.thy ===== *)
theory BSG_Prelude imports Main "HOL-Library.Word" begin

text \<open>
  Shared vocabulary of the development: the machine types of the C++ sources, the
  collections of rewrite rules the component theories add to, and the generic facts on
  lists and words that several components use.
\<close>

type_synonym byte = "8 word"
type_synonym bytes = "byte list"
type_synonym u32 = "32 word"
type_synonym u64 = "64 word"
type_synonym uint256 = "256 word"

text \<open>Rules that split fixed-width encodings at their boundary.\<close>

named_theorems codec_simps "round trips of encoders and decoders"

text \<open>Lengths of the byte strings that the encoders and hash functions produce.\<close>

named_theorems len_simps "lengths of byte strings"

text \<open>Facts that a step of the script machine keeps.\<close>

named_theorems step_keeps "preservation facts of the script operations"

subsection \<open>Lists\<close>

text \<open>\<open>memcpy (buf + off, src, length src)\<close> into an array that has room for it.\<close>

definition memcpy_at :: "'a list \<Rightarrow> nat \<Rightarrow> 'a list \<Rightarrow> 'a list" where
  "memcpy_at buf off src = take off buf @ src @ drop (off + length src) buf"

lemma length_memcpy_at [len_simps]:
  "off + length src \<le> length buf \<Longrightarrow> length (memcpy_at buf off src) = length buf"
  by (simp add: memcpy_at_def)

lemma take_memcpy_at:
  "off + length src \<le> length buf \<Longrightarrow> n = off + length src \<Longrightarrow>
   take n (memcpy_at buf off src) = take off buf @ src"
  by (simp add: memcpy_at_def)

lemma take_Suc_append_nth:
  "n < length xs \<Longrightarrow> take (Suc n) xs = take n xs @ [xs ! n]"
  by (rule take_Suc_conv_app_nth)

lemma length_4_cases:
  "length xs = 4 \<Longrightarrow> \<exists>a b c d. xs = [a, b, c, d]"
  by (auto simp: numeral_eq_Suc length_Suc_conv)

lemma list_all_take_drop:
  "list_all P xs \<Longrightarrow> list_all P (take n xs) \<and> list_all P (drop n xs)"
  by (auto simp: list_all_iff dest: in_set_takeD in_set_dropD)

text \<open>Positions of a circular buffer of \<open>k\<close> slots are distinct within a window of \<open>k\<close>.\<close>

lemma mod_window:
  assumes "u \<le> t" "t < u + k" "u mod k = t mod (k :: nat)"
  shows "u = t"
proof -
  have "k dvd t - u" using assms(1,3) by (simp flip: mod_eq_dvd_iff_nat)
  moreover have "t - u < k" using assms(1,2) by simp
  ultimately show ?thesis using assms(1) by (auto dest: nat_dvd_not_less)
qed

text \<open>Walking down a chain of conditionals.\<close>

lemma if_in_set: "a \<in> S \<Longrightarrow> b \<in> S \<Longrightarrow> (if c then a else b) \<in> S"
  by simp

lemma if_elim_Inr:
  "(if c then a else b) = Inr x \<Longrightarrow> (c \<Longrightarrow> a = Inr x \<Longrightarrow> R) \<Longrightarrow> (\<not> c \<Longrightarrow> b = Inr x \<Longrightarrow> R) \<Longrightarrow> R"
  by (simp split: if_splits)

subsection \<open>Words\<close>

lemma unat_byte_less [simp]: "unat (b :: byte) < 256"
  using unsigned_less [of b] by simp

lemma unat_byte_of_nat: "n < 256 \<Longrightarrow> unat (word_of_nat n :: byte) = n"
  by (simp add: unat_of_nat)

text \<open>The two-shift idioms of the hash functions are rotations.\<close>

unbundle bit_operations_syntax

lemma rotate_as_shifts:
  fixes x :: u32
  assumes "0 < n" "n < 32"
  shows "drop_bit n x OR push_bit (32 - n) x = word_rotr n x"
proof (rule bit_word_eqI)
  fix i assume "i < LENGTH(32)"
  then show "bit (drop_bit n x OR push_bit (32 - n) x) i = bit (word_rotr n x) i"
    using assms
    by (cases "i + n < 32") (auto simp: bit_simps bit_word_rotr_iff le_mod_geq add.commute dest: bit_imp_le_length)
qed

lemma rotate_left_as_shifts:
  fixes x :: u32
  assumes "0 < n" "n < 32"
  shows "push_bit n x OR drop_bit (32 - n) x = word_rotl n x"
proof -
  have "word_rotr (32 - n) x = word_rotl n x"
    by (rule bit_word_eqI) (use assms in \<open>simp add: bit_word_rotl_iff bit_word_rotr_iff\<close>)
  then show ?thesis using rotate_as_shifts [of "32 - n" x] assms by (simp add: or.commute)
qed

lemma byte_eq_of_nat: "unat b = n \<Longrightarrow> b = (of_nat n :: byte)"
  by auto

text \<open>The sign bit of a byte.\<close>

lemma byte_sign_bit: "b AND 0x80 \<noteq> 0 \<longleftrightarrow> 128 \<le> unat (b :: byte)"
proof -
  have "b AND 0x80 \<noteq> 0 \<longleftrightarrow> bit b 7"
    using and_exp_eq_0_iff_not_bit [of b 7] by simp
  also have "bit b 7 \<longleftrightarrow> bit (unat b) 7" by (simp add: bit_unsigned_iff)
  also have "\<dots> \<longleftrightarrow> odd (unat b div 128)" by (simp add: bit_iff_odd)
  also have "\<dots> \<longleftrightarrow> 128 \<le> unat b"
  proof -
    have "unat b < 256" by simp
    then have "unat b div 128 = (if 128 \<le> unat b then 1 else 0)"
      by (simp add: div_nat_eqI)
    then show ?thesis by simp
  qed
  finally show ?thesis .
qed

lemma byte_sign_clear: "b AND 0x80 = 0 \<longleftrightarrow> unat (b :: byte) < 128"
  using byte_sign_bit [of b] by linarith

end
