(* ===== verification/Script_Ops.thy ===== *)
theory Script_Ops imports BSG_Prelude begin

text \<open>
  The vocabulary of \<open>src/src/script.h\<close>: opcodes (numbers of the enumeration, as the code
  compares them), script errors with \<open>ScriptErrorString\<close>, signature hash types, verification
  flags, standard output types, and \<open>GetOpName\<close>.
\<close>

unbundle bit_operations_syntax

type_synonym opcode = nat
type_synonym valtype = bytes
type_synonym script = bytes

subsection \<open>Opcodes\<close>

abbreviation (input) OP_0 :: opcode where "OP_0 \<equiv> 0x00"
abbreviation (input) OP_FALSE :: opcode where "OP_FALSE \<equiv> OP_0"
abbreviation (input) OP_PUSHDATA1 :: opcode where "OP_PUSHDATA1 \<equiv> 0x4c"
abbreviation (input) OP_PUSHDATA2 :: opcode where "OP_PUSHDATA2 \<equiv> 0x4d"
abbreviation (input) OP_PUSHDATA4 :: opcode where "OP_PUSHDATA4 \<equiv> 0x4e"
abbreviation (input) OP_1NEGATE :: opcode where "OP_1NEGATE \<equiv> 0x4f"
abbreviation (input) OP_RESERVED :: opcode where "OP_RESERVED \<equiv> 0x50"
abbreviation (input) OP_1 :: opcode where "OP_1 \<equiv> 0x51"
abbreviation (input) OP_TRUE :: opcode where "OP_TRUE \<equiv> OP_1"
abbreviation (input) OP_2 :: opcode where "OP_2 \<equiv> 0x52"
abbreviation (input) OP_3 :: opcode where "OP_3 \<equiv> 0x53"
abbreviation (input) OP_4 :: opcode where "OP_4 \<equiv> 0x54"
abbreviation (input) OP_5 :: opcode where "OP_5 \<equiv> 0x55"
abbreviation (input) OP_6 :: opcode where "OP_6 \<equiv> 0x56"
abbreviation (input) OP_7 :: opcode where "OP_7 \<equiv> 0x57"
abbreviation (input) OP_8 :: opcode where "OP_8 \<equiv> 0x58"
abbreviation (input) OP_9 :: opcode where "OP_9 \<equiv> 0x59"
abbreviation (input) OP_10 :: opcode where "OP_10 \<equiv> 0x5a"
abbreviation (input) OP_11 :: opcode where "OP_11 \<equiv> 0x5b"
abbreviation (input) OP_12 :: opcode where "OP_12 \<equiv> 0x5c"
abbreviation (input) OP_13 :: opcode where "OP_13 \<equiv> 0x5d"
abbreviation (input) OP_14 :: opcode where "OP_14 \<equiv> 0x5e"
abbreviation (input) OP_15 :: opcode where "OP_15 \<equiv> 0x5f"
abbreviation (input) OP_16 :: opcode where "OP_16 \<equiv> 0x60"
abbreviation (input) OP_NOP :: opcode where "OP_NOP \<equiv> 0x61"
abbreviation (input) OP_VER :: opcode where "OP_VER \<equiv> 0x62"
abbreviation (input) OP_IF :: opcode where "OP_IF \<equiv> 0x63"
abbreviation (input) OP_NOTIF :: opcode where "OP_NOTIF \<equiv> 0x64"
abbreviation (input) OP_VERIF :: opcode where "OP_VERIF \<equiv> 0x65"
abbreviation (input) OP_VERNOTIF :: opcode where "OP_VERNOTIF \<equiv> 0x66"
abbreviation (input) OP_ELSE :: opcode where "OP_ELSE \<equiv> 0x67"
abbreviation (input) OP_ENDIF :: opcode where "OP_ENDIF \<equiv> 0x68"
abbreviation (input) OP_VERIFY :: opcode where "OP_VERIFY \<equiv> 0x69"
abbreviation (input) OP_RETURN :: opcode where "OP_RETURN \<equiv> 0x6a"
abbreviation (input) OP_TOALTSTACK :: opcode where "OP_TOALTSTACK \<equiv> 0x6b"
abbreviation (input) OP_FROMALTSTACK :: opcode where "OP_FROMALTSTACK \<equiv> 0x6c"
abbreviation (input) OP_2DROP :: opcode where "OP_2DROP \<equiv> 0x6d"
abbreviation (input) OP_2DUP :: opcode where "OP_2DUP \<equiv> 0x6e"
abbreviation (input) OP_3DUP :: opcode where "OP_3DUP \<equiv> 0x6f"
abbreviation (input) OP_2OVER :: opcode where "OP_2OVER \<equiv> 0x70"
abbreviation (input) OP_2ROT :: opcode where "OP_2ROT \<equiv> 0x71"
abbreviation (input) OP_2SWAP :: opcode where "OP_2SWAP \<equiv> 0x72"
abbreviation (input) OP_IFDUP :: opcode where "OP_IFDUP \<equiv> 0x73"
abbreviation (input) OP_DEPTH :: opcode where "OP_DEPTH \<equiv> 0x74"
abbreviation (input) OP_DROP :: opcode where "OP_DROP \<equiv> 0x75"
abbreviation (input) OP_DUP :: opcode where "OP_DUP \<equiv> 0x76"
abbreviation (input) OP_NIP :: opcode where "OP_NIP \<equiv> 0x77"
abbreviation (input) OP_OVER :: opcode where "OP_OVER \<equiv> 0x78"
abbreviation (input) OP_PICK :: opcode where "OP_PICK \<equiv> 0x79"
abbreviation (input) OP_ROLL :: opcode where "OP_ROLL \<equiv> 0x7a"
abbreviation (input) OP_ROT :: opcode where "OP_ROT \<equiv> 0x7b"
abbreviation (input) OP_SWAP :: opcode where "OP_SWAP \<equiv> 0x7c"
abbreviation (input) OP_TUCK :: opcode where "OP_TUCK \<equiv> 0x7d"
abbreviation (input) OP_CAT :: opcode where "OP_CAT \<equiv> 0x7e"
abbreviation (input) OP_SUBSTR :: opcode where "OP_SUBSTR \<equiv> 0x7f"
abbreviation (input) OP_LEFT :: opcode where "OP_LEFT \<equiv> 0x80"
abbreviation (input) OP_RIGHT :: opcode where "OP_RIGHT \<equiv> 0x81"
abbreviation (input) OP_SIZE :: opcode where "OP_SIZE \<equiv> 0x82"
abbreviation (input) OP_INVERT :: opcode where "OP_INVERT \<equiv> 0x83"
abbreviation (input) OP_AND :: opcode where "OP_AND \<equiv> 0x84"
abbreviation (input) OP_OR :: opcode where "OP_OR \<equiv> 0x85"
abbreviation (input) OP_XOR :: opcode where "OP_XOR \<equiv> 0x86"
abbreviation (input) OP_EQUAL :: opcode where "OP_EQUAL \<equiv> 0x87"
abbreviation (input) OP_EQUALVERIFY :: opcode where "OP_EQUALVERIFY \<equiv> 0x88"
abbreviation (input) OP_RESERVED1 :: opcode where "OP_RESERVED1 \<equiv> 0x89"
abbreviation (input) OP_RESERVED2 :: opcode where "OP_RESERVED2 \<equiv> 0x8a"
abbreviation (input) OP_1ADD :: opcode where "OP_1ADD \<equiv> 0x8b"
abbreviation (input) OP_1SUB :: opcode where "OP_1SUB \<equiv> 0x8c"
abbreviation (input) OP_2MUL :: opcode where "OP_2MUL \<equiv> 0x8d"
abbreviation (input) OP_2DIV :: opcode where "OP_2DIV \<equiv> 0x8e"
abbreviation (input) OP_NEGATE :: opcode where "OP_NEGATE \<equiv> 0x8f"
abbreviation (input) OP_ABS :: opcode where "OP_ABS \<equiv> 0x90"
abbreviation (input) OP_NOT :: opcode where "OP_NOT \<equiv> 0x91"
abbreviation (input) OP_0NOTEQUAL :: opcode where "OP_0NOTEQUAL \<equiv> 0x92"
abbreviation (input) OP_ADD :: opcode where "OP_ADD \<equiv> 0x93"
abbreviation (input) OP_SUB :: opcode where "OP_SUB \<equiv> 0x94"
abbreviation (input) OP_MUL :: opcode where "OP_MUL \<equiv> 0x95"
abbreviation (input) OP_DIV :: opcode where "OP_DIV \<equiv> 0x96"
abbreviation (input) OP_MOD :: opcode where "OP_MOD \<equiv> 0x97"
abbreviation (input) OP_LSHIFT :: opcode where "OP_LSHIFT \<equiv> 0x98"
abbreviation (input) OP_RSHIFT :: opcode where "OP_RSHIFT \<equiv> 0x99"
abbreviation (input) OP_BOOLAND :: opcode where "OP_BOOLAND \<equiv> 0x9a"
abbreviation (input) OP_BOOLOR :: opcode where "OP_BOOLOR \<equiv> 0x9b"
abbreviation (input) OP_NUMEQUAL :: opcode where "OP_NUMEQUAL \<equiv> 0x9c"
abbreviation (input) OP_NUMEQUALVERIFY :: opcode where "OP_NUMEQUALVERIFY \<equiv> 0x9d"
abbreviation (input) OP_NUMNOTEQUAL :: opcode where "OP_NUMNOTEQUAL \<equiv> 0x9e"
abbreviation (input) OP_LESSTHAN :: opcode where "OP_LESSTHAN \<equiv> 0x9f"
abbreviation (input) OP_GREATERTHAN :: opcode where "OP_GREATERTHAN \<equiv> 0xa0"
abbreviation (input) OP_LESSTHANOREQUAL :: opcode where "OP_LESSTHANOREQUAL \<equiv> 0xa1"
abbreviation (input) OP_GREATERTHANOREQUAL :: opcode where "OP_GREATERTHANOREQUAL \<equiv> 0xa2"
abbreviation (input) OP_MIN :: opcode where "OP_MIN \<equiv> 0xa3"
abbreviation (input) OP_MAX :: opcode where "OP_MAX \<equiv> 0xa4"
abbreviation (input) OP_WITHIN :: opcode where "OP_WITHIN \<equiv> 0xa5"
abbreviation (input) OP_RIPEMD160 :: opcode where "OP_RIPEMD160 \<equiv> 0xa6"
abbreviation (input) OP_SHA1 :: opcode where "OP_SHA1 \<equiv> 0xa7"
abbreviation (input) OP_SHA256 :: opcode where "OP_SHA256 \<equiv> 0xa8"
abbreviation (input) OP_HASH160 :: opcode where "OP_HASH160 \<equiv> 0xa9"
abbreviation (input) OP_HASH256 :: opcode where "OP_HASH256 \<equiv> 0xaa"
abbreviation (input) OP_CODESEPARATOR :: opcode where "OP_CODESEPARATOR \<equiv> 0xab"
abbreviation (input) OP_CHECKSIG :: opcode where "OP_CHECKSIG \<equiv> 0xac"
abbreviation (input) OP_CHECKSIGVERIFY :: opcode where "OP_CHECKSIGVERIFY \<equiv> 0xad"
abbreviation (input) OP_CHECKMULTISIG :: opcode where "OP_CHECKMULTISIG \<equiv> 0xae"
abbreviation (input) OP_CHECKMULTISIGVERIFY :: opcode where "OP_CHECKMULTISIGVERIFY \<equiv> 0xaf"
abbreviation (input) OP_NOP1 :: opcode where "OP_NOP1 \<equiv> 0xb0"
abbreviation (input) OP_NOP2 :: opcode where "OP_NOP2 \<equiv> 0xb1"
abbreviation (input) OP_NOP3 :: opcode where "OP_NOP3 \<equiv> 0xb2"
abbreviation (input) OP_NOP4 :: opcode where "OP_NOP4 \<equiv> 0xb3"
abbreviation (input) OP_NOP5 :: opcode where "OP_NOP5 \<equiv> 0xb4"
abbreviation (input) OP_NOP6 :: opcode where "OP_NOP6 \<equiv> 0xb5"
abbreviation (input) OP_NOP7 :: opcode where "OP_NOP7 \<equiv> 0xb6"
abbreviation (input) OP_NOP8 :: opcode where "OP_NOP8 \<equiv> 0xb7"
abbreviation (input) OP_NOP9 :: opcode where "OP_NOP9 \<equiv> 0xb8"
abbreviation (input) OP_NOP10 :: opcode where "OP_NOP10 \<equiv> 0xb9"
abbreviation (input) OP_SMALLDATA :: opcode where "OP_SMALLDATA \<equiv> 0xf9"
abbreviation (input) OP_SMALLINTEGER :: opcode where "OP_SMALLINTEGER \<equiv> 0xfa"
abbreviation (input) OP_PUBKEYS :: opcode where "OP_PUBKEYS \<equiv> 0xfb"
abbreviation (input) OP_PUBKEYHASH :: opcode where "OP_PUBKEYHASH \<equiv> 0xfd"
abbreviation (input) OP_PUBKEY :: opcode where "OP_PUBKEY \<equiv> 0xfe"
abbreviation (input) OP_INVALIDOPCODE :: opcode where "OP_INVALIDOPCODE \<equiv> 0xff"

subsection \<open>Errors\<close>

datatype ScriptError =
    SCRIPT_ERR_OK
  | SCRIPT_ERR_UNKNOWN_ERROR
  | SCRIPT_ERR_EVAL_FALSE
  | SCRIPT_ERR_OP_RETURN
  | SCRIPT_ERR_SCRIPT_SIZE
  | SCRIPT_ERR_PUSH_SIZE
  | SCRIPT_ERR_OP_COUNT
  | SCRIPT_ERR_STACK_SIZE
  | SCRIPT_ERR_SIG_COUNT
  | SCRIPT_ERR_PUBKEY_COUNT
  | SCRIPT_ERR_VERIFY
  | SCRIPT_ERR_EQUALVERIFY
  | SCRIPT_ERR_CHECKMULTISIGVERIFY
  | SCRIPT_ERR_CHECKSIGVERIFY
  | SCRIPT_ERR_NUMEQUALVERIFY
  | SCRIPT_ERR_BAD_OPCODE
  | SCRIPT_ERR_DISABLED_OPCODE
  | SCRIPT_ERR_INVALID_STACK_OPERATION
  | SCRIPT_ERR_INVALID_ALTSTACK_OPERATION
  | SCRIPT_ERR_UNBALANCED_CONDITIONAL
  | SCRIPT_ERR_SIG_HASHTYPE
  | SCRIPT_ERR_SIG_DER
  | SCRIPT_ERR_MINIMALDATA
  | SCRIPT_ERR_SIG_PUSHONLY
  | SCRIPT_ERR_SIG_HIGH_S
  | SCRIPT_ERR_SIG_NULLDUMMY
  | SCRIPT_ERR_PUBKEYTYPE
  | SCRIPT_ERR_DISCOURAGE_UPGRADABLE_NOPS
  | SCRIPT_ERR_ERROR_COUNT

fun ScriptErrorString :: "ScriptError \<Rightarrow> string" where
  "ScriptErrorString SCRIPT_ERR_OK = ''No error''"
| "ScriptErrorString SCRIPT_ERR_EVAL_FALSE = ''Script evaluated without error but finished with a false/empty top stack element''"
| "ScriptErrorString SCRIPT_ERR_OP_RETURN = ''OP_RETURN was encountered''"
| "ScriptErrorString SCRIPT_ERR_SCRIPT_SIZE = ''Script is too big''"
| "ScriptErrorString SCRIPT_ERR_PUSH_SIZE = ''Push value size limit exceeded''"
| "ScriptErrorString SCRIPT_ERR_OP_COUNT = ''Operation limit exceeded''"
| "ScriptErrorString SCRIPT_ERR_STACK_SIZE = ''Stack size limit exceeded''"
| "ScriptErrorString SCRIPT_ERR_SIG_COUNT = ''Signature count negative or greater than pubkey count''"
| "ScriptErrorString SCRIPT_ERR_PUBKEY_COUNT = ''Pubkey count negative or limit exceeded''"
| "ScriptErrorString SCRIPT_ERR_VERIFY = ''Script failed an OP_VERIFY operation''"
| "ScriptErrorString SCRIPT_ERR_EQUALVERIFY = ''Script failed an OP_EQUALVERIFY operation''"
| "ScriptErrorString SCRIPT_ERR_CHECKMULTISIGVERIFY = ''Script failed an OP_CHECKMULTISIGVERIFY operation''"
| "ScriptErrorString SCRIPT_ERR_CHECKSIGVERIFY = ''Script failed an OP_CHECKSIGVERIFY operation''"
| "ScriptErrorString SCRIPT_ERR_NUMEQUALVERIFY = ''Script failed an OP_NUMEQUALVERIFY operation''"
| "ScriptErrorString SCRIPT_ERR_BAD_OPCODE = ''Opcode missing or not understood''"
| "ScriptErrorString SCRIPT_ERR_DISABLED_OPCODE = ''Attempted to use a disabled opcode''"
| "ScriptErrorString SCRIPT_ERR_INVALID_STACK_OPERATION = ''Operation not valid with the current stack size''"
| "ScriptErrorString SCRIPT_ERR_INVALID_ALTSTACK_OPERATION = ''Operation not valid with the current altstack size''"
| "ScriptErrorString SCRIPT_ERR_UNBALANCED_CONDITIONAL = ''Invalid OP_IF construction''"
| "ScriptErrorString SCRIPT_ERR_SIG_HASHTYPE = ''Signature hash type missing or not understood''"
| "ScriptErrorString SCRIPT_ERR_SIG_DER = ''Non-canonical DER signature''"
| "ScriptErrorString SCRIPT_ERR_MINIMALDATA = ''Data push larger than necessary''"
| "ScriptErrorString SCRIPT_ERR_SIG_PUSHONLY = ''Only non-push operators allowed in signatures''"
| "ScriptErrorString SCRIPT_ERR_SIG_HIGH_S = ''Non-canonical signature: S value is unnecessarily high''"
| "ScriptErrorString SCRIPT_ERR_SIG_NULLDUMMY = ''Dummy CHECKMULTISIG argument must be zero''"
| "ScriptErrorString SCRIPT_ERR_PUBKEYTYPE = ''Public key is neither compressed or uncompressed''"
| "ScriptErrorString SCRIPT_ERR_DISCOURAGE_UPGRADABLE_NOPS = ''NOPx reserved for soft-fork upgrades''"
| "ScriptErrorString _ = ''unknown error''"

subsection \<open>Names\<close>

text \<open>The \<open>case\<close> labels of \<open>GetOpName\<close>, in order.\<close>

definition opcode_names :: "(opcode \<times> string) list" where
  "opcode_names =
     [(OP_0, ''0''), (OP_PUSHDATA1, ''OP_PUSHDATA1''), (OP_PUSHDATA2, ''OP_PUSHDATA2''),
      (OP_PUSHDATA4, ''OP_PUSHDATA4''), (OP_1NEGATE, ''-1''), (OP_RESERVED, ''OP_RESERVED''),
      (OP_1, ''1''), (OP_2, ''2''), (OP_3, ''3''),
      (OP_4, ''4''), (OP_5, ''5''), (OP_6, ''6''),
      (OP_7, ''7''), (OP_8, ''8''), (OP_9, ''9''),
      (OP_10, ''10''), (OP_11, ''11''), (OP_12, ''12''),
      (OP_13, ''13''), (OP_14, ''14''), (OP_15, ''15''),
      (OP_16, ''16''), (OP_NOP, ''OP_NOP''), (OP_VER, ''OP_VER''),
      (OP_IF, ''OP_IF''), (OP_NOTIF, ''OP_NOTIF''), (OP_VERIF, ''OP_VERIF''),
      (OP_VERNOTIF, ''OP_VERNOTIF''), (OP_ELSE, ''OP_ELSE''), (OP_ENDIF, ''OP_ENDIF''),
      (OP_VERIFY, ''OP_VERIFY''), (OP_RETURN, ''OP_RETURN''), (OP_TOALTSTACK, ''OP_TOALTSTACK''),
      (OP_FROMALTSTACK, ''OP_FROMALTSTACK''), (OP_2DROP, ''OP_2DROP''), (OP_2DUP, ''OP_2DUP''),
      (OP_3DUP, ''OP_3DUP''), (OP_2OVER, ''OP_2OVER''), (OP_2ROT, ''OP_2ROT''),
      (OP_2SWAP, ''OP_2SWAP''), (OP_IFDUP, ''OP_IFDUP''), (OP_DEPTH, ''OP_DEPTH''),
      (OP_DROP, ''OP_DROP''), (OP_DUP, ''OP_DUP''), (OP_NIP, ''OP_NIP''),
      (OP_OVER, ''OP_OVER''), (OP_PICK, ''OP_PICK''), (OP_ROLL, ''OP_ROLL''),
      (OP_ROT, ''OP_ROT''), (OP_SWAP, ''OP_SWAP''), (OP_TUCK, ''OP_TUCK''),
      (OP_CAT, ''OP_CAT''), (OP_SUBSTR, ''OP_SUBSTR''), (OP_LEFT, ''OP_LEFT''),
      (OP_RIGHT, ''OP_RIGHT''), (OP_SIZE, ''OP_SIZE''), (OP_INVERT, ''OP_INVERT''),
      (OP_AND, ''OP_AND''), (OP_OR, ''OP_OR''), (OP_XOR, ''OP_XOR''),
      (OP_EQUAL, ''OP_EQUAL''), (OP_EQUALVERIFY, ''OP_EQUALVERIFY''), (OP_RESERVED1, ''OP_RESERVED1''),
      (OP_RESERVED2, ''OP_RESERVED2''), (OP_1ADD, ''OP_1ADD''), (OP_1SUB, ''OP_1SUB''),
      (OP_2MUL, ''OP_2MUL''), (OP_2DIV, ''OP_2DIV''), (OP_NEGATE, ''OP_NEGATE''),
      (OP_ABS, ''OP_ABS''), (OP_NOT, ''OP_NOT''), (OP_0NOTEQUAL, ''OP_0NOTEQUAL''),
      (OP_ADD, ''OP_ADD''), (OP_SUB, ''OP_SUB''), (OP_MUL, ''OP_MUL''),
      (OP_DIV, ''OP_DIV''), (OP_MOD, ''OP_MOD''), (OP_LSHIFT, ''OP_LSHIFT''),
      (OP_RSHIFT, ''OP_RSHIFT''), (OP_BOOLAND, ''OP_BOOLAND''), (OP_BOOLOR, ''OP_BOOLOR''),
      (OP_NUMEQUAL, ''OP_NUMEQUAL''), (OP_NUMEQUALVERIFY, ''OP_NUMEQUALVERIFY''), (OP_NUMNOTEQUAL, ''OP_NUMNOTEQUAL''),
      (OP_LESSTHAN, ''OP_LESSTHAN''), (OP_GREATERTHAN, ''OP_GREATERTHAN''), (OP_LESSTHANOREQUAL, ''OP_LESSTHANOREQUAL''),
      (OP_GREATERTHANOREQUAL, ''OP_GREATERTHANOREQUAL''), (OP_MIN, ''OP_MIN''), (OP_MAX, ''OP_MAX''),
      (OP_WITHIN, ''OP_WITHIN''), (OP_RIPEMD160, ''OP_RIPEMD160''), (OP_SHA1, ''OP_SHA1''),
      (OP_SHA256, ''OP_SHA256''), (OP_HASH160, ''OP_HASH160''), (OP_HASH256, ''OP_HASH256''),
      (OP_CODESEPARATOR, ''OP_CODESEPARATOR''), (OP_CHECKSIG, ''OP_CHECKSIG''), (OP_CHECKSIGVERIFY, ''OP_CHECKSIGVERIFY''),
      (OP_CHECKMULTISIG, ''OP_CHECKMULTISIG''), (OP_CHECKMULTISIGVERIFY, ''OP_CHECKMULTISIGVERIFY''), (OP_NOP1, ''OP_NOP1''),
      (OP_NOP2, ''OP_NOP2''), (OP_NOP3, ''OP_NOP3''), (OP_NOP4, ''OP_NOP4''),
      (OP_NOP5, ''OP_NOP5''), (OP_NOP6, ''OP_NOP6''), (OP_NOP7, ''OP_NOP7''),
      (OP_NOP8, ''OP_NOP8''), (OP_NOP9, ''OP_NOP9''), (OP_NOP10, ''OP_NOP10''),
      (OP_INVALIDOPCODE, ''OP_INVALIDOPCODE'')]"

definition GetOpName :: "opcode \<Rightarrow> string" where
  "GetOpName op = (case map_of opcode_names op of Some name \<Rightarrow> name | None \<Rightarrow> ''OP_UNKNOWN'')"

subsection \<open>Flags and types\<close>

abbreviation (input) SIGHASH_ALL :: u32 where "SIGHASH_ALL \<equiv> 1"
abbreviation (input) SIGHASH_NONE :: u32 where "SIGHASH_NONE \<equiv> 2"
abbreviation (input) SIGHASH_SINGLE :: u32 where "SIGHASH_SINGLE \<equiv> 3"
abbreviation (input) SIGHASH_ANYONECANPAY :: u32 where "SIGHASH_ANYONECANPAY \<equiv> 0x80"

type_synonym verify_flags = u32

abbreviation (input) SCRIPT_VERIFY_NONE :: verify_flags where "SCRIPT_VERIFY_NONE \<equiv> 0"
abbreviation (input) SCRIPT_VERIFY_NOCACHE :: verify_flags where "SCRIPT_VERIFY_NOCACHE \<equiv> 1"
abbreviation (input) SCRIPT_VERIFY_P2SH :: verify_flags where "SCRIPT_VERIFY_P2SH \<equiv> 1"
abbreviation (input) SCRIPT_VERIFY_STRICTENC :: verify_flags where "SCRIPT_VERIFY_STRICTENC \<equiv> 2"
abbreviation (input) SCRIPT_VERIFY_DERSIG :: verify_flags where "SCRIPT_VERIFY_DERSIG \<equiv> 4"
abbreviation (input) SCRIPT_VERIFY_LOW_S :: verify_flags where "SCRIPT_VERIFY_LOW_S \<equiv> 8"
abbreviation (input) SCRIPT_VERIFY_NULLDUMMY :: verify_flags where "SCRIPT_VERIFY_NULLDUMMY \<equiv> 16"
abbreviation (input) SCRIPT_VERIFY_SIGPUSHONLY :: verify_flags where "SCRIPT_VERIFY_SIGPUSHONLY \<equiv> 32"
abbreviation (input) SCRIPT_VERIFY_MINIMALDATA :: verify_flags where "SCRIPT_VERIFY_MINIMALDATA \<equiv> 64"
abbreviation (input) SCRIPT_VERIFY_DISCOURAGE_UPGRADABLE_NOPS :: verify_flags where
  "SCRIPT_VERIFY_DISCOURAGE_UPGRADABLE_NOPS \<equiv> 128"

definition has_flag :: "verify_flags \<Rightarrow> verify_flags \<Rightarrow> bool" where
  "has_flag flags f \<longleftrightarrow> flags AND f \<noteq> 0"

definition MANDATORY_SCRIPT_VERIFY_FLAGS :: verify_flags where
  "MANDATORY_SCRIPT_VERIFY_FLAGS = SCRIPT_VERIFY_NONE"

definition STANDARD_SCRIPT_VERIFY_FLAGS :: verify_flags where
  "STANDARD_SCRIPT_VERIFY_FLAGS = MANDATORY_SCRIPT_VERIFY_FLAGS OR SCRIPT_VERIFY_STRICTENC
     OR SCRIPT_VERIFY_NULLDUMMY OR SCRIPT_VERIFY_DISCOURAGE_UPGRADABLE_NOPS"

definition STANDARD_NOT_MANDATORY_VERIFY_FLAGS :: verify_flags where
  "STANDARD_NOT_MANDATORY_VERIFY_FLAGS =
     STANDARD_SCRIPT_VERIFY_FLAGS AND NOT MANDATORY_SCRIPT_VERIFY_FLAGS"

datatype txnouttype =
    TX_NONSTANDARD | TX_PUBKEY | TX_PUBKEYHASH | TX_SCRIPTHASH | TX_MULTISIG | TX_NULL_DATA

fun GetTxnOutputType :: "txnouttype \<Rightarrow> string" where
  "GetTxnOutputType TX_NONSTANDARD = ''nonstandard''"
| "GetTxnOutputType TX_PUBKEY = ''pubkey''"
| "GetTxnOutputType TX_PUBKEYHASH = ''pubkeyhash''"
| "GetTxnOutputType TX_SCRIPTHASH = ''scripthash''"
| "GetTxnOutputType TX_MULTISIG = ''multisig''"
| "GetTxnOutputType TX_NULL_DATA = ''nulldata''"

datatype isminetype = ISMINE_NO | ISMINE_WATCH_ONLY | ISMINE_SPENDABLE

definition MAX_SCRIPT_ELEMENT_SIZE :: nat where "MAX_SCRIPT_ELEMENT_SIZE = 520"

subsection \<open>Names are unambiguous\<close>

lemma opcode_numbers_distinct: "distinct (map fst opcode_names)"
  by (simp add: opcode_names_def)

text \<open>Strings are compared through the number they spell in base 256.\<close>

definition name_number :: "string \<Rightarrow> int" where
  "name_number s = foldl (\<lambda>h c. 256 * h + of_char c) 0 s"

lemma name_numbers_distinct:
  "distinct (map name_number (''OP_UNKNOWN'' # map snd opcode_names))"
  by (simp add: opcode_names_def name_number_def)

lemma opcode_names_distinct: "distinct (''OP_UNKNOWN'' # map snd opcode_names)"
  using name_numbers_distinct by (simp only: distinct_map)

lemma GetOpName_known:
  "GetOpName op \<noteq> ''OP_UNKNOWN'' \<longleftrightarrow> op \<in> fst ` set opcode_names"
proof (cases "map_of opcode_names op")
  case None
  then show ?thesis by (simp add: GetOpName_def map_of_eq_None_iff [symmetric])
next
  case (Some name)
  then have "(op, name) \<in> set opcode_names" by (rule map_of_SomeD)
  then show ?thesis using Some opcode_names_distinct by (force simp: GetOpName_def image_iff)
qed

text \<open>
  Disassembly is unambiguous: two opcodes with the same name are either the same opcode or
  both unknown to \<open>GetOpName\<close>.
\<close>

theorem GetOpName_inj:
  "GetOpName a = GetOpName b \<longleftrightarrow>
   a = b \<or> (a \<notin> fst ` set opcode_names \<and> b \<notin> fst ` set opcode_names)"
proof
  assume eq: "GetOpName a = GetOpName b"
  show "a = b \<or> (a \<notin> fst ` set opcode_names \<and> b \<notin> fst ` set opcode_names)"
  proof (cases "a \<in> fst ` set opcode_names")
    case False
    then show ?thesis using eq GetOpName_known by metis
  next
    case True
    then have "GetOpName b \<noteq> ''OP_UNKNOWN''" using eq GetOpName_known by metis
    then obtain x y where "map_of opcode_names a = Some x" "map_of opcode_names b = Some y"
      using True GetOpName_known [of b] by (meson map_of_eq_None_iff not_None_eq)
    then have "(a, x) \<in> set opcode_names" "(b, x) \<in> set opcode_names"
      using eq by (auto simp: GetOpName_def dest: map_of_SomeD)
    moreover have "inj_on snd (set opcode_names)"
      using opcode_names_distinct by (simp add: distinct_map)
    ultimately have "(a, x) = (b, x)" by (intro inj_onD [of snd]) simp_all
    then show ?thesis by simp
  qed
next
  assume "a = b \<or> (a \<notin> fst ` set opcode_names \<and> b \<notin> fst ` set opcode_names)"
  then show "GetOpName a = GetOpName b" using GetOpName_known by metis
qed

end
