(* ===== verification/Script_Num.thy ===== *)
theory Script_Num imports Script_Ops begin

text \<open>
  \<open>class CScriptNum\<close> of \<open>src/src/script.h\<close>: the numbers of the script language. A number is a
  64-bit signed integer in the program (\<open>int\<close> here, with the range stated where it matters)
  and a little-endian sign-magnitude byte string on the stack. Operands are at most four bytes
  long; results may be longer and are then only usable as byte strings.
\<close>

unbundle bit_operations_syntax

definition nMaxNumSize :: nat where "nMaxNumSize = 4"

text \<open>\<open>set_vch\<close>: the loop ORs the shifted bytes into an \<open>int64_t\<close>.\<close>

fun set_vch_loop :: "nat \<Rightarrow> u64 \<Rightarrow> bytes \<Rightarrow> u64" where
  "set_vch_loop i result [] = result"
| "set_vch_loop i result (b # bs) = set_vch_loop (Suc i) (result OR push_bit (8 * i) (ucast b)) bs"

definition set_vch :: "bytes \<Rightarrow> int" where
  "set_vch vch =
     (if vch = [] then 0
      else let result = set_vch_loop 0 0 vch
           in if last vch AND 0x80 \<noteq> 0
              then - sint (result AND NOT (push_bit (8 * (length vch - 1)) 0x80))
              else sint result)"

text \<open>The constructor from a stack element; \<open>None\<close> is the exception \<open>scriptnum_error\<close>.\<close>

definition CScriptNum_of_vch :: "bytes \<Rightarrow> bool \<Rightarrow> int option" where
  "CScriptNum_of_vch vch fRequireMinimal =
     (if nMaxNumSize < length vch then None
      else if fRequireMinimal \<and> 0 < length vch \<and> last vch AND 0x7f = 0
              \<and> (length vch \<le> 1 \<or> vch ! (length vch - 2) AND 0x80 = 0) then None
      else Some (set_vch vch))"

function serialize_loop :: "u64 \<Rightarrow> bytes" where
  "serialize_loop absvalue =
     (if absvalue = 0 then [] else ucast (absvalue AND 0xff) # serialize_loop (drop_bit 8 absvalue))"
  by pat_completeness auto
termination
  by (relation "measure unat") (simp_all add: drop_bit_eq_div unat_div unat_gt_0)

declare serialize_loop.simps [simp del]

definition CScriptNum_serialize :: "int \<Rightarrow> bytes" where
  "CScriptNum_serialize value =
     (if value = 0 then []
      else let neg = value < 0;
               absvalue = of_int (if neg then - value else value);
               result = serialize_loop absvalue
           in if last result AND 0x80 \<noteq> 0 then result @ [if neg then 0x80 else 0]
              else if neg then butlast result @ [last result OR 0x80]
              else result)"

definition CScriptNum_getint :: "int \<Rightarrow> int" where
  "CScriptNum_getint m_value =
     (if m_value > 2 ^ 31 - 1 then 2 ^ 31 - 1
      else if m_value < - (2 ^ 31) then - (2 ^ 31)
      else m_value)"

text \<open>
  The operators that can leave the \<open>int64_t\<close> range: \<open>None\<close> is a failed \<open>assert\<close> (or, for the
  operators without one, signed overflow).
\<close>

definition int64 :: "int \<Rightarrow> bool" where
  "int64 n \<longleftrightarrow> - (2 ^ 63) \<le> n \<and> n < 2 ^ 63"

definition CScriptNum_plus :: "int \<Rightarrow> int \<Rightarrow> int option" where
  "CScriptNum_plus a b = (if int64 (a + b) then Some (a + b) else None)"

definition CScriptNum_minus :: "int \<Rightarrow> int \<Rightarrow> int option" where
  "CScriptNum_minus a b = (if int64 (a - b) then Some (a - b) else None)"

definition CScriptNum_neg :: "int \<Rightarrow> int option" where
  "CScriptNum_neg a = (if a \<noteq> - (2 ^ 63) then Some (- a) else None)"

definition CScriptNum_add_assign :: "int \<Rightarrow> int \<Rightarrow> int option" where
  "CScriptNum_add_assign a rhs =
     (if rhs = 0 \<or> (rhs > 0 \<and> a \<le> (2 ^ 63 - 1) - rhs) \<or> (rhs < 0 \<and> a \<ge> - (2 ^ 63) - rhs)
      then Some (a + rhs) else None)"

definition CScriptNum_sub_assign :: "int \<Rightarrow> int \<Rightarrow> int option" where
  "CScriptNum_sub_assign a rhs =
     (if rhs = 0 \<or> (rhs > 0 \<and> a \<ge> - (2 ^ 63) + rhs) \<or> (rhs < 0 \<and> a \<le> (2 ^ 63 - 1) + rhs)
      then Some (a - rhs) else None)"

subsection \<open>The value of a byte string\<close>

fun le_val :: "bytes \<Rightarrow> nat" where
  "le_val [] = 0"
| "le_val (b # bs) = unat b + 256 * le_val bs"

fun le_bytes :: "nat \<Rightarrow> bytes" where
  "le_bytes n = (if n = 0 then [] else of_nat (n mod 256) # le_bytes (n div 256))"

declare le_bytes.simps [simp del]

text \<open>Sign-magnitude, the sign in the top bit of the last byte.\<close>

definition signed_value :: "bytes \<Rightarrow> int" where
  "signed_value vch =
     (if vch = [] then 0
      else if 128 \<le> unat (last vch)
      then - int (le_val (butlast vch) + 256 ^ (length vch - 1) * (unat (last vch) - 128))
      else int (le_val vch))"

lemma le_val_append: "le_val (xs @ ys) = le_val xs + 256 ^ length xs * le_val ys"
  by (induction xs) (simp_all add: algebra_simps)

lemma le_val_less: "le_val bs < 256 ^ length bs"
proof (induction bs)
  case (Cons b bs)
  then have "le_val bs + 1 \<le> 256 ^ length bs" by simp
  then have "256 * (le_val bs + 1) \<le> 256 * 256 ^ length bs" by (rule mult_le_mono2)
  then have "256 * le_val bs + 256 \<le> 256 * 256 ^ length bs" by (simp only: distrib_left mult_1_right)
  moreover have "unat b < 256" by simp
  ultimately have "unat b + 256 * le_val bs < 256 * 256 ^ length bs" by linarith
  then show ?case by simp
qed simp

lemma le_val_last:
  "bs \<noteq> [] \<Longrightarrow> le_val bs = le_val (butlast bs) + 256 ^ (length bs - 1) * unat (last bs)"
  using le_val_append [of "butlast bs" "[last bs]"] by simp

lemma le_val_le_bytes: "le_val (le_bytes n) = n"
proof (induction n rule: le_bytes.induct)
  case (1 n)
  show ?case
  proof (cases "n = 0")
    case True
    then show ?thesis by (simp add: le_bytes.simps [of 0])
  next
    case False
    then have "le_bytes n = of_nat (n mod 256) # le_bytes (n div 256)"
      by (simp add: le_bytes.simps [of n])
    then show ?thesis using 1 False by (simp add: unat_of_nat)
  qed
qed

lemma le_val_pos: "bs \<noteq> [] \<Longrightarrow> last bs \<noteq> 0 \<Longrightarrow> 0 < le_val bs"
  by (simp add: le_val_last unat_gt_0)

lemma le_bytes_le_val: "bs = [] \<or> last bs \<noteq> 0 \<Longrightarrow> le_bytes (le_val bs) = bs"
proof (induction bs)
  case Nil
  then show ?case by (simp add: le_bytes.simps [of 0])
next
  case (Cons b bs)
  have pos: "le_val (b # bs) \<noteq> 0" using le_val_pos [of "b # bs"] Cons.prems by simp
  have "le_bytes (le_val (b # bs)) =
      of_nat (le_val (b # bs) mod 256) # le_bytes (le_val (b # bs) div 256)"
    using pos by (subst le_bytes.simps) simp
  moreover have "le_val (b # bs) mod 256 = unat b" "le_val (b # bs) div 256 = le_val bs" by simp_all
  moreover have "le_bytes (le_val bs) = bs"
    using Cons by (cases "bs = []") auto
  ultimately show ?case by simp
qed

lemma le_bytes_props:
  "n \<noteq> 0 \<Longrightarrow> le_bytes n \<noteq> [] \<and> last (le_bytes n) \<noteq> 0"
proof (induction n rule: le_bytes.induct)
  case (1 n)
  have eq: "le_bytes n = of_nat (n mod 256) # le_bytes (n div 256)"
    using 1(2) by (simp add: le_bytes.simps [of n])
  show ?case
  proof (cases "n div 256 = 0")
    case True
    then have "n mod 256 = n" "n < 256" by simp_all
    moreover from this have "unat (of_nat n :: byte) = n" by (simp add: unat_of_nat)
    ultimately show ?thesis using 1(2) eq True by (auto simp: le_bytes.simps [of 0])
  next
    case False
    then show ?thesis using 1 eq by auto
  qed
qed

subsection \<open>The loops of the code compute it\<close>

lemma byte_low_bits: "unat (b AND 0x7f :: byte) = unat b mod 128"
proof -
  have "unat (take_bit 7 b) = take_bit 7 (unat b)" by (rule unsigned_take_bit_eq)
  moreover have "take_bit 7 b = b AND 0x7f" by (simp add: take_bit_eq_mask mask_eq_exp_minus_1 del: take_bit_eq_mod)
  ultimately show ?thesis by (simp add: take_bit_eq_mod)
qed

lemma byte_low_bits_zero: "b AND 0x7f = 0 \<longleftrightarrow> unat (b :: byte) mod 128 = 0"
  by (metis byte_low_bits unat_0_iff)

lemma byte_set_sign: "unat (b :: byte) < 128 \<Longrightarrow> unat (b OR 0x80) = unat b + 128"
proof -
  assume "unat b < 128"
  then have "b AND 0x80 = 0" by (simp add: byte_sign_clear)
  then have "b OR 0x80 = b + 0x80" by (simp add: disjunctive_add_eq_or)
  then show ?thesis using \<open>unat b < 128\<close> by (simp add: unat_word_ariths)
qed

lemma or_push_bit_disjoint:
  fixes r c :: u64
  assumes r: "unat r < 2 ^ k" and c: "unat c < 2 ^ m" and km: "k + m \<le> 64"
  shows "unat (r OR push_bit k c) = unat r + 2 ^ k * unat c"
proof -
  have "take_bit k r = r"
    using r by (metis take_bit_nat_eq_self unsigned_take_bit_eq unsigned_word_eqI)
  then have b: "bit r n \<Longrightarrow> n < k" for n by (metis bit_take_bit_iff)
  have "r AND push_bit k c = 0" by (rule bit_word_eqI) (auto simp: bit_simps dest: b)
  then have o: "r OR push_bit k c = r + push_bit k c" by (simp add: disjunctive_add_eq_or)
  have "2 ^ k * unat c + 2 ^ k \<le> 2 ^ k * 2 ^ m" using c mult_le_mono2 [of "unat c + 1" "2 ^ m" "2 ^ k"]
    by (simp add: distrib_left)
  also have "\<dots> \<le> 2 ^ 64"
    using km power_increasing [of "k + m" 64 "2 :: nat"] by (simp flip: power_add)
  finally have le: "2 ^ k * unat c + 2 ^ k \<le> 2 ^ 64" .
  have lt: "2 ^ k * unat c < 2 ^ 64" using le zero_less_power [of "2 :: nat" k] by linarith
  have p: "unat (push_bit k c) = 2 ^ k * unat c"
    unfolding unsigned_push_bit_eq using take_bit_nat_eq_self [OF lt] by (simp add: push_bit_eq_mult mult.commute)
  show ?thesis unfolding o unat_plus_if' p using r le by simp
qed


lemma set_vch_loop_val:
  "unat r < 2 ^ (8 * i) \<Longrightarrow> i + length bs \<le> 8 \<Longrightarrow>
   unat (set_vch_loop i r bs) = unat r + 2 ^ (8 * i) * le_val bs"
proof (induction bs arbitrary: i r)
  case (Cons b bs)
  have b: "unat (ucast b :: u64) < 2 ^ 8" "unat (ucast b :: u64) = unat b"
    using unat_byte_less [of b] take_bit_nat_eq_self [of "unat b" 64]
    by (simp_all add: unsigned_ucast_eq del: unat_byte_less)
  have o: "unat (r OR push_bit (8 * i) (ucast b)) = unat r + 2 ^ (8 * i) * unat b"
    using or_push_bit_disjoint [OF Cons.prems(1) b(1)] Cons.prems(2) b(2) by simp
  have "unat b + 1 \<le> 256" using unat_byte_less [of b] by linarith
  then have "2 ^ (8 * i) * (unat b + 1) \<le> 2 ^ (8 * i) * (256 :: nat)" by (rule mult_le_mono2)
  then have "2 ^ (8 * i) * unat b + 2 ^ (8 * i) \<le> (2 ^ (8 * i) * 256 :: nat)"
    by (simp only: distrib_left mult_1_right)
  then have "unat (r OR push_bit (8 * i) (ucast b)) < 2 ^ (8 * i) * 256"
    using o Cons.prems(1) by linarith
  then have "unat (r OR push_bit (8 * i) (ucast b)) < 2 ^ (8 * Suc i)"
    by (simp add: power_add)
  from Cons.IH [OF this] show ?case
    using Cons.prems(2) o by (simp add: power_add algebra_simps)
qed simp

lemma sint_small: "unat (w :: u64) < 2 ^ 63 \<Longrightarrow> sint w = int (unat w)"
proof -
  assume "unat w < 2 ^ 63"
  then have "int (unat w) < int (2 ^ 63)" by (simp only: of_nat_less_iff)
  then have "uint w < 2 ^ 63" by simp
  then have "signed_take_bit 63 (uint w) = uint w"
    by (intro signed_take_bit_int_eq_self) (simp_all add: order_trans [OF _ uint_ge_0])
  then have "sint w = uint w" by (simp add: sint_uint)
  then show ?thesis by simp
qed

lemma set_vch_value:
  assumes len: "length vch \<le> 7"
  shows "set_vch vch = signed_value vch"
proof (cases "vch = []")
  case True
  then show ?thesis by (simp add: set_vch_def signed_value_def)
next
  case False
  let ?n = "length vch - 1"
  define result where "result = set_vch_loop 0 0 vch"
  have v: "unat result = le_val vch" using set_vch_loop_val [of 0 0 vch] len by (simp add: result_def)
  have "le_val vch < 256 ^ length vch" by (rule le_val_less)
  also have "\<dots> \<le> 256 ^ 7" using len by (intro power_increasing) simp_all
  finally have small: "unat result < 2 ^ 63" using v by simp
  show ?thesis
  proof (cases "128 \<le> unat (last vch)")
    case False
    then have "last vch AND 0x80 = 0" by (simp add: byte_sign_clear)
    then show ?thesis using \<open>vch \<noteq> []\<close> False v sint_small [OF small]
      by (simp add: set_vch_def signed_value_def flip: result_def)
  next
    case True
    define m :: u64 where "m = push_bit (8 * ?n) 0x80"
    have "(2 :: nat) ^ (8 * ?n) = 256 ^ ?n" by (simp add: power_mult)
    moreover have "(256 :: nat) ^ ?n \<le> 256 ^ 6" using len by (intro power_increasing) simp_all
    ultimately have m: "unat m = 256 ^ ?n * 128"
      by (simp add: m_def unsigned_push_bit_eq push_bit_nat_def take_bit_nat_eq_self)
    have lv: "le_val vch = le_val (butlast vch) + 256 ^ ?n * unat (last vch)"
      using \<open>vch \<noteq> []\<close> by (rule le_val_last)
    let ?k = "8 * ?n + 7" and ?rest = "le_val (butlast vch) + 256 ^ ?n * (unat (last vch) - 128)"
    have p: "(256 :: nat) ^ ?n = 2 ^ (8 * ?n)" by (simp add: power_mult)
    have "le_val (butlast vch) < 256 ^ ?n" using le_val_less [of "butlast vch"] by simp
    moreover have "unat (last vch) - 128 + 1 \<le> 128" using unat_byte_less [of "last vch"] by linarith
    then have "256 ^ ?n * (unat (last vch) - 128 + 1) \<le> 256 ^ ?n * 128" by (rule mult_le_mono2)
    then have "256 ^ ?n * (unat (last vch) - 128) + 256 ^ ?n \<le> 256 ^ ?n * 128"
      by (simp only: distrib_left mult_1_right)
    ultimately have "?rest < 256 ^ ?n * 128" by linarith
    then have rest: "?rest < 2 ^ ?k" by (simp add: power_mult power_add)
    have "256 ^ ?n * unat (last vch) = 256 ^ ?n * 128 + 256 ^ ?n * (unat (last vch) - 128)"
      using True by (simp flip: distrib_left)
    then have sum: "unat result = 2 ^ ?k + ?rest" using v lv by (simp add: power_mult power_add)
    have "unat result div 2 ^ ?k = 1" using rest sum by (simp add: div_nat_eqI)
    then have "bit (unat result) ?k" by (simp add: bit_iff_odd)
    then have bit: "bit result ?k" by (simp add: bit_unsigned_iff)
    have "m = push_bit ?k 1" using push_bit_push_bit [of "8 * ?n" 7 "1 :: u64"] by (simp add: m_def)
    then have "result AND m = m"
      using bit by (intro bit_word_eqI) (auto simp: bit_simps)
    moreover have "result = (result AND NOT m) + (result AND m)"
      by (subst disjunctive_add_eq_or; intro bit_word_eqI) (auto simp: bit_simps)
    ultimately have "result AND NOT m = result - m" by (metis add_diff_cancel_right')
    moreover have "unat m \<le> unat result" using m sum by (simp add: power_mult power_add)
    ultimately have clear: "unat (result AND NOT m) = ?rest"
      using sum m by (simp add: unat_sub word_le_nat_alt power_mult power_add)
    have "unat (result AND NOT m) < 2 ^ 63" using clear sum small by linarith
    then have "sint (result AND NOT m) = int ?rest" using clear sint_small by metis
    moreover have "set_vch vch = - sint (result AND NOT m)"
      using \<open>vch \<noteq> []\<close> True byte_sign_bit [of "last vch"]
      by (simp add: set_vch_def result_def m_def)
    ultimately show ?thesis using \<open>vch \<noteq> []\<close> True by (simp only: signed_value_def if_True if_False)
  qed
qed


lemma serialize_loop_le_bytes: "serialize_loop w = le_bytes (unat w)"
proof (induction w rule: serialize_loop.induct)
  case (1 w)
  have low: "ucast (w AND 0xff) = (of_nat (unat w mod 256) :: byte)"
  proof -
    have "w AND 0xff = take_bit 8 w" by (simp add: take_bit_eq_mask mask_eq_exp_minus_1 del: take_bit_eq_mod)
    moreover have "unat (take_bit 8 w) = unat w mod 256"
      by (simp add: unat_mod take_bit_eq_mod)
    ultimately show ?thesis by (metis of_nat_unat)
  qed
  show ?case
  proof (cases "w = 0")
    case True
    then show ?thesis by (simp add: serialize_loop.simps [of 0] le_bytes.simps [of 0])
  next
    case False
    then have "serialize_loop w = ucast (w AND 0xff) # serialize_loop (drop_bit 8 w)"
      by (simp add: serialize_loop.simps [of w])
    also have "\<dots> = of_nat (unat w mod 256) # le_bytes (unat w div 256)"
      using 1 [OF False] low by (simp add: unat_div drop_bit_eq_div)
    also have "\<dots> = le_bytes (unat w)" using False by (simp add: le_bytes.simps [of "unat w"] unat_eq_zero)
    finally show ?thesis .
  qed
qed

text \<open>\<open>serialize\<close> on magnitudes.\<close>

definition signed_bytes :: "bool \<Rightarrow> bytes \<Rightarrow> bytes" where
  "signed_bytes neg result =
     (if 128 \<le> unat (last result) then result @ [if neg then 0x80 else 0]
      else if neg then butlast result @ [last result OR 0x80] else result)"

lemma serialize_eq:
  assumes "v \<noteq> 0" "\<bar>v\<bar> < 2 ^ 64"
  shows "CScriptNum_serialize v = signed_bytes (v < 0) (le_bytes (nat \<bar>v\<bar>))"
proof -
  have "unat (of_int (if v < 0 then - v else v) :: u64) = nat \<bar>v\<bar>"
    using assms by (auto simp: unsigned_of_int take_bit_int_eq_self abs_if)
  then show ?thesis
    using assms(1) by (simp only: CScriptNum_serialize_def serialize_loop_le_bytes signed_bytes_def
        byte_sign_bit Let_def if_False)
qed

lemma signed_value_signed_bytes:
  assumes r: "r \<noteq> []" "last r \<noteq> 0"
  shows "signed_value (signed_bytes neg r) = (if neg then - int (le_val r) else int (le_val r))"
proof (cases "128 \<le> unat (last r)")
  case True
  then show ?thesis by (simp add: signed_bytes_def signed_value_def le_val_append)
next
  case False
  then have u: "unat (last r OR 0x80) = unat (last r) + 128" by (simp add: byte_set_sign)
  show ?thesis using False r u le_val_last [OF r(1)]
    by (simp add: signed_bytes_def signed_value_def)
qed

text \<open>The magnitude decides the length: four bytes hold exactly 31 bits.\<close>

lemma signed_bytes_length:
  assumes r: "r \<noteq> []" "last r \<noteq> 0"
  shows "length (signed_bytes neg r) \<le> Suc k \<longleftrightarrow> le_val r < 128 * 256 ^ k"
proof -
  obtain n where n: "length r = Suc n" using r(1) by (cases r) auto
  have lv: "le_val r = le_val (butlast r) + 256 ^ n * unat (last r)"
    using le_val_last [OF r(1)] n by simp
  have lo: "le_val (butlast r) < 256 ^ n" using le_val_less [of "butlast r"] n by simp
  show ?thesis
  proof (cases "128 \<le> unat (last r)")
    case True
    have "256 ^ n * 128 \<le> 256 ^ n * unat (last r)" using True by (rule mult_le_mono2)
    then have ge: "128 * 256 ^ n \<le> le_val r" using lv by linarith
    have lt: "le_val r < 256 ^ Suc n" using le_val_less [of r] n by simp
    have "length (signed_bytes neg r) = Suc (Suc n)" using True n by (simp add: signed_bytes_def)
    moreover have "le_val r < 128 * 256 ^ k" if "Suc n \<le> k"
    proof -
      have "(256 :: nat) ^ Suc n \<le> 256 ^ k" using that by (intro power_increasing) simp_all
      then show ?thesis using lt by linarith
    qed
    moreover have "\<not> le_val r < 128 * 256 ^ k" if "k \<le> n"
    proof -
      have "(256 :: nat) ^ k \<le> 256 ^ n" using that by (intro power_increasing) simp_all
      then show ?thesis using ge by linarith
    qed
    ultimately show ?thesis by (metis Suc_le_mono not_less_eq_eq)
  next
    case False
    have "256 ^ n * (unat (last r) + 1) \<le> 256 ^ n * 128" using False by (intro mult_le_mono2) simp
    then have "256 ^ n * unat (last r) + 256 ^ n \<le> 256 ^ n * 128" by (simp only: distrib_left mult_1_right)
    then have lt: "le_val r < 128 * 256 ^ n" using lv lo by linarith
    have "1 \<le> unat (last r)" using r(2) by (simp add: Suc_le_eq unat_gt_0)
    then have "256 ^ n * 1 \<le> 256 ^ n * unat (last r)" by (rule mult_le_mono2)
    then have ge: "256 ^ n \<le> le_val r" using lv by linarith
    have "length (signed_bytes neg r) = Suc n" using False n by (simp add: signed_bytes_def)
    moreover have "le_val r < 128 * 256 ^ k" if "n \<le> k"
    proof -
      have "(256 :: nat) ^ n \<le> 256 ^ k" using that by (intro power_increasing) simp_all
      then show ?thesis using lt by linarith
    qed
    moreover have "\<not> le_val r < 128 * 256 ^ k" if "Suc k \<le> n"
    proof -
      have "(256 :: nat) ^ Suc k \<le> 256 ^ n" using that by (intro power_increasing) simp_all
      then show ?thesis using ge by simp
    qed
    ultimately show ?thesis by (metis Suc_le_mono not_less_eq_eq)
  qed
qed

definition minimally_encoded :: "bytes \<Rightarrow> bool" where
  "minimally_encoded vch \<longleftrightarrow>
     vch = [] \<or> unat (last vch) mod 128 \<noteq> 0
     \<or> (2 \<le> length vch \<and> 128 \<le> unat (last (butlast vch)))"

lemma ctor_eq:
  "CScriptNum_of_vch vch req =
     (if length vch \<le> 4 \<and> (req \<longrightarrow> minimally_encoded vch) then Some (signed_value vch) else None)"
proof -
  have nth: "vch ! (length vch - 2) = last (butlast vch)" if "2 \<le> length vch"
  proof -
    have "butlast vch \<noteq> []" using that by (cases vch) auto
    then have "last (butlast vch) = vch ! (length vch - 1 - 1)"
      using that by (simp add: last_conv_nth nth_butlast)
    then show ?thesis by (simp add: numeral_2_eq_2)
  qed
  have "(0 < length vch \<and> last vch AND 0x7f = 0
      \<and> (length vch \<le> 1 \<or> vch ! (length vch - 2) AND 0x80 = 0)) \<longleftrightarrow> \<not> minimally_encoded vch"
  proof (cases "2 \<le> length vch")
    case True
    then show ?thesis using nth [OF True]
      by (auto simp: minimally_encoded_def byte_low_bits_zero byte_sign_clear)
  next
    case False
    then show ?thesis by (auto simp: minimally_encoded_def byte_low_bits_zero)
  qed
  then show ?thesis
    by (auto simp: CScriptNum_of_vch_def nMaxNumSize_def set_vch_value)
qed

lemma minimally_encoded_signed_bytes:
  assumes r: "r \<noteq> []" "last r \<noteq> 0"
  shows "minimally_encoded (signed_bytes neg r)"
proof -
  have "0 < unat (last r)" using r(2) by (simp add: unat_gt_0)
  moreover have "unat (last r OR 0x80) = unat (last r) + 128" if "unat (last r) < 128"
    using that by (rule byte_set_sign)
  ultimately show ?thesis
    using r(1) by (cases r) (auto simp: minimally_encoded_def signed_bytes_def not_le Suc_le_eq)
qed


lemma ctor_bound:
  assumes "CScriptNum_of_vch vch req = Some v"
  shows "\<bar>v\<bar> < 2 ^ 31"
proof -
  have len: "length vch \<le> 4" and v: "v = signed_value vch"
    using assms by (simp_all add: ctor_eq split: if_splits)
  show ?thesis
  proof (cases "vch = []")
    case True
    then show ?thesis using v by (simp add: signed_value_def)
  next
    case False
    then obtain n where n: "length vch = Suc n" by (cases vch) auto
    have "(256 :: nat) ^ n \<le> 256 ^ 3" using len n by (intro power_increasing) simp_all
    then have p: "128 * 256 ^ n \<le> (2 ^ 31 :: nat)" by simp
    have lo: "le_val (butlast vch) < 256 ^ n" using le_val_less [of "butlast vch"] n by simp
    have hi: "le_val (butlast vch) + 256 ^ n * x < 2 ^ 31" if "x < 128" for x
    proof -
      have "256 ^ n * (x + 1) \<le> 256 ^ n * 128" using that by (intro mult_le_mono2) simp
      then have "256 ^ n * x + 256 ^ n \<le> 256 ^ n * 128" by (simp only: distrib_left mult_1_right)
      then show ?thesis using lo p by linarith
    qed
    have "unat (last vch) - 128 < 128" using unat_byte_less [of "last vch"] by linarith
    from hi [OF this] have 1: "int (le_val (butlast vch) + 256 ^ n * (unat (last vch) - 128)) < 2 ^ 31"
      by (simp only: of_nat_less_iff [symmetric, where 'a = int] of_nat_power of_nat_numeral)
    have 2: "int (le_val vch) < 2 ^ 31" if "\<not> 128 \<le> unat (last vch)"
    proof -
      have "le_val vch < 2 ^ 31"
        using hi [of "unat (last vch)"] that le_val_last [OF False] n by simp
      then show ?thesis by simp
    qed
    show ?thesis
    proof (cases "128 \<le> unat (last vch)")
      case True
      then have "v = - int (le_val (butlast vch) + 256 ^ n * (unat (last vch) - 128))"
        using False n v by (simp only: signed_value_def if_True if_False diff_Suc_1)
      then show ?thesis using 1 by (simp only: abs_minus_cancel abs_of_nat)
    next
      case neg: False
      then show ?thesis using 2 False v by (simp add: signed_value_def)
    qed
  qed
qed

lemma serialize_signed_bytes:
  assumes r: "r \<noteq> []" "last r \<noteq> 0" and v: "\<bar>signed_value (signed_bytes neg r)\<bar> < 2 ^ 31"
  shows "CScriptNum_serialize (signed_value (signed_bytes neg r)) = signed_bytes neg r"
proof -
  let ?v = "signed_value (signed_bytes neg r)"
  have pos: "0 < le_val r" using le_val_pos r by blast
  have eq: "?v = (if neg then - int (le_val r) else int (le_val r))"
    by (rule signed_value_signed_bytes [OF r])
  then have "?v \<noteq> 0" "(?v < 0) = neg" "nat \<bar>?v\<bar> = le_val r" using pos by auto
  moreover have "le_bytes (le_val r) = r" using r by (simp add: le_bytes_le_val)
  ultimately show ?thesis using serialize_eq [of ?v] v by simp
qed

lemma minimal_is_signed_bytes:
  assumes "vch \<noteq> []" "minimally_encoded vch"
  obtains neg r where "r \<noteq> []" "last r \<noteq> 0" "vch = signed_bytes neg r"
proof (cases "unat (last vch) mod 128 = 0")
  case False
  define l :: byte where "l = of_nat (unat (last vch) mod 128)"
  have l: "unat l = unat (last vch) mod 128" by (simp add: l_def unat_of_nat)
  then have small: "unat l < 128" by simp
  have ne: "l \<noteq> 0" using False l by (metis unat_0)
  have "last vch = (if 128 \<le> unat (last vch) then l OR 0x80 else l)"
  proof (cases "128 \<le> unat (last vch)")
    case True
    then have "unat (last vch) = unat (last vch) mod 128 + 128"
    proof -
      have "unat (last vch) - 128 < 128" using unat_byte_less [of "last vch"] by linarith
      then show ?thesis using True by (simp add: le_mod_geq)
    qed
    then show ?thesis using True byte_set_sign [OF small] l by (simp add: word_unat_eq_iff)
  next
    case neg: False
    then show ?thesis using l by (simp add: word_unat_eq_iff)
  qed
  then have "vch = signed_bytes (128 \<le> unat (last vch)) (butlast vch @ [l])"
    unfolding signed_bytes_def
    by (metis append_butlast_last_id assms(1) butlast_snoc last_snoc not_le small)
  then show thesis using that [of "butlast vch @ [l]"] ne by simp
next
  case True
  then have len: "2 \<le> length vch" and sec: "128 \<le> unat (last (butlast vch))"
    using assms by (auto simp: minimally_encoded_def)
  obtain q where q: "unat (last vch) = 128 * q" using True by (auto elim: dvdE simp: mod_0_imp_dvd)
  have "q < 2" using unat_byte_less [of "last vch"] unfolding q by linarith
  then consider "q = 0" | "q = 1" by linarith
  then have l: "last vch = (if 128 \<le> unat (last vch) then 0x80 else 0)"
  proof cases
    case 1
    then have "last vch = 0" using q by (simp add: unat_eq_zero)
    then show ?thesis by simp
  next
    case 2
    then have "unat (last vch) = unat (0x80 :: byte)" using q by simp
    then have "last vch = 0x80" by (simp only: word_unat_eq_iff)
    then show ?thesis by simp
  qed
  have "signed_bytes (128 \<le> unat (last vch)) (butlast vch) = butlast vch @ [last vch]"
    unfolding signed_bytes_def using sec l by (simp only: if_True)
  then have "vch = signed_bytes (128 \<le> unat (last vch)) (butlast vch)"
    using assms(1) by simp
  moreover have "butlast vch \<noteq> []" using len by (cases vch) auto
  moreover have "last (butlast vch) \<noteq> 0" using sec by auto
  ultimately show thesis using that by blast
qed

subsection \<open>Properties\<close>

text \<open>
  C35. What is written to the stack for a number is minimally encoded. Reading it back gives the number when its
  magnitude is below \<open>2 ^ 31\<close> and is refused otherwise, whether \<open>SCRIPT_VERIFY_MINIMALDATA\<close> is asked for or
  not. The numbers are those of \<open>int64_t\<close> but the least one, whose negation in the serialiser overflows.
\<close>

theorem CScriptNum_roundtrip:
  assumes "\<bar>v\<bar> < 2 ^ 63"
  shows "minimally_encoded (CScriptNum_serialize v)
    \<and> CScriptNum_of_vch (CScriptNum_serialize v) req = (if \<bar>v\<bar> < 2 ^ 31 then Some v else None)"
proof (cases "v = 0")
  case True
  then show ?thesis by (simp add: CScriptNum_serialize_def ctor_eq minimally_encoded_def signed_value_def)
next
  case False
  let ?r = "le_bytes (nat \<bar>v\<bar>)"
  have r: "?r \<noteq> []" "last ?r \<noteq> 0" using le_bytes_props [of "nat \<bar>v\<bar>"] False by simp_all
  have s: "CScriptNum_serialize v = signed_bytes (v < 0) ?r"
    using serialize_eq [OF False] assms by simp
  have "length (signed_bytes (v < 0) ?r) \<le> 4 \<longleftrightarrow> nat \<bar>v\<bar> < 128 * 256 ^ 3"
    using signed_bytes_length [OF r, of "v < 0" 3] by (simp add: le_val_le_bytes)
  also have "\<dots> \<longleftrightarrow> \<bar>v\<bar> < 2 ^ 31" by (simp add: nat_less_iff)
  finally have len: "length (signed_bytes (v < 0) ?r) \<le> 4 \<longleftrightarrow> \<bar>v\<bar> < 2 ^ 31" .
  show ?thesis
    unfolding s ctor_eq using minimally_encoded_signed_bytes [OF r] len
    by (auto simp: signed_value_signed_bytes [OF r] le_val_le_bytes)
qed

theorem CScriptNum_roundtrip_witness:
  "minimally_encoded (CScriptNum_serialize (- 255)) \<and> CScriptNum_of_vch (CScriptNum_serialize (- 255)) True = Some (- 255)
   \<and> CScriptNum_of_vch (CScriptNum_serialize (2 ^ 31)) False = None"
  using CScriptNum_roundtrip [of "- 255" True] CScriptNum_roundtrip [of "2 ^ 31" False] by simp

text \<open>
  With \<open>SCRIPT_VERIFY_MINIMALDATA\<close> there is exactly one accepted encoding of a number: an
  accepted operand is what \<open>getvch\<close> writes for its value, and the value fits in 31 bits and a
  sign.
\<close>

theorem CScriptNum_minimal_unique:
  assumes "CScriptNum_of_vch vch True = Some v"
  shows "CScriptNum_serialize v = vch \<and> \<bar>v\<bar> < 2 ^ 31"
proof
  show b: "\<bar>v\<bar> < 2 ^ 31" using ctor_bound [OF assms] .
  have min: "minimally_encoded vch" and v: "v = signed_value vch"
    using assms by (simp_all add: ctor_eq split: if_splits)
  show "CScriptNum_serialize v = vch"
  proof (cases "vch = []")
    case True
    then show ?thesis using v by (simp add: signed_value_def CScriptNum_serialize_def)
  next
    case False
    obtain neg r where "r \<noteq> []" "last r \<noteq> 0" "vch = signed_bytes neg r"
      using minimal_is_signed_bytes [OF False min] .
    then show ?thesis using serialize_signed_bytes [of r neg] b v by simp
  qed
qed

theorem CScriptNum_minimal_unique_witness:
  "CScriptNum_serialize (- 255) = [0xff, 0x80] \<and> \<bar>- 255 :: int\<bar> < 2 ^ 31"
  by (rule CScriptNum_minimal_unique) code_simp

text \<open>
  Arithmetic on accepted operands never leaves the 64-bit range: none of the \<open>assert\<close>s of
  \<open>operator+=\<close>, \<open>operator-=\<close> and unary minus fires and no addition or subtraction
  overflows.
\<close>

theorem CScriptNum_ops_defined:
  assumes a: "CScriptNum_of_vch va ra = Some a" and b: "CScriptNum_of_vch vb rb = Some b"
  shows "CScriptNum_plus a b = Some (a + b) \<and> CScriptNum_minus a b = Some (a - b)
    \<and> CScriptNum_neg a = Some (- a) \<and> CScriptNum_add_assign a b = Some (a + b)
    \<and> CScriptNum_sub_assign a b = Some (a - b) \<and> CScriptNum_getint a = a"
  using ctor_bound [OF a] ctor_bound [OF b]
  by (auto simp: CScriptNum_plus_def CScriptNum_minus_def CScriptNum_neg_def int64_def
      CScriptNum_add_assign_def CScriptNum_sub_assign_def CScriptNum_getint_def abs_if
      split: if_splits)

theorem CScriptNum_ops_defined_witness:
  "CScriptNum_plus (- 127) 5 = Some (- 127 + 5) \<and> CScriptNum_minus (- 127) 5 = Some (- 127 - 5)
    \<and> CScriptNum_neg (- 127) = Some (- (- 127)) \<and> CScriptNum_add_assign (- 127) 5 = Some (- 127 + 5)
    \<and> CScriptNum_sub_assign (- 127) 5 = Some (- 127 - 5) \<and> CScriptNum_getint (- 127) = - 127"
  by (rule CScriptNum_ops_defined [of "[0xff]" True _ "[5, 0]" False]) code_simp+

end
