(* ===== verification/Serialize.thy ===== *)
theory Serialize imports Script_Num "HOL-Library.Monad_Syntax" begin

text \<open>
  \<open>src/src/serialize.h\<close>: integers, compact sizes, variable-length integers and vectors. A
  \<open>Serialize\<close> is the bytes it writes, an \<open>Unserialize\<close> takes the bytes of the stream and
  returns the object with the rest; \<open>None\<close> is the \<open>ios_base::failure\<close> that both a short stream
  and a malformed size raise. The locale \<open>serializable\<close> is the contract every pair of them
  keeps: what was written is read back, and only what \<open>Serialize\<close> writes is accepted.
\<close>

unbundle bit_operations_syntax

type_synonym 'a reader = "bytes \<Rightarrow> ('a \<times> bytes) option"

subsection \<open>Fixed-width integers\<close>

text \<open>\<open>WRITEDATA\<close> and \<open>READDATA\<close> of an integer of \<open>k\<close> bytes on a little-endian machine.\<close>

primrec le_fixed :: "nat \<Rightarrow> nat \<Rightarrow> bytes" where
  "le_fixed 0 n = []"
| "le_fixed (Suc k) n = of_nat (n mod 256) # le_fixed k (n div 256)"

definition read_bytes :: "nat \<Rightarrow> bytes reader" where
  "read_bytes n s = (if length s < n then None else Some (take n s, drop n s))"

definition WRITEDATA :: "nat \<Rightarrow> 'a::len word \<Rightarrow> bytes" where
  "WRITEDATA k w = le_fixed k (unat w)"

definition READDATA :: "nat \<Rightarrow> 'a::len word reader" where
  "READDATA k s = do { (bs, t) \<leftarrow> read_bytes k s; Some (of_nat (le_val bs), t) }"

lemma length_le_fixed [simp]: "length (le_fixed k n) = k"
  by (induction k arbitrary: n) simp_all

lemma le_val_le_fixed: "n < 256 ^ k \<Longrightarrow> le_val (le_fixed k n) = n"
proof (induction k arbitrary: n)
  case (Suc k)
  then have "n div 256 < 256 ^ k" by (simp add: less_mult_imp_div_less mult.commute)
  then show ?case using Suc.IH by (simp add: unat_byte_of_nat)
qed simp

lemma le_fixed_le_val: "le_fixed (length bs) (le_val bs) = bs"
proof (induction bs)
  case (Cons b bs)
  have b: "unat b < 256" by simp
  then have "(unat b + 256 * le_val bs) mod 256 = unat b" "(unat b + 256 * le_val bs) div 256 = le_val bs"
    by simp_all
  then show ?case using Cons by simp
qed simp

lemma read_bytes_append [codec_simps]: "read_bytes (length xs) (xs @ s) = Some (xs, s)"
  by (simp add: read_bytes_def)

lemma read_bytes_Some: "read_bytes n s = Some (xs, t) \<Longrightarrow> s = xs @ t \<and> length xs = n"
  by (auto simp: read_bytes_def split: if_splits)

lemma length_WRITEDATA [len_simps, simp]: "length (WRITEDATA k w) = k"
  by (simp add: WRITEDATA_def)

lemma unat_less_bytes: "LENGTH('a) = 8 * k \<Longrightarrow> unat (w :: 'a::len word) < 256 ^ k"
  using unsigned_less [of w] by (simp add: power_mult)

lemma READDATA_WRITEDATA [codec_simps]:
  assumes "LENGTH('a) = 8 * k"
  shows "READDATA k (WRITEDATA k (w :: 'a::len word) @ s) = Some (w, s)"
  using read_bytes_append [of "WRITEDATA k w" s] le_val_le_fixed [OF unat_less_bytes [OF assms, of w]]
  by (simp add: READDATA_def) (simp add: WRITEDATA_def)

lemma READDATA_Some:
  assumes "LENGTH('a) = 8 * k" "READDATA k s = Some (w :: 'a::len word, t)"
  shows "s = WRITEDATA k w @ t"
proof -
  obtain xs where xs: "read_bytes k s = Some (xs, t)" "w = of_nat (le_val xs)"
    using assms(2) by (auto simp: READDATA_def bind_eq_Some_conv)
  then have 1: "s = xs @ t" "length xs = k" using read_bytes_Some by blast+
  have "le_val xs < 2 ^ LENGTH('a)" using le_val_less [of xs] 1 assms(1) by (simp add: power_mult)
  then have "unat w = le_val xs" using xs(2) by (simp add: unat_of_nat)
  then show ?thesis using 1 le_fixed_le_val [of xs] by (simp add: WRITEDATA_def)
qed

subsection \<open>The contract\<close>

locale serializable =
  fixes Ser :: "'a \<Rightarrow> bytes" and Unser :: "'a reader" and wf :: "'a \<Rightarrow> bool"
  assumes Unser_Ser: "wf x \<Longrightarrow> Unser (Ser x @ s) = Some (x, s)"
    and Unser_only: "Unser s = Some (x, t) \<Longrightarrow> s = Ser x @ t \<and> wf x"
begin

text \<open>An object has one encoding, and the stream tells where it ends.\<close>

lemma prefix_free: "wf x \<Longrightarrow> wf y \<Longrightarrow> Ser x @ s = Ser y @ t \<Longrightarrow> x = y \<and> s = t"
  by (metis Unser_Ser option.inject prod.inject)

lemma Unser_iff: "Unser s = Some (x, t) \<longleftrightarrow> wf x \<and> s = Ser x @ t"
  by (auto simp: Unser_Ser dest: Unser_only)

end

subsection \<open>Integers keep it\<close>

lemma word_serializable:
  "LENGTH('a) = 8 * k \<Longrightarrow> serializable (WRITEDATA k :: 'a::len word \<Rightarrow> bytes) (READDATA k) (\<lambda>_. True)"
proof
  assume k: "LENGTH('a) = 8 * k"
  show "READDATA k (WRITEDATA k x @ s) = Some (x, s)" for x :: "'a word" and s
    by (rule READDATA_WRITEDATA [OF k])
  show "s = WRITEDATA k x @ t \<and> True" if "READDATA k s = Some (x, t)" for x :: "'a word" and s t
    using READDATA_Some [OF k that] by simp
qed

interpretation int32: serializable "WRITEDATA 4 :: u32 \<Rightarrow> bytes" "READDATA 4" "\<lambda>_. True"
  by (rule word_serializable) simp

interpretation int64: serializable "WRITEDATA 8 :: u64 \<Rightarrow> bytes" "READDATA 8" "\<lambda>_. True"
  by (rule word_serializable) simp

interpretation int16: serializable "WRITEDATA 2 :: 16 word \<Rightarrow> bytes" "READDATA 2" "\<lambda>_. True"
  by (rule word_serializable) simp

interpretation int256: serializable "WRITEDATA 32 :: uint256 \<Rightarrow> bytes" "READDATA 32" "\<lambda>_. True"
  by (rule word_serializable) simp

subsection \<open>Compact sizes\<close>

definition MAX_SIZE :: u64 where "MAX_SIZE = 0x02000000"

definition GetSizeOfCompactSize :: "u64 \<Rightarrow> u32" where
  "GetSizeOfCompactSize nSize =
     (if nSize < 253 then 1 else if nSize \<le> 0xFFFF then 1 + 2
      else if nSize \<le> 0xFFFFFFFF then 1 + 4 else 1 + 8)"

definition WriteCompactSize :: "u64 \<Rightarrow> bytes" where
  "WriteCompactSize nSize =
     (if nSize < 253 then [ucast nSize]
      else if nSize \<le> 0xFFFF then [253] @ WRITEDATA 2 (ucast nSize :: 16 word)
      else if nSize \<le> 0xFFFFFFFF then [254] @ WRITEDATA 4 (ucast nSize :: u32)
      else [255] @ WRITEDATA 8 nSize)"

definition ReadCompactSize :: "u64 reader" where
  "ReadCompactSize s = do {
     (b, s1) \<leftarrow> read_bytes 1 s;
     let chSize = hd b;
     (nSizeRet, s2) \<leftarrow>
       (if chSize < 253 then Some (ucast chSize, s1)
        else if chSize = 253 then do {
          (xSize, t) \<leftarrow> READDATA 2 s1;
          let n = (ucast (xSize :: 16 word) :: u64);
          if n < 253 then None else Some (n, t) }
        else if chSize = 254 then do {
          (xSize, t) \<leftarrow> READDATA 4 s1;
          let n = (ucast (xSize :: u32) :: u64);
          if n < 0x10000 then None else Some (n, t) }
        else do {
          (xSize, t) \<leftarrow> READDATA 8 s1;
          if xSize < 0x100000000 then None else Some (xSize, t) });
     if nSizeRet > MAX_SIZE then None else Some (nSizeRet, s2) }"

lemma ucast_down_up: "unat n < 2 ^ LENGTH('b) \<Longrightarrow> LENGTH('b) \<le> LENGTH('a) \<Longrightarrow>
   ucast (ucast (n :: 'a::len word) :: 'b::len word) = n"
  by (simp add: word_unat_eq_iff unsigned_ucast_eq unsigned_take_bit_eq take_bit_nat_eq_self)

lemma ucast_byte: "n < 256 \<Longrightarrow> ucast (ucast (n :: u64) :: byte) = n"
  by (rule ucast_down_up) (simp_all add: word_less_nat_alt)

lemma ReadCompactSize_Write:
  assumes "n \<le> MAX_SIZE" shows "ReadCompactSize (WriteCompactSize n @ s) = Some (n, s)"
proof -
  have n: "unat n \<le> 0x02000000" using assms by (simp add: MAX_SIZE_def word_le_nat_alt)
  consider "unat n < 253" | "253 \<le> unat n" "unat n \<le> 0xFFFF" | "0xFFFF < unat n" by linarith
  then show ?thesis
  proof cases
    case 1
    then have "unat (ucast n :: byte) = unat n" by (simp add: unsigned_ucast_eq take_bit_nat_eq_self)
    moreover have "ucast (ucast n :: byte) = n" using 1 by (simp add: ucast_byte word_less_nat_alt)
    ultimately show ?thesis using 1 assms
      by (simp add: ReadCompactSize_def WriteCompactSize_def read_bytes_def word_less_nat_alt
          word_le_nat_alt not_less)
  next
    case 2
    have "ucast (ucast n :: 16 word) = n" by (rule ucast_down_up) (use 2 in simp_all)
    then show ?thesis using 2 assms
      by (simp add: ReadCompactSize_def WriteCompactSize_def read_bytes_def word_less_nat_alt
          word_le_nat_alt READDATA_WRITEDATA not_less)
  next
    case 3
    have "ucast (ucast n :: u32) = n" by (rule ucast_down_up) (use 3 n in simp_all)
    then show ?thesis using 3 n assms
      by (simp add: ReadCompactSize_def WriteCompactSize_def read_bytes_def word_less_nat_alt
          word_le_nat_alt READDATA_WRITEDATA not_less)
  qed
qed

lemma take_bit_unat:
  assumes "LENGTH('a) \<le> n" shows "take_bit n (unat (x :: 'a::len word)) = unat x"
proof (rule take_bit_nat_eq_self)
  have "(2 :: nat) ^ LENGTH('a) \<le> 2 ^ n" using assms by (intro power_increasing) simp_all
  then show "unat x < 2 ^ n" using unsigned_less [of x, where ?'a = nat] by (rule less_le_trans [rotated])
qed

lemma unat_up [simp]: "LENGTH('a) \<le> LENGTH('b) \<Longrightarrow> unat (ucast (x :: 'a::len word) :: 'b::len word) = unat x"
  by (simp add: unsigned_ucast_eq unsigned_take_bit_eq take_bit_unat)

lemma ucast_up_down:
  "LENGTH('a) \<le> LENGTH('b) \<Longrightarrow> ucast (ucast (x :: 'a::len word) :: 'b::len word) = x"
  by (simp add: word_unat_eq_iff unsigned_ucast_eq unsigned_take_bit_eq take_bit_unat)

lemma ReadCompactSize_only:
  assumes "ReadCompactSize s = Some (n, t)" shows "s = WriteCompactSize n @ t \<and> n \<le> MAX_SIZE"
proof -
  obtain b s1 where b: "s = b # s1"
    using assms by (cases s) (auto simp: ReadCompactSize_def read_bytes_def)
  have s1: "read_bytes 1 s = Some ([b], s1)" by (simp add: b read_bytes_def)
  have max: "n \<le> MAX_SIZE"
    using assms s1 by (auto simp: ReadCompactSize_def bind_eq_Some_conv not_less split: if_splits)
  consider "b < 253" | "b = 253" | "b = 254" | "b \<notin> {253, 254}" "\<not> b < 253" by blast
  then show ?thesis
  proof cases
    case 1
    then have "n = ucast b" "t = s1"
      using assms s1 by (auto simp: ReadCompactSize_def split: if_splits)
    then show ?thesis using 1 max b
      by (simp add: WriteCompactSize_def word_less_nat_alt ucast_up_down)
  next
    case 2
    then obtain x :: "16 word" where x: "READDATA 2 s1 = Some (x, t)" "n = ucast x" "\<not> n < 253"
      using assms s1 by (auto simp: ReadCompactSize_def Let_def bind_eq_Some_conv split: if_splits)
    have "unat x \<le> 0xFFFF" using unsigned_less [of x, where ?'a = nat] by simp
    then show ?thesis using x max b 2 READDATA_Some [OF _ x(1)]
      by (simp add: WriteCompactSize_def word_less_nat_alt word_le_nat_alt ucast_up_down)
  next
    case 3
    then obtain x :: u32 where x: "READDATA 4 s1 = Some (x, t)" "n = ucast x" "\<not> n < 0x10000"
      using assms s1 by (auto simp: ReadCompactSize_def Let_def bind_eq_Some_conv split: if_splits)
    have "unat x \<le> 0xFFFFFFFF" using unsigned_less [of x, where ?'a = nat] by simp
    then show ?thesis using x max b 3 READDATA_Some [OF _ x(1)]
      by (simp add: WriteCompactSize_def word_less_nat_alt word_le_nat_alt ucast_up_down)
  next
    case 4
    then have "\<not> n < 0x100000000"
      using assms s1 by (auto simp: ReadCompactSize_def bind_eq_Some_conv split: if_splits)
    then show ?thesis using max by (simp add: MAX_SIZE_def word_less_nat_alt word_le_nat_alt)
  qed
qed

interpretation compact: serializable WriteCompactSize ReadCompactSize "\<lambda>n. n \<le> MAX_SIZE"
  by unfold_locales (simp_all add: ReadCompactSize_Write ReadCompactSize_only)

lemma length_WriteCompactSize: "length (WriteCompactSize n) = unat (GetSizeOfCompactSize n)"
  by (simp add: WriteCompactSize_def GetSizeOfCompactSize_def)

subsection \<open>Vectors\<close>

text \<open>
  \<open>Serialize_impl\<close> and \<open>Unserialize_impl\<close> for vectors of bytes (scripts are such vectors) and
  of objects. Bytes are read in blocks of at most 5000000; the reader of objects grows the
  vector in steps, which only concerns memory, and reads one object after the other.
\<close>

definition ser_bytes :: "bytes \<Rightarrow> bytes" where
  "ser_bytes v = WriteCompactSize (of_nat (length v)) @ v"

function read_blocks :: "nat \<Rightarrow> bytes reader" where
  "read_blocks n s =
     (if n = 0 then Some ([], s)
      else let blk = min n (1 + 4999999) in do {
        (v, s1) \<leftarrow> read_bytes blk s;
        (w, s2) \<leftarrow> read_blocks (n - blk) s1;
        Some (v @ w, s2) })"
  by pat_completeness auto
termination by (relation "measure fst") auto

declare read_blocks.simps [simp del]

definition unser_bytes :: "bytes reader" where
  "unser_bytes s = do { (nSize, s1) \<leftarrow> ReadCompactSize s; read_blocks (unat nSize) s1 }"

definition size_bytes :: "bytes \<Rightarrow> u32" where
  "size_bytes v = GetSizeOfCompactSize (of_nat (length v)) + of_nat (length v)"

definition ser_vector :: "('a \<Rightarrow> bytes) \<Rightarrow> 'a list \<Rightarrow> bytes" where
  "ser_vector Ser v = WriteCompactSize (of_nat (length v)) @ concat (map Ser v)"

primrec read_elems :: "'a reader \<Rightarrow> nat \<Rightarrow> 'a list reader" where
  "read_elems Unser 0 s = Some ([], s)"
| "read_elems Unser (Suc n) s = do {
     (x, s1) \<leftarrow> Unser s;
     (xs, s2) \<leftarrow> read_elems Unser n s1;
     Some (x # xs, s2) }"

definition unser_vector :: "'a reader \<Rightarrow> 'a list reader" where
  "unser_vector Unser s = do { (nSize, s1) \<leftarrow> ReadCompactSize s; read_elems Unser (unat nSize) s1 }"

definition size_vector :: "('a \<Rightarrow> u32) \<Rightarrow> 'a list \<Rightarrow> u32" where
  "size_vector Size v =
     foldl (\<lambda>nSize x. nSize + Size x) (GetSizeOfCompactSize (of_nat (length v))) v"

lemma read_blocks_eq: "read_blocks n s = read_bytes n s"
proof (induction n s rule: read_blocks.induct)
  case (1 n s)
  let ?blk = "min n (1 + 4999999)"
  show ?case
  proof (cases "n = 0")
    case False
    show ?thesis
    proof (cases "length s < ?blk")
      case True
      then show ?thesis using False by (simp add: read_blocks.simps [of n s] read_bytes_def Let_def)
    next
      case blk: False
      have IH: "read_blocks (n - ?blk) (drop ?blk s) = read_bytes (n - ?blk) (drop ?blk s)"
        by (rule 1) (use False blk in \<open>simp_all add: read_bytes_def\<close>)
      have "take ?blk s @ take (n - ?blk) (drop ?blk s) = take n s"
        by (metis le_add_diff_inverse min.cobounded1 take_add)
      moreover have "length s - ?blk < n - ?blk \<longleftrightarrow> length s < n" using blk by linarith
      ultimately show ?thesis using False blk IH
        by (simp add: read_blocks.simps [of n s] read_bytes_def Let_def)
    qed
  qed (simp add: read_blocks.simps [of 0] read_bytes_def)
qed

definition small :: "'a list \<Rightarrow> bool" where
  "small v \<longleftrightarrow> length v \<le> unat MAX_SIZE"

lemma small_size:
  "small v \<Longrightarrow> (of_nat (length v) :: u64) \<le> MAX_SIZE \<and> unat (of_nat (length v) :: u64) = length v"
  by (simp add: small_def MAX_SIZE_def word_le_nat_alt unat_of_nat)

interpretation vector_bytes: serializable ser_bytes unser_bytes small
proof
  show "unser_bytes (ser_bytes v @ s) = Some (v, s)" if "small v" for v s
    using small_size [OF that] by (simp add: unser_bytes_def ser_bytes_def ReadCompactSize_Write
        read_blocks_eq read_bytes_append)
next
  fix s v t assume "unser_bytes s = Some (v, t)"
  then obtain n s1 where n: "ReadCompactSize s = Some (n, s1)" "read_bytes (unat n) s1 = Some (v, t)"
    by (auto simp: unser_bytes_def read_blocks_eq bind_eq_Some_conv)
  then have "s1 = v @ t" "length v = unat n" "s = WriteCompactSize n @ s1" "n \<le> MAX_SIZE"
    using read_bytes_Some ReadCompactSize_only by blast+
  then show "s = ser_bytes v @ t \<and> small v"
    by (simp add: ser_bytes_def small_def word_le_nat_alt)
qed

context serializable begin

lemma read_elems_Ser: "list_all wf v \<Longrightarrow> read_elems Unser (length v) (concat (map Ser v) @ s) = Some (v, s)"
  by (induction v) (simp_all add: Unser_Ser)

lemma read_elems_only:
  "read_elems Unser n s = Some (v, t) \<Longrightarrow> s = concat (map Ser v) @ t \<and> length v = n \<and> list_all wf v"
proof (induction n arbitrary: s v)
  case (Suc n)
  then obtain x s1 xs where "Unser s = Some (x, s1)" "read_elems Unser n s1 = Some (xs, t)" "v = x # xs"
    by (auto simp: bind_eq_Some_conv)
  then show ?case using Suc.IH [of s1 xs] Unser_only [of s x s1] by simp
qed simp

lemma vector: "serializable (ser_vector Ser) (unser_vector Unser) (\<lambda>v. small v \<and> list_all wf v)"
proof
  show "unser_vector Unser (ser_vector Ser v @ s) = Some (v, s)" if "small v \<and> list_all wf v" for v s
    using small_size [of v] that
    by (simp add: unser_vector_def ser_vector_def ReadCompactSize_Write read_elems_Ser)
next
  fix s v t assume "unser_vector Unser s = Some (v, t)"
  then obtain n s1 where n: "ReadCompactSize s = Some (n, s1)" "read_elems Unser (unat n) s1 = Some (v, t)"
    by (auto simp: unser_vector_def bind_eq_Some_conv)
  then show "s = ser_vector Ser v @ t \<and> small v \<and> list_all wf v"
    using read_elems_only [OF n(2)] ReadCompactSize_only [OF n(1)]
    by (simp add: ser_vector_def small_def word_le_nat_alt)
qed

end

lemma size_bytes_length: "size_bytes v = of_nat (length (ser_bytes v))"
  by (simp add: size_bytes_def ser_bytes_def length_WriteCompactSize)

lemma size_vector_length:
  assumes "\<And>x. x \<in> set v \<Longrightarrow> Size x = of_nat (length (Ser x))"
  shows "size_vector Size v = of_nat (length (ser_vector Ser v))"
proof -
  have "foldl (\<lambda>n x. n + Size x) a v = a + of_nat (length (concat (map Ser v)))" for a
    using assms by (induction v arbitrary: a) (simp_all add: ac_simps)
  then show ?thesis by (simp add: size_vector_def ser_vector_def length_WriteCompactSize)
qed

subsection \<open>Variable-length integers\<close>

text \<open>
  \<open>GetSizeOfVarInt\<close>, \<open>WriteVarInt\<close> and \<open>ReadVarInt\<close> at \<open>uint64_t\<close>: base 128, most significant
  digit first, one subtracted from every digit but the last. \<open>varint_tmp\<close> is the array \<open>tmp\<close>
  that the writer fills and then emits backwards; its declaration has room for 10 bytes. The
  reader shifts without looking at overflow.
\<close>

lemma varint_less: "\<not> n \<le> 0x7F \<Longrightarrow> unat (drop_bit 7 n - 1 :: u64) < unat n"
  and varint_next: "\<not> n \<le> 0x7F \<Longrightarrow> unat (drop_bit 7 n - 1 :: u64) = unat n div 128 - 1"
proof -
  assume n: "\<not> n \<le> (0x7F :: u64)"
  then have 1: "128 \<le> unat n" by (simp add: word_le_nat_alt)
  have d: "unat (drop_bit 7 n) = unat n div 128" by (simp add: drop_bit_eq_div unat_div)
  have "1 \<le> unat n div 128" using 1 by simp
  then have "(1 :: u64) \<le> drop_bit 7 n" using d by (simp add: word_le_nat_alt)
  then show 2: "unat (drop_bit 7 n - 1) = unat n div 128 - 1" using d by (simp add: unat_sub)
  have "unat n div 128 < unat n" using 1 by simp
  then show "unat (drop_bit 7 n - 1) < unat n" using 2 by linarith
qed

function GetSizeOfVarInt :: "u64 \<Rightarrow> nat" where
  "GetSizeOfVarInt n = (if n \<le> 0x7F then 1 else 1 + GetSizeOfVarInt (drop_bit 7 n - 1))"
  by pat_completeness auto
termination by (relation "measure unat") (simp_all add: varint_less)

function varint_tmp :: "u64 \<Rightarrow> bool \<Rightarrow> bytes" where
  "varint_tmp n more =
     (ucast (n AND 0x7F) OR (if more then 0x80 else 0x00))
     # (if n \<le> 0x7F then [] else varint_tmp (drop_bit 7 n - 1) True)"
  by pat_completeness auto
termination by (relation "measure (unat \<circ> fst)") (simp_all add: varint_less)

definition WriteVarInt :: "u64 \<Rightarrow> bytes" where
  "WriteVarInt n = rev (varint_tmp n False)"

fun read_varint :: "u64 \<Rightarrow> u64 reader" where
  "read_varint n [] = None"
| "read_varint n (chData # s) =
     (let n' = push_bit 7 n OR (ucast chData AND 0x7F)
      in if chData AND 0x80 \<noteq> 0 then read_varint (n' + 1) s else Some (n', s))"

definition ReadVarInt :: "u64 reader" where
  "ReadVarInt s = read_varint 0 s"

declare GetSizeOfVarInt.simps [simp del] varint_tmp.simps [simp del]

definition varint_byte :: "bool \<Rightarrow> u64 \<Rightarrow> byte" where
  "varint_byte more n = (ucast (n AND 0x7F) OR (if more then 0x80 else 0x00))"

lemma low7: "(0x7F :: 'a::len word) = mask 7"
  by (simp add: mask_eq_decr_exp)

lemma varint_byte_bits:
  "bit (varint_byte more n) i \<longleftrightarrow> (i < 7 \<and> bit n i) \<or> (i = 7 \<and> more)"
proof -
  have "bit (0x80 :: byte) i \<longleftrightarrow> i = 7"
    using bit_exp_iff [of 7 i, where ?'a = byte] by (auto simp: possible_bit_word)
  then show ?thesis unfolding varint_byte_def low7 by (auto simp: bit_simps)
qed

lemma varint_byte_flag: "varint_byte more n AND 0x80 \<noteq> 0 \<longleftrightarrow> more"
  using and_exp_eq_0_iff_not_bit [of "varint_byte more n" 7] by (simp add: varint_byte_bits)

lemma varint_digit: "push_bit 7 (drop_bit 7 n) OR (ucast (varint_byte more n) AND 0x7F) = n"
proof (rule bit_word_eqI)
  fix i assume "i < LENGTH(64)"
  then show "bit (push_bit 7 (drop_bit 7 n) OR (ucast (varint_byte more n) AND 0x7F)) i = bit n i"
    unfolding low7 by (cases "i < 7") (auto simp: bit_simps varint_byte_bits)
qed

lemma varint_small: "n \<le> 0x7F \<Longrightarrow> drop_bit 7 (n :: u64) = 0"
  by (simp add: word_le_nat_alt word_unat_eq_iff drop_bit_eq_div unat_div)

lemma varint_tmp_eq:
  "varint_tmp n more = varint_byte more n # (if n \<le> 0x7F then [] else varint_tmp (drop_bit 7 n - 1) True)"
  by (simp add: varint_tmp.simps [of n] varint_byte_def)

lemma read_varint_digit:
  "read_varint (drop_bit 7 n) (varint_byte more n # s) = (if more then read_varint (n + 1) s else Some (n, s))"
  by (simp add: Let_def varint_digit varint_byte_flag)

text \<open>Reading what was written, the leading digits first.\<close>

lemma read_varint_tmp:
  "read_varint 0 (rev (varint_tmp n more) @ s) = (if more then read_varint (n + 1) s else Some (n, s))"
proof (induction n more arbitrary: s rule: varint_tmp.induct)
  case (1 n more)
  show ?case
  proof (cases "n \<le> 0x7F")
    case True
    then show ?thesis using read_varint_digit [of n more s]
      by (simp add: varint_tmp_eq [of n] varint_small del: read_varint.simps)
  next
    case False
    then have "read_varint 0 (rev (varint_tmp n more) @ s) = read_varint (drop_bit 7 n) (varint_byte more n # s)"
      using 1 by (simp add: varint_tmp_eq [of n] del: read_varint.simps)
    then show ?thesis by (simp only: read_varint_digit)
  qed
qed

lemma ReadVarInt_WriteVarInt: "ReadVarInt (WriteVarInt n @ s) = Some (n, s)"
  by (simp add: ReadVarInt_def WriteVarInt_def read_varint_tmp)

lemma length_varint_tmp: "length (varint_tmp n more) = GetSizeOfVarInt n"
  by (induction n more rule: varint_tmp.induct) (simp add: varint_tmp_eq GetSizeOfVarInt.simps)

lemma GetSizeOfVarInt_le: "unat n < 128 ^ Suc k \<Longrightarrow> GetSizeOfVarInt n \<le> Suc k"
proof (induction k arbitrary: n)
  case 0
  then show ?case by (simp add: GetSizeOfVarInt.simps word_le_nat_alt)
next
  case (Suc k)
  show ?case
  proof (cases "n \<le> 0x7F")
    case False
    have "unat n div 128 - 1 < 128 ^ Suc k" using Suc.prems by simp
    then have "unat (drop_bit 7 n - 1) < 128 ^ Suc k" using varint_next [OF False] by simp
    then show ?thesis using Suc.IH False by (simp add: GetSizeOfVarInt.simps [of n])
  qed (simp add: GetSizeOfVarInt.simps [of n])
qed

lemma GetSizeOfVarInt_bound: "GetSizeOfVarInt n \<le> 10"
  using GetSizeOfVarInt_le [of n 9] unsigned_less [of n, where ?'a = nat] by simp

text \<open>Conversely, up to nine bytes are read without overflow and are what the writer emits.\<close>

definition varint_step :: "u64 \<Rightarrow> byte \<Rightarrow> u64" where
  "varint_step n b = (push_bit 7 n OR (ucast b AND 0x7F))"

lemma unat_varint_step:
  assumes "unat n < 2 ^ 57"
  shows "unat (varint_step n b) = 128 * unat n + unat b mod 128" "drop_bit 7 (varint_step n b) = n"
proof -
  have "push_bit 7 n AND (ucast b AND 0x7F) = 0"
    unfolding low7 by (rule bit_word_eqI) (auto simp: bit_simps)
  then have "varint_step n b = push_bit 7 n + (ucast b AND 0x7F)"
    unfolding varint_step_def by (simp add: disjunctive_add_eq_or)
  moreover have "unat (push_bit 7 n) = 128 * unat n"
    using assms by (simp add: push_bit_eq_mult unat_mult_lem [THEN iffD1])
  moreover have "unat (ucast b AND 0x7F :: u64) = unat b mod 128"
    unfolding low7 by (simp only: flip: take_bit_eq_mask) (simp add: take_bit_eq_mod unat_mod)
  moreover have "128 * unat n + unat b mod 128 < 2 ^ 64"
  proof -
    have "unat b mod 128 < 128" by simp
    moreover have "128 * unat n \<le> 128 * (2 ^ 57 - 1)" using assms by simp
    ultimately show ?thesis by simp
  qed
  ultimately show 1: "unat (varint_step n b) = 128 * unat n + unat b mod 128"
    by (simp add: unat_add_lem [THEN iffD1])
  show "drop_bit 7 (varint_step n b) = n"
    by (simp add: word_unat_eq_iff drop_bit_eq_div unat_div 1)
qed

lemma varint_byte_step:
  assumes "b AND 0x80 \<noteq> 0 \<longleftrightarrow> more"
  shows "varint_byte more (varint_step n b) = b"
proof (rule bit_word_eqI)
  fix i assume i: "i < LENGTH(8)"
  have 7: "bit b 7 \<longleftrightarrow> more" using assms and_exp_eq_0_iff_not_bit [of b 7] by simp
  consider "i < 7" | "i = 7" using i by fastforce
  then show "bit (varint_byte more (varint_step n b)) i = bit b i"
    using 7 unfolding varint_byte_bits varint_step_def low7 by cases (auto simp: bit_simps)
qed

text \<open>A leading digit string, all with the continuation bit, read from 0.\<close>

lemma varint_lead:
  assumes "list_all (\<lambda>b. b AND 0x80 \<noteq> 0) q" "length q \<le> 9"
  obtains n where "\<And>s. read_varint 0 (q @ s) = read_varint n s" "unat n \<le> 2 * 128 ^ length q - 2"
    "q = [] \<and> n = 0 \<or> n \<noteq> 0 \<and> q = rev (varint_tmp (n - 1) True)"
  using assms
proof (induction q arbitrary: thesis rule: rev_induct)
  case (snoc b q)
  obtain m where m: "\<And>s. read_varint 0 (q @ s) = read_varint m s" "unat m \<le> 2 * 128 ^ length q - 2"
    "q = [] \<and> m = 0 \<or> m \<noteq> 0 \<and> q = rev (varint_tmp (m - 1) True)"
    using snoc.IH snoc.prems by auto
  have "(128 :: nat) ^ length q \<le> 128 ^ 8" by (rule power_increasing) (use snoc.prems in simp_all)
  then have small: "unat m < 2 ^ 57 - 1" using m(2) by simp
  define n where "n = varint_step m b"
  have n: "unat n = 128 * unat m + unat b mod 128" "drop_bit 7 n = m"
    using unat_varint_step [of m b] small by (simp_all add: n_def)
  have b: "varint_byte True n = b" unfolding n_def using varint_byte_step [of b True m] snoc.prems by simp
  have bm: "unat b mod 128 < 128" by simp
  then have less: "unat n < 2 ^ 64 - 1" using n small by simp
  then have succ: "unat (n + 1) = unat n + 1" by (simp add: unat_word_ariths)
  have "read_varint 0 ((q @ [b]) @ s) = read_varint (n + 1) s" for s
    using m(1) snoc.prems by (simp add: n_def varint_step_def)
  moreover have "unat (n + 1) \<le> 2 * 128 ^ length (q @ [b]) - 2"
  proof -
    have "1 \<le> (128 :: nat) ^ length q" by simp
    then have "128 * unat m \<le> 256 * 128 ^ length q - 256" using m(2) by simp
    moreover have "256 \<le> 256 * (128 :: nat) ^ length q" by simp
    ultimately have "unat (n + 1) \<le> 256 * 128 ^ length q - 2" using n succ bm by linarith
    then show ?thesis by simp
  qed
  moreover have "n + 1 \<noteq> 0" using succ by (metis add_is_0 unat_0 one_neq_zero)
  moreover have "q @ [b] = rev (varint_tmp (n + 1 - 1) True)"
  proof (cases "m = 0")
    case True
    then have "n \<le> 0x7F" using n bm by (simp add: word_le_nat_alt)
    then show ?thesis using True m(3) b by (simp add: varint_tmp_eq [of n])
  next
    case False
    then have "unat m \<noteq> 0" by (simp add: unat_eq_0)
    then have "\<not> n \<le> 0x7F" using n by (simp add: word_le_nat_alt)
    then show ?thesis using False m(3) b n(2) by (simp add: varint_tmp_eq [of n])
  qed
  ultimately show ?case using snoc.prems(1) by blast
qed simp

lemma ReadVarInt_split:
  "read_varint a s = Some (n, t) \<Longrightarrow> \<exists>q b. s = q @ b # t \<and> list_all (\<lambda>b. b AND 0x80 \<noteq> 0) q \<and> b AND 0x80 = 0"
proof (induction a s rule: read_varint.induct)
  case (2 a b s)
  show ?case
  proof (cases "b AND 0x80 = 0")
    case True
    then show ?thesis using 2(2) by (intro exI [of _ "[]"]) (simp add: Let_def)
  next
    case False
    then obtain q c where "s = q @ c # t" "list_all (\<lambda>b. b AND 0x80 \<noteq> 0) q" "c AND 0x80 = 0"
      using 2 by (auto simp: Let_def)
    then show ?thesis using False by (intro exI [of _ "b # q"]) simp
  qed
qed simp

lemma ReadVarInt_only:
  assumes "ReadVarInt s = Some (n, t)" "length s - length t \<le> 9"
  shows "s = WriteVarInt n @ t"
proof -
  obtain q b where s: "s = q @ b # t" "list_all (\<lambda>b. b AND 0x80 \<noteq> 0) q" "b AND 0x80 = 0"
    using ReadVarInt_split assms(1) unfolding ReadVarInt_def by blast
  have q: "length q \<le> 8" using assms(2) s(1) by simp
  obtain m where m: "\<And>s. read_varint 0 (q @ s) = read_varint m s" "unat m \<le> 2 * 128 ^ length q - 2"
    "q = [] \<and> m = 0 \<or> m \<noteq> 0 \<and> q = rev (varint_tmp (m - 1) True)"
    using q by (auto intro: varint_lead [OF s(2)])
  have n: "n = varint_step m b" using assms(1) s(1,3) m(1) by (simp add: ReadVarInt_def varint_step_def)
  have "(128 :: nat) ^ length q \<le> 128 ^ 8" by (rule power_increasing) (use q in simp_all)
  then have v: "unat n = 128 * unat m + unat b mod 128" "drop_bit 7 n = m"
    using unat_varint_step [of m b] m(2) n by simp_all
  have b: "varint_byte False n = b" unfolding n using varint_byte_step [of b False m] s(3) by simp
  have "q @ [b] = rev (varint_tmp n False)"
  proof (cases "m = 0")
    case True
    have "unat b mod 128 < 128" by simp
    then have "n \<le> 0x7F" using v True by (simp add: word_le_nat_alt)
    then show ?thesis using True m(3) b by (simp add: varint_tmp_eq [of n])
  next
    case False
    then have "unat m \<noteq> 0" by (simp add: unat_eq_0)
    then have "\<not> n \<le> 0x7F" using v by (simp add: word_le_nat_alt)
    then show ?thesis using False m(3) b v(2) by (simp add: varint_tmp_eq [of n])
  qed
  then show ?thesis using s(1) by (simp add: WriteVarInt_def)
qed

subsection \<open>Properties\<close>

text \<open>
  \<open>ReadCompactSize\<close> accepts exactly the encodings that \<open>WriteCompactSize\<close> produces for sizes
  up to \<open>MAX_SIZE\<close>: every such size is read back, and a longer form of a small number is
  refused; the encoding has the announced length.
\<close>

theorem CompactSize_canonical:
  "(ReadCompactSize s = Some (n, t) \<longleftrightarrow> n \<le> MAX_SIZE \<and> s = WriteCompactSize n @ t)
   \<and> length (WriteCompactSize n) = unat (GetSizeOfCompactSize n)"
  by (simp add: compact.Unser_iff length_WriteCompactSize)

text \<open>
  \<open>ReadVarInt\<close> reads back what \<open>WriteVarInt\<close> wrote, for every 64-bit number; the writer stays
  within its ten-byte array and emits as many bytes as \<open>GetSizeOfVarInt\<close> says.
\<close>

theorem VarInt_roundtrip:
  "ReadVarInt (WriteVarInt n @ s) = Some (n, s)
   \<and> length (WriteVarInt n) = GetSizeOfVarInt n \<and> GetSizeOfVarInt n \<le> 10"
  by (simp add: ReadVarInt_WriteVarInt GetSizeOfVarInt_bound) (simp add: WriteVarInt_def length_varint_tmp)

text \<open>
  Below the ten bytes at which the reader overflows, a number has one variable-length
  encoding: whatever was read is what the writer emits for the result.
\<close>

theorem VarInt_unique:
  assumes "ReadVarInt s = Some (n, t)" "length s - length t \<le> 9"
  shows "s = WriteVarInt n @ t"
  using assms by (rule ReadVarInt_only)

theorem VarInt_unique_witness: "[0x82, 0xFE, 0x7F, 9] = WriteVarInt 65535 @ [9]"
  by (rule VarInt_unique) (simp_all add: ReadVarInt_def Let_def)

text \<open>The examples 16511 and 65535 of the comment in \<open>serialize.h\<close> are not what the code emits.\<close>

theorem VarInt_comment_examples:
  "WriteVarInt 16511 = [0xFF, 0x7F]" "WriteVarInt 65535 = [0x82, 0xFE, 0x7F]"
  by (simp_all add: WriteVarInt_def varint_tmp.simps)

end
