(* ===== verification/Base_Uint.thy ===== *)
theory Base_Uint imports Serialize begin

text \<open>
  \<open>base_uint\<close> of \<open>src/src/uint256.h\<close>, the class behind \<open>uint160\<close>, \<open>uint256\<close> and \<open>uint512\<close>: an array \<open>pn\<close> of 32-bit
  limbs, the least significant first. An object is the list of its limbs, \<open>WIDTH\<close> its length. The other theories use
  words of 160 and 256 bits; here every operation of the class is shown to be that of the words. Text is
  a list of characters, read up to its end.
\<close>

unbundle bit_operations_syntax

type_synonym base_uint = "u32 list"

subsection \<open>Operations\<close>

definition bu_is_zero :: "base_uint \<Rightarrow> bool" where
  "bu_is_zero pn = list_all (\<lambda>x. x = 0) pn"

definition bu_not :: "base_uint \<Rightarrow> base_uint" where
  "bu_not pn = map NOT pn"

text \<open>The loop \<open>while (++pn[i] == 0 && i < WIDTH - 1)\<close>, and that of \<open>operator--\<close>.\<close>

fun bu_inc :: "base_uint \<Rightarrow> base_uint" where
  "bu_inc [] = []"
| "bu_inc [x] = [x + 1]"
| "bu_inc (x # y # pn) = (if x + 1 = 0 then (x + 1) # bu_inc (y # pn) else (x + 1) # y # pn)"

fun bu_dec :: "base_uint \<Rightarrow> base_uint" where
  "bu_dec [] = []"
| "bu_dec [x] = [x - 1]"
| "bu_dec (x # y # pn) = (if x - 1 = -1 then (x - 1) # bu_dec (y # pn) else (x - 1) # y # pn)"

definition bu_neg :: "base_uint \<Rightarrow> base_uint" where
  "bu_neg pn = bu_inc (map NOT pn)"

definition bu_of_u64 :: "nat \<Rightarrow> u64 \<Rightarrow> base_uint" where
  "bu_of_u64 WIDTH b = ucast b # ucast (drop_bit 32 b) # replicate (WIDTH - 2) 0"

definition bu_xor :: "base_uint \<Rightarrow> base_uint \<Rightarrow> base_uint" where
  "bu_xor pn b = map2 (\<lambda>x y. x XOR y) pn b"

definition bu_and :: "base_uint \<Rightarrow> base_uint \<Rightarrow> base_uint" where
  "bu_and pn b = map2 (\<lambda>x y. x AND y) pn b"

definition bu_or :: "base_uint \<Rightarrow> base_uint \<Rightarrow> base_uint" where
  "bu_or pn b = map2 (\<lambda>x y. x OR y) pn b"

definition bu_xor64 :: "base_uint \<Rightarrow> u64 \<Rightarrow> base_uint" where
  "bu_xor64 pn b = pn[0 := pn ! 0 XOR ucast b, 1 := pn ! 1 XOR ucast (drop_bit 32 b)]"

definition bu_or64 :: "base_uint \<Rightarrow> u64 \<Rightarrow> base_uint" where
  "bu_or64 pn b = pn[0 := pn ! 0 OR ucast b, 1 := pn ! 1 OR ucast (drop_bit 32 b)]"

text \<open>One turn of the loops of the shifts; the operators shift by \<open>unsigned int\<close>, and \<open>k\<close> is an \<open>int\<close> below \<open>2 ^ 27\<close>.\<close>

definition shl_turn :: "base_uint \<Rightarrow> nat \<Rightarrow> nat \<Rightarrow> nat \<Rightarrow> base_uint \<Rightarrow> base_uint" where
  "shl_turn a k shift i pn =
     (let pn = (if i + k + 1 < length pn \<and> shift \<noteq> 0 then pn[i + k + 1 := pn ! (i + k + 1) OR drop_bit (32 - shift) (a ! i)] else pn)
      in if i + k < length pn then pn[i + k := pn ! (i + k) OR push_bit shift (a ! i)] else pn)"

definition bu_shl :: "base_uint \<Rightarrow> u32 \<Rightarrow> base_uint" where
  "bu_shl a shift = fold (shl_turn a (unat shift div 32) (unat shift mod 32)) [0..<length a] (replicate (length a) 0)"

definition shr_turn :: "base_uint \<Rightarrow> nat \<Rightarrow> nat \<Rightarrow> nat \<Rightarrow> base_uint \<Rightarrow> base_uint" where
  "shr_turn a k shift i pn =
     (let pn = (if i \<ge> k + 1 \<and> shift \<noteq> 0 then pn[i - k - 1 := pn ! (i - k - 1) OR push_bit (32 - shift) (a ! i)] else pn)
      in if i \<ge> k then pn[i - k := pn ! (i - k) OR drop_bit shift (a ! i)] else pn)"

definition bu_shr :: "base_uint \<Rightarrow> u32 \<Rightarrow> base_uint" where
  "bu_shr a shift = fold (shr_turn a (unat shift div 32) (unat shift mod 32)) [0..<length a] (replicate (length a) 0)"

fun add_loop :: "u64 \<Rightarrow> base_uint \<Rightarrow> base_uint \<Rightarrow> base_uint" where
  "add_loop carry (x # pn) (y # b) =
     (let n = carry + ucast x + ucast y in ucast (n AND 0xffffffff) # add_loop (drop_bit 32 n) pn b)"
| "add_loop carry _ _ = []"

definition bu_add :: "base_uint \<Rightarrow> base_uint \<Rightarrow> base_uint" where
  "bu_add pn b = add_loop 0 pn b"

definition bu_sub :: "base_uint \<Rightarrow> base_uint \<Rightarrow> base_uint" where
  "bu_sub pn b = bu_add pn (bu_neg b)"

definition bu_add64 :: "base_uint \<Rightarrow> u64 \<Rightarrow> base_uint" where
  "bu_add64 pn b = bu_add pn (bu_of_u64 (length pn) b)"

definition bu_sub64 :: "base_uint \<Rightarrow> u64 \<Rightarrow> base_uint" where
  "bu_sub64 pn b = bu_add pn (bu_neg (bu_of_u64 (length pn) b))"

text \<open>The comparisons run from the last limb down; their arguments here are the limbs reversed.\<close>

fun less_loop :: "base_uint \<Rightarrow> base_uint \<Rightarrow> bool \<Rightarrow> bool" where
  "less_loop (x # a) (y # b) same = (if x < y then True else if x > y then False else less_loop a b same)"
| "less_loop _ _ same = same"

definition bu_less :: "base_uint \<Rightarrow> base_uint \<Rightarrow> bool" where
  "bu_less a b = less_loop (rev a) (rev b) False"

definition bu_le :: "base_uint \<Rightarrow> base_uint \<Rightarrow> bool" where
  "bu_le a b = less_loop (rev a) (rev b) True"

fun greater_loop :: "base_uint \<Rightarrow> base_uint \<Rightarrow> bool \<Rightarrow> bool" where
  "greater_loop (x # a) (y # b) same = (if x > y then True else if x < y then False else greater_loop a b same)"
| "greater_loop _ _ same = same"

definition bu_greater :: "base_uint \<Rightarrow> base_uint \<Rightarrow> bool" where
  "bu_greater a b = greater_loop (rev a) (rev b) False"

definition bu_ge :: "base_uint \<Rightarrow> base_uint \<Rightarrow> bool" where
  "bu_ge a b = greater_loop (rev a) (rev b) True"

definition bu_eq :: "base_uint \<Rightarrow> base_uint \<Rightarrow> bool" where
  "bu_eq a b = list_all2 (\<lambda>x y. \<not> x \<noteq> y) a b"

definition bu_eq64 :: "base_uint \<Rightarrow> u64 \<Rightarrow> bool" where
  "bu_eq64 a b = (if a ! 0 \<noteq> ucast b then False else if a ! 1 \<noteq> ucast (drop_bit 32 b) then False
     else list_all (\<lambda>x. x = 0) (drop 2 a))"

definition bu_Get64 :: "base_uint \<Rightarrow> nat \<Rightarrow> u64" where
  "bu_Get64 pn n = ucast (pn ! (2 * n)) OR push_bit 32 (ucast (pn ! (2 * n + 1)))"

definition bu_trim256 :: "base_uint \<Rightarrow> base_uint" where
  "bu_trim256 pn = take 8 pn"

subsection \<open>Bytes and text\<close>

text \<open>The bytes of the array, on a little-endian machine, and the array with given bytes.\<close>

definition bu_bytes :: "base_uint \<Rightarrow> bytes" where
  "bu_bytes pn = concat (map (WRITEDATA 4) pn)"

fun bu_of_bytes :: "nat \<Rightarrow> bytes \<Rightarrow> base_uint" where
  "bu_of_bytes 0 bs = []"
| "bu_of_bytes (Suc n) bs = of_nat (le_val (take 4 bs)) # bu_of_bytes n (drop 4 bs)"

definition bu_of_vch :: "nat \<Rightarrow> bytes \<Rightarrow> base_uint" where
  "bu_of_vch WIDTH vch = (if length vch = 4 * WIDTH then bu_of_bytes WIDTH vch else bu_of_u64 WIDTH 0)"

text \<open>\<open>p_util_hexdigit\<close> and \<open>HexDigit\<close>.\<close>

definition p_util_hexdigit :: "int list" where
  "p_util_hexdigit = replicate 48 (-1) @ [0, 1, 2, 3, 4, 5, 6, 7, 8, 9, -1, -1, -1, -1, -1, -1]
     @ [-1, 10, 11, 12, 13, 14, 15] @ replicate 25 (-1) @ [-1, 10, 11, 12, 13, 14, 15] @ replicate 153 (-1)"

definition HexDigit :: "char \<Rightarrow> int" where
  "HexDigit c = p_util_hexdigit ! of_char c"

text \<open>The digits of \<open>sprintf ("%02x")\<close>.\<close>

definition hex_char :: "nat \<Rightarrow> char" where
  "hex_char d = ''0123456789abcdef'' ! d"

definition hex_byte :: "byte \<Rightarrow> string" where
  "hex_byte b = [hex_char (unat b div 16), hex_char (unat b mod 16)]"

definition bu_GetHex :: "base_uint \<Rightarrow> string" where
  "bu_GetHex pn = concat (map hex_byte (rev (bu_bytes pn)))"

definition isspace_c :: "char \<Rightarrow> bool" where
  "isspace_c c \<longleftrightarrow> c \<in> set [CHR '' '', CHR 0x09, CHR 0x0A, CHR 0x0B, CHR 0x0C, CHR 0x0D]"

text \<open>\<open>skip 0x\<close>; \<open>tolower\<close> maps \<open>X\<close> to \<open>x\<close>.\<close>

definition skip_0x :: "string \<Rightarrow> string" where
  "skip_0x psz = (case psz of c # d # rest \<Rightarrow> if c = CHR ''0'' \<and> (d = CHR ''x'' \<or> d = CHR ''X'') then rest else psz | _ \<Rightarrow> psz)"

text \<open>The writing loop: the digits from the last one back, and the bytes that are left in the array.\<close>

fun hex_loop :: "string \<Rightarrow> nat \<Rightarrow> bytes" where
  "hex_loop ds 0 = []"
| "hex_loop [] (Suc n) = replicate (Suc n) 0"
| "hex_loop [d] (Suc n) = of_int (HexDigit d) # replicate n 0"
| "hex_loop (d # e # ds) (Suc n) = (of_int (HexDigit d) OR push_bit 4 (of_int (HexDigit e))) # hex_loop ds n"

definition bu_SetHex :: "nat \<Rightarrow> string \<Rightarrow> base_uint" where
  "bu_SetHex WIDTH psz =
     (let psz = skip_0x (dropWhile isspace_c psz); digits = takeWhile (\<lambda>c. HexDigit c \<noteq> -1) psz
      in bu_of_bytes WIDTH (hex_loop (rev digits) (4 * WIDTH)))"

subsection \<open>The number an object stands for\<close>

primrec limbs_val :: "base_uint \<Rightarrow> nat" where
  "limbs_val [] = 0"
| "limbs_val (x # pn) = unat x + 2 ^ 32 * limbs_val pn"

definition uint_of :: "base_uint \<Rightarrow> 'n::len word" where
  "uint_of pn = of_nat (limbs_val pn)"

lemma limb_less: "unat (x :: u32) < 2 ^ 32"
  using unsigned_less [of x] by simp

lemma limbs_val_less: "limbs_val pn < 2 ^ (32 * length pn)"
proof (induction pn)
  case (Cons x pn)
  have "unat x < 2 ^ 32" by (rule limb_less)
  moreover have "limbs_val pn + 1 \<le> 2 ^ (32 * length pn)" using Cons by simp
  then have "2 ^ 32 * (limbs_val pn + 1) \<le> 2 ^ 32 * (2 :: nat) ^ (32 * length pn)" by (rule mult_le_mono2)
  ultimately show ?case by (simp add: power_add)
qed simp

lemma limb_split: "p < m \<Longrightarrow> q < m \<Longrightarrow> p + m * a = q + m * b \<longleftrightarrow> p = q \<and> a = (b :: nat)"
  by (metis add_left_cancel mod_less mod_mult_self2 mult_left_cancel not_less_zero)

lemma limbs_val_inject: "length a = length b \<Longrightarrow> limbs_val a = limbs_val b \<longleftrightarrow> a = b"
proof (induction a b rule: list_induct2)
  case (Cons x a y b)
  have "unat x < 2 ^ 32" "unat y < 2 ^ 32" by (rule limb_less)+
  then have "unat x + 2 ^ 32 * limbs_val a = unat y + 2 ^ 32 * limbs_val b \<longleftrightarrow> unat x = unat y \<and> limbs_val a = limbs_val b"
    by (rule limb_split)
  then show ?case using Cons.IH by (simp add: word_unat_eq_iff)
qed simp

lemma unat_uint_of: "LENGTH('n::len) = 32 * length pn \<Longrightarrow> unat (uint_of pn :: 'n word) = limbs_val pn"
  using limbs_val_less [of pn] by (simp add: uint_of_def unat_of_nat)

lemma uint_of_inject: "LENGTH('n::len) = 32 * length a \<Longrightarrow> length b = length a \<Longrightarrow> (uint_of a = (uint_of b :: 'n word)) \<longleftrightarrow> a = b"
  using unat_uint_of [where 'n = 'n, of a] unat_uint_of [where 'n = 'n, of b] limbs_val_inject [of a b] by metis

subsection \<open>Sums\<close>

lemma limb_div: "(n + 2 ^ 32 * v) div 2 ^ 32 = v + n div 2 ^ 32" "(n + 2 ^ 32 * v) mod 2 ^ 32 = n mod (2 ^ 32 :: nat)"
  by simp_all

lemma low_limb: "unat (ucast (n AND 0xffffffff) :: u32) = unat (n :: u64) mod 2 ^ 32"
proof -
  have "n AND 0xffffffff = take_bit 32 n" by (simp add: take_bit_eq_mask mask_eq_exp_minus_1)
  then show ?thesis by (simp add: unsigned_ucast_eq unsigned_take_bit_eq) (simp add: take_bit_eq_mod)
qed

lemma add_loop_val:
  "length a = length b \<Longrightarrow> unat carry \<le> 1
    \<Longrightarrow> limbs_val (add_loop carry a b) = (limbs_val a + limbs_val b + unat carry) mod 2 ^ (32 * length a)"
proof (induction a b arbitrary: carry rule: list_induct2)
  case (Cons x a y b)
  define n :: u64 where "n = carry + ucast x + ucast y"
  have "unat x < 2 ^ 32" "unat y < 2 ^ 32" by (rule limb_less)+
  then have n: "unat n = unat carry + unat x + unat y"
    using Cons.prems by (simp add: n_def unat_word_ariths unat_up)
  have d: "unat (drop_bit 32 n) = unat n div 2 ^ 32" by (subst unat_drop_bit_eq) (rule drop_bit_eq_div)
  have "unat n < 2 * 2 ^ 32" using Cons.prems n \<open>unat x < 2 ^ 32\<close> \<open>unat y < 2 ^ 32\<close> by simp
  then have "unat (drop_bit 32 n) \<le> 1" using less_mult_imp_div_less [of "unat n" 2 "2 ^ 32"] unfolding d by linarith
  from Cons.IH [OF this] have IH: "limbs_val (add_loop (drop_bit 32 n) a b)
      = (limbs_val a + limbs_val b + unat n div 2 ^ 32) mod 2 ^ (32 * length a)"
    by (simp only: d)
  define t where "t = unat x + 2 ^ 32 * limbs_val a + (unat y + 2 ^ 32 * limbs_val b) + unat carry"
  have t: "t = unat n + 2 ^ 32 * (limbs_val a + limbs_val b)" by (simp add: t_def n algebra_simps)
  have "t mod (2 ^ 32 * 2 ^ (32 * length a)) = 2 ^ 32 * (t div 2 ^ 32 mod 2 ^ (32 * length a)) + t mod 2 ^ 32"
    by (rule mod_mult2_eq)
  moreover have "t div 2 ^ 32 = limbs_val a + limbs_val b + unat n div 2 ^ 32" "t mod 2 ^ 32 = unat n mod 2 ^ 32"
    unfolding t by (simp_all only: limb_div)
  ultimately have m: "t mod 2 ^ (32 * length (x # a)) = unat n mod 2 ^ 32 + 2 ^ 32 * ((limbs_val a + limbs_val b + unat n div 2 ^ 32) mod 2 ^ (32 * length a))"
    by (simp add: power_add)
  have t': "limbs_val (x # a) + limbs_val (y # b) + unat carry = t" by (simp add: t_def)
  have "limbs_val (add_loop carry (x # a) (y # b)) = unat n mod 2 ^ 32 + 2 ^ 32 * limbs_val (add_loop (drop_bit 32 n) a b)"
    by (simp only: add_loop.simps Let_def n_def [symmetric] limbs_val.simps low_limb)
  then show ?case unfolding t' m IH .
qed simp

lemma bu_inc_val: "pn \<noteq> [] \<Longrightarrow> limbs_val (bu_inc pn) = (limbs_val pn + 1) mod 2 ^ (32 * length pn)"
proof (induction pn rule: bu_inc.induct)
  case (2 x)
  then show ?case by (simp add: unat_word_ariths)
next
  case (3 x y pn)
  let ?v = "limbs_val (y # pn)" and ?m = "2 ^ (32 * length (y # pn)) :: nat"
  have v: "?v < ?m" by (rule limbs_val_less)
  show ?case
  proof (cases "x + 1 = 0")
    case True
    then have x: "unat x = 2 ^ 32 - 1" by (simp add: eq_neg_iff_add_eq_0 [symmetric] unsigned_minus_1_eq_mask mask_eq_exp_minus_1)
    have "limbs_val (bu_inc (x # y # pn)) = 2 ^ 32 * ((?v + 1) mod ?m)" using 3 True by simp
    also have "\<dots> = (2 ^ 32 * (?v + 1)) mod (2 ^ 32 * ?m)" by (rule mult_mod_right)
    finally show ?thesis using x by (simp add: algebra_simps power_add)
  next
    case False
    have u: "unat (x + 1) = (unat x + 1) mod 2 ^ 32" by (simp add: unat_word_ariths)
    moreover from u have "unat x + 1 \<noteq> 2 ^ 32" using False by (metis mod_self unsigned_eq_0_iff)
    ultimately have x: "unat (x + 1) = unat x + 1" "unat x + 1 < 2 ^ 32"
      using limb_less [of x] by simp_all
    have "unat x + 1 + 2 ^ 32 * ?v < 2 ^ 32 * ?m" using v x(2) by (simp add: power_add)
    then show ?thesis using False x by (simp add: power_add)
  qed
qed simp

lemma mod_word: "LENGTH('n::len) = n \<Longrightarrow> (of_nat (m mod 2 ^ n) :: 'n word) = of_nat m"
  by (simp add: word_of_nat_eq_iff take_bit_eq_mod)

lemma uint_of_add: "LENGTH('n::len) = 32 * length a \<Longrightarrow> length a = length b \<Longrightarrow> (uint_of (bu_add a b) :: 'n word) = uint_of a + uint_of b"
  using add_loop_val [of a b 0] mod_word [where 'n = 'n, of "32 * length a"] by (simp add: uint_of_def bu_add_def)

lemma uint_of_inc: "LENGTH('n::len) = 32 * length a \<Longrightarrow> (uint_of (bu_inc a) :: 'n word) = uint_of a + 1"
  using bu_inc_val [of a] mod_word [where 'n = 'n, of "32 * length a"] by (cases a) (simp_all add: uint_of_def)

lemma length_bu_inc [simp]: "length (bu_inc a) = length a"
  by (induction a rule: bu_inc.induct) auto

lemma length_bu_dec [simp]: "length (bu_dec a) = length a"
  by (induction a rule: bu_dec.induct) auto

lemma length_bu_add [simp]: "length (bu_add a b) = min (length a) (length b)"
proof -
  have "length (add_loop c a b) = min (length a) (length b)" for c
    by (induction c a b rule: add_loop.induct) (auto simp: Let_def)
  then show ?thesis by (simp add: bu_add_def)
qed

lemma bu_inc_dec: "bu_inc (bu_dec a) = a"
proof (induction a rule: bu_dec.induct)
  case (3 x y pn)
  obtain z zs where z: "bu_dec (y # pn) = z # zs" by (cases "bu_dec (y # pn)") (use length_bu_dec [of "y # pn"] in simp_all)
  show ?case using 3 z by (auto simp: eq_neg_iff_add_eq_0)
qed auto

lemma uint_of_dec: "LENGTH('n::len) = 32 * length a \<Longrightarrow> (uint_of (bu_dec a) :: 'n word) = uint_of a - 1"
  using uint_of_inc [where 'n = 'n, of "bu_dec a"] by (simp add: bu_inc_dec)

lemma limbs_val_not: "limbs_val (map NOT a) + limbs_val a + 1 = 2 ^ (32 * length a)"
proof (induction a)
  case (Cons x a)
  have "unat (NOT x) + unat x + 1 = 2 ^ 32"
  proof -
    have "uint (NOT x) = 2 ^ 32 - 1 - uint x"
      using take_bit_int_eq_self [of "uint x" 32] unsigned_less [of x, where ?'a = int]
      by (simp add: unsigned_not_eq take_bit_not_eq_mask_diff mask_eq_exp_minus_1)
    then have "int (unat (NOT x) + unat x + 1) = int (2 ^ 32)" by simp
    then show ?thesis by (simp only: of_nat_eq_iff)
  qed
  moreover have "2 ^ 32 * limbs_val (map NOT a) + 2 ^ 32 * limbs_val a + 2 ^ 32 = 2 ^ 32 * 2 ^ (32 * length a)"
    using arg_cong [OF Cons, of "\<lambda>v. 2 ^ 32 * v"] by (simp add: algebra_simps)
  ultimately show ?case by (simp add: power_add)
qed simp

lemma uint_of_not: "LENGTH('n::len) = 32 * length a \<Longrightarrow> (uint_of (bu_not a) :: 'n word) = NOT (uint_of a)"
proof -
  assume len: "LENGTH('n) = 32 * length a"
  have "(of_nat (limbs_val (map NOT a) + limbs_val a + 1) :: 'n word) = of_nat (2 ^ LENGTH('n))"
    by (simp only: limbs_val_not len)
  then have "uint_of (bu_not a) = - uint_of a - (1 :: 'n word)"
    by (simp add: uint_of_def bu_not_def eq_neg_iff_add_eq_0 eq_diff_eq) (simp add: algebra_simps)
  then show ?thesis by (simp add: not_eq_complement)
qed

lemma uint_of_neg: "LENGTH('n::len) = 32 * length a \<Longrightarrow> (uint_of (bu_neg a) :: 'n word) = - uint_of a"
  using uint_of_inc [where 'n = 'n, of "map NOT a"] uint_of_not [where 'n = 'n, of a]
  by (simp add: bu_neg_def bu_not_def not_eq_complement)

lemma length_bu_neg [simp]: "length (bu_neg a) = length a"
  by (simp add: bu_neg_def)

lemma uint_of_sub: "LENGTH('n::len) = 32 * length a \<Longrightarrow> length a = length b \<Longrightarrow> (uint_of (bu_sub a b) :: 'n word) = uint_of a - uint_of b"
  using uint_of_add [where 'n = 'n, of a "bu_neg b"] uint_of_neg [where 'n = 'n, of b] by (simp add: bu_sub_def)

lemma limbs_val_zeros [simp]: "limbs_val (replicate n 0) = 0"
  by (induction n) simp_all

lemma length_bu_of_u64: "2 \<le> W \<Longrightarrow> length (bu_of_u64 W b) = W"
  by (simp add: bu_of_u64_def)

lemma limbs_val_u64: "limbs_val (bu_of_u64 W b) = unat b"
proof -
  have d: "unat (drop_bit 32 b) = unat b div 2 ^ 32" by (subst unat_drop_bit_eq) (rule drop_bit_eq_div)
  have "unat (ucast b :: u32) = unat b mod 2 ^ 32" by (simp add: unsigned_ucast_eq unsigned_take_bit_eq) (simp add: take_bit_eq_mod)
  moreover have "unat b < 2 ^ 64" using unsigned_less [of b] by simp
  then have "unat (ucast (drop_bit 32 b) :: u32) = unat b div 2 ^ 32"
    by (simp only: unsigned_ucast_eq d) (simp add: take_bit_eq_mod)
  ultimately show ?thesis by (simp only: bu_of_u64_def limbs_val.simps limbs_val_zeros) simp
qed

lemma uint_of_u64: "uint_of (bu_of_u64 W b) = (ucast b :: 'n::len word)"
  by (simp add: uint_of_def limbs_val_u64)

subsection \<open>Bits\<close>

lemma bit_limb_step: "bit (unat (x :: u32) + 2 ^ 32 * v) n \<longleftrightarrow> (if n < 32 then bit x n else bit v (n - 32))"
proof (cases "n < 32")
  case True
  then have "(2 :: nat) ^ 32 = 2 ^ n * 2 ^ (32 - n)" by (simp flip: power_add)
  moreover have "(p + 2 ^ n * m * v) div 2 ^ n = p div 2 ^ n + m * v" for p m v :: nat by (simp add: mult.assoc)
  ultimately have "(unat x + 2 ^ 32 * v) div 2 ^ n = unat x div 2 ^ n + 2 ^ (32 - n) * v" by (simp only:)
  then show ?thesis using True by (simp add: bit_iff_odd [of "_ + _"]) (simp add: bit_unsigned_iff flip: bit_iff_odd)
next
  case False
  then have "(2 :: nat) ^ n = 2 ^ 32 * 2 ^ (n - 32)" using power_add [of "2 :: nat" 32 "n - 32"] by simp
  then have "(unat x + 2 ^ 32 * v) div 2 ^ n = (unat x + 2 ^ 32 * v) div 2 ^ 32 div 2 ^ (n - 32)" by (simp only: div_mult2_eq)
  also have "\<dots> = v div 2 ^ (n - 32)" using limb_less [of x] by simp
  finally show ?thesis using False by (simp add: bit_iff_odd)
qed

lemma bit_limbs_val: "bit (limbs_val pn) n \<longleftrightarrow> n < 32 * length pn \<and> bit (pn ! (n div 32)) (n mod 32)"
proof (induction pn arbitrary: n)
  case (Cons x pn)
  show ?case
  proof (cases "n < 32")
    case False
    then have d: "n div 32 = Suc ((n - 32) div 32)" "n mod 32 = (n - 32) mod 32" by (simp_all add: le_div_geq le_mod_geq)
    have "bit (limbs_val (x # pn)) n \<longleftrightarrow> bit (limbs_val pn) (n - 32)" using False bit_limb_step [of x "limbs_val pn" n] by simp
    moreover have "n - 32 < 32 * length pn \<longleftrightarrow> n < 32 * length (x # pn)" using False by auto
    ultimately show ?thesis unfolding Cons d nth_Cons_Suc by simp
  qed (use bit_limb_step [of x "limbs_val pn" n] in simp)
qed simp

lemma bit_uint_of: "LENGTH('n::len) = 32 * length pn \<Longrightarrow> bit (uint_of pn :: 'n word) n \<longleftrightarrow> n < 32 * length pn \<and> bit (pn ! (n div 32)) (n mod 32)"
  by (auto simp: uint_of_def bit_limbs_val bit_of_nat_iff bit_simps)

lemma limb_index: "n < 32 * w \<Longrightarrow> n div 32 < (w :: nat)"
  by (simp add: less_mult_imp_div_less mult.commute)

lemma uint_of_map2:
  assumes "LENGTH('n::len) = 32 * length a" "length a = length b" "\<And>n. bit w n \<longleftrightarrow> n < 32 * length a \<and> h (bit (uint_of a :: 'n word) n) (bit (uint_of b :: 'n word) n)"
    and "\<And>x y n. n < 32 \<Longrightarrow> bit (f x y) n \<longleftrightarrow> h (bit x n) (bit y n)"
  shows "uint_of (map2 f a b) = (w :: 'n word)"
proof (rule bit_word_eqI)
  fix n assume "n < LENGTH('n)"
  then have n: "n < 32 * length a" "n div 32 < length a" using limb_index assms(1) by auto
  then have "bit (uint_of (map2 f a b) :: 'n word) n \<longleftrightarrow> bit (f (a ! (n div 32)) (b ! (n div 32))) (n mod 32)"
    using bit_uint_of [where 'n = 'n, of "map2 f a b" n] assms(1,2) by simp
  also have "\<dots> \<longleftrightarrow> h (bit (a ! (n div 32)) (n mod 32)) (bit (b ! (n div 32)) (n mod 32))" by (rule assms(4)) simp
  finally show "bit (uint_of (map2 f a b) :: 'n word) n \<longleftrightarrow> bit w n"
    using assms(3) n bit_uint_of [where 'n = 'n, of a n] bit_uint_of [where 'n = 'n, of b n] assms(1,2) by simp
qed

lemma uint_of_bitwise:
  assumes "LENGTH('n::len) = 32 * length a" "length a = length b"
  shows "uint_of (bu_xor a b) = (uint_of a XOR uint_of b :: 'n word)" "uint_of (bu_and a b) = (uint_of a AND uint_of b :: 'n word)"
    "uint_of (bu_or a b) = (uint_of a OR uint_of b :: 'n word)"
  unfolding bu_xor_def bu_and_def bu_or_def
proof -
  note b = bit_uint_of [where 'n = 'n, of a, OF assms(1)] bit_uint_of [where 'n = 'n, of b, unfolded assms(2) [symmetric], OF assms(1)]
  show "uint_of (map2 (XOR) a b) = (uint_of a XOR uint_of b :: 'n word)"
    by (rule uint_of_map2 [OF assms, where h = "(\<noteq>)"]) (auto simp: bit_xor_iff b)
  show "uint_of (map2 (AND) a b) = (uint_of a AND uint_of b :: 'n word)"
    by (rule uint_of_map2 [OF assms, where h = "(\<and>)"]) (auto simp: bit_and_iff b)
  show "uint_of (map2 (OR) a b) = (uint_of a OR uint_of b :: 'n word)"
    by (rule uint_of_map2 [OF assms, where h = "(\<or>)"]) (auto simp: bit_or_iff b)
qed

subsection \<open>Shifts\<close>

lemma length_shl_turn [simp]: "length (shl_turn a k s i pn) = length pn"
  by (simp add: shl_turn_def Let_def)

lemma shl_turn_nth:
  assumes "length r = length a" "j < length a"
  shows "shl_turn a k s m r ! j = (if j = m + k then r ! j OR push_bit s (a ! m)
      else if j = m + k + 1 \<and> s \<noteq> 0 then r ! j OR drop_bit (32 - s) (a ! m) else r ! j)"
  using assms by (auto simp: shl_turn_def Let_def nth_list_update)

lemma shl_fold:
  assumes "m \<le> length a"
  shows "length (fold (shl_turn a k s) [0..<m] (replicate (length a) 0)) = length a
    \<and> (\<forall>j<length a. fold (shl_turn a k s) [0..<m] (replicate (length a) 0) ! j
        = (if k \<le> j \<and> j - k < m then push_bit s (a ! (j - k)) else 0)
          OR (if s \<noteq> 0 \<and> k < j \<and> j - k - 1 < m then drop_bit (32 - s) (a ! (j - k - 1)) else 0))"
  using assms
proof (induction m)
  case (Suc m)
  let ?r = "fold (shl_turn a k s) [0..<m] (replicate (length a) 0)"
  have IH: "length ?r = length a" "\<And>j. j < length a \<Longrightarrow> ?r ! j = (if k \<le> j \<and> j - k < m then push_bit s (a ! (j - k)) else 0)
          OR (if s \<noteq> 0 \<and> k < j \<and> j - k - 1 < m then drop_bit (32 - s) (a ! (j - k - 1)) else 0)"
    using Suc by auto
  note turn = shl_turn_nth [OF IH(1), of _ k s m]
  show ?case
  proof (intro conjI allI impI)
    fix j assume j: "j < length a"
    have "k \<le> j \<and> j - k < Suc m \<longleftrightarrow> j = m + k \<or> k \<le> j \<and> j - k < m" "k < j \<and> j - k - 1 < Suc m \<longleftrightarrow> j = m + k + 1 \<or> k < j \<and> j - k - 1 < m"
      by auto
    then show "fold (shl_turn a k s) [0..<Suc m] (replicate (length a) 0) ! j
        = (if k \<le> j \<and> j - k < Suc m then push_bit s (a ! (j - k)) else 0)
          OR (if s \<noteq> 0 \<and> k < j \<and> j - k - 1 < Suc m then drop_bit (32 - s) (a ! (j - k - 1)) else 0)"
      using turn [OF j] IH(2) [OF j] by (cases "s = 0"; cases "j = m + k"; cases "j = m + k + 1") (simp_all add: or.commute)
  qed (simp add: IH(1))
qed simp

lemma length_bu_shl [simp]: "length (bu_shl a n) = length a"
  using shl_fold [of "length a" a] by (simp add: bu_shl_def)

lemma bu_shl_nth:
  assumes "j < length a" "k = unat n div 32" "s = unat n mod 32"
  shows "bu_shl a n ! j = (if k \<le> j then push_bit s (a ! (j - k)) else 0)
    OR (if s \<noteq> 0 \<and> k < j then drop_bit (32 - s) (a ! (j - k - 1)) else 0)"
proof -
  have "j - k < length a" "j - k - 1 < length a" using assms(1) by auto
  then show ?thesis
    using conjunct2 [OF shl_fold [of "length a" a k s, OF order_refl], rule_format, OF assms(1)]
    unfolding bu_shl_def assms(2,3) [symmetric] by presburger
qed

lemma bu_shl_bit:
  assumes "j < length a" "r < 32"
  shows "bit (bu_shl a n ! j) r \<longleftrightarrow> unat n \<le> 32 * j + r \<and> bit (a ! ((32 * j + r - unat n) div 32)) ((32 * j + r - unat n) mod 32)"
proof -
  define k s where ks: "k = unat n div 32" "s = unat n mod 32"
  then have n: "unat n = 32 * k + s" "s < 32" by simp_all
  have "bit (bu_shl a n ! j) r \<longleftrightarrow> k \<le> j \<and> s \<le> r \<and> bit (a ! (j - k)) (r - s) \<or> s \<noteq> 0 \<and> k < j \<and> bit (a ! (j - k - 1)) (r + (32 - s))"
    unfolding bu_shl_nth [OF assms(1) ks] using assms(2) by (auto simp: bit_or_iff bit_push_bit_iff bit_drop_bit_eq add.commute)
  also have "\<dots> \<longleftrightarrow> unat n \<le> 32 * j + r \<and> bit (a ! ((32 * j + r - unat n) div 32)) ((32 * j + r - unat n) mod 32)"
  proof (cases "s \<le> r")
    case True
    have "(32 * j + r - unat n) div 32 = j - k" "(32 * j + r - unat n) mod 32 = r - s" if "k \<le> j"
    proof -
      have "32 * j + r - unat n = (r - s) + 32 * (j - k)" using that True n by simp
      then show "(32 * j + r - unat n) div 32 = j - k" "(32 * j + r - unat n) mod 32 = r - s" using assms(2) by simp_all
    qed
    moreover have "k \<le> j \<longleftrightarrow> unat n \<le> 32 * j + r" using True n assms(2) by auto
    moreover have "\<not> bit (a ! (j - k - 1)) (r + (32 - s))" using True n(2) bit_imp_le_length [of "a ! (j - k - 1)" "r + (32 - s)"] by auto
    ultimately show ?thesis using True by auto
  next
    case False
    then have low: "r + (32 - s) < 32" using n(2) by linarith
    have "(32 * j + r - unat n) div 32 = j - k - 1" "(32 * j + r - unat n) mod 32 = r + (32 - s)" if "k < j"
    proof -
      have "32 * j + r - unat n = (r + (32 - s)) + 32 * (j - k - 1)" using that False n by simp
      then show "(32 * j + r - unat n) div 32 = j - k - 1" "(32 * j + r - unat n) mod 32 = r + (32 - s)" using low by simp_all
    qed
    moreover have "k < j \<longleftrightarrow> unat n \<le> 32 * j + r" using False n assms(2) by auto
    ultimately show ?thesis using False by auto
  qed
  finally show ?thesis .
qed

lemma uint_of_shl:
  assumes "LENGTH('n::len) = 32 * length a"
  shows "uint_of (bu_shl a n) = (push_bit (unat n) (uint_of a) :: 'n word)"
proof (rule bit_word_eqI)
  fix i assume "i < LENGTH('n)"
  then have i: "i < 32 * length a" "i div 32 < length a" "i mod 32 < 32" using limb_index assms by auto
  have "bit (uint_of (bu_shl a n) :: 'n word) i \<longleftrightarrow> bit (bu_shl a n ! (i div 32)) (i mod 32)"
    using bit_uint_of [where 'n = 'n, of "bu_shl a n" i] assms i(1) by simp
  also have "\<dots> \<longleftrightarrow> unat n \<le> i \<and> bit (a ! ((i - unat n) div 32)) ((i - unat n) mod 32)"
    using bu_shl_bit [OF i(2,3)] by simp
  finally show "bit (uint_of (bu_shl a n) :: 'n word) i \<longleftrightarrow> bit (push_bit (unat n) (uint_of a) :: 'n word) i"
    using bit_uint_of [where 'n = 'n, of a "i - unat n"] assms i(1) by (auto simp: bit_push_bit_iff)
qed

lemma digit32: "q = p + 32 * d \<Longrightarrow> p < 32 \<Longrightarrow> q div 32 = d \<and> q mod 32 = (p :: nat)"
  by simp

lemma length_shr_turn [simp]: "length (shr_turn a k s i pn) = length pn"
  by (simp add: shr_turn_def Let_def)

lemma shr_turn_nth:
  assumes "length r = length a" "j < length a" "m < length a"
  shows "shr_turn a k s m r ! j = (if m = j + k then r ! j OR drop_bit s (a ! m)
      else if m = j + k + 1 \<and> s \<noteq> 0 then r ! j OR push_bit (32 - s) (a ! m) else r ! j)"
  using assms by (auto simp: shr_turn_def Let_def nth_list_update)

lemma shr_fold:
  assumes "m \<le> length a"
  shows "length (fold (shr_turn a k s) [0..<m] (replicate (length a) 0)) = length a
    \<and> (\<forall>j<length a. fold (shr_turn a k s) [0..<m] (replicate (length a) 0) ! j
        = (if j + k < m then drop_bit s (a ! (j + k)) else 0)
          OR (if s \<noteq> 0 \<and> j + k + 1 < m then push_bit (32 - s) (a ! (j + k + 1)) else 0))"
  using assms
proof (induction m)
  case (Suc m)
  let ?r = "fold (shr_turn a k s) [0..<m] (replicate (length a) 0)"
  have IH: "length ?r = length a" "\<And>j. j < length a \<Longrightarrow> ?r ! j = (if j + k < m then drop_bit s (a ! (j + k)) else 0)
          OR (if s \<noteq> 0 \<and> j + k + 1 < m then push_bit (32 - s) (a ! (j + k + 1)) else 0)"
    using Suc by auto
  note turn = shr_turn_nth [OF IH(1), of _ m k s]
  show ?case
  proof (intro conjI allI impI)
    fix j assume j: "j < length a"
    have "j + k < Suc m \<longleftrightarrow> m = j + k \<or> j + k < m" "j + k + 1 < Suc m \<longleftrightarrow> m = j + k + 1 \<or> j + k + 1 < m" by auto
    then show "fold (shr_turn a k s) [0..<Suc m] (replicate (length a) 0) ! j
        = (if j + k < Suc m then drop_bit s (a ! (j + k)) else 0)
          OR (if s \<noteq> 0 \<and> j + k + 1 < Suc m then push_bit (32 - s) (a ! (j + k + 1)) else 0)"
      using turn [OF j] IH(2) [OF j] Suc.prems by (auto simp: ac_simps)
  qed (simp add: IH(1))
qed simp

lemma length_bu_shr [simp]: "length (bu_shr a n) = length a"
  using shr_fold [of "length a" a] by (simp add: bu_shr_def)

lemma bu_shr_bit:
  assumes "j < length a" "r < 32"
  shows "bit (bu_shr a n ! j) r \<longleftrightarrow> 32 * j + r + unat n < 32 * length a \<and> bit (a ! ((32 * j + r + unat n) div 32)) ((32 * j + r + unat n) mod 32)"
proof -
  define k s where ks: "k = unat n div 32" "s = unat n mod 32"
  then have n: "unat n = 32 * k + s" "s < 32" by simp_all
  have "bu_shr a n ! j = (if j + k < length a then drop_bit s (a ! (j + k)) else 0)
      OR (if s \<noteq> 0 \<and> j + k + 1 < length a then push_bit (32 - s) (a ! (j + k + 1)) else 0)"
    using conjunct2 [OF shr_fold [of "length a" a k s, OF order_refl], rule_format, OF assms(1)]
    unfolding bu_shr_def ks [symmetric] .
  then have "bit (bu_shr a n ! j) r \<longleftrightarrow> j + k < length a \<and> bit (a ! (j + k)) (s + r)
      \<or> s \<noteq> 0 \<and> j + k + 1 < length a \<and> 32 - s \<le> r \<and> bit (a ! (j + k + 1)) (r - (32 - s))"
    using assms(2) by (auto simp: bit_or_iff bit_push_bit_iff bit_drop_bit_eq)
  also have "\<dots> \<longleftrightarrow> 32 * j + r + unat n < 32 * length a \<and> bit (a ! ((32 * j + r + unat n) div 32)) ((32 * j + r + unat n) mod 32)"
  proof (cases "s + r < 32")
    case True
    have "32 * j + r + unat n = (s + r) + 32 * (j + k)" using n by simp
    from digit32 [OF this True] have "(32 * j + r + unat n) div 32 = j + k" "(32 * j + r + unat n) mod 32 = s + r" by blast+
    moreover have "j + k < length a \<longleftrightarrow> 32 * j + r + unat n < 32 * length a" using True n by auto
    ultimately show ?thesis using True by auto
  next
    case False
    then have low: "r - (32 - s) < 32" "s + r = (r - (32 - s)) + 32" "s \<noteq> 0" using n(2) assms(2) by auto
    have "32 * j + r + unat n = (r - (32 - s)) + 32 * (j + k + 1)" using n low by simp
    from digit32 [OF this low(1)] have "(32 * j + r + unat n) div 32 = j + k + 1" "(32 * j + r + unat n) mod 32 = r - (32 - s)" by blast+
    moreover have "j + k + 1 < length a \<longleftrightarrow> 32 * j + r + unat n < 32 * length a" using low n by auto
    moreover have "\<not> bit (a ! (j + k)) (s + r)" using False bit_imp_le_length [of "a ! (j + k)" "s + r"] by auto
    ultimately show ?thesis using False low by auto
  qed
  finally show ?thesis .
qed

lemma uint_of_shr:
  assumes "LENGTH('n::len) = 32 * length a"
  shows "uint_of (bu_shr a n) = (drop_bit (unat n) (uint_of a) :: 'n word)"
proof (rule bit_word_eqI)
  fix i assume "i < LENGTH('n)"
  then have i: "i < 32 * length a" "i div 32 < length a" "i mod 32 < 32" using limb_index assms by auto
  have "bit (uint_of (bu_shr a n) :: 'n word) i \<longleftrightarrow> bit (bu_shr a n ! (i div 32)) (i mod 32)"
    using bit_uint_of [where 'n = 'n, of "bu_shr a n" i] assms i(1) by simp
  also have "\<dots> \<longleftrightarrow> i + unat n < 32 * length a \<and> bit (a ! ((i + unat n) div 32)) ((i + unat n) mod 32)"
    using bu_shr_bit [OF i(2,3)] by simp
  finally show "bit (uint_of (bu_shr a n) :: 'n word) i \<longleftrightarrow> bit (drop_bit (unat n) (uint_of a) :: 'n word) i"
    using bit_uint_of [where 'n = 'n, of a "unat n + i"] assms by (simp add: bit_drop_bit_eq add.commute)
qed

subsection \<open>Comparisons\<close>

lemma less_loop_snoc: "length a = length b \<Longrightarrow> less_loop (a @ [x]) (b @ [y]) same = less_loop a b (if x < y then True else if x > y then False else same)"
  by (induction a b rule: list_induct2) auto

lemma limb_less_iff: "p < m \<Longrightarrow> q < m \<Longrightarrow> p + m * a < q + m * b \<longleftrightarrow> a < b \<or> a = b \<and> p < (q :: nat)"
proof (cases a b rule: linorder_cases)
  case less
  assume p: "p < m" "q < m"
  have "m * (a + 1) \<le> m * b" using less by (intro mult_le_mono2) simp
  then show ?thesis using less p by simp
next
  case greater
  assume p: "p < m" "q < m"
  have "m * (b + 1) \<le> m * a" using greater by (intro mult_le_mono2) simp
  then show ?thesis using greater p by simp
qed simp

lemma limbs_compare:
  "limbs_val (x # a) < limbs_val (y # b) \<longleftrightarrow> limbs_val a < limbs_val b \<or> limbs_val a = limbs_val b \<and> x < y"
  "limbs_val (x # a) = limbs_val (y # b) \<longleftrightarrow> limbs_val a = limbs_val b \<and> x = y"
  unfolding limbs_val.simps limb_less_iff [OF limb_less limb_less] limb_split [OF limb_less limb_less] word_less_nat_alt word_unat_eq_iff
  by blast+

lemma less_loop_val:
  "length a = length b \<Longrightarrow> less_loop (rev a) (rev b) same \<longleftrightarrow> limbs_val a < limbs_val b \<or> limbs_val a = limbs_val b \<and> same"
proof (induction a b arbitrary: same rule: list_induct2)
  case (Cons x a y b)
  show ?case using Cons by (auto simp: less_loop_snoc limbs_compare simp del: limbs_val.simps)
qed simp

lemma greater_loop_less: "greater_loop a b same \<longleftrightarrow> less_loop b a same"
  by (induction a b same rule: greater_loop.induct) auto

lemma greater_loop_val:
  assumes "length a = length b"
  shows "greater_loop (rev a) (rev b) same \<longleftrightarrow> limbs_val b < limbs_val a \<or> limbs_val b = limbs_val a \<and> same"
  unfolding greater_loop_less by (rule less_loop_val) (rule assms [symmetric])

lemma uint_of_compare:
  assumes "LENGTH('n::len) = 32 * length a" "length a = length b"
  shows "bu_less a b \<longleftrightarrow> uint_of a < (uint_of b :: 'n word)" "bu_le a b \<longleftrightarrow> uint_of a \<le> (uint_of b :: 'n word)"
    "bu_greater a b \<longleftrightarrow> uint_of a > (uint_of b :: 'n word)" "bu_ge a b \<longleftrightarrow> uint_of a \<ge> (uint_of b :: 'n word)"
    "bu_eq a b \<longleftrightarrow> uint_of a = (uint_of b :: 'n word)" "bu_is_zero a \<longleftrightarrow> uint_of a = (0 :: 'n word)"
proof -
  have u: "unat (uint_of a :: 'n word) = limbs_val a" "unat (uint_of b :: 'n word) = limbs_val b"
    by (rule unat_uint_of, use assms in simp)+
  show "bu_less a b \<longleftrightarrow> uint_of a < (uint_of b :: 'n word)" "bu_le a b \<longleftrightarrow> uint_of a \<le> (uint_of b :: 'n word)"
    "bu_greater a b \<longleftrightarrow> uint_of a > (uint_of b :: 'n word)" "bu_ge a b \<longleftrightarrow> uint_of a \<ge> (uint_of b :: 'n word)"
    unfolding bu_less_def bu_le_def bu_greater_def bu_ge_def less_loop_val [OF assms(2)] greater_loop_val [OF assms(2)]
      word_less_nat_alt word_le_nat_alt u by auto
  have "list_all2 (\<lambda>x y. \<not> x \<noteq> y) a b \<longleftrightarrow> a = b" by (simp add: list.rel_eq)
  then show "bu_eq a b \<longleftrightarrow> uint_of a = (uint_of b :: 'n word)" using uint_of_inject [OF assms(1) assms(2) [symmetric]] by (simp add: bu_eq_def)
  have "list_all (\<lambda>x. x = 0) pn \<longleftrightarrow> limbs_val pn = 0" for pn by (induction pn) (auto simp: unsigned_eq_0_iff)
  then show "bu_is_zero a \<longleftrightarrow> uint_of a = (0 :: 'n word)" using u(1) by (simp add: bu_is_zero_def word_unat_eq_iff)
qed

subsection \<open>Operations with 64-bit numbers\<close>

lemma two_limbs: "2 \<le> length a \<Longrightarrow> \<exists>x y zs. a = x # y # zs"
  by (cases a; cases "tl a") auto

lemma map2_zeros [simp]: "map2 (XOR) zs (replicate (length zs) (0 :: u32)) = zs" "map2 (OR) zs (replicate (length zs) (0 :: u32)) = zs"
  by (induction zs) simp_all

lemma xor64_xor: "2 \<le> length a \<Longrightarrow> bu_xor64 a b = bu_xor a (bu_of_u64 (length a) b)"
  using two_limbs [of a] by (auto simp: bu_xor64_def bu_xor_def bu_of_u64_def)

lemma or64_or: "2 \<le> length a \<Longrightarrow> bu_or64 a b = bu_or a (bu_of_u64 (length a) b)"
  using two_limbs [of a] by (auto simp: bu_or64_def bu_or_def bu_of_u64_def)

lemma eq64_eq: "2 \<le> length a \<Longrightarrow> bu_eq64 a b \<longleftrightarrow> a = bu_of_u64 (length a) b"
proof -
  have "list_all (\<lambda>x. x = 0) zs \<longleftrightarrow> zs = replicate (length zs) 0" for zs :: base_uint
    by (induction zs) auto
  moreover assume "2 \<le> length a"
  ultimately show ?thesis using two_limbs [of a] by (auto simp: bu_eq64_def bu_of_u64_def)
qed

lemma uint_of_op64:
  assumes "LENGTH('n::len) = 32 * length a" "2 \<le> length a"
  shows "uint_of (bu_add64 a n) = (uint_of a + ucast n :: 'n word)" "uint_of (bu_sub64 a n) = (uint_of a - ucast n :: 'n word)"
    "uint_of (bu_xor64 a n) = (uint_of a XOR ucast n :: 'n word)" "uint_of (bu_or64 a n) = (uint_of a OR ucast n :: 'n word)"
    "bu_eq64 a n \<longleftrightarrow> uint_of a = (ucast n :: 'n word)"
proof -
  let ?b = "bu_of_u64 (length a) n"
  have len: "length a = length ?b" using length_bu_of_u64 [OF assms(2)] by simp
  have l': "LENGTH('n) = 32 * length ?b" using assms(1) len by simp
  note b = uint_of_u64 [where 'n = 'n, of "length a" n]
  show "uint_of (bu_add64 a n) = (uint_of a + ucast n :: 'n word)"
    unfolding bu_add64_def uint_of_add [OF assms(1) len] b ..
  show "uint_of (bu_sub64 a n) = (uint_of a - ucast n :: 'n word)"
    using uint_of_add [OF assms(1), of "bu_neg ?b"] uint_of_neg [OF l'] len by (simp add: bu_sub64_def b)
  show "uint_of (bu_xor64 a n) = (uint_of a XOR ucast n :: 'n word)"
    unfolding xor64_xor [OF assms(2)] uint_of_bitwise [OF assms(1) len] b ..
  show "uint_of (bu_or64 a n) = (uint_of a OR ucast n :: 'n word)"
    unfolding or64_or [OF assms(2)] uint_of_bitwise [OF assms(1) len] b ..
  show "bu_eq64 a n \<longleftrightarrow> uint_of a = (ucast n :: 'n word)"
    unfolding eq64_eq [OF assms(2)] uint_of_inject [OF assms(1) len [symmetric], symmetric] b ..
qed

lemma uint_of_Get64:
  assumes "LENGTH('n::len) = 32 * length a" "2 * n + 1 < length a"
  shows "bu_Get64 a n = ucast (drop_bit (64 * n) (uint_of a :: 'n word))"
proof (rule bit_word_eqI)
  fix i assume "i < LENGTH(64)"
  then have i: "i < 64" by simp
  have "bit (ucast (drop_bit (64 * n) (uint_of a :: 'n word)) :: u64) i \<longleftrightarrow> bit (a ! ((64 * n + i) div 32)) ((64 * n + i) mod 32)"
    using i assms(2) bit_uint_of [OF assms(1), of "64 * n + i"] by (simp add: bit_ucast_iff bit_drop_bit_eq)
  also have "\<dots> \<longleftrightarrow> (if i < 32 then bit (a ! (2 * n)) i else bit (a ! (2 * n + 1)) (i - 32))"
  proof (cases "i < 32")
    case True
    then show ?thesis using digit32 [of "64 * n + i" i "2 * n"] by simp
  next
    case False
    then show ?thesis using digit32 [of "64 * n + i" "i - 32" "2 * n + 1"] i by simp
  qed
  also have "\<dots> \<longleftrightarrow> bit (bu_Get64 a n) i"
    using i bit_imp_le_length [of "a ! (2 * n)" i] by (auto simp: bu_Get64_def bit_or_iff bit_push_bit_iff bit_ucast_iff)
  finally show "bit (bu_Get64 a n) i \<longleftrightarrow> bit (ucast (drop_bit (64 * n) (uint_of a :: 'n word)) :: u64) i" by simp
qed

lemma limbs_val_append: "limbs_val (a @ b) = limbs_val a + 2 ^ (32 * length a) * limbs_val b"
  by (induction a) (simp_all add: power_add algebra_simps)

lemma limbs_val_take: "k \<le> length a \<Longrightarrow> limbs_val (take k a) = limbs_val a mod 2 ^ (32 * k)"
  using limbs_val_append [of "take k a" "drop k a"] limbs_val_less [of "take k a"] by simp

lemma uint_of_trim256: "length a = 16 \<Longrightarrow> uint_of (bu_trim256 a) = (ucast (uint_of a :: 512 word) :: uint256)"
proof -
  assume len: "length a = 16"
  have u: "unat (uint_of a :: 512 word) = limbs_val a" "unat (uint_of (bu_trim256 a) :: uint256) = limbs_val (bu_trim256 a)"
    by (rule unat_uint_of, simp add: len bu_trim256_def)+
  show ?thesis unfolding word_unat_eq_iff u(2)
    by (simp add: unsigned_ucast_eq unsigned_take_bit_eq u(1) bu_trim256_def limbs_val_take len) (simp add: take_bit_eq_mod)
qed

subsection \<open>Bytes\<close>

lemma length_bu_bytes: "length (bu_bytes pn) = 4 * length pn"
  by (induction pn) (simp_all add: bu_bytes_def)

lemma le_val_bu_bytes: "le_val (bu_bytes pn) = limbs_val pn"
proof (induction pn)
  case (Cons x pn)
  have "le_val (WRITEDATA 4 x) = unat x" using limb_less [of x] by (simp add: WRITEDATA_def le_val_le_fixed)
  then show ?case using Cons by (simp add: bu_bytes_def le_val_append)
qed (simp add: bu_bytes_def)

lemma length_bu_of_bytes [simp]: "length (bu_of_bytes n bs) = n"
  by (induction n arbitrary: bs) simp_all

lemma limbs_val_of_bytes: "length bs = 4 * n \<Longrightarrow> limbs_val (bu_of_bytes n bs) = le_val bs"
proof (induction n arbitrary: bs)
  case (Suc n)
  have "le_val (take 4 bs) < 2 ^ 32" using le_val_less [of "take 4 bs"] Suc.prems by simp
  then have "unat (of_nat (le_val (take 4 bs)) :: u32) = le_val (take 4 bs)" by (simp add: unat_of_nat)
  moreover have "le_val bs = le_val (take 4 bs) + 2 ^ 32 * le_val (drop 4 bs)"
    using le_val_append [of "take 4 bs" "drop 4 bs"] Suc.prems by simp
  ultimately show ?case using Suc by simp
qed simp

lemma bu_of_bytes_bytes: "bu_of_bytes (length pn) (bu_bytes pn) = pn"
  using limbs_val_inject [of "bu_of_bytes (length pn) (bu_bytes pn)" pn]
  by (simp add: limbs_val_of_bytes length_bu_bytes le_val_bu_bytes)

lemma uint_of_vch: "uint_of (bu_of_vch W vch) = (if length vch = 4 * W then of_nat (le_val vch) else 0 :: 'n::len word)"
  by (simp add: bu_of_vch_def uint_of_u64) (simp add: uint_of_def limbs_val_of_bytes)

text \<open>
  C38. \<open>base_uint\<close> computes with words of its width. For objects of \<open>WIDTH\<close> limbs and the words of
  \<open>32 * WIDTH\<close> bits, every operator of the class is the operator of the words: sums, differences,
  negation, steps up and down, the bitwise operators, shifts by any number, the six comparisons, the
  operators with 64-bit numbers, and the conversions.
\<close>

theorem base_uint_refines_words:
  assumes "LENGTH('n::len) = 32 * WIDTH" "length a = WIDTH" "length b = WIDTH" "2 \<le> WIDTH"
  shows "uint_of (bu_add a b) = (uint_of a + uint_of b :: 'n word) \<and> uint_of (bu_sub a b) = (uint_of a - uint_of b :: 'n word)
    \<and> uint_of (bu_neg a) = (- uint_of a :: 'n word) \<and> uint_of (bu_inc a) = (uint_of a + 1 :: 'n word)
    \<and> uint_of (bu_dec a) = (uint_of a - 1 :: 'n word) \<and> uint_of (bu_not a) = (NOT (uint_of a) :: 'n word)
    \<and> uint_of (bu_xor a b) = (uint_of a XOR uint_of b :: 'n word) \<and> uint_of (bu_and a b) = (uint_of a AND uint_of b :: 'n word)
    \<and> uint_of (bu_or a b) = (uint_of a OR uint_of b :: 'n word)
    \<and> uint_of (bu_shl a n) = (push_bit (unat n) (uint_of a) :: 'n word) \<and> uint_of (bu_shr a n) = (drop_bit (unat n) (uint_of a) :: 'n word)
    \<and> bu_less a b = (uint_of a < (uint_of b :: 'n word)) \<and> bu_le a b = (uint_of a \<le> (uint_of b :: 'n word))
    \<and> bu_greater a b = (uint_of a > (uint_of b :: 'n word)) \<and> bu_ge a b = (uint_of a \<ge> (uint_of b :: 'n word))
    \<and> bu_eq a b = (uint_of a = (uint_of b :: 'n word)) \<and> bu_is_zero a = (uint_of a = (0 :: 'n word))
    \<and> uint_of (bu_add64 a w) = (uint_of a + ucast w :: 'n word) \<and> uint_of (bu_sub64 a w) = (uint_of a - ucast w :: 'n word)
    \<and> uint_of (bu_xor64 a w) = (uint_of a XOR ucast w :: 'n word) \<and> uint_of (bu_or64 a w) = (uint_of a OR ucast w :: 'n word)
    \<and> bu_eq64 a w = (uint_of a = (ucast w :: 'n word)) \<and> uint_of (bu_of_u64 WIDTH w) = (ucast w :: 'n word)
    \<and> uint_of (bu_of_vch WIDTH (bu_bytes a)) = (uint_of a :: 'n word)"
proof -
  have l: "LENGTH('n) = 32 * length a" "length a = length b" "2 \<le> length a" using assms by simp_all
  have v: "bu_of_vch WIDTH (bu_bytes a) = a" using bu_of_bytes_bytes [of a] assms(2) by (simp add: bu_of_vch_def length_bu_bytes)
  show ?thesis
    unfolding uint_of_add [OF l(1,2)] uint_of_sub [OF l(1,2)] uint_of_neg [OF l(1)] uint_of_inc [OF l(1)] uint_of_dec [OF l(1)]
      uint_of_not [OF l(1)] uint_of_bitwise [OF l(1,2)] uint_of_shl [OF l(1)] uint_of_shr [OF l(1)] uint_of_compare [OF l(1,2)]
      uint_of_op64 [OF l(1,3)] uint_of_u64 v
    by (intro conjI; rule refl)
qed

theorem base_uint_refines_words_witness:
  "uint_of (bu_sub [0, 0, 0, 0, 0, 0, 0, 0] [0x80000001, 0, 0, 0, 0, 0, 0, 0]) = (- 0x80000001 :: uint256)
     \<and> uint_of (bu_shl [0x80000001, 0, 0, 0, 0, 0, 0, 0] 33) = (0x10000000200000000 :: uint256)"
proof -
  let ?a = "[0, 0, 0, 0, 0, 0, 0, 0] :: base_uint" and ?b = "[0x80000001, 0, 0, 0, 0, 0, 0, 0] :: base_uint"
  have "uint_of (bu_sub ?a ?b) = (uint_of ?a - uint_of ?b :: uint256)" "uint_of (bu_shl ?b 33) = (push_bit 33 (uint_of ?b) :: uint256)"
    using base_uint_refines_words [where 'n = 256, of 8 ?a ?b] base_uint_refines_words [where 'n = 256, of 8 ?b ?b 33] by simp_all
  then show ?thesis by (simp add: uint_of_def)
qed

subsection \<open>Hexadecimal text\<close>

definition is_hex :: "char \<Rightarrow> bool" where
  "is_hex c \<longleftrightarrow> HexDigit c \<noteq> -1"

definition hex_value :: "string \<Rightarrow> nat" where
  "hex_value ds = foldl (\<lambda>v c. 16 * v + nat (HexDigit c)) 0 ds"

lemma length_hexdigit: "length p_util_hexdigit = 256"
  by (simp add: p_util_hexdigit_def)

lemma HexDigit_range: "is_hex c \<Longrightarrow> HexDigit c \<in> {0..<16}"
proof -
  assume h: "is_hex c"
  have "list_all (\<lambda>x. x = -1 \<or> x \<in> {0..<16}) p_util_hexdigit" by (simp add: p_util_hexdigit_def list_all_iff)
  moreover have "of_char c < length p_util_hexdigit" by (simp add: length_hexdigit)
  ultimately have "HexDigit c = -1 \<or> HexDigit c \<in> {0..<16}" unfolding list_all_length HexDigit_def by blast
  then show ?thesis using h by (simp add: is_hex_def)
qed

primrec hex_value_rev :: "string \<Rightarrow> nat" where
  "hex_value_rev [] = 0"
| "hex_value_rev (d # ds) = nat (HexDigit d) + 16 * hex_value_rev ds"

lemma hex_value_rev: "hex_value ds = hex_value_rev (rev ds)"
proof -
  have "hex_value ds = foldr (\<lambda>c v. 16 * v + nat (HexDigit c)) (rev ds) 0" by (simp add: hex_value_def foldl_conv_foldr)
  also have "\<dots> = hex_value_rev (rev ds)" by (induction "rev ds" arbitrary: ds) (metis foldr.simps(1) id_apply hex_value_rev.simps(1), metis add.commute comp_apply foldr.simps(2) hex_value_rev.simps(2) rev_rev_ident)
  finally show ?thesis .
qed

lemma nibbles: "d < 16 \<Longrightarrow> e < 16 \<Longrightarrow> unat ((of_int d OR push_bit 4 (of_int e)) :: byte) = nat d + 16 * nat e" if "0 \<le> d" "0 \<le> e"
proof -
  have all: "list_all (\<lambda>d. list_all (\<lambda>e. unat ((of_int (int d) OR push_bit 4 (of_int (int e))) :: byte) = d + 16 * e) [0..<16]) [0..<16]"
    by code_simp
  assume "d < 16" "e < 16"
  then have "nat d \<in> set [0..<16]" "nat e \<in> set [0..<16]" using that by auto
  then show ?thesis using all that unfolding list_all_iff by (metis int_nat_eq)
qed

lemma length_hex_loop [simp]: "length (hex_loop ds n) = n"
  by (induction ds n rule: hex_loop.induct) simp_all

lemma le_val_zeros [simp]: "le_val (replicate n 0) = 0"
  by (induction n) simp_all

lemma digit_mod: "b < 256 \<Longrightarrow> (b + 256 * v) mod (256 * m) = b + 256 * (v mod m)" for b v m :: nat
  using mod_mult2_eq [of "b + 256 * v" 256 m] by simp

lemma hex_loop_value: "list_all is_hex ds \<Longrightarrow> le_val (hex_loop ds n) = hex_value_rev ds mod 256 ^ n"
proof (induction ds n rule: hex_loop.induct)
  case (3 d n)
  then have d: "0 \<le> HexDigit d" "HexDigit d < 16" using HexDigit_range by auto
  then have "unat (of_int (HexDigit d) :: byte) = nat (HexDigit d)" using nibbles [of "HexDigit d" 0] by simp
  moreover have "nat (HexDigit d) < 256 * 256 ^ n" using d by (simp add: less_le_trans [of _ 256])
  ultimately show ?case by simp
next
  case (4 d e ds n)
  then have d: "0 \<le> HexDigit d" "HexDigit d < 16" "0 \<le> HexDigit e" "HexDigit e < 16" using HexDigit_range by auto
  let ?b = "nat (HexDigit d) + 16 * nat (HexDigit e)"
  have b: "?b < 256" using d by linarith
  have "hex_value_rev (d # e # ds) mod 256 ^ Suc n = ?b + 256 * (hex_value_rev ds mod 256 ^ n)"
    using digit_mod [OF b, of "hex_value_rev ds" "256 ^ n"] by (simp add: algebra_simps)
  then show ?case using 4 nibbles [OF d(1,3,2,4)] by simp
qed simp_all

lemma HexDigit_hex_char:
  assumes "d < 16"
  shows "HexDigit (hex_char d) = int d \<and> \<not> isspace_c (hex_char d) \<and> hex_char d \<noteq> CHR ''x'' \<and> hex_char d \<noteq> CHR ''X''"
proof -
  have "list_all (\<lambda>d. HexDigit (hex_char d) = int d \<and> \<not> isspace_c (hex_char d) \<and> hex_char d \<noteq> CHR ''x'' \<and> hex_char d \<noteq> CHR ''X'') [0..<16]"
    by code_simp
  then show ?thesis using assms by (simp add: list_all_iff)
qed

definition hex_text :: "char \<Rightarrow> bool" where
  "hex_text c \<longleftrightarrow> is_hex c \<and> \<not> isspace_c c \<and> c \<noteq> CHR ''x'' \<and> c \<noteq> CHR ''X''"

lemma hex_text_char: "d < 16 \<Longrightarrow> hex_text (hex_char d)"
  using HexDigit_hex_char [of d] by (simp add: hex_text_def is_hex_def)

lemma high_nibble: "unat (b :: byte) div 16 < 16"
  using unsigned_less [of b, where ?'a = nat] by (simp add: less_mult_imp_div_less)

lemma hex_byte_text: "list_all hex_text (hex_byte b)"
  by (simp add: hex_byte_def hex_text_char high_nibble)

lemma GetHex_text: "list_all hex_text (bu_GetHex pn)"
proof -
  have "list_all hex_text (concat (map hex_byte bs))" for bs using hex_byte_text by (induction bs) auto
  then show ?thesis by (simp add: bu_GetHex_def)
qed

lemma GetHex_value: "hex_value_rev (rev (bu_GetHex pn)) = limbs_val pn"
proof -
  have "hex_value_rev (rev (concat (map hex_byte (rev bs)))) = le_val bs" for bs
  proof (induction bs)
    case (Cons b bs)
    have "hex_value_rev (rev (hex_byte b) @ ds) = unat b + 256 * hex_value_rev ds" for ds
      using HexDigit_hex_char [OF high_nibble [of b]] HexDigit_hex_char [of "unat b mod 16"]
      by (simp add: hex_byte_def algebra_simps)
    then show ?case using Cons by simp
  qed simp
  then show ?thesis by (simp add: bu_GetHex_def le_val_bu_bytes)
qed

lemma takeWhile_hex: "list_all hex_text ds \<Longrightarrow> takeWhile (\<lambda>c. HexDigit c \<noteq> -1) ds = ds"
  by (induction ds) (auto simp: hex_text_def is_hex_def)

lemma skip_0x_text: "list_all hex_text ds \<Longrightarrow> skip_0x ds = ds"
  by (auto simp: skip_0x_def hex_text_def split: list.splits)

lemma dropWhile_spaces: "list_all isspace_c ws \<Longrightarrow> dropWhile isspace_c (ws @ s) = dropWhile isspace_c s"
  by (induction ws) auto

lemma SetHex_prefixed:
  assumes "list_all isspace_c ws" "pre \<in> {'''', ''0x'', ''0X''}" "list_all hex_text ds"
  shows "limbs_val (bu_SetHex W (ws @ pre @ ds)) = hex_value ds mod 2 ^ (32 * W)"
proof -
  have first: "dropWhile isspace_c (pre @ ds) = pre @ ds"
    using assms(2,3) by (cases ds) (auto simp: hex_text_def isspace_c_def)
  have "skip_0x (''0x'' @ ds) = ds" "skip_0x (''0X'' @ ds) = ds" by (simp_all add: skip_0x_def)
  then have "skip_0x (pre @ ds) = ds" using assms(2) skip_0x_text [OF assms(3)] by fastforce
  then have eq: "bu_SetHex W (ws @ pre @ ds) = bu_of_bytes W (hex_loop (rev ds) (4 * W))"
    by (simp add: bu_SetHex_def dropWhile_spaces [OF assms(1)] first takeWhile_hex [OF assms(3)])
  have "list_all is_hex (rev ds)" using assms(3) by (auto simp: list_all_iff hex_text_def)
  then have "le_val (hex_loop (rev ds) (4 * W)) = hex_value_rev (rev ds) mod 256 ^ (4 * W)" by (rule hex_loop_value)
  moreover have "(256 :: nat) ^ (4 * W) = 2 ^ (32 * W)" by (simp add: power_mult)
  ultimately show ?thesis using limbs_val_of_bytes [of "hex_loop (rev ds) (4 * W)" W] by (simp only: eq hex_value_rev length_hex_loop)
qed

text \<open>
  C39. Hexadecimal text. \<open>SetHex\<close> reads a number, behind blanks and with or without the prefix \<open>0x\<close>, modulo
  the width of the object; \<open>GetHex\<close> writes one that \<open>SetHex\<close> reads back.
\<close>

theorem SetHex_GetHex:
  assumes "list_all isspace_c ws" "pre \<in> {'''', ''0x'', ''0X''}" "list_all hex_text ds"
  shows "limbs_val (bu_SetHex WIDTH (ws @ pre @ ds)) = hex_value ds mod 2 ^ (32 * WIDTH)
    \<and> bu_SetHex (length pn) (ws @ pre @ bu_GetHex pn) = pn"
proof
  have "limbs_val (bu_SetHex (length pn) (ws @ pre @ bu_GetHex pn)) = limbs_val pn"
    using SetHex_prefixed [OF assms(1,2) GetHex_text, of "length pn" pn] limbs_val_less [of pn]
    by (simp add: hex_value_rev GetHex_value)
  then show "bu_SetHex (length pn) (ws @ pre @ bu_GetHex pn) = pn"
    using limbs_val_inject [of "bu_SetHex (length pn) (ws @ pre @ bu_GetHex pn)" pn] by (simp add: bu_SetHex_def Let_def)
qed (rule SetHex_prefixed [OF assms])

theorem SetHex_GetHex_witness:
  "limbs_val (bu_SetHex 8 '' 0x1f'') = 31 \<and> bu_SetHex 2 ('' 0x'' @ bu_GetHex [7, 9]) = [7, 9]"
proof -
  have l: "length [7, 9 :: u32] = 2" by simp
  have "limbs_val (bu_SetHex 8 ('' '' @ ''0x'' @ ''1f'')) = hex_value ''1f'' mod 2 ^ (32 * 8)
      \<and> bu_SetHex 2 ('' '' @ ''0x'' @ bu_GetHex [7, 9]) = [7, 9]"
    by (rule SetHex_GetHex [where pn = "[7, 9]", unfolded l]; code_simp)
  moreover have "hex_value ''1f'' = 31" by code_simp
  ultimately show ?thesis by simp
qed

end
