(* ===== verification/Script_Code.thy ===== *)
theory Script_Code imports Script_Ops begin

text \<open>
  \<open>class CScript\<close> of \<open>src/src/script.h\<close> and \<open>script.cpp\<close>: reading instructions (\<open>GetOp2\<close>), the
  push operator, \<open>FindAndDelete\<close>, and the scans over a script (\<open>IsPushOnly\<close>,
  \<open>HasCanonicalPushes\<close>, \<open>GetSigOpCount\<close> and the template tests). An iterator into a script is
  the suffix it points at.
\<close>

unbundle bit_operations_syntax

subsection \<open>Reading an instruction\<close>

text \<open>
  Result, opcode, pushed data and the new iterator: on failure the iterator has moved past
  what was consumed, which only \<open>IsNormalPaymentScript\<close> makes visible. \<open>memcpy\<close> into
  \<open>nSize\<close> is little-endian on the supported platforms.
\<close>

type_synonym getop = "bool \<times> opcode \<times> bytes \<times> bytes"

definition GetOp2_data :: "opcode \<Rightarrow> nat \<Rightarrow> bytes \<Rightarrow> getop" where
  "GetOp2_data opcode nSize pc =
     (if length pc < nSize then (False, OP_INVALIDOPCODE, [], pc)
      else (True, opcode, take nSize pc, drop nSize pc))"

definition GetOp2_size :: "opcode \<Rightarrow> bytes \<Rightarrow> (nat \<times> bytes) option" where
  "GetOp2_size opcode pc =
     (if opcode < OP_PUSHDATA1 then Some (opcode, pc)
      else if opcode = OP_PUSHDATA1 then
        (case pc of b0 # pc' \<Rightarrow> Some (unat b0, pc') | _ \<Rightarrow> None)
      else if opcode = OP_PUSHDATA2 then
        (case pc of b0 # b1 # pc' \<Rightarrow> Some (unat b0 + 256 * unat b1, pc') | _ \<Rightarrow> None)
      else
        (case pc of b0 # b1 # b2 # b3 # pc' \<Rightarrow>
             Some (unat b0 + 256 * unat b1 + 65536 * unat b2 + 16777216 * unat b3, pc')
         | _ \<Rightarrow> None))"

definition GetOp2 :: "bytes \<Rightarrow> getop" where
  "GetOp2 s =
     (case s of
        [] \<Rightarrow> (False, OP_INVALIDOPCODE, [], [])
      | b # pc \<Rightarrow>
          (let opcode = unat b in
           if opcode \<le> OP_PUSHDATA4 then
             (case GetOp2_size opcode pc of
                None \<Rightarrow> (False, OP_INVALIDOPCODE, [], pc)
              | Some (nSize, pc') \<Rightarrow> GetOp2_data opcode nSize pc')
           else (True, opcode, [], pc)))"

lemma GetOp2_size_suffix: "GetOp2_size op pc = Some (n, pc') \<Longrightarrow> \<exists>x. pc = x @ pc'"
  by (auto simp: GetOp2_size_def split: if_splits list.splits)

lemma GetOp2_size_append:
  "GetOp2_size op pc = Some (n, pc') \<Longrightarrow> GetOp2_size op (pc @ t) = Some (n, pc' @ t)"
  by (auto simp: GetOp2_size_def split: if_splits list.splits)

lemma GetOp2_data_suffix: "GetOp2_data op n pc = (ok, op', d, rest) \<Longrightarrow> \<exists>x. pc = x @ rest"
  by (auto simp: GetOp2_data_def split: if_splits intro: exI [of _ "take n pc"])

lemma GetOp2_data_append:
  "GetOp2_data op n pc = (True, op', d, rest) \<Longrightarrow> GetOp2_data op n (pc @ t) = (True, op', d, rest @ t)"
  by (auto simp: GetOp2_data_def split: if_splits)

lemma GetOp2_Nil [simp]: "GetOp2 [] = (False, OP_INVALIDOPCODE, [], [])"
  by (simp add: GetOp2_def)

text \<open>The iterator only moves forward, by at least a byte.\<close>

lemma GetOp2_suffix:
  assumes "GetOp2 s = (ok, op, d, rest)" "s \<noteq> []"
  shows "\<exists>x. s = x @ rest \<and> x \<noteq> []"
proof -
  obtain b pc where s: "s = b # pc" using assms(2) by (cases s) auto
  have "\<exists>x. pc = x @ rest"
    using assms(1) by (auto simp: s GetOp2_def Let_def split: if_splits option.splits
        dest!: GetOp2_size_suffix GetOp2_data_suffix)
  then show ?thesis using s by (metis append_Cons list.distinct(1))
qed

lemma GetOp2_rest: "GetOp2 s = (ok, op, d, rest) \<Longrightarrow> s \<noteq> [] \<Longrightarrow> length rest < length s"
  using GetOp2_suffix by fastforce

lemma GetOp2_ok_rest: "GetOp2 s = (True, op, d, rest) \<Longrightarrow> length rest < length s"
  by (cases "s = []") (auto dest: GetOp2_rest)

text \<open>Instructions are self-delimiting: what follows does not change what is read.\<close>

lemma GetOp2_append:
  "GetOp2 s = (True, op, d, rest) \<Longrightarrow> GetOp2 (s @ t) = (True, op, d, rest @ t)"
  by (cases s; cases "GetOp2_size (unat (hd s)) (tl s)")
    (auto simp: GetOp2_def Let_def GetOp2_size_append GetOp2_data_append split: if_splits)

subsection \<open>Writing\<close>

text \<open>\<open>operator<<\<close> for an opcode and for a byte vector; the model returns what is appended.\<close>

definition push_opcode :: "opcode \<Rightarrow> bytes" where
  "push_opcode opcode = [of_nat opcode]"

definition push_data :: "bytes \<Rightarrow> bytes" where
  "push_data b =
     (if length b < OP_PUSHDATA1 then [of_nat (length b)]
      else if length b \<le> 0xff then [of_nat OP_PUSHDATA1, of_nat (length b)]
      else if length b \<le> 0xffff
      then [of_nat OP_PUSHDATA2, of_nat (length b), of_nat (length b div 256)]
      else [of_nat OP_PUSHDATA4, of_nat (length b), of_nat (length b div 256),
            of_nat (length b div 65536), of_nat (length b div 16777216)]) @ b"

text \<open>\<open>push_int64\<close>: small numbers have opcodes; \<open>bn_getvch\<close> is \<open>CBigNum (n).getvch ()\<close>.\<close>

definition push_int64 :: "(int \<Rightarrow> bytes) \<Rightarrow> int \<Rightarrow> bytes" where
  "push_int64 bn_getvch n =
     (if n = -1 \<or> (1 \<le> n \<and> n \<le> 16) then [of_int (n + (int OP_1 - 1))] else push_data (bn_getvch n))"

definition push_uint64 :: "(int \<Rightarrow> bytes) \<Rightarrow> int \<Rightarrow> bytes" where
  "push_uint64 bn_getvch n =
     (if 1 \<le> n \<and> n \<le> 16 then [of_int (n + (int OP_1 - 1))] else push_data (bn_getvch n))"

text \<open>\<open>None\<close> is a failed \<open>assert\<close>.\<close>

definition DecodeOP_N :: "opcode \<Rightarrow> nat option" where
  "DecodeOP_N opcode =
     (if opcode = OP_0 then Some 0
      else if OP_1 \<le> opcode \<and> opcode \<le> OP_16 then Some (opcode - (OP_1 - 1))
      else None)"

definition EncodeOP_N :: "int \<Rightarrow> opcode option" where
  "EncodeOP_N n =
     (if \<not> (0 \<le> n \<and> n \<le> 16) then None
      else if n = 0 then Some OP_0
      else Some (OP_1 + nat n - 1))"

text \<open>The opcode that \<open>push_data\<close> chooses.\<close>

definition push_opcode_of :: "bytes \<Rightarrow> opcode" where
  "push_opcode_of b =
     (if length b < OP_PUSHDATA1 then length b
      else if length b \<le> 0xff then OP_PUSHDATA1
      else if length b \<le> 0xffff then OP_PUSHDATA2
      else OP_PUSHDATA4)"

lemma bytes_of_length_2: "n \<le> 0xffff \<Longrightarrow>
  unat (of_nat n :: byte) + 256 * unat (of_nat (n div 256) :: byte) = n"
  by (simp add: unat_of_nat)

lemma bytes_of_length_4: "n < 2 ^ 32 \<Longrightarrow>
  unat (of_nat n :: byte) + 256 * unat (of_nat (n div 256) :: byte)
   + 65536 * unat (of_nat (n div 65536) :: byte) + 16777216 * unat (of_nat (n div 16777216) :: byte) = n"
proof -
  assume n: "n < 2 ^ 32"
  have "n div 256 div 256 = n div 65536" "n div 65536 div 256 = n div 16777216"
    by (simp_all add: div_mult2_eq [symmetric])
  moreover have "n div 16777216 < 256" using n by (simp add: div_less_iff_less_mult)
  ultimately show ?thesis
    using div_mult_mod_eq [of n 256] div_mult_mod_eq [of "n div 256" 256]
      div_mult_mod_eq [of "n div 65536" 256] by (simp add: unat_of_nat; linarith)
qed

lemma GetOp2_push_data:
  assumes "length b < 2 ^ 32"
  shows "GetOp2 (push_data b @ t) = (True, push_opcode_of b, b, t)"
proof -
  consider "length b < 76" | "\<not> length b < 76" "length b \<le> 255" | "\<not> length b \<le> 255" "length b \<le> 65535"
    | "\<not> length b \<le> 65535" by linarith
  then show ?thesis
  proof cases
    case 1
    then have "unat (of_nat (length b) :: byte) = length b" by (simp add: unat_of_nat)
    then show ?thesis using 1 by (simp add: GetOp2_def GetOp2_size_def push_data_def push_opcode_of_def GetOp2_data_def)
  next
    case 2
    then have "unat (of_nat (length b) :: byte) = length b" by (simp add: unat_of_nat)
    then show ?thesis using 2 by (simp add: GetOp2_def GetOp2_size_def push_data_def push_opcode_of_def GetOp2_data_def)
  next
    case 3
    then show ?thesis using bytes_of_length_2 [of "length b"]
      by (simp add: GetOp2_def GetOp2_size_def push_data_def push_opcode_of_def GetOp2_data_def)
  next
    case 4
    then show ?thesis using bytes_of_length_4 [OF assms]
      by (simp add: GetOp2_def GetOp2_size_def push_data_def push_opcode_of_def GetOp2_data_def)
  qed
qed


lemma length_push_data: "length b < length (push_data b)"
  by (simp add: push_data_def)

subsection \<open>Cutting a script into instructions\<close>

text \<open>The raw instructions at the head of a script, and the tail that does not parse.\<close>

function instrs :: "bytes \<Rightarrow> bytes list \<times> bytes" where
  "instrs s =
     (case GetOp2 s of
        (ok, op, d, rest) \<Rightarrow>
          if ok then (let (is, tl) = instrs rest in (take (length s - length rest) s # is, tl))
          else ([], s))"
  by pat_completeness auto
termination
  by (relation "measure length") (auto dest: GetOp2_ok_rest [OF sym])

declare instrs.simps [simp del]

lemma instrs_fail: "GetOp2 s = (False, op, d, rest) \<Longrightarrow> instrs s = ([], s)"
  by (simp add: instrs.simps [of s])

lemma instrs_ok:
  "GetOp2 (i @ rest) = (True, op, d, rest) \<Longrightarrow>
   instrs (i @ rest) = (i # fst (instrs rest), snd (instrs rest))"
  by (simp add: instrs.simps [of "i @ rest"] split: prod.splits)

definition is_instr :: "bytes \<Rightarrow> bool" where
  "is_instr i \<longleftrightarrow> (case GetOp2 i of (ok, op, d, rest) \<Rightarrow> ok \<and> rest = [])"

lemma is_instr_GetOp2:
  "is_instr i \<Longrightarrow> \<exists>op d. GetOp2 (i @ t) = (True, op, d, t)"
  by (auto simp: is_instr_def split: prod.splits dest: GetOp2_append [where t = t])

lemma is_instr_push_data: "length b < 2 ^ 32 \<Longrightarrow> is_instr (push_data b)"
  using GetOp2_push_data [of b "[]"] by (simp add: is_instr_def)

lemma is_instr_not_Nil: "is_instr i \<Longrightarrow> i \<noteq> []"
  by (auto simp: is_instr_def)

lemma instrs_append: "is_instr i \<Longrightarrow> instrs (i @ t) = (i # fst (instrs t), snd (instrs t))"
  using is_instr_GetOp2 [of i t] instrs_ok by fastforce

text \<open>Every successful read takes one self-delimiting instruction off the front.\<close>

lemma GetOp2_data_head:
  "GetOp2_data op n pc = (True, op', d, rest) \<Longrightarrow> GetOp2_data op n (take (length pc - length rest) pc) = (True, op', d, [])"
  by (auto simp: GetOp2_data_def split: if_splits)

lemma GetOp2_is_instr:
  assumes "GetOp2 s = (True, op, d, rest)"
  obtains i where "s = i @ rest" "is_instr i" "GetOp2 i = (True, op, d, [])"
proof -
  obtain b pc where s: "s = b # pc" using assms by (cases s) auto
  show thesis
  proof (cases "unat b \<le> OP_PUSHDATA4")
    case False
    then show thesis using that [of "[b]"] assms s by (simp add: GetOp2_def is_instr_def)
  next
    case True
    then obtain n pc' where z: "GetOp2_size (unat b) pc = Some (n, pc')"
      using assms s by (auto simp: GetOp2_def Let_def split: option.splits)
    with True assms s have dt: "GetOp2_data (unat b) n pc' = (True, op, d, rest)"
      by (simp add: GetOp2_def)
    then have pc': "pc' = d @ rest" "GetOp2_data (unat b) n d = (True, op, d, [])"
      by (auto simp: GetOp2_data_def split: if_splits)
    obtain x where x: "pc = x @ pc'" "GetOp2_size (unat b) (x @ d) = Some (n, d)"
      using z by (auto simp: GetOp2_size_def split: if_splits list.splits)
    have "GetOp2 (b # x @ d) = (True, op, d, [])"
      using True x(2) pc'(2) by (simp add: GetOp2_def)
    then show thesis using that [of "b # x @ d"] s x(1) pc'(1) by (simp add: is_instr_def)
  qed
qed

lemma instrs_induct [case_names tail instr]:
  assumes "\<And>s op d rest. GetOp2 s = (False, op, d, rest) \<Longrightarrow> P s"
    and "\<And>i op d rest. is_instr i \<Longrightarrow> GetOp2 (i @ rest) = (True, op, d, rest) \<Longrightarrow> P rest \<Longrightarrow> P (i @ rest)"
  shows "P s"
proof (induction s rule: instrs.induct)
  case (1 s)
  obtain ok op d rest where g: "GetOp2 s = (ok, op, d, rest)" by (cases "GetOp2 s") auto
  show ?case
  proof (cases ok)
    case True
    then have g': "GetOp2 s = (True, op, d, rest)" using g by simp
    obtain i where i: "s = i @ rest" "is_instr i" by (rule GetOp2_is_instr [OF g'])
    show ?thesis unfolding i(1) by (rule assms(2)) (use i 1 g' in auto)
  next
    case False
    then show ?thesis using assms(1) g by simp
  qed
qed

lemma instrs_concat: "concat (fst (instrs s)) @ snd (instrs s) = s"
  by (induction s rule: instrs_induct) (simp_all add: instrs_fail instrs_append)

lemma instrs_are_instrs: "list_all is_instr (fst (instrs s))"
  by (induction s rule: instrs_induct) (simp_all add: instrs_fail instrs_append)

lemma instrs_of_concat:
  "list_all is_instr is \<Longrightarrow> instrs (concat is @ t) = (is @ fst (instrs t), snd (instrs t))"
  by (induction "is") (simp_all add: instrs_append)

lemma instrs_tail: "fst (GetOp2 (snd (instrs s))) = False"
  by (induction s rule: instrs_induct) (simp_all add: instrs_fail instrs_append)

subsection \<open>\<open>FindAndDelete\<close>, \<open>Find\<close>\<close>

text \<open>
  The loop at iterator \<open>pc\<close>: the inner \<open>while\<close> erases occurrences of \<open>b\<close> at \<open>pc\<close>, then
  \<open>GetOp\<close> steps over one instruction. The result is the rest of the script and the count.
\<close>

function FindAndDelete_loop :: "bytes \<Rightarrow> bytes \<Rightarrow> bytes \<times> nat" where
  "FindAndDelete_loop b pc =
     (if b \<noteq> [] \<and> length b \<le> length pc \<and> take (length b) pc = b
      then (let (s, n) = FindAndDelete_loop b (drop (length b) pc) in (s, Suc n))
      else (case GetOp2 pc of
              (ok, op, d, rest) \<Rightarrow>
                if ok then (let (s, n) = FindAndDelete_loop b rest
                            in (take (length pc - length rest) pc @ s, n))
                else (pc, 0)))"
  by pat_completeness auto
termination
  by (relation "measure (\<lambda>(b, pc). length pc)")
    (auto dest: GetOp2_ok_rest [OF sym] intro!: diff_less)

declare FindAndDelete_loop.simps [simp del]

definition FindAndDelete :: "bytes \<Rightarrow> bytes \<Rightarrow> bytes \<times> nat" where
  "FindAndDelete s b = (if b = [] then (s, 0) else FindAndDelete_loop b s)"

function Find :: "opcode \<Rightarrow> bytes \<Rightarrow> nat" where
  "Find opc pc =
     (if pc = [] then 0
      else (case GetOp2 pc of
              (ok, op, d, rest) \<Rightarrow>
                if ok then (if op = opc then 1 else 0) + Find opc rest else 0))"
  by pat_completeness auto
termination
  by (relation "measure (\<lambda>(opc, pc). length pc)") (auto dest: GetOp2_ok_rest [OF sym])

declare Find.simps [simp del]

lemma FindAndDelete_loop_miss:
  assumes "\<not> (b \<noteq> [] \<and> length b \<le> length pc \<and> take (length b) pc = b)"
  shows "FindAndDelete_loop b pc =
    (case GetOp2 pc of
       (ok, op, d, rest) \<Rightarrow>
         if ok then (let (s, n) = FindAndDelete_loop b rest
                     in (take (length pc - length rest) pc @ s, n))
         else (pc, 0))"
  by (subst FindAndDelete_loop.simps) (simp only: assms if_False)

text \<open>At an instruction boundary, the pattern is there exactly when the next instruction is it.\<close>

lemma instr_prefix_unique:
  assumes "is_instr i" "is_instr b" "i @ s = b @ t"
  shows "i = b"
proof -
  obtain op d where "GetOp2 (i @ s) = (True, op, d, s)" using is_instr_GetOp2 [OF assms(1)] by blast
  moreover obtain op' d' where "GetOp2 (b @ t) = (True, op', d', t)"
    using is_instr_GetOp2 [OF assms(2)] by blast
  ultimately have "s = t" using assms(3) by simp
  then show ?thesis using assms(3) by simp
qed

lemma FindAndDelete_loop_instr:
  assumes b: "is_instr b" and i: "is_instr i"
  shows "FindAndDelete_loop b (i @ s) =
    (let (r, n) = FindAndDelete_loop b s in if i = b then (r, Suc n) else (i @ r, n))"
proof (cases "i = b")
  case True
  then show ?thesis using is_instr_not_Nil [OF b]
    by (simp add: FindAndDelete_loop.simps [of b "b @ s"])
next
  case False
  have miss: "\<not> (b \<noteq> [] \<and> length b \<le> length (i @ s) \<and> take (length b) (i @ s) = b)"
    using instr_prefix_unique [OF i b, of s "drop (length b) (i @ s)"] False
    by (metis append_take_drop_id)
  obtain op d where "GetOp2 (i @ s) = (True, op, d, s)" using is_instr_GetOp2 [OF i] by blast
  then show ?thesis using False by (simp add: FindAndDelete_loop_miss [OF miss] split: prod.splits)
qed

lemma FindAndDelete_loop_tail:
  assumes b: "is_instr b" and g: "GetOp2 s = (False, op, d, rest)"
  shows "FindAndDelete_loop b s = (s, 0)"
proof -
  have miss: "\<not> (b \<noteq> [] \<and> length b \<le> length s \<and> take (length b) s = b)"
    using is_instr_GetOp2 [OF b, of "drop (length b) s"] g
    by (metis append_take_drop_id prod.inject)
  show ?thesis using g by (simp add: FindAndDelete_loop_miss [OF miss])
qed


lemma FindAndDelete_instrs:
  "is_instr b \<Longrightarrow> FindAndDelete s b =
    (concat (filter (\<lambda>i. i \<noteq> b) (fst (instrs s))) @ snd (instrs s), count_list (fst (instrs s)) b)"
proof -
  assume b: "is_instr b"
  have "FindAndDelete_loop b s =
    (concat (filter (\<lambda>i. i \<noteq> b) (fst (instrs s))) @ snd (instrs s), count_list (fst (instrs s)) b)"
    by (induction s rule: instrs_induct)
      (auto simp: FindAndDelete_loop_tail [OF b] instrs_fail FindAndDelete_loop_instr [OF b] instrs_append)
  then show ?thesis using is_instr_not_Nil [OF b] by (simp add: FindAndDelete_def)
qed

lemma Find_instrs:
  "Find opc s = length (filter (\<lambda>i. fst (snd (GetOp2 i)) = opc) (fst (instrs s)))"
proof (induction s rule: instrs_induct)
  case (tail s op d rest)
  then show ?case by (simp add: instrs_fail Find.simps [of opc s])
next
  case (instr i op d rest)
  obtain op' d' where i: "GetOp2 i = (True, op', d', [])" using is_instr_GetOp2 [OF instr(1), of "[]"] by auto
  have "op' = op" using GetOp2_append [OF i, of rest] instr(2) by simp
  moreover have "i @ rest \<noteq> []" using is_instr_not_Nil [OF instr(1)] by simp
  ultimately show ?case using instr i
    by (simp add: instrs_append Find.simps [of opc "i @ rest"] del: append_is_Nil_conv)
qed

subsection \<open>Scans over a script\<close>

function IsPushOnly :: "bytes \<Rightarrow> bool" where
  "IsPushOnly pc =
     (if pc = [] then True
      else (case GetOp2 pc of
              (ok, op, d, rest) \<Rightarrow>
                if \<not> ok then False else if op > OP_16 then False else IsPushOnly rest))"
  by pat_completeness auto
termination
  by (relation "measure length") (auto dest: GetOp2_ok_rest [OF sym])

declare IsPushOnly.simps [simp del]

definition IsUnspendable :: "bytes \<Rightarrow> bool" where
  "IsUnspendable s \<longleftrightarrow> length s > 0 \<and> unat (s ! 0) = OP_RETURN"

definition IsPayToScriptHash :: "bytes \<Rightarrow> bool" where
  "IsPayToScriptHash s \<longleftrightarrow>
     length s = 23 \<and> unat (s ! 0) = OP_HASH160 \<and> s ! 1 = 0x14 \<and> unat (s ! 22) = OP_EQUAL"

function HasCanonicalPushes :: "bytes \<Rightarrow> bool" where
  "HasCanonicalPushes pc =
     (if pc = [] then True
      else (case GetOp2 pc of
              (ok, op, d, rest) \<Rightarrow>
                if \<not> ok then False
                else if op > OP_16 then HasCanonicalPushes rest
                else if op < OP_PUSHDATA1 \<and> op > OP_0 \<and> (length d = 1 \<and> unat (d ! 0) \<le> 16) then False
                else if op = OP_PUSHDATA1 \<and> length d < OP_PUSHDATA1 then False
                else if op = OP_PUSHDATA2 \<and> length d \<le> 0xFF then False
                else if op = OP_PUSHDATA4 \<and> length d \<le> 0xFFFF then False
                else HasCanonicalPushes rest))"
  by pat_completeness auto
termination
  by (relation "measure length") (auto dest: GetOp2_ok_rest [OF sym])

declare HasCanonicalPushes.simps [simp del]

text \<open>\<open>GetSigOpCount (bool)\<close>; the counter and \<open>lastOpcode\<close> are the loop's locals.\<close>

function GetSigOpCount_loop :: "bool \<Rightarrow> opcode \<Rightarrow> bytes \<Rightarrow> nat" where
  "GetSigOpCount_loop fAccurate lastOpcode pc =
     (if pc = [] then 0
      else (case GetOp2 pc of
              (ok, op, d, rest) \<Rightarrow>
                if \<not> ok then 0
                else (if op = OP_CHECKSIG \<or> op = OP_CHECKSIGVERIFY then 1
                      else if op = OP_CHECKMULTISIG \<or> op = OP_CHECKMULTISIGVERIFY then
                        (if fAccurate \<and> OP_1 \<le> lastOpcode \<and> lastOpcode \<le> OP_16
                         then the (DecodeOP_N lastOpcode) else 20)
                      else 0)
                     + GetSigOpCount_loop fAccurate op rest))"
  by pat_completeness auto
termination
  by (relation "measure (\<lambda>(f, l, pc). length pc)") (auto dest: GetOp2_ok_rest [OF sym])

declare GetSigOpCount_loop.simps [simp del]

definition GetSigOpCount :: "bool \<Rightarrow> bytes \<Rightarrow> nat" where
  "GetSigOpCount fAccurate s = GetSigOpCount_loop fAccurate OP_INVALIDOPCODE s"

text \<open>The last item a \<open>scriptSig\<close> pushes; \<open>None\<close> where the code returns 0.\<close>

function last_push :: "bytes \<Rightarrow> bytes \<Rightarrow> bytes option" where
  "last_push data pc =
     (if pc = [] then Some data
      else (case GetOp2 pc of
              (ok, op, d, rest) \<Rightarrow>
                if \<not> ok then None else if op > OP_16 then None else last_push d rest))"
  by pat_completeness auto
termination
  by (relation "measure (\<lambda>(d, pc). length pc)") (auto dest: GetOp2_ok_rest [OF sym])

declare last_push.simps [simp del]

definition GetSigOpCount_P2SH :: "bytes \<Rightarrow> bytes \<Rightarrow> nat" where
  "GetSigOpCount_P2SH s scriptSig =
     (if \<not> IsPayToScriptHash s then GetSigOpCount True s
      else (case last_push [] scriptSig of
              None \<Rightarrow> 0
            | Some data \<Rightarrow> GetSigOpCount True data))"

text \<open>\<open>IsNormalPaymentScript\<close> ignores whether \<open>GetOp\<close> succeeded.\<close>

function IsNormalPaymentScript_loop :: "nat \<Rightarrow> bytes \<Rightarrow> bool" where
  "IsNormalPaymentScript_loop i pc =
     (if pc = [] then True
      else (case GetOp2 pc of
              (ok, opcode, d, rest) \<Rightarrow>
                if i = 0 \<and> opcode \<noteq> OP_DUP then False
                else if i = 1 \<and> opcode \<noteq> OP_HASH160 then False
                else if i = 3 \<and> opcode \<noteq> OP_EQUALVERIFY then False
                else if i = 4 \<and> opcode \<noteq> OP_CHECKSIG then False
                else if i = 5 then False
                else IsNormalPaymentScript_loop (i + 1) rest))"
  by pat_completeness auto
termination
  by (relation "measure (\<lambda>(i, pc). length pc)") (auto dest: GetOp2_rest [OF sym])

declare IsNormalPaymentScript_loop.simps [simp del]

definition IsNormalPaymentScript :: "bytes \<Rightarrow> bool" where
  "IsNormalPaymentScript s = (if length s \<noteq> 25 then False else IsNormalPaymentScript_loop 0 s)"

text \<open>\<open>CheckMinimalPush\<close> of \<open>script.cpp\<close>.\<close>

definition CheckMinimalPush :: "bytes \<Rightarrow> opcode \<Rightarrow> bool" where
  "CheckMinimalPush data opcode =
     (if length data = 0 then opcode = OP_0
      else if length data = 1 \<and> data ! 0 \<ge> 1 \<and> data ! 0 \<le> 16
      then opcode = OP_1 + (unat (data ! 0) - 1)
      else if length data = 1 \<and> data ! 0 = 0x81 then opcode = OP_1NEGATE
      else if length data \<le> 75 then opcode = length data
      else if length data \<le> 255 then opcode = OP_PUSHDATA1
      else if length data \<le> 65535 then opcode = OP_PUSHDATA2
      else True)"


lemmas scan_simps = IsPushOnly.simps HasCanonicalPushes.simps GetSigOpCount_loop.simps last_push.simps
  IsNormalPaymentScript_loop.simps

subsection \<open>Properties\<close>

text \<open>
  Pushing and reading back: \<open>operator<<\<close> writes one instruction, \<open>GetOp\<close> returns exactly
  the bytes pushed and the iterator behind them, whatever follows in the script.
\<close>

theorem push_GetOp_roundtrip:
  assumes "length b < 2 ^ 32"
  shows "GetOp2 (push_data b @ t) = (True, push_opcode_of b, b, t) \<and> push_opcode_of b \<le> OP_PUSHDATA4"
  using GetOp2_push_data [OF assms] by (simp add: push_opcode_of_def)

theorem push_GetOp_roundtrip_witness:
  "GetOp2 (push_data [0xaa, 0xbb] @ [0xac]) = (True, push_opcode_of [0xaa, 0xbb], [0xaa, 0xbb], [0xac])
   \<and> push_opcode_of [0xaa, 0xbb] \<le> OP_PUSHDATA4"
  by (rule push_GetOp_roundtrip) simp

text \<open>
  \<open>FindAndDelete\<close> with a pushed signature as pattern removes every instruction that is that
  push, and nothing else: the rest of the script, including an unparsable tail, keeps its bytes
  and order, and the returned count is the number of instructions removed.
\<close>

theorem FindAndDelete_push:
  assumes "length sig < 2 ^ 32"
  shows "FindAndDelete s (push_data sig) =
    (concat (filter (\<lambda>i. i \<noteq> push_data sig) (fst (instrs s))) @ snd (instrs s),
     count_list (fst (instrs s)) (push_data sig))"
  by (rule FindAndDelete_instrs [OF is_instr_push_data [OF assms]])

theorem FindAndDelete_push_witness:
  "FindAndDelete [1, 7, 0xab, 1, 7, 1, 8, 0x4c] (push_data [7]) =
    (concat (filter (\<lambda>i. i \<noteq> push_data [7]) (fst (instrs [1, 7, 0xab, 1, 7, 1, 8, 0x4c])))
       @ snd (instrs [1, 7, 0xab, 1, 7, 1, 8, 0x4c]),
     count_list (fst (instrs [1, 7, 0xab, 1, 7, 1, 8, 0x4c])) (push_data [7]))
   \<and> FindAndDelete [1, 7, 0xab, 1, 7, 1, 8, 0x4c] (push_data [7]) = ([0xab, 1, 8, 0x4c], 2)"
proof
  show "FindAndDelete [1, 7, 0xab, 1, 7, 1, 8, 0x4c] (push_data [7]) = ([0xab, 1, 8, 0x4c], 2)"
    by code_simp
qed (rule FindAndDelete_push, simp)

text \<open>
  After \<open>FindAndDelete\<close> the pattern no longer occurs at any instruction boundary, so a second
  call changes nothing.
\<close>

theorem FindAndDelete_idempotent:
  assumes "length sig < 2 ^ 32"
  shows "FindAndDelete (fst (FindAndDelete s (push_data sig))) (push_data sig)
    = (fst (FindAndDelete s (push_data sig)), 0)"
proof -
  let ?p = "push_data sig"
  let ?keep = "filter (\<lambda>i. i \<noteq> ?p) (fst (instrs s))" and ?tail = "snd (instrs s)"
  have b: "is_instr ?p" using is_instr_push_data [OF assms] .
  have "list_all is_instr ?keep" using instrs_are_instrs [of s] by (auto simp: list_all_iff)
  moreover obtain op d rest where "GetOp2 ?tail = (False, op, d, rest)"
    using instrs_tail [of s] by (cases "GetOp2 ?tail") auto
  ultimately have i: "instrs (concat ?keep @ ?tail) = (?keep, ?tail)"
    by (simp add: instrs_of_concat instrs_fail)
  have "filter (\<lambda>i. i \<noteq> ?p) ?keep = ?keep" "count_list ?keep ?p = 0"
    by (simp_all add: count_list_0_iff)
  then show ?thesis by (simp add: FindAndDelete_instrs [OF b] i)
qed

theorem FindAndDelete_idempotent_witness:
  "FindAndDelete (fst (FindAndDelete [1, 7, 0xab, 1, 7] (push_data [7]))) (push_data [7])
    = (fst (FindAndDelete [1, 7, 0xab, 1, 7] (push_data [7])), 0)"
  by (rule FindAndDelete_idempotent) simp

lemma CheckMinimalPush_opcode:
  "length d \<le> 65535 \<Longrightarrow> \<not> (length d = 1 \<and> (1 \<le> d ! 0 \<and> d ! 0 \<le> 16 \<or> d ! 0 = 0x81)) \<Longrightarrow>
   CheckMinimalPush d op \<longleftrightarrow> op = push_opcode_of d"
  by (auto simp: CheckMinimalPush_def push_opcode_of_def)

lemma GetOp2_push_shape:
  assumes g: "GetOp2 i = (True, op, d, [])" and op: "op = push_opcode_of d" and len: "length d \<le> 65535"
  shows "i = push_data d"
proof -
  obtain b pc where i: "i = b # pc" using g by (cases i) auto
  have le: "op \<le> OP_PUSHDATA4" using op by (simp add: push_opcode_of_def)
  then have b: "unat b = op" using g i
    by (auto simp: GetOp2_def Let_def GetOp2_data_def split: if_splits option.splits)
  then have b': "b = of_nat op" by (rule byte_eq_of_nat)
  obtain n pc' where z: "GetOp2_size op pc = Some (n, pc')"
    using g i b le by (auto simp: GetOp2_def Let_def split: option.splits)
  with g i b le have d: "pc' = d" "length d = n"
    by (auto simp: GetOp2_def GetOp2_data_def split: if_splits)
  consider "length d < 76" "op = length d" | "\<not> length d < 76" "length d \<le> 255" "op = OP_PUSHDATA1"
    | "\<not> length d \<le> 255" "op = OP_PUSHDATA2"
    using op len unfolding push_opcode_of_def by (metis not_less)
  then show ?thesis
  proof cases
    case 1
    then show ?thesis using z d i b' by (simp add: GetOp2_size_def push_data_def)
  next
    case 2
    then obtain b0 where "pc = b0 # d" "unat b0 = length d"
      using z d by (auto simp: GetOp2_size_def split: list.splits)
    then show ?thesis using 2 i b' byte_eq_of_nat [of b0] by (simp add: push_data_def)
  next
    case 3
    then obtain b0 b1 where pc: "pc = b0 # b1 # d" and s: "unat b0 + 256 * unat b1 = length d"
      using z d by (auto simp: GetOp2_size_def split: list.splits)
    have "length d mod 256 = unat b0" "length d div 256 = unat b1" by (simp_all flip: s)
    then have "b0 = of_nat (length d mod 256)" "b1 = of_nat (length d div 256)" by simp_all
    moreover have "(of_nat (length d mod 256) :: byte) = of_nat (length d)"
      by (simp add: word_unat_eq_iff unat_of_nat)
    ultimately show ?thesis using 3 len i b' pc by (simp add: push_data_def)
  qed
qed

text \<open>
  Minimal pushes are canonical: among all instructions that push \<open>d\<close> (up to 65535 bytes, and
  not the byte strings that have an opcode of their own), \<open>CheckMinimalPush\<close> accepts exactly
  the one \<open>operator<<\<close> writes.
\<close>

theorem minimal_push_unique:
  assumes i: "GetOp2 i = (True, op, d, [])" and len: "length d \<le> 65535"
    and small: "\<not> (length d = 1 \<and> (1 \<le> d ! 0 \<and> d ! 0 \<le> 16 \<or> d ! 0 = 0x81))"
  shows "CheckMinimalPush d op \<longleftrightarrow> i = push_data d"
proof -
  have "op = push_opcode_of d" if "i = push_data d"
    using i GetOp2_push_data [of d "[]"] len that by simp
  then show ?thesis
    using CheckMinimalPush_opcode [OF len small] GetOp2_push_shape [OF i _ len] by blast
qed

theorem minimal_push_unique_witness:
  "CheckMinimalPush [7, 8] OP_PUSHDATA1 \<longleftrightarrow> [0x4c, 2, 7, 8] = push_data [7, 8]"
  by (rule minimal_push_unique) (simp_all add: GetOp2_def GetOp2_size_def GetOp2_data_def)

text \<open>The legacy cost of one instruction.\<close>

definition sigop_cost :: "bytes \<Rightarrow> nat" where
  "sigop_cost i =
     (let op = fst (snd (GetOp2 i)) in
      if op = OP_CHECKSIG \<or> op = OP_CHECKSIGVERIFY then 1
      else if op = OP_CHECKMULTISIG \<or> op = OP_CHECKMULTISIGVERIFY then 20 else 0)"

lemma sigop_cost_le: "sigop_cost i \<le> 20"
  by (simp add: sigop_cost_def Let_def)

lemma GetOp2_instr_opcode:
  "is_instr i \<Longrightarrow> GetOp2 (i @ rest) = (True, op, d, rest) \<Longrightarrow> GetOp2 i = (True, op, d, [])"
  using is_instr_GetOp2 [of i "[]"] GetOp2_append [of i _ _ "[]" rest] by fastforce

lemma sigops_legacy: "GetSigOpCount_loop False l s = sum_list (map sigop_cost (fst (instrs s)))"
proof (induction s arbitrary: l rule: instrs_induct)
  case (tail s op d rest)
  then show ?case by (simp add: instrs_fail GetSigOpCount_loop.simps [of _ _ s])
next
  case (instr i op d rest)
  have "GetOp2 i = (True, op, d, [])" using GetOp2_instr_opcode instr by blast
  moreover have "i @ rest \<noteq> []" using is_instr_not_Nil [OF instr(1)] by simp
  ultimately show ?case using instr
    by (simp add: instrs_append GetSigOpCount_loop.simps [of _ _ "i @ rest"] sigop_cost_def
        del: append_is_Nil_conv)
qed

lemma sigops_accurate_le: "GetSigOpCount_loop True l s \<le> GetSigOpCount_loop False l s"
proof (induction s arbitrary: l rule: instrs_induct)
  case (tail s op d rest)
  then show ?case by (simp add: GetSigOpCount_loop.simps [of _ _ s])
next
  case (instr i op d rest)
  have "the (DecodeOP_N l) \<le> 20" if "OP_1 \<le> l" "l \<le> OP_16"
    using that by (simp add: DecodeOP_N_def)
  moreover have "i @ rest \<noteq> []" using is_instr_not_Nil [OF instr(1)] by simp
  ultimately show ?case using instr(2) instr(3) [of op]
    by (auto simp: GetSigOpCount_loop.simps [of _ _ "i @ rest"] simp del: append_is_Nil_conv
        intro: add_mono)
qed

lemma length_instrs_le: "length (fst (instrs s)) \<le> length s"
proof (induction s rule: instrs_induct)
  case (instr i op d rest)
  have "1 \<le> length i" using is_instr_not_Nil [OF instr(1)] by (simp add: Suc_le_eq)
  then show ?case using instr(1,3) by (simp add: instrs_append)
qed (simp add: instrs_fail)

text \<open>
  The signature operation count that limits blocks and transactions: the legacy count is
  the sum of the costs of the instructions, so it is additive and cannot be lowered by what
  stands before or after; counting \<open>OP_N CHECKMULTISIG\<close> accurately never exceeds it, and it is
  at most 20 per byte.
\<close>

theorem GetSigOpCount_legacy:
  "GetSigOpCount False s = sum_list (map sigop_cost (fst (instrs s)))
   \<and> GetSigOpCount True s \<le> GetSigOpCount False s
   \<and> GetSigOpCount False s \<le> 20 * length s"
proof (intro conjI)
  show l: "GetSigOpCount False s = sum_list (map sigop_cost (fst (instrs s)))"
    by (simp add: GetSigOpCount_def sigops_legacy)
  show "GetSigOpCount True s \<le> GetSigOpCount False s"
    by (simp add: GetSigOpCount_def sigops_accurate_le)
  have "sum_list (map sigop_cost is) \<le> 20 * length is" for "is"
    by (induction "is") (simp_all add: add_mono sigop_cost_le)
  then show "GetSigOpCount False s \<le> 20 * length s"
    using length_instrs_le [of s] unfolding l by (meson le_trans mult_le_mono2)
qed

text \<open>
  \<open>IsNormalPaymentScript\<close> accepts every pay-to-pubkey-hash script, but not only those: any
  25 bytes that start with \<open>OP_DUP OP_HASH160\<close> and a push of the remaining 22 bytes pass,
  because the loop ends before the two last opcodes are looked for.
\<close>

theorem IsNormalPaymentScript_accepts:
  assumes "length h = 20" and "length x = 22"
  shows "IsNormalPaymentScript ([of_nat OP_DUP, of_nat OP_HASH160] @ push_data h
           @ [of_nat OP_EQUALVERIFY, of_nat OP_CHECKSIG])
    \<and> IsNormalPaymentScript ([of_nat OP_DUP, of_nat OP_HASH160] @ push_data x)"
proof
  have h: "push_data h = 0x14 # h" and x: "push_data x = 0x16 # x"
    using assms by (simp_all add: push_data_def)
  show "IsNormalPaymentScript ([of_nat OP_DUP, of_nat OP_HASH160] @ push_data h
           @ [of_nat OP_EQUALVERIFY, of_nat OP_CHECKSIG])"
    unfolding h using assms
    by (simp add: IsNormalPaymentScript_def IsNormalPaymentScript_loop.simps GetOp2_def GetOp2_size_def
        GetOp2_data_def)
  show "IsNormalPaymentScript ([of_nat OP_DUP, of_nat OP_HASH160] @ push_data x)"
    unfolding x using assms
    by (simp add: IsNormalPaymentScript_def IsNormalPaymentScript_loop.simps GetOp2_def GetOp2_size_def
        GetOp2_data_def)
qed

theorem IsNormalPaymentScript_accepts_witness:
  "IsNormalPaymentScript ([of_nat OP_DUP, of_nat OP_HASH160] @ push_data (replicate 20 7)
           @ [of_nat OP_EQUALVERIFY, of_nat OP_CHECKSIG])
    \<and> IsNormalPaymentScript ([of_nat OP_DUP, of_nat OP_HASH160] @ push_data (replicate 22 7))"
  by (rule IsNormalPaymentScript_accepts) simp_all

end
