(* ===== verification/Script_Sig.thy ===== *)
theory Script_Sig imports Script_Ops begin

text \<open>
  The encoding rules for signatures and public keys in \<open>src/src/script.cpp\<close>:
  \<open>IsCompressedOrUncompressedPubKey\<close>, \<open>IsDERSignature\<close>, \<open>IsDefinedHashtypeSignature\<close> and the two
  overloads each of \<open>IsLowDERSignature\<close>, \<open>CheckSignatureEncoding\<close> and \<open>CheckPubKeyEncoding\<close>, and the
  length logic of \<open>CPubKey\<close> (\<open>src/src/pubkey.h\<close>). \<open>CPubKey::CheckLowS\<close> asks libsecp256k1 and is
  the parameter \<open>check_low_s\<close>.
\<close>

unbundle bit_operations_syntax

subsection \<open>Public keys\<close>

definition CPubKey_GetLen :: "byte \<Rightarrow> nat" where
  "CPubKey_GetLen chHeader =
     (if chHeader = 2 \<or> chHeader = 3 then 33
      else if chHeader = 4 \<or> chHeader = 6 \<or> chHeader = 7 then 65
      else 0)"

text \<open>\<open>Set\<close>; \<open>None\<close> is the invalid key (first byte \<open>0xFF\<close>).\<close>

definition CPubKey_Set :: "bytes \<Rightarrow> bytes option" where
  "CPubKey_Set p =
     (let len = (if p = [] then 0 else CPubKey_GetLen (p ! 0))
      in if len \<noteq> 0 \<and> len = length p then Some p else None)"

definition IsCompressedOrUncompressedPubKey :: "valtype \<Rightarrow> bool" where
  "IsCompressedOrUncompressedPubKey vchPubKey =
     (if length vchPubKey < 33 then False
      else if vchPubKey ! 0 = 0x04 then
        (if length vchPubKey \<noteq> 65 then False else True)
      else if vchPubKey ! 0 = 0x02 \<or> vchPubKey ! 0 = 0x03 then
        (if length vchPubKey \<noteq> 33 then False else True)
      else False)"

subsection \<open>DER signatures\<close>

definition IsDERSignature :: "valtype \<Rightarrow> bool \<Rightarrow> bool" where
  "IsDERSignature vchSig haveHashType =
     (if length vchSig < 9 then False
      else if length vchSig > 73 then False
      else if vchSig ! 0 \<noteq> 0x30 then False
      else if unat (vchSig ! 1) \<noteq> length vchSig - (if haveHashType then 3 else 2) then False
      else
        let nLenR = unat (vchSig ! 3) in
        if 5 + nLenR \<ge> length vchSig then False
        else
          let nLenS = unat (vchSig ! (5 + nLenR)) in
          if nLenR + nLenS + (if haveHashType then 7 else 6) \<noteq> length vchSig then False
          else if vchSig ! (4 - 2) \<noteq> 0x02 then False
          else if nLenR = 0 then False
          else if vchSig ! 4 AND 0x80 \<noteq> 0 then False
          else if nLenR > 1 \<and> vchSig ! 4 = 0 \<and> \<not> (vchSig ! (4 + 1) AND 0x80 \<noteq> 0) then False
          else if vchSig ! (6 + nLenR - 2) \<noteq> 0x02 then False
          else if nLenS = 0 then False
          else if vchSig ! (6 + nLenR) AND 0x80 \<noteq> 0 then False
          else if nLenS > 1 \<and> vchSig ! (6 + nLenR) = 0
                  \<and> \<not> (vchSig ! (6 + nLenR + 1) AND 0x80 \<noteq> 0) then False
          else True)"

text \<open>The overload without an error argument, used by the transaction-level \<open>EvalScript\<close>.\<close>

definition IsLowDERSignature :: "(bytes \<Rightarrow> bool) \<Rightarrow> valtype \<Rightarrow> bool" where
  "IsLowDERSignature check_low_s vchSig =
     (if \<not> IsDERSignature vchSig True then False
      else let vchSigCopy = take (length vchSig - 1) vchSig in check_low_s vchSigCopy)"

definition IsDefinedHashtypeSignature :: "valtype \<Rightarrow> bool" where
  "IsDefinedHashtypeSignature vchSig =
     (if length vchSig = 0 then False
      else let nHashType = (ucast (vchSig ! (length vchSig - 1)) :: u32) AND NOT SIGHASH_ANYONECANPAY
           in if nHashType < SIGHASH_ALL \<or> nHashType > SIGHASH_SINGLE then False else True)"

definition CheckSignatureEncoding_v1 :: "(bytes \<Rightarrow> bool) \<Rightarrow> valtype \<Rightarrow> bool" where
  "CheckSignatureEncoding_v1 check_low_s vchSig =
     (if \<not> IsLowDERSignature check_low_s vchSig then False
      else if \<not> IsDefinedHashtypeSignature vchSig then False
      else True)"

definition CheckPubKeyEncoding_v1 :: "valtype \<Rightarrow> bool" where
  "CheckPubKeyEncoding_v1 vchSig =
     (if \<not> IsCompressedOrUncompressedPubKey vchSig then False else True)"

text \<open>
  The overloads with \<open>serror\<close>: \<open>None\<close> is success, \<open>Some e\<close> is failure with \<open>*serror = e\<close>. On
  entry \<open>*serror\<close> is \<open>SCRIPT_ERR_UNKNOWN_ERROR\<close>, which a rejection by \<open>CheckLowS\<close> leaves as it
  is.
\<close>

definition IsLowDERSignature_serror :: "(bytes \<Rightarrow> bool) \<Rightarrow> valtype \<Rightarrow> ScriptError option" where
  "IsLowDERSignature_serror check_low_s vchSig =
     (if \<not> IsDERSignature vchSig True then Some SCRIPT_ERR_SIG_DER
      else let vchSigCopy = take (length vchSig - 1) vchSig
           in if check_low_s vchSigCopy then None else Some SCRIPT_ERR_UNKNOWN_ERROR)"

definition CheckSignatureEncoding :: "(bytes \<Rightarrow> bool) \<Rightarrow> valtype \<Rightarrow> verify_flags \<Rightarrow> ScriptError option" where
  "CheckSignatureEncoding check_low_s vchSig flags =
     (if has_flag flags (SCRIPT_VERIFY_DERSIG OR SCRIPT_VERIFY_LOW_S OR SCRIPT_VERIFY_STRICTENC)
         \<and> \<not> IsDERSignature vchSig True
      then Some SCRIPT_ERR_SIG_DER
      else if has_flag flags SCRIPT_VERIFY_LOW_S \<and> IsLowDERSignature_serror check_low_s vchSig \<noteq> None
      then IsLowDERSignature_serror check_low_s vchSig
      else if has_flag flags SCRIPT_VERIFY_STRICTENC \<and> \<not> IsDefinedHashtypeSignature vchSig
      then Some SCRIPT_ERR_SIG_HASHTYPE
      else None)"

definition CheckPubKeyEncoding :: "valtype \<Rightarrow> verify_flags \<Rightarrow> ScriptError option" where
  "CheckPubKeyEncoding vchSig flags =
     (if has_flag flags SCRIPT_VERIFY_STRICTENC \<and> \<not> IsCompressedOrUncompressedPubKey vchSig
      then Some SCRIPT_ERR_PUBKEYTYPE
      else None)"

subsection \<open>The DER grammar\<close>

text \<open>A positive integer without excess padding, as bytes.\<close>

definition der_int :: "bytes \<Rightarrow> bool" where
  "der_int v \<longleftrightarrow> v \<noteq> [] \<and> unat (v ! 0) < 128 \<and> (v ! 0 = 0 \<longrightarrow> length v > 1 \<longrightarrow> 128 \<le> unat (v ! 1))"

definition der_signature :: "bytes \<Rightarrow> bytes \<Rightarrow> bytes" where
  "der_signature r s =
     [0x30, of_nat (length r + length s + 4), 0x02, of_nat (length r)] @ r
       @ [0x02, of_nat (length s)] @ s"

lemma der_signature_accepted:
  assumes r: "der_int r" and s: "der_int s" and len: "length r + length s \<le> 66"
  shows "IsDERSignature (der_signature r s @ [ht]) True"
proof -
  obtain r0 r' where r': "r = r0 # r'" using r by (cases r) (auto simp: der_int_def)
  obtain s0 s' where s': "s = s0 # s'" using s by (cases s) (auto simp: der_int_def)
  have u: "unat (of_nat (length r + length s + 4) :: byte) = length r + length s + 4"
    by (rule unat_byte_of_nat) (use len in linarith)
  have ul: "unat (of_nat (length r) :: byte) = length r" "unat (of_nat (length s) :: byte) = length s"
    by (rule unat_byte_of_nat, use len in linarith)+
  define sig where "sig = der_signature r s @ [ht]"
  have sig: "sig = 0x30 # of_nat (length r + length s + 4) # 0x02 # of_nat (length r)
      # r @ 0x02 # of_nat (length s) # s @ [ht]"
    by (simp add: sig_def der_signature_def)
  have n: "length sig = length r + length s + 7" by (simp add: sig)
  have at: "sig ! 0 = 0x30" "unat (sig ! 1) = length r + length s + 4" "sig ! 2 = 0x02"
    "unat (sig ! 3) = length r" "sig ! 4 = r ! 0"
    using u ul r' by (simp_all add: sig del: of_nat_add)
  have at5: "sig ! (4 + j) = r ! j" if "j < length r" for j
    using that by (simp add: sig nth_append add.commute [of 4] numeral_eq_Suc)
  have "sig ! (4 + length r + j) = (0x02 # of_nat (length s) # s @ [ht]) ! j" for j
    by (simp add: sig nth_append add.commute add.left_commute numeral_eq_Suc)
  from this [of 0] this [of 1] this [of 2] this [of 3]
  have at6: "sig ! (4 + length r) = 0x02" "unat (sig ! (5 + length r)) = length s"
    "sig ! (6 + length r) = s ! 0" "length s > 1 \<Longrightarrow> sig ! (7 + length r) = s ! 1"
    using ul s' by (simp_all add: numeral_eq_Suc nth_append)
  show ?thesis
    unfolding sig_def [symmetric] IsDERSignature_def Let_def
    using r s r' s' n at at5 [of 1] at6 len
    by (auto simp: der_int_def byte_sign_bit byte_sign_clear add.commute)
qed


lemma der_signature_only:
  assumes "IsDERSignature sig True"
  obtains r s ht where "sig = der_signature r s @ [ht]" "der_int r" "der_int s" "length r + length s \<le> 66"
proof -
  define lr ls where "lr = unat (sig ! 3)" and "ls = unat (sig ! (5 + lr))"
  have n: "length sig = lr + ls + 7" and n73: "length sig \<le> 73" and pos: "0 < lr" "0 < ls"
    and a0: "sig ! 0 = 0x30" "unat (sig ! 1) = length sig - 3" "sig ! 2 = 0x02"
      "sig ! (4 + lr) = 0x02"
    and ri: "unat (sig ! 4) < 128" "lr > 1 \<Longrightarrow> sig ! 4 = 0 \<Longrightarrow> 128 \<le> unat (sig ! 5)"
    and si: "unat (sig ! (6 + lr)) < 128" "ls > 1 \<Longrightarrow> sig ! (6 + lr) = 0 \<Longrightarrow> 128 \<le> unat (sig ! (7 + lr))"
    using assms unfolding IsDERSignature_def Let_def lr_def [symmetric] ls_def [symmetric]
    by (simp_all add: byte_sign_clear byte_sign_bit add.commute split: if_splits)
  define r s where "r = take lr (drop 4 sig)" and "s = take ls (drop (6 + lr) sig)"
  have lens: "length r = lr" "length s = ls" using n by (simp_all add: r_def s_def)
  have rn: "r ! j = sig ! (4 + j)" if "j < lr" for j using that n by (simp add: r_def)
  have sn: "s ! j = sig ! (6 + lr + j)" if "j < ls" for j using that n by (simp add: s_def)
  have d: "drop k sig = take m (drop k sig) @ drop (k + m) sig" for k m
    by (metis add.commute append_take_drop_id drop_drop)
  have "sig = take 4 sig @ drop 4 sig" by simp
  also have "drop 4 sig = r @ drop (4 + lr) sig" using d [of 4 lr] by (simp only: r_def)
  also have "drop (4 + lr) sig = take 2 (drop (4 + lr) sig) @ drop (6 + lr) sig"
    using d [of "4 + lr" 2] by (simp only: add.commute add.left_commute) simp
  also have "drop (6 + lr) sig = s @ drop (6 + lr + ls) sig"
    using d [of "6 + lr" ls] by (simp only: s_def)
  finally have "sig = take 4 sig @ r @ take 2 (drop (4 + lr) sig) @ s @ drop (6 + lr + ls) sig" .
  moreover have "take 4 sig = [sig ! 0, sig ! 1, sig ! 2, sig ! 3]"
    using n by (intro nth_equalityI) (auto simp: less_Suc_eq numeral_eq_Suc)
  moreover have "take 2 (drop (4 + lr) sig) = [sig ! (4 + lr), sig ! (5 + lr)]"
    using n by (intro nth_equalityI) (auto simp: less_Suc_eq numeral_eq_Suc)
  moreover have "drop (6 + lr + ls) sig = [sig ! (6 + lr + ls)]"
    using n by (intro nth_equalityI) auto
  moreover have "sig ! 1 = of_nat (lr + ls + 4)"
  proof -
    have "unat (sig ! 1) = lr + ls + 4" using a0(2) n by simp
    then show ?thesis by (rule byte_eq_of_nat)
  qed
  moreover have "sig ! 3 = of_nat lr" "sig ! (5 + lr) = of_nat ls" by (simp_all add: lr_def ls_def)
  ultimately have "sig = der_signature r s @ [sig ! (6 + lr + ls)]"
    using a0 lens by (simp add: der_signature_def)
  moreover have "der_int r" using pos ri lens rn [of 0] rn [of 1] by (auto simp: der_int_def)
  moreover have "der_int s" using pos si lens sn [of 0] sn [of 1] by (auto simp: der_int_def)
  ultimately show thesis using that lens n n73 by simp
qed


lemma DER_last: "IsDERSignature sig True \<Longrightarrow> sig \<noteq> []"
  by (auto simp: IsDERSignature_def)

subsection \<open>Properties\<close>

text \<open>
  \<open>IsDERSignature\<close> accepts exactly the language it documents: a sequence of two DER
  integers, each positive and minimally padded, followed by one hash-type byte, at most 73
  bytes in all. No byte of an accepted signature is left unconstrained except the integers'
  values and the hash type.
\<close>

theorem IsDERSignature_grammar:
  "IsDERSignature sig True \<longleftrightarrow>
   (\<exists>r s ht. sig = der_signature r s @ [ht] \<and> der_int r \<and> der_int s \<and> length r + length s \<le> 66)"
  by (metis der_signature_accepted der_signature_only)

text \<open>
  The two encodings of the signature rules agree: with both strict flags set the \<open>serror\<close>
  overload accepts exactly what the transaction-level overload accepts. A signature refused
  only for its high S leaves \<open>SCRIPT_ERR_UNKNOWN_ERROR\<close>; \<open>SCRIPT_ERR_SIG_HIGH_S\<close> is never
  reported.
\<close>

theorem CheckSignatureEncoding_overloads:
  "(CheckSignatureEncoding low sig (SCRIPT_VERIFY_LOW_S OR SCRIPT_VERIFY_STRICTENC) = None
      \<longleftrightarrow> CheckSignatureEncoding_v1 low sig)
   \<and> (CheckPubKeyEncoding sig SCRIPT_VERIFY_STRICTENC = None \<longleftrightarrow> CheckPubKeyEncoding_v1 sig)
   \<and> CheckSignatureEncoding low sig flags \<in>
       {None, Some SCRIPT_ERR_SIG_DER, Some SCRIPT_ERR_UNKNOWN_ERROR, Some SCRIPT_ERR_SIG_HASHTYPE}
   \<and> (IsDERSignature sig True \<and> \<not> low (take (length sig - 1) sig) \<and> has_flag flags SCRIPT_VERIFY_LOW_S
      \<longrightarrow> CheckSignatureEncoding low sig flags = Some SCRIPT_ERR_UNKNOWN_ERROR)"
  by (auto simp: CheckSignatureEncoding_def CheckSignatureEncoding_v1_def IsLowDERSignature_def
      IsLowDERSignature_serror_def CheckPubKeyEncoding_def CheckPubKeyEncoding_v1_def has_flag_def Let_def
      split: if_splits)

theorem CheckSignatureEncoding_overloads_witness:
  "CheckSignatureEncoding (\<lambda>_. False) (der_signature [1] [1] @ [1]) SCRIPT_VERIFY_LOW_S
     = Some SCRIPT_ERR_UNKNOWN_ERROR"
proof -
  have "IsDERSignature (der_signature [1] [1] @ [1]) True \<and> has_flag SCRIPT_VERIFY_LOW_S SCRIPT_VERIFY_LOW_S"
    by code_simp
  then show ?thesis
    using CheckSignatureEncoding_overloads [of "\<lambda>_. False" "der_signature [1] [1] @ [1]" SCRIPT_VERIFY_LOW_S]
    by blast
qed

text \<open>
  A public key that passes \<open>CheckPubKeyEncoding\<close> is one that \<open>CPubKey\<close> can hold with the same
  bytes; \<open>CPubKey\<close> also takes the hybrid forms 6 and 7, which strict encoding refuses.
\<close>

theorem pubkey_encodings:
  "CPubKey_Set k = Some k' \<longleftrightarrow>
     k' = k \<and> (IsCompressedOrUncompressedPubKey k \<or> (length k = 65 \<and> (k ! 0 = 6 \<or> k ! 0 = 7)))"
  by (cases k) (auto simp: CPubKey_Set_def CPubKey_GetLen_def IsCompressedOrUncompressedPubKey_def Let_def)

end
