(* ===== verification/Script_Solve.thy ===== *)
theory Script_Solve imports Script_Code Script_Sig begin

text \<open>
  Recognising and building output scripts (\<open>src/src/script.cpp\<close>): \<open>Solver\<close> with its templates,
  \<open>ScriptSigArgsExpected\<close>, \<open>IsStandard\<close>, destinations, and the scripts that are built for a
  destination or for a list of keys. A 160-bit identifier is its 20 bytes in memory order;
  \<open>Hash160\<close>, which calls OpenSSL, is a parameter.
\<close>

subsection \<open>Templates\<close>

definition MAX_OP_RETURN_RELAY :: nat where "MAX_OP_RETURN_RELAY = 40"

text \<open>The entries of the multimap in its order: by type, equal types in order of insertion.\<close>

definition mTemplates :: "(txnouttype \<times> script) list" where
  "mTemplates =
     [(TX_PUBKEY, push_opcode OP_PUBKEY @ push_opcode OP_CHECKSIG),
      (TX_PUBKEYHASH, push_opcode OP_DUP @ push_opcode OP_HASH160 @ push_opcode OP_PUBKEYHASH
         @ push_opcode OP_EQUALVERIFY @ push_opcode OP_CHECKSIG),
      (TX_MULTISIG, push_opcode OP_SMALLINTEGER @ push_opcode OP_PUBKEYS @ push_opcode OP_SMALLINTEGER
         @ push_opcode OP_CHECKMULTISIG),
      (TX_NULL_DATA, push_opcode OP_RETURN @ push_opcode OP_SMALLDATA),
      (TX_NULL_DATA, push_opcode OP_RETURN)]"

text \<open>The inner loop of \<open>OP_PUBKEYS\<close>: opcode, data and position where it stops, and the solutions.\<close>

function pubkeys_loop :: "opcode \<Rightarrow> bytes \<Rightarrow> bytes \<Rightarrow> valtype list \<Rightarrow> opcode \<times> bytes \<times> bytes \<times> valtype list" where
  "pubkeys_loop opcode1 vch1 pc1 sols =
     (if length vch1 \<ge> 33 \<and> length vch1 \<le> 120 then
        (case GetOp2 pc1 of (ok, opcode1', vch1', pc1') \<Rightarrow>
           if \<not> ok then (opcode1', vch1', pc1', sols @ [vch1])
           else pubkeys_loop opcode1' vch1' pc1' (sols @ [vch1]))
      else (opcode1, vch1, pc1, sols))"
  by pat_completeness auto
termination
  by (relation "measure (\<lambda>(_, _, pc, _). length pc)") (auto dest: GetOp2_ok_rest [OF sym])

declare pubkeys_loop.simps [simp del]

lemma pubkeys_loop_length:
  "pubkeys_loop op v pc sols = (op', v', pc', sols') \<Longrightarrow> length pc' \<le> length pc"
proof (induction op v pc sols rule: pubkeys_loop.induct)
  case (1 op v pc sols)
  obtain ok o1 v1 p1 where g: "GetOp2 pc = (ok, o1, v1, p1)" by (cases "GetOp2 pc") auto
  have "length p1 \<le> length pc"
    using GetOp2_suffix [OF g] g by (cases "pc = []") (auto simp: GetOp2_def)
  then show ?case using 1 g
    by (cases ok) (auto simp: pubkeys_loop.simps [of op v pc sols] split: if_splits intro: le_trans)
qed

text \<open>The comparison of one opcode against the template opcode; \<open>None\<close> is the \<open>break\<close>.\<close>

definition match_op :: "opcode \<Rightarrow> bytes \<Rightarrow> opcode \<Rightarrow> bytes \<Rightarrow> valtype list \<Rightarrow> valtype list option" where
  "match_op opcode1 vch1 opcode2 vch2 sols =
     (if opcode2 = OP_PUBKEY then
        (if length vch1 < 33 \<or> length vch1 > 120 then None else Some (sols @ [vch1]))
      else if opcode2 = OP_PUBKEYHASH then
        (if length vch1 \<noteq> 20 then None else Some (sols @ [vch1]))
      else if opcode2 = OP_SMALLINTEGER then
        (if opcode1 = OP_0 \<or> (opcode1 \<ge> OP_1 \<and> opcode1 \<le> OP_16)
         then (case DecodeOP_N opcode1 of None \<Rightarrow> None | Some n \<Rightarrow> Some (sols @ [[of_nat n]]))
         else None)
      else if opcode2 = OP_SMALLDATA then
        (if length vch1 > MAX_OP_RETURN_RELAY then None else Some sols)
      else if opcode1 \<noteq> opcode2 \<or> vch1 \<noteq> vch2 then None
      else Some sols)"

function match_template :: "bytes \<Rightarrow> bytes \<Rightarrow> valtype list \<Rightarrow> valtype list option" where
  "match_template pc1 pc2 sols =
     (if pc1 = [] \<and> pc2 = [] then Some sols
      else case GetOp2 pc1 of (ok1, opcode1, vch1, r1) \<Rightarrow>
        if \<not> ok1 then None
        else case GetOp2 pc2 of (ok2, opcode2, vch2, r2) \<Rightarrow>
          if \<not> ok2 then None
          else if opcode2 = OP_PUBKEYS then
            (case pubkeys_loop opcode1 vch1 r1 sols of (opcode1, vch1, r1, sols) \<Rightarrow>
               case GetOp2 r2 of (ok2, opcode2, vch2, r2) \<Rightarrow>
                 if \<not> ok2 then None
                 else case match_op opcode1 vch1 opcode2 vch2 sols of
                   None \<Rightarrow> None | Some sols \<Rightarrow> match_template r1 r2 sols)
          else case match_op opcode1 vch1 opcode2 vch2 sols of
            None \<Rightarrow> None | Some sols \<Rightarrow> match_template r1 r2 sols)"
  by pat_completeness auto
termination
  by (relation "measure (\<lambda>(_, pc2, _). length pc2)")
    (auto dest!: GetOp2_ok_rest [OF sym])

declare match_template.simps [simp del]

text \<open>The checks that follow a match of the multisig template.\<close>

definition multisig_ok :: "valtype list \<Rightarrow> bool" where
  "multisig_ok sols \<longleftrightarrow>
     (let m = hd sols ! 0; n = last sols ! 0
      in \<not> (m < 1 \<or> n < 1 \<or> m > n \<or> length sols - 2 \<noteq> unat n))"

fun scan_templates :: "(txnouttype \<times> script) list \<Rightarrow> script \<Rightarrow> bool \<times> txnouttype \<times> valtype list" where
  "scan_templates [] script1 = (False, TX_NONSTANDARD, [])"
| "scan_templates ((type, script2) # ts) script1 =
     (case match_template script1 script2 [] of
        Some sols \<Rightarrow>
          if type = TX_MULTISIG \<and> \<not> multisig_ok sols then (False, type, sols) else (True, type, sols)
      | None \<Rightarrow> scan_templates ts script1)"

definition Solver :: "script \<Rightarrow> bool \<times> txnouttype \<times> valtype list" where
  "Solver pubkey_script =
     (if IsPayToScriptHash pubkey_script then (True, TX_SCRIPTHASH, [take 20 (drop 2 pubkey_script)])
      else scan_templates mTemplates pubkey_script)"

definition ScriptSigArgsExpected :: "txnouttype \<Rightarrow> valtype list \<Rightarrow> int" where
  "ScriptSigArgsExpected t sols =
     (case t of
        TX_NONSTANDARD \<Rightarrow> -1
      | TX_NULL_DATA \<Rightarrow> -1
      | TX_PUBKEY \<Rightarrow> 1
      | TX_PUBKEYHASH \<Rightarrow> 2
      | TX_MULTISIG \<Rightarrow> if length sols < 1 \<or> length (sols ! 0) < 1 then -1 else uint (sols ! 0 ! 0) + 1
      | TX_SCRIPTHASH \<Rightarrow> 1)"

definition IsStandard :: "script \<Rightarrow> bool \<times> txnouttype" where
  "IsStandard pubkey_script =
     (case Solver pubkey_script of (ok, whichType, sols) \<Rightarrow>
        if \<not> ok then (False, whichType)
        else if whichType = TX_MULTISIG \<and>
          (let m = hd sols ! 0; n = last sols ! 0 in n < 1 \<or> n > 3 \<or> m < 1 \<or> m > n)
        then (False, whichType)
        else (whichType \<noteq> TX_NONSTANDARD, whichType))"

subsection \<open>What the templates recognise\<close>

lemma GetOp2_opcode_byte: "OP_PUSHDATA4 < op \<Longrightarrow> op < 256 \<Longrightarrow> GetOp2 (of_nat op # t) = (True, op, [], t)"
  by (simp add: GetOp2_def unat_of_nat)

lemma GetOp2_no_data:
  assumes "GetOp2 s = (True, op, d, rest)" "op = OP_0 \<or> OP_PUSHDATA4 < op" shows "d = []"
proof (cases s)
  case (Cons b pc)
  show ?thesis
  proof (cases "unat b \<le> OP_PUSHDATA4")
    case True
    then have "op = unat b" using assms(1) Cons by (auto simp: GetOp2_def Let_def GetOp2_data_def split: option.splits if_splits)
    then have "op = 0" using assms(2) True by simp
    then show ?thesis using assms(1) Cons \<open>op = unat b\<close> by (simp add: GetOp2_def GetOp2_size_def GetOp2_data_def)
  qed (use assms Cons in \<open>simp add: GetOp2_def\<close>)
qed (use assms in \<open>simp add: GetOp2_def\<close>)

text \<open>One template opcode at a time; \<open>read\<close> is \<open>GetOp\<close> with the failure as \<open>None\<close>.\<close>

definition read :: "bytes \<Rightarrow> (opcode \<times> bytes \<times> bytes) option" where
  "read s = (case GetOp2 s of (ok, op, d, rest) \<Rightarrow> if ok then Some (op, d, rest) else None)"

lemma read_Some: "read s = Some (op, d, rest) \<longleftrightarrow> GetOp2 s = (True, op, d, rest)"
  by (auto simp: read_def split: prod.splits if_splits)

lemma match_template_op:
  assumes "OP_PUSHDATA4 < op" "op < 256" "op \<noteq> OP_PUBKEYS"
  shows "match_template s (of_nat op # t) sols =
    (case read s of None \<Rightarrow> None
     | Some (o1, v1, r1) \<Rightarrow>
         (case match_op o1 v1 op [] sols of None \<Rightarrow> None | Some sols' \<Rightarrow> match_template r1 t sols'))"
  using assms
  by (subst match_template.simps)
    (auto simp: GetOp2_opcode_byte read_def split: prod.split option.split)

lemma match_template_pubkeys:
  assumes "OP_PUSHDATA4 < op" "op < 256"
  shows "match_template s (of_nat OP_PUBKEYS # of_nat op # t) sols =
    (case read s of None \<Rightarrow> None
     | Some (o1, v1, r1) \<Rightarrow>
         (case pubkeys_loop o1 v1 r1 sols of (o1, v1, r1, sols) \<Rightarrow>
            (case match_op o1 v1 op [] sols of None \<Rightarrow> None | Some sols' \<Rightarrow> match_template r1 t sols')))"
  using assms GetOp2_opcode_byte [of OP_PUBKEYS "of_nat op # t"]
  by (subst match_template.simps)
    (auto simp: GetOp2_opcode_byte read_def split: prod.split option.split)

lemma match_template_end: "match_template s [] sols = (if s = [] then Some sols else None)"
  by (subst match_template.simps) (auto simp: GetOp2_def split: prod.split)

text \<open>The key pushes that the inner loop takes, and where it stops.\<close>

definition key_push :: "bytes \<Rightarrow> bool" where
  "key_push i \<longleftrightarrow> (\<exists>op d. GetOp2 i = (True, op, d, []) \<and> 33 \<le> length d \<and> length d \<le> 120)"

definition pushed :: "bytes \<Rightarrow> bytes" where
  "pushed i = fst (snd (snd (GetOp2 i)))"

lemma read_append: "read i = Some (op, d, r) \<Longrightarrow> read (i @ t) = Some (op, d, r @ t)"
  by (simp add: read_Some GetOp2_append)

lemma key_push_append:
  "key_push i \<Longrightarrow> \<exists>op. read (i @ t) = Some (op, pushed i, t) \<and> 33 \<le> length (pushed i) \<and> length (pushed i) \<le> 120"
  unfolding key_push_def pushed_def read_Some using GetOp2_append [of i _ _ "[]" t] by fastforce

lemma read_key:
  assumes "read s = Some (op, d, rest)" "33 \<le> length d" "length d \<le> 120"
  obtains i where "s = i @ rest" "key_push i" "pushed i = d"
proof -
  have "GetOp2 s = (True, op, d, rest)" using assms(1) by (simp add: read_Some)
  then obtain i where i: "s = i @ rest" "GetOp2 i = (True, op, d, [])" by (rule GetOp2_is_instr)
  show thesis by (rule that [of i]) (use i assms in \<open>auto simp: key_push_def pushed_def\<close>)
qed

lemma read_None: "read s = None \<longleftrightarrow> (\<exists>r. GetOp2 s = (False, OP_INVALIDOPCODE, [], r))"
  by (auto simp: read_def GetOp2_def Let_def GetOp2_data_def split: list.splits if_splits option.splits)

lemma pubkeys_stop: "\<not> (33 \<le> length v \<and> length v \<le> 120) \<Longrightarrow> pubkeys_loop o1 v pc sols = (o1, v, pc, sols)"
  by (subst pubkeys_loop.simps) auto

lemma pubkeys_step:
  "33 \<le> length v \<and> length v \<le> 120 \<Longrightarrow> read pc = Some (o2, v2, p2) \<Longrightarrow>
   pubkeys_loop o1 v pc sols = pubkeys_loop o2 v2 p2 (sols @ [v])"
  by (subst pubkeys_loop.simps) (simp add: read_Some)

lemma pubkeys_fail:
  "33 \<le> length v \<and> length v \<le> 120 \<Longrightarrow> read pc = None \<Longrightarrow>
   \<exists>r. pubkeys_loop o1 v pc sols = (OP_INVALIDOPCODE, [], r, sols @ [v])"
  by (subst pubkeys_loop.simps) (auto simp: read_None)

lemma pubkeys_loop_sound:
  assumes "read s = Some (o1, v1, pc)" "pubkeys_loop o1 v1 pc sols = (o', v', pc', sols')"
  shows "\<exists>ks j. s = concat ks @ j \<and> list_all key_push ks \<and> sols' = sols @ map pushed ks
    \<and> (read j = Some (o', v', pc') \<and> \<not> (33 \<le> length v' \<and> length v' \<le> 120) \<or> o' = OP_INVALIDOPCODE \<and> v' = [])"
  using assms
proof (induction o1 v1 pc sols arbitrary: s rule: pubkeys_loop.induct)
  case (1 o1 v1 pc sols)
  show ?case
  proof (cases "33 \<le> length v1 \<and> length v1 \<le> 120")
    case False
    then show ?thesis using "1.prems" pubkeys_stop [OF False, of o1 pc sols]
      by (intro exI [where x = "[] :: bytes list"]) auto
  next
    case True
    obtain i where i: "s = i @ pc" "key_push i" "pushed i = v1" using read_key [OF "1.prems"(1)] True by blast
    show ?thesis
    proof (cases "read pc")
      case None
      then show ?thesis using "1.prems"(2) i pubkeys_fail [OF True None, of o1 sols]
        by (intro exI [where x = "[i]"]) auto
    next
      case (Some x)
      obtain o2 v2 p2 where x: "x = (o2, v2, p2)" by (cases x)
      have g: "GetOp2 pc = (True, o2, v2, p2)" using Some x by (simp add: read_Some)
      have "pubkeys_loop o2 v2 p2 (sols @ [v1]) = (o', v', pc', sols')"
        using "1.prems"(2) pubkeys_step [OF True, of pc o2 v2 p2 o1 sols] Some x by simp
      then have "\<exists>ks j. pc = concat ks @ j \<and> list_all key_push ks \<and> sols' = (sols @ [v1]) @ map pushed ks
          \<and> (read j = Some (o', v', pc') \<and> \<not> (33 \<le> length v' \<and> length v' \<le> 120)
              \<or> o' = OP_INVALIDOPCODE \<and> v' = [])"
        using "1.IH" [OF True g [symmetric] refl refl] Some x by simp
      then obtain ks j where ks: "pc = concat ks @ j" "list_all key_push ks" "sols' = (sols @ [v1]) @ map pushed ks"
        "read j = Some (o', v', pc') \<and> \<not> (33 \<le> length v' \<and> length v' \<le> 120) \<or> o' = OP_INVALIDOPCODE \<and> v' = []"
        by blast
      then show ?thesis using i by (intro exI [where x = "i # ks"] exI [where x = j]) auto
    qed
  qed
qed

lemma pubkeys_loop_complete:
  assumes "list_all key_push ks" "read j = Some (o', v', pc')" "\<not> (33 \<le> length v' \<and> length v' \<le> 120)"
    and "read (concat ks @ j) = Some (o1, v1, pc)"
  shows "pubkeys_loop o1 v1 pc sols = (o', v', pc', sols @ map pushed ks)"
  using assms
proof (induction ks arbitrary: o1 v1 pc sols)
  case Nil
  then show ?case using pubkeys_stop [OF Nil(3)] by simp
next
  case (Cons i ks)
  then have v: "v1 = pushed i" "pc = concat ks @ j" "33 \<le> length v1 \<and> length v1 \<le> 120"
    using key_push_append [of i "concat ks @ j"] by auto
  have "read (concat ks @ j) \<noteq> None"
    using Cons.prems(1,2) key_push_append by (cases ks) fastforce+
  then obtain o2 v2 p2 where r: "read (concat ks @ j) = Some (o2, v2, p2)" by auto
  then show ?case using Cons.IH [OF _ Cons.prems(2,3) r, of "sols @ [v1]"] Cons.prems(1) v
      pubkeys_step [OF v(3), of pc o2 v2 p2 o1 sols] by simp
qed

text \<open>One-byte instructions.\<close>

lemma read_opcode: "OP_PUSHDATA4 < op \<Longrightarrow> op < 256 \<Longrightarrow> read (of_nat op # t) = Some (op, [], t)"
  by (simp add: read_Some GetOp2_opcode_byte)

lemma read_no_data:
  assumes "read s = Some (op, [], rest)" "op = OP_0 \<or> OP_PUSHDATA4 < op"
  shows "s = of_nat op # rest \<and> op < 256"
proof (cases s)
  case (Cons b pc)
  have "op = unat b \<and> pc = rest"
  proof (cases "unat b \<le> OP_PUSHDATA4")
    case True
    have g: "GetOp2 s = (True, op, [], rest)" using assms(1) by (simp add: read_Some)
    then have op: "op = unat b" using Cons True
      by (auto simp: GetOp2_def Let_def GetOp2_data_def split: option.splits if_splits)
    then have "op = 0" using assms(2) True by simp
    then show ?thesis using g Cons op by (simp add: GetOp2_def GetOp2_size_def GetOp2_data_def)
  qed (use assms Cons in \<open>auto simp: read_Some GetOp2_def\<close>)
  then show ?thesis using Cons unsigned_less [of b, where ?'a = nat] by simp
qed (use assms in \<open>simp add: read_Some GetOp2_def\<close>)

lemma read_exact: "OP_PUSHDATA4 < op \<Longrightarrow> op < 256 \<Longrightarrow>
  (read s = Some (o1, v1, r1) \<and> o1 = op \<and> v1 = []) \<longleftrightarrow> (s = of_nat op # r1 \<and> o1 = op \<and> v1 = [])"
  using read_opcode [of op r1] read_no_data [of s op r1] by auto

text \<open>A small integer opcode and its number.\<close>

definition small_int_byte :: "nat \<Rightarrow> byte" where
  "small_int_byte m = of_nat (if m = 0 then OP_0 else OP_1 + m - 1)"

lemma read_small_int: "m \<le> 16 \<Longrightarrow> read (small_int_byte m # t) =
    Some (if m = 0 then OP_0 else OP_1 + m - 1, [], t)"
proof (cases "m = 0")
  case False
  assume "m \<le> 16"
  then show ?thesis using False read_opcode [of "OP_1 + m - 1" t] by (simp add: small_int_byte_def)
qed (simp add: small_int_byte_def read_Some GetOp2_def GetOp2_size_def GetOp2_data_def)

lemma match_small_int:
  "match_op o1 v1 OP_SMALLINTEGER [] sols = Some sols' \<Longrightarrow>
   \<exists>m \<le> 16. o1 = (if m = 0 then OP_0 else OP_1 + m - 1) \<and> sols' = sols @ [[of_nat m]]"
proof -
  assume m: "match_op o1 v1 OP_SMALLINTEGER [] sols = Some sols'"
  then consider "o1 = OP_0" "sols' = sols @ [[0]]"
    | "OP_1 \<le> o1" "o1 \<le> OP_16" "sols' = sols @ [[of_nat (o1 - 80)]]"
    by (simp add: match_op_def DecodeOP_N_def split: if_splits)
  then show ?thesis
  proof cases
    case 1
    then show ?thesis by (intro exI [of _ 0]) simp
  next
    case 2
    then show ?thesis by (intro exI [of _ "o1 - 80"]) simp
  qed
qed

lemma match_small_int_enc:
  "m \<le> 16 \<Longrightarrow> match_op (if m = 0 then OP_0 else OP_1 + m - 1) [] OP_SMALLINTEGER [] sols = Some (sols @ [[of_nat m]])"
  by (simp add: match_op_def DecodeOP_N_def)

lemma read_small_int_iff:
  assumes "read s = Some (o1, v1, r1)" "o1 = (if m = 0 then OP_0 else OP_1 + m - 1)" "m \<le> 16"
  shows "s = small_int_byte m # r1 \<and> v1 = []"
proof -
  have o: "o1 = OP_0 \<or> OP_PUSHDATA4 < o1" using assms(2) by simp
  have v: "v1 = []" using GetOp2_no_data [of s o1 v1 r1] assms(1) o by (simp add: read_Some)
  then show ?thesis using read_no_data [of s o1 r1] assms o by (simp add: small_int_byte_def)
qed

subsection \<open>The scripts of each type\<close>

definition data_instr :: "(nat \<Rightarrow> bool) \<Rightarrow> bytes \<Rightarrow> bool" where
  "data_instr P i \<longleftrightarrow> (\<exists>op d. GetOp2 i = (True, op, d, []) \<and> P (length d))"

lemma key_push_data: "key_push = data_instr (\<lambda>n. 33 \<le> n \<and> n \<le> 120)"
  by (auto simp: key_push_def data_instr_def)

lemma data_instr_read:
  "(\<exists>i. data_instr P i \<and> s = i @ r \<and> d = pushed i) \<longleftrightarrow> (\<exists>op. read s = Some (op, d, r) \<and> P (length d))"
proof
  assume "\<exists>i. data_instr P i \<and> s = i @ r \<and> d = pushed i"
  then obtain i op d' where i: "GetOp2 i = (True, op, d', [])" "P (length d')" "s = i @ r" "d = pushed i"
    by (auto simp: data_instr_def)
  then have "d = d'" by (simp add: pushed_def)
  then show "\<exists>op. read s = Some (op, d, r) \<and> P (length d)"
    using i GetOp2_append [OF i(1), of r] by (auto simp: read_Some)
next
  assume "\<exists>op. read s = Some (op, d, r) \<and> P (length d)"
  then obtain op where "GetOp2 s = (True, op, d, r)" "P (length d)" by (auto simp: read_Some)
  moreover obtain i where "s = i @ r" "GetOp2 i = (True, op, d, [])"
    by (rule GetOp2_is_instr [OF calculation(1)])
  ultimately show "\<exists>i. data_instr P i \<and> s = i @ r \<and> d = pushed i"
    by (intro exI [of _ i]) (auto simp: data_instr_def pushed_def)
qed

lemma match_exact:
  assumes "OP_PUSHDATA4 < op" "op < 0xf9"
  shows "match_template s (of_nat op # t) sols = Some r \<longleftrightarrow> (\<exists>s'. s = of_nat op # s' \<and> match_template s' t sols = Some r)"
proof -
  have m: "match_op o1 v1 op [] sols = (if o1 = op \<and> v1 = [] then Some sols else None)" for o1 v1
    using assms by (auto simp: match_op_def)
  have "match_template s (of_nat op # t) sols = Some r \<longleftrightarrow>
      (\<exists>o1 v1 r1. (read s = Some (o1, v1, r1) \<and> o1 = op \<and> v1 = []) \<and> match_template r1 t sols = Some r)"
    using assms by (subst match_template_op) (auto simp: m split: option.splits prod.splits if_splits)
  also have "\<dots> \<longleftrightarrow> (\<exists>s'. s = of_nat op # s' \<and> match_template s' t sols = Some r)"
    using assms by (subst read_exact) auto
  finally show ?thesis .
qed

lemma match_data:
  assumes "op \<in> {OP_PUBKEY, OP_PUBKEYHASH, OP_SMALLDATA}"
  defines "P \<equiv> (\<lambda>n. if op = OP_PUBKEY then 33 \<le> n \<and> n \<le> 120 else if op = OP_PUBKEYHASH then n = 20 else n \<le> 40)"
  shows "match_template s (of_nat op # t) sols = Some r \<longleftrightarrow>
    (\<exists>i s'. data_instr P i \<and> s = i @ s' \<and>
       match_template s' t (if op = OP_SMALLDATA then sols else sols @ [pushed i]) = Some r)"
proof -
  have op: "OP_PUSHDATA4 < op" "op < 256" "op \<noteq> OP_PUBKEYS" using assms(1) by auto
  have m: "match_op o1 v1 op [] sols =
      (if P (length v1) then Some (if op = OP_SMALLDATA then sols else sols @ [v1]) else None)" for o1 v1
    using assms(1) by (auto simp: match_op_def P_def MAX_OP_RETURN_RELAY_def)
  have "match_template s (of_nat op # t) sols = Some r \<longleftrightarrow>
      (\<exists>v1 r1. (\<exists>o1. read s = Some (o1, v1, r1) \<and> P (length v1)) \<and>
         match_template r1 t (if op = OP_SMALLDATA then sols else sols @ [v1]) = Some r)"
    unfolding match_template_op [OF op] by (auto simp: m split: option.splits prod.splits if_splits)
  also have "\<dots> \<longleftrightarrow> (\<exists>i s'. data_instr P i \<and> s = i @ s' \<and>
       match_template s' t (if op = OP_SMALLDATA then sols else sols @ [pushed i]) = Some r)"
    unfolding data_instr_read [symmetric] by blast
  finally show ?thesis .
qed

lemma match_small:
  "match_template s (of_nat OP_SMALLINTEGER # t) sols = Some r \<longleftrightarrow>
    (\<exists>m s'. m \<le> 16 \<and> s = small_int_byte m # s' \<and> match_template s' t (sols @ [[of_nat m]]) = Some r)"
proof -
  have step: "match_template s (of_nat OP_SMALLINTEGER # t) sols =
    (case read s of None \<Rightarrow> None
     | Some (o1, v1, r1) \<Rightarrow>
         (case match_op o1 v1 OP_SMALLINTEGER [] sols of None \<Rightarrow> None | Some sols' \<Rightarrow> match_template r1 t sols'))"
    by (rule match_template_op) simp_all
  show ?thesis
  proof
    assume "match_template s (of_nat OP_SMALLINTEGER # t) sols = Some r"
    then obtain o1 v1 r1 sols' where *: "read s = Some (o1, v1, r1)"
      "match_op o1 v1 OP_SMALLINTEGER [] sols = Some sols'" "match_template r1 t sols' = Some r"
      unfolding step by (auto split: option.splits prod.splits)
    then show "\<exists>m s'. m \<le> 16 \<and> s = small_int_byte m # s' \<and> match_template s' t (sols @ [[of_nat m]]) = Some r"
      using match_small_int [OF *(2)] read_small_int_iff [OF *(1)] by blast
  next
    assume "\<exists>m s'. m \<le> 16 \<and> s = small_int_byte m # s' \<and> match_template s' t (sols @ [[of_nat m]]) = Some r"
    then show "match_template s (of_nat OP_SMALLINTEGER # t) sols = Some r"
      unfolding step using read_small_int match_small_int_enc by fastforce
  qed
qed

lemma match_keys_small:
  "match_template s (of_nat OP_PUBKEYS # of_nat OP_SMALLINTEGER # t) sols = Some r \<longleftrightarrow>
    (\<exists>ks m s'. list_all key_push ks \<and> m \<le> 16 \<and> s = concat ks @ small_int_byte m # s' \<and>
       match_template s' t (sols @ map pushed ks @ [[of_nat m]]) = Some r)"
proof -
  have step: "match_template s (of_nat OP_PUBKEYS # of_nat OP_SMALLINTEGER # t) sols =
    (case read s of None \<Rightarrow> None
     | Some (o1, v1, r1) \<Rightarrow>
         (case pubkeys_loop o1 v1 r1 sols of (o1, v1, r1, sols) \<Rightarrow>
            (case match_op o1 v1 OP_SMALLINTEGER [] sols of
               None \<Rightarrow> None | Some sols' \<Rightarrow> match_template r1 t sols')))"
    by (rule match_template_pubkeys) simp_all
  show ?thesis
  proof
    assume "match_template s (of_nat OP_PUBKEYS # of_nat OP_SMALLINTEGER # t) sols = Some r"
    then obtain o1 v1 r1 o2 v2 r2 sols2 sols' where *: "read s = Some (o1, v1, r1)"
      "pubkeys_loop o1 v1 r1 sols = (o2, v2, r2, sols2)"
      "match_op o2 v2 OP_SMALLINTEGER [] sols2 = Some sols'" "match_template r2 t sols' = Some r"
      unfolding step by (auto split: option.splits prod.splits)
    obtain m where m: "m \<le> 16" "o2 = (if m = 0 then OP_0 else OP_1 + m - 1)" "sols' = sols2 @ [[of_nat m]]"
      using match_small_int [OF *(3)] by blast
    then have "o2 \<noteq> OP_INVALIDOPCODE" by simp
    with pubkeys_loop_sound [OF *(1,2)] obtain ks j where ks: "s = concat ks @ j" "list_all key_push ks"
      "sols2 = sols @ map pushed ks" "read j = Some (o2, v2, r2)" by blast
    then show "\<exists>ks m s'. list_all key_push ks \<and> m \<le> 16 \<and> s = concat ks @ small_int_byte m # s' \<and>
       match_template s' t (sols @ map pushed ks @ [[of_nat m]]) = Some r"
      using read_small_int_iff [OF ks(4) m(2,1)] m *(4) by (intro exI [of _ ks] exI [of _ m] exI [of _ r2]) simp
  next
    assume "\<exists>ks m s'. list_all key_push ks \<and> m \<le> 16 \<and> s = concat ks @ small_int_byte m # s' \<and>
       match_template s' t (sols @ map pushed ks @ [[of_nat m]]) = Some r"
    then obtain ks m s' where ks: "list_all key_push ks" "m \<le> 16" "s = concat ks @ small_int_byte m # s'"
      "match_template s' t (sols @ map pushed ks @ [[of_nat m]]) = Some r" by blast
    note j = read_small_int [OF ks(2), of s']
    have "read s \<noteq> None" unfolding ks(3)
      using j key_push_append ks(1) by (cases ks) fastforce+
    then obtain o1 v1 r1 where r: "read s = Some (o1, v1, r1)" by auto
    have "pubkeys_loop o1 v1 r1 sols =
        ((if m = 0 then OP_0 else OP_1 + m - 1), [], s', sols @ map pushed ks)"
      by (rule pubkeys_loop_complete [OF ks(1) j]) (use r ks(3) in simp_all)
    then show "match_template s (of_nat OP_PUBKEYS # of_nat OP_SMALLINTEGER # t) sols = Some r"
      unfolding step r using ks(4) match_small_int_enc [OF ks(2)] by simp
  qed
qed

text \<open>The scripts of a type, with the data that \<open>Solver\<close> extracts from them.\<close>

definition type_shape :: "txnouttype \<Rightarrow> script \<Rightarrow> valtype list \<Rightarrow> bool" where
  "type_shape t s sols =
     (case t of
        TX_NONSTANDARD \<Rightarrow> False
      | TX_PUBKEY \<Rightarrow> (\<exists>i. key_push i \<and> s = i @ [of_nat OP_CHECKSIG] \<and> sols = [pushed i])
      | TX_PUBKEYHASH \<Rightarrow>
          (\<exists>i. data_instr (\<lambda>n. n = 20) i \<and> sols = [pushed i]
             \<and> s = [of_nat OP_DUP, of_nat OP_HASH160] @ i @ [of_nat OP_EQUALVERIFY, of_nat OP_CHECKSIG])
      | TX_SCRIPTHASH \<Rightarrow>
          (\<exists>h. length h = 20 \<and> s = [of_nat OP_HASH160, 20] @ h @ [of_nat OP_EQUAL] \<and> sols = [h])
      | TX_MULTISIG \<Rightarrow>
          (\<exists>m ks. list_all key_push ks \<and> 1 \<le> m \<and> m \<le> length ks \<and> length ks \<le> 16
             \<and> s = small_int_byte m # concat ks @ [small_int_byte (length ks), of_nat OP_CHECKMULTISIG]
             \<and> sols = [of_nat m] # map pushed ks @ [[of_nat (length ks)]])
      | TX_NULL_DATA \<Rightarrow>
          sols = [] \<and> (s = [of_nat OP_RETURN] \<or> (\<exists>i. data_instr (\<lambda>n. n \<le> 40) i \<and> s = of_nat OP_RETURN # i)))"

lemma template_1:
  "match_template s (of_nat OP_PUBKEY # of_nat OP_CHECKSIG # []) [] = Some r \<longleftrightarrow> type_shape TX_PUBKEY s r"
  by (subst match_data, simp, subst match_exact) (auto simp: match_template_end type_shape_def key_push_data)

lemma template_2:
  "match_template s [of_nat OP_DUP, of_nat OP_HASH160, of_nat OP_PUBKEYHASH, of_nat OP_EQUALVERIFY, of_nat OP_CHECKSIG] []
     = Some r \<longleftrightarrow> type_shape TX_PUBKEYHASH s r"
proof -
  have 1: "match_template s1 [of_nat OP_EQUALVERIFY, of_nat OP_CHECKSIG] sols = Some r \<longleftrightarrow>
      s1 = [of_nat OP_EQUALVERIFY, of_nat OP_CHECKSIG] \<and> r = sols" for s1 sols
    by (subst match_exact, simp, simp, subst match_exact) (auto simp: match_template_end)
  have 2: "match_template s1 (of_nat OP_PUBKEYHASH # of_nat OP_EQUALVERIFY # of_nat OP_CHECKSIG # []) [] = Some r \<longleftrightarrow>
      (\<exists>i. data_instr (\<lambda>n. n = 20) i \<and> s1 = i @ [of_nat OP_EQUALVERIFY, of_nat OP_CHECKSIG] \<and> r = [pushed i])" for s1
    by (subst match_data, simp) (auto simp: 1 [simplified])
  show ?thesis
    by (subst match_exact, simp, simp, subst match_exact, simp, simp) (auto simp: 2 [simplified] type_shape_def)
qed

lemma template_3:
  "match_template s [of_nat OP_SMALLINTEGER, of_nat OP_PUBKEYS, of_nat OP_SMALLINTEGER, of_nat OP_CHECKMULTISIG] []
     = Some r \<longleftrightarrow>
   (\<exists>m ks n. m \<le> 16 \<and> n \<le> 16 \<and> list_all key_push ks
      \<and> s = small_int_byte m # concat ks @ [small_int_byte n, of_nat OP_CHECKMULTISIG]
      \<and> r = [of_nat m] # map pushed ks @ [[of_nat n]])"
proof -
  have 1: "match_template s1 [of_nat OP_CHECKMULTISIG] sols = Some r \<longleftrightarrow> s1 = [of_nat OP_CHECKMULTISIG] \<and> r = sols"
    for s1 sols by (subst match_exact) (auto simp: match_template_end)
  show ?thesis unfolding match_small match_keys_small 1 by auto
qed

lemma template_4:
  "match_template s [of_nat OP_RETURN, of_nat OP_SMALLDATA] [] = Some r \<longleftrightarrow>
   r = [] \<and> (\<exists>i. data_instr (\<lambda>n. n \<le> 40) i \<and> s = of_nat OP_RETURN # i)"
  by (subst match_exact, simp, simp, subst match_data, simp) (auto simp: match_template_end)

lemma template_5: "match_template s [of_nat OP_RETURN] [] = Some r \<longleftrightarrow> r = [] \<and> s = [of_nat OP_RETURN]"
  by (subst match_exact) (auto simp: match_template_end)

lemma script_hash_shape: "IsPayToScriptHash s \<longleftrightarrow> (\<exists>h. type_shape TX_SCRIPTHASH s [h])"
proof
  assume p: "IsPayToScriptHash s"
  then have len: "length s = 23" by (simp add: IsPayToScriptHash_def)
  have b: "s ! 0 = of_nat OP_HASH160" "s ! 1 = 20" "s ! 22 = of_nat OP_EQUAL"
    using p by (auto simp: IsPayToScriptHash_def dest!: byte_eq_of_nat)
  have "s = s ! 0 # s ! 1 # take 20 (drop 2 s) @ [s ! 22]"
    using len by (auto simp: list_eq_iff_nth_eq nth_append nth_Cons' less_Suc_eq numeral_eq_Suc)
  then show "\<exists>h. type_shape TX_SCRIPTHASH s [h]"
    using len b by (intro exI [of _ "take 20 (drop 2 s)"]) (simp add: type_shape_def)
qed (auto simp: type_shape_def IsPayToScriptHash_def nth_append)

subsection \<open>The types exclude each other\<close>

text \<open>A script of a template type begins and ends with bytes that tell the type.\<close>

lemma data_instr_hd:
  "data_instr P i \<Longrightarrow> \<not> P 0 \<Longrightarrow> i \<noteq> [] \<and> unat (hd i) \<le> OP_PUSHDATA4"
proof -
  assume "data_instr P i" "\<not> P 0"
  then obtain op d where "GetOp2 i = (True, op, d, [])" "P (length d)" by (auto simp: data_instr_def)
  moreover have "d \<noteq> []" using calculation(2) \<open>\<not> P 0\<close> by (cases d) auto
  ultimately have g: "GetOp2 i = (True, op, d, [])" "d \<noteq> []" by blast+
  then show ?thesis by (cases i) (auto simp: GetOp2_def Let_def split: if_splits)
qed

lemma unat_small_int_byte: "m \<le> 16 \<Longrightarrow> unat (small_int_byte m) = (if m = 0 then 0 else 80 + m)"
  by (simp add: small_int_byte_def unat_of_nat)

lemma shape_hd:
  "type_shape TX_PUBKEY s sols \<Longrightarrow> s \<noteq> [] \<and> unat (hd s) \<le> OP_PUSHDATA4 \<and> last s = of_nat OP_CHECKSIG"
  "type_shape TX_PUBKEYHASH s sols \<Longrightarrow> s \<noteq> [] \<and> unat (hd s) = OP_DUP \<and> last s = of_nat OP_CHECKSIG"
  "type_shape TX_SCRIPTHASH s sols \<Longrightarrow> s \<noteq> [] \<and> unat (hd s) = OP_HASH160 \<and> last s = of_nat OP_EQUAL"
  "type_shape TX_MULTISIG s sols \<Longrightarrow> s \<noteq> [] \<and> unat (hd s) \<noteq> OP_RETURN \<and> last s = of_nat OP_CHECKMULTISIG"
  "type_shape TX_NULL_DATA s sols \<Longrightarrow> s \<noteq> [] \<and> unat (hd s) = OP_RETURN"
proof -
  show "type_shape TX_PUBKEY s sols \<Longrightarrow> s \<noteq> [] \<and> unat (hd s) \<le> OP_PUSHDATA4 \<and> last s = of_nat OP_CHECKSIG"
    unfolding type_shape_def key_push_data using data_instr_hd [of "\<lambda>n. 33 \<le> n \<and> n \<le> 120"] by auto
  show "type_shape TX_MULTISIG s sols \<Longrightarrow> s \<noteq> [] \<and> unat (hd s) \<noteq> OP_RETURN \<and> last s = of_nat OP_CHECKMULTISIG"
    by (auto simp: type_shape_def unat_small_int_byte)
qed (auto simp: type_shape_def)

lemma shape_unique: "type_shape t s sols \<Longrightarrow> type_shape t' s sols' \<Longrightarrow> t = t'"
  using shape_hd [of s sols] shape_hd [of s sols']
  by (cases t; cases t'; simp add: type_shape_def [of TX_NONSTANDARD])

lemma multisig_shape:
  "m \<le> 16 \<Longrightarrow> n \<le> 16 \<Longrightarrow> multisig_ok ([of_nat m] # map pushed ks @ [[of_nat n]]) \<longleftrightarrow>
     1 \<le> m \<and> m \<le> n \<and> n = length ks"
  by (auto simp: multisig_ok_def Let_def word_less_nat_alt unat_of_nat)

text \<open>What each of the five templates has left to exclude.\<close>

lemma template_3_hd:
  "match_template s [of_nat OP_SMALLINTEGER, of_nat OP_PUBKEYS, of_nat OP_SMALLINTEGER, of_nat OP_CHECKMULTISIG] []
     = Some r \<Longrightarrow> s \<noteq> [] \<and> unat (hd s) \<noteq> OP_RETURN \<and> last s = of_nat OP_CHECKMULTISIG"
  unfolding template_3 by (auto simp: unat_small_int_byte split: if_splits)

lemma template_3_ok:
  "match_template s [of_nat OP_SMALLINTEGER, of_nat OP_PUBKEYS, of_nat OP_SMALLINTEGER, of_nat OP_CHECKMULTISIG] []
     = Some r \<and> multisig_ok r \<longleftrightarrow> type_shape TX_MULTISIG s r"
proof
  assume "type_shape TX_MULTISIG s r"
  then obtain m ks where *: "list_all key_push ks" "1 \<le> m" "m \<le> length ks" "length ks \<le> 16"
      "s = small_int_byte m # concat ks @ [small_int_byte (length ks), of_nat OP_CHECKMULTISIG]"
      "r = [of_nat m] # map pushed ks @ [[of_nat (length ks)]]"
    by (auto simp: type_shape_def)
  then have "multisig_ok r" using multisig_shape [of m "length ks" ks] by simp
  moreover have "m \<le> 16" using * by linarith
  ultimately show "match_template s [of_nat OP_SMALLINTEGER, of_nat OP_PUBKEYS, of_nat OP_SMALLINTEGER,
      of_nat OP_CHECKMULTISIG] [] = Some r \<and> multisig_ok r"
    unfolding template_3 using * by blast
qed (unfold template_3, use multisig_shape in \<open>fastforce simp: type_shape_def\<close>)

lemma scan_true:
  assumes "ts = (ty, tmpl) # ts'"
  shows "scan_templates ts s = (True, t, sols) \<longleftrightarrow>
    (t = ty \<and> match_template s tmpl [] = Some sols \<and> (ty = TX_MULTISIG \<longrightarrow> multisig_ok sols))
    \<or> ((\<forall>r. match_template s tmpl [] \<noteq> Some r) \<and> scan_templates ts' s = (True, t, sols))"
  unfolding assms by (auto split: option.splits)

lemma templates:
  "scan_templates mTemplates s = (True, t, sols) \<longleftrightarrow> t \<noteq> TX_SCRIPTHASH \<and> type_shape t s sols"
proof -
  note shapes = template_1 [of s, simplified] template_2 [of s, simplified] template_4 [of s, simplified]
    template_5 [of s, simplified]
  note hd3 = template_3_hd [of s, simplified] and ok3 = template_3_ok [of s, simplified]
  have null: "type_shape TX_NULL_DATA s sols \<longleftrightarrow> sols = [] \<and>
      ((\<exists>i. data_instr (\<lambda>n. n \<le> 40) i \<and> s = 0x6a # i) \<or> s = [0x6a])" for sols
    by (auto simp: type_shape_def)
  have ret: "type_shape t s sols \<Longrightarrow> t \<noteq> TX_NULL_DATA \<Longrightarrow> s \<noteq> [] \<and> unat (hd s) \<noteq> OP_RETURN" for t sols
    using shape_hd [of s sols] by (cases t) (auto simp: type_shape_def)
  have 3: "type_shape TX_NULL_DATA s sols \<Longrightarrow> match_template s [0xfa, 0xfb, 0xfa, 0xae] [] = None" for sols
    using hd3 shape_hd(5) [of s sols] by (cases "match_template s [0xfa, 0xfb, 0xfa, 0xae] []") auto
  have x: "type_shape t s sols \<Longrightarrow> t \<noteq> t' \<Longrightarrow> \<not> type_shape t' s r" for t t' sols r
    using shape_unique by blast
  have "scan_templates mTemplates s = (True, t, sols) \<longleftrightarrow>
      (t = TX_PUBKEY \<and> type_shape t s sols) \<or> (t = TX_PUBKEYHASH \<and> type_shape t s sols)
      \<or> (t = TX_MULTISIG \<and> type_shape t s sols) \<or> (t = TX_NULL_DATA \<and> type_shape t s sols)" (is "?L \<longleftrightarrow> ?R")
  proof -
    have L: "?L \<longleftrightarrow>
       (t = TX_PUBKEY \<and> type_shape TX_PUBKEY s sols) \<or> ((\<forall>r. \<not> type_shape TX_PUBKEY s r) \<and>
       ((t = TX_PUBKEYHASH \<and> type_shape TX_PUBKEYHASH s sols) \<or> ((\<forall>r. \<not> type_shape TX_PUBKEYHASH s r) \<and>
       ((t = TX_MULTISIG \<and> type_shape TX_MULTISIG s sols)
        \<or> ((\<forall>r. match_template s [0xfa, 0xfb, 0xfa, 0xae] [] \<noteq> Some r) \<and> t = TX_NULL_DATA \<and> type_shape TX_NULL_DATA s sols)))))"
      by (simp add: mTemplates_def push_opcode_def scan_true [OF refl] shapes del: scan_templates.simps(2))
        (cases t; simp add: null ok3 [symmetric]; blast)
    show ?thesis unfolding L using x [of t sols TX_PUBKEY] x [of t sols TX_PUBKEYHASH] 3
      by (cases t) (simp_all, blast+)
  qed
  then show ?thesis by (cases t) (simp_all add: type_shape_def [of TX_NONSTANDARD])
qed

lemma Solver_True: "Solver s = (True, t, sols) \<longleftrightarrow> type_shape t s sols"
proof (cases "IsPayToScriptHash s")
  case True
  then obtain h where h: "type_shape TX_SCRIPTHASH s [h]" using script_hash_shape by blast
  then have len: "length h = 20" "s = [of_nat OP_HASH160, 20] @ h @ [of_nat OP_EQUAL]" by (auto simp: type_shape_def)
  then have S: "Solver s = (True, TX_SCRIPTHASH, [h])" using True by (simp add: Solver_def)
  have "type_shape TX_SCRIPTHASH s sols \<Longrightarrow> sols = [h]"
    using len by (auto simp: type_shape_def [of TX_SCRIPTHASH])
  then have "type_shape t s sols \<longleftrightarrow> t = TX_SCRIPTHASH \<and> sols = [h]"
    using shape_unique [OF h, of t sols] h by blast
  then show ?thesis unfolding S by auto
next
  case False
  then have "\<not> type_shape TX_SCRIPTHASH s sols" for sols
    using script_hash_shape by (auto simp: type_shape_def)
  then show ?thesis using False templates [of s t sols] by (cases t) (auto simp: Solver_def)
qed

lemma Solver_False: "\<not> fst (Solver s) \<longleftrightarrow> (\<forall>t sols. \<not> type_shape t s sols)"
  unfolding Solver_True [symmetric] by (cases "Solver s") auto

lemma shape_sols_unique: "type_shape t s sols \<Longrightarrow> type_shape t' s sols' \<Longrightarrow> t = t' \<and> sols = sols'"
  unfolding Solver_True [symmetric] by simp

lemma shape_multisig_first_last:
  assumes "type_shape TX_MULTISIG s sols"
  obtains m where "3 \<le> length sols" "length sols \<le> 18" "1 \<le> m" "m \<le> length sols - 2" "hd sols = [of_nat m]"
    "last sols = [of_nat (length sols - 2)]"
proof -
  from assms obtain m ks where "1 \<le> m" "m \<le> length ks" "length ks \<le> 16"
    "sols = [of_nat m] # map pushed ks @ [[of_nat (length ks)]]" by (auto simp: type_shape_def)
  then show thesis by (intro that [of m]) auto
qed

lemma IsStandard_True: "IsStandard s = (True, t) \<longleftrightarrow> (\<exists>sols. type_shape t s sols \<and> length sols \<le> 5)"
proof (cases "fst (Solver s)")
  case False
  then show ?thesis using Solver_False [of s] by (cases "Solver s") (auto simp: IsStandard_def)
next
  case True
  then obtain t' sols where S: "Solver s = (True, t', sols)" by (cases "Solver s") auto
  then have sh: "type_shape t' s sols" by (simp add: Solver_True)
  have std: "t' \<noteq> TX_NONSTANDARD" using sh by (auto simp: type_shape_def)
  have R: "(\<exists>sols. type_shape t s sols \<and> length sols \<le> 5) \<longleftrightarrow> t = t' \<and> length sols \<le> 5"
    using shape_sols_unique [OF sh] sh by blast
  show ?thesis
  proof (cases "t' = TX_MULTISIG")
    case False
    then have "length sols \<le> 5" using sh by (cases t') (auto simp: type_shape_def)
    then show ?thesis unfolding R using S std False by (auto simp: IsStandard_def)
  next
    case True
    with sh obtain m where m: "3 \<le> length sols" "length sols \<le> 18" "1 \<le> m" "m \<le> length sols - 2"
      "hd sols = [of_nat m]" "last sols = [of_nat (length sols - 2)]" using shape_multisig_first_last by blast
    define k where "k = length sols - 2"
    have len: "length sols = k + 2" "k \<le> 16" "m \<le> k" using m by (auto simp: k_def)
    then have "unat (of_nat k :: byte) = k" "unat (of_nat m :: byte) = m" by (simp_all add: unat_of_nat)
    moreover have "last sols ! 0 = of_nat k" "hd sols ! 0 = of_nat m" using m by (simp_all only: k_def nth_Cons_0)
    ultimately have "(let m = hd sols ! 0; n = last sols ! 0 in n < 1 \<or> n > 3 \<or> m < 1 \<or> m > n) \<longleftrightarrow> length sols > 5"
      using m(3) len by (auto simp: Let_def word_less_nat_alt)
    then show ?thesis unfolding R using S True std by (auto simp: IsStandard_def)
  qed
qed

lemma ScriptSigArgsExpected_multisig:
  assumes "type_shape TX_MULTISIG s sols"
  shows "\<exists>m. 1 \<le> m \<and> m \<le> length sols - 2 \<and> hd sols = [of_nat m] \<and>
     ScriptSigArgsExpected TX_MULTISIG sols = int m + 1"
proof -
  obtain m where m: "3 \<le> length sols" "length sols \<le> 18" "1 \<le> m" "m \<le> length sols - 2" "hd sols = [of_nat m]"
    using shape_multisig_first_last [OF assms] by blast
  have "sols ! 0 = [of_nat m]" using m by (cases sols) auto
  moreover have "uint (of_nat m :: byte) = int m" using m by (simp add: uint_nat unat_of_nat)
  ultimately show ?thesis using m by (intro exI [of _ m]) (simp add: ScriptSigArgsExpected_def, auto)
qed

text \<open>
  C30. \<open>Solver\<close> recognises exactly the output scripts of the six types and returns their data: a key
  push and \<open>OP_CHECKSIG\<close>; the public key hash form with any push of 20 bytes; the script hash form
  with the direct push only; \<open>m\<close> of \<open>n\<close> keys with \<open>1 \<le> m \<le> n \<le> 16\<close> and the right count; or
  \<open>OP_RETURN\<close> with at most one instruction, of at most 40 bytes of data. \<open>IsStandard\<close> accepts those
  with at most three keys.
\<close>

theorem Solver_recognises:
  "(Solver s = (True, t, sols) \<longleftrightarrow> type_shape t s sols) \<and>
   (IsStandard s = (True, t) \<longleftrightarrow> (\<exists>sols. type_shape t s sols \<and> length sols \<le> 5))"
  using Solver_True IsStandard_True by blast

end
