(* ===== verification/Script_Dest.thy ===== *)
theory Script_Dest imports Script_Solve begin

text \<open>
  Destinations (\<open>CTxDestination\<close> of \<open>src/src/script.h\<close>) and the scripts that pay to them
  (\<open>src/src/script.cpp\<close>): \<open>ExtractDestination\<close>, \<open>ExtractDestinations\<close>, \<open>CScriptVisitor\<close>,
  \<open>GetScriptForDestination\<close>, \<open>SetMultisig\<close> and \<open>GetScriptForMultisig\<close>. \<open>H\<close> stands for \<open>Hash160\<close>,
  which calls OpenSSL; a \<open>uint160\<close> is its 20 bytes in memory order.
\<close>

subsection \<open>Public keys and destinations\<close>

text \<open>A \<open>CPubKey\<close>: its bytes, or \<open>None\<close> when it is invalid and \<open>begin () = end ()\<close>.\<close>

type_synonym CPubKey = "bytes option"

definition CPubKey_bytes :: "CPubKey \<Rightarrow> bytes" where
  "CPubKey_bytes k = (case k of None \<Rightarrow> [] | Some b \<Rightarrow> b)"

definition CPubKey_GetID :: "(bytes \<Rightarrow> bytes) \<Rightarrow> CPubKey \<Rightarrow> bytes" where
  "CPubKey_GetID H k = H (CPubKey_bytes k)"

definition uint160_of :: "bytes \<Rightarrow> bytes" where
  "uint160_of vch = (if length vch = 20 then vch else replicate 20 0)"

record CStealthAddress =
  options :: byte
  scan_pubkey :: bytes
  spend_pubkey :: bytes
  number_signatures :: nat
  prefix_number_bits :: byte
  prefix_bitfield :: "32 word"
  scan_secret :: bytes
  spend_secret :: bytes

datatype CTxDestination =
    CNoDestination
  | CKeyID bytes
  | CScriptID bytes
  | CStealthAddress CStealthAddress

definition ExtractDestination :: "(bytes \<Rightarrow> bytes) \<Rightarrow> script \<Rightarrow> CTxDestination option" where
  "ExtractDestination H pubkey_script =
     (case Solver pubkey_script of (ok, whichType, sols) \<Rightarrow>
        if \<not> ok then None
        else if whichType = TX_PUBKEY then Some (CKeyID (CPubKey_GetID H (CPubKey_Set (sols ! 0))))
        else if whichType = TX_PUBKEYHASH then Some (CKeyID (uint160_of (sols ! 0)))
        else if whichType = TX_SCRIPTHASH then Some (CScriptID (uint160_of (sols ! 0)))
        else None)"

text \<open>The result, and the three reference parameters; \<open>nRequired\<close> is the number's old value.\<close>

definition ExtractDestinations ::
  "(bytes \<Rightarrow> bytes) \<Rightarrow> script \<Rightarrow> int \<Rightarrow> bool \<times> txnouttype \<times> CTxDestination list \<times> int" where
  "ExtractDestinations H pubkey_script nRequired =
     (case Solver pubkey_script of (ok, type, sols) \<Rightarrow>
        if \<not> ok then (False, type, [], nRequired)
        else if type = TX_NULL_DATA then (False, type, [], nRequired)
        else if type = TX_MULTISIG then
          (True, type, map (\<lambda>i. CKeyID (CPubKey_GetID H (CPubKey_Set (sols ! i)))) [1..<length sols - 1],
           uint (hd sols ! 0))
        else (case ExtractDestination H pubkey_script of
            None \<Rightarrow> (False, type, [], 1)
          | Some address \<Rightarrow> (True, type, [address], 1)))"

subsection \<open>Building scripts\<close>

definition push_uint160 :: "bytes \<Rightarrow> bytes" where
  "push_uint160 b = of_nat (length b) # b"

text \<open>\<open>None\<close> is the failed \<open>assert\<close> on the size.\<close>

definition push_pubkey :: "CPubKey \<Rightarrow> bytes option" where
  "push_pubkey key =
     (let b = CPubKey_bytes key
      in if length b < OP_PUSHDATA1 then Some (of_nat (length b) # b) else None)"

text \<open>The visitor: its result and the script it leaves.\<close>

definition CScriptVisitor :: "CTxDestination \<Rightarrow> bool \<times> script" where
  "CScriptVisitor dest =
     (case dest of
        CNoDestination \<Rightarrow> (False, [])
      | CKeyID keyID \<Rightarrow>
          (True, push_opcode OP_DUP @ push_opcode OP_HASH160 @ push_uint160 keyID
             @ push_opcode OP_EQUALVERIFY @ push_opcode OP_CHECKSIG)
      | CScriptID scriptID \<Rightarrow> (True, push_opcode OP_HASH160 @ push_uint160 scriptID @ push_opcode OP_EQUAL)
      | CStealthAddress stxAddr \<Rightarrow> (False, []))"

definition SetDestination :: "CTxDestination \<Rightarrow> script" where
  "SetDestination dest = snd (CScriptVisitor dest)"

definition GetScriptForDestination :: "CTxDestination \<Rightarrow> script" where
  "GetScriptForDestination dest = snd (CScriptVisitor dest)"

fun push_pubkeys :: "CPubKey list \<Rightarrow> bytes option" where
  "push_pubkeys [] = Some []"
| "push_pubkeys (key # keys) =
     (case push_pubkey key of None \<Rightarrow> None
      | Some b \<Rightarrow> map_option (\<lambda>bs. b @ bs) (push_pubkeys keys))"

text \<open>The two builders of a multisig script; \<open>None\<close> is a failed \<open>assert\<close>.\<close>

definition SetMultisig :: "int \<Rightarrow> CPubKey list \<Rightarrow> script option" where
  "SetMultisig nRequired keys =
     (case EncodeOP_N nRequired of None \<Rightarrow> None
      | Some m \<Rightarrow>
          (case push_pubkeys keys of None \<Rightarrow> None
           | Some bs \<Rightarrow>
               (case EncodeOP_N (int (length keys)) of None \<Rightarrow> None
                | Some n \<Rightarrow>
                    Some (push_opcode m @ bs @ push_opcode n @ push_opcode OP_CHECKMULTISIG))))"

definition GetScriptForMultisig :: "int \<Rightarrow> CPubKey list \<Rightarrow> script option" where
  "GetScriptForMultisig nRequired keys =
     (case EncodeOP_N nRequired of None \<Rightarrow> None
      | Some m \<Rightarrow>
          (case EncodeOP_N (int (length keys)) of None \<Rightarrow> None
           | Some n \<Rightarrow>
               Some (push_opcode m @ concat (map (\<lambda>key. push_data (CPubKey_bytes key)) keys)
                 @ push_opcode n @ push_opcode OP_CHECKMULTISIG)))"

subsection \<open>What is built is recognised\<close>

lemma push_data_instr:
  "length d < 2 ^ 32 \<Longrightarrow> P (length d) \<Longrightarrow> data_instr P (push_data d) \<and> pushed (push_data d) = d"
  using GetOp2_push_data [of d "[]"] by (simp add: data_instr_def pushed_def)

lemma push_uint160_data: "length h = 20 \<Longrightarrow> push_uint160 h = push_data h"
  by (simp add: push_uint160_def push_data_def)

lemma push_pubkey_data: "length (CPubKey_bytes k) \<le> 65 \<Longrightarrow> push_pubkey k = Some (push_data (CPubKey_bytes k))"
  by (simp add: push_pubkey_def push_data_def Let_def)

lemma shape_CKeyID: "length h = 20 \<Longrightarrow> type_shape TX_PUBKEYHASH (GetScriptForDestination (CKeyID h)) [h]"
  using push_data_instr [of h "\<lambda>n. n = 20"]
  by (auto simp: GetScriptForDestination_def CScriptVisitor_def push_uint160_data push_opcode_def type_shape_def
      intro!: exI [of _ "push_data h"])

lemma shape_CScriptID: "length h = 20 \<Longrightarrow> type_shape TX_SCRIPTHASH (GetScriptForDestination (CScriptID h)) [h]"
  by (simp add: GetScriptForDestination_def CScriptVisitor_def push_uint160_def push_opcode_def type_shape_def)

lemma ExtractDestination_shape:
  "type_shape t s sols \<Longrightarrow> ExtractDestination H s =
     (case t of TX_PUBKEY \<Rightarrow> Some (CKeyID (CPubKey_GetID H (CPubKey_Set (sols ! 0))))
      | TX_PUBKEYHASH \<Rightarrow> Some (CKeyID (uint160_of (sols ! 0)))
      | TX_SCRIPTHASH \<Rightarrow> Some (CScriptID (uint160_of (sols ! 0))) | _ \<Rightarrow> None)"
  by (cases t) (auto simp: ExtractDestination_def Solver_True [symmetric])

lemma ExtractDestination_None: "\<not> fst (Solver s) \<Longrightarrow> ExtractDestination H s = None"
  by (cases "Solver s") (simp add: ExtractDestination_def)

lemma GetScriptForMultisig_shape:
  assumes "1 \<le> m" "m \<le> length keys" "length keys \<le> 16"
    and "list_all (\<lambda>k. 33 \<le> length (CPubKey_bytes k) \<and> length (CPubKey_bytes k) \<le> 65) keys"
  obtains s where "GetScriptForMultisig (int m) keys = Some s"
    "type_shape TX_MULTISIG s ([of_nat m] # map CPubKey_bytes keys @ [[of_nat (length keys)]])"
proof -
  let ?ks = "map (\<lambda>k. push_data (CPubKey_bytes k)) keys"
  have ks: "list_all key_push ?ks" "map pushed ?ks = map CPubKey_bytes keys"
    using assms(4) push_data_instr [of "CPubKey_bytes k" "\<lambda>n. 33 \<le> n \<and> n \<le> 120" for k]
    by (auto simp: list_all_iff key_push_data)
  have enc: "EncodeOP_N (int i) = Some (OP_1 + i - 1)" "push_opcode (OP_1 + i - 1) = [small_int_byte i]"
    if "1 \<le> i" "i \<le> 16" for i
    using that by (simp_all add: EncodeOP_N_def push_opcode_def small_int_byte_def)
  have m: "1 \<le> m" "m \<le> 16" and n: "1 \<le> length keys" "length keys \<le> 16" using assms by auto
  define s where "s = small_int_byte m # concat ?ks @ [small_int_byte (length keys), of_nat OP_CHECKMULTISIG]"
  show thesis
  proof (rule that [of s])
    show "GetScriptForMultisig (int m) keys = Some s"
      unfolding GetScriptForMultisig_def enc(1) [OF m] enc(1) [OF n] option.case enc(2) [OF m] enc(2) [OF n]
      by (simp add: s_def push_opcode_def)
    show "type_shape TX_MULTISIG s ([of_nat m] # map CPubKey_bytes keys @ [[of_nat (length keys)]])"
      unfolding type_shape_def s_def using ks assms by (auto intro!: exI [of _ m] exI [of _ ?ks])
  qed
qed

lemma SetMultisig_GetScriptForMultisig:
  assumes "list_all (\<lambda>k. length (CPubKey_bytes k) \<le> 65) keys"
  shows "SetMultisig n keys = GetScriptForMultisig n keys"
proof -
  have "push_pubkeys keys = Some (concat (map (\<lambda>key. push_data (CPubKey_bytes key)) keys))"
    using assms by (induction keys) (simp_all add: push_pubkey_data)
  then show ?thesis by (simp add: SetMultisig_def GetScriptForMultisig_def split: option.split)
qed

lemma CPubKey_Set_bytes: "CPubKey_Set b = Some b \<Longrightarrow> length b = 33 \<or> length b = 65"
  by (auto simp: CPubKey_Set_def CPubKey_GetLen_def Let_def split: if_splits)

text \<open>
  The script that pays to a key hash or a script hash is recognised as that destination again,
  and is standard.
\<close>

theorem GetScriptForDestination_roundtrip:
  assumes "length h = 20"
  shows "ExtractDestination H (GetScriptForDestination (CKeyID h)) = Some (CKeyID h)
    \<and> ExtractDestination H (GetScriptForDestination (CScriptID h)) = Some (CScriptID h)
    \<and> IsStandard (GetScriptForDestination (CKeyID h)) = (True, TX_PUBKEYHASH)
    \<and> IsStandard (GetScriptForDestination (CScriptID h)) = (True, TX_SCRIPTHASH)"
  using ExtractDestination_shape [OF shape_CKeyID [OF assms], of H] shape_CKeyID [OF assms]
    ExtractDestination_shape [OF shape_CScriptID [OF assms], of H] shape_CScriptID [OF assms] assms
  by (auto simp: uint160_of_def IsStandard_True intro!: exI [of _ "[h]"])

lemma GetScriptForDestination_roundtrip_witness:
  "ExtractDestination (\<lambda>_. []) (GetScriptForDestination (CKeyID (replicate 20 7))) = Some (CKeyID (replicate 20 7))"
  using GetScriptForDestination_roundtrip [of "replicate 20 7" "\<lambda>_. []"] by simp

text \<open>
  A multisig script of \<open>m\<close> out of at most 16 valid keys is solved with these numbers and keys,
  and \<open>ExtractDestinations\<close> returns the identifiers of the keys, in their order, and \<open>m\<close>; the two
  builders give the same script.
\<close>

theorem GetScriptForMultisig_roundtrip:
  assumes "1 \<le> m" "m \<le> length keys" "length keys \<le> 16" "\<forall>k \<in> set keys. CPubKey_Set k = Some k"
  shows "\<exists>s. GetScriptForMultisig (int m) (map Some keys) = Some s
    \<and> SetMultisig (int m) (map Some keys) = Some s
    \<and> Solver s = (True, TX_MULTISIG, [of_nat m] # keys @ [[of_nat (length keys)]])
    \<and> ExtractDestinations H s r = (True, TX_MULTISIG, map (\<lambda>k. CKeyID (H k)) keys, int m)
    \<and> ScriptSigArgsExpected TX_MULTISIG ([of_nat m] # keys @ [[of_nat (length keys)]]) = int m + 1"
proof -
  have len: "list_all (\<lambda>k. 33 \<le> length (CPubKey_bytes k) \<and> length (CPubKey_bytes k) \<le> 65) (map Some keys)"
    using assms(4) CPubKey_Set_bytes by (fastforce simp: list_all_iff CPubKey_bytes_def)
  have m: "1 \<le> m" "m \<le> length (map Some keys)" "length (map Some keys) \<le> 16" using assms by auto
  obtain s where s: "GetScriptForMultisig (int m) (map Some keys) = Some s"
    "type_shape TX_MULTISIG s ([of_nat m] # map CPubKey_bytes (map Some keys) @ [[of_nat (length (map Some keys))]])"
    using GetScriptForMultisig_shape [OF m len] by blast
  have S: "Solver s = (True, TX_MULTISIG, [of_nat m] # keys @ [[of_nat (length keys)]])"
    using s(2) by (simp add: Solver_True comp_def CPubKey_bytes_def)
  have u: "uint (of_nat m :: byte) = int m" using assms by (simp add: uint_nat unat_of_nat)
  have up: "[1..<length keys + 1] = map Suc [0..<length keys]" by (simp add: map_Suc_upt)
  have "map (\<lambda>i. CKeyID (CPubKey_GetID H (CPubKey_Set (([of_nat m] # keys @ [[of_nat (length keys)]]) ! i))))
      [1..<length keys + 1] = map (\<lambda>k. CKeyID (H k)) keys"
    using assms(4) unfolding up
    by (intro nth_equalityI) (auto simp: nth_append CPubKey_GetID_def CPubKey_bytes_def)
  then have "ExtractDestinations H s r = (True, TX_MULTISIG, map (\<lambda>k. CKeyID (H k)) keys, int m)"
    using S u by (simp add: ExtractDestinations_def)
  moreover have "SetMultisig (int m) (map Some keys) = Some s"
    using SetMultisig_GetScriptForMultisig [of "map Some keys" "int m"] len s(1) by (auto simp: list_all_iff)
  ultimately show ?thesis using s(1) S u by (simp add: ScriptSigArgsExpected_def)
qed

lemma GetScriptForMultisig_roundtrip_witness:
  "\<exists>s. GetScriptForMultisig 1 [Some (2 # replicate 32 1), Some (3 # replicate 32 1)] = Some s
    \<and> ExtractDestinations id s 0 = (True, TX_MULTISIG, [CKeyID (2 # replicate 32 1), CKeyID (3 # replicate 32 1)], 1)"
  using GetScriptForMultisig_roundtrip [of 1 "[2 # replicate 32 1, 3 # replicate 32 1]" id 0]
  by (auto simp: CPubKey_Set_def CPubKey_GetLen_def)

end
