(* ===== verification/Crypto_Common.thy ===== *)
theory Crypto_Common imports BSG_Prelude begin

text \<open>
  \<open>src/src/crypto/common.h\<close>: the little- and big-endian loads and stores. A pointer is the
  byte list that starts there; a store returns the bytes it writes. The accessors only read
  the first 4 (8) bytes, and every caller passes at least that many.
\<close>

unbundle bit_operations_syntax

definition ReadLE32 :: "bytes \<Rightarrow> u32" where
  "ReadLE32 p = (push_bit 24 (ucast (p ! 3)) OR push_bit 16 (ucast (p ! 2))
     OR push_bit 8 (ucast (p ! 1)) OR ucast (p ! 0))"

definition ReadBE32 :: "bytes \<Rightarrow> u32" where
  "ReadBE32 p = (push_bit 24 (ucast (p ! 0)) OR push_bit 16 (ucast (p ! 1))
     OR push_bit 8 (ucast (p ! 2)) OR ucast (p ! 3))"

definition WriteLE32 :: "u32 \<Rightarrow> bytes" where
  "WriteLE32 x = [ucast x, ucast (drop_bit 8 x), ucast (drop_bit 16 x), ucast (drop_bit 24 x)]"

definition WriteBE32 :: "u32 \<Rightarrow> bytes" where
  "WriteBE32 x = [ucast (drop_bit 24 x), ucast (drop_bit 16 x), ucast (drop_bit 8 x), ucast x]"

definition WriteLE64 :: "u64 \<Rightarrow> bytes" where
  "WriteLE64 x = [ucast x, ucast (drop_bit 8 x), ucast (drop_bit 16 x), ucast (drop_bit 24 x),
     ucast (drop_bit 32 x), ucast (drop_bit 40 x), ucast (drop_bit 48 x), ucast (drop_bit 56 x)]"

definition WriteBE64 :: "u64 \<Rightarrow> bytes" where
  "WriteBE64 x = [ucast (drop_bit 56 x), ucast (drop_bit 48 x), ucast (drop_bit 40 x),
     ucast (drop_bit 32 x), ucast (drop_bit 24 x), ucast (drop_bit 16 x), ucast (drop_bit 8 x),
     ucast x]"

definition ReadLE64 :: "bytes \<Rightarrow> u64" where
  "ReadLE64 p = (push_bit 56 (ucast (p ! 7)) OR push_bit 48 (ucast (p ! 6))
     OR push_bit 40 (ucast (p ! 5)) OR push_bit 32 (ucast (p ! 4))
     OR push_bit 24 (ucast (p ! 3)) OR push_bit 16 (ucast (p ! 2))
     OR push_bit 8 (ucast (p ! 1)) OR ucast (p ! 0))"

definition ReadBE64 :: "bytes \<Rightarrow> u64" where
  "ReadBE64 p = (push_bit 56 (ucast (p ! 0)) OR push_bit 48 (ucast (p ! 1))
     OR push_bit 40 (ucast (p ! 2)) OR push_bit 32 (ucast (p ! 3))
     OR push_bit 24 (ucast (p ! 4)) OR push_bit 16 (ucast (p ! 5))
     OR push_bit 8 (ucast (p ! 6)) OR ucast (p ! 7))"

lemma length_stores [len_simps, simp]:
  "length (WriteLE32 x) = 4" "length (WriteBE32 x) = 4"
  "length (WriteLE64 y) = 8" "length (WriteBE64 y) = 8"
  by (simp_all add: WriteLE32_def WriteBE32_def WriteLE64_def WriteBE64_def)

text \<open>
  What a store wrote, the matching load reads back, whatever bytes follow: adjacent bit
  fields of a word join.
\<close>

lemma ucast_ucast_byte:
  "ucast (ucast (y :: 'a::len word) :: byte) = (take_bit 8 y :: 'a word)" if "8 \<le> LENGTH('a)"
  using that by (intro bit_word_eqI) (auto simp: bit_simps)

lemma join_fields:
  "push_bit n (take_bit m (drop_bit n x)) OR take_bit n x = take_bit (n + m) (x :: 'a::len word)"
  by (rule bit_word_eqI) (auto simp: bit_simps)

lemma join_fields_more:
  "push_bit n (take_bit m (drop_bit n x)) OR (take_bit n x OR r) = take_bit (n + m) (x :: 'a::len word) OR r"
  by (simp add: join_fields flip: or.assoc)

lemmas join_bytes =
  join_fields [of 8 8] join_fields [of 16 8] join_fields [of 24 8] join_fields [of 32 8]
  join_fields [of 40 8] join_fields [of 48 8] join_fields [of 56 8]

lemma ReadLE32_WriteLE32 [codec_simps]: "ReadLE32 (WriteLE32 x @ r) = x"
  by (simp add: ReadLE32_def WriteLE32_def ucast_ucast_byte join_bytes take_bit_word_eq_self)

lemma ReadBE32_WriteBE32 [codec_simps]: "ReadBE32 (WriteBE32 x @ r) = x"
  by (simp add: ReadBE32_def WriteBE32_def ucast_ucast_byte join_bytes take_bit_word_eq_self)

lemma ReadLE64_WriteLE64 [codec_simps]: "ReadLE64 (WriteLE64 y @ r) = y"
  by (simp add: ReadLE64_def WriteLE64_def ucast_ucast_byte join_bytes take_bit_word_eq_self)

lemma ReadBE64_WriteBE64 [codec_simps]: "ReadBE64 (WriteBE64 y @ r) = y"
  by (simp add: ReadBE64_def WriteBE64_def ucast_ucast_byte join_bytes take_bit_word_eq_self)

end
