(* ===== verification/Block_Hasher.thy ===== *)
theory Block_Hasher imports Crypto_Common begin

text \<open>
  The streaming front end that \<open>CSHA256\<close>, \<open>CRIPEMD160\<close>, \<open>CSHA1\<close> and \<open>CSHA512\<close> of
  \<open>src/src/crypto\<close> repeat word for word: a chaining state, a buffer of one block and a byte
  counter, and \<open>Write\<close>, which fills the buffer, then processes full blocks straight from the
  caller's memory, then keeps the rest. The model of \<open>Write\<close> takes the block size and the
  class's \<open>Transform\<close>. The locale \<open>block_function\<close> is the contract between \<open>Write\<close> and a
  \<open>Transform\<close>: under it, the object has absorbed exactly the bytes written so far, however
  the caller cut them into pieces.
\<close>

record 's hasher =
  hs :: 's
  hbuf :: bytes
  hbytes :: u64

text \<open>The loop \<open>while (end >= data + 64)\<close>.\<close>

function write_chunks ::
  "nat \<Rightarrow> ('s \<Rightarrow> bytes \<Rightarrow> 's) \<Rightarrow> 's hasher \<Rightarrow> bytes \<Rightarrow> 's hasher \<times> bytes" where
  "write_chunks blk T c data =
     (if 0 < blk \<and> blk \<le> length data
      then write_chunks blk T
             (c\<lparr>hs := T (hs c) data, hbytes := hbytes c + of_nat blk\<rparr>) (drop blk data)
      else (c, data))"
  by pat_completeness auto
termination
  by (relation "measure (\<lambda>(blk, T, c, data). length data)") auto

declare write_chunks.simps [simp del]

definition stream_write ::
  "nat \<Rightarrow> ('s \<Rightarrow> bytes \<Rightarrow> 's) \<Rightarrow> 's hasher \<Rightarrow> bytes \<Rightarrow> 's hasher" where
  "stream_write blk T c data =
     (let bufsize = unat (hbytes c mod of_nat blk);
          (c1, data1, bufsize1) =
            (if bufsize \<noteq> 0 \<and> blk \<le> bufsize + length data
             then (let buf' = memcpy_at (hbuf c) bufsize (take (blk - bufsize) data)
                   in (c\<lparr>hbuf := buf', hbytes := hbytes c + of_nat (blk - bufsize),
                         hs := T (hs c) buf'\<rparr>, drop (blk - bufsize) data, 0))
             else (c, data, bufsize));
          (c2, data2) = write_chunks blk T c1 data1
      in if data2 \<noteq> []
         then c2\<lparr>hbuf := memcpy_at (hbuf c2) bufsize1 data2,
                 hbytes := hbytes c2 + of_nat (length data2)\<rparr>
         else c2)"

subsection \<open>The specification: iterate the compression over the full blocks\<close>

function hash_blocks :: "nat \<Rightarrow> ('s \<Rightarrow> bytes \<Rightarrow> 's) \<Rightarrow> 's \<Rightarrow> bytes \<Rightarrow> 's" where
  "hash_blocks blk T s m =
     (if 0 < blk \<and> blk \<le> length m then hash_blocks blk T (T s (take blk m)) (drop blk m) else s)"
  by pat_completeness auto
termination
  by (relation "measure (\<lambda>(blk, T, s, m). length m)") auto

declare hash_blocks.simps [simp del]

text \<open>\<open>c\<close> started in state \<open>s0\<close> and has been fed \<open>m\<close>.\<close>

definition absorbed ::
  "nat \<Rightarrow> ('s \<Rightarrow> bytes \<Rightarrow> 's) \<Rightarrow> 's \<Rightarrow> 's hasher \<Rightarrow> bytes \<Rightarrow> bool" where
  "absorbed blk T s0 c m \<longleftrightarrow>
     length (hbuf c) = blk \<and> hbytes c = of_nat (length m) \<and>
     hs c = hash_blocks blk T s0 m \<and>
     take (length m mod blk) (hbuf c) = drop (length m - length m mod blk) m"

lemma hash_blocks_short [simp]: "length m < blk \<Longrightarrow> hash_blocks blk T s m = s"
  by (subst hash_blocks.simps) simp

lemma hash_blocks_block:
  "0 < blk \<Longrightarrow> length b = blk \<Longrightarrow> hash_blocks blk T s (b @ m) = hash_blocks blk T (T s b) m"
  by (subst hash_blocks.simps) simp

lemma hash_blocks_append:
  "0 < blk \<Longrightarrow> blk dvd length a \<Longrightarrow>
   hash_blocks blk T s (a @ b) = hash_blocks blk T (hash_blocks blk T s a) b"
proof (induction blk T s a rule: hash_blocks.induct)
  case (1 blk T s a)
  show ?case
  proof (cases "a = []")
    case True
    with 1(2) show ?thesis by simp
  next
    case False
    with 1(3) have le: "blk \<le> length a" by (auto intro: dvd_imp_le)
    with 1(3) have dvd: "blk dvd length (drop blk a)" by simp
    have "hash_blocks blk T s (a @ b) = hash_blocks blk T (T s (take blk a)) (drop blk a @ b)"
      using le 1(2) hash_blocks_block [of blk "take blk a" T s "drop blk a @ b"]
      by (simp flip: append_assoc)
    also have "\<dots> = hash_blocks blk T (hash_blocks blk T (T s (take blk a)) (drop blk a)) b"
      using 1 le dvd by simp
    also have "hash_blocks blk T (T s (take blk a)) (drop blk a) = hash_blocks blk T s a"
      using le 1(2) by (subst (2) hash_blocks.simps) simp
    finally show ?thesis .
  qed
qed

lemma hash_blocks_append_short:
  "0 < blk \<Longrightarrow> blk dvd length a \<Longrightarrow> length b < blk \<Longrightarrow>
   hash_blocks blk T s (a @ b) = hash_blocks blk T s a"
  by (simp add: hash_blocks_append)

text \<open>A message is its full blocks followed by a rest shorter than a block.\<close>

lemma split_full_blocks:
  assumes "0 < (blk :: nat)"
  obtains a b where "m = a @ b" "blk dvd length a" "length b < blk"
    "length b = length m mod blk" "b = drop (length m - length m mod blk) m"
proof
  let ?k = "length m - length m mod blk"
  have le: "?k \<le> length m" by simp
  show "m = take ?k m @ drop ?k m" by simp
  show "blk dvd length (take ?k m)" using le by (simp add: min_absorb2)
  show "length (drop ?k m) < blk" using assms by simp
  show "length (drop ?k m) = length m mod blk" by simp
qed simp

subsection \<open>The contract of a compression function\<close>

text \<open>
  The block size divides \<open>2 ^ 64\<close> (so that the byte counter may wrap without losing the
  position in the buffer), and \<open>Transform\<close> reads one block from the pointer it is given.
\<close>

locale block_function =
  fixes blk :: nat and T :: "'s \<Rightarrow> bytes \<Rightarrow> 's"
  assumes blk_pos: "0 < blk"
    and blk_less: "blk < 2 ^ 64"
    and blk_dvd: "blk dvd 2 ^ 64"
    and T_reads_block: "blk \<le> length p \<Longrightarrow> T s p = T s (take blk p)"
begin

lemma counter_mod: "unat ((of_nat n :: u64) mod of_nat blk) = n mod blk"
  using blk_dvd blk_less by (simp add: unat_mod unat_of_nat mod_mod_cancel)

lemma write_chunks_eq:
  "write_chunks blk T c data =
     (c\<lparr>hs := hash_blocks blk T (hs c) data,
        hbytes := hbytes c + of_nat (length data - length data mod blk)\<rparr>,
      drop (length data - length data mod blk) data)"
proof (induction "length data" arbitrary: c data rule: less_induct)
  case less
  show ?case
  proof (cases "blk \<le> length data")
    case False
    then show ?thesis by (subst write_chunks.simps) simp
  next
    case True
    have short: "length (drop blk data) < length data" using True blk_pos by simp
    have m: "length data mod blk = (length data - blk) mod blk" using True by (rule le_mod_geq)
    let ?q = "length data - blk - (length data - blk) mod blk"
    have q: "length data - length data mod blk = blk + ?q" using True blk_pos
      by (simp add: m) (metis True add_diff_inverse_nat le_add_diff_inverse mod_le_divisor
          mod_less_eq_dividend not_less diff_diff_add Nat.add_diff_assoc)
    have "write_chunks blk T c data =
        write_chunks blk T (c\<lparr>hs := T (hs c) (take blk data), hbytes := hbytes c + of_nat blk\<rparr>)
          (drop blk data)"
      using True blk_pos T_reads_block [OF True] by (subst write_chunks.simps) simp
    also have "\<dots> = (c\<lparr>hs := hash_blocks blk T (T (hs c) (take blk data)) (drop blk data),
        hbytes := hbytes c + of_nat blk + of_nat ?q\<rparr>, drop ?q (drop blk data))"
      by (subst less [OF short]) simp
    also have "hash_blocks blk T (T (hs c) (take blk data)) (drop blk data)
        = hash_blocks blk T (hs c) data"
      using True blk_pos by (subst (2) hash_blocks.simps) simp
    finally show ?thesis unfolding q by (simp add: add.commute add.assoc)
  qed
qed

text \<open>The last part of \<open>Write\<close>: process full blocks from an empty buffer, keep the rest.\<close>

lemma absorbed_aligned:
  assumes buf: "length (hbuf c) = blk" and cnt: "hbytes c = of_nat (length m)"
    and st: "hs c = hash_blocks blk T s0 m" and dvd: "blk dvd length m"
    and w: "write_chunks blk T c d = (c2, d2)"
  shows "absorbed blk T s0
    (if d2 \<noteq> [] then c2\<lparr>hbuf := memcpy_at (hbuf c2) 0 d2,
                        hbytes := hbytes c2 + of_nat (length d2)\<rparr> else c2) (m @ d)"
proof -
  obtain a b where ab: "d = a @ b" "blk dvd length a" "length b < blk"
    "length b = length d mod blk" "b = drop (length d - length d mod blk) d"
    using split_full_blocks [OF blk_pos] .
  have la: "length d - length d mod blk = length a" using arg_cong [OF ab(1), of length] ab(4) by simp
  have d2: "d2 = b" and c2: "c2 = c\<lparr>hs := hash_blocks blk T (hs c) d,
      hbytes := hbytes c + of_nat (length a)\<rparr>"
    using w ab(5) la by (simp_all add: write_chunks_eq)
  have md: "length (m @ d) mod blk = length b"
    using dvd ab(4) by (simp add: mod_add_eq flip: mod_add_left_eq [of "length m"])
  have rest: "drop (length (m @ d) - length b) (m @ d) = b" using ab(1) by simp
  have h: "hash_blocks blk T s0 (m @ d) = hash_blocks blk T (hs c) d"
    using dvd blk_pos st by (simp add: hash_blocks_append)
  have len: "(of_nat (length m) + of_nat (length a) + of_nat (length b) :: u64)
      = of_nat (length (m @ d))" using ab(1) by simp
  show ?thesis
  proof (cases "b = []")
    case True
    then show ?thesis using buf cnt h md ab(1) len d2 c2 by (simp add: absorbed_def)
  next
    case False
    have "take (length b) (memcpy_at (hbuf c) 0 b) = b" using ab(3) buf by (simp add: memcpy_at_def)
    moreover have "length (memcpy_at (hbuf c) 0 b) = blk" using ab(3) buf by (simp add: length_memcpy_at)
    ultimately show ?thesis
      unfolding absorbed_def md rest using False d2 c2 h cnt len by simp
  qed
qed

text \<open>
  \<open>Write\<close> appends to what was absorbed, on each of its three paths: no block completed,
  the buffered block completed, nothing buffered.
\<close>

lemma absorbed_write:
  assumes abs: "absorbed blk T s0 c m"
  shows "absorbed blk T s0 (stream_write blk T c d) (m @ d)"
proof -
  obtain m1 m2 where m: "m = m1 @ m2" "blk dvd length m1" "length m2 < blk"
    "length m2 = length m mod blk" "m2 = drop (length m - length m mod blk) m"
    using split_full_blocks [OF blk_pos] .
  have buf: "length (hbuf c) = blk" and cnt: "hbytes c = of_nat (length m)"
    and st: "hs c = hash_blocks blk T s0 m" and bm: "take (length m2) (hbuf c) = m2"
    using abs m(4,5) by (simp_all add: absorbed_def)
  have bs: "unat (hbytes c mod of_nat blk) = length m2" by (simp add: cnt counter_mod m(4))
  consider (keep) "m2 \<noteq> []" "length m2 + length d < blk"
    | (fill) "m2 \<noteq> []" "blk \<le> length m2 + length d" | (aligned) "m2 = []" by linarith
  then show ?thesis
  proof cases
    case keep
    have mod: "length (m @ d) mod blk = length m2 + length d"
      using m(1,2) keep(2) by (simp add: add.assoc flip: mod_add_left_eq [of "length m1"])
    have "hash_blocks blk T s0 (m @ d) = hash_blocks blk T s0 m"
      using m(1-3) keep(2) blk_pos by (simp add: hash_blocks_append_short)
    moreover have "length (memcpy_at (hbuf c) (length m2) d) = blk"
      using keep(2) buf by (simp add: length_memcpy_at)
    moreover have "take (length m2 + length d) (memcpy_at (hbuf c) (length m2) d) = m2 @ d"
      using keep(2) buf bm by (simp add: take_memcpy_at)
    ultimately show ?thesis
      unfolding absorbed_def mod stream_write_def bs
      using keep buf cnt st bm m(1) by (auto simp: Let_def write_chunks.simps)
  next
    case fill
    let ?d1 = "take (blk - length m2) d" and ?d2 = "drop (blk - length m2) d"
    let ?buf = "memcpy_at (hbuf c) (length m2) ?d1"
    let ?c1 = "c\<lparr>hbuf := ?buf, hbytes := hbytes c + of_nat (blk - length m2), hs := T (hs c) ?buf\<rparr>"
    have l1: "length ?d1 = blk - length m2" using fill m(3) by simp
    have bb: "?buf = m2 @ ?d1" using l1 bm buf m(3) by (simp add: memcpy_at_def)
    have "hash_blocks blk T s0 (m @ ?d1) = hash_blocks blk T (hash_blocks blk T s0 m1) (m2 @ ?d1)"
      using m(1,2) blk_pos by (simp add: hash_blocks_append)
    also have "\<dots> = T (hash_blocks blk T s0 m1) (m2 @ ?d1)"
      using l1 m(3) blk_pos hash_blocks_block [of blk "m2 @ ?d1" T _ "[]"] by simp
    finally have h: "hs ?c1 = hash_blocks blk T s0 (m @ ?d1)"
      using st m(1-3) blk_pos bb by (simp add: hash_blocks_append_short)
    have dvd: "blk dvd length (m @ ?d1)" using m(1-3) l1 by simp
    have cn: "hbytes ?c1 = of_nat (length (m @ ?d1))" using cnt l1 by simp
    have lb: "length (hbuf ?c1) = blk" using bb l1 m(3) by simp
    obtain c2 d2 where w: "write_chunks blk T ?c1 ?d2 = (c2, d2)" by fastforce
    have "stream_write blk T c d = (if d2 \<noteq> [] then c2\<lparr>hbuf := memcpy_at (hbuf c2) 0 d2,
        hbytes := hbytes c2 + of_nat (length d2)\<rparr> else c2)"
      unfolding stream_write_def bs using fill w by (simp add: Let_def)
    then show ?thesis using absorbed_aligned [OF lb cn h dvd w] by simp
  next
    case aligned
    obtain c2 d2 where w: "write_chunks blk T c d = (c2, d2)" by fastforce
    have dvd: "blk dvd length m" using aligned m(1,2) by simp
    have "stream_write blk T c d = (if d2 \<noteq> [] then c2\<lparr>hbuf := memcpy_at (hbuf c2) 0 d2,
        hbytes := hbytes c2 + of_nat (length d2)\<rparr> else c2)"
      unfolding stream_write_def bs using aligned w by (simp add: Let_def)
    then show ?thesis using absorbed_aligned [OF buf cnt st dvd w] by simp
  qed
qed

lemma absorbed_state: "absorbed blk T s0 c m \<Longrightarrow> hs c = hash_blocks blk T s0 m"
  by (simp add: absorbed_def)

lemma absorbed_init: "length b = blk \<Longrightarrow> absorbed blk T s0 \<lparr>hs = s0, hbuf = b, hbytes = 0\<rparr> []"
  by (simp add: absorbed_def blk_pos)

end

subsection \<open>A message schedule in sixteen words\<close>

text \<open>
  SHA-1 and SHA-256 keep the schedule \<open>W 0, W 1, ..\<close> in sixteen locals that are overwritten in
  turn. Before step \<open>t\<close> they hold the last sixteen entries, up to the bound \<open>lim\<close> after which
  the code no longer stores them.
\<close>

definition ring :: "(nat \<Rightarrow> 'w) \<Rightarrow> nat \<Rightarrow> nat \<Rightarrow> 'w list \<Rightarrow> bool" where
  "ring W lim t w \<longleftrightarrow>
     length w = 16 \<and> (\<forall>u. u < t \<and> u < lim \<and> t \<le> u + 16 \<longrightarrow> w ! (u mod 16) = W u)"

lemma ring_read:
  assumes "ring W lim t w" "0 < j" "j \<le> 16" "t < lim + j" "16 \<le> t"
  shows "w ! ((t + (16 - j)) mod 16) = W (t - j)"
proof -
  have "(t + (16 - j)) mod 16 = (t - j) mod 16"
    using assms by (simp flip: mod_add_self2 [of "t - j" 16])
  moreover have "t - j < t \<and> t - j < lim \<and> t \<le> t - j + 16" using assms by linarith
  ultimately show ?thesis using assms(1) unfolding ring_def by metis
qed

lemma ring_write:
  assumes w: "ring W lim t w"
  shows "ring W lim (Suc t) (w[t mod 16 := W t])"
  unfolding ring_def
proof (intro conjI allI impI)
  show "length (w[t mod 16 := W t]) = 16" using w by (simp add: ring_def)
  fix u assume u: "u < Suc t \<and> u < lim \<and> Suc t \<le> u + 16"
  have "u mod 16 \<noteq> t mod 16" if "u \<noteq> t"
    using u that mod_window [of u t 16] by auto
  then show "w[t mod 16 := W t] ! (u mod 16) = W u"
    using w u by (cases "u = t") (auto simp: ring_def)
qed

lemma ring_skip: "ring W lim t w \<Longrightarrow> lim \<le> t \<Longrightarrow> ring W lim (Suc t) w"
  by (auto simp: ring_def)

subsection \<open>Five locals whose roles rotate\<close>

text \<open>
  SHA-1 and each line of RIPEMD-160 rename their five locals from call to call:
  \<open>(a, b, c, d, e)\<close>, \<open>(e, a, b, c, d)\<close>, and so on. \<open>pos5 t\<close> are the positions of the five
  arguments of call \<open>t\<close>, and \<open>view5 t v\<close> the locals in the roles of that call.
\<close>

definition pos5 :: "nat \<Rightarrow> nat list" where
  "pos5 t = map (\<lambda>j. (j + 4 * (t mod 5)) mod 5) [0..<5]"

definition view5 :: "nat \<Rightarrow> 'w list \<Rightarrow> 'w list" where
  "view5 t v = map (\<lambda>p. v ! p) (pos5 t)"

lemma length_view5 [simp]: "length (view5 t v) = 5"
  by (simp add: view5_def pos5_def)

lemma length_5_cases: "length v = 5 \<Longrightarrow> \<exists>a b c d e. v = [a, b, c, d, e]"
  by (auto simp: numeral_eq_Suc length_Suc_conv)

lemma upt_5: "[0..<5] = [0, 1, 2, 3, 4 :: nat]"
  by (simp add: upt_rec)

lemma view5_0: "length v = 5 \<Longrightarrow> view5 0 v = v"
  by (rule nth_equalityI) (auto simp: view5_def pos5_def)

lemma view5_nth: "j < 5 \<Longrightarrow> v ! (pos5 t ! j) = view5 t v ! j"
  by (simp add: view5_def pos5_def)

lemma mod_5_cases:
  obtains "t mod 5 = 0" | "t mod 5 = 1" | "t mod 5 = 2" | "t mod 5 = 3" | "t mod 5 = (4 :: nat)"
proof -
  have "t mod 5 < 5" by simp
  then show thesis using that by linarith
qed

lemma view5_Suc:
  "view5 (Suc t) v = [view5 t v ! 4, view5 t v ! 0, view5 t v ! 1, view5 t v ! 2, view5 t v ! 3]"
  by (rule mod_5_cases [of t]) (simp_all add: view5_def pos5_def mod_Suc upt_5)

lemma view5_update:
  assumes v: "length v = 5" and j: "j < 5"
  shows "view5 t (v[pos5 t ! j := x]) = (view5 t v)[j := x]"
proof -
  obtain v0 v1 v2 v3 v4 where vs: "v = [v0, v1, v2, v3, v4]" using length_5_cases [OF v] by blast
  consider "j = 0" | "j = 1" | "j = 2" | "j = 3" | "j = 4" using j by linarith
  then show ?thesis
    by cases (rule mod_5_cases [of t]; simp add: vs view5_def pos5_def upt_5)+
qed

subsection \<open>Finishing a 64-byte-block hash\<close>

text \<open>
  \<open>static const unsigned char pad[64] = {0x80}\<close> and the pointer arithmetic of the three
  64-byte \<open>Finalize\<close> functions: a 1 bit, zeros up to 56 bytes modulo 64, and the bit length
  in 8 bytes (its byte order is the class's).
\<close>

definition pad_array :: bytes where
  "pad_array = 0x80 # replicate 63 0"

definition pad_length :: "'s hasher \<Rightarrow> nat" where
  "pad_length c = 1 + unat ((119 - hbytes c mod 64) mod 64)"

definition finish64 :: "('s \<Rightarrow> bytes \<Rightarrow> 's) \<Rightarrow> (u64 \<Rightarrow> bytes) \<Rightarrow> 's hasher \<Rightarrow> 's" where
  "finish64 T put c =
     (let sizedesc = put (push_bit 3 (hbytes c));
          c1 = stream_write 64 T c (take (pad_length c) pad_array);
          c2 = stream_write 64 T c1 sizedesc
      in hs c2)"

text \<open>The padded message of the specification.\<close>

definition padded64 :: "(u64 \<Rightarrow> bytes) \<Rightarrow> bytes \<Rightarrow> bytes" where
  "padded64 put m =
     m @ 0x80 # replicate ((119 - length m mod 64) mod 64) 0 @ put (of_nat (8 * length m))"

lemma pad_fills_block: "64 dvd (n + (1 + (119 - n mod 64) mod 64) + 8 :: nat)"
proof -
  define r q where "r = n mod 64" and "q = n div 64"
  have n: "n = 64 * q + r" and r: "r < 64" by (simp_all add: r_def q_def)
  have "64 * q + r + (1 + (119 - r) mod 64) + 8 = 64 * (q + (if r \<le> 55 then 1 else 2))"
  proof (cases "r \<le> 55")
    case True
    then have "119 - r = 55 - r + 64" by linarith
    then have e: "(119 - r) mod 64 = 55 - r" using True by (simp only: mod_add_self2) simp
    have "64 * q + r + (1 + (55 - r)) + 8 = 64 * (q + 1)" using True by (simp add: algebra_simps)
    then show ?thesis using True by (simp only: e if_True)
  next
    case False
    then have e: "(119 - r) mod 64 = 119 - r" by (intro mod_less) linarith
    obtain k where k: "119 - r = k" "r + k = 119" using r by simp
    have "64 * q + r + (1 + (119 - r)) + 8 = 64 * (q + 2)" using k(2) unfolding k(1) by simp
    then show ?thesis using False by (simp only: e if_False)
  qed
  then have "64 dvd 64 * q + r + (1 + (119 - r) mod 64) + 8" by (simp only: dvd_triv_left)
  then show ?thesis by (simp only: r_def [symmetric] n [symmetric])
qed

lemma padded64_full_blocks:
  "length (put (of_nat (8 * length m))) = 8 \<Longrightarrow> 64 dvd length (padded64 put m)"
  using pad_fills_block [of "length m"] by (simp add: padded64_def add.commute add.left_commute)

lemma hash_blocks_cong:
  assumes "P s" and T: "\<And>s b. P s \<Longrightarrow> T s b = T' s b \<and> P (T s b)"
  shows "hash_blocks blk T s m = hash_blocks blk T' s m \<and> P (hash_blocks blk T s m)"
  using assms(1)
proof (induction "length m" arbitrary: s m rule: less_induct)
  case less
  show ?case
  proof (cases "0 < blk \<and> blk \<le> length m")
    case True
    then have "length (drop blk m) < length m" by auto
    moreover have t: "T s (take blk m) = T' s (take blk m)" "P (T s (take blk m))"
      using T [OF less.prems, of "take blk m"] by blast+
    moreover have "hash_blocks blk T s m = hash_blocks blk T (T s (take blk m)) (drop blk m)"
      "hash_blocks blk T' s m = hash_blocks blk T' (T' s (take blk m)) (drop blk m)"
      using True by (simp_all add: hash_blocks.simps [of blk T s m] hash_blocks.simps [of blk T' s m])
    ultimately show ?thesis
      using less.hyps [of "drop blk m" "T s (take blk m)"] by metis
  next
    case False
    then show ?thesis using less.prems
      by (simp only: hash_blocks.simps [of blk T s m] hash_blocks.simps [of blk T' s m] if_False)
  qed
qed

locale block64_function = block_function 64 T for T :: "'s \<Rightarrow> bytes \<Rightarrow> 's"
begin

lemma absorbed_pad_length:
  "absorbed 64 T s0 c m \<Longrightarrow> pad_length c = 1 + (119 - length m mod 64) mod 64"
proof -
  assume "absorbed 64 T s0 c m"
  then have h: "hbytes c = of_nat (length m)" by (simp add: absorbed_def)
  have m: "unat (hbytes c mod 64) = length m mod 64"
    using counter_mod [of "length m"] by (simp add: h)
  then have le: "hbytes c mod 64 \<le> 119" by (simp add: word_le_nat_alt)
  have "unat (119 - hbytes c mod 64) = 119 - length m mod 64"
    using unat_sub [OF le] m by simp
  then show ?thesis by (simp add: pad_length_def unat_mod)
qed

lemma finish64_spec:
  assumes abs: "absorbed 64 T s0 c m"
  shows "finish64 T put c = hash_blocks 64 T s0 (padded64 put m)"
proof -
  let ?k = "(119 - length m mod 64) mod 64"
  have "?k \<le> 63" by (rule Suc_le_lessD [THEN less_Suc_eq_le [THEN iffD1]]) simp
  then have pad: "take (pad_length c) pad_array = 0x80 # replicate ?k 0"
    using absorbed_pad_length [OF abs] by (simp add: pad_array_def min_def)
  have sz: "push_bit 3 (hbytes c) = of_nat (8 * length m)"
    using abs by (simp add: absorbed_def push_bit_eq_mult)
  show ?thesis
    using absorbed_state [OF absorbed_write [OF absorbed_write [OF abs]]]
    by (simp add: finish64_def pad sz padded64_def)
qed

lemma absorbed_writes:
  "absorbed 64 T s0 c m \<Longrightarrow> absorbed 64 T s0 (foldl (stream_write 64 T) c ds) (m @ concat ds)"
proof (induction ds arbitrary: c m)
  case (Cons d ds)
  show ?case using Cons.IH [OF absorbed_write [OF Cons.prems, of d]] by simp
qed simp

end

end
