(* ===== verification/Sha256.thy ===== *)
theory Sha256 imports Block_Hasher begin

text \<open>
  \<open>src/src/crypto/sha256.cpp\<close>. \<open>Transform\<close> is an unrolled sequence of 64 calls of \<open>Round\<close>
  whose arguments rotate through the eight locals \<open>a .. h\<close> and whose last argument loads or
  updates one of the sixteen locals \<open>w0 .. w15\<close>. \<open>sha256_rows\<close> lists the calls in the
  order of the source: the positions (in \<open>[a, .., h]\<close>) of the eight register arguments, the
  constant, and the word expression. The compression is proved equal to the description of
  FIPS 180-4 (a 64-entry message schedule and one simultaneous update of the working
  variables per step), and \<open>CSHA256\<close> to the padded hash of everything written to it.
\<close>

unbundle bit_operations_syntax

definition Ch :: "u32 \<Rightarrow> u32 \<Rightarrow> u32 \<Rightarrow> u32" where
  "Ch x y z = z XOR (x AND (y XOR z))"

definition Maj :: "u32 \<Rightarrow> u32 \<Rightarrow> u32 \<Rightarrow> u32" where
  "Maj x y z = (x AND y) OR (z AND (x OR y))"

definition Sigma0 :: "u32 \<Rightarrow> u32" where
  "Sigma0 x = (drop_bit 2 x OR push_bit 30 x) XOR (drop_bit 13 x OR push_bit 19 x)
     XOR (drop_bit 22 x OR push_bit 10 x)"

definition Sigma1 :: "u32 \<Rightarrow> u32" where
  "Sigma1 x = (drop_bit 6 x OR push_bit 26 x) XOR (drop_bit 11 x OR push_bit 21 x)
     XOR (drop_bit 25 x OR push_bit 7 x)"

definition sigma0 :: "u32 \<Rightarrow> u32" where
  "sigma0 x = (drop_bit 7 x OR push_bit 25 x) XOR (drop_bit 18 x OR push_bit 14 x) XOR drop_bit 3 x"

definition sigma1 :: "u32 \<Rightarrow> u32" where
  "sigma1 x = (drop_bit 17 x OR push_bit 15 x) XOR (drop_bit 19 x OR push_bit 13 x) XOR drop_bit 10 x"

text \<open>\<open>Round\<close> assigns \<open>d\<close> and \<open>h\<close>; the model returns the two new values.\<close>

definition sha256_Round ::
  "u32 \<Rightarrow> u32 \<Rightarrow> u32 \<Rightarrow> u32 \<Rightarrow> u32 \<Rightarrow> u32 \<Rightarrow> u32 \<Rightarrow> u32 \<Rightarrow> u32 \<Rightarrow> u32 \<Rightarrow> u32 \<times> u32" where
  "sha256_Round a b c d e f g h k w =
     (let t1 = h + Sigma1 e + Ch e f g + k + w;
          t2 = Sigma0 a + Maj a b c
      in (d + t1, t1 + t2))"

definition sha256_Initialize :: "u32 list" where
  "sha256_Initialize = [0x6a09e667, 0xbb67ae85, 0x3c6ef372, 0xa54ff53a,
     0x510e527f, 0x9b05688c, 0x1f83d9ab, 0x5be0cd19]"

text \<open>
  The last argument of a call: \<open>wi = ReadBE32(chunk + off)\<close>,
  \<open>wi += sigma1(wj) + wk + sigma0(wl)\<close>, or the sum without the assignment.
\<close>

datatype sha256_word = Load nat nat | Mix nat nat nat nat | Sum nat nat nat nat

fun sha256_word_value :: "bytes \<Rightarrow> u32 list \<Rightarrow> sha256_word \<Rightarrow> u32 \<times> u32 list" where
  "sha256_word_value chunk w (Load i off) =
     (let x = ReadBE32 (drop off chunk) in (x, w[i := x]))"
| "sha256_word_value chunk w (Mix i j k l) =
     (let x = w ! i + (sigma1 (w ! j) + w ! k + sigma0 (w ! l)) in (x, w[i := x]))"
| "sha256_word_value chunk w (Sum i j k l) =
     (w ! i + sigma1 (w ! j) + w ! k + sigma0 (w ! l), w)"

definition sha256_row ::
  "bytes \<Rightarrow> u32 list \<times> u32 list \<Rightarrow> nat list \<times> u32 \<times> sha256_word \<Rightarrow> u32 list \<times> u32 list" where
  "sha256_row chunk st row =
     (let (v, w) = st; (p, k, e) = row; (x, w') = sha256_word_value chunk w e;
          (d, h) = sha256_Round (v ! (p ! 0)) (v ! (p ! 1)) (v ! (p ! 2)) (v ! (p ! 3))
                     (v ! (p ! 4)) (v ! (p ! 5)) (v ! (p ! 6)) (v ! (p ! 7)) k x
      in (v[p ! 3 := d, p ! 7 := h], w'))"

definition sha256_rows :: "(nat list \<times> u32 \<times> sha256_word) list" where
  "sha256_rows =
     [([0,1,2,3,4,5,6,7], 0x428a2f98, Load 0 0),
      ([7,0,1,2,3,4,5,6], 0x71374491, Load 1 4),
      ([6,7,0,1,2,3,4,5], 0xb5c0fbcf, Load 2 8),
      ([5,6,7,0,1,2,3,4], 0xe9b5dba5, Load 3 12),
      ([4,5,6,7,0,1,2,3], 0x3956c25b, Load 4 16),
      ([3,4,5,6,7,0,1,2], 0x59f111f1, Load 5 20),
      ([2,3,4,5,6,7,0,1], 0x923f82a4, Load 6 24),
      ([1,2,3,4,5,6,7,0], 0xab1c5ed5, Load 7 28),
      ([0,1,2,3,4,5,6,7], 0xd807aa98, Load 8 32),
      ([7,0,1,2,3,4,5,6], 0x12835b01, Load 9 36),
      ([6,7,0,1,2,3,4,5], 0x243185be, Load 10 40),
      ([5,6,7,0,1,2,3,4], 0x550c7dc3, Load 11 44),
      ([4,5,6,7,0,1,2,3], 0x72be5d74, Load 12 48),
      ([3,4,5,6,7,0,1,2], 0x80deb1fe, Load 13 52),
      ([2,3,4,5,6,7,0,1], 0x9bdc06a7, Load 14 56),
      ([1,2,3,4,5,6,7,0], 0xc19bf174, Load 15 60),
      ([0,1,2,3,4,5,6,7], 0xe49b69c1, Mix 0 14 9 1),
      ([7,0,1,2,3,4,5,6], 0xefbe4786, Mix 1 15 10 2),
      ([6,7,0,1,2,3,4,5], 0x0fc19dc6, Mix 2 0 11 3),
      ([5,6,7,0,1,2,3,4], 0x240ca1cc, Mix 3 1 12 4),
      ([4,5,6,7,0,1,2,3], 0x2de92c6f, Mix 4 2 13 5),
      ([3,4,5,6,7,0,1,2], 0x4a7484aa, Mix 5 3 14 6),
      ([2,3,4,5,6,7,0,1], 0x5cb0a9dc, Mix 6 4 15 7),
      ([1,2,3,4,5,6,7,0], 0x76f988da, Mix 7 5 0 8),
      ([0,1,2,3,4,5,6,7], 0x983e5152, Mix 8 6 1 9),
      ([7,0,1,2,3,4,5,6], 0xa831c66d, Mix 9 7 2 10),
      ([6,7,0,1,2,3,4,5], 0xb00327c8, Mix 10 8 3 11),
      ([5,6,7,0,1,2,3,4], 0xbf597fc7, Mix 11 9 4 12),
      ([4,5,6,7,0,1,2,3], 0xc6e00bf3, Mix 12 10 5 13),
      ([3,4,5,6,7,0,1,2], 0xd5a79147, Mix 13 11 6 14),
      ([2,3,4,5,6,7,0,1], 0x06ca6351, Mix 14 12 7 15),
      ([1,2,3,4,5,6,7,0], 0x14292967, Mix 15 13 8 0),
      ([0,1,2,3,4,5,6,7], 0x27b70a85, Mix 0 14 9 1),
      ([7,0,1,2,3,4,5,6], 0x2e1b2138, Mix 1 15 10 2),
      ([6,7,0,1,2,3,4,5], 0x4d2c6dfc, Mix 2 0 11 3),
      ([5,6,7,0,1,2,3,4], 0x53380d13, Mix 3 1 12 4),
      ([4,5,6,7,0,1,2,3], 0x650a7354, Mix 4 2 13 5),
      ([3,4,5,6,7,0,1,2], 0x766a0abb, Mix 5 3 14 6),
      ([2,3,4,5,6,7,0,1], 0x81c2c92e, Mix 6 4 15 7),
      ([1,2,3,4,5,6,7,0], 0x92722c85, Mix 7 5 0 8),
      ([0,1,2,3,4,5,6,7], 0xa2bfe8a1, Mix 8 6 1 9),
      ([7,0,1,2,3,4,5,6], 0xa81a664b, Mix 9 7 2 10),
      ([6,7,0,1,2,3,4,5], 0xc24b8b70, Mix 10 8 3 11),
      ([5,6,7,0,1,2,3,4], 0xc76c51a3, Mix 11 9 4 12),
      ([4,5,6,7,0,1,2,3], 0xd192e819, Mix 12 10 5 13),
      ([3,4,5,6,7,0,1,2], 0xd6990624, Mix 13 11 6 14),
      ([2,3,4,5,6,7,0,1], 0xf40e3585, Mix 14 12 7 15),
      ([1,2,3,4,5,6,7,0], 0x106aa070, Mix 15 13 8 0),
      ([0,1,2,3,4,5,6,7], 0x19a4c116, Mix 0 14 9 1),
      ([7,0,1,2,3,4,5,6], 0x1e376c08, Mix 1 15 10 2),
      ([6,7,0,1,2,3,4,5], 0x2748774c, Mix 2 0 11 3),
      ([5,6,7,0,1,2,3,4], 0x34b0bcb5, Mix 3 1 12 4),
      ([4,5,6,7,0,1,2,3], 0x391c0cb3, Mix 4 2 13 5),
      ([3,4,5,6,7,0,1,2], 0x4ed8aa4a, Mix 5 3 14 6),
      ([2,3,4,5,6,7,0,1], 0x5b9cca4f, Mix 6 4 15 7),
      ([1,2,3,4,5,6,7,0], 0x682e6ff3, Mix 7 5 0 8),
      ([0,1,2,3,4,5,6,7], 0x748f82ee, Mix 8 6 1 9),
      ([7,0,1,2,3,4,5,6], 0x78a5636f, Mix 9 7 2 10),
      ([6,7,0,1,2,3,4,5], 0x84c87814, Mix 10 8 3 11),
      ([5,6,7,0,1,2,3,4], 0x8cc70208, Mix 11 9 4 12),
      ([4,5,6,7,0,1,2,3], 0x90befffa, Mix 12 10 5 13),
      ([3,4,5,6,7,0,1,2], 0xa4506ceb, Mix 13 11 6 14),
      ([2,3,4,5,6,7,0,1], 0xbef9a3f7, Sum 14 12 7 15),
      ([1,2,3,4,5,6,7,0], 0xc67178f2, Sum 15 13 8 0)]"

text \<open>The locals \<open>w0 .. w15\<close> are uninitialised until the first sixteen calls assign them.\<close>

definition sha256_Transform :: "u32 list \<Rightarrow> bytes \<Rightarrow> u32 list" where
  "sha256_Transform s chunk =
     (let (v, w) = foldl (sha256_row chunk) (s, replicate 16 0) sha256_rows
      in map2 (+) s v)"

subsection \<open>The compression of FIPS 180-4\<close>

text \<open>
  Section 4.1.2 (functions), 4.2.2 (constants), 6.2.2 (schedule and compression).
\<close>

definition fips_Ch :: "u32 \<Rightarrow> u32 \<Rightarrow> u32 \<Rightarrow> u32" where
  "fips_Ch x y z = (x AND y) XOR (NOT x AND z)"

definition fips_Maj :: "u32 \<Rightarrow> u32 \<Rightarrow> u32 \<Rightarrow> u32" where
  "fips_Maj x y z = (x AND y) XOR (x AND z) XOR (y AND z)"

fun fips_W :: "bytes \<Rightarrow> nat \<Rightarrow> u32" where
  "fips_W M t =
     (if t < 16 then ReadBE32 (drop (4 * t) M)
      else (word_rotr 17 (fips_W M (t - 2)) XOR word_rotr 19 (fips_W M (t - 2))
              XOR drop_bit 10 (fips_W M (t - 2)))
           + fips_W M (t - 7)
           + (word_rotr 7 (fips_W M (t - 15)) XOR word_rotr 18 (fips_W M (t - 15))
              XOR drop_bit 3 (fips_W M (t - 15)))
           + fips_W M (t - 16))"

declare fips_W.simps [simp del]

definition fips_step :: "u32 list \<Rightarrow> u32 \<Rightarrow> u32 \<Rightarrow> u32 list" where
  "fips_step v k w =
     (case v of [a, b, c, d, e, f, g, h] \<Rightarrow>
        (let T1 = h + (word_rotr 6 e XOR word_rotr 11 e XOR word_rotr 25 e) + fips_Ch e f g + k + w;
             T2 = (word_rotr 2 a XOR word_rotr 13 a XOR word_rotr 22 a) + fips_Maj a b c
         in [T1 + T2, a, b, c, d + T1, e, f, g])
      | _ \<Rightarrow> v)"

text \<open>
  The constants, in decimal; \<open>fips_K_cube_roots\<close> proves them to be what the standard says:
  the first 32 bits of the fractional parts of the cube roots of the first 64 primes.
\<close>

definition fips_K :: "u32 list" where
  "fips_K = [1116352408, 1899447441, 3049323471, 3921009573, 961987163, 1508970993,
     2453635748, 2870763221, 3624381080, 310598401, 607225278, 1426881987,
     1925078388, 2162078206, 2614888103, 3248222580, 3835390401, 4022224774,
     264347078, 604807628, 770255983, 1249150122, 1555081692, 1996064986,
     2554220882, 2821834349, 2952996808, 3210313671, 3336571891, 3584528711,
     113926993, 338241895, 666307205, 773529912, 1294757372, 1396182291,
     1695183700, 1986661051, 2177026350, 2456956037, 2730485921, 2820302411,
     3259730800, 3345764771, 3516065817, 3600352804, 4094571909, 275423344,
     430227734, 506948616, 659060556, 883997877, 958139571, 1322822218,
     1537002063, 1747873779, 1955562222, 2024104815, 2227730452, 2361852424,
     2428436474, 2756734187, 3204031479, 3329325298]"

definition first_primes :: "int list" where
  "first_primes = [2, 3, 5, 7, 11, 13, 17, 19, 23, 29, 31, 37, 41, 43, 47, 53, 59, 61,
     67, 71, 73, 79, 83, 89, 97, 101, 103, 107, 109, 113, 127, 131, 137, 139, 149, 151,
     157, 163, 167, 173, 179, 181, 191, 193, 197, 199, 211, 223, 227, 229, 233, 239, 241, 251,
     257, 263, 269, 271, 277, 281, 283, 293, 307, 311]"

definition cube_root_bits :: "int \<Rightarrow> u32 \<Rightarrow> bool" where
  "cube_root_bits p k =
     list_ex (\<lambda>a. let y = a * 2 ^ 32 + uint k in y ^ 3 \<le> p * 2 ^ 96 \<and> p * 2 ^ 96 < (y + 1) ^ 3)
       [1, 2, 3, 4, 5, 6]"

lemma fips_K_cube_roots: "list_all2 cube_root_bits first_primes fips_K"
  by code_simp

lemma first_primes_are_primes:
  "first_primes = filter (\<lambda>n. list_all (\<lambda>d. d * d \<le> n \<longrightarrow> n mod d \<noteq> 0) [2..17]) [2..311]"
  by code_simp

definition fips_compress :: "u32 list \<Rightarrow> bytes \<Rightarrow> u32 list" where
  "fips_compress s M =
     map2 (+) s (foldl (\<lambda>v t. fips_step v (fips_K ! t) (fips_W M t)) s [0..<64])"

subsection \<open>The unrolled code computes it\<close>

lemmas sha_rotates = rotate_as_shifts [of 2, simplified] rotate_as_shifts [of 13, simplified]
  rotate_as_shifts [of 22, simplified] rotate_as_shifts [of 6, simplified] rotate_as_shifts [of 11, simplified]
  rotate_as_shifts [of 25, simplified] rotate_as_shifts [of 7, simplified] rotate_as_shifts [of 18, simplified]
  rotate_as_shifts [of 17, simplified] rotate_as_shifts [of 19, simplified]

lemma sigma_rotates:
  "sigma0 x = word_rotr 7 x XOR word_rotr 18 x XOR drop_bit 3 x"
  "sigma1 x = word_rotr 17 x XOR word_rotr 19 x XOR drop_bit 10 x"
  "Sigma0 x = word_rotr 2 x XOR word_rotr 13 x XOR word_rotr 22 x"
  "Sigma1 x = word_rotr 6 x XOR word_rotr 11 x XOR word_rotr 25 x"
  by (simp_all add: sigma0_def sigma1_def Sigma0_def Sigma1_def sha_rotates xor.assoc)

lemma Ch_fips: "Ch x y z = fips_Ch x y z"
  by (rule bit_word_eqI) (auto simp: Ch_def fips_Ch_def bit_simps)

lemma Maj_fips: "Maj x y z = fips_Maj x y z"
  by (rule bit_word_eqI) (auto simp: Maj_def fips_Maj_def bit_simps)

definition row_of :: "nat \<Rightarrow> u32 \<Rightarrow> nat list \<times> u32 \<times> sha256_word" where
  "row_of t k = (map (\<lambda>j. (j + 7 * (t mod 8)) mod 8) [0..<8], k,
     if t < 16 then Load t (4 * t)
     else if t < 62 then Mix (t mod 16) ((t + 14) mod 16) ((t + 9) mod 16) ((t + 1) mod 16)
     else Sum (t mod 16) ((t + 14) mod 16) ((t + 9) mod 16) ((t + 1) mod 16))"

lemma sha256_rows_eq: "sha256_rows = map (\<lambda>t. row_of t (fips_K ! t)) [0..<64]"
  by (simp add: sha256_rows_def fips_K_def row_of_def upt_rec)


text \<open>The working variables as the calls see them after \<open>t\<close> rows.\<close>

definition lview :: "nat \<Rightarrow> u32 list \<Rightarrow> u32 list" where
  "lview t v = map (\<lambda>j. v ! ((j + 7 * (t mod 8)) mod 8)) [0..<8]"

lemma lview_0: "length v = 8 \<Longrightarrow> lview 0 v = v"
  by (rule nth_equalityI) (auto simp: lview_def)

lemma length_8_cases:
  "length v = 8 \<Longrightarrow> \<exists>a b c d e f g h. v = [a, b, c, d, e, f, g, h]"
  by (auto simp: numeral_eq_Suc length_Suc_conv)

lemma Round_fips:
  "sha256_Round a b c d e f g h k w = (d', h') \<Longrightarrow>
   fips_step [a, b, c, d, e, f, g, h] k w = [h', a, b, c, d', e, f, g]"
  by (auto simp: fips_step_def sha256_Round_def Let_def sigma_rotates
      Ch_fips Maj_fips xor.assoc)

lemma upt_8: "[0..<8] = [0, 1, 2, 3, 4, 5, 6, 7 :: nat]"
  by (simp add: upt_rec)

lemma Round_step:
  assumes v: "length v = 8" and p: "p = map (\<lambda>j. (j + 7 * (t mod 8)) mod 8) [0..<8]"
    and r: "sha256_Round (v ! (p ! 0)) (v ! (p ! 1)) (v ! (p ! 2)) (v ! (p ! 3))
              (v ! (p ! 4)) (v ! (p ! 5)) (v ! (p ! 6)) (v ! (p ! 7)) k x = (d, h)"
  shows "lview (Suc t) (v[p ! 3 := d, p ! 7 := h]) = fips_step (lview t v) k x"
proof -
  obtain v0 v1 v2 v3 v4 v5 v6 v7 where vs: "v = [v0, v1, v2, v3, v4, v5, v6, v7]"
    using length_8_cases [OF v] by blast
  have lv: "lview t v = [v ! (p ! 0), v ! (p ! 1), v ! (p ! 2), v ! (p ! 3),
      v ! (p ! 4), v ! (p ! 5), v ! (p ! 6), v ! (p ! 7)]"
    by (simp add: lview_def p upt_8)
  have "t mod 8 < 8" by simp
  then consider "t mod 8 = 0" | "t mod 8 = 1" | "t mod 8 = 2" | "t mod 8 = 3"
    | "t mod 8 = 4" | "t mod 8 = 5" | "t mod 8 = 6" | "t mod 8 = 7" by linarith
  then have "lview (Suc t) (v[p ! 3 := d, p ! 7 := h]) =
      [h, v ! (p ! 0), v ! (p ! 1), v ! (p ! 2), d, v ! (p ! 4), v ! (p ! 5), v ! (p ! 6)]"
    by cases (simp_all add: p vs lview_def mod_Suc upt_8)
  then show ?thesis using Round_fips [OF r] lv by simp
qed

lemma schedule_step:
  assumes w: "ring (fips_W M) 62 t w" and t: "t < 64"
    and e: "row_of t k = (p, k, e)" and x: "sha256_word_value M w e = (x, w')"
  shows "x = fips_W M t \<and> ring (fips_W M) 62 (Suc t) w'"
proof (cases "t < 16")
  case True
  have "e = Load t (4 * t)" using True e by (simp add: row_of_def)
  then have xs: "x = fips_W M t" "w' = w[t mod 16 := x]"
    using x True by (auto simp: Let_def fips_W.simps)
  then show ?thesis using ring_write [OF w] by simp
next
  case False
  have ws: "w ! (t mod 16) = fips_W M (t - 16)" "w ! ((t + 14) mod 16) = fips_W M (t - 2)"
    "w ! ((t + 9) mod 16) = fips_W M (t - 7)" "w ! ((t + 1) mod 16) = fips_W M (t - 15)"
    using ring_read [OF w, of 16] ring_read [OF w, of 2] ring_read [OF w, of 7] ring_read [OF w, of 15]
      t False by simp_all
  have Wt: "fips_W M t = w ! (t mod 16) + (sigma1 (w ! ((t + 14) mod 16)) + w ! ((t + 9) mod 16)
      + sigma0 (w ! ((t + 1) mod 16)))"
    using False unfolding ws
    by (subst fips_W.simps) (simp add: sigma_rotates ac_simps)
  show ?thesis
  proof (cases "t < 62")
    case True
    have xs: "x = fips_W M t" "w' = w[t mod 16 := x]"
      using x e False True Wt by (auto simp: row_of_def Let_def)
    then show ?thesis using ring_write [OF w] by simp
  next
    case False2: False
    have "x = fips_W M t \<and> w' = w"
      using x e False False2 Wt by (auto simp: row_of_def add.assoc)
    then show ?thesis using ring_skip [OF w] False2 by simp
  qed
qed

lemma rows_inv:
  assumes s: "length s = 8" and n: "n \<le> 64"
  shows "\<exists>v w. foldl (sha256_row M) (s, replicate 16 0) (map (\<lambda>t. row_of t (fips_K ! t)) [0..<n]) = (v, w)
    \<and> length v = 8 \<and> ring (fips_W M) 62 n w
    \<and> lview n v = foldl (\<lambda>v t. fips_step v (fips_K ! t) (fips_W M t)) s [0..<n]"
  using n
proof (induction n)
  case 0
  then show ?case using s by (simp add: ring_def lview_0)
next
  case (Suc n)
  then obtain v w where vw: "foldl (sha256_row M) (s, replicate 16 0)
      (map (\<lambda>t. row_of t (fips_K ! t)) [0..<n]) = (v, w)"
    "length v = 8" "ring (fips_W M) 62 n w"
    "lview n v = foldl (\<lambda>v t. fips_step v (fips_K ! t) (fips_W M t)) s [0..<n]" by auto
  obtain p e where row: "row_of n (fips_K ! n) = (p, fips_K ! n, e)" by (simp add: row_of_def)
  obtain x w' where x: "sha256_word_value M w e = (x, w')" by fastforce
  have sch: "x = fips_W M n" "ring (fips_W M) 62 (Suc n) w'"
    using schedule_step [OF vw(3) _ row x] Suc.prems by simp_all
  obtain d h where r: "sha256_Round (v ! (p ! 0)) (v ! (p ! 1)) (v ! (p ! 2)) (v ! (p ! 3))
      (v ! (p ! 4)) (v ! (p ! 5)) (v ! (p ! 6)) (v ! (p ! 7)) (fips_K ! n) x = (d, h)" by fastforce
  have p: "p = map (\<lambda>j. (j + 7 * (n mod 8)) mod 8) [0..<8]" using row by (simp add: row_of_def)
  have "foldl (sha256_row M) (s, replicate 16 0) (map (\<lambda>t. row_of t (fips_K ! t)) [0..<Suc n])
      = (v[p ! 3 := d, p ! 7 := h], w')"
    using vw(1) row x r by (simp add: sha256_row_def Let_def)
  then show ?case
    using vw(2,4) sch Round_step [OF vw(2) p r] by simp
qed

lemma sha256_Transform_is_fips:
  assumes "length s = 8"
  shows "sha256_Transform s chunk = fips_compress s chunk"
proof -
  obtain v w where vw: "foldl (sha256_row chunk) (s, replicate 16 0)
      (map (\<lambda>t. row_of t (fips_K ! t)) [0..<64]) = (v, w)" "length v = 8"
    "lview 64 v = foldl (\<lambda>v t. fips_step v (fips_K ! t) (fips_W chunk t)) s [0..<64]"
    using rows_inv [OF assms, of 64 chunk] by auto
  have "lview 64 v = v" using lview_0 [OF vw(2)] by (simp add: lview_def)
  then show ?thesis
    using vw unfolding sha256_Transform_def fips_compress_def by (simp only: sha256_rows_eq) simp
qed

subsection \<open>The class \<open>CSHA256\<close>\<close>

type_synonym CSHA256 = "u32 list hasher"

definition CSHA256_new :: CSHA256 where
  "CSHA256_new = \<lparr>hs = sha256_Initialize, hbuf = replicate 64 0, hbytes = 0\<rparr>"

definition CSHA256_Write :: "CSHA256 \<Rightarrow> bytes \<Rightarrow> CSHA256" where
  "CSHA256_Write c data = stream_write 64 sha256_Transform c data"

definition CSHA256_Finalize :: "CSHA256 \<Rightarrow> bytes" where
  "CSHA256_Finalize c = concat (map WriteBE32 (take 8 (finish64 sha256_Transform WriteBE64 c)))"

definition CSHA256_Reset :: "CSHA256 \<Rightarrow> CSHA256" where
  "CSHA256_Reset c = c\<lparr>hbytes := 0, hs := sha256_Initialize\<rparr>"


text \<open>\<open>Transform\<close> only looks at the 64 bytes it is pointed to.\<close>

fun loads_inside :: "nat list \<times> u32 \<times> sha256_word \<Rightarrow> bool" where
  "loads_inside (p, k, Load i off) = (off + 4 \<le> 64)"
| "loads_inside (p, k, e) = True"

lemma sha256_rows_loads_inside: "list_all loads_inside sha256_rows"
  by (simp add: sha256_rows_def)

lemma ReadBE32_take: "off + 4 \<le> n \<Longrightarrow> n \<le> length p \<Longrightarrow>
  ReadBE32 (drop off (take n p)) = ReadBE32 (drop off p)"
  by (simp add: ReadBE32_def)

lemma sha256_row_take:
  "loads_inside row \<Longrightarrow> 64 \<le> length p \<Longrightarrow> sha256_row (take 64 p) st row = sha256_row p st row"
  by (cases row rule: loads_inside.cases) (simp_all add: sha256_row_def ReadBE32_take)

lemma sha256_Transform_take:
  "64 \<le> length p \<Longrightarrow> sha256_Transform s p = sha256_Transform s (take 64 p)"
proof -
  assume p: "64 \<le> length p"
  have "foldl (sha256_row p) st sha256_rows = foldl (sha256_row (take 64 p)) st sha256_rows" for st
    by (rule foldl_cong [OF refl refl])
      (metis sha256_rows_loads_inside list_all_iff sha256_row_take p)
  then show ?thesis by (simp only: sha256_Transform_def)
qed

interpretation sha256: block64_function sha256_Transform
  by unfold_locales (simp_all, rule sha256_Transform_take)

lemma length_fips_step: "length v = 8 \<Longrightarrow> length (fips_step v k w) = 8"
  using length_8_cases [of v] by (auto simp: fips_step_def Let_def)

lemma length_fips_compress: "length s = 8 \<Longrightarrow> length (fips_compress s M) = 8"
proof -
  assume s: "length s = 8"
  have "length (foldl (\<lambda>v t. fips_step v (fips_K ! t) (fips_W M t)) s ts) = 8" for ts
    using s by (induction ts arbitrary: s) (simp_all add: length_fips_step)
  then show ?thesis using s by (simp add: fips_compress_def)
qed

text \<open>SHA-256 of a message, as the standard defines it.\<close>

definition sha256_spec :: "bytes \<Rightarrow> bytes" where
  "sha256_spec m =
     concat (map WriteBE32 (hash_blocks 64 fips_compress sha256_Initialize (padded64 WriteBE64 m)))"

lemma sha256_blocks_fips:
  "hash_blocks 64 sha256_Transform sha256_Initialize m = hash_blocks 64 fips_compress sha256_Initialize m
   \<and> length (hash_blocks 64 sha256_Transform sha256_Initialize m) = 8"
  by (rule hash_blocks_cong [where P = "\<lambda>s. length s = 8"])
    (simp_all add: sha256_Initialize_def sha256_Transform_is_fips length_fips_compress)

lemma CSHA256_new_absorbed: "absorbed 64 sha256_Transform sha256_Initialize CSHA256_new []"
  unfolding CSHA256_new_def by (rule sha256.absorbed_init) simp

lemma CSHA256_absorbed_Finalize:
  "absorbed 64 sha256_Transform sha256_Initialize c m \<Longrightarrow> CSHA256_Finalize c = sha256_spec m"
  using sha256_blocks_fips [of "padded64 WriteBE64 m"]
  by (metis CSHA256_Finalize_def order_refl sha256.finish64_spec sha256_spec_def take_all)

lemma CSHA256_Reset_absorbed:
  "absorbed 64 sha256_Transform s0 c m \<Longrightarrow>
   absorbed 64 sha256_Transform sha256_Initialize (CSHA256_Reset c) []"
  by (simp add: absorbed_def CSHA256_Reset_def)

lemma CSHA256_Write_absorbed:
  "absorbed 64 sha256_Transform s0 c m \<Longrightarrow> absorbed 64 sha256_Transform s0 (CSHA256_Write c d) (m @ d)"
  unfolding CSHA256_Write_def by (rule sha256.absorbed_write)

lemma length_sha256_spec [len_simps]: "length (sha256_spec m) = 32"
proof -
  have "length (hash_blocks 64 fips_compress sha256_Initialize (padded64 WriteBE64 m)) = 8"
    using sha256_blocks_fips [of "padded64 WriteBE64 m"] by metis
  then show ?thesis
    using length_8_cases [of "hash_blocks 64 fips_compress sha256_Initialize (padded64 WriteBE64 m)"]
    by (auto simp: sha256_spec_def)
qed

subsection \<open>Properties\<close>

text \<open>
  The unrolled, register-rotating \<open>Transform\<close> of \<open>sha256.cpp\<close>, with its sixteen-word
  in-place message schedule, computes the compression function of FIPS 180-4 on every state
  and every block.
\<close>

theorem sha256_Transform_fips:
  "sha256_Transform [s0, s1, s2, s3, s4, s5, s6, s7] chunk =
   fips_compress [s0, s1, s2, s3, s4, s5, s6, s7] chunk"
  by (rule sha256_Transform_is_fips) simp

text \<open>
  However a caller cuts a message into \<open>Write\<close> calls, \<open>CSHA256\<close> returns the SHA-256
  digest of their concatenation: buffering, block boundaries, the byte counter and the
  padding of \<open>Finalize\<close> are correct.
\<close>

theorem CSHA256_streaming:
  "CSHA256_Finalize (foldl CSHA256_Write CSHA256_new ds) = sha256_spec (concat ds)"
proof -
  have "CSHA256_Write = stream_write 64 sha256_Transform"
    by (simp add: fun_eq_iff CSHA256_Write_def)
  then show ?thesis
    using sha256.absorbed_writes [OF CSHA256_new_absorbed, of ds] CSHA256_absorbed_Finalize by simp
qed

end
