(* ===== verification/Ripemd160.thy ===== *)
theory Ripemd160 imports Block_Hasher begin

text \<open>
  \<open>src/src/crypto/ripemd160.cpp\<close>. \<open>Transform\<close> interleaves two lines of 80 rounds, each on
  five locals whose roles rotate; \<open>ripemd160_rows_1 .. 5\<close> list the calls in the order of the
  source (is it the second line, the positions of the five register arguments, the round
  function, the message word, the rotation). It is proved equal to the published
  description: the word selection generated by the permutations \<open>\<rho>\<close> and \<open>\<pi>\<close>, one shift
  table indexed by word, and one simultaneous update of the variables per step.
\<close>

unbundle bit_operations_syntax

definition rmd_f1 :: "u32 \<Rightarrow> u32 \<Rightarrow> u32 \<Rightarrow> u32" where
  "rmd_f1 x y z = x XOR y XOR z"

definition rmd_f2 :: "u32 \<Rightarrow> u32 \<Rightarrow> u32 \<Rightarrow> u32" where
  "rmd_f2 x y z = (x AND y) OR (NOT x AND z)"

definition rmd_f3 :: "u32 \<Rightarrow> u32 \<Rightarrow> u32 \<Rightarrow> u32" where
  "rmd_f3 x y z = (x OR NOT y) XOR z"

definition rmd_f4 :: "u32 \<Rightarrow> u32 \<Rightarrow> u32 \<Rightarrow> u32" where
  "rmd_f4 x y z = (x AND z) OR (y AND NOT z)"

definition rmd_f5 :: "u32 \<Rightarrow> u32 \<Rightarrow> u32 \<Rightarrow> u32" where
  "rmd_f5 x y z = x XOR (y OR NOT z)"

definition ripemd160_Initialize :: "u32 list" where
  "ripemd160_Initialize = [0x67452301, 0xEFCDAB89, 0x98BADCFE, 0x10325476, 0xC3D2E1F0]"

definition rol :: "u32 \<Rightarrow> nat \<Rightarrow> u32" where
  "rol x i = push_bit i x OR drop_bit (32 - i) x"

text \<open>\<open>Round\<close> assigns \<open>a\<close> and \<open>c\<close>; the model returns the two new values.\<close>

definition ripemd160_Round ::
  "u32 \<Rightarrow> u32 \<Rightarrow> u32 \<Rightarrow> u32 \<Rightarrow> u32 \<Rightarrow> u32 \<Rightarrow> u32 \<Rightarrow> u32 \<Rightarrow> nat \<Rightarrow> u32 \<times> u32" where
  "ripemd160_Round a b c d e f x k r = (rol (a + f + x + k) r + e, rol c 10)"

type_synonym rmd_round = "u32 \<Rightarrow> u32 \<Rightarrow> u32 \<Rightarrow> u32 \<Rightarrow> u32 \<Rightarrow> u32 \<Rightarrow> nat \<Rightarrow> u32 \<times> u32"

definition R11 :: rmd_round where
  "R11 a b c d e x r = ripemd160_Round a b c d e (rmd_f1 b c d) x 0 r"

definition R21 :: rmd_round where
  "R21 a b c d e x r = ripemd160_Round a b c d e (rmd_f2 b c d) x 0x5A827999 r"

definition R31 :: rmd_round where
  "R31 a b c d e x r = ripemd160_Round a b c d e (rmd_f3 b c d) x 0x6ED9EBA1 r"

definition R41 :: rmd_round where
  "R41 a b c d e x r = ripemd160_Round a b c d e (rmd_f4 b c d) x 0x8F1BBCDC r"

definition R51 :: rmd_round where
  "R51 a b c d e x r = ripemd160_Round a b c d e (rmd_f5 b c d) x 0xA953FD4E r"

definition R12 :: rmd_round where
  "R12 a b c d e x r = ripemd160_Round a b c d e (rmd_f5 b c d) x 0x50A28BE6 r"

definition R22 :: rmd_round where
  "R22 a b c d e x r = ripemd160_Round a b c d e (rmd_f4 b c d) x 0x5C4DD124 r"

definition R32 :: rmd_round where
  "R32 a b c d e x r = ripemd160_Round a b c d e (rmd_f3 b c d) x 0x6D703EF3 r"

definition R42 :: rmd_round where
  "R42 a b c d e x r = ripemd160_Round a b c d e (rmd_f2 b c d) x 0x7A6D76E9 r"

definition R52 :: rmd_round where
  "R52 a b c d e x r = ripemd160_Round a b c d e (rmd_f1 b c d) x 0 r"

text \<open>Second line or first, register positions, round function, word, rotation.\<close>

type_synonym ripemd160_row = "bool \<times> nat list \<times> rmd_round \<times> nat \<times> nat"

definition ripemd160_rows_1 :: "ripemd160_row list" where
  "ripemd160_rows_1 =
     [(False, [0,1,2,3,4], R11, 0, 11), (True, [0,1,2,3,4], R12, 5, 8),
      (False, [4,0,1,2,3], R11, 1, 14), (True, [4,0,1,2,3], R12, 14, 9),
      (False, [3,4,0,1,2], R11, 2, 15), (True, [3,4,0,1,2], R12, 7, 9),
      (False, [2,3,4,0,1], R11, 3, 12), (True, [2,3,4,0,1], R12, 0, 11),
      (False, [1,2,3,4,0], R11, 4, 5), (True, [1,2,3,4,0], R12, 9, 13),
      (False, [0,1,2,3,4], R11, 5, 8), (True, [0,1,2,3,4], R12, 2, 15),
      (False, [4,0,1,2,3], R11, 6, 7), (True, [4,0,1,2,3], R12, 11, 15),
      (False, [3,4,0,1,2], R11, 7, 9), (True, [3,4,0,1,2], R12, 4, 5),
      (False, [2,3,4,0,1], R11, 8, 11), (True, [2,3,4,0,1], R12, 13, 7),
      (False, [1,2,3,4,0], R11, 9, 13), (True, [1,2,3,4,0], R12, 6, 7),
      (False, [0,1,2,3,4], R11, 10, 14), (True, [0,1,2,3,4], R12, 15, 8),
      (False, [4,0,1,2,3], R11, 11, 15), (True, [4,0,1,2,3], R12, 8, 11),
      (False, [3,4,0,1,2], R11, 12, 6), (True, [3,4,0,1,2], R12, 1, 14),
      (False, [2,3,4,0,1], R11, 13, 7), (True, [2,3,4,0,1], R12, 10, 14),
      (False, [1,2,3,4,0], R11, 14, 9), (True, [1,2,3,4,0], R12, 3, 12),
      (False, [0,1,2,3,4], R11, 15, 8), (True, [0,1,2,3,4], R12, 12, 6)]"

definition ripemd160_rows_2 :: "ripemd160_row list" where
  "ripemd160_rows_2 =
     [(False, [4,0,1,2,3], R21, 7, 7), (True, [4,0,1,2,3], R22, 6, 9),
      (False, [3,4,0,1,2], R21, 4, 6), (True, [3,4,0,1,2], R22, 11, 13),
      (False, [2,3,4,0,1], R21, 13, 8), (True, [2,3,4,0,1], R22, 3, 15),
      (False, [1,2,3,4,0], R21, 1, 13), (True, [1,2,3,4,0], R22, 7, 7),
      (False, [0,1,2,3,4], R21, 10, 11), (True, [0,1,2,3,4], R22, 0, 12),
      (False, [4,0,1,2,3], R21, 6, 9), (True, [4,0,1,2,3], R22, 13, 8),
      (False, [3,4,0,1,2], R21, 15, 7), (True, [3,4,0,1,2], R22, 5, 9),
      (False, [2,3,4,0,1], R21, 3, 15), (True, [2,3,4,0,1], R22, 10, 11),
      (False, [1,2,3,4,0], R21, 12, 7), (True, [1,2,3,4,0], R22, 14, 7),
      (False, [0,1,2,3,4], R21, 0, 12), (True, [0,1,2,3,4], R22, 15, 7),
      (False, [4,0,1,2,3], R21, 9, 15), (True, [4,0,1,2,3], R22, 8, 12),
      (False, [3,4,0,1,2], R21, 5, 9), (True, [3,4,0,1,2], R22, 12, 7),
      (False, [2,3,4,0,1], R21, 2, 11), (True, [2,3,4,0,1], R22, 4, 6),
      (False, [1,2,3,4,0], R21, 14, 7), (True, [1,2,3,4,0], R22, 9, 15),
      (False, [0,1,2,3,4], R21, 11, 13), (True, [0,1,2,3,4], R22, 1, 13),
      (False, [4,0,1,2,3], R21, 8, 12), (True, [4,0,1,2,3], R22, 2, 11)]"

definition ripemd160_rows_3 :: "ripemd160_row list" where
  "ripemd160_rows_3 =
     [(False, [3,4,0,1,2], R31, 3, 11), (True, [3,4,0,1,2], R32, 15, 9),
      (False, [2,3,4,0,1], R31, 10, 13), (True, [2,3,4,0,1], R32, 5, 7),
      (False, [1,2,3,4,0], R31, 14, 6), (True, [1,2,3,4,0], R32, 1, 15),
      (False, [0,1,2,3,4], R31, 4, 7), (True, [0,1,2,3,4], R32, 3, 11),
      (False, [4,0,1,2,3], R31, 9, 14), (True, [4,0,1,2,3], R32, 7, 8),
      (False, [3,4,0,1,2], R31, 15, 9), (True, [3,4,0,1,2], R32, 14, 6),
      (False, [2,3,4,0,1], R31, 8, 13), (True, [2,3,4,0,1], R32, 6, 6),
      (False, [1,2,3,4,0], R31, 1, 15), (True, [1,2,3,4,0], R32, 9, 14),
      (False, [0,1,2,3,4], R31, 2, 14), (True, [0,1,2,3,4], R32, 11, 12),
      (False, [4,0,1,2,3], R31, 7, 8), (True, [4,0,1,2,3], R32, 8, 13),
      (False, [3,4,0,1,2], R31, 0, 13), (True, [3,4,0,1,2], R32, 12, 5),
      (False, [2,3,4,0,1], R31, 6, 6), (True, [2,3,4,0,1], R32, 2, 14),
      (False, [1,2,3,4,0], R31, 13, 5), (True, [1,2,3,4,0], R32, 10, 13),
      (False, [0,1,2,3,4], R31, 11, 12), (True, [0,1,2,3,4], R32, 0, 13),
      (False, [4,0,1,2,3], R31, 5, 7), (True, [4,0,1,2,3], R32, 4, 7),
      (False, [3,4,0,1,2], R31, 12, 5), (True, [3,4,0,1,2], R32, 13, 5)]"

definition ripemd160_rows_4 :: "ripemd160_row list" where
  "ripemd160_rows_4 =
     [(False, [2,3,4,0,1], R41, 1, 11), (True, [2,3,4,0,1], R42, 8, 15),
      (False, [1,2,3,4,0], R41, 9, 12), (True, [1,2,3,4,0], R42, 6, 5),
      (False, [0,1,2,3,4], R41, 11, 14), (True, [0,1,2,3,4], R42, 4, 8),
      (False, [4,0,1,2,3], R41, 10, 15), (True, [4,0,1,2,3], R42, 1, 11),
      (False, [3,4,0,1,2], R41, 0, 14), (True, [3,4,0,1,2], R42, 3, 14),
      (False, [2,3,4,0,1], R41, 8, 15), (True, [2,3,4,0,1], R42, 11, 14),
      (False, [1,2,3,4,0], R41, 12, 9), (True, [1,2,3,4,0], R42, 15, 6),
      (False, [0,1,2,3,4], R41, 4, 8), (True, [0,1,2,3,4], R42, 0, 14),
      (False, [4,0,1,2,3], R41, 13, 9), (True, [4,0,1,2,3], R42, 5, 6),
      (False, [3,4,0,1,2], R41, 3, 14), (True, [3,4,0,1,2], R42, 12, 9),
      (False, [2,3,4,0,1], R41, 7, 5), (True, [2,3,4,0,1], R42, 2, 12),
      (False, [1,2,3,4,0], R41, 15, 6), (True, [1,2,3,4,0], R42, 13, 9),
      (False, [0,1,2,3,4], R41, 14, 8), (True, [0,1,2,3,4], R42, 9, 12),
      (False, [4,0,1,2,3], R41, 5, 6), (True, [4,0,1,2,3], R42, 7, 5),
      (False, [3,4,0,1,2], R41, 6, 5), (True, [3,4,0,1,2], R42, 10, 15),
      (False, [2,3,4,0,1], R41, 2, 12), (True, [2,3,4,0,1], R42, 14, 8)]"

definition ripemd160_rows_5 :: "ripemd160_row list" where
  "ripemd160_rows_5 =
     [(False, [1,2,3,4,0], R51, 4, 9), (True, [1,2,3,4,0], R52, 12, 8),
      (False, [0,1,2,3,4], R51, 0, 15), (True, [0,1,2,3,4], R52, 15, 5),
      (False, [4,0,1,2,3], R51, 5, 5), (True, [4,0,1,2,3], R52, 10, 12),
      (False, [3,4,0,1,2], R51, 9, 11), (True, [3,4,0,1,2], R52, 4, 9),
      (False, [2,3,4,0,1], R51, 7, 6), (True, [2,3,4,0,1], R52, 1, 12),
      (False, [1,2,3,4,0], R51, 12, 8), (True, [1,2,3,4,0], R52, 5, 5),
      (False, [0,1,2,3,4], R51, 2, 13), (True, [0,1,2,3,4], R52, 8, 14),
      (False, [4,0,1,2,3], R51, 10, 12), (True, [4,0,1,2,3], R52, 7, 6),
      (False, [3,4,0,1,2], R51, 14, 5), (True, [3,4,0,1,2], R52, 6, 8),
      (False, [2,3,4,0,1], R51, 1, 12), (True, [2,3,4,0,1], R52, 2, 13),
      (False, [1,2,3,4,0], R51, 3, 13), (True, [1,2,3,4,0], R52, 13, 6),
      (False, [0,1,2,3,4], R51, 8, 14), (True, [0,1,2,3,4], R52, 14, 5),
      (False, [4,0,1,2,3], R51, 11, 11), (True, [4,0,1,2,3], R52, 0, 15),
      (False, [3,4,0,1,2], R51, 6, 8), (True, [3,4,0,1,2], R52, 3, 13),
      (False, [2,3,4,0,1], R51, 15, 5), (True, [2,3,4,0,1], R52, 9, 11),
      (False, [1,2,3,4,0], R51, 13, 6), (True, [1,2,3,4,0], R52, 11, 11)]"

definition ripemd160_call ::
  "u32 list \<Rightarrow> u32 list \<times> u32 list \<Rightarrow> ripemd160_row \<Rightarrow> u32 list \<times> u32 list" where
  "ripemd160_call w st row =
     (let (v1, v2) = st; (second, p, R, i, r) = row; v = (if second then v2 else v1);
          (a, c) = R (v ! (p ! 0)) (v ! (p ! 1)) (v ! (p ! 2)) (v ! (p ! 3)) (v ! (p ! 4)) (w ! i) r;
          v' = v[p ! 0 := a, p ! 2 := c]
      in if second then (v1, v') else (v', v2))"

definition ripemd160_words :: "bytes \<Rightarrow> u32 list" where
  "ripemd160_words chunk =
     [ReadLE32 (drop 0 chunk), ReadLE32 (drop 4 chunk), ReadLE32 (drop 8 chunk), ReadLE32 (drop 12 chunk),
      ReadLE32 (drop 16 chunk), ReadLE32 (drop 20 chunk), ReadLE32 (drop 24 chunk), ReadLE32 (drop 28 chunk),
      ReadLE32 (drop 32 chunk), ReadLE32 (drop 36 chunk), ReadLE32 (drop 40 chunk), ReadLE32 (drop 44 chunk),
      ReadLE32 (drop 48 chunk), ReadLE32 (drop 52 chunk), ReadLE32 (drop 56 chunk), ReadLE32 (drop 60 chunk)]"

definition ripemd160_Transform :: "u32 list \<Rightarrow> bytes \<Rightarrow> u32 list" where
  "ripemd160_Transform s chunk =
     (let (v1, v2) = foldl (ripemd160_call (ripemd160_words chunk)) (s, s)
            (ripemd160_rows_1 @ ripemd160_rows_2 @ ripemd160_rows_3 @ ripemd160_rows_4 @ ripemd160_rows_5)
      in [s ! 1 + v1 ! 2 + v2 ! 3, s ! 2 + v1 ! 3 + v2 ! 4, s ! 3 + v1 ! 4 + v2 ! 0,
          s ! 4 + v1 ! 0 + v2 ! 1, s ! 0 + v1 ! 1 + v2 ! 2])"

subsection \<open>The published description\<close>

definition rip_rho :: "nat \<Rightarrow> nat" where
  "rip_rho i = [7, 4, 13, 1, 10, 6, 15, 3, 12, 0, 9, 5, 2, 14, 11, 8] ! i"

definition rip_pi :: "nat \<Rightarrow> nat" where
  "rip_pi i = (9 * i + 5) mod 16"

definition rip_shifts :: "nat list list" where
  "rip_shifts =
    [[11, 14, 15, 12, 5, 8, 7, 9, 11, 13, 14, 15, 6, 7, 9, 8],
     [12, 13, 11, 15, 6, 9, 9, 7, 12, 15, 11, 13, 7, 8, 7, 7],
     [13, 15, 14, 11, 7, 7, 6, 8, 13, 14, 13, 12, 5, 5, 6, 9],
     [14, 11, 12, 14, 8, 6, 5, 5, 15, 12, 15, 14, 9, 9, 8, 6],
     [15, 12, 13, 13, 9, 5, 8, 6, 14, 11, 12, 11, 8, 6, 5, 5]]"

definition rip_word1 :: "nat \<Rightarrow> nat" where
  "rip_word1 j = (rip_rho ^^ (j div 16)) (j mod 16)"

definition rip_word2 :: "nat \<Rightarrow> nat" where
  "rip_word2 j = (rip_rho ^^ (j div 16)) (rip_pi (j mod 16))"

definition rip_f :: "nat \<Rightarrow> u32 \<Rightarrow> u32 \<Rightarrow> u32 \<Rightarrow> u32" where
  "rip_f j x y z =
     (if j < 16 then x XOR y XOR z
      else if j < 32 then (x AND y) OR (NOT x AND z)
      else if j < 48 then (x OR NOT y) XOR z
      else if j < 64 then (x AND z) OR (y AND NOT z)
      else x XOR (y OR NOT z))"

definition rip_K1 :: "u32 list" where
  "rip_K1 = [0, 0x5A827999, 0x6ED9EBA1, 0x8F1BBCDC, 0xA953FD4E]"

definition rip_K2 :: "u32 list" where
  "rip_K2 = [0x50A28BE6, 0x5C4DD124, 0x6D703EF3, 0x7A6D76E9, 0]"

definition rip_step :: "(u32 \<Rightarrow> u32 \<Rightarrow> u32 \<Rightarrow> u32) \<Rightarrow> u32 \<Rightarrow> u32 \<Rightarrow> nat \<Rightarrow> u32 list \<Rightarrow> u32 list" where
  "rip_step f x k s v =
     (case v of [a, b, c, d, e] \<Rightarrow>
        [e, word_rotl s (a + f b c d + x + k) + e, b, word_rotl 10 c, d] | _ \<Rightarrow> v)"

definition rip_line1 :: "bytes \<Rightarrow> u32 list \<Rightarrow> nat \<Rightarrow> u32 list" where
  "rip_line1 M v j = rip_step (rip_f j) (ReadLE32 (drop (4 * rip_word1 j) M)) (rip_K1 ! (j div 16))
     (rip_shifts ! (j div 16) ! rip_word1 j) v"

definition rip_line2 :: "bytes \<Rightarrow> u32 list \<Rightarrow> nat \<Rightarrow> u32 list" where
  "rip_line2 M v j = rip_step (rip_f (79 - j)) (ReadLE32 (drop (4 * rip_word2 j) M)) (rip_K2 ! (j div 16))
     (rip_shifts ! (j div 16) ! rip_word2 j) v"

definition rip_compress :: "u32 list \<Rightarrow> bytes \<Rightarrow> u32 list" where
  "rip_compress s M =
     (let l = foldl (rip_line1 M) s [0..<80]; r = foldl (rip_line2 M) s [0..<80]
      in [s ! 1 + l ! 2 + r ! 3, s ! 2 + l ! 3 + r ! 4, s ! 3 + l ! 4 + r ! 0,
          s ! 4 + l ! 0 + r ! 1, s ! 0 + l ! 1 + r ! 2])"


subsection \<open>The interleaved rounds compute it\<close>

definition rip_row1 :: "nat \<Rightarrow> ripemd160_row" where
  "rip_row1 t = (False, pos5 t, [R11, R21, R31, R41, R51] ! (t div 16), rip_word1 t,
     rip_shifts ! (t div 16) ! rip_word1 t)"

definition rip_row2 :: "nat \<Rightarrow> ripemd160_row" where
  "rip_row2 t = (True, pos5 t, [R12, R22, R32, R42, R52] ! (t div 16), rip_word2 t,
     rip_shifts ! (t div 16) ! rip_word2 t)"

definition rip_rows :: "nat \<Rightarrow> nat \<Rightarrow> ripemd160_row list" where
  "rip_rows k n = concat (map (\<lambda>t. [rip_row1 t, rip_row2 t]) [k..<n])"

text \<open>A table of calls is determined by its numbers and its round functions.\<close>

definition row_numbers :: "ripemd160_row \<Rightarrow> bool \<times> nat list \<times> nat \<times> nat" where
  "row_numbers row = (case row of (l, p, R, i, r) \<Rightarrow> (l, p, i, r))"

definition row_round :: "ripemd160_row \<Rightarrow> rmd_round" where
  "row_round row = (case row of (l, p, R, i, r) \<Rightarrow> R)"

lemma rows_eqI:
  "map row_numbers xs = map row_numbers ys \<Longrightarrow> map row_round xs = map row_round ys \<Longrightarrow> xs = ys"
proof (induction xs arbitrary: ys)
  case (Cons x xs)
  then obtain y ys' where "ys = y # ys'" by (cases ys) auto
  with Cons show ?case
    by (cases x; cases y) (auto simp: row_numbers_def row_round_def)
qed simp

lemma rmd_rows_1: "ripemd160_rows_1 = rip_rows 0 16"
proof (rule rows_eqI)
  show "map row_numbers ripemd160_rows_1 = map row_numbers (rip_rows 0 16)" by code_simp
  show "map row_round ripemd160_rows_1 = map row_round (rip_rows 0 16)"
    by (simp add: rip_rows_def ripemd160_rows_1_def row_round_def rip_row1_def rip_row2_def upt_rec)
qed

lemma rmd_rows_2: "ripemd160_rows_2 = rip_rows 16 32"
proof (rule rows_eqI)
  show "map row_numbers ripemd160_rows_2 = map row_numbers (rip_rows 16 32)" by code_simp
  show "map row_round ripemd160_rows_2 = map row_round (rip_rows 16 32)"
    by (simp add: rip_rows_def ripemd160_rows_2_def row_round_def rip_row1_def rip_row2_def upt_rec)
qed

lemma rmd_rows_3: "ripemd160_rows_3 = rip_rows 32 48"
proof (rule rows_eqI)
  show "map row_numbers ripemd160_rows_3 = map row_numbers (rip_rows 32 48)" by code_simp
  show "map row_round ripemd160_rows_3 = map row_round (rip_rows 32 48)"
    by (simp add: rip_rows_def ripemd160_rows_3_def row_round_def rip_row1_def rip_row2_def upt_rec)
qed

lemma rmd_rows_4: "ripemd160_rows_4 = rip_rows 48 64"
proof (rule rows_eqI)
  show "map row_numbers ripemd160_rows_4 = map row_numbers (rip_rows 48 64)" by code_simp
  show "map row_round ripemd160_rows_4 = map row_round (rip_rows 48 64)"
    by (simp add: rip_rows_def ripemd160_rows_4_def row_round_def rip_row1_def rip_row2_def upt_rec)
qed

lemma rmd_rows_5: "ripemd160_rows_5 = rip_rows 64 80"
proof (rule rows_eqI)
  show "map row_numbers ripemd160_rows_5 = map row_numbers (rip_rows 64 80)" by code_simp
  show "map row_round ripemd160_rows_5 = map row_round (rip_rows 64 80)"
    by (simp add: rip_rows_def ripemd160_rows_5_def row_round_def rip_row1_def rip_row2_def upt_rec)
qed

lemma rip_rows_append: "i \<le> j \<Longrightarrow> j \<le> k \<Longrightarrow> rip_rows i j @ rip_rows j k = rip_rows i k"
proof -
  assume "i \<le> j" "j \<le> k"
  then have "[i..<k] = [i..<j] @ [j..<k]" by (metis le_add_diff_inverse upt_add_eq_append)
  then show ?thesis by (simp add: rip_rows_def)
qed

lemma ripemd160_all_rows:
  "ripemd160_rows_1 @ ripemd160_rows_2 @ ripemd160_rows_3 @ ripemd160_rows_4 @ ripemd160_rows_5
   = rip_rows 0 80"
  by (simp add: rmd_rows_1 rmd_rows_2 rmd_rows_3 rmd_rows_4 rmd_rows_5 rip_rows_append)

lemma rip_tables_in_range:
  "\<forall>t\<in>set [0..<80]. rip_word1 t < 16 \<and> rip_word2 t < 16
     \<and> 0 < rip_shifts ! (t div 16) ! rip_word1 t \<and> rip_shifts ! (t div 16) ! rip_word1 t < 32
     \<and> 0 < rip_shifts ! (t div 16) ! rip_word2 t \<and> rip_shifts ! (t div 16) ! rip_word2 t < 32"
  by code_simp

lemma rol_rotl: "0 < i \<Longrightarrow> i < 32 \<Longrightarrow> rol x i = word_rotl i x"
  by (simp add: rol_def rotate_left_as_shifts)

lemma nth_words: "i < 16 \<Longrightarrow> ripemd160_words M ! i = ReadLE32 (drop (4 * i) M)"
  by (auto simp: ripemd160_words_def less_Suc_eq numeral_eq_Suc)

lemma div_16_cases:
  fixes t :: nat
  assumes "t < 80"
  obtains "t < 16" "\<not> 79 - t < 64" "t div 16 = 0"
    | "\<not> t < 16" "t < 32" "79 - t < 64" "\<not> 79 - t < 48" "t div 16 = 1"
    | "\<not> t < 32" "t < 48" "79 - t < 48" "\<not> 79 - t < 32" "t div 16 = 2"
    | "\<not> t < 48" "t < 64" "79 - t < 32" "\<not> 79 - t < 16" "t div 16 = 3"
    | "\<not> t < 64" "79 - t < 16" "t div 16 = 4"
proof -
  have "t div 16 < 5" using assms by (simp add: div_less_iff_less_mult)
  moreover have "16 * (t div 16) \<le> t" "t < 16 * (t div 16) + 16" by linarith+
  moreover define q where "q = t div 16"
  ultimately have q: "q < 5" "16 * q \<le> t" "t < 16 * q + 16" by simp_all
  then consider "q = 0" | "q = 1" | "q = 2" | "q = 3" | "q = 4" by linarith
  then show thesis
    using q that unfolding q_def [symmetric] by cases simp_all
qed

lemma line1_round:
  assumes "t < 80" "0 < r" "r < 32"
  shows "([R11, R21, R31, R41, R51] ! (t div 16)) a b c d e x r
    = (word_rotl r (a + rip_f t b c d + x + rip_K1 ! (t div 16)) + e, word_rotl 10 c)"
  using assms(1) by (rule div_16_cases)
    (simp_all add: R11_def R21_def R31_def R41_def R51_def ripemd160_Round_def rol_rotl assms(2,3)
      rip_f_def rip_K1_def rmd_f1_def rmd_f2_def rmd_f3_def rmd_f4_def rmd_f5_def)

lemma line2_round:
  assumes "t < 80" "0 < r" "r < 32"
  shows "([R12, R22, R32, R42, R52] ! (t div 16)) a b c d e x r
    = (word_rotl r (a + rip_f (79 - t) b c d + x + rip_K2 ! (t div 16)) + e, word_rotl 10 c)"
  using assms(1) by (rule div_16_cases)
    (simp_all add: R12_def R22_def R32_def R42_def R52_def ripemd160_Round_def rol_rotl assms(2,3)
      rip_f_def rip_K2_def rmd_f1_def rmd_f2_def rmd_f3_def rmd_f4_def rmd_f5_def)

lemma rip_step_view:
  assumes "length v = 5"
  shows "rip_step f x k s (view5 t v) = [view5 t v ! 4,
      word_rotl s (view5 t v ! 0 + f (view5 t v ! 1) (view5 t v ! 2) (view5 t v ! 3) + x + k) + view5 t v ! 4,
      view5 t v ! 1, word_rotl 10 (view5 t v ! 2), view5 t v ! 3]"
  by (simp add: rip_step_def view5_def pos5_def upt_5)

lemma view5_round:
  "length v = 5 \<Longrightarrow> view5 (Suc t) (v[pos5 t ! 0 := a, pos5 t ! 2 := c]) =
    [view5 t v ! 4, a, view5 t v ! 1, c, view5 t v ! 3]"
  by (simp add: view5_Suc view5_update)

lemma call_row1:
  assumes v: "length v1 = 5" and t: "t < 80"
  obtains v1' where "ripemd160_call (ripemd160_words M) (v1, v2) (rip_row1 t) = (v1', v2)"
    "length v1' = 5" "view5 (Suc t) v1' = rip_line1 M (view5 t v1) t"
proof -
  have "rip_word1 t < 16" "0 < rip_shifts ! (t div 16) ! rip_word1 t"
    "rip_shifts ! (t div 16) ! rip_word1 t < 32" using rip_tables_in_range t by auto
  then show thesis
    using that v by (simp add: ripemd160_call_def rip_row1_def line1_round t view5_nth view5_round
        rip_line1_def rip_step_view nth_words)
qed

lemma call_row2:
  assumes v: "length v2 = 5" and t: "t < 80"
  obtains v2' where "ripemd160_call (ripemd160_words M) (v1, v2) (rip_row2 t) = (v1, v2')"
    "length v2' = 5" "view5 (Suc t) v2' = rip_line2 M (view5 t v2) t"
proof -
  have "rip_word2 t < 16" "0 < rip_shifts ! (t div 16) ! rip_word2 t"
    "rip_shifts ! (t div 16) ! rip_word2 t < 32" using rip_tables_in_range t by auto
  then show thesis
    using that v by (simp add: ripemd160_call_def rip_row2_def line2_round t view5_nth view5_round
        rip_line2_def rip_step_view nth_words)
qed

lemma rmd_rows_inv:
  assumes s: "length s = 5" and n: "n \<le> 80"
  shows "\<exists>v1 v2. foldl (ripemd160_call (ripemd160_words M)) (s, s) (rip_rows 0 n) = (v1, v2)
    \<and> length v1 = 5 \<and> length v2 = 5
    \<and> view5 n v1 = foldl (rip_line1 M) s [0..<n] \<and> view5 n v2 = foldl (rip_line2 M) s [0..<n]"
  using n
proof (induction n)
  case 0
  then show ?case using s by (simp add: rip_rows_def view5_0)
next
  case (Suc n)
  then obtain v1 v2 where v: "foldl (ripemd160_call (ripemd160_words M)) (s, s) (rip_rows 0 n) = (v1, v2)"
    "length v1 = 5" "length v2 = 5" "view5 n v1 = foldl (rip_line1 M) s [0..<n]"
    "view5 n v2 = foldl (rip_line2 M) s [0..<n]" by auto
  have n: "n < 80" using Suc.prems by simp
  obtain v1' where 1: "ripemd160_call (ripemd160_words M) (v1, v2) (rip_row1 n) = (v1', v2)"
    "length v1' = 5" "view5 (Suc n) v1' = rip_line1 M (view5 n v1) n"
    using call_row1 [OF v(2) n] .
  obtain v2' where 2: "ripemd160_call (ripemd160_words M) (v1', v2) (rip_row2 n) = (v1', v2')"
    "length v2' = 5" "view5 (Suc n) v2' = rip_line2 M (view5 n v2) n"
    using call_row2 [OF v(3) n] .
  have "rip_rows 0 (Suc n) = rip_rows 0 n @ [rip_row1 n, rip_row2 n]" by (simp add: rip_rows_def)
  then show ?case using v 1 2 by simp
qed

lemma ripemd160_Transform_is_rip:
  assumes "length s = 5"
  shows "ripemd160_Transform s chunk = rip_compress s chunk"
proof -
  obtain v1 v2 where v: "foldl (ripemd160_call (ripemd160_words chunk)) (s, s) (rip_rows 0 80) = (v1, v2)"
    "length v1 = 5" "length v2 = 5" "view5 80 v1 = foldl (rip_line1 chunk) s [0..<80]"
    "view5 80 v2 = foldl (rip_line2 chunk) s [0..<80]"
    using rmd_rows_inv [OF assms, of 80 chunk] by auto
  have "view5 80 v1 = v1" "view5 80 v2 = v2"
    using view5_0 [OF v(2)] view5_0 [OF v(3)] by (simp_all add: view5_def pos5_def)
  then show ?thesis
    using v by (simp only: ripemd160_Transform_def ripemd160_all_rows rip_compress_def Let_def) simp
qed

subsection \<open>The class \<open>CRIPEMD160\<close>\<close>

type_synonym CRIPEMD160 = "u32 list hasher"

definition CRIPEMD160_new :: CRIPEMD160 where
  "CRIPEMD160_new = \<lparr>hs = ripemd160_Initialize, hbuf = replicate 64 0, hbytes = 0\<rparr>"

definition CRIPEMD160_Write :: "CRIPEMD160 \<Rightarrow> bytes \<Rightarrow> CRIPEMD160" where
  "CRIPEMD160_Write c data = stream_write 64 ripemd160_Transform c data"

definition CRIPEMD160_Finalize :: "CRIPEMD160 \<Rightarrow> bytes" where
  "CRIPEMD160_Finalize c = concat (map WriteLE32 (take 5 (finish64 ripemd160_Transform WriteLE64 c)))"

definition CRIPEMD160_Reset :: "CRIPEMD160 \<Rightarrow> CRIPEMD160" where
  "CRIPEMD160_Reset c = c\<lparr>hbytes := 0, hs := ripemd160_Initialize\<rparr>"

lemma ReadLE32_take: "off + 4 \<le> n \<Longrightarrow> n \<le> length p \<Longrightarrow>
  ReadLE32 (drop off (take n p)) = ReadLE32 (drop off p)"
  by (simp add: ReadLE32_def)

lemma ripemd160_Transform_take:
  "64 \<le> length p \<Longrightarrow> ripemd160_Transform s p = ripemd160_Transform s (take 64 p)"
proof -
  assume "64 \<le> length p"
  then have "ripemd160_words (take 64 p) = ripemd160_words p"
    by (simp add: ripemd160_words_def ReadLE32_take [of _ 64] ReadLE32_take [of 0 64, simplified])
  then show ?thesis by (simp only: ripemd160_Transform_def)
qed

interpretation ripemd160: block64_function ripemd160_Transform
  by unfold_locales (simp_all, rule ripemd160_Transform_take)

definition ripemd160_spec :: "bytes \<Rightarrow> bytes" where
  "ripemd160_spec m =
     concat (map WriteLE32 (hash_blocks 64 rip_compress ripemd160_Initialize (padded64 WriteLE64 m)))"

lemma ripemd160_blocks_rip:
  "hash_blocks 64 ripemd160_Transform ripemd160_Initialize m = hash_blocks 64 rip_compress ripemd160_Initialize m
   \<and> length (hash_blocks 64 ripemd160_Transform ripemd160_Initialize m) = 5"
  by (rule hash_blocks_cong [where P = "\<lambda>s. length s = 5"])
    (simp_all add: ripemd160_Initialize_def ripemd160_Transform_is_rip rip_compress_def Let_def)

lemma CRIPEMD160_new_absorbed: "absorbed 64 ripemd160_Transform ripemd160_Initialize CRIPEMD160_new []"
  unfolding CRIPEMD160_new_def by (rule ripemd160.absorbed_init) simp

lemma CRIPEMD160_absorbed_Finalize:
  "absorbed 64 ripemd160_Transform ripemd160_Initialize c m \<Longrightarrow> CRIPEMD160_Finalize c = ripemd160_spec m"
  using ripemd160_blocks_rip [of "padded64 WriteLE64 m"]
  by (metis CRIPEMD160_Finalize_def order_refl ripemd160.finish64_spec ripemd160_spec_def take_all)

lemma CRIPEMD160_Write_absorbed:
  "absorbed 64 ripemd160_Transform s0 c m \<Longrightarrow>
   absorbed 64 ripemd160_Transform s0 (CRIPEMD160_Write c d) (m @ d)"
  unfolding CRIPEMD160_Write_def by (rule ripemd160.absorbed_write)

lemma length_ripemd160_spec [len_simps]: "length (ripemd160_spec m) = 20"
proof -
  have "length (hash_blocks 64 rip_compress ripemd160_Initialize (padded64 WriteLE64 m)) = 5"
    using ripemd160_blocks_rip [of "padded64 WriteLE64 m"] by metis
  then show ?thesis
    using length_5_cases [of "hash_blocks 64 rip_compress ripemd160_Initialize (padded64 WriteLE64 m)"]
    by (auto simp: ripemd160_spec_def)
qed

subsection \<open>Properties\<close>

text \<open>
  \<open>CRIPEMD160\<close> computes RIPEMD-160 as published (word order generated by \<open>\<rho>\<close> and
  \<open>\<pi>\<close>, two independent lines of 80 steps) of the concatenation of what was written to it,
  however the message was cut.
\<close>

theorem CRIPEMD160_streaming:
  "CRIPEMD160_Finalize (foldl CRIPEMD160_Write CRIPEMD160_new ds) = ripemd160_spec (concat ds)"
proof -
  have "CRIPEMD160_Write = stream_write 64 ripemd160_Transform"
    by (simp add: fun_eq_iff CRIPEMD160_Write_def)
  then show ?thesis
    using ripemd160.absorbed_writes [OF CRIPEMD160_new_absorbed, of ds] CRIPEMD160_absorbed_Finalize
    by simp
qed

end
