(* ===== verification/Hash_Classes.thy ===== *)
theory Hash_Classes imports Sha256 Ripemd160 begin

text \<open>
  The hashers built from the two compression functions: \<open>CHash256\<close> and \<open>CHash160\<close> of
  \<open>src/src/hash.h\<close> and \<open>CHMAC_SHA256\<close> of \<open>src/src/crypto/hmac_sha256.cpp\<close>.
\<close>

unbundle bit_operations_syntax

subsection \<open>\<open>CHash256\<close> and \<open>CHash160\<close>\<close>

definition CHash256_Write :: "CSHA256 \<Rightarrow> bytes \<Rightarrow> CSHA256" where
  "CHash256_Write sha data = CSHA256_Write sha data"

text \<open>
  \<open>sha.Finalize (buf)\<close> leaves \<open>sha\<close> with the padding absorbed; \<open>Reset\<close> then only clears the
  counter and the chaining state, so the model keeps the hasher and its stale buffer.
\<close>

definition CSHA256_after_Finalize :: "CSHA256 \<Rightarrow> CSHA256" where
  "CSHA256_after_Finalize c =
     CSHA256_Write (CSHA256_Write c (take (pad_length c) pad_array)) (WriteBE64 (push_bit 3 (hbytes c)))"

definition CHash256_Finalize :: "CSHA256 \<Rightarrow> bytes" where
  "CHash256_Finalize sha =
     (let buf = CSHA256_Finalize sha
      in CSHA256_Finalize (CSHA256_Write (CSHA256_Reset (CSHA256_after_Finalize sha)) buf))"

definition CHash256_Reset :: "CSHA256 \<Rightarrow> CSHA256" where
  "CHash256_Reset sha = CSHA256_Reset sha"

definition CHash160_Write :: "CSHA256 \<Rightarrow> bytes \<Rightarrow> CSHA256" where
  "CHash160_Write sha data = CSHA256_Write sha data"

definition CHash160_Finalize :: "CSHA256 \<Rightarrow> bytes" where
  "CHash160_Finalize sha =
     (let buf = CSHA256_Finalize sha in CRIPEMD160_Finalize (CRIPEMD160_Write CRIPEMD160_new buf))"

definition CHash160_Reset :: "CSHA256 \<Rightarrow> CSHA256" where
  "CHash160_Reset sha = CSHA256_Reset sha"

subsection \<open>\<open>CHMAC_SHA256\<close>\<close>

record hmac_sha256 =
  outer :: CSHA256
  inner :: CSHA256

definition CHMAC_SHA256_new :: "bytes \<Rightarrow> hmac_sha256" where
  "CHMAC_SHA256_new key =
     (let rkey = (if length key \<le> 64 then key @ replicate (64 - length key) 0
                  else CSHA256_Finalize (CSHA256_Write CSHA256_new key) @ replicate 32 0);
          rkey1 = map (\<lambda>b. b XOR 0x5c) rkey;
          out = CSHA256_Write CSHA256_new rkey1;
          rkey2 = map (\<lambda>b. b XOR (0x5c XOR 0x36)) rkey1
      in \<lparr>outer = out, inner = CSHA256_Write CSHA256_new rkey2\<rparr>)"

definition CHMAC_SHA256_Write :: "hmac_sha256 \<Rightarrow> bytes \<Rightarrow> hmac_sha256" where
  "CHMAC_SHA256_Write h data = h\<lparr>inner := CSHA256_Write (inner h) data\<rparr>"

definition CHMAC_SHA256_Finalize :: "hmac_sha256 \<Rightarrow> bytes" where
  "CHMAC_SHA256_Finalize h =
     (let temp = CSHA256_Finalize (inner h) in CSHA256_Finalize (CSHA256_Write (outer h) temp))"

subsection \<open>Specifications\<close>

definition hash256_spec :: "bytes \<Rightarrow> bytes" where
  "hash256_spec m = sha256_spec (sha256_spec m)"

definition hash160_spec :: "bytes \<Rightarrow> bytes" where
  "hash160_spec m = ripemd160_spec (sha256_spec m)"

text \<open>RFC 2104: the key padded to a block, hashed first when longer.\<close>

definition hmac_key :: "bytes \<Rightarrow> bytes" where
  "hmac_key key = (let k = (if length key \<le> 64 then key else sha256_spec key)
                   in k @ replicate (64 - length k) 0)"

definition hmac_sha256_spec :: "bytes \<Rightarrow> bytes \<Rightarrow> bytes" where
  "hmac_sha256_spec key m =
     sha256_spec (map (\<lambda>b. b XOR 0x5c) (hmac_key key) @
       sha256_spec (map (\<lambda>b. b XOR 0x36) (hmac_key key) @ m))"

lemma length_hash256_spec [len_simps]: "length (hash256_spec m) = 32"
  by (simp add: hash256_spec_def length_sha256_spec)

lemma length_hash160_spec [len_simps]: "length (hash160_spec m) = 20"
  by (simp add: hash160_spec_def length_ripemd160_spec)

lemma CSHA256_Write_eq: "CSHA256_Write = stream_write 64 sha256_Transform"
  by (simp add: fun_eq_iff CSHA256_Write_def)

lemma absorbed_foldl_Write:
  "absorbed 64 sha256_Transform s0 c m \<Longrightarrow>
   absorbed 64 sha256_Transform s0 (foldl CSHA256_Write c ds) (m @ concat ds)"
  unfolding CSHA256_Write_eq by (rule sha256.absorbed_writes)

lemma CSHA256_digest: "CSHA256_Finalize (CSHA256_Write CSHA256_new m) = sha256_spec m"
  using CSHA256_absorbed_Finalize [OF CSHA256_Write_absorbed [OF CSHA256_new_absorbed, of m]] by simp

lemma CRIPEMD160_digest: "CRIPEMD160_Finalize (CRIPEMD160_Write CRIPEMD160_new m) = ripemd160_spec m"
  using CRIPEMD160_absorbed_Finalize [OF CRIPEMD160_Write_absorbed [OF CRIPEMD160_new_absorbed, of m]]
  by simp

lemma CHash256_Finalize_absorbed:
  assumes "absorbed 64 sha256_Transform sha256_Initialize c m"
  shows "CHash256_Finalize c = hash256_spec m"
proof -
  have "absorbed 64 sha256_Transform sha256_Initialize (CSHA256_Reset (CSHA256_after_Finalize c)) []"
    unfolding CSHA256_after_Finalize_def
    by (rule CSHA256_Reset_absorbed [OF CSHA256_Write_absorbed [OF CSHA256_Write_absorbed [OF assms]]])
  from CSHA256_absorbed_Finalize [OF CSHA256_Write_absorbed [OF this, of "sha256_spec m"]]
  show ?thesis
    using CSHA256_absorbed_Finalize [OF assms] by (simp add: CHash256_Finalize_def hash256_spec_def)
qed

lemma CHash160_Finalize_absorbed:
  "absorbed 64 sha256_Transform sha256_Initialize c m \<Longrightarrow> CHash160_Finalize c = hash160_spec m"
  by (simp add: CHash160_Finalize_def CSHA256_absorbed_Finalize CRIPEMD160_digest hash160_spec_def)

lemma hmac_key_code:
  "(if length key \<le> 64 then key @ replicate (64 - length key) 0
    else CSHA256_Finalize (CSHA256_Write CSHA256_new key) @ replicate 32 0) = hmac_key key"
  by (simp add: hmac_key_def CSHA256_digest length_sha256_spec)

lemma byte_xor_pads: "(b XOR 0x5c) XOR 0x6a = (b XOR 0x36 :: byte)"
  by (simp add: xor.assoc)

subsection \<open>Properties\<close>

text \<open>
  \<open>CHash256\<close> and \<open>CHash160\<close> return SHA-256 of SHA-256, and RIPEMD-160 of SHA-256, of the
  concatenation of everything written, for every way of cutting the message; re-using the
  inner hasher (with its stale buffer) after \<open>Finalize\<close> and \<open>Reset\<close> is sound.
\<close>

theorem CHash256_CHash160_streaming:
  "CHash256_Finalize (foldl CHash256_Write CSHA256_new ds) = hash256_spec (concat ds)
   \<and> CHash160_Finalize (foldl CHash160_Write CSHA256_new ds) = hash160_spec (concat ds)"
proof -
  have "CHash256_Write = CSHA256_Write" "CHash160_Write = CSHA256_Write"
    by (simp_all add: fun_eq_iff CHash256_Write_def CHash160_Write_def)
  then show ?thesis
    using absorbed_foldl_Write [OF CSHA256_new_absorbed, of ds]
    by (simp add: CHash256_Finalize_absorbed CHash160_Finalize_absorbed)
qed

text \<open>
  \<open>CHMAC_SHA256\<close> is HMAC of RFC 2104 over SHA-256 for keys of every length (a key longer
  than a block is hashed first) and messages written in any pieces; the in-place change of
  the key from the outer to the inner pad is right.
\<close>

theorem CHMAC_SHA256_streaming:
  "CHMAC_SHA256_Finalize (foldl CHMAC_SHA256_Write (CHMAC_SHA256_new key) ds) =
   hmac_sha256_spec key (concat ds)"
proof -
  have w: "foldl CHMAC_SHA256_Write h ds = h\<lparr>inner := foldl CSHA256_Write (inner h) ds\<rparr>" for h
    by (induction ds arbitrary: h) (simp_all add: CHMAC_SHA256_Write_def)
  let ?o = "map (\<lambda>b. b XOR 0x5c) (hmac_key key)" and ?i = "map (\<lambda>b. b XOR 0x36) (hmac_key key)"
  have k: "CHMAC_SHA256_new key =
      \<lparr>outer = CSHA256_Write CSHA256_new ?o, inner = CSHA256_Write CSHA256_new ?i\<rparr>"
    unfolding CHMAC_SHA256_new_def hmac_key_code by (simp add: Let_def byte_xor_pads comp_def)
  have "CSHA256_Finalize (foldl CSHA256_Write (CSHA256_Write CSHA256_new ?i) ds)
      = sha256_spec (?i @ concat ds)"
    using CSHA256_absorbed_Finalize [OF absorbed_foldl_Write
        [OF CSHA256_Write_absorbed [OF CSHA256_new_absorbed, of ?i], of ds]] by simp
  moreover have "CSHA256_Finalize (CSHA256_Write (CSHA256_Write CSHA256_new ?o) t) = sha256_spec (?o @ t)" for t
    using CSHA256_absorbed_Finalize [OF CSHA256_Write_absorbed
        [OF CSHA256_Write_absorbed [OF CSHA256_new_absorbed, of ?o], of t]] by simp
  ultimately show ?thesis
    by (simp add: w k CHMAC_SHA256_Finalize_def hmac_sha256_spec_def)
qed

end
