(* ===== verification/Keys.thy ===== *)
theory Keys imports Script_Dest Serialize Hash_Classes begin

text \<open>
  Keys (\<open>src/src/pubkey.cpp\<close>, \<open>src/src/key.cpp\<close>, \<open>src/src/key.h\<close>) and \<open>BIP32Hash\<close> of
  \<open>src/src/hash.cpp\<close>: the lax DER parser, the DER form of private keys, \<open>CPubKey\<close>, \<open>CKey\<close> and
  hierarchical derivation. The functions of libsecp256k1 are the fields of a record, HMAC-SHA512
  is a parameter, and a failed \<open>assert\<close> is \<open>None\<close>.
\<close>

unbundle bit_operations_syntax

record ('pk, 'sig) secp256k1 =
  ecdsa_signature_parse_compact :: "bytes \<Rightarrow> bool \<times> 'sig"
  ec_pubkey_parse :: "bytes \<Rightarrow> 'pk option"
  ec_pubkey_serialize :: "'pk \<Rightarrow> bool \<Rightarrow> bytes"
  ec_pubkey_create :: "bytes \<Rightarrow> 'pk option"
  ec_pubkey_tweak_add :: "'pk \<Rightarrow> bytes \<Rightarrow> 'pk option"
  ec_privkey_tweak_add :: "bytes \<Rightarrow> bytes \<Rightarrow> bool \<times> bytes"
  ec_seckey_verify :: "bytes \<Rightarrow> bool"
  ecdsa_signature_normalize :: "'sig \<Rightarrow> bool \<times> 'sig"
  ecdsa_verify :: "'sig \<Rightarrow> bytes \<Rightarrow> 'pk \<Rightarrow> bool"
  ecdsa_recover_compact :: "bytes \<Rightarrow> nat \<Rightarrow> bytes \<Rightarrow> 'pk option"
  ecdsa_sign :: "bytes \<Rightarrow> bytes \<Rightarrow> bytes option \<Rightarrow> 'sig"
  ecdsa_signature_serialize_der :: "'sig \<Rightarrow> bytes"
  ecdsa_sign_recoverable :: "bytes \<Rightarrow> bytes \<Rightarrow> bytes \<times> nat"

subsection \<open>Lax DER signatures\<close>

text \<open>
  The parser walks over \<open>input\<close>; \<open>pos\<close> is the part that is left, so \<open>pos = inputlen\<close> is \<open>[]\<close>.
  Lengths are \<open>size_t\<close>, of eight bytes; at most seven bytes are accumulated.
\<close>

definition sizeof_size_t :: nat where "sizeof_size_t = 8"

fun lax_skip_zeros :: "nat \<Rightarrow> bytes \<Rightarrow> nat \<times> bytes" where
  "lax_skip_zeros 0 pos = (0, pos)"
| "lax_skip_zeros (Suc lenbyte) pos =
     (if hd pos = 0 then lax_skip_zeros lenbyte (tl pos) else (Suc lenbyte, pos))"

fun lax_be_length :: "nat \<Rightarrow> nat \<Rightarrow> bytes \<Rightarrow> nat \<times> bytes" where
  "lax_be_length 0 rlen pos = (rlen, pos)"
| "lax_be_length (Suc lenbyte) rlen pos =
     lax_be_length lenbyte ((rlen * 256 + unat (hd pos)) mod 2 ^ 64) (tl pos)"

definition lax_int_length :: "bytes \<Rightarrow> (nat \<times> bytes) option" where
  "lax_int_length pos =
     (case pos of [] \<Rightarrow> None
      | b # pos \<Rightarrow>
          if b AND 0x80 \<noteq> 0 then
            (let lenbyte = unat b - 0x80 in
             if lenbyte > length pos then None
             else case lax_skip_zeros lenbyte pos of (lenbyte, pos) \<Rightarrow>
               if lenbyte \<ge> sizeof_size_t then None else Some (lax_be_length lenbyte 0 pos))
          else Some (unat b, pos))"

definition lax_int :: "bytes \<Rightarrow> (bytes \<times> bytes) option" where
  "lax_int pos =
     (case pos of [] \<Rightarrow> None
      | b # pos \<Rightarrow>
          if b \<noteq> 0x02 then None
          else case lax_int_length pos of None \<Rightarrow> None
            | Some (rlen, pos) \<Rightarrow> if rlen > length pos then None else Some (take rlen pos, drop rlen pos))"

definition lax_sequence :: "bytes \<Rightarrow> bytes option" where
  "lax_sequence pos =
     (case pos of [] \<Rightarrow> None
      | b # pos \<Rightarrow>
          if b \<noteq> 0x30 then None
          else case pos of [] \<Rightarrow> None
            | b # pos \<Rightarrow>
                if b AND 0x80 \<noteq> 0 then
                  (let lenbyte = unat b - 0x80 in
                   if lenbyte > length pos then None else Some (drop lenbyte pos))
                else Some pos)"

text \<open>The octets of R and S.\<close>

definition der_lax :: "bytes \<Rightarrow> (bytes \<times> bytes) option" where
  "der_lax input =
     (case lax_sequence input of None \<Rightarrow> None
      | Some pos \<Rightarrow>
          (case lax_int pos of None \<Rightarrow> None
           | Some (r, pos) \<Rightarrow>
               (case lax_int pos of None \<Rightarrow> None | Some (s, pos) \<Rightarrow> Some (r, s))))"

text \<open>The 32 bytes of an integer, \<open>None\<close> for \<open>overflow = 1\<close>.\<close>

definition lax_copy :: "bytes \<Rightarrow> bytes option" where
  "lax_copy r =
     (let r = dropWhile (\<lambda>b. b = 0) r
      in if length r > 32 then None else Some (replicate (32 - length r) 0 @ r))"

definition ecdsa_signature_parse_der_lax :: "('pk, 'sig) secp256k1 \<Rightarrow> bytes \<Rightarrow> 'sig option" where
  "ecdsa_signature_parse_der_lax C input =
     (let zero_sig = snd (ecdsa_signature_parse_compact C (replicate 64 0)) in
      case der_lax input of None \<Rightarrow> None
      | Some (r, s) \<Rightarrow>
          (case (lax_copy r, lax_copy s) of
             (Some r32, Some s32) \<Rightarrow>
               (case ecdsa_signature_parse_compact C (r32 @ s32) of (ok, sig) \<Rightarrow>
                  Some (if ok then sig else zero_sig))
           | _ \<Rightarrow> Some zero_sig))"

subsection \<open>Public keys\<close>

definition CPubKey_size :: "CPubKey \<Rightarrow> nat" where
  "CPubKey_size k = length (CPubKey_bytes k)"

definition CPubKey_IsValid :: "CPubKey \<Rightarrow> bool" where
  "CPubKey_IsValid k \<longleftrightarrow> CPubKey_size k > 0"

definition CPubKey_IsCompressed :: "CPubKey \<Rightarrow> bool" where
  "CPubKey_IsCompressed k \<longleftrightarrow> CPubKey_size k = 33"

definition CPubKey_Verify :: "('pk, 'sig) secp256k1 \<Rightarrow> CPubKey \<Rightarrow> bytes \<Rightarrow> bytes \<Rightarrow> bool" where
  "CPubKey_Verify C k hsh vchSig =
     (if \<not> CPubKey_IsValid k then False
      else case ec_pubkey_parse C (CPubKey_bytes k) of None \<Rightarrow> False
      | Some pubkey \<Rightarrow>
          if length vchSig = 0 then False
          else case ecdsa_signature_parse_der_lax C vchSig of None \<Rightarrow> False
          | Some sig \<Rightarrow> ecdsa_verify C (snd (ecdsa_signature_normalize C sig)) hsh pubkey)"

definition CPubKey_RecoverCompact :: "('pk, 'sig) secp256k1 \<Rightarrow> bytes \<Rightarrow> bytes \<Rightarrow> CPubKey option" where
  "CPubKey_RecoverCompact C hsh vchSig =
     (if length vchSig \<noteq> 65 then None
      else
        let recid = unat ((ucast (vchSig ! 0) - 27 :: 32 word) AND 3);
            fComp = ((ucast (vchSig ! 0) - 27 :: 32 word) AND 4 \<noteq> 0)
        in case ecdsa_recover_compact C (drop 1 vchSig) recid hsh of None \<Rightarrow> None
        | Some pubkey \<Rightarrow> Some (CPubKey_Set (ec_pubkey_serialize C pubkey fComp)))"

definition CPubKey_IsFullyValid :: "('pk, 'sig) secp256k1 \<Rightarrow> CPubKey \<Rightarrow> bool" where
  "CPubKey_IsFullyValid C k =
     (if \<not> CPubKey_IsValid k then False else ec_pubkey_parse C (CPubKey_bytes k) \<noteq> None)"

definition CPubKey_Decompress :: "('pk, 'sig) secp256k1 \<Rightarrow> CPubKey \<Rightarrow> CPubKey option" where
  "CPubKey_Decompress C k =
     (if \<not> CPubKey_IsValid k then None
      else case ec_pubkey_parse C (CPubKey_bytes k) of None \<Rightarrow> None
      | Some pubkey \<Rightarrow> Some (CPubKey_Set (ec_pubkey_serialize C pubkey False)))"

text \<open>\<open>CheckLowS\<close>; the address of the first byte is taken even when there is none.\<close>

definition CPubKey_CheckLowS :: "('pk, 'sig) secp256k1 \<Rightarrow> bytes \<Rightarrow> bool" where
  "CPubKey_CheckLowS C vchSig =
     (case ecdsa_signature_parse_der_lax C vchSig of None \<Rightarrow> False
      | Some sig \<Rightarrow> \<not> fst (ecdsa_signature_normalize C sig))"

text \<open>
  \<open>Serialize\<close> and \<open>Unserialize\<close>; the latter fills the front of the array \<open>vch\<close> of 65 bytes, or skips
  the data of an overlong key.
\<close>

definition CPubKey_Serialize :: "CPubKey \<Rightarrow> bytes" where
  "CPubKey_Serialize k = WriteCompactSize (of_nat (CPubKey_size k)) @ CPubKey_bytes k"

definition CPubKey_Unserialize :: "bytes \<Rightarrow> bytes reader" where
  "CPubKey_Unserialize vch s = do {
     (len, s) \<leftarrow> ReadCompactSize s;
     (data, s) \<leftarrow> read_bytes (unat len) s;
     Some (if unat len \<le> 65 then data @ drop (unat len) vch else 0xFF # tl vch, s) }"

text \<open>The key that an array holds.\<close>

definition CPubKey_of_array :: "bytes \<Rightarrow> CPubKey" where
  "CPubKey_of_array vch = (let n = CPubKey_GetLen (hd vch) in if n > 0 then Some (take n vch) else None)"

subsection \<open>Private keys in DER form\<close>

definition SECP256K1_EC_COMPRESSED :: nat where "SECP256K1_EC_COMPRESSED = 258"
definition SECP256K1_EC_UNCOMPRESSED :: nat where "SECP256K1_EC_UNCOMPRESSED = 2"

text \<open>The result and the 32 bytes written to \<open>out32\<close>.\<close>

definition ec_privkey_import_der :: "('pk, 'sig) secp256k1 \<Rightarrow> bytes \<Rightarrow> bool \<times> bytes" where
  "ec_privkey_import_der C privkey =
     (let failed = (False, replicate 32 0) in
      if length privkey < 1 \<or> privkey ! 0 \<noteq> 0x30 then failed
      else
        let privkey = drop 1 privkey in
        if length privkey < 1 \<or> privkey ! 0 AND 0x80 = 0 then failed
        else
          let lenb = unat (privkey ! 0 AND NOT 0x80); privkey = drop 1 privkey in
          if lenb < 1 \<or> lenb > 2 then failed
          else if length privkey < lenb then failed
          else
            let len = (unat (privkey ! (lenb - 1)) + (if lenb > 1 then unat (privkey ! (lenb - 2)) * 256 else 0));
                privkey = drop lenb privkey in
            if length privkey < len then failed
            else if length privkey < 3 \<or> privkey ! 0 \<noteq> 0x02 \<or> privkey ! 1 \<noteq> 0x01 \<or> privkey ! 2 \<noteq> 0x01 then failed
            else
              let privkey = drop 3 privkey in
              if length privkey < 2 \<or> privkey ! 0 \<noteq> 0x04 \<or> privkey ! 1 > 0x20
                \<or> length privkey < 2 + unat (privkey ! 1) then failed
              else
                let n = unat (privkey ! 1);
                    out32 = replicate (32 - n) 0 @ take n (drop 2 privkey)
                in if \<not> ec_seckey_verify C out32 then failed else (True, out32))"

definition der_begin_compressed :: bytes where
  "der_begin_compressed = [0x30,0x81,0xD3,0x02,0x01,0x01,0x04,0x20]"

definition der_middle_compressed :: bytes where
  "der_middle_compressed =
     [0xA0,0x81,0x85,0x30,0x81,0x82,0x02,0x01,0x01,0x30,0x2C,0x06,0x07,0x2A,0x86,0x48,
      0xCE,0x3D,0x01,0x01,0x02,0x21,0x00,0xFF,0xFF,0xFF,0xFF,0xFF,0xFF,0xFF,0xFF,0xFF,
      0xFF,0xFF,0xFF,0xFF,0xFF,0xFF,0xFF,0xFF,0xFF,0xFF,0xFF,0xFF,0xFF,0xFF,0xFF,0xFF,
      0xFF,0xFF,0xFE,0xFF,0xFF,0xFC,0x2F,0x30,0x06,0x04,0x01,0x00,0x04,0x01,0x07,0x04,
      0x21,0x02,0x79,0xBE,0x66,0x7E,0xF9,0xDC,0xBB,0xAC,0x55,0xA0,0x62,0x95,0xCE,0x87,
      0x0B,0x07,0x02,0x9B,0xFC,0xDB,0x2D,0xCE,0x28,0xD9,0x59,0xF2,0x81,0x5B,0x16,0xF8,
      0x17,0x98,0x02,0x21,0x00,0xFF,0xFF,0xFF,0xFF,0xFF,0xFF,0xFF,0xFF,0xFF,0xFF,0xFF,
      0xFF,0xFF,0xFF,0xFF,0xFE,0xBA,0xAE,0xDC,0xE6,0xAF,0x48,0xA0,0x3B,0xBF,0xD2,0x5E,
      0x8C,0xD0,0x36,0x41,0x41,0x02,0x01,0x01,0xA1,0x24,0x03,0x22,0x00]"

definition der_begin_uncompressed :: bytes where
  "der_begin_uncompressed = [0x30,0x82,0x01,0x13,0x02,0x01,0x01,0x04,0x20]"

definition der_middle_uncompressed :: bytes where
  "der_middle_uncompressed =
     [0xA0,0x81,0xA5,0x30,0x81,0xA2,0x02,0x01,0x01,0x30,0x2C,0x06,0x07,0x2A,0x86,0x48,
      0xCE,0x3D,0x01,0x01,0x02,0x21,0x00,0xFF,0xFF,0xFF,0xFF,0xFF,0xFF,0xFF,0xFF,0xFF,
      0xFF,0xFF,0xFF,0xFF,0xFF,0xFF,0xFF,0xFF,0xFF,0xFF,0xFF,0xFF,0xFF,0xFF,0xFF,0xFF,
      0xFF,0xFF,0xFE,0xFF,0xFF,0xFC,0x2F,0x30,0x06,0x04,0x01,0x00,0x04,0x01,0x07,0x04,
      0x41,0x04,0x79,0xBE,0x66,0x7E,0xF9,0xDC,0xBB,0xAC,0x55,0xA0,0x62,0x95,0xCE,0x87,
      0x0B,0x07,0x02,0x9B,0xFC,0xDB,0x2D,0xCE,0x28,0xD9,0x59,0xF2,0x81,0x5B,0x16,0xF8,
      0x17,0x98,0x48,0x3A,0xDA,0x77,0x26,0xA3,0xC4,0x65,0x5D,0xA4,0xFB,0xFC,0x0E,0x11,
      0x08,0xA8,0xFD,0x17,0xB4,0x48,0xA6,0x85,0x54,0x19,0x9C,0x47,0xD0,0x8F,0xFB,0x10,
      0xD4,0xB8,0x02,0x21,0x00,0xFF,0xFF,0xFF,0xFF,0xFF,0xFF,0xFF,0xFF,0xFF,0xFF,0xFF,
      0xFF,0xFF,0xFF,0xFF,0xFE,0xBA,0xAE,0xDC,0xE6,0xAF,0x48,0xA0,0x3B,0xBF,0xD2,0x5E,
      0x8C,0xD0,0x36,0x41,0x41,0x02,0x01,0x01,0xA1,0x44,0x03,0x42,0x00]"

definition ec_privkey_export_der :: "('pk, 'sig) secp256k1 \<Rightarrow> bytes \<Rightarrow> nat \<Rightarrow> bytes option" where
  "ec_privkey_export_der C key32 compressed =
     (case ec_pubkey_create C key32 of None \<Rightarrow> None
      | Some pubkey \<Rightarrow>
          if compressed \<noteq> 0
          then Some (der_begin_compressed @ key32 @ der_middle_compressed @ ec_pubkey_serialize C pubkey True)
          else Some (der_begin_uncompressed @ key32 @ der_middle_uncompressed @ ec_pubkey_serialize C pubkey False))"

subsection \<open>Private keys\<close>

record CKey =
  fValid :: bool
  fCompressed :: bool
  keydata :: bytes

definition CKey_Check :: "('pk, 'sig) secp256k1 \<Rightarrow> bytes \<Rightarrow> bool" where
  "CKey_Check C vch = ec_seckey_verify C vch"

definition CKey_Set :: "('pk, 'sig) secp256k1 \<Rightarrow> bytes \<Rightarrow> bool \<Rightarrow> CKey \<Rightarrow> CKey" where
  "CKey_Set C p fCompressedIn k =
     (if length p \<noteq> 32 then k\<lparr>fValid := False\<rparr>
      else if CKey_Check C p then k\<lparr>keydata := p, fValid := True, fCompressed := fCompressedIn\<rparr>
      else k\<lparr>fValid := False\<rparr>)"

definition CKey_size :: "CKey \<Rightarrow> nat" where
  "CKey_size k = (if fValid k then 32 else 0)"

definition CKey_eq :: "CKey \<Rightarrow> CKey \<Rightarrow> bool" where
  "CKey_eq a b \<longleftrightarrow> fCompressed a = fCompressed b \<and> CKey_size a = CKey_size b
     \<and> take (CKey_size a) (keydata a) = take (CKey_size a) (keydata b)"

text \<open>\<open>MakeNewKey\<close>: \<open>None\<close> when the given random draws contain no valid key.\<close>

fun CKey_MakeNewKey :: "('pk, 'sig) secp256k1 \<Rightarrow> bytes list \<Rightarrow> bool \<Rightarrow> CKey option" where
  "CKey_MakeNewKey C [] fCompressedIn = None"
| "CKey_MakeNewKey C (rnd # draws) fCompressedIn =
     (if \<not> CKey_Check C rnd then CKey_MakeNewKey C draws fCompressedIn
      else Some \<lparr>fValid = True, fCompressed = fCompressedIn, keydata = rnd\<rparr>)"

text \<open>A failed import has cleared the key bytes and leaves the other fields.\<close>

definition CKey_SetPrivKey :: "('pk, 'sig) secp256k1 \<Rightarrow> bytes \<Rightarrow> bool \<Rightarrow> CKey \<Rightarrow> bool \<times> CKey" where
  "CKey_SetPrivKey C privkey fCompressedIn k =
     (case ec_privkey_import_der C privkey of (ok, out32) \<Rightarrow>
        if \<not> ok then (False, k\<lparr>keydata := out32\<rparr>)
        else (True, \<lparr>fValid = True, fCompressed = fCompressedIn, keydata = out32\<rparr>))"

definition CKey_GetPrivKey :: "('pk, 'sig) secp256k1 \<Rightarrow> CKey \<Rightarrow> bytes option" where
  "CKey_GetPrivKey C k =
     (if \<not> fValid k then None
      else ec_privkey_export_der C (keydata k)
        (if fCompressed k then SECP256K1_EC_COMPRESSED else SECP256K1_EC_UNCOMPRESSED))"

definition CKey_GetPubKey :: "('pk, 'sig) secp256k1 \<Rightarrow> CKey \<Rightarrow> CPubKey option" where
  "CKey_GetPubKey C k =
     (if \<not> fValid k then None
      else case ec_pubkey_create C (keydata k) of None \<Rightarrow> None
      | Some pubkey \<Rightarrow>
          let result = ec_pubkey_serialize C pubkey (fCompressed k)
          in if result \<noteq> [] \<and> CPubKey_GetLen (result ! 0) = length result then Some (Some result) else None)"

definition CKey_Sign :: "('pk, 'sig) secp256k1 \<Rightarrow> CKey \<Rightarrow> bytes \<Rightarrow> u32 \<Rightarrow> bytes option" where
  "CKey_Sign C k hsh test_case =
     (if \<not> fValid k then None
      else
        let extra_entropy = WriteLE32 test_case @ replicate 28 0
        in Some (ecdsa_signature_serialize_der C
             (ecdsa_sign C hsh (keydata k) (if test_case \<noteq> 0 then Some extra_entropy else None))))"

definition verify_message :: bytes where
  "verify_message = map of_char ''Bitcoin key verification'' @ [0x0A]"

definition CKey_VerifyPubKey :: "('pk, 'sig) secp256k1 \<Rightarrow> bytes \<Rightarrow> CKey \<Rightarrow> CPubKey \<Rightarrow> bool" where
  "CKey_VerifyPubKey C rnd k pubkey =
     (if CPubKey_IsCompressed pubkey \<noteq> fCompressed k then False
      else
        let hsh = CHash256_Finalize (CHash256_Write (CHash256_Write CSHA256_new verify_message) rnd);
            vchSig = (case CKey_Sign C k hsh 0 of None \<Rightarrow> [] | Some vchSig \<Rightarrow> vchSig)
        in CPubKey_Verify C pubkey hsh vchSig)"

definition CKey_SignCompact :: "('pk, 'sig) secp256k1 \<Rightarrow> CKey \<Rightarrow> bytes \<Rightarrow> bytes option" where
  "CKey_SignCompact C k hsh =
     (if \<not> fValid k then None
      else case ecdsa_sign_recoverable C hsh (keydata k) of (sig64, rec) \<Rightarrow>
        Some (of_nat (27 + rec + (if fCompressed k then 4 else 0)) # sig64))"

definition CKey_Load :: "('pk, 'sig) secp256k1 \<Rightarrow> bytes \<Rightarrow> bytes \<Rightarrow> CPubKey \<Rightarrow> bool \<Rightarrow> CKey \<Rightarrow> bool \<times> CKey" where
  "CKey_Load C rnd privkey vchPubKey fSkipCheck k =
     (case ec_privkey_import_der C privkey of (ok, out32) \<Rightarrow>
        if \<not> ok then (False, k\<lparr>keydata := out32\<rparr>)
        else
          let k = \<lparr>fValid = True, fCompressed = CPubKey_IsCompressed vchPubKey, keydata = out32\<rparr>
          in if fSkipCheck then (True, k) else (CKey_VerifyPubKey C rnd k vchPubKey, k))"

subsection \<open>Hierarchical derivation\<close>

text \<open>\<open>hmac\<close> stands for HMAC-SHA512: key, message, 64 bytes.\<close>

definition BIP32Hash :: "(bytes \<Rightarrow> bytes \<Rightarrow> bytes) \<Rightarrow> bytes \<Rightarrow> u32 \<Rightarrow> byte \<Rightarrow> bytes \<Rightarrow> bytes" where
  "BIP32Hash hmac chainCode nChild header data =
     (let num = [ucast (drop_bit 24 nChild AND 0xFF), ucast (drop_bit 16 nChild AND 0xFF),
                 ucast (drop_bit 8 nChild AND 0xFF), ucast (nChild AND 0xFF)]
      in hmac chainCode ([header] @ data @ num))"

text \<open>
  The derived key and chain code: \<open>None\<close> for a failed \<open>assert\<close>, and a Boolean for the result. A
  failure leaves the public key as it was.
\<close>

definition CPubKey_Derive ::
  "('pk, 'sig) secp256k1 \<Rightarrow> (bytes \<Rightarrow> bytes \<Rightarrow> bytes) \<Rightarrow> CPubKey \<Rightarrow> CPubKey \<Rightarrow> u32 \<Rightarrow> bytes
     \<Rightarrow> (bool \<times> CPubKey \<times> bytes) option" where
  "CPubKey_Derive C hmac k child nChild cc =
     (if \<not> CPubKey_IsValid k then None
      else if drop_bit 31 nChild \<noteq> 0 then None
      else if CPubKey_size k \<noteq> 33 then None
      else
        let b = CPubKey_bytes k; out = BIP32Hash hmac cc nChild (hd b) (tl b); ccChild = drop 32 out
        in case ec_pubkey_parse C b of None \<Rightarrow> Some (False, child, ccChild)
        | Some pubkey \<Rightarrow>
            (case ec_pubkey_tweak_add C pubkey (take 32 out) of None \<Rightarrow> Some (False, child, ccChild)
             | Some pubkey \<Rightarrow> Some (True, CPubKey_Set (ec_pubkey_serialize C pubkey True), ccChild)))"

definition CKey_Derive ::
  "('pk, 'sig) secp256k1 \<Rightarrow> (bytes \<Rightarrow> bytes \<Rightarrow> bytes) \<Rightarrow> CKey \<Rightarrow> u32 \<Rightarrow> bytes
     \<Rightarrow> (bool \<times> CKey \<times> bytes) option" where
  "CKey_Derive C hmac k nChild cc =
     (if \<not> fValid k then None
      else if \<not> fCompressed k then None
      else case
        (if drop_bit 31 nChild = 0 then
           (case CKey_GetPubKey C k of None \<Rightarrow> None
            | Some pubkey \<Rightarrow>
                if CPubKey_size pubkey \<noteq> 33 then None
                else Some (BIP32Hash hmac cc nChild (hd (CPubKey_bytes pubkey)) (tl (CPubKey_bytes pubkey))))
         else Some (BIP32Hash hmac cc nChild 0 (keydata k)))
      of None \<Rightarrow> None
      | Some out \<Rightarrow>
          (case ec_privkey_tweak_add C (keydata k) (take 32 out) of (ret, vch) \<Rightarrow>
             Some (ret, \<lparr>fValid = ret, fCompressed = True, keydata = vch\<rparr>, drop 32 out)))"

record CExtPubKey =
  pub_nDepth :: byte
  pub_vchFingerprint :: bytes
  pub_nChild :: u32
  pub_vchChainCode :: bytes
  xpubkey :: CPubKey

record CExtKey =
  nDepth :: byte
  vchFingerprint :: bytes
  nChild :: u32
  vchChainCode :: bytes
  xkey :: CKey

definition ext_header :: "byte \<Rightarrow> bytes \<Rightarrow> u32 \<Rightarrow> bytes \<Rightarrow> bytes" where
  "ext_header depth fingerprint child cc =
     [depth] @ fingerprint @
     [ucast (drop_bit 24 child AND 0xFF), ucast (drop_bit 16 child AND 0xFF),
      ucast (drop_bit 8 child AND 0xFF), ucast (child AND 0xFF)] @ cc"

definition code_nChild :: "bytes \<Rightarrow> u32" where
  "code_nChild code =
     push_bit 24 (ucast (code ! 5)) OR push_bit 16 (ucast (code ! 6)) OR push_bit 8 (ucast (code ! 7)) OR ucast (code ! 8)"

definition CExtPubKey_Encode :: "CExtPubKey \<Rightarrow> bytes option" where
  "CExtPubKey_Encode x =
     (if CPubKey_size (xpubkey x) \<noteq> 33 then None
      else Some (ext_header (pub_nDepth x) (pub_vchFingerprint x) (pub_nChild x) (pub_vchChainCode x)
             @ CPubKey_bytes (xpubkey x)))"

definition CExtPubKey_Decode :: "bytes \<Rightarrow> CExtPubKey" where
  "CExtPubKey_Decode code =
     \<lparr>pub_nDepth = code ! 0, pub_vchFingerprint = take 4 (drop 1 code), pub_nChild = code_nChild code,
      pub_vchChainCode = take 32 (drop 9 code), xpubkey = CPubKey_Set (take 33 (drop 41 code))\<rparr>"

definition CExtPubKey_Derive ::
  "('pk, 'sig) secp256k1 \<Rightarrow> (bytes \<Rightarrow> bytes \<Rightarrow> bytes) \<Rightarrow> (bytes \<Rightarrow> bytes) \<Rightarrow> CExtPubKey \<Rightarrow> u32
     \<Rightarrow> (bool \<times> CExtPubKey) option" where
  "CExtPubKey_Derive C hmac H x child =
     (case CPubKey_Derive C hmac (xpubkey x) None child (pub_vchChainCode x) of None \<Rightarrow> None
      | Some (ok, k, cc) \<Rightarrow>
          Some (ok, \<lparr>pub_nDepth = pub_nDepth x + 1, pub_vchFingerprint = take 4 (CPubKey_GetID H (xpubkey x)),
                     pub_nChild = child, pub_vchChainCode = cc, xpubkey = k\<rparr>))"

definition CExtKey_Encode :: "CExtKey \<Rightarrow> bytes option" where
  "CExtKey_Encode x =
     (if CKey_size (xkey x) \<noteq> 32 then None
      else Some (ext_header (nDepth x) (vchFingerprint x) (nChild x) (vchChainCode x) @ [0] @ keydata (xkey x)))"

text \<open>\<open>Decode\<close> sets a new key; its other fields are those of the \<open>CKey\<close> that was there.\<close>

definition CExtKey_Decode :: "('pk, 'sig) secp256k1 \<Rightarrow> CKey \<Rightarrow> bytes \<Rightarrow> CExtKey" where
  "CExtKey_Decode C k code =
     \<lparr>nDepth = code ! 0, vchFingerprint = take 4 (drop 1 code), nChild = code_nChild code,
      vchChainCode = take 32 (drop 9 code), xkey = CKey_Set C (take 32 (drop 42 code)) True k\<rparr>"

definition CExtKey_Derive ::
  "('pk, 'sig) secp256k1 \<Rightarrow> (bytes \<Rightarrow> bytes \<Rightarrow> bytes) \<Rightarrow> (bytes \<Rightarrow> bytes) \<Rightarrow> CExtKey \<Rightarrow> u32
     \<Rightarrow> (bool \<times> CExtKey) option" where
  "CExtKey_Derive C hmac H x child =
     (case CKey_GetPubKey C (xkey x) of None \<Rightarrow> None
      | Some pk \<Rightarrow>
          (case CKey_Derive C hmac (xkey x) child (vchChainCode x) of None \<Rightarrow> None
           | Some (ok, k, cc) \<Rightarrow>
               Some (ok, \<lparr>nDepth = nDepth x + 1, vchFingerprint = take 4 (CPubKey_GetID H pk),
                          nChild = child, vchChainCode = cc, xkey = k\<rparr>)))"

definition CExtKey_SetMaster ::
  "('pk, 'sig) secp256k1 \<Rightarrow> (bytes \<Rightarrow> bytes \<Rightarrow> bytes) \<Rightarrow> CKey \<Rightarrow> bytes \<Rightarrow> CExtKey" where
  "CExtKey_SetMaster C hmac k seed =
     (let out = hmac (map of_char ''Bitcoin seed'') seed in
      \<lparr>nDepth = 0, vchFingerprint = replicate 4 0, nChild = 0, vchChainCode = drop 32 out,
       xkey = CKey_Set C (take 32 out) True k\<rparr>)"

definition CExtKey_Neuter :: "('pk, 'sig) secp256k1 \<Rightarrow> CExtKey \<Rightarrow> CExtPubKey option" where
  "CExtKey_Neuter C x =
     (case CKey_GetPubKey C (xkey x) of None \<Rightarrow> None
      | Some pk \<Rightarrow>
          Some \<lparr>pub_nDepth = nDepth x, pub_vchFingerprint = vchFingerprint x, pub_nChild = nChild x,
                pub_vchChainCode = vchChainCode x, xpubkey = pk\<rparr>)"

subsection \<open>Lax and strict DER\<close>

definition be_val :: "bytes \<Rightarrow> nat" where
  "be_val = foldl (\<lambda>n b. n * 256 + unat b) 0"

lemma be_val_fold: "foldl (\<lambda>n b. n * 256 + unat b) m bs = m * 256 ^ length bs + be_val bs"
proof (induction bs arbitrary: m)
  case (Cons b bs)
  show ?case using Cons.IH [of "m * 256 + unat b"] Cons.IH [of "unat b"] by (simp add: be_val_def algebra_simps)
qed (simp add: be_val_def)

lemma be_val_Cons: "be_val (b # bs) = unat b * 256 ^ length bs + be_val bs"
  using be_val_fold [of "unat b" bs] by (simp add: be_val_def)

lemma be_val_Nil [simp]: "be_val [] = 0"
  by (simp add: be_val_def)

lemma be_val_zeros [simp]: "be_val (replicate n 0 @ bs) = be_val bs"
  by (induction n) (simp_all add: be_val_Cons)

lemma be_val_strip: "be_val (dropWhile (\<lambda>b. b = 0) bs) = be_val bs"
  by (induction bs) (simp_all add: be_val_Cons)

lemma be_val_less: "be_val bs < 256 ^ length bs"
proof (induction bs)
  case (Cons b bs)
  have "unat b < 256" by (rule order.strict_trans2, rule unsigned_less) simp
  then have "(unat b + 1) * 256 ^ length bs \<le> 256 * 256 ^ length bs" by (intro mult_le_mono1) linarith
  moreover have "be_val (b # bs) < (unat b + 1) * 256 ^ length bs" using Cons by (simp add: be_val_Cons)
  ultimately show ?case by (simp only: list.size power_Suc add_Suc_right add_0_right)
qed simp

lemma be_val_inj: "length a = length b \<Longrightarrow> be_val a = be_val b \<Longrightarrow> a = b"
proof (induction a b rule: list_induct2)
  case (Cons x xs y ys)
  let ?p = "256 ^ length xs :: nat"
  have lt: "be_val xs < ?p" "be_val ys < ?p" using be_val_less [of xs] be_val_less [of ys] Cons.hyps by auto
  have eq: "unat x * ?p + be_val xs = unat y * ?p + be_val ys" using Cons by (simp add: be_val_Cons)
  have "unat x = (unat x * ?p + be_val xs) div ?p" "be_val xs = (unat x * ?p + be_val xs) mod ?p"
    using lt by simp_all
  then have "unat x = unat y" "be_val xs = be_val ys" unfolding eq using lt by simp_all
  then show ?case using Cons by (simp add: word_unat_eq_iff)
qed simp

text \<open>The copy holds the integer in 32 bytes, big-endian, and overflows only when it does not fit.\<close>

lemma lax_copy_value: "lax_copy r = Some b \<longleftrightarrow> length b = 32 \<and> be_val b = be_val r"
proof -
  define r' where "r' = dropWhile (\<lambda>b. b = 0) r"
  have v: "be_val r' = be_val r" by (simp add: r'_def be_val_strip)
  have copy: "lax_copy r = (if length r' > 32 then None else Some (replicate (32 - length r') 0 @ r'))"
    by (simp add: lax_copy_def r'_def Let_def)
  show ?thesis
  proof (cases "length r' > 32")
    case True
    then obtain x xs where x: "r' = x # xs" by (cases r') auto
    then have "x \<noteq> 0" using hd_dropWhile [of "\<lambda>b. b = 0" r] by (auto simp: r'_def)
    then have "unat x \<ge> 1" by (simp add: Suc_le_eq unat_gt_0)
    moreover have "(256::nat) ^ 32 \<le> 256 ^ length xs" using True x by (intro power_increasing) auto
    ultimately have "256 ^ 32 \<le> be_val r'"
      using mult_le_mono [of 1 "unat x" "256 ^ 32" "256 ^ length xs"] by (simp add: x be_val_Cons)
    then have "length b = 32 \<Longrightarrow> be_val b \<noteq> be_val r" for b using be_val_less [of b] v by auto
    then show ?thesis using True copy by auto
  next
    case False
    then show ?thesis using copy v be_val_inj [of b "replicate (32 - length r') 0 @ r'"] by auto
  qed
qed

lemma lax_int_short:
  assumes "length r < 128" shows "lax_int (0x02 # of_nat (length r) # r @ t) = Some (r, t)"
proof -
  have u: "unat (of_nat (length r) :: byte) = length r" using assms by (simp add: unat_of_nat)
  have "(of_nat (length r) :: byte) AND 0x80 = 0" using assms u byte_sign_clear [of "of_nat (length r)"] by simp
  then show ?thesis by (simp add: lax_int_def lax_int_length_def u)
qed

lemma der_lax_signature:
  assumes "length r + length s \<le> 66" shows "der_lax (der_signature r s) = Some (r, s)"
proof -
  let ?n = "length r + length s + 4"
  have "unat (of_nat ?n :: byte) = ?n" by (rule unat_byte_of_nat) (use assms in linarith)
  then have "(of_nat ?n :: byte) AND 0x80 = 0" using assms byte_sign_clear [of "of_nat ?n"] by simp
  then have seq: "lax_sequence (der_signature r s) =
      Some (0x02 # of_nat (length r) # r @ (0x02 # of_nat (length s) # s @ []))"
    by (simp add: lax_sequence_def der_signature_def)
  have rs: "length r < 128" "length s < 128" using assms by auto
  show ?thesis unfolding der_lax_def seq option.case prod.case lax_int_short [OF rs(1)] lax_int_short [OF rs(2)] by simp
qed

text \<open>
  C34. The lax parser that \<open>CPubKey::Verify\<close> uses reads the integers of every signature that the
  strict check accepts: it returns the R and S of the DER grammar, and copies each to 32 bytes
  exactly when its value fits, big-endian.
\<close>

theorem der_lax_strict:
  assumes "IsDERSignature sig True"
  shows "\<exists>r s. sig = der_signature r s @ [last sig] \<and> der_int r \<and> der_int s \<and> der_lax (butlast sig) = Some (r, s)
    \<and> (lax_copy r = Some b \<longleftrightarrow> length b = 32 \<and> be_val b = be_val r)
    \<and> (lax_copy s = Some b \<longleftrightarrow> length b = 32 \<and> be_val b = be_val s)"
proof -
  obtain r s ht where "sig = der_signature r s @ [ht]" "der_int r" "der_int s" "length r + length s \<le> 66"
    using der_signature_only [OF assms] by blast
  then show ?thesis using der_lax_signature [of r s] lax_copy_value by (intro exI [of _ r] exI [of _ s]) simp
qed

lemma der_lax_strict_witness:
  "\<exists>r s. der_lax (butlast (der_signature [0x7f] [0, 0x80] @ [1])) = Some (r, s) \<and> der_int r \<and> der_int s"
proof -
  have "IsDERSignature (der_signature [0x7f] [0, 0x80] @ [1]) True" by code_simp
  then show ?thesis using der_lax_strict [of "der_signature [0x7f] [0, 0x80] @ [1]" "[]"] by blast
qed

subsection \<open>Encodings of keys\<close>

lemma CPubKey_Unserialize_Serialize:
  assumes "CPubKey_Set b = Some b" "length vch = 65"
  shows "\<exists>vch'. CPubKey_Unserialize vch (CPubKey_Serialize (Some b) @ t) = Some (vch', t)
    \<and> CPubKey_of_array vch' = Some b \<and> length vch' = 65"
proof -
  have len: "length b = 33 \<or> length b = 65" using CPubKey_Set_bytes [OF assms(1)] .
  then have u: "unat (of_nat (length b) :: u64) = length b" "of_nat (length b) \<le> MAX_SIZE"
    by (auto simp: MAX_SIZE_def)
  have hd: "CPubKey_GetLen (hd b) = length b" "b \<noteq> []"
    using assms(1) by (auto simp: CPubKey_Set_def hd_conv_nth Let_def split: if_splits)
  then have "CPubKey_of_array (b @ drop (length b) vch) = Some b" by (simp add: CPubKey_of_array_def)
  then show ?thesis using u len assms(2)
    by (auto simp: CPubKey_Unserialize_def CPubKey_Serialize_def CPubKey_size_def CPubKey_bytes_def
        ReadCompactSize_Write read_bytes_def)
qed

lemma import_export:
  assumes "ec_privkey_export_der C key32 compressed = Some d" "length key32 = 32" "ec_seckey_verify C key32"
    and "\<And>pk. ec_pubkey_create C key32 = Some pk \<Longrightarrow> length (ec_pubkey_serialize C pk True) = 33
      \<and> length (ec_pubkey_serialize C pk False) = 65"
  shows "ec_privkey_import_der C d = (True, key32)"
proof -
  obtain pk where pk: "ec_pubkey_create C key32 = Some pk"
    using assms(1) by (auto simp: ec_privkey_export_der_def split: option.splits)
  have n32: "unat (0x20 :: byte) = 32" by simp
  show ?thesis
  proof (cases "compressed = 0")
    case True
    then have d: "d = [0x30,0x82,0x01,0x13,0x02,0x01,0x01,0x04,0x20] @ key32 @ der_middle_uncompressed
        @ ec_pubkey_serialize C pk False"
      using assms(1) pk by (simp add: ec_privkey_export_der_def der_begin_uncompressed_def)
    have l: "length (der_middle_uncompressed @ ec_pubkey_serialize C pk False) = 238"
      using assms(4) [OF pk] by (simp add: der_middle_uncompressed_def)
    have "length d = 279" using d l assms(2) by simp
    show ?thesis unfolding ec_privkey_import_der_def Let_def d using assms(2,3) l by simp
  next
    case False
    then have d: "d = [0x30,0x81,0xD3,0x02,0x01,0x01,0x04,0x20] @ key32 @ der_middle_compressed
        @ ec_pubkey_serialize C pk True"
      using assms(1) pk by (simp add: ec_privkey_export_der_def der_begin_compressed_def)
    have l: "length (der_middle_compressed @ ec_pubkey_serialize C pk True) = 174"
      using assms(4) [OF pk] by (simp add: der_middle_compressed_def)
    show ?thesis unfolding ec_privkey_import_der_def Let_def d using assms(2,3) l by simp
  qed
qed

lemma ext_num: "[ucast (drop_bit 24 c AND 0xFF), ucast (drop_bit 16 c AND 0xFF), ucast (drop_bit 8 c AND 0xFF),
    ucast (c AND 0xFF)] = WriteBE32 c" for c :: u32
proof -
  have "ucast (x AND 0xFF) = (ucast x :: byte)" for x :: u32
  proof -
    have "(0xFF :: u32) = mask 8" by (simp add: mask_eq_exp_minus_1)
    then have "x AND 0xFF = take_bit 8 x" by (simp add: take_bit_eq_mask)
    then show ?thesis by (simp only:) (rule bit_word_eqI, auto simp: bit_simps)
  qed
  then show ?thesis by (simp add: WriteBE32_def)
qed

lemma code_nChild_header:
  assumes "length fp = 4" shows "code_nChild (ext_header d fp c cc @ t) = c"
proof -
  obtain f0 f1 f2 f3 where "fp = [f0, f1, f2, f3]"
    using assms by (auto simp: numeral_eq_Suc length_Suc_conv)
  then have "code_nChild (ext_header d fp c cc @ t) = ReadBE32 (WriteBE32 c @ cc @ t)"
    by (simp add: code_nChild_def ext_header_def ext_num ReadBE32_def WriteBE32_def)
  then show ?thesis by (simp add: ReadBE32_WriteBE32)
qed

lemma ext_header_fields:
  assumes "length fp = 4" "length cc = 32"
  shows "(ext_header d fp c cc @ t) ! 0 = d" "take 4 (drop 1 (ext_header d fp c cc @ t)) = fp"
    "take 32 (drop 9 (ext_header d fp c cc @ t)) = cc" "drop 41 (ext_header d fp c cc @ t) = t"
    "length (ext_header d fp c cc) = 41"
  using assms by (auto simp: ext_header_def)

text \<open>
  A private key survives the DER form: what \<open>GetPrivKey\<close> wrote, \<open>SetPrivKey\<close> reads back, in
  both forms of the encoder. The public key must serialise to the documented 33 or 65 bytes.
\<close>

theorem CKey_privkey_roundtrip:
  assumes "CKey_GetPrivKey C k = Some d" "length (keydata k) = 32" "CKey_Check C (keydata k)"
    and "\<forall>pk. length (ec_pubkey_serialize C pk True) = 33 \<and> length (ec_pubkey_serialize C pk False) = 65"
  shows "CKey_SetPrivKey C d (fCompressed k) k0 = (True, k)"
proof -
  have "fValid k" and "\<exists>c. ec_privkey_export_der C (keydata k) c = Some d"
    using assms(1) by (auto simp: CKey_GetPrivKey_def split: if_splits)
  then obtain c where "ec_privkey_export_der C (keydata k) c = Some d" by blast
  from import_export [OF this assms(2)] assms(3,4)
  have "ec_privkey_import_der C d = (True, keydata k)" by (simp add: CKey_Check_def)
  then show ?thesis using \<open>fValid k\<close> by (simp add: CKey_SetPrivKey_def)
qed

text \<open>
  \<open>GetPrivKey\<close> passes the serialisation flag of libsecp256k1 as the Boolean \<open>compressed\<close>; both
  flags are nonzero, so an uncompressed key is exported in the compressed form, and the other
  branch of the encoder is never taken.
\<close>

theorem GetPrivKey_always_compressed:
  "CKey_GetPrivKey C (k\<lparr>fCompressed := c\<rparr>) = CKey_GetPrivKey C (k\<lparr>fCompressed := True\<rparr>)"
  by (simp add: CKey_GetPrivKey_def ec_privkey_export_der_def SECP256K1_EC_COMPRESSED_def
      SECP256K1_EC_UNCOMPRESSED_def split: option.split)

text \<open>
  Extended keys survive their 74-byte encoding.
\<close>

theorem CExtPubKey_roundtrip:
  assumes "CExtPubKey_Encode x = Some code" "length (pub_vchFingerprint x) = 4" "length (pub_vchChainCode x) = 32"
    and "CPubKey_Set (CPubKey_bytes (xpubkey x)) = xpubkey x"
  shows "length code = 74 \<and> CExtPubKey_Decode code = x"
proof -
  have c: "CPubKey_size (xpubkey x) = 33" "code = ext_header (pub_nDepth x) (pub_vchFingerprint x) (pub_nChild x)
      (pub_vchChainCode x) @ CPubKey_bytes (xpubkey x)"
    using assms(1) by (auto simp: CExtPubKey_Encode_def split: if_splits)
  then show ?thesis unfolding c(2)
    using ext_header_fields [OF assms(2,3)] code_nChild_header [OF assms(2)] assms(2-4)
    by (auto simp: CExtPubKey_Decode_def CPubKey_size_def)
qed

lemma CExtPubKey_roundtrip_witness:
  "\<exists>code. CExtPubKey_Encode \<lparr>pub_nDepth = 1, pub_vchFingerprint = [1, 2, 3, 4], pub_nChild = 7,
      pub_vchChainCode = replicate 32 9, xpubkey = Some (2 # replicate 32 1)\<rparr> = Some code
    \<and> length code = 74 \<and> pub_nChild (CExtPubKey_Decode code) = 7"
proof -
  let ?x = "\<lparr>pub_nDepth = 1, pub_vchFingerprint = [1, 2, 3, 4], pub_nChild = 7,
      pub_vchChainCode = replicate 32 9, xpubkey = Some (2 # replicate 32 1)\<rparr>"
  obtain code where "CExtPubKey_Encode ?x = Some code"
    by (auto simp: CExtPubKey_Encode_def CPubKey_size_def CPubKey_bytes_def)
  then show ?thesis using CExtPubKey_roundtrip [of ?x code]
    by (auto simp: CPubKey_Set_def CPubKey_GetLen_def CPubKey_bytes_def)
qed

subsection \<open>Public derivation follows private derivation\<close>

lemma GetPubKey_Some:
  "CKey_GetPubKey C k = Some pk \<Longrightarrow> fCompressed k \<Longrightarrow>
     \<exists>p. ec_pubkey_create C (keydata k) = Some p \<and> pk = Some (ec_pubkey_serialize C p True) \<and> fValid k"
  by (auto simp: CKey_GetPubKey_def Let_def split: if_splits option.splits)

lemma CPubKey_Set_GetLen: "CPubKey_Set b = Some b \<Longrightarrow> b \<noteq> [] \<and> CPubKey_GetLen (b ! 0) = length b"
  by (auto simp: CPubKey_Set_def Let_def split: if_splits)

text \<open>
  C33. Deriving a child key and taking its public half is the same as taking the public half and
  deriving, for every index that is not hardened: \<open>Neuter\<close> and \<open>Derive\<close> commute. Of libsecp256k1 it
  is used that a serialised public key parses to itself, and that adding a tweak to a secret key and
  to its public key correspond.
\<close>

theorem Derive_Neuter_commute:
  assumes "drop_bit 31 child = 0" "CExtKey_Neuter C x = Some X" "CExtKey_Derive C hmac H x child = Some (True, y)"
    and ser: "\<forall>k pk. ec_pubkey_create C k = Some pk \<longrightarrow> length (ec_pubkey_serialize C pk True) = 33 \<and>
      CPubKey_Set (ec_pubkey_serialize C pk True) = Some (ec_pubkey_serialize C pk True) \<and>
      ec_pubkey_parse C (ec_pubkey_serialize C pk True) = Some pk"
    and tweak: "\<forall>k t k' pk. ec_privkey_tweak_add C k t = (True, k') \<and> ec_pubkey_create C k = Some pk \<longrightarrow>
      (\<exists>pk'. ec_pubkey_create C k' = Some pk' \<and> ec_pubkey_tweak_add C pk t = Some pk')"
  shows "\<exists>Y. CExtKey_Neuter C y = Some Y \<and> CExtPubKey_Derive C hmac H X child = Some (True, Y)"
proof -
  obtain pk kd cc where d: "CKey_GetPubKey C (xkey x) = Some pk"
      "CKey_Derive C hmac (xkey x) child (vchChainCode x) = Some (True, kd, cc)"
    and y: "y = \<lparr>nDepth = nDepth x + 1, vchFingerprint = take 4 (CPubKey_GetID H pk), nChild = child,
      vchChainCode = cc, xkey = kd\<rparr>"
    using assms(3) by (auto simp: CExtKey_Derive_def split: option.splits)
  have "fCompressed (xkey x)" using d(2) by (auto simp: CKey_Derive_def split: if_splits)
  then obtain p where p: "ec_pubkey_create C (keydata (xkey x)) = Some p"
    "pk = Some (ec_pubkey_serialize C p True)" using GetPubKey_Some [OF d(1)] by blast
  define b where "b = ec_pubkey_serialize C p True"
  define out where "out = BIP32Hash hmac (vchChainCode x) child (hd b) (tl b)"
  have b: "pk = Some b" "length b = 33" "ec_pubkey_parse C b = Some p" using p ser b_def by auto
  from d(2) have t: "ec_privkey_tweak_add C (keydata (xkey x)) (take 32 out) = (True, keydata kd)"
    "fValid kd" "fCompressed kd" "cc = drop 32 out"
    using d(1) b assms(1) by (auto simp: CKey_Derive_def CPubKey_size_def CPubKey_bytes_def out_def split: if_splits prod.splits)
  then obtain p' where p': "ec_pubkey_create C (keydata kd) = Some p'" "ec_pubkey_tweak_add C p (take 32 out) = Some p'"
    using tweak p(1) by blast
  define b' where "b' = ec_pubkey_serialize C p' True"
  have b': "CPubKey_Set b' = Some b'" "length b' = 33" using ser p'(1) b'_def by auto
  have gp: "CKey_GetPubKey C kd = Some (Some b')"
    using t p'(1) CPubKey_Set_GetLen [OF b'(1)] by (simp add: CKey_GetPubKey_def Let_def b'_def)
  have X: "X = \<lparr>pub_nDepth = nDepth x, pub_vchFingerprint = vchFingerprint x, pub_nChild = nChild x,
      pub_vchChainCode = vchChainCode x, xpubkey = Some b\<rparr>"
    using assms(2) d(1) b(1) by (simp add: CExtKey_Neuter_def)
  have "CPubKey_Derive C hmac (Some b) None child (vchChainCode x) = Some (True, Some b', drop 32 out)"
    using b p'(2) b' assms(1)
    by (simp add: CPubKey_Derive_def CPubKey_IsValid_def CPubKey_size_def CPubKey_bytes_def Let_def out_def b'_def)
  then have "CExtPubKey_Derive C hmac H X child = Some (True,
      \<lparr>pub_nDepth = nDepth x + 1, pub_vchFingerprint = take 4 (CPubKey_GetID H (Some b)), pub_nChild = child,
       pub_vchChainCode = drop 32 out, xpubkey = Some b'\<rparr>)"
    by (simp add: CExtPubKey_Derive_def X)
  then show ?thesis using gp y t(4) b(1) by (simp add: CExtKey_Neuter_def)
qed

text \<open>A stand-in for the curve, on which the hypotheses hold: the public key is the secret key.\<close>

definition toy_curve :: "(bytes, bytes) secp256k1" where
  "toy_curve =
     \<lparr>ecdsa_signature_parse_compact = (\<lambda>b. (True, b)),
      ec_pubkey_parse = (\<lambda>b. if length b = 33 \<and> hd b = 2 then Some (tl b) else None),
      ec_pubkey_serialize = (\<lambda>pk c. if c then 2 # take 32 (pk @ replicate 32 0) else 4 # take 64 (pk @ replicate 64 0)),
      ec_pubkey_create = (\<lambda>k. if length k = 32 then Some k else None),
      ec_pubkey_tweak_add = (\<lambda>pk t. Some (map2 (+) pk (take 32 (t @ replicate 32 0)))),
      ec_privkey_tweak_add = (\<lambda>k t. (True, map2 (+) k (take 32 (t @ replicate 32 0)))),
      ec_seckey_verify = (\<lambda>k. length k = 32),
      ecdsa_signature_normalize = (\<lambda>sig. (False, sig)),
      ecdsa_verify = (\<lambda>sig h pk. sig = h),
      ecdsa_recover_compact = (\<lambda>sig rec h. None),
      ecdsa_sign = (\<lambda>h k n. h),
      ecdsa_signature_serialize_der = (\<lambda>sig. der_signature [1] [1]),
      ecdsa_sign_recoverable = (\<lambda>h k. (replicate 64 0, 0))\<rparr>"

definition toy_key :: CKey where
  "toy_key = \<lparr>fValid = True, fCompressed = True, keydata = replicate 32 5\<rparr>"

lemma CKey_privkey_roundtrip_witness:
  "\<exists>d. CKey_GetPrivKey toy_curve toy_key = Some d \<and> CKey_SetPrivKey toy_curve d True toy_key = (True, toy_key)"
proof -
  obtain d where "CKey_GetPrivKey toy_curve toy_key = Some d"
    by (auto simp: CKey_GetPrivKey_def ec_privkey_export_der_def toy_curve_def toy_key_def SECP256K1_EC_COMPRESSED_def)
  moreover have "length (keydata toy_key) = 32" "CKey_Check toy_curve (keydata toy_key)" "fCompressed toy_key"
    by (simp_all add: toy_curve_def toy_key_def CKey_Check_def)
  moreover have "\<forall>pk. length (ec_pubkey_serialize toy_curve pk True) = 33 \<and> length (ec_pubkey_serialize toy_curve pk False) = 65"
    by (simp add: toy_curve_def min_def)
  ultimately show ?thesis using CKey_privkey_roundtrip [of toy_curve toy_key d toy_key] by auto
qed

lemma Derive_Neuter_commute_witness:
  "\<exists>x y X Y. CExtKey_Derive toy_curve (\<lambda>k m. replicate 32 3 @ replicate 32 4) (\<lambda>_. replicate 20 0) x 1 = Some (True, y)
    \<and> keydata (xkey y) = replicate 32 8 \<and> CExtKey_Neuter toy_curve y = Some Y
    \<and> CExtPubKey_Derive toy_curve (\<lambda>k m. replicate 32 3 @ replicate 32 4) (\<lambda>_. replicate 20 0) X 1 = Some (True, Y)"
proof -
  define x where "x = \<lparr>nDepth = 0, vchFingerprint = [0, 0, 0, 0], nChild = 0, vchChainCode = replicate 32 9, xkey = toy_key\<rparr>"
  have gp: "CKey_GetPubKey toy_curve toy_key = Some (Some (2 # replicate 32 5))"
    by (simp add: CKey_GetPubKey_def toy_curve_def toy_key_def CPubKey_GetLen_def)
  then obtain X where X: "CExtKey_Neuter toy_curve x = Some X" by (simp add: CExtKey_Neuter_def x_def)
  have "\<exists>y. CExtKey_Derive toy_curve (\<lambda>k m. replicate 32 3 @ replicate 32 4) (\<lambda>_. replicate 20 0) x 1 = Some (True, y)
      \<and> keydata (xkey y) = replicate 32 8"
    using gp by (simp add: CExtKey_Derive_def CKey_Derive_def x_def CPubKey_size_def CPubKey_bytes_def BIP32Hash_def)
      (simp add: toy_curve_def toy_key_def numeral_eq_Suc)
  then obtain y where y: "CExtKey_Derive toy_curve (\<lambda>k m. replicate 32 3 @ replicate 32 4) (\<lambda>_. replicate 20 0) x 1
      = Some (True, y)" "keydata (xkey y) = replicate 32 8" by blast
  have "\<exists>Y. CExtKey_Neuter toy_curve y = Some Y
      \<and> CExtPubKey_Derive toy_curve (\<lambda>k m. replicate 32 3 @ replicate 32 4) (\<lambda>_. replicate 20 0) X 1 = Some (True, Y)"
    by (rule Derive_Neuter_commute [OF _ X y(1)])
      (auto simp: toy_curve_def CPubKey_Set_def CPubKey_GetLen_def split: if_splits)
  then show ?thesis using y by blast
qed

end
