(* ===== verification/Bignum.thy ===== *)
theory Bignum imports Crypto_Common Script_Num Serialize "HOL-Library.Signed_Division" begin

text \<open>
  \<open>CBigNum\<close> of \<open>src/src/bignum.h\<close>, the wrapper of OpenSSL's \<open>BIGNUM\<close>. A \<open>BIGNUM\<close> is the integer it
  stands for, and its arithmetic functions are those of the integers; the two functions for the
  MPI format are parameters. The conversions of the wrapper (fixed-width integers, byte vectors,
  compact form) build or read MPI strings and are modelled byte by byte; a thrown \<open>bignum_error\<close> is
  \<open>None\<close>.
\<close>

unbundle bit_operations_syntax

record bn_lib =
  BN_bn2mpi :: "int \<Rightarrow> bytes"
  BN_mpi2bn :: "bytes \<Rightarrow> int"

text \<open>The largest word is the value of numbers that do not fit.\<close>

definition BN_get_word :: "int \<Rightarrow> u64" where
  "BN_get_word bn = (if \<bar>bn\<bar> < 2 ^ 64 then of_int \<bar>bn\<bar> else -1)"

subsection \<open>Integers of fixed width\<close>

definition CBigNum_setulong :: "u64 \<Rightarrow> int" where
  "CBigNum_setulong n = uint n"

definition CBigNum_getulong :: "int \<Rightarrow> u64" where
  "CBigNum_getulong bn = BN_get_word bn"

definition CBigNum_getuint :: "int \<Rightarrow> u32" where
  "CBigNum_getuint bn = ucast (BN_get_word bn)"

definition CBigNum_getint :: "int \<Rightarrow> int" where
  "CBigNum_getint bn =
     (let n = BN_get_word bn in
      if \<not> bn < 0 then (if n > 0x7fffffff then 0x7fffffff else uint n)
      else (if n > 0x7fffffff then - 0x80000000 else - uint n))"

text \<open>
  The loop of the setters over the big-endian bytes: leading zeros are skipped and the sign goes
  into the first byte or into one of its own.
\<close>

fun mpi_data :: "bool \<Rightarrow> bytes \<Rightarrow> bytes" where
  "mpi_data fNegative [] = []"
| "mpi_data fNegative (c # cs) =
     (if c = 0 then mpi_data fNegative cs
      else if c AND 0x80 \<noteq> 0 then (if fNegative then 0x80 else 0) # c # cs
      else if fNegative then (c OR 0x80) # cs
      else c # cs)"

definition mpi_size :: "nat \<Rightarrow> bytes" where
  "mpi_size nSize = [of_nat (nSize div 16777216), of_nat (nSize div 65536), of_nat (nSize div 256), of_nat nSize]"

definition be_bytes :: "'a::len word \<Rightarrow> bytes" where
  "be_bytes n = rev (le_fixed (LENGTH('a) div 8) (unat n))"

definition CBigNum_setint64 :: "bn_lib \<Rightarrow> u64 \<Rightarrow> int" where
  "CBigNum_setint64 L sn =
     (let fNegative = (sn <s 0);
          n = (if fNegative then - (sn + 1) + 1 else sn);
          p = mpi_data fNegative (be_bytes n)
      in BN_mpi2bn L (mpi_size (length p) @ p))"

definition CBigNum_setuint64 :: "bn_lib \<Rightarrow> u64 \<Rightarrow> int" where
  "CBigNum_setuint64 L n =
     (let p = mpi_data False (be_bytes n) in BN_mpi2bn L (mpi_size (length p) @ p))"

definition CBigNum_setuint256 :: "bn_lib \<Rightarrow> uint256 \<Rightarrow> int" where
  "CBigNum_setuint256 L n =
     (let p = mpi_data False (be_bytes n) in BN_mpi2bn L (mpi_size (length p) @ p))"

text \<open>The getters keep the low bytes of the magnitude.\<close>

definition mpi_magnitude :: "bytes \<Rightarrow> bytes" where
  "mpi_magnitude vch = drop 4 (if length vch > 4 then vch[4 := vch ! 4 AND 0x7f] else vch)"

definition CBigNum_getuint64 :: "bn_lib \<Rightarrow> int \<Rightarrow> u64" where
  "CBigNum_getuint64 L bn =
     (let vch = BN_bn2mpi L bn in
      if length vch < 4 then 0 else of_nat (le_val (take 8 (rev (mpi_magnitude vch)))))"

definition CBigNum_getuint256 :: "bn_lib \<Rightarrow> int \<Rightarrow> uint256" where
  "CBigNum_getuint256 L bn =
     (let vch = BN_bn2mpi L bn in
      if length vch < 4 then 0 else of_nat (le_val (take 32 (rev (mpi_magnitude vch)))))"

subsection \<open>Byte vectors and the compact form\<close>

definition CBigNum_setvch :: "bn_lib \<Rightarrow> bytes \<Rightarrow> int" where
  "CBigNum_setvch L vch = BN_mpi2bn L (mpi_size (length vch) @ rev vch)"

definition CBigNum_getvch :: "bn_lib \<Rightarrow> int \<Rightarrow> bytes" where
  "CBigNum_getvch L bn =
     (let vch = BN_bn2mpi L bn in if length vch \<le> 4 then [] else rev (drop 4 vch))"

definition CBigNum_SetCompact :: "bn_lib \<Rightarrow> u32 \<Rightarrow> int" where
  "CBigNum_SetCompact L nCompact =
     (let nSize = unat (drop_bit 24 nCompact);
          vch = (replicate (4 + nSize) (0 :: byte))[3 := of_nat nSize];
          vch = (if nSize \<ge> 1 then vch[4 := ucast (drop_bit 16 nCompact)] else vch);
          vch = (if nSize \<ge> 2 then vch[5 := ucast (drop_bit 8 nCompact)] else vch);
          vch = (if nSize \<ge> 3 then vch[6 := ucast nCompact] else vch)
      in BN_mpi2bn L vch)"

definition CBigNum_GetCompact :: "bn_lib \<Rightarrow> int \<Rightarrow> u32" where
  "CBigNum_GetCompact L bn =
     (let vch = BN_bn2mpi L bn; nSize = length vch - 4;
          nCompact = push_bit 24 (of_nat nSize) :: u32;
          nCompact = (if nSize \<ge> 1 then nCompact OR push_bit 16 (ucast (vch ! 4)) else nCompact);
          nCompact = (if nSize \<ge> 2 then nCompact OR push_bit 8 (ucast (vch ! 5)) else nCompact);
          nCompact = (if nSize \<ge> 3 then nCompact OR ucast (vch ! 6) else nCompact)
      in nCompact)"

subsection \<open>Operators\<close>

text \<open>
  Division fails on zero and truncates; \<open>operator%\<close> calls \<open>BN_nnmod\<close>, whose result is never negative,
  and \<open>operator%=\<close> keeps the remainder of \<open>BN_div\<close>, which has the sign of the dividend.
\<close>

definition CBigNum_div :: "int \<Rightarrow> int \<Rightarrow> int option" where
  "CBigNum_div a b = (if b = 0 then None else Some (a sdiv b))"

definition CBigNum_mod :: "int \<Rightarrow> int \<Rightarrow> int option" where
  "CBigNum_mod a b = (if b = 0 then None else Some (a mod \<bar>b\<bar>))"

definition CBigNum_mod_assign :: "int \<Rightarrow> int \<Rightarrow> int option" where
  "CBigNum_mod_assign a b = (if b = 0 then None else Some (a smod b))"

definition CBigNum_shl :: "int \<Rightarrow> nat \<Rightarrow> int" where
  "CBigNum_shl a shift = a * 2 ^ shift"

definition CBigNum_shr :: "int \<Rightarrow> nat \<Rightarrow> int" where
  "CBigNum_shr a shift = (if 2 ^ shift > a then 0 else a div 2 ^ shift)"

subsection \<open>The MPI format\<close>

text \<open>
  What OpenSSL documents: four bytes with the length, then the number with its sign in the top bit,
  most significant byte first, in the fewest bytes.
\<close>

definition mpi_payload :: "int \<Rightarrow> bytes" where
  "mpi_payload n = (if n = 0 then [] else rev (signed_bytes (n < 0) (le_bytes (nat \<bar>n\<bar>))))"

definition bn_lib_ok :: "bn_lib \<Rightarrow> bool" where
  "bn_lib_ok L \<longleftrightarrow> (\<forall>n. BN_bn2mpi L n = mpi_size (length (mpi_payload n)) @ mpi_payload n)
     \<and> (\<forall>d. length d < 2 ^ 32 \<longrightarrow> BN_mpi2bn L (mpi_size (length d) @ d) = signed_value (rev d))"

definition ref_lib :: bn_lib where
  "ref_lib = \<lparr>BN_bn2mpi = (\<lambda>n. mpi_size (length (mpi_payload n)) @ mpi_payload n),
     BN_mpi2bn = (\<lambda>m. signed_value (rev (drop 4 m)))\<rparr>"

lemma length_mpi_size [simp]: "length (mpi_size n) = 4"
  by (simp add: mpi_size_def)

lemma ref_lib_ok: "bn_lib_ok ref_lib"
  by (simp add: bn_lib_ok_def ref_lib_def)

lemma setvch_value: "bn_lib_ok L \<Longrightarrow> length vch < 2 ^ 32 \<Longrightarrow> CBigNum_setvch L vch = signed_value vch"
proof -
  assume L: "bn_lib_ok L" and len: "length vch < 2 ^ 32"
  have "BN_mpi2bn L (mpi_size (length (rev vch)) @ rev vch) = signed_value (rev (rev vch))"
    using L len unfolding bn_lib_ok_def by (metis length_rev)
  then show ?thesis by (simp add: CBigNum_setvch_def)
qed

lemma getvch_value: "bn_lib_ok L \<Longrightarrow> CBigNum_getvch L n = rev (mpi_payload n)"
  by (auto simp: CBigNum_getvch_def bn_lib_ok_def Let_def)

lemma signed_value_payload: "signed_value (rev (mpi_payload n)) = n"
proof (cases "n = 0")
  case False
  let ?r = "le_bytes (nat \<bar>n\<bar>)"
  have r: "?r \<noteq> []" "last ?r \<noteq> 0" using le_bytes_props [of "nat \<bar>n\<bar>"] False by simp_all
  then show ?thesis using signed_value_signed_bytes [OF r, of "n < 0"] False
    by (auto simp: mpi_payload_def le_val_le_bytes)
qed (simp add: mpi_payload_def signed_value_def)

lemma getvch_serialize: "bn_lib_ok L \<Longrightarrow> \<bar>n\<bar> < 2 ^ 64 \<Longrightarrow> CBigNum_getvch L n = CScriptNum_serialize n"
  using serialize_eq [of n] by (auto simp: getvch_value mpi_payload_def CScriptNum_serialize_def)

text \<open>The loop of the setters writes the payload.\<close>

lemma rev_le_fixed_zeros:
  "n < 256 ^ k \<Longrightarrow> rev (le_fixed k n) = replicate (k - length (le_bytes n)) 0 @ rev (le_bytes n)
     \<and> length (le_bytes n) \<le> k"
proof (induction k arbitrary: n)
  case 0
  then show ?case by (simp add: le_bytes.simps [of 0])
next
  case (Suc k)
  show ?case
  proof (cases "n = 0")
    case True
    have "le_fixed m 0 = replicate m 0" for m by (induction m) simp_all
    then show ?thesis using True by (simp add: le_bytes.simps [of 0] replicate_append_same [symmetric])
  next
    case False
    have "n div 256 < 256 ^ k" using Suc.prems by (simp add: less_mult_imp_div_less mult.commute)
    from Suc.IH [OF this] show ?thesis using False by (simp add: le_bytes.simps [of n])
  qed
qed

lemma mpi_data_zeros: "mpi_data neg (replicate k 0 @ bs) = mpi_data neg bs"
  by (induction k) simp_all

lemma mpi_data_value:
  assumes "r \<noteq> []" "last r \<noteq> 0" shows "mpi_data neg (rev r) = rev (signed_bytes neg r)"
proof -
  obtain c cs where c: "rev r = c # cs" using assms(1) by (cases "rev r") auto
  then have r: "r = rev cs @ [c]" by (metis rev_rev_ident rev.simps(2))
  then have "c \<noteq> 0" using assms(2) by simp
  then show ?thesis
    by (cases "128 \<le> unat c") (auto simp: c r signed_bytes_def byte_sign_bit byte_sign_clear)
qed

lemma mpi_data_be:
  fixes w :: "'a::len word"
  assumes "LENGTH('a) = 8 * k"
  shows "mpi_data neg (be_bytes w) = (if w = 0 then [] else rev (signed_bytes neg (le_bytes (unat w))))"
proof -
  have k: "LENGTH('a) div 8 = k" using assms by simp
  have "unat w < 2 ^ LENGTH('a)" by (rule unsigned_less)
  also have "(2 :: nat) ^ LENGTH('a) = 256 ^ k" by (simp add: assms power_mult)
  finally have lt: "unat w < 256 ^ k" .
  have be: "be_bytes w = replicate (k - length (le_bytes (unat w))) 0 @ rev (le_bytes (unat w))"
    using rev_le_fixed_zeros [OF lt] by (simp add: be_bytes_def k)
  show ?thesis
  proof (cases "w = 0")
    case True
    then show ?thesis using be mpi_data_zeros [of neg k "[]"] by (simp add: le_bytes.simps [of 0])
  next
    case False
    then have "unat w \<noteq> 0" by (simp add: unat_eq_zero)
    then show ?thesis using False mpi_data_value le_bytes_props by (simp add: be mpi_data_zeros)
  qed
qed

lemma le_bytes_length_word: "length (le_bytes (unat (w :: 'a::len word))) \<le> k" if "LENGTH('a) = 8 * k"
proof -
  have "unat w < 2 ^ LENGTH('a)" by (rule unsigned_less)
  then show ?thesis using rev_le_fixed_zeros [of "unat w" k] that by (simp add: power_mult)
qed

lemma signed_value_magnitude:
  "signed_value (if n = 0 then [] else signed_bytes neg (le_bytes n)) = (if neg then - int n else int n)"
proof (cases "n = 0")
  case False
  then show ?thesis using signed_value_signed_bytes [of "le_bytes n" neg] le_bytes_props [of n]
    by (simp add: le_val_le_bytes)
qed (simp add: signed_value_def)

lemma length_signed_bytes: "r \<noteq> [] \<Longrightarrow> length (signed_bytes neg r) \<le> length r + 1"
  by (simp add: signed_bytes_def)

lemma set_word_value:
  fixes w :: "'a::len word"
  assumes "bn_lib_ok L" "LENGTH('a) = 8 * k" "k < 256"
  shows "BN_mpi2bn L (mpi_size (length (mpi_data neg (be_bytes w))) @ mpi_data neg (be_bytes w)) =
    (if neg then - int (unat w) else int (unat w))"
proof -
  let ?d = "if w = 0 then [] else signed_bytes neg (le_bytes (unat w))"
  have d: "mpi_data neg (be_bytes w) = rev ?d" using mpi_data_be [OF assms(2), of neg w] by simp
  have "length ?d \<le> length (le_bytes (unat w)) + 1"
    using le_bytes_props [of "unat w"] length_signed_bytes by (simp add: unat_eq_zero)
  then have "length (rev ?d) < 2 ^ 32" using le_bytes_length_word [OF assms(2), of w] assms(3) by simp
  then have "BN_mpi2bn L (mpi_size (length (rev ?d)) @ rev ?d) = signed_value (rev (rev ?d))"
    using assms(1) unfolding bn_lib_ok_def by blast
  also have "\<dots> = (if neg then - int (unat w) else int (unat w))"
    using signed_value_magnitude [of "unat w" neg] by (simp add: unat_eq_zero)
  finally show ?thesis unfolding d .
qed

lemma unat_of_int: "0 \<le> k \<Longrightarrow> k < 2 ^ LENGTH('a) \<Longrightarrow> unat (of_int k :: 'a::len word) = nat k"
  by (simp only: unat_eq_nat_uint uint_word_of_int_eq take_bit_int_eq_self)

lemma neg_magnitude:
  assumes "sn <s 0" shows "unat (- (sn + 1) + 1 :: u64) = nat (- sint sn)"
proof -
  define k where "k = - sint sn"
  have "sint sn < 0" using assms by (simp add: word_sless_alt)
  moreover have "- (2 ^ 63) \<le> sint sn" using sint_greater_eq [of sn] by simp
  ultimately have k: "0 \<le> k" "k < 2 ^ LENGTH(64)" by (simp_all add: k_def)
  have "(of_int k :: u64) = - sn" by (simp add: k_def)
  then have "(- (sn + 1) + 1 :: u64) = of_int k" by simp
  then show ?thesis using unat_of_int [OF k] by (simp add: k_def)
qed

text \<open>The magnitude of a payload.\<close>

lemma signed_bytes_clear:
  assumes "r \<noteq> []" "last r \<noteq> 0"
  shows "le_val ((signed_bytes neg r)[length (signed_bytes neg r) - 1 := last (signed_bytes neg r) AND 0x7f]) = le_val r"
proof (cases "128 \<le> unat (last r)")
  case True
  then show ?thesis by (simp add: signed_bytes_def le_val_append list_update_append)
next
  case False
  obtain xs x where r: "r = xs @ [x]" using assms(1) by (cases r rule: rev_cases) auto
  have x: "unat x < 128" using False r by simp
  have "(x OR 0x80) AND 0x7f = x"
    using byte_low_bits [of "x OR 0x80"] byte_set_sign [OF x] x by (simp add: word_unat_eq_iff)
  moreover have "x AND 0x7f = x" using byte_low_bits [of x] x by (simp add: word_unat_eq_iff)
  ultimately show ?thesis using False by (simp add: signed_bytes_def r list_update_append)
qed

lemma get_word_value:
  assumes "bn_lib_ok L"
  shows "le_val (take k (rev (mpi_magnitude (BN_bn2mpi L n)))) = nat \<bar>n\<bar> mod 256 ^ k"
proof -
  have m: "BN_bn2mpi L n = mpi_size (length (mpi_payload n)) @ mpi_payload n" using assms by (simp add: bn_lib_ok_def)
  have tk: "le_val (take k bs) = le_val bs mod 256 ^ k" for bs
  proof (cases "k \<le> length bs")
    case True
    have eq: "le_val bs = le_val (take k bs) + 256 ^ k * le_val (drop k bs)"
      using le_val_append [of "take k bs" "drop k bs"] True by simp
    have "le_val (take k bs) < 256 ^ k" using le_val_less [of "take k bs"] True by simp
    then show ?thesis by (metis eq mod_mult_self2 mod_less)
  next
    case False
    then have "(256 :: nat) ^ length bs \<le> 256 ^ k" by (intro power_increasing) simp_all
    then have "le_val bs < 256 ^ k" by (rule less_le_trans [OF le_val_less])
    then show ?thesis using False by simp
  qed
  show ?thesis
  proof (cases "n = 0")
    case True
    then show ?thesis using m by (simp add: mpi_payload_def mpi_magnitude_def)
  next
    case False
    let ?r = "le_bytes (nat \<bar>n\<bar>)" and ?s = "signed_bytes (n < 0) (le_bytes (nat \<bar>n\<bar>))"
    have r: "?r \<noteq> []" "last ?r \<noteq> 0" using le_bytes_props [of "nat \<bar>n\<bar>"] False by simp_all
    have "x \<noteq> [] \<Longrightarrow> signed_bytes neg x \<noteq> []" for x neg by (simp add: signed_bytes_def)
    then have ne: "?s \<noteq> []" using r(1) by blast
    have "rev (mpi_magnitude (BN_bn2mpi L n)) = ?s[length ?s - 1 := last ?s AND 0x7f]"
    proof -
      have "mpi_magnitude (BN_bn2mpi L n) = (rev ?s)[0 := rev ?s ! 0 AND 0x7f]"
        using False ne by (simp add: m mpi_magnitude_def mpi_payload_def list_update_append nth_append)
      also have "rev \<dots> = ?s[length ?s - 1 := last ?s AND 0x7f]"
        using ne by (simp add: rev_update rev_nth last_conv_nth)
      finally show ?thesis .
    qed
    then show ?thesis using signed_bytes_clear [OF r, of "n < 0"] tk by (simp add: le_val_le_bytes)
  qed
qed

lemma setint64_value:
  assumes "bn_lib_ok L" shows "CBigNum_setint64 L sn = sint sn"
proof -
  have "CBigNum_setint64 L sn = (if sn <s 0 then - int (unat (- (sn + 1) + 1)) else int (unat sn))"
    using set_word_value [OF assms, of 8 "sn <s 0" "if sn <s 0 then - (sn + 1) + 1 else sn"]
    by (auto simp: CBigNum_setint64_def Let_def)
  also have "\<dots> = sint sn"
  proof (cases "sn <s 0")
    case True
    then have "sint sn < 0" by (simp add: word_sless_alt)
    then show ?thesis using True neg_magnitude [OF True] by simp
  next
    case False
    then have "0 \<le> sint sn" by (simp add: word_sless_alt)
    then have "uint sn = sint sn" using uint_sint [of sn] sint_less [of sn] by (simp add: take_bit_int_eq_self)
    then show ?thesis using False by simp
  qed
  finally show ?thesis .
qed

lemma setuint_value:
  assumes "bn_lib_ok L" shows "CBigNum_setuint64 L un = uint un" "CBigNum_setuint256 L wn = uint wn"
  using set_word_value [OF assms, of 8 False un] set_word_value [OF assms, of 32 False wn]
  by (simp_all add: CBigNum_setuint64_def CBigNum_setuint256_def Let_def)

lemma getuint_value:
  assumes "bn_lib_ok L"
  shows "CBigNum_getuint64 L n = of_int \<bar>n\<bar>" "CBigNum_getuint256 L n = of_int \<bar>n\<bar>"
proof -
  have ge: "\<not> length (BN_bn2mpi L n) < 4" using assms by (simp add: bn_lib_ok_def)
  have wrap: "(of_nat (nat \<bar>n\<bar> mod 2 ^ LENGTH('b)) :: 'b::len word) = of_int \<bar>n\<bar>"
  proof -
    have "(of_nat (nat \<bar>n\<bar> mod 2 ^ LENGTH('b)) :: 'b word) = of_nat (nat \<bar>n\<bar>)"
      by (simp only: word_of_nat_eq_iff take_bit_eq_mod mod_mod_trivial)
    also have "\<dots> = of_int (int (nat \<bar>n\<bar>))" by (simp only: of_int_of_nat_eq)
    finally show ?thesis by simp
  qed
  have p: "(256 :: nat) ^ 8 = 2 ^ LENGTH(64)" "(256 :: nat) ^ 32 = 2 ^ LENGTH(256)" by simp_all
  show "CBigNum_getuint64 L n = of_int \<bar>n\<bar>"
    unfolding CBigNum_getuint64_def Let_def if_not_P [OF ge] get_word_value [OF assms] p by (rule wrap)
  show "CBigNum_getuint256 L n = of_int \<bar>n\<bar>"
    unfolding CBigNum_getuint256_def Let_def if_not_P [OF ge] get_word_value [OF assms] p by (rule wrap)
qed

text \<open>
  The conversions of \<open>CBigNum\<close> are exact: the setters of 64-bit and 256-bit integers give the
  integer, the getters the magnitude modulo the width, and byte vectors are read and written as the
  script numbers of \<open>CScriptNum\<close>, for every length.
\<close>

theorem CBigNum_conversions:
  assumes "bn_lib_ok L"
  shows "CBigNum_setint64 L sn = sint sn \<and> CBigNum_setuint64 L un = uint un \<and> CBigNum_setuint256 L wn = uint wn
    \<and> CBigNum_getuint64 L n = of_int \<bar>n\<bar> \<and> CBigNum_getuint256 L n = of_int \<bar>n\<bar>
    \<and> signed_value (CBigNum_getvch L n) = n"
  using assms by (simp add: setint64_value setuint_value getuint_value getvch_value signed_value_payload)

lemma CBigNum_conversions_witness:
  "CBigNum_setint64 ref_lib (- 300) = - 300 \<and> CBigNum_getuint64 ref_lib (- 300) = 300"
  using CBigNum_conversions [OF ref_lib_ok, of "- 300" 0 0 "- 300"] by simp

subsection \<open>Compact targets\<close>

lemma WriteBE32_ReadBE32: "WriteBE32 (ReadBE32 [b3, b2, b1, b0]) = [b3, b2, b1, b0]"
  by (simp add: WriteBE32_def ReadBE32_def)
    (intro conjI; rule bit_word_eqI; auto simp: bit_simps dest: bit_imp_le_length)

lemma GetCompact_bytes:
  assumes "BN_bn2mpi L n = mpi_size (length p) @ p" "length p < 256"
  shows "CBigNum_GetCompact L n = ReadBE32 (of_nat (length p) # take 3 (p @ [0, 0, 0]))"
proof -
  have s: "ucast (of_nat (length p) :: byte) = (of_nat (length p) :: u32)"
    using assms(2) by (simp add: word_unat_eq_iff unat_of_nat)
  consider "p = []" | a where "p = [a]" | a b where "p = [a, b]" | a b c q where "p = a # b # c # q"
    by (metis list.exhaust)
  then show ?thesis
    by cases (use assms s in \<open>simp_all add: CBigNum_GetCompact_def ReadBE32_def Let_def nth_append or.assoc\<close>)
qed

lemma SetCompact_bytes:
  assumes "WriteBE32 c = [of_nat s, b2, b1, b0]" "s < 256"
  shows "CBigNum_SetCompact L c = BN_mpi2bn L (mpi_size s @ take s ([b2, b1, b0] @ replicate (s - 3) 0))"
proof -
  have w: "ucast (drop_bit 24 c) = (of_nat s :: byte)" "ucast (drop_bit 16 c) = b2" "ucast (drop_bit 8 c) = b1" "ucast c = b0"
    using assms(1) by (auto simp: WriteBE32_def)
  have "unat c < 256 * 2 ^ 24" using unsigned_less [of c, where 'a = nat] by simp
  then have "unat c div 2 ^ 24 < 256" by (rule less_mult_imp_div_less)
  moreover have "unat (drop_bit 24 c) = unat c div 2 ^ 24" unfolding unat_drop_bit_eq by (rule drop_bit_eq_div)
  ultimately have "unat (drop_bit 24 c) < 256" by simp
  then have "unat (drop_bit 24 c) = unat (ucast (drop_bit 24 c) :: byte)"
    by (simp add: unsigned_ucast_eq unsigned_take_bit_eq take_bit_nat_eq_self)
  then have n: "unat (drop_bit 24 c) = s" using w(1) assms(2) by (simp add: unat_of_nat)
  have m: "mpi_size s = [0, 0, 0, of_nat s]" using assms(2) by (simp add: mpi_size_def)
  consider "s = 0" | "s = 1" | "s = 2" | k where "s = Suc (Suc (Suc k))" by (metis One_nat_def Suc_1 not0_implies_Suc)
  then show ?thesis
  proof cases
    case 4
    have r: "replicate (4 + Suc (Suc (Suc k))) (0 :: byte) = [0, 0, 0, 0, 0, 0, 0] @ replicate k 0"
      by (simp add: numeral_eq_Suc)
    have t: "take s ([b2, b1, b0] @ replicate (s - 3) 0) = [b2, b1, b0] @ replicate k 0" by (simp add: 4)
    show ?thesis unfolding CBigNum_SetCompact_def n w m Let_def t unfolding 4 r by simp
  qed (simp_all add: CBigNum_SetCompact_def n w mpi_size_def Let_def, simp_all add: numeral_eq_Suc)
qed

lemma compact_rounds:
  assumes "bn_lib_ok L" "0 \<le> n" "length (mpi_payload n) < 256"
  shows "CBigNum_SetCompact L (CBigNum_GetCompact L n) =
    n div 256 ^ (length (mpi_payload n) - 3) * 256 ^ (length (mpi_payload n) - 3)"
proof -
  define p where "p = mpi_payload n"
  define s where "s = length p"
  define q where "q = take 3 p @ replicate (s - 3) 0"
  have s: "s < 256" using assms(3) by (simp add: s_def p_def)
  have "BN_bn2mpi L n = mpi_size (length p) @ p" using assms(1) by (simp add: bn_lib_ok_def p_def)
  then have g: "CBigNum_GetCompact L n = ReadBE32 (of_nat s # take 3 (p @ [0, 0, 0]))"
    using GetCompact_bytes s by (simp add: s_def)
  have three: "length l = 3 \<Longrightarrow> \<exists>b2 b1 b0. l = [b2, b1, b0]" for l :: bytes
    by (auto simp: numeral_3_eq_3 length_Suc_conv)
  have "length (take 3 (p @ [0, 0, 0])) = 3" by simp
  from three [OF this] obtain b2 b1 b0 where b: "take 3 (p @ [0, 0, 0]) = [b2, b1, b0]" by blast
  have "take s ([b2, b1, b0] @ replicate (s - 3) 0) = q"
    unfolding b [symmetric] q_def s_def by (auto simp: take_append min_def)
  then have "CBigNum_SetCompact L (CBigNum_GetCompact L n) = BN_mpi2bn L (mpi_size s @ q)"
    unfolding g b using SetCompact_bytes [OF WriteBE32_ReadBE32 s, of L b2 b1 b0] by argo
  moreover have len: "length q = s" by (simp add: q_def s_def)
  moreover have "length q < 2 ^ 32" using len s by simp
  then have "BN_mpi2bn L (mpi_size (length q) @ q) = signed_value (rev q)"
    using assms(1) unfolding bn_lib_ok_def by blast
  ultimately have v: "CBigNum_SetCompact L (CBigNum_GetCompact L n) = signed_value (rev q)" by (simp only:)
  show ?thesis
  proof (cases "n = 0")
    case True
    then show ?thesis using v by (simp add: q_def s_def p_def mpi_payload_def signed_value_def)
  next
    case False
    let ?r = "le_bytes (nat n)"
    have r: "?r \<noteq> []" "last ?r \<noteq> 0" using le_bytes_props [of "nat n"] False assms(2) by simp_all
    have pr: "rev p = signed_bytes False ?r" using False assms(2) by (simp add: p_def mpi_payload_def)
    then have ne: "p \<noteq> []" using r(1) by (auto simp: signed_bytes_def split: if_splits)
    have top: "unat (last (rev p)) < 128" using r pr by (auto simp: signed_bytes_def)
    have pv: "int (le_val (rev p)) = n"
      using signed_value_payload [of n] top ne unfolding p_def [symmetric] by (simp add: signed_value_def)
    have "rev p = rev (drop 3 p) @ rev (take 3 p)" by (metis append_take_drop_id rev_append)
    then have split: "le_val (rev p) = le_val (rev (drop 3 p)) + 256 ^ (s - 3) * le_val (rev (take 3 p))"
      by (simp add: le_val_append s_def)
    have low: "le_val (rev (drop 3 p)) < 256 ^ (s - 3)" using le_val_less [of "rev (drop 3 p)"] by (simp add: s_def)
    have z: "le_val (replicate k 0) = 0" for k by (induction k) simp_all
    have "last (rev q) = last (rev p)" using ne by (cases p) (simp_all add: q_def)
    then have "signed_value (rev q) = int (le_val (rev q))"
      using top ne by (auto simp: signed_value_def q_def)
    also have "le_val (rev q) = 256 ^ (s - 3) * le_val (rev (take 3 p))" by (simp add: q_def le_val_append z)
    also have "le_val (rev (take 3 p)) = le_val (rev p) div 256 ^ (s - 3)" unfolding split using low by simp
    also have "int (256 ^ (s - 3) * (le_val (rev p) div 256 ^ (s - 3))) = n div 256 ^ (s - 3) * 256 ^ (s - 3)"
      by (simp only: pv [symmetric] of_nat_mult of_nat_power zdiv_int of_nat_numeral mult.commute)
    finally have "CBigNum_SetCompact L (CBigNum_GetCompact L n) = n div 256 ^ (s - 3) * 256 ^ (s - 3)"
      unfolding v .
    then show ?thesis unfolding s_def p_def .
  qed
qed

lemma mpi_payload_length:
  assumes "256 ^ m \<le> n" "n < 256 ^ (m + 1)"
  shows "length (mpi_payload (int n)) = (if n < 128 * 256 ^ m then m + 1 else m + 2)"
proof -
  let ?r = "le_bytes n"
  have "n \<noteq> 0" using assms(1) by (metis not_le zero_less_numeral zero_less_power)
  then have r: "?r \<noteq> []" "last ?r \<noteq> 0" using le_bytes_props by blast+
  have p: "length (mpi_payload (int n)) = length (signed_bytes False ?r)" using \<open>n \<noteq> 0\<close> by (simp add: mpi_payload_def)
  have le: "length (signed_bytes False ?r) \<le> Suc k \<longleftrightarrow> n < 128 * 256 ^ k" for k
    using signed_bytes_length [OF r] by (simp add: le_val_le_bytes)
  have up: "length (signed_bytes False ?r) \<le> Suc (Suc m)" using le [of "Suc m"] assms(2) by simp
  have low: "\<not> length (signed_bytes False ?r) \<le> m"
  proof (cases m)
    case 0
    have "length (signed_bytes False ?r) \<noteq> 0" using r(1) by (simp add: signed_bytes_def)
    then show ?thesis using 0 by simp
  next
    case (Suc j)
    then have "\<not> n < 128 * 256 ^ j" using assms(1) by simp
    then show ?thesis using le [of j] Suc by simp
  qed
  show ?thesis unfolding p using le [of m] up low by auto
qed

text \<open>
  The compact form keeps the three most significant bytes of a target whose top bit is clear, and only two of a
  target whose top bit is set, since the sign takes a byte of its own: reading it back rounds down accordingly. Here \<open>m\<close>
  is the position of the top byte.
\<close>

theorem CBigNum_compact_rounds:
  assumes "bn_lib_ok L" "256 ^ m \<le> n" "n < 256 ^ (m + 1)" "m < 254"
  shows "CBigNum_SetCompact L (CBigNum_GetCompact L (int n)) =
    (if n < 128 * 256 ^ m then int (n div 256 ^ (m - 2) * 256 ^ (m - 2)) else int (n div 256 ^ (m - 1) * 256 ^ (m - 1)))"
  using compact_rounds [OF assms(1), of "int n"] mpi_payload_length [OF assms(2,3)] assms(4)
  by (simp add: zdiv_int)

lemma CBigNum_compact_rounds_witness:
  "CBigNum_SetCompact ref_lib (CBigNum_GetCompact ref_lib (int 0x12345678)) = 0x12345600
   \<and> CBigNum_SetCompact ref_lib (CBigNum_GetCompact ref_lib (int 0x89ABCD)) = 0x89AB00"
  using CBigNum_compact_rounds [OF ref_lib_ok, of 3 "0x12345678"] CBigNum_compact_rounds [OF ref_lib_ok, of 2 "0x89ABCD"]
  by simp

end
