(* ===== verification/Base_58.thy ===== *)
theory Base_58 imports Base_Uint Script_Dest Keys Bignum begin

text \<open>
  \<open>src/src/base58.cpp\<close> and \<open>src/src/base58.h\<close>: base-58 text with and without a checksum, addresses and the text
  form of secret keys. A C string is the list of its characters up to the terminating zero. \<open>Hash\<close> and the
  prefixes of the chosen network are parameters; so are the two MPI functions of OpenSSL, through \<open>bn_lib\<close>. A failed
  \<open>assert\<close> is \<open>None\<close>. The code after the first \<open>return true\<close> of \<open>DecodeBase58\<close> is unreachable and left out, and so are
  failures of \<open>BN_mul\<close>, which only happen when memory is exhausted.
\<close>

unbundle bit_operations_syntax

subsection \<open>Base 58\<close>

definition pszBase58 :: string where
  "pszBase58 = ''123456789ABCDEFGHJKLMNPQRSTUVWXYZabcdefghijkmnopqrstuvwxyz''"

fun strchr :: "string \<Rightarrow> char \<Rightarrow> nat option" where
  "strchr [] c = None"
| "strchr (x # xs) c = (if x = c then Some 0 else map_option Suc (strchr xs c))"

text \<open>The loop over the characters: a space ends the digits, and only spaces may follow it.\<close>

fun decode58_loop :: "string \<Rightarrow> int \<Rightarrow> int option" where
  "decode58_loop [] bn = Some bn"
| "decode58_loop (c # p) bn =
     (case strchr pszBase58 c of
        None \<Rightarrow> (if dropWhile isspace_c (c # p) = [] then Some bn else None)
      | Some k \<Rightarrow> decode58_loop p (bn * 58 + CBigNum_setulong (of_nat k)))"

definition trim_sign_byte :: "bytes \<Rightarrow> bytes" where
  "trim_sign_byte v =
     (if length v \<ge> 2 \<and> v ! (length v - 1) = 0 \<and> v ! (length v - 2) \<ge> 0x80 then butlast v else v)"

definition DecodeBase58 :: "bn_lib \<Rightarrow> string \<Rightarrow> bool \<times> bytes" where
  "DecodeBase58 L psz =
     (let psz = dropWhile isspace_c psz;
          psz = dropWhile (\<lambda>c. c = CHR ''1'') psz
      in case decode58_loop psz 0 of
           None \<Rightarrow> (False, [])
         | Some bn \<Rightarrow>
             (let vchTmp = trim_sign_byte (CBigNum_getvch L bn);
                  nLeadingZeros = length (takeWhile (\<lambda>c. c = pszBase58 ! 0) psz)
              in (True, replicate nLeadingZeros 0 @ rev vchTmp)))"

text \<open>\<open>b58 = b58 * 256 + ch\<close>, from the last digit to the first, and the carry that is left.\<close>

fun encode58_add :: "bytes \<Rightarrow> nat \<Rightarrow> bytes \<times> nat" where
  "encode58_add [] carry = ([], carry)"
| "encode58_add (d # ds) carry =
     (let (ds', carry) = encode58_add ds carry; carry = carry + 256 * unat d
      in (of_nat (carry mod 58) # ds', carry div 58))"

fun encode58_loop :: "bytes \<Rightarrow> bytes \<Rightarrow> bytes option" where
  "encode58_loop [] b58 = Some b58"
| "encode58_loop (c # p) b58 =
     (let (b58, carry) = encode58_add b58 (unat c) in if carry \<noteq> 0 then None else encode58_loop p b58)"

definition EncodeBase58 :: "bytes \<Rightarrow> string option" where
  "EncodeBase58 vch =
     (let zeroes = length (takeWhile (\<lambda>b. b = 0) vch);
          p = dropWhile (\<lambda>b. b = 0) vch
      in case encode58_loop p (replicate (length p * 138 div 100 + 1) 0) of
           None \<Rightarrow> None
         | Some b58 \<Rightarrow> Some (replicate zeroes (CHR ''1'') @ map (\<lambda>d. pszBase58 ! unat d) (dropWhile (\<lambda>d. d = 0) b58)))"

subsection \<open>The checksum\<close>

definition checksum4 :: "(bytes \<Rightarrow> uint256) \<Rightarrow> bytes \<Rightarrow> bytes" where
  "checksum4 Hash v = take 4 (WRITEDATA 32 (Hash v))"

definition EncodeBase58Check :: "(bytes \<Rightarrow> uint256) \<Rightarrow> bytes \<Rightarrow> string option" where
  "EncodeBase58Check Hash vchIn = EncodeBase58 (vchIn @ checksum4 Hash vchIn)"

definition DecodeBase58Check :: "(bytes \<Rightarrow> uint256) \<Rightarrow> bn_lib \<Rightarrow> string \<Rightarrow> bool \<times> bytes" where
  "DecodeBase58Check Hash L psz =
     (case DecodeBase58 L psz of (ok, vchRet) \<Rightarrow>
        if \<not> ok \<or> length vchRet < 4 then (False, [])
        else let n = length vchRet - 4 in
          if checksum4 Hash (take n vchRet) \<noteq> drop n vchRet then (False, []) else (True, take n vchRet))"

subsection \<open>\<open>CBase58Data\<close>\<close>

record CBase58Data =
  vchVersion :: bytes
  vchData :: bytes

definition CBase58Data_new :: CBase58Data where
  "CBase58Data_new = \<lparr>vchVersion = [], vchData = []\<rparr>"

definition SetData :: "bytes \<Rightarrow> bytes \<Rightarrow> CBase58Data \<Rightarrow> CBase58Data" where
  "SetData vchVersionIn pdata d = \<lparr>vchVersion = vchVersionIn, vchData = pdata\<rparr>"

definition SetString :: "(bytes \<Rightarrow> uint256) \<Rightarrow> bn_lib \<Rightarrow> string \<Rightarrow> nat \<Rightarrow> CBase58Data \<Rightarrow> bool \<times> CBase58Data" where
  "SetString Hash L psz nVersionBytes d =
     (case DecodeBase58Check Hash L psz of (rc58, vchTemp) \<Rightarrow>
        if \<not> rc58 \<or> length vchTemp < nVersionBytes then (False, \<lparr>vchVersion = [], vchData = []\<rparr>)
        else (True, \<lparr>vchVersion = take nVersionBytes vchTemp, vchData = drop nVersionBytes vchTemp\<rparr>))"

definition ToString58 :: "(bytes \<Rightarrow> uint256) \<Rightarrow> CBase58Data \<Rightarrow> string option" where
  "ToString58 Hash d = EncodeBase58Check Hash (vchVersion d @ vchData d)"

text \<open>\<open>std::vector\<close> compares lexicographically.\<close>

fun vch_less :: "bytes \<Rightarrow> bytes \<Rightarrow> bool" where
  "vch_less xs [] = False"
| "vch_less [] (y # ys) = True"
| "vch_less (x # xs) (y # ys) = (x < y \<or> x = y \<and> vch_less xs ys)"

definition CompareTo :: "CBase58Data \<Rightarrow> CBase58Data \<Rightarrow> int" where
  "CompareTo a b58 =
     (if vch_less (vchVersion a) (vchVersion b58) then -1
      else if vch_less (vchVersion b58) (vchVersion a) then 1
      else if vch_less (vchData a) (vchData b58) then -1
      else if vch_less (vchData b58) (vchData a) then 1
      else 0)"

subsection \<open>Addresses\<close>

text \<open>
  \<open>Base58Type\<close> numbers the prefixes. \<open>CBitcoinAddress\<close> has the code of \<open>CSocietyGcoinAddress\<close> with the numbers 0 and 5 for
  the two kinds of address, so one group of definitions, over the two numbers, models both.
\<close>

definition PUBKEY_ADDRESS :: nat where "PUBKEY_ADDRESS = 0"
definition SCRIPT_ADDRESS :: nat where "SCRIPT_ADDRESS = 1"
definition SECRET_KEY :: nat where "SECRET_KEY = 2"
definition EXT_PUBLIC_KEY :: nat where "EXT_PUBLIC_KEY = 4"
definition EXT_SECRET_KEY :: nat where "EXT_SECRET_KEY = 5"

definition main_base58Prefixes :: "bytes list" where
  "main_base58Prefixes = [[63], [40], [152], [40], [0x04, 0x88, 0xB2, 0x1E], [0x04, 0x88, 0xAD, 0xE4]]"

definition testnet_base58Prefixes :: "bytes list" where
  "testnet_base58Prefixes = [[125], [196], [239], [40], [0x04, 0x35, 0x87, 0xCF], [0x04, 0x35, 0x83, 0x94]]"

definition address_types :: "nat \<times> nat" where
  "address_types = (PUBKEY_ADDRESS, SCRIPT_ADDRESS)"

definition bitcoin_address_types :: "nat \<times> nat" where
  "bitcoin_address_types = (0, 5)"

fun address_Set :: "bytes list \<Rightarrow> nat \<times> nat \<Rightarrow> CTxDestination \<Rightarrow> CBase58Data \<Rightarrow> bool \<times> CBase58Data" where
  "address_Set P (pk, sc) (CKeyID h) a = (True, SetData (P ! pk) (take 20 h) a)"
| "address_Set P (pk, sc) (CScriptID h) a = (True, SetData (P ! sc) (take 20 h) a)"
| "address_Set P (pk, sc) CNoDestination a = (False, a)"
| "address_Set P (pk, sc) (CStealthAddress s) a = (False, a)"

definition address_IsValid :: "bytes list \<Rightarrow> nat \<times> nat \<Rightarrow> CBase58Data \<Rightarrow> bool" where
  "address_IsValid P t a =
     (length (vchData a) = 20 \<and> (vchVersion a = P ! fst t \<or> vchVersion a = P ! snd t))"

definition address_Get :: "bytes list \<Rightarrow> nat \<times> nat \<Rightarrow> CBase58Data \<Rightarrow> CTxDestination" where
  "address_Get P t a =
     (if \<not> address_IsValid P t a then CNoDestination
      else let id = take 20 (vchData a) in
        if vchVersion a = P ! fst t then CKeyID id
        else if vchVersion a = P ! snd t then CScriptID id
        else CNoDestination)"

definition address_GetKeyID :: "bytes list \<Rightarrow> nat \<times> nat \<Rightarrow> CBase58Data \<Rightarrow> bytes option" where
  "address_GetKeyID P t a =
     (if \<not> address_IsValid P t a \<or> vchVersion a \<noteq> P ! fst t then None else Some (take 20 (vchData a)))"

definition address_IsScript :: "bytes list \<Rightarrow> nat \<times> nat \<Rightarrow> CBase58Data \<Rightarrow> bool" where
  "address_IsScript P t a = (address_IsValid P t a \<and> vchVersion a = P ! snd t)"

subsection \<open>Secret keys\<close>

definition secret_SetKey :: "bytes list \<Rightarrow> CKey \<Rightarrow> CBase58Data \<Rightarrow> CBase58Data option" where
  "secret_SetKey P k d =
     (if \<not> fValid k then None
      else let d = SetData (P ! SECRET_KEY) (keydata k) d in
        Some (if fCompressed k then d\<lparr>vchData := vchData d @ [1]\<rparr> else d))"

text \<open>\<open>GetKey\<close> reads 32 bytes whatever there is; a shorter vector is overrun.\<close>

definition secret_GetKey :: "('pk, 'sig) secp256k1 \<Rightarrow> CKey \<Rightarrow> CBase58Data \<Rightarrow> CKey option" where
  "secret_GetKey C fresh d =
     (if length (vchData d) < 32 then None
      else Some (CKey_Set C (take 32 (vchData d)) (length (vchData d) > 32 \<and> vchData d ! 32 = 1) fresh))"

definition secret_IsValid :: "bytes list \<Rightarrow> CBase58Data \<Rightarrow> bool" where
  "secret_IsValid P d =
     ((length (vchData d) = 32 \<or> length (vchData d) = 33 \<and> vchData d ! 32 = 1) \<and> vchVersion d = P ! SECRET_KEY)"

definition secret_SetString ::
  "bytes list \<Rightarrow> (bytes \<Rightarrow> uint256) \<Rightarrow> bn_lib \<Rightarrow> string \<Rightarrow> CBase58Data \<Rightarrow> bool \<times> CBase58Data" where
  "secret_SetString P Hash L s d = (case SetString Hash L s 1 d of (ok, d) \<Rightarrow> (ok \<and> secret_IsValid P d, d))"

text \<open>Extended keys: 74 bytes behind a prefix of four.\<close>

definition ext_SetKey :: "bytes list \<Rightarrow> nat \<Rightarrow> bytes \<Rightarrow> CBase58Data \<Rightarrow> CBase58Data" where
  "ext_SetKey P type code d = SetData (P ! type) (take 74 code) d"

definition ext_code :: "CBase58Data \<Rightarrow> bytes option" where
  "ext_code d = (if length (vchData d) < 74 then None else Some (take 74 (vchData d)))"

subsection \<open>What the digits stand for\<close>

primrec val58 :: "bytes \<Rightarrow> nat" where
  "val58 [] = 0"
| "val58 (d # ds) = unat d * 58 ^ length ds + val58 ds"

definition digits58 :: "bytes \<Rightarrow> bool" where
  "digits58 ds \<longleftrightarrow> (\<forall>d\<in>set ds. unat d < 58)"

lemma encode58_add_value:
  assumes "encode58_add ds c = (ds', c')" "digits58 ds"
  shows "length ds' = length ds \<and> digits58 ds' \<and> val58 ds' + c' * 58 ^ length ds = 256 * val58 ds + c"
  using assms
proof (induction ds arbitrary: ds' c')
  case (Cons d ds)
  obtain e c1 where e: "encode58_add ds c = (e, c1)" by fastforce
  let ?x = "c1 + 256 * unat d"
  have r: "ds' = of_nat (?x mod 58) # e" "c' = ?x div 58" using Cons.prems(1) e by (auto simp: Let_def)
  have d: "digits58 ds" using Cons.prems(2) by (simp add: digits58_def)
  note ih = Cons.IH [OF e d]
  obtain q m where qm: "?x div 58 = q" "?x mod 58 = m" by blast
  have x: "?x = 58 * q + m" "m < 58" using mult_div_mod_eq [of 58 ?x] qm by auto
  have u: "unat (of_nat m :: byte) = m" using x(2) by (simp add: unat_of_nat)
  have "val58 ds' + c' * 58 ^ length (d # ds) = (58 * q + m) * 58 ^ length ds + val58 e"
    using ih u unfolding r qm by (simp add: algebra_simps)
  also have "\<dots> = c1 * 58 ^ length ds + val58 e + 256 * (unat d * 58 ^ length ds)"
    unfolding x(1) [symmetric] by (simp add: algebra_simps)
  also have "\<dots> = 256 * val58 (d # ds) + c" using ih by (simp add: algebra_simps)
  finally show ?case using ih u x(2) unfolding r qm by (auto simp: digits58_def)
qed (auto simp: digits58_def)

text \<open>Most significant byte first.\<close>

definition be_value :: "bytes \<Rightarrow> nat" where
  "be_value p = le_val (rev p)"

lemma be_value_Cons: "be_value (c # p) = unat c * 256 ^ length p + be_value p"
  by (simp add: be_value_def le_val_append)

lemma be_value_less: "be_value p < 256 ^ length p"
  unfolding be_value_def using le_val_less [of "rev p"] by simp

lemma encode58_loop_value:
  assumes "digits58 b" "val58 b * 256 ^ length p + be_value p < 58 ^ length b"
  shows "\<exists>b'. encode58_loop p b = Some b' \<and> digits58 b' \<and> length b' = length b
    \<and> val58 b' = val58 b * 256 ^ length p + be_value p"
  using assms
proof (induction p arbitrary: b)
  case Nil
  then show ?case by (simp add: be_value_def)
next
  case (Cons c p)
  obtain e r where e: "encode58_add b (unat c) = (e, r)" by fastforce
  note v = encode58_add_value [OF e Cons.prems(1)]
  let ?n = "256 * val58 b + unat c"
  have s: "val58 b * 256 ^ length (c # p) + be_value (c # p) = ?n * 256 ^ length p + be_value p"
    by (simp add: be_value_Cons algebra_simps)
  have "?n \<le> ?n * 256 ^ length p" by simp
  then have n: "?n < 58 ^ length b" using Cons.prems(2) s by linarith
  have "r = 0"
  proof (rule ccontr)
    assume "r \<noteq> 0"
    then have "58 ^ length b \<le> r * 58 ^ length b" by simp
    then show False using v n by linarith
  qed
  then have ve: "val58 e = ?n" using v by simp
  have "\<exists>b'. encode58_loop p e = Some b' \<and> digits58 b' \<and> length b' = length e
      \<and> val58 b' = val58 e * 256 ^ length p + be_value p"
    by (rule Cons.IH) (use v ve s Cons.prems(2) in simp_all)
  then show ?case using e \<open>r = 0\<close> v ve s by auto
qed

lemma room_for_digits: "256 ^ n \<le> (58 :: nat) ^ (n * 138 div 100 + 1)"
proof -
  let ?k = "n * 138 div 100 + 1"
  have "n * 138 \<le> 100 * ?k"
  proof -
    obtain q r where "n * 138 div 100 = q" "n * 138 mod 100 = r" by blast
    then show ?thesis using mult_div_mod_eq [of 100 "n * 138"] mod_less_divisor [of 100 "n * 138"] by auto
  qed
  then have "(58 :: nat) ^ (n * 138) \<le> 58 ^ (100 * ?k)" by (intro power_increasing) simp_all
  moreover have "(256 ^ 100 :: nat) ^ n \<le> (58 ^ 138) ^ n" by (intro power_mono) simp_all
  ultimately have "((256 :: nat) ^ n) ^ 100 \<le> (58 ^ ?k) ^ 100"
    by (simp only: power_mult [symmetric] mult.commute [of n] mult.commute [of ?k] mult.commute [of _ 100])
  then show ?thesis by (rule power_le_imp_le_base [of _ 99, unfolded One_nat_def, simplified]) simp
qed

lemma alphabet58:
  assumes "k < 58"
  shows "strchr pszBase58 (pszBase58 ! k) = Some k" "\<not> isspace_c (pszBase58 ! k)"
    "pszBase58 ! k = CHR ''1'' \<longleftrightarrow> k = 0"
proof -
  have "list_all (\<lambda>k. strchr pszBase58 (pszBase58 ! k) = Some k \<and> \<not> isspace_c (pszBase58 ! k)
      \<and> (pszBase58 ! k = CHR ''1'' \<longleftrightarrow> k = 0)) [0..<58]"
    by (simp add: upt_rec pszBase58_def isspace_c_def)
  then show "strchr pszBase58 (pszBase58 ! k) = Some k" "\<not> isspace_c (pszBase58 ! k)"
    "pszBase58 ! k = CHR ''1'' \<longleftrightarrow> k = 0" using assms by (simp_all add: list_all_iff)
qed

lemma decode58_loop_digits:
  "digits58 ds \<Longrightarrow> decode58_loop (map (\<lambda>d. pszBase58 ! unat d) ds) bn = Some (bn * 58 ^ length ds + int (val58 ds))"
proof (induction ds arbitrary: bn)
  case (Cons d ds)
  have d: "unat d < 58" "digits58 ds" using Cons.prems by (auto simp: digits58_def)
  have u: "CBigNum_setulong (of_nat (unat d)) = int (unat d)"
    using d(1) by (simp add: CBigNum_setulong_def unsigned_of_nat take_bit_nat_eq_self del: of_nat_unat)
  have "decode58_loop (map (\<lambda>d. pszBase58 ! unat d) (d # ds)) bn
      = decode58_loop (map (\<lambda>d. pszBase58 ! unat d) ds) (bn * 58 + int (unat d))"
    by (simp only: list.map decode58_loop.simps alphabet58(1) [OF d(1)] option.case u)
  also have "\<dots> = Some ((bn * 58 + int (unat d)) * 58 ^ length ds + int (val58 ds))" by (rule Cons.IH [OF d(2)])
  finally show ?case by (simp add: algebra_simps)
qed simp

lemma trim_sign_byte_signed:
  assumes "r \<noteq> []" "last r \<noteq> 0"
  shows "trim_sign_byte (signed_bytes False r) = r"
proof (cases "128 \<le> unat (last r)")
  case True
  then have l: "last r \<ge> 0x80" by (simp add: word_le_nat_alt)
  moreover have "r ! (length r - 1) = last r" using assms(1) by (simp add: last_conv_nth)
  moreover have "signed_bytes False r = r @ [0]" using True by (simp add: signed_bytes_def byte_sign_clear)
  ultimately show ?thesis using assms(1) by (auto simp: trim_sign_byte_def nth_append Suc_le_eq)
next
  case False
  then have "signed_bytes False r = r" by (simp add: signed_bytes_def byte_sign_clear)
  moreover have "r ! (length r - 1) \<noteq> 0" using assms by (simp add: last_conv_nth)
  ultimately show ?thesis by (simp add: trim_sign_byte_def)
qed

lemma bignum_bytes:
  assumes "bn_lib_ok L" "p = [] \<or> hd p \<noteq> 0"
  shows "rev (trim_sign_byte (CBigNum_getvch L (int (be_value p)))) = p"
proof (cases "p = []")
  case True
  then show ?thesis
    by (simp add: getvch_value [OF assms(1)] mpi_payload_def be_value_def trim_sign_byte_def)
next
  case False
  let ?r = "rev p"
  have r: "?r \<noteq> []" "last ?r \<noteq> 0" using False assms(2) by (simp_all add: last_rev)
  have "le_bytes (be_value p) = ?r" using le_bytes_le_val [of ?r] r by (simp add: be_value_def)
  moreover have "be_value p \<noteq> 0" using le_val_pos [OF r] by (simp add: be_value_def)
  ultimately show ?thesis using trim_sign_byte_signed [OF r]
    by (simp add: getvch_value [OF assms(1)] mpi_payload_def)
qed

lemma val58_dropWhile: "val58 (dropWhile (\<lambda>d. d = 0) ds) = val58 ds"
  by (induction ds) auto

lemma hd_dropWhile_zero: "xs = [] \<or> hd (dropWhile (\<lambda>b. b = 0) xs) \<noteq> 0 \<or> dropWhile (\<lambda>b. b = 0) xs = []"
  using hd_dropWhile [of "\<lambda>b. b = 0" xs] by auto

lemma dropWhile_ones:
  "dropWhile (\<lambda>c. c = x) (replicate z x @ s) = dropWhile (\<lambda>c. c = x) s"
  by (induction z) auto

text \<open>What the encoder writes, and what the decoder makes of it.\<close>

lemma EncodeBase58_shape:
  obtains ds where "digits58 ds" "ds = [] \<or> hd ds \<noteq> 0" "val58 ds = be_value (dropWhile (\<lambda>b. b = 0) vch)"
    "EncodeBase58 vch = Some (replicate (length (takeWhile (\<lambda>b. b = 0) vch)) (CHR ''1'') @ map (\<lambda>d. pszBase58 ! unat d) ds)"
proof -
  let ?p = "dropWhile (\<lambda>b. b = 0) vch"
  let ?b = "replicate (length ?p * 138 div 100 + 1) (0 :: byte)"
  have z: "val58 (replicate n 0) = 0" for n by (induction n) simp_all
  have "val58 ?b * 256 ^ length ?p + be_value ?p < 58 ^ length ?b"
    using order_less_le_trans [OF be_value_less room_for_digits, of ?p] by (simp add: z)
  from encode58_loop_value [OF _ this] obtain b where b: "encode58_loop ?p ?b = Some b" "digits58 b"
    "val58 b = be_value ?p" by (auto simp: z digits58_def)
  show thesis
  proof (rule that)
    show "digits58 (dropWhile (\<lambda>d. d = 0) b)" using b(2) by (auto simp: digits58_def dest: set_dropWhileD)
    show "dropWhile (\<lambda>d. d = 0) b = [] \<or> hd (dropWhile (\<lambda>d. d = 0) b) \<noteq> 0" using hd_dropWhile_zero [of b] by auto
  qed (use b in \<open>simp_all add: val58_dropWhile EncodeBase58_def Let_def\<close>)
qed

lemma Base58_drops_zeros:
  assumes L: "bn_lib_ok L"
  obtains s where "EncodeBase58 vch = Some s" "DecodeBase58 L s = (True, dropWhile (\<lambda>b. b = 0) vch)"
proof -
  let ?p = "dropWhile (\<lambda>b. b = 0) vch" and ?f = "\<lambda>d. pszBase58 ! unat (d :: byte)"
  obtain ds where ds: "digits58 ds" "ds = [] \<or> hd ds \<noteq> 0" "val58 ds = be_value ?p"
    and e: "EncodeBase58 vch = Some (replicate (length (takeWhile (\<lambda>b. b = 0) vch)) (CHR ''1'') @ map ?f ds)"
    (is "_ = Some ?s") by (rule EncodeBase58_shape)
  have nb: "\<not> isspace_c (CHR ''1'')" by (simp add: isspace_c_def)
  have hd_ok: "ds = [] \<or> \<not> isspace_c (?f (hd ds)) \<and> ?f (hd ds) \<noteq> CHR ''1''"
    using ds(1,2) alphabet58 [of "unat (hd ds)"] by (cases ds) (auto simp: digits58_def unat_eq_zero)
  then have "dropWhile isspace_c ?s = ?s"
    using nb by (cases ds; cases "takeWhile (\<lambda>b. b = 0) vch") auto
  moreover have "dropWhile (\<lambda>c. c = CHR ''1'') ?s = map ?f ds"
    using hd_ok by (cases ds) (simp_all add: dropWhile_ones)
  moreover have "takeWhile (\<lambda>c. c = pszBase58 ! 0) (map ?f ds) = []"
    using hd_ok by (cases ds) (simp_all add: pszBase58_def)
  ultimately have "DecodeBase58 L ?s = (True, ?p)"
    using decode58_loop_digits [OF ds(1), of 0] bignum_bytes [OF L, of ?p] hd_dropWhile_zero [of vch] ds(3)
    by (auto simp: DecodeBase58_def)
  then show thesis using e that by blast
qed

subsection \<open>The checksum protects everything but leading zeros\<close>

lemma length_checksum4 [simp]: "length (checksum4 Hash v) = 4"
  by (simp add: checksum4_def WRITEDATA_def)

lemma Base58Check_roundtrip:
  assumes L: "bn_lib_ok L" and v: "v \<noteq> []" "hd v \<noteq> 0"
  obtains s where "EncodeBase58Check Hash v = Some s" "DecodeBase58Check Hash L s = (True, v)"
proof -
  obtain s where s: "EncodeBase58 (v @ checksum4 Hash v) = Some s"
    "DecodeBase58 L s = (True, dropWhile (\<lambda>b. b = 0) (v @ checksum4 Hash v))"
    by (rule Base58_drops_zeros [OF L])
  moreover have "dropWhile (\<lambda>b. b = 0) (v @ checksum4 Hash v) = v @ checksum4 Hash v"
    using v by (cases v) auto
  ultimately show thesis
    by (intro that [of s]) (simp_all add: EncodeBase58Check_def DecodeBase58Check_def Let_def)
qed

lemma ToString58_SetString:
  assumes L: "bn_lib_ok L" and v: "vchVersion d \<noteq> []" "hd (vchVersion d) \<noteq> 0"
  obtains s where "ToString58 Hash d = Some s"
    "SetString Hash L s n d' = (if n \<le> length (vchVersion d @ vchData d)
       then (True, \<lparr>vchVersion = take n (vchVersion d @ vchData d), vchData = drop n (vchVersion d @ vchData d)\<rparr>)
       else (False, \<lparr>vchVersion = [], vchData = []\<rparr>))"
proof -
  have "vchVersion d @ vchData d \<noteq> []" "hd (vchVersion d @ vchData d) \<noteq> 0" using v by simp_all
  from Base58Check_roundtrip [OF L this, of Hash]
  obtain s where s: "EncodeBase58Check Hash (vchVersion d @ vchData d) = Some s"
    "DecodeBase58Check Hash L s = (True, vchVersion d @ vchData d)" .
  show thesis by (rule that [of s]) (auto simp: ToString58_def SetString_def s)
qed

definition prefixes_ok :: "bytes list \<Rightarrow> bool" where
  "prefixes_ok P \<longleftrightarrow> P \<in> {main_base58Prefixes, testnet_base58Prefixes}"

lemmas prefix_defs = prefixes_ok_def main_base58Prefixes_def testnet_base58Prefixes_def PUBKEY_ADDRESS_def
  SCRIPT_ADDRESS_def SECRET_KEY_def EXT_PUBLIC_KEY_def EXT_SECRET_KEY_def address_types_def bitcoin_address_types_def

subsection \<open>Properties\<close>

text \<open>
  C37. \<open>EncodeBase58\<close> never fails its assertion, and \<open>DecodeBase58\<close> returns the bytes that were encoded without
  their leading zeros: the text is decoded back exactly if there are none. (Each leading zero is written as a
  \<open>1\<close>, which the decoder skips before it counts the leading \<open>1\<close>s.)
\<close>

theorem Base58_loses_leading_zeros:
  assumes "bn_lib_ok L"
  shows "\<exists>s. EncodeBase58 vch = Some s \<and> DecodeBase58 L s = (True, dropWhile (\<lambda>b. b = 0) vch)
    \<and> (DecodeBase58 L s = (True, vch) \<longleftrightarrow> vch = [] \<or> hd vch \<noteq> 0)"
proof -
  obtain s where s: "EncodeBase58 vch = Some s" "DecodeBase58 L s = (True, dropWhile (\<lambda>b. b = 0) vch)"
    by (rule Base58_drops_zeros [OF assms])
  have "dropWhile (\<lambda>b. b = 0) vch = vch \<longleftrightarrow> vch = [] \<or> hd vch \<noteq> 0"
    using length_dropWhile_le [of "\<lambda>b. b = 0" "tl vch"] by (cases vch) auto
  then show ?thesis using s by auto
qed

lemma Base58_loses_leading_zeros_witness:
  "\<exists>s. EncodeBase58 [0, 1] = Some s \<and> DecodeBase58 ref_lib s = (True, [1])"
  using Base58_loses_leading_zeros [OF ref_lib_ok, of "[0, 1]"] by auto

lemma one_byte_version:
  assumes "bn_lib_ok L" "vchVersion d = [v]" "v \<noteq> 0"
  obtains s where "ToString58 Hash d = Some s" "SetString Hash L s 1 d' = (True, d)"
proof -
  obtain s where s: "ToString58 Hash d = Some s" "SetString Hash L s 1 d' = (if 1 \<le> length (vchVersion d @ vchData d)
       then (True, \<lparr>vchVersion = take 1 (vchVersion d @ vchData d), vchData = drop 1 (vchVersion d @ vchData d)\<rparr>)
       else (False, \<lparr>vchVersion = [], vchData = []\<rparr>))"
    by (rule ToString58_SetString [OF assms(1), of d Hash 1 d']) (use assms(2,3) in simp_all)
  have "d = \<lparr>vchVersion = [v], vchData = vchData d\<rparr>" using assms(2) by (cases d) simp
  then show thesis using s that [of s] assms(2) by auto
qed

lemma address_text:
  assumes L: "bn_lib_ok L" and P: "prefixes_ok P" and h: "length h = 20" and dest: "d \<in> {CKeyID h, CScriptID h}"
  shows "\<exists>a s. address_Set P address_types d CBase58Data_new = (True, a) \<and> ToString58 Hash a = Some s
      \<and> SetString Hash L s 1 b = (True, a) \<and> address_Get P address_types a = d"
proof -
  define t where "t = (if d = CKeyID h then PUBKEY_ADDRESS else SCRIPT_ADDRESS)"
  have t: "t \<in> {PUBKEY_ADDRESS, SCRIPT_ADDRESS}" by (simp add: t_def)
  have a: "address_Set P address_types d CBase58Data_new = (True, \<lparr>vchVersion = P ! t, vchData = h\<rparr>)"
    using dest h by (auto simp: SetData_def t_def address_types_def)
  have g: "address_Get P address_types \<lparr>vchVersion = P ! t, vchData = h\<rparr> = d"
    using dest h P by (auto simp: address_Get_def address_IsValid_def t_def prefix_defs)
  let ?a = "\<lparr>vchVersion = P ! t, vchData = h\<rparr>"
  obtain v where v: "P ! t = [v]" "v \<noteq> 0" using t P by (auto simp: prefix_defs)
  obtain s where "ToString58 Hash ?a = Some s" "SetString Hash L s 1 b = (True, ?a)"
    by (rule one_byte_version [OF L, of ?a v Hash b]) (use v in simp_all)
  then show ?thesis using a g by blast
qed

lemma bitcoin_script_text:
  assumes L: "bn_lib_ok L" and P: "prefixes_ok P" and h: "length h = 20"
  shows "\<exists>a s. address_Set P bitcoin_address_types (CScriptID h) CBase58Data_new = (True, a)
      \<and> ToString58 Hash a = Some s \<and> address_Get P bitcoin_address_types (snd (SetString Hash L s 1 b)) = CNoDestination"
proof -
  let ?a = "\<lparr>vchVersion = P ! 5, vchData = h\<rparr>"
  have v: "length (P ! 5) = 4" "P ! 5 \<noteq> []" "hd (P ! 5) \<noteq> 0" using P by (auto simp: prefix_defs)
  have "address_Set P bitcoin_address_types (CScriptID h) CBase58Data_new = (True, ?a)"
    using h by (simp add: bitcoin_address_types_def SetData_def)
  moreover obtain s where "ToString58 Hash ?a = Some s"
    "SetString Hash L s 1 b = (True, \<lparr>vchVersion = take 1 (P ! 5), vchData = drop 1 (P ! 5) @ h\<rparr>)"
    by (rule ToString58_SetString [OF L, of ?a Hash 1 b]) (use v in simp_all)
  moreover have "address_Get P bitcoin_address_types \<lparr>vchVersion = take 1 (P ! 5), vchData = drop 1 (P ! 5) @ h\<rparr> = CNoDestination"
    using v h by (simp add: address_Get_def address_IsValid_def)
  ultimately show ?thesis by (intro exI [of _ ?a] exI [of _ s]) simp
qed

lemma secret_text:
  assumes L: "bn_lib_ok L" and P: "prefixes_ok P"
    and k: "fValid k" "length (keydata k) = 32" "ec_seckey_verify C (keydata k)"
  shows "\<exists>a s. secret_SetKey P k CBase58Data_new = Some a \<and> ToString58 Hash a = Some s
      \<and> secret_SetString P Hash L s b = (True, a) \<and> secret_GetKey C f a = Some k"
proof -
  let ?a = "\<lparr>vchVersion = P ! SECRET_KEY, vchData = keydata k @ (if fCompressed k then [1] else [])\<rparr>"
  have a: "secret_SetKey P k CBase58Data_new = Some ?a"
    using k(1) by (simp add: secret_SetKey_def SetData_def Let_def)
  have g: "secret_GetKey C f ?a = Some k"
    using k by (auto simp: secret_GetKey_def CKey_Set_def CKey_Check_def nth_append intro: CKey.equality)
  have v: "secret_IsValid P ?a" using k(2) by (simp add: secret_IsValid_def nth_append)
  obtain x where x: "P ! SECRET_KEY = [x]" "x \<noteq> 0" using P by (auto simp: prefix_defs)
  obtain s where "ToString58 Hash ?a = Some s" "SetString Hash L s 1 b = (True, ?a)"
    by (rule one_byte_version [OF L, of ?a x Hash b]) (use x in simp_all)
  then show ?thesis using a g v by (auto simp: secret_SetString_def)
qed

text \<open>
  On the main and on the test network the text of an address decodes to the same destination, and the text of a
  secret key to the same key, whatever the checksum hash is; the text of a \<open>CBitcoinAddress\<close> of a script does not
  decode to an address, because its prefix is that of extended secret keys.
\<close>

theorem addresses_and_secrets_roundtrip:
  assumes "bn_lib_ok L" and "prefixes_ok P" and "length h = 20" and "d \<in> {CKeyID h, CScriptID h}"
    and "fValid k" "length (keydata k) = 32" "ec_seckey_verify C (keydata k)"
  shows "(\<exists>a s. address_Set P address_types d CBase58Data_new = (True, a) \<and> ToString58 Hash a = Some s
      \<and> SetString Hash L s 1 b = (True, a) \<and> address_Get P address_types a = d)
    \<and> (\<exists>a s. secret_SetKey P k CBase58Data_new = Some a \<and> ToString58 Hash a = Some s
      \<and> secret_SetString P Hash L s b = (True, a) \<and> secret_GetKey C f a = Some k)
    \<and> (\<exists>a s. address_Set P bitcoin_address_types (CScriptID h) CBase58Data_new = (True, a)
      \<and> ToString58 Hash a = Some s \<and> address_Get P bitcoin_address_types (snd (SetString Hash L s 1 b)) = CNoDestination)"
  using address_text [OF assms(1-4), of Hash b] secret_text [OF assms(1,2) assms(5-7), of Hash b f]
    bitcoin_script_text [OF assms(1-3), of Hash b] by blast

lemma addresses_and_secrets_roundtrip_witness:
  "\<exists>a s. secret_SetKey main_base58Prefixes toy_key CBase58Data_new = Some a
    \<and> ToString58 (\<lambda>_. 5) a = Some s \<and> fst (secret_SetString main_base58Prefixes (\<lambda>_. 5) ref_lib s CBase58Data_new)"
  using addresses_and_secrets_roundtrip [OF ref_lib_ok, of main_base58Prefixes "replicate 20 1" "CKeyID (replicate 20 1)"
    toy_key toy_curve "\<lambda>_. 5" CBase58Data_new toy_key]
  by (fastforce simp: prefixes_ok_def toy_key_def toy_curve_def)

end
