(* ===== verification/Sha1.thy ===== *)
theory Sha1 imports Block_Hasher begin

text \<open>
  \<open>src/src/crypto/sha1.cpp\<close>, in the style of \<open>Sha256\<close>: the 80 unrolled calls of \<open>Round\<close> with
  their rotating registers and the sixteen-word in-place schedule, proved equal to the
  description of FIPS 180-4, and \<open>CSHA1\<close> proved to hash everything written to it.
\<close>

unbundle bit_operations_syntax

text \<open>\<open>Round\<close> assigns \<open>e\<close> and \<open>b\<close>; the model returns the two new values.\<close>

definition sha1_Round ::
  "u32 \<Rightarrow> u32 \<Rightarrow> u32 \<Rightarrow> u32 \<Rightarrow> u32 \<Rightarrow> u32 \<Rightarrow> u32 \<Rightarrow> u32 \<Rightarrow> u32 \<times> u32" where
  "sha1_Round a b c d e f k w =
     (e + ((push_bit 5 a OR drop_bit 27 a) + f + k + w), push_bit 30 b OR drop_bit 2 b)"

definition sha1_f1 :: "u32 \<Rightarrow> u32 \<Rightarrow> u32 \<Rightarrow> u32" where
  "sha1_f1 b c d = d XOR (b AND (c XOR d))"

definition sha1_f2 :: "u32 \<Rightarrow> u32 \<Rightarrow> u32 \<Rightarrow> u32" where
  "sha1_f2 b c d = b XOR c XOR d"

definition sha1_f3 :: "u32 \<Rightarrow> u32 \<Rightarrow> u32 \<Rightarrow> u32" where
  "sha1_f3 b c d = (b AND c) OR (d AND (b OR c))"

definition sha1_left :: "u32 \<Rightarrow> u32" where
  "sha1_left x = push_bit 1 x OR drop_bit 31 x"

definition sha1_Initialize :: "u32 list" where
  "sha1_Initialize = [0x67452301, 0xEFCDAB89, 0x98BADCFE, 0x10325476, 0xC3D2E1F0]"

definition sha1_k1 :: u32 where "sha1_k1 = 0x5A827999"
definition sha1_k2 :: u32 where "sha1_k2 = 0x6ED9EBA1"
definition sha1_k3 :: u32 where "sha1_k3 = 0x8F1BBCDC"
definition sha1_k4 :: u32 where "sha1_k4 = 0xCA62C1D6"

text \<open>
  The last argument of a call: \<open>wi = ReadBE32(chunk + off)\<close>,
  \<open>wi = left(wi ^ wj ^ wk ^ wl)\<close>, or the same value without the assignment.
\<close>

datatype sha1_word = SLoad nat nat | SMix nat nat nat nat | SSum nat nat nat nat

fun sha1_word_value :: "bytes \<Rightarrow> u32 list \<Rightarrow> sha1_word \<Rightarrow> u32 \<times> u32 list" where
  "sha1_word_value chunk w (SLoad i off) =
     (let x = ReadBE32 (drop off chunk) in (x, w[i := x]))"
| "sha1_word_value chunk w (SMix i j k l) =
     (let x = sha1_left (w ! i XOR w ! j XOR w ! k XOR w ! l) in (x, w[i := x]))"
| "sha1_word_value chunk w (SSum i j k l) =
     (sha1_left (w ! i XOR w ! j XOR w ! k XOR w ! l), w)"

text \<open>Register positions, round function, constant, word.\<close>

type_synonym sha1_row = "nat list \<times> (u32 \<Rightarrow> u32 \<Rightarrow> u32 \<Rightarrow> u32) \<times> u32 \<times> sha1_word"

definition sha1_rows_1 :: "sha1_row list" where
  "sha1_rows_1 =
     [([0,1,2,3,4], sha1_f1, sha1_k1, SLoad 0 0), ([4,0,1,2,3], sha1_f1, sha1_k1, SLoad 1 4),
      ([3,4,0,1,2], sha1_f1, sha1_k1, SLoad 2 8), ([2,3,4,0,1], sha1_f1, sha1_k1, SLoad 3 12),
      ([1,2,3,4,0], sha1_f1, sha1_k1, SLoad 4 16), ([0,1,2,3,4], sha1_f1, sha1_k1, SLoad 5 20),
      ([4,0,1,2,3], sha1_f1, sha1_k1, SLoad 6 24), ([3,4,0,1,2], sha1_f1, sha1_k1, SLoad 7 28),
      ([2,3,4,0,1], sha1_f1, sha1_k1, SLoad 8 32), ([1,2,3,4,0], sha1_f1, sha1_k1, SLoad 9 36),
      ([0,1,2,3,4], sha1_f1, sha1_k1, SLoad 10 40), ([4,0,1,2,3], sha1_f1, sha1_k1, SLoad 11 44),
      ([3,4,0,1,2], sha1_f1, sha1_k1, SLoad 12 48), ([2,3,4,0,1], sha1_f1, sha1_k1, SLoad 13 52),
      ([1,2,3,4,0], sha1_f1, sha1_k1, SLoad 14 56), ([0,1,2,3,4], sha1_f1, sha1_k1, SLoad 15 60),
      ([4,0,1,2,3], sha1_f1, sha1_k1, SMix 0 13 8 2), ([3,4,0,1,2], sha1_f1, sha1_k1, SMix 1 14 9 3),
      ([2,3,4,0,1], sha1_f1, sha1_k1, SMix 2 15 10 4), ([1,2,3,4,0], sha1_f1, sha1_k1, SMix 3 0 11 5)]"

definition sha1_rows_2 :: "sha1_row list" where
  "sha1_rows_2 =
     [([0,1,2,3,4], sha1_f2, sha1_k2, SMix 4 1 12 6), ([4,0,1,2,3], sha1_f2, sha1_k2, SMix 5 2 13 7),
      ([3,4,0,1,2], sha1_f2, sha1_k2, SMix 6 3 14 8), ([2,3,4,0,1], sha1_f2, sha1_k2, SMix 7 4 15 9),
      ([1,2,3,4,0], sha1_f2, sha1_k2, SMix 8 5 0 10), ([0,1,2,3,4], sha1_f2, sha1_k2, SMix 9 6 1 11),
      ([4,0,1,2,3], sha1_f2, sha1_k2, SMix 10 7 2 12), ([3,4,0,1,2], sha1_f2, sha1_k2, SMix 11 8 3 13),
      ([2,3,4,0,1], sha1_f2, sha1_k2, SMix 12 9 4 14), ([1,2,3,4,0], sha1_f2, sha1_k2, SMix 13 10 5 15),
      ([0,1,2,3,4], sha1_f2, sha1_k2, SMix 14 11 6 0), ([4,0,1,2,3], sha1_f2, sha1_k2, SMix 15 12 7 1),
      ([3,4,0,1,2], sha1_f2, sha1_k2, SMix 0 13 8 2), ([2,3,4,0,1], sha1_f2, sha1_k2, SMix 1 14 9 3),
      ([1,2,3,4,0], sha1_f2, sha1_k2, SMix 2 15 10 4), ([0,1,2,3,4], sha1_f2, sha1_k2, SMix 3 0 11 5),
      ([4,0,1,2,3], sha1_f2, sha1_k2, SMix 4 1 12 6), ([3,4,0,1,2], sha1_f2, sha1_k2, SMix 5 2 13 7),
      ([2,3,4,0,1], sha1_f2, sha1_k2, SMix 6 3 14 8), ([1,2,3,4,0], sha1_f2, sha1_k2, SMix 7 4 15 9)]"

definition sha1_rows_3 :: "sha1_row list" where
  "sha1_rows_3 =
     [([0,1,2,3,4], sha1_f3, sha1_k3, SMix 8 5 0 10), ([4,0,1,2,3], sha1_f3, sha1_k3, SMix 9 6 1 11),
      ([3,4,0,1,2], sha1_f3, sha1_k3, SMix 10 7 2 12), ([2,3,4,0,1], sha1_f3, sha1_k3, SMix 11 8 3 13),
      ([1,2,3,4,0], sha1_f3, sha1_k3, SMix 12 9 4 14), ([0,1,2,3,4], sha1_f3, sha1_k3, SMix 13 10 5 15),
      ([4,0,1,2,3], sha1_f3, sha1_k3, SMix 14 11 6 0), ([3,4,0,1,2], sha1_f3, sha1_k3, SMix 15 12 7 1),
      ([2,3,4,0,1], sha1_f3, sha1_k3, SMix 0 13 8 2), ([1,2,3,4,0], sha1_f3, sha1_k3, SMix 1 14 9 3),
      ([0,1,2,3,4], sha1_f3, sha1_k3, SMix 2 15 10 4), ([4,0,1,2,3], sha1_f3, sha1_k3, SMix 3 0 11 5),
      ([3,4,0,1,2], sha1_f3, sha1_k3, SMix 4 1 12 6), ([2,3,4,0,1], sha1_f3, sha1_k3, SMix 5 2 13 7),
      ([1,2,3,4,0], sha1_f3, sha1_k3, SMix 6 3 14 8), ([0,1,2,3,4], sha1_f3, sha1_k3, SMix 7 4 15 9),
      ([4,0,1,2,3], sha1_f3, sha1_k3, SMix 8 5 0 10), ([3,4,0,1,2], sha1_f3, sha1_k3, SMix 9 6 1 11),
      ([2,3,4,0,1], sha1_f3, sha1_k3, SMix 10 7 2 12), ([1,2,3,4,0], sha1_f3, sha1_k3, SMix 11 8 3 13)]"

definition sha1_rows_4 :: "sha1_row list" where
  "sha1_rows_4 =
     [([0,1,2,3,4], sha1_f2, sha1_k4, SMix 12 9 4 14), ([4,0,1,2,3], sha1_f2, sha1_k4, SMix 13 10 5 15),
      ([3,4,0,1,2], sha1_f2, sha1_k4, SMix 14 11 6 0), ([2,3,4,0,1], sha1_f2, sha1_k4, SMix 15 12 7 1),
      ([1,2,3,4,0], sha1_f2, sha1_k4, SMix 0 13 8 2), ([0,1,2,3,4], sha1_f2, sha1_k4, SMix 1 14 9 3),
      ([4,0,1,2,3], sha1_f2, sha1_k4, SMix 2 15 10 4), ([3,4,0,1,2], sha1_f2, sha1_k4, SMix 3 0 11 5),
      ([2,3,4,0,1], sha1_f2, sha1_k4, SMix 4 1 12 6), ([1,2,3,4,0], sha1_f2, sha1_k4, SMix 5 2 13 7),
      ([0,1,2,3,4], sha1_f2, sha1_k4, SMix 6 3 14 8), ([4,0,1,2,3], sha1_f2, sha1_k4, SMix 7 4 15 9),
      ([3,4,0,1,2], sha1_f2, sha1_k4, SMix 8 5 0 10), ([2,3,4,0,1], sha1_f2, sha1_k4, SMix 9 6 1 11),
      ([1,2,3,4,0], sha1_f2, sha1_k4, SMix 10 7 2 12), ([0,1,2,3,4], sha1_f2, sha1_k4, SMix 11 8 3 13),
      ([4,0,1,2,3], sha1_f2, sha1_k4, SMix 12 9 4 14), ([3,4,0,1,2], sha1_f2, sha1_k4, SSum 13 10 5 15),
      ([2,3,4,0,1], sha1_f2, sha1_k4, SSum 14 11 6 0), ([1,2,3,4,0], sha1_f2, sha1_k4, SSum 15 12 7 1)]"

definition sha1_call ::
  "bytes \<Rightarrow> u32 list \<times> u32 list \<Rightarrow> sha1_row \<Rightarrow> u32 list \<times> u32 list" where
  "sha1_call chunk st row =
     (let (v, w) = st; (p, f, k, expr) = row; (x, w') = sha1_word_value chunk w expr;
          (e, b) = sha1_Round (v ! (p ! 0)) (v ! (p ! 1)) (v ! (p ! 2)) (v ! (p ! 3)) (v ! (p ! 4))
                     (f (v ! (p ! 1)) (v ! (p ! 2)) (v ! (p ! 3))) k x
      in (v[p ! 4 := e, p ! 1 := b], w'))"

text \<open>The locals \<open>w0 .. w15\<close> are uninitialised until the first sixteen calls assign them.\<close>

definition sha1_Transform :: "u32 list \<Rightarrow> bytes \<Rightarrow> u32 list" where
  "sha1_Transform s chunk =
     (let (v, w) = foldl (sha1_call chunk) (s, replicate 16 0)
            (sha1_rows_1 @ sha1_rows_2 @ sha1_rows_3 @ sha1_rows_4)
      in map2 (+) s v)"

subsection \<open>SHA-1 of FIPS 180-4\<close>

fun fips1_W :: "bytes \<Rightarrow> nat \<Rightarrow> u32" where
  "fips1_W M t =
     (if t < 16 then ReadBE32 (drop (4 * t) M)
      else word_rotl 1 (fips1_W M (t - 3) XOR fips1_W M (t - 8) XOR fips1_W M (t - 14) XOR fips1_W M (t - 16)))"

declare fips1_W.simps [simp del]

definition fips1_f :: "nat \<Rightarrow> u32 \<Rightarrow> u32 \<Rightarrow> u32 \<Rightarrow> u32" where
  "fips1_f t x y z =
     (if t < 20 then (x AND y) XOR (NOT x AND z)
      else if t < 40 then x XOR y XOR z
      else if t < 60 then (x AND y) XOR (x AND z) XOR (y AND z)
      else x XOR y XOR z)"

definition fips1_K :: "nat \<Rightarrow> u32" where
  "fips1_K t = (if t < 20 then 0x5A827999 else if t < 40 then 0x6ED9EBA1
     else if t < 60 then 0x8F1BBCDC else 0xCA62C1D6)"

definition fips1_step :: "bytes \<Rightarrow> u32 list \<Rightarrow> nat \<Rightarrow> u32 list" where
  "fips1_step M v t =
     (case v of [a, b, c, d, e] \<Rightarrow>
        [word_rotl 5 a + fips1_f t b c d + e + fips1_K t + fips1_W M t, a, word_rotl 30 b, c, d]
      | _ \<Rightarrow> v)"

definition fips1_compress :: "u32 list \<Rightarrow> bytes \<Rightarrow> u32 list" where
  "fips1_compress s M = map2 (+) s (foldl (fips1_step M) s [0..<80])"

subsection \<open>The unrolled code computes it\<close>

definition sha1_func :: "nat \<Rightarrow> u32 \<Rightarrow> u32 \<Rightarrow> u32 \<Rightarrow> u32" where
  "sha1_func t = (if t < 20 then sha1_f1 else if t < 40 then sha1_f2 else if t < 60 then sha1_f3 else sha1_f2)"

definition sha1_const :: "nat \<Rightarrow> u32" where
  "sha1_const t = (if t < 20 then sha1_k1 else if t < 40 then sha1_k2 else if t < 60 then sha1_k3 else sha1_k4)"

definition sha1_expr :: "nat \<Rightarrow> sha1_word" where
  "sha1_expr t =
     (if t < 16 then SLoad t (4 * t)
      else if t < 77 then SMix (t mod 16) ((t + 13) mod 16) ((t + 8) mod 16) ((t + 2) mod 16)
      else SSum (t mod 16) ((t + 13) mod 16) ((t + 8) mod 16) ((t + 2) mod 16))"

definition sha1_rows_from :: "nat \<Rightarrow> nat \<Rightarrow> sha1_row list" where
  "sha1_rows_from k n = map (\<lambda>t. (pos5 t, sha1_func t, sha1_const t, sha1_expr t)) [k..<n]"

lemma sha1_rows_eq:
  "sha1_rows_1 = sha1_rows_from 0 20" "sha1_rows_2 = sha1_rows_from 20 40"
  "sha1_rows_3 = sha1_rows_from 40 60" "sha1_rows_4 = sha1_rows_from 60 80"
  by (simp_all add: sha1_rows_from_def sha1_rows_1_def sha1_rows_2_def sha1_rows_3_def sha1_rows_4_def
      upt_rec pos5_def sha1_func_def sha1_const_def sha1_expr_def)

lemma sha1_all_rows:
  "sha1_rows_1 @ sha1_rows_2 @ sha1_rows_3 @ sha1_rows_4 = sha1_rows_from 0 80"
proof -
  have "sha1_rows_from i j @ sha1_rows_from j k = sha1_rows_from i k" if "i \<le> j" "j \<le> k" for i j k
  proof -
    have "[i..<k] = [i..<j] @ [j..<k]" using that by (metis le_add_diff_inverse upt_add_eq_append)
    then show ?thesis by (simp add: sha1_rows_from_def)
  qed
  then show ?thesis by (simp add: sha1_rows_eq)
qed

lemma sha1_func_fips: "sha1_func t b c d = fips1_f t b c d"
proof -
  have "sha1_f1 b c d = (b AND c) XOR (NOT b AND d)"
    "sha1_f3 b c d = (b AND c) XOR (b AND d) XOR (c AND d)"
    by (rule bit_word_eqI; auto simp: sha1_f1_def sha1_f3_def bit_simps)+
  then show ?thesis by (simp add: sha1_func_def fips1_f_def sha1_f2_def)
qed

lemma sha1_const_fips: "sha1_const t = fips1_K t"
  by (simp add: sha1_const_def fips1_K_def sha1_k1_def sha1_k2_def sha1_k3_def sha1_k4_def)

lemma sha1_left_rotl: "sha1_left x = word_rotl 1 x"
  using rotate_left_as_shifts [of 1 x] by (simp add: sha1_left_def)

lemma sha1_schedule_step:
  assumes w: "ring (fips1_W M) 77 t w" and t: "t < 80"
    and x: "sha1_word_value M w (sha1_expr t) = (x, w')"
  shows "x = fips1_W M t \<and> ring (fips1_W M) 77 (Suc t) w'"
proof (cases "t < 16")
  case True
  then have "x = fips1_W M t" "w' = w[t mod 16 := x]"
    using x by (auto simp: sha1_expr_def Let_def fips1_W.simps)
  then show ?thesis using ring_write [OF w] by simp
next
  case False
  have ws: "w ! (t mod 16) = fips1_W M (t - 16)" "w ! ((t + 13) mod 16) = fips1_W M (t - 3)"
    "w ! ((t + 8) mod 16) = fips1_W M (t - 8)" "w ! ((t + 2) mod 16) = fips1_W M (t - 14)"
    using ring_read [OF w, of 16] ring_read [OF w, of 3] ring_read [OF w, of 8] ring_read [OF w, of 14]
      t False by simp_all
  have Wt: "fips1_W M t = sha1_left (w ! (t mod 16) XOR w ! ((t + 13) mod 16)
      XOR w ! ((t + 8) mod 16) XOR w ! ((t + 2) mod 16))"
    using False unfolding ws by (subst fips1_W.simps) (simp add: sha1_left_rotl ac_simps)
  show ?thesis
  proof (cases "t < 77")
    case True
    have "x = fips1_W M t" "w' = w[t mod 16 := x]"
      using x False True Wt by (auto simp: sha1_expr_def Let_def)
    then show ?thesis using ring_write [OF w] by simp
  next
    case False2: False
    have "x = fips1_W M t \<and> w' = w" using x False False2 Wt by (auto simp: sha1_expr_def)
    then show ?thesis using ring_skip [OF w] False2 by simp
  qed
qed

lemma sha1_rows_inv:
  assumes s: "length s = 5" and n: "n \<le> 80"
  shows "\<exists>v w. foldl (sha1_call M) (s, replicate 16 0) (sha1_rows_from 0 n) = (v, w)
    \<and> length v = 5 \<and> ring (fips1_W M) 77 n w \<and> view5 n v = foldl (fips1_step M) s [0..<n]"
  using n
proof (induction n)
  case 0
  then show ?case using s by (simp add: sha1_rows_from_def ring_def view5_0)
next
  case (Suc n)
  then obtain v w where vw: "foldl (sha1_call M) (s, replicate 16 0) (sha1_rows_from 0 n) = (v, w)"
    "length v = 5" "ring (fips1_W M) 77 n w" "view5 n v = foldl (fips1_step M) s [0..<n]" by auto
  obtain x w' where x: "sha1_word_value M w (sha1_expr n) = (x, w')" by fastforce
  have sch: "x = fips1_W M n" "ring (fips1_W M) 77 (Suc n) w'"
    using sha1_schedule_step [OF vw(3) _ x] Suc.prems by simp_all
  obtain a b c d e where u: "view5 n v = [a, b, c, d, e]" using length_5_cases [of "view5 n v"] by auto
  let ?e = "word_rotl 5 a + fips1_f n b c d + e + fips1_K n + fips1_W M n"
  let ?v = "v[pos5 n ! 4 := ?e, pos5 n ! 1 := word_rotl 30 b]"
  have call: "sha1_call M (v, w) (pos5 n, sha1_func n, sha1_const n, sha1_expr n) = (?v, w')"
    using x sch(1) u rotate_left_as_shifts [of 5 a] rotate_left_as_shifts [of 30 b]
    by (simp add: sha1_call_def sha1_Round_def view5_nth sha1_func_fips sha1_const_fips ac_simps)
  have "view5 (Suc n) ?v = fips1_step M (view5 n v) n"
    using vw(2) u by (simp add: view5_Suc view5_update fips1_step_def)
  then show ?case using vw call sch(2) by (simp add: sha1_rows_from_def)
qed

lemma sha1_Transform_is_fips:
  assumes "length s = 5"
  shows "sha1_Transform s chunk = fips1_compress s chunk"
proof -
  obtain v w where v: "foldl (sha1_call chunk) (s, replicate 16 0) (sha1_rows_from 0 80) = (v, w)"
    "length v = 5" "view5 80 v = foldl (fips1_step chunk) s [0..<80]"
    using sha1_rows_inv [OF assms, of 80 chunk] by auto
  have "view5 80 v = v" using view5_0 [OF v(2)] by (simp add: view5_def pos5_def)
  then show ?thesis
    using v by (simp only: sha1_Transform_def sha1_all_rows fips1_compress_def Let_def) simp
qed

subsection \<open>The class \<open>CSHA1\<close>\<close>

type_synonym CSHA1 = "u32 list hasher"

definition CSHA1_new :: CSHA1 where
  "CSHA1_new = \<lparr>hs = sha1_Initialize, hbuf = replicate 64 0, hbytes = 0\<rparr>"

definition CSHA1_Write :: "CSHA1 \<Rightarrow> bytes \<Rightarrow> CSHA1" where
  "CSHA1_Write c data = stream_write 64 sha1_Transform c data"

definition CSHA1_Finalize :: "CSHA1 \<Rightarrow> bytes" where
  "CSHA1_Finalize c = concat (map WriteBE32 (take 5 (finish64 sha1_Transform WriteBE64 c)))"

definition CSHA1_Reset :: "CSHA1 \<Rightarrow> CSHA1" where
  "CSHA1_Reset c = c\<lparr>hbytes := 0, hs := sha1_Initialize\<rparr>"

lemma sha1_word_value_take:
  "64 \<le> length p \<Longrightarrow> t < 80 \<Longrightarrow>
   sha1_word_value (take 64 p) w (sha1_expr t) = sha1_word_value p w (sha1_expr t)"
  by (simp add: sha1_expr_def ReadBE32_def)

lemma sha1_Transform_take:
  assumes p: "64 \<le> length p"
  shows "sha1_Transform s p = sha1_Transform s (take 64 p)"
proof -
  have "foldl (sha1_call p) st (sha1_rows_from 0 80) = foldl (sha1_call (take 64 p)) st (sha1_rows_from 0 80)" for st
    by (rule foldl_cong [OF refl refl])
      (auto simp: sha1_rows_from_def sha1_call_def sha1_word_value_take [OF p])
  then show ?thesis by (simp only: sha1_Transform_def sha1_all_rows)
qed

interpretation sha1: block64_function sha1_Transform
  by unfold_locales (simp_all, rule sha1_Transform_take)

definition sha1_spec :: "bytes \<Rightarrow> bytes" where
  "sha1_spec m =
     concat (map WriteBE32 (hash_blocks 64 fips1_compress sha1_Initialize (padded64 WriteBE64 m)))"

lemma length_fips1_compress: "length s = 5 \<Longrightarrow> length (fips1_compress s M) = 5"
proof -
  assume s: "length s = 5"
  have "length (fips1_step M v t) = 5" if "length v = 5" for v t
    using length_5_cases [OF that] by (auto simp: fips1_step_def)
  then have "length (foldl (fips1_step M) s ts) = 5" for ts
    using s by (induction ts arbitrary: s) simp_all
  then show ?thesis using s by (simp add: fips1_compress_def)
qed

lemma sha1_blocks_fips:
  "hash_blocks 64 sha1_Transform sha1_Initialize m = hash_blocks 64 fips1_compress sha1_Initialize m
   \<and> length (hash_blocks 64 sha1_Transform sha1_Initialize m) = 5"
  by (rule hash_blocks_cong [where P = "\<lambda>s. length s = 5"])
    (simp_all add: sha1_Initialize_def sha1_Transform_is_fips length_fips1_compress)

lemma CSHA1_new_absorbed: "absorbed 64 sha1_Transform sha1_Initialize CSHA1_new []"
  unfolding CSHA1_new_def by (rule sha1.absorbed_init) simp

lemma CSHA1_absorbed_Finalize:
  "absorbed 64 sha1_Transform sha1_Initialize c m \<Longrightarrow> CSHA1_Finalize c = sha1_spec m"
  using sha1_blocks_fips [of "padded64 WriteBE64 m"]
  by (metis CSHA1_Finalize_def order_refl sha1.finish64_spec sha1_spec_def take_all)

lemma CSHA1_Write_eq: "CSHA1_Write = stream_write 64 sha1_Transform"
  by (simp add: fun_eq_iff CSHA1_Write_def)

lemma CSHA1_digest: "CSHA1_Finalize (CSHA1_Write CSHA1_new m) = sha1_spec m"
  using CSHA1_absorbed_Finalize [OF sha1.absorbed_write [OF CSHA1_new_absorbed, of m]]
  by (simp add: CSHA1_Write_def)

lemma length_sha1_spec [len_simps]: "length (sha1_spec m) = 20"
proof -
  have "length (hash_blocks 64 fips1_compress sha1_Initialize (padded64 WriteBE64 m)) = 5"
    using sha1_blocks_fips [of "padded64 WriteBE64 m"] by metis
  then show ?thesis
    using length_5_cases [of "hash_blocks 64 fips1_compress sha1_Initialize (padded64 WriteBE64 m)"]
    by (auto simp: sha1_spec_def)
qed

subsection \<open>Properties\<close>

text \<open>
  \<open>CSHA1\<close> computes SHA-1 of FIPS 180-4 of the concatenation of what was written to it,
  however the message was cut.
\<close>

theorem CSHA1_streaming:
  "CSHA1_Finalize (foldl CSHA1_Write CSHA1_new ds) = sha1_spec (concat ds)"
  using CSHA1_absorbed_Finalize [OF sha1.absorbed_writes [OF CSHA1_new_absorbed, of ds]]
  unfolding CSHA1_Write_eq by simp

end
