(* ===== verification/Script_Eval.thy ===== *)
theory Script_Eval imports Script_Num Script_Code Script_Sig Hash_Classes Sha1 "HOL-Library.Sublist" begin

text \<open>
  \<open>EvalScript\<close> of \<open>src/src/script.cpp\<close> in the overload that reports a \<open>ScriptError\<close>
  (\<open>vector<valtype>& stack, const CScript&, flags, const BaseSignatureChecker&, ScriptError*\<close>):
  one definition per group of opcodes, the instruction step with its limits, the loop and the
  function. Stacks have their top first, \<open>vfExec\<close> its innermost condition. A failure is \<open>Inl\<close>
  the error; exceptions inside the \<open>try\<close> block (\<open>scriptnum_error\<close>) become
  \<open>SCRIPT_ERR_UNKNOWN_ERROR\<close>, as the handler does.
\<close>

unbundle bit_operations_syntax

record script_state =
  stack :: "valtype list"
  altstack :: "valtype list"
  vfExec :: "bool list"
  nOpCount :: nat
  pc :: bytes
  pbegincodehash :: bytes

text \<open>
  What the call passes besides the stack and the script: the flags, the \<open>checker\<close> object, and
  libsecp256k1's low-S test behind \<open>CPubKey::CheckLowS\<close>.
\<close>

record eval_env =
  env_flags :: verify_flags
  check_low_s :: "bytes \<Rightarrow> bool"
  check_sig :: "valtype \<Rightarrow> valtype \<Rightarrow> script \<Rightarrow> bool"

type_synonym step_result = "ScriptError + script_state"

abbreviation INVALID_STACK :: step_result where
  "INVALID_STACK \<equiv> Inl SCRIPT_ERR_INVALID_STACK_OPERATION"

definition vchFalse :: valtype where "vchFalse = []"
definition vchTrue :: valtype where "vchTrue = [1]"

fun CastToBool :: "valtype \<Rightarrow> bool" where
  "CastToBool [] = False"
| "CastToBool (b # bs) = (if b \<noteq> 0 then (if bs = [] \<and> b = 0x80 then False else True) else CastToBool bs)"

definition bool_vch :: "bool \<Rightarrow> valtype" where
  "bool_vch b = (if b then vchTrue else vchFalse)"

definition fRequireMinimal :: "eval_env \<Rightarrow> bool" where
  "fRequireMinimal env = has_flag (env_flags env) SCRIPT_VERIFY_MINIMALDATA"

definition num :: "eval_env \<Rightarrow> valtype \<Rightarrow> int option" where
  "num env vch = CScriptNum_of_vch vch (fRequireMinimal env)"

subsection \<open>Control\<close>

text \<open>\<open>OP_1NEGATE\<close>, \<open>OP_1 .. OP_16\<close>.\<close>

definition exec_push_number :: "opcode \<Rightarrow> script_state \<Rightarrow> step_result" where
  "exec_push_number opcode st =
     Inr (st\<lparr>stack := CScriptNum_serialize (int opcode - (int OP_1 - 1)) # stack st\<rparr>)"

definition exec_NOPx :: "eval_env \<Rightarrow> script_state \<Rightarrow> step_result" where
  "exec_NOPx env st =
     (if has_flag (env_flags env) SCRIPT_VERIFY_DISCOURAGE_UPGRADABLE_NOPS
      then Inl SCRIPT_ERR_DISCOURAGE_UPGRADABLE_NOPS else Inr st)"

definition exec_IF :: "bool \<Rightarrow> opcode \<Rightarrow> script_state \<Rightarrow> step_result" where
  "exec_IF fExec opcode st =
     (if fExec then
        (case stack st of
           [] \<Rightarrow> Inl SCRIPT_ERR_UNBALANCED_CONDITIONAL
         | vch # xs \<Rightarrow>
             (let fValue = CastToBool vch;
                  fValue' = (if opcode = OP_NOTIF then \<not> fValue else fValue)
              in Inr (st\<lparr>stack := xs, vfExec := fValue' # vfExec st\<rparr>)))
      else Inr (st\<lparr>vfExec := False # vfExec st\<rparr>))"

definition exec_ELSE :: "script_state \<Rightarrow> step_result" where
  "exec_ELSE st =
     (case vfExec st of
        [] \<Rightarrow> Inl SCRIPT_ERR_UNBALANCED_CONDITIONAL
      | b # bs \<Rightarrow> Inr (st\<lparr>vfExec := (\<not> b) # bs\<rparr>))"

definition exec_ENDIF :: "script_state \<Rightarrow> step_result" where
  "exec_ENDIF st =
     (case vfExec st of
        [] \<Rightarrow> Inl SCRIPT_ERR_UNBALANCED_CONDITIONAL
      | b # bs \<Rightarrow> Inr (st\<lparr>vfExec := bs\<rparr>))"

definition exec_VERIFY :: "script_state \<Rightarrow> step_result" where
  "exec_VERIFY st =
     (case stack st of
        [] \<Rightarrow> INVALID_STACK
      | vch # xs \<Rightarrow>
          if CastToBool vch then Inr (st\<lparr>stack := xs\<rparr>) else Inl SCRIPT_ERR_VERIFY)"

definition exec_RETURN :: "script_state \<Rightarrow> step_result" where
  "exec_RETURN st = Inl SCRIPT_ERR_OP_RETURN"

subsection \<open>Stack operations\<close>

definition exec_TOALTSTACK :: "script_state \<Rightarrow> step_result" where
  "exec_TOALTSTACK st =
     (case stack st of
        [] \<Rightarrow> INVALID_STACK
      | x # xs \<Rightarrow> Inr (st\<lparr>altstack := x # altstack st, stack := xs\<rparr>))"

definition exec_FROMALTSTACK :: "script_state \<Rightarrow> step_result" where
  "exec_FROMALTSTACK st =
     (case altstack st of
        [] \<Rightarrow> Inl SCRIPT_ERR_INVALID_ALTSTACK_OPERATION
      | x # xs \<Rightarrow> Inr (st\<lparr>stack := x # stack st, altstack := xs\<rparr>))"

definition exec_2DROP :: "script_state \<Rightarrow> step_result" where
  "exec_2DROP st =
     (case stack st of x2 # x1 # xs \<Rightarrow> Inr (st\<lparr>stack := xs\<rparr>) | _ \<Rightarrow> INVALID_STACK)"

definition exec_2DUP :: "script_state \<Rightarrow> step_result" where
  "exec_2DUP st =
     (case stack st of
        x2 # x1 # xs \<Rightarrow> Inr (st\<lparr>stack := x2 # x1 # x2 # x1 # xs\<rparr>)
      | _ \<Rightarrow> INVALID_STACK)"

definition exec_3DUP :: "script_state \<Rightarrow> step_result" where
  "exec_3DUP st =
     (case stack st of
        x3 # x2 # x1 # xs \<Rightarrow> Inr (st\<lparr>stack := x3 # x2 # x1 # x3 # x2 # x1 # xs\<rparr>)
      | _ \<Rightarrow> INVALID_STACK)"

definition exec_2OVER :: "script_state \<Rightarrow> step_result" where
  "exec_2OVER st =
     (case stack st of
        x4 # x3 # x2 # x1 # xs \<Rightarrow> Inr (st\<lparr>stack := x2 # x1 # x4 # x3 # x2 # x1 # xs\<rparr>)
      | _ \<Rightarrow> INVALID_STACK)"

definition exec_2ROT :: "script_state \<Rightarrow> step_result" where
  "exec_2ROT st =
     (case stack st of
        x6 # x5 # x4 # x3 # x2 # x1 # xs \<Rightarrow>
          Inr (st\<lparr>stack := x2 # x1 # x6 # x5 # x4 # x3 # xs\<rparr>)
      | _ \<Rightarrow> INVALID_STACK)"

definition exec_2SWAP :: "script_state \<Rightarrow> step_result" where
  "exec_2SWAP st =
     (case stack st of
        x4 # x3 # x2 # x1 # xs \<Rightarrow> Inr (st\<lparr>stack := x2 # x1 # x4 # x3 # xs\<rparr>)
      | _ \<Rightarrow> INVALID_STACK)"

definition exec_IFDUP :: "script_state \<Rightarrow> step_result" where
  "exec_IFDUP st =
     (case stack st of
        [] \<Rightarrow> INVALID_STACK
      | x # xs \<Rightarrow> if CastToBool x then Inr (st\<lparr>stack := x # x # xs\<rparr>) else Inr st)"

definition exec_DEPTH :: "script_state \<Rightarrow> step_result" where
  "exec_DEPTH st =
     Inr (st\<lparr>stack := CScriptNum_serialize (int (length (stack st))) # stack st\<rparr>)"

definition exec_DROP :: "script_state \<Rightarrow> step_result" where
  "exec_DROP st =
     (case stack st of [] \<Rightarrow> INVALID_STACK | x # xs \<Rightarrow> Inr (st\<lparr>stack := xs\<rparr>))"

definition exec_DUP :: "script_state \<Rightarrow> step_result" where
  "exec_DUP st =
     (case stack st of [] \<Rightarrow> INVALID_STACK | x # xs \<Rightarrow> Inr (st\<lparr>stack := x # x # xs\<rparr>))"

definition exec_NIP :: "script_state \<Rightarrow> step_result" where
  "exec_NIP st =
     (case stack st of x2 # x1 # xs \<Rightarrow> Inr (st\<lparr>stack := x2 # xs\<rparr>) | _ \<Rightarrow> INVALID_STACK)"

definition exec_OVER :: "script_state \<Rightarrow> step_result" where
  "exec_OVER st =
     (case stack st of
        x2 # x1 # xs \<Rightarrow> Inr (st\<lparr>stack := x1 # x2 # x1 # xs\<rparr>) | _ \<Rightarrow> INVALID_STACK)"

definition exec_PICK_ROLL :: "eval_env \<Rightarrow> opcode \<Rightarrow> script_state \<Rightarrow> step_result" where
  "exec_PICK_ROLL env opcode st =
     (if length (stack st) < 2 then INVALID_STACK
      else
        (case num env (hd (stack st)) of
           None \<Rightarrow> Inl SCRIPT_ERR_UNKNOWN_ERROR
         | Some bn \<Rightarrow>
             (let n = CScriptNum_getint bn; xs = tl (stack st) in
              if n < 0 \<or> n \<ge> int (length xs) then INVALID_STACK
              else let vch = xs ! nat n;
                       xs' = (if opcode = OP_ROLL then take (nat n) xs @ drop (nat n + 1) xs else xs)
                   in Inr (st\<lparr>stack := vch # xs'\<rparr>))))"

definition exec_ROT :: "script_state \<Rightarrow> step_result" where
  "exec_ROT st =
     (case stack st of
        x3 # x2 # x1 # xs \<Rightarrow> Inr (st\<lparr>stack := x1 # x3 # x2 # xs\<rparr>)
      | _ \<Rightarrow> INVALID_STACK)"

definition exec_SWAP :: "script_state \<Rightarrow> step_result" where
  "exec_SWAP st =
     (case stack st of x2 # x1 # xs \<Rightarrow> Inr (st\<lparr>stack := x1 # x2 # xs\<rparr>) | _ \<Rightarrow> INVALID_STACK)"

definition exec_TUCK :: "script_state \<Rightarrow> step_result" where
  "exec_TUCK st =
     (case stack st of
        x2 # x1 # xs \<Rightarrow> Inr (st\<lparr>stack := x2 # x1 # x2 # xs\<rparr>) | _ \<Rightarrow> INVALID_STACK)"

definition exec_SIZE :: "script_state \<Rightarrow> step_result" where
  "exec_SIZE st =
     (case stack st of
        [] \<Rightarrow> INVALID_STACK
      | x # xs \<Rightarrow> Inr (st\<lparr>stack := CScriptNum_serialize (int (length x)) # x # xs\<rparr>))"

definition exec_EQUAL :: "opcode \<Rightarrow> script_state \<Rightarrow> step_result" where
  "exec_EQUAL opcode st =
     (case stack st of
        vch2 # vch1 # xs \<Rightarrow>
          (let fEqual = (vch1 = vch2) in
           if opcode = OP_EQUALVERIFY then
             (if fEqual then Inr (st\<lparr>stack := xs\<rparr>) else Inl SCRIPT_ERR_EQUALVERIFY)
           else Inr (st\<lparr>stack := bool_vch fEqual # xs\<rparr>))
      | _ \<Rightarrow> INVALID_STACK)"

subsection \<open>Numeric operations\<close>

definition unary_num :: "opcode \<Rightarrow> int \<Rightarrow> int" where
  "unary_num opcode bn =
     (if opcode = OP_1ADD then bn + 1
      else if opcode = OP_1SUB then bn - 1
      else if opcode = OP_NEGATE then - bn
      else if opcode = OP_ABS then (if bn < 0 then - bn else bn)
      else if opcode = OP_NOT then of_bool (bn = 0)
      else of_bool (bn \<noteq> 0))"

definition exec_unary_num :: "eval_env \<Rightarrow> opcode \<Rightarrow> script_state \<Rightarrow> step_result" where
  "exec_unary_num env opcode st =
     (case stack st of
        [] \<Rightarrow> INVALID_STACK
      | x # xs \<Rightarrow>
          (case num env x of
             None \<Rightarrow> Inl SCRIPT_ERR_UNKNOWN_ERROR
           | Some bn \<Rightarrow> Inr (st\<lparr>stack := CScriptNum_serialize (unary_num opcode bn) # xs\<rparr>)))"

definition binary_num :: "opcode \<Rightarrow> int \<Rightarrow> int \<Rightarrow> int" where
  "binary_num opcode bn1 bn2 =
     (if opcode = OP_ADD then bn1 + bn2
      else if opcode = OP_SUB then bn1 - bn2
      else if opcode = OP_BOOLAND then of_bool (bn1 \<noteq> 0 \<and> bn2 \<noteq> 0)
      else if opcode = OP_BOOLOR then of_bool (bn1 \<noteq> 0 \<or> bn2 \<noteq> 0)
      else if opcode = OP_NUMEQUAL then of_bool (bn1 = bn2)
      else if opcode = OP_NUMEQUALVERIFY then of_bool (bn1 = bn2)
      else if opcode = OP_NUMNOTEQUAL then of_bool (bn1 \<noteq> bn2)
      else if opcode = OP_LESSTHAN then of_bool (bn1 < bn2)
      else if opcode = OP_GREATERTHAN then of_bool (bn1 > bn2)
      else if opcode = OP_LESSTHANOREQUAL then of_bool (bn1 \<le> bn2)
      else if opcode = OP_GREATERTHANOREQUAL then of_bool (bn1 \<ge> bn2)
      else if opcode = OP_MIN then (if bn1 < bn2 then bn1 else bn2)
      else (if bn1 > bn2 then bn1 else bn2))"

definition exec_binary_num :: "eval_env \<Rightarrow> opcode \<Rightarrow> script_state \<Rightarrow> step_result" where
  "exec_binary_num env opcode st =
     (case stack st of
        x2 # x1 # xs \<Rightarrow>
          (case (num env x1, num env x2) of
             (Some bn1, Some bn2) \<Rightarrow>
               (let vch = CScriptNum_serialize (binary_num opcode bn1 bn2) in
                if opcode = OP_NUMEQUALVERIFY then
                  (if CastToBool vch then Inr (st\<lparr>stack := xs\<rparr>) else Inl SCRIPT_ERR_NUMEQUALVERIFY)
                else Inr (st\<lparr>stack := vch # xs\<rparr>))
           | _ \<Rightarrow> Inl SCRIPT_ERR_UNKNOWN_ERROR)
      | _ \<Rightarrow> INVALID_STACK)"

definition exec_WITHIN :: "eval_env \<Rightarrow> script_state \<Rightarrow> step_result" where
  "exec_WITHIN env st =
     (case stack st of
        x3 # x2 # x1 # xs \<Rightarrow>
          (case (num env x1, num env x2, num env x3) of
             (Some bn1, Some bn2, Some bn3) \<Rightarrow>
               Inr (st\<lparr>stack := bool_vch (bn2 \<le> bn1 \<and> bn1 < bn3) # xs\<rparr>)
           | _ \<Rightarrow> Inl SCRIPT_ERR_UNKNOWN_ERROR)
      | _ \<Rightarrow> INVALID_STACK)"

subsection \<open>Crypto\<close>

definition exec_hash :: "opcode \<Rightarrow> script_state \<Rightarrow> step_result" where
  "exec_hash opcode st =
     (case stack st of
        [] \<Rightarrow> INVALID_STACK
      | vch # xs \<Rightarrow>
          (let vchHash =
             (if opcode = OP_RIPEMD160 then CRIPEMD160_Finalize (CRIPEMD160_Write CRIPEMD160_new vch)
              else if opcode = OP_SHA1 then CSHA1_Finalize (CSHA1_Write CSHA1_new vch)
              else if opcode = OP_SHA256 then CSHA256_Finalize (CSHA256_Write CSHA256_new vch)
              else if opcode = OP_HASH160 then CHash160_Finalize (CHash160_Write CSHA256_new vch)
              else CHash256_Finalize (CHash256_Write CSHA256_new vch))
           in Inr (st\<lparr>stack := vchHash # xs\<rparr>)))"

definition exec_CODESEPARATOR :: "script_state \<Rightarrow> step_result" where
  "exec_CODESEPARATOR st = Inr (st\<lparr>pbegincodehash := pc st\<rparr>)"

text \<open>The encoding tests both signature opcodes make; \<open>None\<close> when both pass.\<close>

definition check_encodings :: "eval_env \<Rightarrow> valtype \<Rightarrow> valtype \<Rightarrow> ScriptError option" where
  "check_encodings env vchSig vchPubKey =
     (case CheckSignatureEncoding (check_low_s env) vchSig (env_flags env) of
        Some e \<Rightarrow> Some e
      | None \<Rightarrow> CheckPubKeyEncoding vchPubKey (env_flags env))"

definition exec_CHECKSIG :: "eval_env \<Rightarrow> opcode \<Rightarrow> script_state \<Rightarrow> step_result" where
  "exec_CHECKSIG env opcode st =
     (case stack st of
        vchPubKey # vchSig # xs \<Rightarrow>
          (let scriptCode = fst (FindAndDelete (pbegincodehash st) (push_data vchSig)) in
           case check_encodings env vchSig vchPubKey of
             Some e \<Rightarrow> Inl e
           | None \<Rightarrow>
               (let fSuccess = check_sig env vchSig vchPubKey scriptCode in
                if opcode = OP_CHECKSIGVERIFY then
                  (if fSuccess then Inr (st\<lparr>stack := xs\<rparr>) else Inl SCRIPT_ERR_CHECKSIGVERIFY)
                else Inr (st\<lparr>stack := bool_vch fSuccess # xs\<rparr>)))
      | _ \<Rightarrow> INVALID_STACK)"

text \<open>
  The loop of \<open>OP_CHECKMULTISIG\<close> over the remaining signatures and keys, in the order of the
  indices \<open>isig\<close> and \<open>ikey\<close> (the last pushed first). The loop is only entered with at least as
  many keys as signatures, so the third equation is never reached.
\<close>

fun multisig_loop ::
  "eval_env \<Rightarrow> script \<Rightarrow> valtype list \<Rightarrow> valtype list \<Rightarrow> ScriptError + bool" where
  "multisig_loop env scriptCode [] keys = Inr True"
| "multisig_loop env scriptCode (vchSig # sigs) (vchPubKey # keys) =
     (case check_encodings env vchSig vchPubKey of
        Some e \<Rightarrow> Inl e
      | None \<Rightarrow>
          (let fOk = check_sig env vchSig vchPubKey scriptCode;
               sigs' = (if fOk then sigs else vchSig # sigs)
           in if length sigs' > length keys then Inr False
              else multisig_loop env scriptCode sigs' keys))"
| "multisig_loop env scriptCode (vchSig # sigs) [] = Inr False"

text \<open>
  \<open>i\<close> ends as 3 + keys + signatures, which counts the dummy element below the signatures; the
  second test for it (after the clean-up) can therefore not fail and is kept as the code has it.
\<close>

definition exec_CHECKMULTISIG :: "eval_env \<Rightarrow> opcode \<Rightarrow> script_state \<Rightarrow> step_result" where
  "exec_CHECKMULTISIG env opcode st =
     (if length (stack st) < 1 then INVALID_STACK
      else case num env (stack st ! 0) of
        None \<Rightarrow> Inl SCRIPT_ERR_UNKNOWN_ERROR
      | Some bn1 \<Rightarrow>
          (let nKeysCount = CScriptNum_getint bn1 in
           if nKeysCount < 0 \<or> nKeysCount > 20 then Inl SCRIPT_ERR_PUBKEY_COUNT
           else let nKeys = nat nKeysCount; nOps = nOpCount st + nKeys in
           if nOps > 201 then Inl SCRIPT_ERR_OP_COUNT
           else if length (stack st) < 2 + nKeys then INVALID_STACK
           else case num env (stack st ! (1 + nKeys)) of
             None \<Rightarrow> Inl SCRIPT_ERR_UNKNOWN_ERROR
           | Some bn2 \<Rightarrow>
               (let nSigsCount = CScriptNum_getint bn2 in
                if nSigsCount < 0 \<or> nSigsCount > nKeysCount then Inl SCRIPT_ERR_SIG_COUNT
                else let nSigs = nat nSigsCount in
                if length (stack st) < 3 + nKeys + nSigs then INVALID_STACK
                else
                  let keys = take nKeys (drop 1 (stack st));
                      sigs = take nSigs (drop (2 + nKeys) (stack st));
                      scriptCode = foldl (\<lambda>code vchSig. fst (FindAndDelete code (push_data vchSig)))
                                     (pbegincodehash st) sigs
                  in case multisig_loop env scriptCode sigs keys of
                       Inl e \<Rightarrow> Inl e
                     | Inr fSuccess \<Rightarrow>
                         (case drop (2 + nKeys + nSigs) (stack st) of
                            [] \<Rightarrow> INVALID_STACK
                          | dummy # xs \<Rightarrow>
                              if has_flag (env_flags env) SCRIPT_VERIFY_NULLDUMMY \<and> length dummy \<noteq> 0
                              then Inl SCRIPT_ERR_SIG_NULLDUMMY
                              else
                                let st' = st\<lparr>nOpCount := nOps\<rparr> in
                                if opcode = OP_CHECKMULTISIGVERIFY then
                                  (if fSuccess then Inr (st'\<lparr>stack := xs\<rparr>)
                                   else Inl SCRIPT_ERR_CHECKMULTISIGVERIFY)
                                else Inr (st'\<lparr>stack := bool_vch fSuccess # xs\<rparr>)))))"

subsection \<open>The switch\<close>

definition exec_op :: "eval_env \<Rightarrow> bool \<Rightarrow> opcode \<Rightarrow> script_state \<Rightarrow> step_result" where
  "exec_op env fExec opcode st =
     (if opcode = OP_1NEGATE \<or> (OP_1 \<le> opcode \<and> opcode \<le> OP_16) then exec_push_number opcode st
      else if opcode = OP_NOP then Inr st
      else if OP_NOP1 \<le> opcode \<and> opcode \<le> OP_NOP10 then exec_NOPx env st
      else if opcode = OP_IF \<or> opcode = OP_NOTIF then exec_IF fExec opcode st
      else if opcode = OP_ELSE then exec_ELSE st
      else if opcode = OP_ENDIF then exec_ENDIF st
      else if opcode = OP_VERIFY then exec_VERIFY st
      else if opcode = OP_RETURN then exec_RETURN st
      else if opcode = OP_TOALTSTACK then exec_TOALTSTACK st
      else if opcode = OP_FROMALTSTACK then exec_FROMALTSTACK st
      else if opcode = OP_2DROP then exec_2DROP st
      else if opcode = OP_2DUP then exec_2DUP st
      else if opcode = OP_3DUP then exec_3DUP st
      else if opcode = OP_2OVER then exec_2OVER st
      else if opcode = OP_2ROT then exec_2ROT st
      else if opcode = OP_2SWAP then exec_2SWAP st
      else if opcode = OP_IFDUP then exec_IFDUP st
      else if opcode = OP_DEPTH then exec_DEPTH st
      else if opcode = OP_DROP then exec_DROP st
      else if opcode = OP_DUP then exec_DUP st
      else if opcode = OP_NIP then exec_NIP st
      else if opcode = OP_OVER then exec_OVER st
      else if opcode = OP_PICK \<or> opcode = OP_ROLL then exec_PICK_ROLL env opcode st
      else if opcode = OP_ROT then exec_ROT st
      else if opcode = OP_SWAP then exec_SWAP st
      else if opcode = OP_TUCK then exec_TUCK st
      else if opcode = OP_SIZE then exec_SIZE st
      else if opcode = OP_EQUAL \<or> opcode = OP_EQUALVERIFY then exec_EQUAL opcode st
      else if opcode \<in> {OP_1ADD, OP_1SUB, OP_NEGATE, OP_ABS, OP_NOT, OP_0NOTEQUAL}
      then exec_unary_num env opcode st
      else if opcode = OP_ADD \<or> opcode = OP_SUB \<or> (OP_BOOLAND \<le> opcode \<and> opcode \<le> OP_MAX)
      then exec_binary_num env opcode st
      else if opcode = OP_WITHIN then exec_WITHIN env st
      else if opcode \<in> {OP_RIPEMD160, OP_SHA1, OP_SHA256, OP_HASH160, OP_HASH256} then exec_hash opcode st
      else if opcode = OP_CODESEPARATOR then exec_CODESEPARATOR st
      else if opcode = OP_CHECKSIG \<or> opcode = OP_CHECKSIGVERIFY then exec_CHECKSIG env opcode st
      else if opcode = OP_CHECKMULTISIG \<or> opcode = OP_CHECKMULTISIGVERIFY
      then exec_CHECKMULTISIG env opcode st
      else Inl SCRIPT_ERR_BAD_OPCODE)"

definition disabled_opcodes :: "opcode list" where
  "disabled_opcodes = [OP_CAT, OP_SUBSTR, OP_LEFT, OP_RIGHT, OP_INVERT, OP_AND, OP_OR, OP_XOR,
     OP_2MUL, OP_2DIV, OP_MUL, OP_DIV, OP_MOD, OP_LSHIFT, OP_RSHIFT]"

subsection \<open>One instruction, the loop, the function\<close>

text \<open>One iteration of \<open>while (pc < pend)\<close>.\<close>

definition eval_step :: "eval_env \<Rightarrow> script_state \<Rightarrow> step_result" where
  "eval_step env st =
     (let fExec = (False \<notin> set (vfExec st)) in
      case GetOp2 (pc st) of
        (ok, opcode, vchPushValue, rest) \<Rightarrow>
          if \<not> ok then Inl SCRIPT_ERR_BAD_OPCODE
          else if length vchPushValue > MAX_SCRIPT_ELEMENT_SIZE then Inl SCRIPT_ERR_PUSH_SIZE
          else
            let nOps = (if opcode > OP_16 then nOpCount st + 1 else nOpCount st) in
            if opcode > OP_16 \<and> nOps > 201 then Inl SCRIPT_ERR_OP_COUNT
            else if opcode \<in> set disabled_opcodes then Inl SCRIPT_ERR_DISABLED_OPCODE
            else
              let st1 = st\<lparr>pc := rest, nOpCount := nOps\<rparr>;
                  r = (if fExec \<and> opcode \<le> OP_PUSHDATA4 then
                         (if fRequireMinimal env \<and> \<not> CheckMinimalPush vchPushValue opcode
                          then Inl SCRIPT_ERR_MINIMALDATA
                          else Inr (st1\<lparr>stack := vchPushValue # stack st1\<rparr>))
                       else if fExec \<or> (OP_IF \<le> opcode \<and> opcode \<le> OP_ENDIF)
                       then exec_op env fExec opcode st1
                       else Inr st1)
              in case r of
                   Inl e \<Rightarrow> Inl e
                 | Inr st2 \<Rightarrow>
                     if length (stack st2) + length (altstack st2) > 1000
                     then Inl SCRIPT_ERR_STACK_SIZE else Inr st2)"

text \<open>No opcode moves the instruction pointer.\<close>

lemmas exec_defs = exec_push_number_def exec_NOPx_def exec_IF_def exec_ELSE_def exec_ENDIF_def
  exec_VERIFY_def exec_RETURN_def exec_TOALTSTACK_def exec_FROMALTSTACK_def exec_2DROP_def exec_2DUP_def
  exec_3DUP_def exec_2OVER_def exec_2ROT_def exec_2SWAP_def exec_IFDUP_def exec_DEPTH_def exec_DROP_def
  exec_DUP_def exec_NIP_def exec_OVER_def exec_PICK_ROLL_def exec_ROT_def exec_SWAP_def exec_TUCK_def
  exec_SIZE_def exec_EQUAL_def exec_unary_num_def exec_binary_num_def exec_WITHIN_def exec_hash_def
  exec_CODESEPARATOR_def exec_CHECKSIG_def exec_CHECKMULTISIG_def

subsection \<open>What every opcode keeps\<close>

definition elements_ok :: "script_state \<Rightarrow> bool" where
  "elements_ok st \<longleftrightarrow> (\<forall>x \<in> set (stack st) \<union> set (altstack st). length x \<le> 520)"

definition op_effect :: "script_state \<Rightarrow> script_state \<Rightarrow> bool" where
  "op_effect st st' \<longleftrightarrow>
     pc st' = pc st
     \<and> nOpCount st \<le> nOpCount st' \<and> (nOpCount st \<le> 201 \<longrightarrow> nOpCount st' \<le> 201)
     \<and> (pbegincodehash st' = pbegincodehash st \<or> pbegincodehash st' = pc st)
     \<and> (elements_ok st \<and> length (stack st) \<le> 1000 \<longrightarrow> elements_ok st')"

lemma length_serialize: "\<bar>v\<bar> < 2 ^ 63 \<Longrightarrow> length (CScriptNum_serialize v) \<le> 8"
proof (cases "v = 0")
  case False
  assume b: "\<bar>v\<bar> < 2 ^ 63"
  let ?r = "le_bytes (nat \<bar>v\<bar>)"
  have r: "?r \<noteq> []" "last ?r \<noteq> 0" using le_bytes_props [of "nat \<bar>v\<bar>"] False by simp_all
  have "nat \<bar>v\<bar> < 128 * 256 ^ 7" using b by (simp add: nat_less_iff)
  then have "length (signed_bytes (v < 0) ?r) \<le> 8"
    using signed_bytes_length [OF r, of "v < 0" 7] by (simp add: le_val_le_bytes)
  then show ?thesis using serialize_eq [OF False] b by simp
qed (simp add: CScriptNum_serialize_def)

lemma num_bound: "num env v = Some n \<Longrightarrow> \<bar>n\<bar> < 2 ^ 31"
  unfolding num_def by (rule ctor_bound)

lemma length_serialize_unary:
  "num env v = Some n \<Longrightarrow> length (CScriptNum_serialize (unary_num op n)) \<le> 520"
  using num_bound [of env v n] length_serialize [of "unary_num op n"]
  by (fastforce simp: unary_num_def of_bool_def split: if_splits)

lemma length_serialize_binary:
  "num env v = Some n \<Longrightarrow> num env w = Some m \<Longrightarrow>
   length (CScriptNum_serialize (binary_num op n m)) \<le> 520"
proof -
  assume "num env v = Some n" "num env w = Some m"
  then have "\<bar>n\<bar> < 2 ^ 31" "\<bar>m\<bar> < 2 ^ 31" by (blast intro: num_bound)+
  moreover have "binary_num op n m \<in> {-(2 ^ 33) .. 2 ^ 33}" if "\<bar>n\<bar> < 2 ^ 31" "\<bar>m\<bar> < 2 ^ 31"
    unfolding binary_num_def using that by (intro if_in_set) (simp_all add: abs_less_iff)
  ultimately have "\<bar>binary_num op n m\<bar> < 2 ^ 63" by (force simp: abs_less_iff)
  then show ?thesis using length_serialize by fastforce
qed

lemma num_getint: "num env v = Some n \<Longrightarrow> CScriptNum_getint n = n"
  using num_bound [of env v n] by (simp add: CScriptNum_getint_def abs_less_iff)

lemma hash_digests:
  "CHash160_Finalize (CHash160_Write CSHA256_new m) = hash160_spec m"
  "CHash256_Finalize (CHash256_Write CSHA256_new m) = hash256_spec m"
  using CHash160_Finalize_absorbed [OF CSHA256_Write_absorbed [OF CSHA256_new_absorbed, of m]]
    CHash256_Finalize_absorbed [OF CSHA256_Write_absorbed [OF CSHA256_new_absorbed, of m]]
  by (simp_all add: CHash160_Write_def CHash256_Write_def)

lemmas digests = CRIPEMD160_digest CSHA1_digest CSHA256_digest hash_digests

lemma length_bool_vch [len_simps]: "length (bool_vch b) \<le> 520"
  by (simp add: bool_vch_def vchTrue_def vchFalse_def)

lemma exec_stack_effect [step_keeps]:
  "exec_NOPx env st = Inr st' \<Longrightarrow> op_effect st st'"
  "exec_IF f op st = Inr st' \<Longrightarrow> op_effect st st'" "exec_ELSE st = Inr st' \<Longrightarrow> op_effect st st'"
  "exec_ENDIF st = Inr st' \<Longrightarrow> op_effect st st'" "exec_VERIFY st = Inr st' \<Longrightarrow> op_effect st st'"
  "exec_RETURN st = Inr st' \<Longrightarrow> op_effect st st'" "exec_TOALTSTACK st = Inr st' \<Longrightarrow> op_effect st st'"
  "exec_FROMALTSTACK st = Inr st' \<Longrightarrow> op_effect st st'" "exec_2DROP st = Inr st' \<Longrightarrow> op_effect st st'"
  "exec_2DUP st = Inr st' \<Longrightarrow> op_effect st st'" "exec_3DUP st = Inr st' \<Longrightarrow> op_effect st st'"
  "exec_2OVER st = Inr st' \<Longrightarrow> op_effect st st'" "exec_2ROT st = Inr st' \<Longrightarrow> op_effect st st'"
  "exec_2SWAP st = Inr st' \<Longrightarrow> op_effect st st'" "exec_IFDUP st = Inr st' \<Longrightarrow> op_effect st st'"
  "exec_DROP st = Inr st' \<Longrightarrow> op_effect st st'"
  "exec_DUP st = Inr st' \<Longrightarrow> op_effect st st'" "exec_NIP st = Inr st' \<Longrightarrow> op_effect st st'"
  "exec_OVER st = Inr st' \<Longrightarrow> op_effect st st'" "exec_ROT st = Inr st' \<Longrightarrow> op_effect st st'"
  "exec_SWAP st = Inr st' \<Longrightarrow> op_effect st st'" "exec_TUCK st = Inr st' \<Longrightarrow> op_effect st st'"
  "exec_EQUAL op st = Inr st' \<Longrightarrow> op_effect st st'"
  "exec_CODESEPARATOR st = Inr st' \<Longrightarrow> op_effect st st'"
  by (auto simp: exec_defs op_effect_def elements_ok_def Let_def bool_vch_def vchTrue_def vchFalse_def
      split: list.splits if_splits)

lemma exec_push_number_effect [step_keeps]:
  assumes "exec_push_number op st = Inr st'" "op \<le> 255"
  shows "op_effect st st'"
proof -
  have "length (CScriptNum_serialize (int op - (int OP_1 - 1))) \<le> 520"
    using length_serialize [of "int op - (int OP_1 - 1)"] assms(2) by (simp add: abs_less_iff)
  then show ?thesis
    using assms(1) by (auto simp: exec_push_number_def op_effect_def elements_ok_def)
qed

lemma exec_value_effect [step_keeps]:
  "exec_DEPTH st = Inr st' \<Longrightarrow> op_effect st st'"
  "exec_SIZE st = Inr st' \<Longrightarrow> op_effect st st'"
  "exec_unary_num env op st = Inr st' \<Longrightarrow> op_effect st st'"
  "exec_binary_num env op st = Inr st' \<Longrightarrow> op_effect st st'"
  "exec_WITHIN env st = Inr st' \<Longrightarrow> op_effect st st'"
  "exec_hash op st = Inr st' \<Longrightarrow> op_effect st st'"
  using length_serialize [of "int (length (stack st))"] length_serialize [of "int (length (hd (stack st)))"]
  by (auto simp: exec_defs op_effect_def elements_ok_def Let_def len_simps digests
      length_serialize_unary length_serialize_binary split: list.splits if_splits option.splits)

lemma exec_PICK_ROLL_effect [step_keeps]:
  assumes "exec_PICK_ROLL env op st = Inr st'"
  shows "op_effect st st'"
proof -
  obtain x xs where st: "stack st = x # xs" using assms
    by (cases "stack st") (auto simp: exec_PICK_ROLL_def)
  from assms st show ?thesis
    by (auto simp: exec_PICK_ROLL_def op_effect_def elements_ok_def Let_def
        split: if_splits option.splits dest!: in_set_takeD in_set_dropD)
qed

lemma exec_CHECKSIG_effect [step_keeps]:
  "exec_CHECKSIG env op st = Inr st' \<Longrightarrow> op_effect st st'"
  by (auto simp: exec_CHECKSIG_def op_effect_def elements_ok_def Let_def len_simps
      split: list.splits if_splits option.splits)

text \<open>The shape of a successful \<open>OP_CHECKMULTISIG\<close>: keys, signatures, dummy, rest.\<close>

lemma exec_CHECKMULTISIG_cases:
  assumes "exec_CHECKMULTISIG env op st = Inr st'"
  obtains n m bn1 bn2 keys sigs dummy xs b where
    "num env (stack st ! 0) = Some bn1" "bn1 = int n" "n \<le> 20" "nOpCount st + n \<le> 201"
    "num env (stack st ! (1 + n)) = Some bn2" "bn2 = int m" "m \<le> n"
    "length (stack st) \<ge> 3 + n + m"
    "keys = take n (drop 1 (stack st))" "sigs = take m (drop (2 + n) (stack st))"
    "multisig_loop env (foldl (\<lambda>code sig. fst (FindAndDelete code (push_data sig))) (pbegincodehash st) sigs)
       sigs keys = Inr b"
    "drop (2 + n + m) (stack st) = dummy # xs"
    "has_flag (env_flags env) SCRIPT_VERIFY_NULLDUMMY \<longrightarrow> dummy = []"
    "st' = st\<lparr>nOpCount := nOpCount st + n,
       stack := (if op = OP_CHECKMULTISIGVERIFY then xs else bool_vch b # xs)\<rparr>"
    "op = OP_CHECKMULTISIGVERIFY \<longrightarrow> b"
proof -
  obtain bn1 where 1: "num env (stack st ! 0) = Some bn1" "stack st \<noteq> []"
    using assms by (auto simp: exec_CHECKMULTISIG_def Suc_le_eq split: if_splits option.splits)
  define n where "n = nat bn1"
  have 2: "bn1 = int n" "n \<le> 20" "nOpCount st + n \<le> 201" "2 + n \<le> length (stack st)"
    using assms 1 by (auto simp: exec_CHECKMULTISIG_def num_getint n_def Let_def split: if_splits)
  have "exec_CHECKMULTISIG env op st \<noteq> Inl SCRIPT_ERR_UNKNOWN_ERROR" using assms by simp
  then obtain bn2 where 3: "num env (stack st ! (1 + n)) = Some bn2"
    using 1 2 by (cases "num env (stack st ! (1 + n))")
      (auto simp: exec_CHECKMULTISIG_def num_getint Let_def split: if_splits)
  define m where "m = nat bn2"
  have 4: "bn2 = int m" "m \<le> n" "3 + n + m \<le> length (stack st)"
    using assms 1 2 3 by (auto simp: exec_CHECKMULTISIG_def num_getint m_def Let_def split: if_splits)
  let ?keys = "take n (drop 1 (stack st))" and ?sigs = "take m (drop (2 + n) (stack st))"
  let ?code = "foldl (\<lambda>code sig. fst (FindAndDelete code (push_data sig))) (pbegincodehash st) ?sigs"
  obtain b where 5: "multisig_loop env ?code ?sigs ?keys = Inr b"
    using assms 1 2 3 4 by (cases "multisig_loop env ?code ?sigs ?keys")
      (auto simp: exec_CHECKMULTISIG_def num_getint Let_def)
  obtain dummy xs where 6: "drop (2 + n + m) (stack st) = dummy # xs"
    using 4 by (cases "drop (2 + n + m) (stack st)") auto
  have 7: "has_flag (env_flags env) SCRIPT_VERIFY_NULLDUMMY \<longrightarrow> dummy = []"
    "op = OP_CHECKMULTISIGVERIFY \<longrightarrow> b"
    "st' = st\<lparr>nOpCount := nOpCount st + n,
       stack := (if op = OP_CHECKMULTISIGVERIFY then xs else bool_vch b # xs)\<rparr>"
    using assms 1 2 3 4 5 6 by (auto simp: exec_CHECKMULTISIG_def num_getint Let_def split: if_splits)
  show thesis
    by (rule that [of bn1 n bn2 m ?keys ?sigs b dummy xs]) (use 1 2 3 4 5 6 7 in auto)
qed

lemma exec_CHECKMULTISIG_effect [step_keeps]:
  assumes "exec_CHECKMULTISIG env op st = Inr st'"
  shows "op_effect st st'"
proof -
  from assms obtain n m dummy xs b where *: "nOpCount st + n \<le> 201" "drop (2 + n + m) (stack st) = dummy # xs"
    "st' = st\<lparr>nOpCount := nOpCount st + n,
       stack := (if op = OP_CHECKMULTISIGVERIFY then xs else bool_vch b # xs)\<rparr>"
    by (rule exec_CHECKMULTISIG_cases)
  have "set xs \<subseteq> set (stack st)" using *(2) by (metis set_drop_subset set_subset_Cons subset_trans)
  then show ?thesis using * length_bool_vch by (auto simp: op_effect_def elements_ok_def)
qed

lemma exec_op_effect:
  "exec_op env f op st = Inr st' \<Longrightarrow> op \<le> 255 \<Longrightarrow> op_effect st st'"
  unfolding exec_op_def
  by (elim if_elim_Inr; ((erule step_keeps; assumption) | simp add: op_effect_def))

subsection \<open>The loop and the function\<close>

lemma GetOp2_opcode: "GetOp2 s = (ok, op, d, rest) \<Longrightarrow> op \<le> 255"
proof -
  assume g: "GetOp2 s = (ok, op, d, rest)"
  have "op = 255 \<or> (\<exists>b. op = unat (b :: byte))"
    using g by (auto simp: GetOp2_def Let_def GetOp2_data_def split: list.splits if_splits option.splits)
  moreover have "unat b < 256" for b :: byte by simp
  ultimately show ?thesis by (metis le_refl less_Suc_eq_le Suc_numeral add_One_commute
        semiring_norm(5) semiring_norm(2) semiring_norm(8))
qed

text \<open>A successful iteration, taken apart.\<close>

lemma eval_step_cases:
  assumes "eval_step env st = Inr st'"
  obtains op d rest n st1 where
    "GetOp2 (pc st) = (True, op, d, rest)" "op \<le> 255" "length d \<le> 520" "op \<notin> set disabled_opcodes"
    "n = (if op > OP_16 then nOpCount st + 1 else nOpCount st)" "op > OP_16 \<longrightarrow> n \<le> 201"
    "st1 = st\<lparr>pc := rest, nOpCount := n\<rparr>"
    "False \<notin> set (vfExec st) \<and> op \<le> OP_PUSHDATA4 \<and> st' = st1\<lparr>stack := d # stack st1\<rparr>
       \<and> (fRequireMinimal env \<longrightarrow> CheckMinimalPush d op)
     \<or> (False \<notin> set (vfExec st) \<and> op > OP_PUSHDATA4 \<or> OP_IF \<le> op \<and> op \<le> OP_ENDIF)
         \<and> exec_op env (False \<notin> set (vfExec st)) op st1 = Inr st'
     \<or> False \<in> set (vfExec st) \<and> \<not> (OP_IF \<le> op \<and> op \<le> OP_ENDIF) \<and> st' = st1"
    "length (stack st') + length (altstack st') \<le> 1000"
proof -
  obtain ok op d rest where g: "GetOp2 (pc st) = (ok, op, d, rest)" by (cases "GetOp2 (pc st)") auto
  have ok: "ok" using assms g by (auto simp: eval_step_def Let_def split: if_splits)
  have op: "op \<le> 255" using GetOp2_opcode [OF g] .
  define n where "n = (if op > OP_16 then nOpCount st + 1 else nOpCount st)"
  define st1 where "st1 = st\<lparr>pc := rest, nOpCount := n\<rparr>"
  have e: "eval_step env st =
     (if length d > MAX_SCRIPT_ELEMENT_SIZE then Inl SCRIPT_ERR_PUSH_SIZE
      else if op > OP_16 \<and> n > 201 then Inl SCRIPT_ERR_OP_COUNT
      else if op \<in> set disabled_opcodes then Inl SCRIPT_ERR_DISABLED_OPCODE
      else case (if False \<notin> set (vfExec st) \<and> op \<le> OP_PUSHDATA4 then
                   (if fRequireMinimal env \<and> \<not> CheckMinimalPush d op
                    then Inl SCRIPT_ERR_MINIMALDATA else Inr (st1\<lparr>stack := d # stack st1\<rparr>))
                 else if False \<notin> set (vfExec st) \<or> (OP_IF \<le> op \<and> op \<le> OP_ENDIF)
                 then exec_op env (False \<notin> set (vfExec st)) op st1
                 else Inr st1) of
             Inl e \<Rightarrow> Inl e
           | Inr st2 \<Rightarrow> if length (stack st2) + length (altstack st2) > 1000
                         then Inl SCRIPT_ERR_STACK_SIZE else Inr st2)"
    unfolding eval_step_def g using ok by (simp only: Let_def prod.case n_def st1_def not_not if_False)
      simp
  show thesis
    by (rule that [OF _ op _ _ n_def _ st1_def])
      (use assms g ok in \<open>auto simp: e MAX_SCRIPT_ELEMENT_SIZE_def split: if_splits sum.splits\<close>)
qed

lemma eval_step_pc:
  assumes "eval_step env st = Inr st'"
  shows "\<exists>op d. GetOp2 (pc st) = (True, op, d, pc st')"
  using assms by (rule eval_step_cases) (auto dest!: exec_op_effect simp: op_effect_def)

lemma eval_step_less: "eval_step env st = Inr st' \<Longrightarrow> length (pc st') < length (pc st)"
  using eval_step_pc GetOp2_ok_rest by blast

function eval_loop :: "eval_env \<Rightarrow> script_state \<Rightarrow> step_result" where
  "eval_loop env st =
     (if pc st = [] then Inr st
      else case eval_step env st of Inl e \<Rightarrow> Inl e | Inr st' \<Rightarrow> eval_loop env st')"
  by pat_completeness auto
termination
  by (relation "measure (\<lambda>(env, st). length (pc st))") (auto dest: eval_step_less)

declare eval_loop.simps [simp del]

definition initial_state :: "valtype list \<Rightarrow> script \<Rightarrow> script_state" where
  "initial_state stk script =
     \<lparr>stack = stk, altstack = [], vfExec = [], nOpCount = 0, pc = script, pbegincodehash = script\<rparr>"

definition EvalScript :: "eval_env \<Rightarrow> valtype list \<Rightarrow> script \<Rightarrow> ScriptError + valtype list" where
  "EvalScript env stk script =
     (if length script > 10000 then Inl SCRIPT_ERR_SCRIPT_SIZE
      else case eval_loop env (initial_state stk script) of
             Inl e \<Rightarrow> Inl e
           | Inr st \<Rightarrow>
               if vfExec st \<noteq> [] then Inl SCRIPT_ERR_UNBALANCED_CONDITIONAL else Inr (stack st))"

text \<open>Runs of the loop as a step relation.\<close>

inductive runs :: "eval_env \<Rightarrow> script_state \<Rightarrow> script_state \<Rightarrow> bool" for env where
  runs_refl: "runs env st st"
| runs_step: "eval_step env st = Inr st' \<Longrightarrow> pc st \<noteq> [] \<Longrightarrow> runs env st' st'' \<Longrightarrow> runs env st st''"

inductive_cases runs_stepE: "runs env st st''"

lemma eval_loop_runs:
  "eval_loop env st = Inr st' \<longleftrightarrow> runs env st st' \<and> pc st' = []"
proof (induction env st rule: eval_loop.induct)
  case (1 env st)
  show ?case
  proof (cases "pc st = []")
    case True
    then have "runs env st st' \<longleftrightarrow> st' = st" by (auto elim: runs_stepE intro: runs_refl)
    then show ?thesis using True by (auto simp: eval_loop.simps [of env st])
  next
    case False
    show ?thesis
    proof (cases "eval_step env st")
      case (Inl e)
      then have "runs env st st' \<longleftrightarrow> st' = st" by (auto elim: runs_stepE intro: runs_refl)
      then show ?thesis using False Inl by (auto simp: eval_loop.simps [of env st])
    next
      case (Inr st1)
      have "runs env st st' \<and> pc st' = [] \<longleftrightarrow> runs env st1 st' \<and> pc st' = []"
        using False Inr by (auto elim: runs_stepE intro: runs_step)
      then show ?thesis using False Inr 1 by (simp add: eval_loop.simps [of env st])
    qed
  qed
qed

subsection \<open>Resource limits\<close>

definition machine_ok :: "script \<Rightarrow> script_state \<Rightarrow> bool" where
  "machine_ok script st \<longleftrightarrow>
     length (stack st) + length (altstack st) \<le> 1000 \<and> elements_ok st \<and> nOpCount st \<le> 201
     \<and> suffix (pc st) script \<and> suffix (pbegincodehash st) script"

lemma eval_step_ok:
  assumes "eval_step env st = Inr st'" "machine_ok script st"
  shows "machine_ok script st'"
  using assms(1)
proof (rule eval_step_cases)
  fix op d rest n st1
  assume g: "GetOp2 (pc st) = (True, op, d, rest)" and op: "op \<le> 255" and d: "length d \<le> 520"
    and n: "n = (if op > OP_16 then nOpCount st + 1 else nOpCount st)" "op > OP_16 \<longrightarrow> n \<le> 201"
    and st1: "st1 = st\<lparr>pc := rest, nOpCount := n\<rparr>"
    and r: "False \<notin> set (vfExec st) \<and> op \<le> OP_PUSHDATA4 \<and> st' = st1\<lparr>stack := d # stack st1\<rparr>
       \<and> (fRequireMinimal env \<longrightarrow> CheckMinimalPush d op)
     \<or> (False \<notin> set (vfExec st) \<and> op > OP_PUSHDATA4 \<or> OP_IF \<le> op \<and> op \<le> OP_ENDIF)
         \<and> exec_op env (False \<notin> set (vfExec st)) op st1 = Inr st'
     \<or> False \<in> set (vfExec st) \<and> \<not> (OP_IF \<le> op \<and> op \<le> OP_ENDIF) \<and> st' = st1"
    and lim: "length (stack st') + length (altstack st') \<le> 1000"
  have "suffix rest (pc st)"
    using GetOp2_suffix [OF g] g by (cases "pc st = []") (auto simp: suffix_def)
  then have 1: "machine_ok script st1"
    using assms(2) n st1 by (auto simp: machine_ok_def elements_ok_def intro: suffix_order.trans)
  from r show "machine_ok script st'"
  proof (elim disjE conjE)
    assume "st' = st1\<lparr>stack := d # stack st1\<rparr>"
    then show ?thesis using 1 d lim by (simp add: machine_ok_def elements_ok_def)
  next
    assume "exec_op env (False \<notin> set (vfExec st)) op st1 = Inr st'"
    from exec_op_effect [OF this op] show ?thesis
      using 1 lim by (auto simp: machine_ok_def op_effect_def)
  next
    assume "exec_op env (False \<notin> set (vfExec st)) op st1 = Inr st'"
    from exec_op_effect [OF this op] show ?thesis
      using 1 lim by (auto simp: machine_ok_def op_effect_def)
  qed (use 1 in simp)
qed

lemma runs_ok: "runs env st st' \<Longrightarrow> machine_ok script st \<Longrightarrow> machine_ok script st'"
  by (induction rule: runs.induct) (auto dest: eval_step_ok)

lemma initial_state_ok:
  "length stk \<le> 1000 \<Longrightarrow> \<forall>x \<in> set stk. length x \<le> 520 \<Longrightarrow> machine_ok script (initial_state stk script)"
  by (simp add: machine_ok_def initial_state_def elements_ok_def)

lemma EvalScript_runs:
  "EvalScript env stk script = Inr stk' \<longleftrightarrow>
   length script \<le> 10000
   \<and> (\<exists>st. runs env (initial_state stk script) st \<and> pc st = [] \<and> vfExec st = [] \<and> stk' = stack st)"
proof (cases "eval_loop env (initial_state stk script)")
  case (Inl e)
  then have "\<not> (runs env (initial_state stk script) st \<and> pc st = [])" for st
    using eval_loop_runs [of env "initial_state stk script" st] by simp
  then show ?thesis using Inl by (auto simp: EvalScript_def)
next
  case (Inr st)
  then have "runs env (initial_state stk script) st' \<and> pc st' = [] \<longleftrightarrow> st' = st" for st'
    using eval_loop_runs [of env "initial_state stk script" st'] by auto
  then have "(\<exists>s. runs env (initial_state stk script) s \<and> pc s = [] \<and> vfExec s = [] \<and> stk' = stack s)
      \<longleftrightarrow> vfExec st = [] \<and> stk' = stack st" by metis
  then show ?thesis using Inr by (auto simp: EvalScript_def not_less)
qed

subsection \<open>Conditionals\<close>

text \<open>How an opcode changes the nesting depth; \<open>None\<close> where it cannot succeed at that depth.\<close>

definition cond_step :: "opcode \<Rightarrow> nat \<Rightarrow> nat option" where
  "cond_step op n =
     (if op = OP_IF \<or> op = OP_NOTIF then Some (n + 1)
      else if op = OP_ELSE then (if n = 0 then None else Some n)
      else if op = OP_ENDIF then (if n = 0 then None else Some (n - 1))
      else if op = OP_VERIF \<or> op = OP_VERNOTIF then None
      else Some n)"

fun cond_depth :: "nat \<Rightarrow> opcode list \<Rightarrow> nat option" where
  "cond_depth n [] = Some n"
| "cond_depth n (op # ops) = (case cond_step op n of None \<Rightarrow> None | Some m \<Rightarrow> cond_depth m ops)"

named_theorems vf_keeps "operations that keep the conditions"

lemma exec_vf [vf_keeps]:
  "exec_push_number op st = Inr st' \<Longrightarrow> vfExec st' = vfExec st"
  "exec_NOPx env st = Inr st' \<Longrightarrow> vfExec st' = vfExec st"
  "exec_VERIFY st = Inr st' \<Longrightarrow> vfExec st' = vfExec st"
  "exec_RETURN st = Inr st' \<Longrightarrow> vfExec st' = vfExec st" "exec_TOALTSTACK st = Inr st' \<Longrightarrow> vfExec st' = vfExec st"
  "exec_FROMALTSTACK st = Inr st' \<Longrightarrow> vfExec st' = vfExec st" "exec_2DROP st = Inr st' \<Longrightarrow> vfExec st' = vfExec st"
  "exec_2DUP st = Inr st' \<Longrightarrow> vfExec st' = vfExec st" "exec_3DUP st = Inr st' \<Longrightarrow> vfExec st' = vfExec st"
  "exec_2OVER st = Inr st' \<Longrightarrow> vfExec st' = vfExec st" "exec_2ROT st = Inr st' \<Longrightarrow> vfExec st' = vfExec st"
  "exec_2SWAP st = Inr st' \<Longrightarrow> vfExec st' = vfExec st" "exec_IFDUP st = Inr st' \<Longrightarrow> vfExec st' = vfExec st"
  "exec_DEPTH st = Inr st' \<Longrightarrow> vfExec st' = vfExec st" "exec_DROP st = Inr st' \<Longrightarrow> vfExec st' = vfExec st"
  "exec_DUP st = Inr st' \<Longrightarrow> vfExec st' = vfExec st" "exec_NIP st = Inr st' \<Longrightarrow> vfExec st' = vfExec st"
  "exec_OVER st = Inr st' \<Longrightarrow> vfExec st' = vfExec st" "exec_ROT st = Inr st' \<Longrightarrow> vfExec st' = vfExec st"
  "exec_SWAP st = Inr st' \<Longrightarrow> vfExec st' = vfExec st" "exec_TUCK st = Inr st' \<Longrightarrow> vfExec st' = vfExec st"
  "exec_SIZE st = Inr st' \<Longrightarrow> vfExec st' = vfExec st" "exec_EQUAL op st = Inr st' \<Longrightarrow> vfExec st' = vfExec st"
  "exec_unary_num env op st = Inr st' \<Longrightarrow> vfExec st' = vfExec st"
  "exec_binary_num env op st = Inr st' \<Longrightarrow> vfExec st' = vfExec st"
  "exec_WITHIN env st = Inr st' \<Longrightarrow> vfExec st' = vfExec st"
  "exec_hash op st = Inr st' \<Longrightarrow> vfExec st' = vfExec st" "exec_CODESEPARATOR st = Inr st' \<Longrightarrow> vfExec st' = vfExec st"
  "exec_PICK_ROLL env op st = Inr st' \<Longrightarrow> vfExec st' = vfExec st"
  "exec_CHECKSIG env op st = Inr st' \<Longrightarrow> vfExec st' = vfExec st"
  by (auto simp: exec_defs Let_def split: list.splits if_splits option.splits)

lemma exec_CHECKMULTISIG_vf [vf_keeps]:
  "exec_CHECKMULTISIG env op st = Inr st' \<Longrightarrow> vfExec st' = vfExec st"
  by (erule exec_CHECKMULTISIG_cases) simp

lemma exec_cond:
  "exec_IF f op st = Inr st' \<Longrightarrow> length (vfExec st') = length (vfExec st) + 1"
  "exec_ELSE st = Inr st' \<Longrightarrow> length (vfExec st') = length (vfExec st) \<and> vfExec st \<noteq> []"
  "exec_ENDIF st = Inr st' \<Longrightarrow> length (vfExec st') = length (vfExec st) - 1 \<and> vfExec st \<noteq> []"
  by (auto simp: exec_defs Let_def split: list.splits if_splits)

lemma exec_op_cond:
  "exec_op env f op st = Inr st' \<Longrightarrow> cond_step op (length (vfExec st)) = Some (length (vfExec st'))"
  unfolding exec_op_def
  by (elim if_elim_Inr; (drule vf_keeps | drule exec_cond)?; auto simp: cond_step_def)

end
