(* ===== verification/Script_Limits.thy ===== *)
theory Script_Limits imports Script_Eval begin

text \<open>
  What \<open>EvalScript\<close> guarantees, whatever the script: the resource limits of every reachable
  state, what a script must look like to succeed at all (also in branches that are not
  executed), the meaning of the \<open>OP_CHECKMULTISIG\<close> loop, and that every verification flag only
  ever makes more scripts fail.
\<close>

unbundle bit_operations_syntax

subsection \<open>Scripts that can succeed\<close>

definition instr_opcode :: "bytes \<Rightarrow> opcode" where
  "instr_opcode i = fst (snd (GetOp2 i))"

definition instr_data :: "bytes \<Rightarrow> bytes" where
  "instr_data i = fst (snd (snd (GetOp2 i)))"

definition counted :: "bytes list \<Rightarrow> nat" where
  "counted is = length (filter (\<lambda>i. instr_opcode i > OP_16) is)"

definition acceptable_instr :: "bytes \<Rightarrow> bool" where
  "acceptable_instr i \<longleftrightarrow>
     instr_opcode i \<notin> set disabled_opcodes \<and> instr_opcode i \<noteq> OP_VERIF \<and> instr_opcode i \<noteq> OP_VERNOTIF
     \<and> length (instr_data i) \<le> 520"

text \<open>What a successful run from \<open>st\<close> says about the instructions still to come.\<close>

definition runnable :: "script_state \<Rightarrow> script_state \<Rightarrow> bool" where
  "runnable st st' \<longleftrightarrow>
     (let (is, tl) = instrs (pc st) in
      tl = [] \<and> list_all acceptable_instr is \<and> nOpCount st + counted is \<le> nOpCount st'
      \<and> cond_depth (length (vfExec st)) (map instr_opcode is) = Some (length (vfExec st')))"

lemma cond_step_skipped:
  "\<not> (OP_IF \<le> op \<and> op \<le> OP_ENDIF) \<Longrightarrow> cond_step op n = Some n"
  by (auto simp: cond_step_def)

lemma eval_step_static:
  assumes "eval_step env st = Inr st'"
  obtains i op d where "pc st = i @ pc st'" "is_instr i" "GetOp2 i = (True, op, d, [])"
    "acceptable_instr i" "nOpCount st + (if op > OP_16 then 1 else 0) \<le> nOpCount st'"
    "cond_step op (length (vfExec st)) = Some (length (vfExec st'))"
  using assms
proof (rule eval_step_cases)
  fix op d rest n st1
  assume g: "GetOp2 (pc st) = (True, op, d, rest)" and op: "op \<le> 255" and d: "length d \<le> 520"
    and dis: "op \<notin> set disabled_opcodes"
    and n: "n = (if op > OP_16 then nOpCount st + 1 else nOpCount st)"
    and st1: "st1 = st\<lparr>pc := rest, nOpCount := n\<rparr>"
    and r: "False \<notin> set (vfExec st) \<and> op \<le> OP_PUSHDATA4 \<and> st' = st1\<lparr>stack := d # stack st1\<rparr>
       \<and> (fRequireMinimal env \<longrightarrow> CheckMinimalPush d op)
     \<or> (False \<notin> set (vfExec st) \<and> op > OP_PUSHDATA4 \<or> OP_IF \<le> op \<and> op \<le> OP_ENDIF)
         \<and> exec_op env (False \<notin> set (vfExec st)) op st1 = Inr st'
     \<or> False \<in> set (vfExec st) \<and> \<not> (OP_IF \<le> op \<and> op \<le> OP_ENDIF) \<and> st' = st1"
  obtain i where i: "pc st = i @ rest" "is_instr i" "GetOp2 i = (True, op, d, [])"
    by (rule GetOp2_is_instr [OF g])
  have *: "pc st' = rest \<and> n \<le> nOpCount st' \<and> cond_step op (length (vfExec st)) = Some (length (vfExec st'))"
    using r
  proof (elim disjE conjE)
    assume "op \<le> OP_PUSHDATA4" "st' = st1\<lparr>stack := d # stack st1\<rparr>"
    then show ?thesis using st1 by (simp add: cond_step_skipped)
  next
    assume e: "exec_op env (False \<notin> set (vfExec st)) op st1 = Inr st'"
    show ?thesis using exec_op_effect [OF e op] exec_op_cond [OF e] st1 by (simp add: op_effect_def)
  next
    assume e: "exec_op env (False \<notin> set (vfExec st)) op st1 = Inr st'"
    show ?thesis using exec_op_effect [OF e op] exec_op_cond [OF e] st1 by (simp add: op_effect_def)
  next
    assume "\<not> (OP_IF \<le> op \<and> op \<le> OP_ENDIF)" "st' = st1"
    then show ?thesis using st1 by (simp add: cond_step_skipped)
  qed
  then have "op \<noteq> OP_VERIF" "op \<noteq> OP_VERNOTIF" by (auto simp: cond_step_def split: if_splits)
  then have "acceptable_instr i" using i dis d by (simp add: acceptable_instr_def instr_opcode_def instr_data_def)
  then show thesis using that [of i op d] i * n by (auto split: if_splits)
qed

lemma runs_runnable:
  "runs env st st' \<Longrightarrow> pc st' = [] \<Longrightarrow> runnable st st'"
proof (induction rule: runs.induct)
  case (runs_refl st)
  then show ?case by (simp add: runnable_def instrs_fail counted_def)
next
  case (runs_step st st1 st2)
  obtain i op d where i: "pc st = i @ pc st1" "is_instr i" "GetOp2 i = (True, op, d, [])"
    "acceptable_instr i" "nOpCount st + (if op > OP_16 then 1 else 0) \<le> nOpCount st1"
    "cond_step op (length (vfExec st)) = Some (length (vfExec st1))"
    using eval_step_static [OF runs_step(1)] .
  show ?case
    using i runs_step.IH [OF runs_step.prems]
    by (auto simp: runnable_def instrs_append counted_def instr_opcode_def split: prod.splits)
qed

lemma runs_op_count: "runs env st st' \<Longrightarrow> nOpCount st \<le> 201 \<Longrightarrow> nOpCount st' \<le> 201"
proof (induction rule: runs.induct)
  case (runs_step st st1 st2)
  from runs_step(1) have "nOpCount st1 \<le> 201"
    by (rule eval_step_cases)
      (use runs_step.prems in \<open>auto dest!: exec_op_effect simp: op_effect_def split: if_splits\<close>)
  then show ?case by (rule runs_step.IH)
qed

subsection \<open>The \<open>OP_CHECKMULTISIG\<close> loop\<close>

text \<open>The keys, in order and each used once, can be matched with all the signatures.\<close>

definition matching :: "('s \<Rightarrow> 'k \<Rightarrow> bool) \<Rightarrow> 's list \<Rightarrow> 'k list \<Rightarrow> bool" where
  "matching P sigs keys \<longleftrightarrow> (\<exists>ks. subseq ks keys \<and> list_all2 P sigs ks)"

lemma matching_Nil [simp]: "matching P [] keys"
  by (auto simp: matching_def)

lemma matching_length: "matching P sigs keys \<Longrightarrow> length sigs \<le> length keys"
  unfolding matching_def by (metis list_all2_lengthD list_emb_length)

lemma matching_drop_sig: "matching P (s # sigs) keys \<Longrightarrow> matching P sigs keys"
  unfolding matching_def by (metis list_all2_Cons1 subseq_Cons')

lemma matching_Cons_key:
  "matching P (s # sigs) (k # keys) \<longleftrightarrow> (if P s k then matching P sigs keys else matching P (s # sigs) keys)"
proof -
  have "matching P (s # sigs) (k # keys) \<longleftrightarrow> (P s k \<and> matching P sigs keys) \<or> matching P (s # sigs) keys"
  proof
    assume "matching P (s # sigs) (k # keys)"
    then obtain k' ks where m: "subseq (k' # ks) (k # keys)" "P s k'" "list_all2 P sigs ks"
      by (auto simp: matching_def list_all2_Cons1)
    then show "(P s k \<and> matching P sigs keys) \<or> matching P (s # sigs) keys"
      by (cases "k' = k") (auto simp: matching_def list_all2_Cons1)
  next
    assume "(P s k \<and> matching P sigs keys) \<or> matching P (s # sigs) keys"
    then show "matching P (s # sigs) (k # keys)"
      unfolding matching_def by (metis list_all2_Cons list_emb_Cons subseq_Cons2)
  qed
  then show ?thesis using matching_drop_sig by (metis (full_types))
qed

lemma multisig_loop_matching:
  assumes "\<And>s k. s \<in> set sigs \<Longrightarrow> k \<in> set keys \<Longrightarrow> check_encodings env s k = None"
    and "length sigs \<le> length keys"
  shows "multisig_loop env code sigs keys = Inr (matching (\<lambda>s k. check_sig env s k code) sigs keys)"
  using assms
proof (induction env code sigs keys rule: multisig_loop.induct)
  case (1 env code keys)
  then show ?case by simp
next
  case (2 env code s sigs k keys)
  let ?P = "\<lambda>s k. check_sig env s k code"
  let ?sigs = "if ?P s k then sigs else s # sigs"
  have "set ?sigs \<subseteq> set (s # sigs)" by auto
  then have IH: "multisig_loop env code ?sigs keys = Inr (matching ?P ?sigs keys)"
    if "length ?sigs \<le> length keys"
    using 2 that by (auto split: if_splits)
  have "\<not> matching ?P ?sigs keys" if "length keys < length ?sigs"
    using matching_length [of ?P ?sigs keys] that by linarith
  then show ?case using 2(2) IH matching_Cons_key [of ?P s sigs k keys]
    by (auto simp: not_less)
qed simp

subsection \<open>Verification flags only restrict\<close>

definition flags_le :: "verify_flags \<Rightarrow> verify_flags \<Rightarrow> bool" where
  "flags_le g f \<longleftrightarrow> g AND f = g"

lemma has_flag_mono: "flags_le g f \<Longrightarrow> has_flag g x \<Longrightarrow> has_flag f x"
  unfolding flags_le_def has_flag_def by (metis and.assoc and_zero_eq)

definition with_flags :: "eval_env \<Rightarrow> verify_flags \<Rightarrow> eval_env" where
  "with_flags env g = env\<lparr>env_flags := g\<rparr>"

lemma with_flags_simps [simp]:
  "env_flags (with_flags env g) = g" "check_low_s (with_flags env g) = check_low_s env"
  "check_sig (with_flags env g) = check_sig env"
  by (simp_all add: with_flags_def)

lemma minimal_mono: "flags_le g (env_flags env) \<Longrightarrow> fRequireMinimal (with_flags env g) \<Longrightarrow> fRequireMinimal env"
  by (auto simp: fRequireMinimal_def dest: has_flag_mono)

lemma num_mono:
  "flags_le g (env_flags env) \<Longrightarrow> num env v = Some n \<Longrightarrow> num (with_flags env g) v = Some n"
  using minimal_mono [of g env] by (auto simp: num_def ctor_eq split: if_splits)

lemma check_encodings_mono:
  "flags_le g (env_flags env) \<Longrightarrow> check_encodings env s k = None \<Longrightarrow>
   check_encodings (with_flags env g) s k = None"
  using has_flag_mono [of g "env_flags env"]
  by (auto simp: check_encodings_def CheckSignatureEncoding_def CheckPubKeyEncoding_def
      split: if_splits option.splits)

lemma multisig_loop_mono:
  "flags_le g (env_flags env) \<Longrightarrow> multisig_loop env code sigs keys = Inr b \<Longrightarrow>
   multisig_loop (with_flags env g) code sigs keys = Inr b"
proof (induction env code sigs keys rule: multisig_loop.induct)
  case (2 env code s sigs k keys)
  then have "check_encodings env s k = None" by (auto split: option.splits)
  then show ?case
    using 2 check_encodings_mono [OF 2(2), of s k] by (auto simp: Let_def split: if_splits)
qed simp_all

named_theorems flag_mono "operations that succeed under fewer flags"

lemma exec_flag_mono [flag_mono]:
  assumes "flags_le g (env_flags env)"
  shows "exec_NOPx env st = Inr st' \<Longrightarrow> exec_NOPx (with_flags env g) st = Inr st'"
    and "exec_unary_num env op st = Inr st' \<Longrightarrow> exec_unary_num (with_flags env g) op st = Inr st'"
    and "exec_binary_num env op st = Inr st' \<Longrightarrow> exec_binary_num (with_flags env g) op st = Inr st'"
    and "exec_WITHIN env st = Inr st' \<Longrightarrow> exec_WITHIN (with_flags env g) st = Inr st'"
    and "exec_PICK_ROLL env op st = Inr st' \<Longrightarrow> exec_PICK_ROLL (with_flags env g) op st = Inr st'"
    and "exec_CHECKSIG env op st = Inr st' \<Longrightarrow> exec_CHECKSIG (with_flags env g) op st = Inr st'"
  using has_flag_mono [OF assms] num_mono [OF assms] check_encodings_mono [OF assms]
  by (auto simp: exec_defs split: list.splits option.splits if_splits)

lemma exec_CHECKMULTISIG_mono [flag_mono]:
  assumes le: "flags_le g (env_flags env)" and e: "exec_CHECKMULTISIG env op st = Inr st'"
  shows "exec_CHECKMULTISIG (with_flags env g) op st = Inr st'"
  using e
proof (rule exec_CHECKMULTISIG_cases)
  fix n m bn1 bn2 keys sigs dummy xs b
  assume *: "num env (stack st ! 0) = Some bn1" "bn1 = int n" "n \<le> 20" "nOpCount st + n \<le> 201"
    "num env (stack st ! (1 + n)) = Some bn2" "bn2 = int m" "m \<le> n"
    "length (stack st) \<ge> 3 + n + m"
    "keys = take n (drop 1 (stack st))" "sigs = take m (drop (2 + n) (stack st))"
    "multisig_loop env (foldl (\<lambda>code sig. fst (FindAndDelete code (push_data sig))) (pbegincodehash st) sigs)
       sigs keys = Inr b"
    "drop (2 + n + m) (stack st) = dummy # xs"
    "has_flag (env_flags env) SCRIPT_VERIFY_NULLDUMMY \<longrightarrow> dummy = []"
    "st' = st\<lparr>nOpCount := nOpCount st + n,
       stack := (if op = OP_CHECKMULTISIGVERIFY then xs else bool_vch b # xs)\<rparr>"
    "op = OP_CHECKMULTISIGVERIFY \<longrightarrow> b"
  have nums: "num (with_flags env g) (stack st ! 0) = Some (int n)"
    "num (with_flags env g) (stack st ! (1 + n)) = Some (int m)"
    using num_mono [OF le] * by simp_all
  show ?thesis
    using * nums num_getint [OF nums(1)] num_getint [OF nums(2)] multisig_loop_mono [OF le *(11)]
      has_flag_mono [OF le, of SCRIPT_VERIFY_NULLDUMMY]
    by (auto simp: exec_CHECKMULTISIG_def Let_def)
qed

lemma exec_op_flag_mono:
  "flags_le g (env_flags env) \<Longrightarrow> exec_op env f op st = Inr st' \<Longrightarrow>
   exec_op (with_flags env g) f op st = Inr st'"
  unfolding exec_op_def [of env]
  by (elim if_elim_Inr; auto simp: exec_op_def flag_mono)

lemma eval_step_mono:
  assumes le: "flags_le g (env_flags env)" and e: "eval_step env st = Inr st'"
  shows "eval_step (with_flags env g) st = Inr st'"
  using e
proof (rule eval_step_cases)
  fix op d rest n st1
  assume *: "GetOp2 (pc st) = (True, op, d, rest)" "op \<le> 255" "length d \<le> 520" "op \<notin> set disabled_opcodes"
    "n = (if op > OP_16 then nOpCount st + 1 else nOpCount st)" "op > OP_16 \<longrightarrow> n \<le> 201"
    "st1 = st\<lparr>pc := rest, nOpCount := n\<rparr>"
    and r: "False \<notin> set (vfExec st) \<and> op \<le> OP_PUSHDATA4 \<and> st' = st1\<lparr>stack := d # stack st1\<rparr>
       \<and> (fRequireMinimal env \<longrightarrow> CheckMinimalPush d op)
     \<or> (False \<notin> set (vfExec st) \<and> op > OP_PUSHDATA4 \<or> OP_IF \<le> op \<and> op \<le> OP_ENDIF)
         \<and> exec_op env (False \<notin> set (vfExec st)) op st1 = Inr st'
     \<or> False \<in> set (vfExec st) \<and> \<not> (OP_IF \<le> op \<and> op \<le> OP_ENDIF) \<and> st' = st1"
    and lim: "length (stack st') + length (altstack st') \<le> 1000"
  have n: "\<not> (op > OP_16 \<and> n > 201)" using *(6) by linarith
  have step: "eval_step (with_flags env g) st =
     (case (if False \<notin> set (vfExec st) \<and> op \<le> OP_PUSHDATA4 then
              (if fRequireMinimal (with_flags env g) \<and> \<not> CheckMinimalPush d op
               then Inl SCRIPT_ERR_MINIMALDATA else Inr (st1\<lparr>stack := d # stack st1\<rparr>))
            else if False \<notin> set (vfExec st) \<or> (OP_IF \<le> op \<and> op \<le> OP_ENDIF)
            then exec_op (with_flags env g) (False \<notin> set (vfExec st)) op st1
            else Inr st1) of
        Inl e \<Rightarrow> Inl e
      | Inr st2 \<Rightarrow> if length (stack st2) + length (altstack st2) > 1000
                    then Inl SCRIPT_ERR_STACK_SIZE else Inr st2)"
    unfolding eval_step_def *(1) using *(3,4) n
    by (simp only: Let_def prod.case *(5)[symmetric] *(7)[symmetric]) (simp add: MAX_SCRIPT_ELEMENT_SIZE_def)
  from r show ?thesis
  proof (elim disjE conjE)
    assume "False \<notin> set (vfExec st)" "op \<le> OP_PUSHDATA4" "st' = st1\<lparr>stack := d # stack st1\<rparr>"
      "fRequireMinimal env \<longrightarrow> CheckMinimalPush d op"
    then show ?thesis using lim minimal_mono [OF le] by (auto simp: step)
  next
    assume "False \<notin> set (vfExec st)" "op > OP_PUSHDATA4"
      "exec_op env (False \<notin> set (vfExec st)) op st1 = Inr st'"
    then show ?thesis using lim exec_op_flag_mono [OF le] by (simp add: step)
  next
    assume "OP_IF \<le> op" "op \<le> OP_ENDIF" "exec_op env (False \<notin> set (vfExec st)) op st1 = Inr st'"
    then show ?thesis using lim exec_op_flag_mono [OF le] by (simp add: step)
  next
    assume "False \<in> set (vfExec st)" "\<not> (OP_IF \<le> op \<and> op \<le> OP_ENDIF)" "st' = st1"
    then show ?thesis using lim by (auto simp: step)
  qed
qed

lemma runs_mono: "runs env st st' \<Longrightarrow> flags_le g (env_flags env) \<Longrightarrow> runs (with_flags env g) st st'"
  by (induction rule: runs.induct) (auto intro: runs.intros eval_step_mono)

lemma EvalScript_mono:
  "EvalScript env stk script = Inr stk' \<Longrightarrow> flags_le g (env_flags env) \<Longrightarrow>
   EvalScript (with_flags env g) stk script = Inr stk'"
  unfolding EvalScript_runs using runs_mono by blast

subsection \<open>Properties\<close>

text \<open>An environment for the examples: a signature is valid for the key of the same bytes.\<close>

definition sample_env :: eval_env where
  "sample_env = \<lparr>env_flags = SCRIPT_VERIFY_MINIMALDATA OR SCRIPT_VERIFY_NULLDUMMY,
     check_low_s = (\<lambda>_. True), check_sig = (\<lambda>sig key code. sig = key)\<rparr>"

lemma sample_conditional: "EvalScript sample_env [[2]] [0x63, 0x53, 0x67, 0x52, 0x68] = Inr [[3]]"
  by code_simp

text \<open>
  C15. Resource bounds: started with at most 1000 elements of at most 520 bytes, a successful
  evaluation leaves at most 1000 elements, none longer than 520 bytes; every state the interpreter
  goes through keeps main and alternative stack together at 1000, the counted operations at 201, and the
  instruction pointer and the signed part of the script inside the script.
\<close>

theorem EvalScript_bounded:
  assumes "length stk \<le> 1000" "\<forall>x \<in> set stk. length x \<le> 520"
  shows "(\<forall>st. runs env (initial_state stk script) st \<longrightarrow> machine_ok script st)
    \<and> (\<forall>stk'. EvalScript env stk script = Inr stk' \<longrightarrow> length stk' \<le> 1000 \<and> (\<forall>x \<in> set stk'. length x \<le> 520))"
proof -
  have 1: "machine_ok script st" if "runs env (initial_state stk script) st" for st
    by (rule runs_ok [OF that initial_state_ok [OF assms]])
  moreover have "length stk' \<le> 1000 \<and> (\<forall>x \<in> set stk'. length x \<le> 520)"
    if r: "EvalScript env stk script = Inr stk'" for stk'
  proof -
    obtain st where "runs env (initial_state stk script) st" "stk' = stack st"
      using r by (auto simp: EvalScript_runs)
    then show ?thesis using 1 [of st] by (simp add: machine_ok_def elements_ok_def)
  qed
  ultimately show ?thesis by blast
qed

theorem EvalScript_bounded_witness:
  "machine_ok [0x51, 0x93] (initial_state [[2]] [0x51, 0x93])
   \<and> length [[3 :: byte]] \<le> 1000 \<and> list_all (\<lambda>x. length x \<le> 520) [[3 :: byte]]"
proof -
  have "EvalScript sample_env [[2]] [0x51, 0x93] = Inr [[3]]" by code_simp
  moreover have "runs sample_env (initial_state [[2]] [0x51, 0x93]) (initial_state [[2]] [0x51, 0x93])"
    by (rule runs.intros)
  ultimately show ?thesis
    using EvalScript_bounded [of "[[2]]" sample_env "[0x51, 0x93]"] by simp
qed

text \<open>
  C26. What a script must look like to succeed, whatever its branches do: it parses to the end,
  it has at most 10000 bytes and 201 counted operations, contains no disabled opcode, no
  \<open>OP_VERIF\<close> and no oversized push even in a branch that is not executed, and its conditionals
  are balanced.
\<close>

theorem EvalScript_static:
  assumes "EvalScript env stk script = Inr stk'"
  shows "\<exists>is. instrs script = (is, []) \<and> concat is = script \<and> length script \<le> 10000
     \<and> list_all acceptable_instr is \<and> counted is \<le> 201
     \<and> cond_depth 0 (map instr_opcode is) = Some 0"
proof -
  obtain st where st: "length script \<le> 10000" "runs env (initial_state stk script) st"
    "pc st = []" "vfExec st = []"
    using assms by (auto simp: EvalScript_runs)
  have "nOpCount st \<le> 201" using runs_op_count [OF st(2)] by (simp add: initial_state_def)
  with runs_runnable [OF st(2,3)] st(1,4) instrs_concat [of script] show ?thesis
    by (cases "instrs script") (auto simp: runnable_def initial_state_def)
qed

theorem EvalScript_static_witness:
  "\<exists>is. instrs [0x63, 0x53, 0x67, 0x52, 0x68] = (is, []) \<and> concat is = [0x63, 0x53, 0x67, 0x52, 0x68]
     \<and> list_all acceptable_instr is \<and> counted is \<le> 201 \<and> cond_depth 0 (map instr_opcode is) = Some 0"
  using EvalScript_static [OF sample_conditional] by blast

text \<open>
  C17. The loop of \<open>OP_CHECKMULTISIG\<close>, which tries each key once and gives up early, accepts
  exactly when the signatures can be matched with the keys in order, each key used at most once.
\<close>

theorem multisig_loop_is_matching:
  assumes "\<And>s k. s \<in> set sigs \<Longrightarrow> k \<in> set keys \<Longrightarrow> check_encodings env s k = None"
    and "length sigs \<le> length keys"
  shows "multisig_loop env code sigs keys = Inr (matching (\<lambda>s k. check_sig env s k code) sigs keys)"
  using assms by (rule multisig_loop_matching)

theorem multisig_loop_is_matching_witness:
  "multisig_loop (sample_env\<lparr>env_flags := 0\<rparr>) [] [[2], [3]] [[1], [2], [3]]
     = Inr (matching (\<lambda>s k. s = k) [[2 :: byte], [3]] [[1], [2], [3]])
   \<and> matching (\<lambda>s k. s = k) [[2 :: byte], [3]] [[1], [2], [3]]"
proof -
  let ?env = "sample_env\<lparr>env_flags := 0\<rparr>"
  have none: "check_encodings ?env s k = None" for s k
    by (simp add: check_encodings_def CheckSignatureEncoding_def CheckPubKeyEncoding_def has_flag_def)
  have "multisig_loop ?env [] [[2], [3]] [[1], [2], [3]]
      = Inr (matching (\<lambda>s k. s = k) [[2 :: byte], [3]] [[1], [2], [3]])"
    using multisig_loop_is_matching [of "[[2], [3]]" "[[1], [2], [3]]" ?env "[]"] none
    by (simp add: sample_env_def)
  moreover have "matching (\<lambda>s k. s = k) [[2 :: byte], [3]] [[1], [2], [3]]"
    by (simp add: matching_Cons_key)
  ultimately show ?thesis by blast
qed

text \<open>
  Every verification flag is a restriction: a script that succeeds under some flags succeeds
  with the same resulting stack under any subset of them.
\<close>

theorem EvalScript_flags_restrict:
  assumes "EvalScript env stk script = Inr stk'" "g AND env_flags env = g"
  shows "EvalScript (env\<lparr>env_flags := g\<rparr>) stk script = Inr stk'"
  using EvalScript_mono [OF assms(1), of g] assms(2) by (simp add: flags_le_def with_flags_def)

theorem EvalScript_flags_restrict_witness:
  "EvalScript (sample_env\<lparr>env_flags := SCRIPT_VERIFY_NULLDUMMY\<rparr>) [[2]] [0x63, 0x53, 0x67, 0x52, 0x68]
     = Inr [[3]]"
  by (rule EvalScript_flags_restrict [OF sample_conditional]) (simp add: sample_env_def)

end
