(* ===== verification/Transaction.thy ===== *)
theory Transaction imports Script_Code Serialize "HOL-Library.Signed_Division" begin

text \<open>
  \<open>src/src/core.h\<close>, the class \<open>CTransaction\<close> of \<open>src/src/main.h\<close> and the context-free checks of
  \<open>src/src/main.cpp\<close>: outpoints, inputs, outputs and transactions, how they are serialised,
  \<open>CheckTransaction\<close>, \<open>IsFinalTx\<close>, the legacy count of signature operations and \<open>GetMinFee\<close>.
  Signed integers are \<open>int\<close> values with the range of their C++ type as an explicit predicate.
\<close>

unbundle bit_operations_syntax

subsection \<open>Data\<close>

record COutPoint =
  op_hash :: uint256
  op_n :: u32

record CTxIn =
  prevout :: COutPoint
  scriptSig :: script
  prevPubKey :: script
  nSequence :: u32

record CTxOut =
  nValue :: int
  nRounds :: int
  scriptPubKey :: script

record CTransaction =
  nVersion :: int
  nTime :: u32
  vin :: "CTxIn list"
  vout :: "CTxOut list"
  nLockTime :: u32
  nDoS :: int

definition COIN :: int where "COIN = 100000000"
definition CENT :: int where "CENT = 1000000"
definition MAX_MONEY :: int where "MAX_MONEY = 450000000 * COIN"
definition MAX_BLOCK_SIZE :: u32 where "MAX_BLOCK_SIZE = 30000000"
definition MIN_TX_FEE :: int where "MIN_TX_FEE = 1000"
definition MIN_RELAY_TX_FEE :: int where "MIN_RELAY_TX_FEE = MIN_TX_FEE"
definition LOCKTIME_THRESHOLD :: int where "LOCKTIME_THRESHOLD = 500000000"

definition MoneyRange :: "int \<Rightarrow> bool" where
  "MoneyRange v \<longleftrightarrow> v \<ge> 0 \<and> v \<le> MAX_MONEY"

definition COutPoint_SetNull :: COutPoint where
  "COutPoint_SetNull = \<lparr>op_hash = 0, op_n = -1\<rparr>"

definition COutPoint_IsNull :: "COutPoint \<Rightarrow> bool" where
  "COutPoint_IsNull p \<longleftrightarrow> op_hash p = 0 \<and> op_n p = -1"

definition COutPoint_less :: "COutPoint \<Rightarrow> COutPoint \<Rightarrow> bool" where
  "COutPoint_less a b \<longleftrightarrow> op_hash a < op_hash b \<or> (op_hash a = op_hash b \<and> op_n a < op_n b)"

definition CTxIn_IsFinal :: "CTxIn \<Rightarrow> bool" where
  "CTxIn_IsFinal txin \<longleftrightarrow> nSequence txin = 0xFFFFFFFF"

definition CTxIn_eq :: "CTxIn \<Rightarrow> CTxIn \<Rightarrow> bool" where
  "CTxIn_eq a b \<longleftrightarrow> prevout a = prevout b \<and> scriptSig a = scriptSig b \<and> nSequence a = nSequence b"

definition CTxOut_SetNull :: CTxOut where
  "CTxOut_SetNull = \<lparr>nValue = -1, nRounds = -10, scriptPubKey = []\<rparr>"

definition CTxOut_IsNull :: "CTxOut \<Rightarrow> bool" where
  "CTxOut_IsNull txout \<longleftrightarrow> nValue txout = -1"

definition CTxOut_SetEmpty :: "CTxOut \<Rightarrow> CTxOut" where
  "CTxOut_SetEmpty txout = txout\<lparr>nValue := 0, scriptPubKey := []\<rparr>"

definition CTxOut_IsEmpty :: "CTxOut \<Rightarrow> bool" where
  "CTxOut_IsEmpty txout \<longleftrightarrow> nValue txout = 0 \<and> scriptPubKey txout = []"

definition CTransaction_SetNull :: "u32 \<Rightarrow> CTransaction" where
  "CTransaction_SetNull adjustedTime =
     \<lparr>nVersion = 1, nTime = adjustedTime, vin = [], vout = [], nLockTime = 0, nDoS = 0\<rparr>"

definition CTransaction_IsNull :: "CTransaction \<Rightarrow> bool" where
  "CTransaction_IsNull tx \<longleftrightarrow> vin tx = [] \<and> vout tx = []"

definition IsCoinBase :: "CTransaction \<Rightarrow> bool" where
  "IsCoinBase tx \<longleftrightarrow> length (vin tx) = 1 \<and> COutPoint_IsNull (prevout (vin tx ! 0)) \<and> length (vout tx) \<ge> 1"

definition IsCoinStake :: "CTransaction \<Rightarrow> bool" where
  "IsCoinStake tx \<longleftrightarrow> length (vin tx) > 0 \<and> \<not> COutPoint_IsNull (prevout (vin tx ! 0))
     \<and> length (vout tx) \<ge> 2 \<and> CTxOut_IsEmpty (vout tx ! 0)"

definition DoS :: "int \<Rightarrow> bool \<Rightarrow> CTransaction \<Rightarrow> bool \<times> CTransaction" where
  "DoS nDoSIn fIn tx = (fIn, tx\<lparr>nDoS := nDoS tx + nDoSIn\<rparr>)"

subsection \<open>Serialisation\<close>

definition ser_COutPoint :: "COutPoint \<Rightarrow> bytes" where
  "ser_COutPoint p = WRITEDATA 32 (op_hash p) @ WRITEDATA 4 (op_n p)"

definition unser_COutPoint :: "COutPoint reader" where
  "unser_COutPoint s = do {
     (h, s1) \<leftarrow> READDATA 32 s;
     (n, s2) \<leftarrow> READDATA 4 s1;
     Some (\<lparr>op_hash = h, op_n = n\<rparr>, s2) }"

definition ser_CTxIn :: "CTxIn \<Rightarrow> bytes" where
  "ser_CTxIn txin = ser_COutPoint (prevout txin) @ ser_bytes (scriptSig txin) @ WRITEDATA 4 (nSequence txin)"

text \<open>The members that are not serialised keep the values of the default constructors.\<close>

definition unser_CTxIn :: "CTxIn reader" where
  "unser_CTxIn s = do {
     (p, s1) \<leftarrow> unser_COutPoint s;
     (sig, s2) \<leftarrow> unser_bytes s1;
     (sequence, s3) \<leftarrow> READDATA 4 s2;
     Some (\<lparr>prevout = p, scriptSig = sig, prevPubKey = [], nSequence = sequence\<rparr>, s3) }"

definition ser_int64 :: "int \<Rightarrow> bytes" where
  "ser_int64 v = WRITEDATA 8 (word_of_int v :: u64)"

definition unser_int64 :: "int reader" where
  "unser_int64 s = do { (w, t) \<leftarrow> READDATA 8 s; Some (sint (w :: u64), t) }"

definition ser_int32 :: "int \<Rightarrow> bytes" where
  "ser_int32 v = WRITEDATA 4 (word_of_int v :: u32)"

definition unser_int32 :: "int reader" where
  "unser_int32 s = do { (w, t) \<leftarrow> READDATA 4 s; Some (sint (w :: u32), t) }"

definition ser_CTxOut :: "CTxOut \<Rightarrow> bytes" where
  "ser_CTxOut txout = ser_int64 (nValue txout) @ ser_bytes (scriptPubKey txout)"

definition unser_CTxOut :: "CTxOut reader" where
  "unser_CTxOut s = do {
     (v, s1) \<leftarrow> unser_int64 s;
     (pk, s2) \<leftarrow> unser_bytes s1;
     Some (\<lparr>nValue = v, nRounds = -10, scriptPubKey = pk\<rparr>, s2) }"

definition ser_CTransaction :: "CTransaction \<Rightarrow> bytes" where
  "ser_CTransaction tx = ser_int32 (nVersion tx) @ WRITEDATA 4 (nTime tx)
     @ ser_vector ser_CTxIn (vin tx) @ ser_vector ser_CTxOut (vout tx) @ WRITEDATA 4 (nLockTime tx)"

text \<open>\<open>GetHash\<close> is the hash of the serialised transaction; the hash is a parameter.\<close>

definition CTransaction_GetHash :: "(bytes \<Rightarrow> uint256) \<Rightarrow> CTransaction \<Rightarrow> uint256" where
  "CTransaction_GetHash hash tx = hash (ser_CTransaction tx)"

definition unser_CTransaction :: "CTransaction reader" where
  "unser_CTransaction s = do {
     (version, s1) \<leftarrow> unser_int32 s;
     (time, s2) \<leftarrow> READDATA 4 s1;
     (ins, s3) \<leftarrow> unser_vector unser_CTxIn s2;
     (outs, s4) \<leftarrow> unser_vector unser_CTxOut s3;
     (lock, s5) \<leftarrow> READDATA 4 s4;
     Some (\<lparr>nVersion = version, nTime = time, vin = ins, vout = outs, nLockTime = lock, nDoS = 0\<rparr>, s5) }"

text \<open>\<open>GetSerializeSize\<close>, which the macro derives from the same member list.\<close>

definition size_CTxIn :: "CTxIn \<Rightarrow> u32" where
  "size_CTxIn txin = 36 + size_bytes (scriptSig txin) + 4"

definition size_CTxOut :: "CTxOut \<Rightarrow> u32" where
  "size_CTxOut txout = 8 + size_bytes (scriptPubKey txout)"

definition size_CTransaction :: "CTransaction \<Rightarrow> u32" where
  "size_CTransaction tx =
     4 + 4 + size_vector size_CTxIn (vin tx) + size_vector size_CTxOut (vout tx) + 4"

definition int32 :: "int \<Rightarrow> bool" where
  "int32 v \<longleftrightarrow> - (2 ^ 31) \<le> v \<and> v < 2 ^ 31"

definition wf_CTxIn :: "CTxIn \<Rightarrow> bool" where
  "wf_CTxIn txin \<longleftrightarrow> small (scriptSig txin) \<and> prevPubKey txin = []"

definition wf_CTxOut :: "CTxOut \<Rightarrow> bool" where
  "wf_CTxOut txout \<longleftrightarrow> int64 (nValue txout) \<and> nRounds txout = -10 \<and> small (scriptPubKey txout)"

definition wf_CTransaction :: "CTransaction \<Rightarrow> bool" where
  "wf_CTransaction tx \<longleftrightarrow> int32 (nVersion tx) \<and> small (vin tx) \<and> list_all wf_CTxIn (vin tx)
     \<and> small (vout tx) \<and> list_all wf_CTxOut (vout tx) \<and> nDoS tx = 0"

lemma sint_of_int:
  "int64 v \<Longrightarrow> sint (word_of_int v :: u64) = v" "int32 v \<Longrightarrow> sint (word_of_int v :: u32) = v"
  by (simp_all add: int64_def int32_def sint_sbintrunc' signed_take_bit_int_eq_self)

lemma sint_range: "int64 (sint (w :: u64))" "int32 (sint (x :: u32))"
  using sint_range_size [of w] sint_range_size [of x] by (simp_all add: int64_def int32_def word_size)

text \<open>A record is determined by its serialised members, the others being default.\<close>

lemma record_members:
  "\<lparr>op_hash = op_hash p, op_n = op_n p\<rparr> = p"
  "prevPubKey i = [] \<Longrightarrow>
   \<lparr>prevout = prevout i, scriptSig = scriptSig i, prevPubKey = [], nSequence = nSequence i\<rparr> = i"
  "nRounds o' = -10 \<Longrightarrow> \<lparr>nValue = nValue o', nRounds = -10, scriptPubKey = scriptPubKey o'\<rparr> = o'"
  "nDoS t = 0 \<Longrightarrow> \<lparr>nVersion = nVersion t, nTime = nTime t, vin = vin t, vout = vout t,
     nLockTime = nLockTime t, nDoS = 0\<rparr> = t"
  by simp_all

lemmas member_writes = int32.Unser_Ser int64.Unser_Ser int256.Unser_Ser vector_bytes.Unser_Ser record_members
lemmas member_reads = int32.Unser_iff int64.Unser_iff int256.Unser_iff vector_bytes.Unser_iff bind_eq_Some_conv

interpretation sint64: serializable ser_int64 unser_int64 int64
  by unfold_locales (simp add: ser_int64_def unser_int64_def member_writes sint_of_int,
      auto simp: ser_int64_def unser_int64_def member_reads sint_range)

interpretation sint32: serializable ser_int32 unser_int32 int32
  by unfold_locales (simp add: ser_int32_def unser_int32_def member_writes sint_of_int,
      auto simp: ser_int32_def unser_int32_def member_reads sint_range)

interpretation outpoint: serializable ser_COutPoint unser_COutPoint "\<lambda>_. True"
  by unfold_locales (simp add: ser_COutPoint_def unser_COutPoint_def member_writes,
      auto simp: ser_COutPoint_def unser_COutPoint_def member_reads)

interpretation txin: serializable ser_CTxIn unser_CTxIn wf_CTxIn
  by unfold_locales
    (simp add: ser_CTxIn_def unser_CTxIn_def wf_CTxIn_def member_writes outpoint.Unser_Ser,
      auto simp: ser_CTxIn_def unser_CTxIn_def wf_CTxIn_def member_reads outpoint.Unser_iff)

interpretation txout: serializable ser_CTxOut unser_CTxOut wf_CTxOut
  by unfold_locales
    (simp add: ser_CTxOut_def unser_CTxOut_def wf_CTxOut_def member_writes sint64.Unser_Ser,
      auto simp: ser_CTxOut_def unser_CTxOut_def wf_CTxOut_def member_reads sint64.Unser_iff)

interpretation txins: serializable "ser_vector ser_CTxIn" "unser_vector unser_CTxIn"
  "\<lambda>v. small v \<and> list_all wf_CTxIn v"
  by (rule txin.vector)

interpretation txouts: serializable "ser_vector ser_CTxOut" "unser_vector unser_CTxOut"
  "\<lambda>v. small v \<and> list_all wf_CTxOut v"
  by (rule txout.vector)

interpretation transaction: serializable ser_CTransaction unser_CTransaction wf_CTransaction
  by unfold_locales
    (simp add: ser_CTransaction_def unser_CTransaction_def wf_CTransaction_def member_writes
      sint32.Unser_Ser txins.Unser_Ser txouts.Unser_Ser,
     auto simp: ser_CTransaction_def unser_CTransaction_def wf_CTransaction_def member_reads
      sint32.Unser_iff txins.Unser_iff txouts.Unser_iff)

lemma size_CTransaction_length: "size_CTransaction tx = of_nat (length (ser_CTransaction tx))"
proof -
  have 1: "size_CTxIn x = of_nat (length (ser_CTxIn x))" for x
    by (simp add: size_CTxIn_def ser_CTxIn_def ser_COutPoint_def size_bytes_length)
  have 2: "size_CTxOut x = of_nat (length (ser_CTxOut x))" for x
    by (simp add: size_CTxOut_def ser_CTxOut_def ser_int64_def size_bytes_length)
  show ?thesis
    by (simp add: size_CTransaction_def ser_CTransaction_def ser_int32_def
        size_vector_length [OF 1] size_vector_length [OF 2])
qed

subsection \<open>Checks\<close>

text \<open>The loop over the outputs; \<open>Some d\<close> is the exit with misbehaviour score \<open>d\<close>.\<close>

fun check_outputs :: "CTransaction \<Rightarrow> int \<Rightarrow> CTxOut list \<Rightarrow> int option" where
  "check_outputs tx nValueOut [] = None"
| "check_outputs tx nValueOut (txout # outs) =
     (if CTxOut_IsEmpty txout \<and> \<not> IsCoinBase tx \<and> \<not> IsCoinStake tx then Some 100
      else if nValue txout < 0 then Some 100
      else if nValue txout > MAX_MONEY then Some 100
      else if \<not> MoneyRange (nValueOut + nValue txout) then Some 100
      else check_outputs tx (nValueOut + nValue txout) outs)"

fun duplicate_inputs :: "COutPoint set \<Rightarrow> CTxIn list \<Rightarrow> bool" where
  "duplicate_inputs vInOutPoints [] = False"
| "duplicate_inputs vInOutPoints (txin # ins) =
     (if prevout txin \<in> vInOutPoints then True
      else duplicate_inputs (insert (prevout txin) vInOutPoints) ins)"

definition CheckTransaction :: "CTransaction \<Rightarrow> bool \<times> CTransaction" where
  "CheckTransaction tx =
     (if vin tx = [] then (False, tx)
      else if vout tx = [] then DoS 10 False tx
      else if size_CTransaction tx > MAX_BLOCK_SIZE then DoS 100 False tx
      else case check_outputs tx 0 (vout tx) of
        Some d \<Rightarrow> DoS d False tx
      | None \<Rightarrow>
          if duplicate_inputs {} (vin tx) then (False, tx)
          else if IsCoinBase tx then
            (if length (scriptSig (vin tx ! 0)) < 2 \<or> length (scriptSig (vin tx ! 0)) > 100
             then DoS 100 False tx else (True, tx))
          else if list_ex (\<lambda>txin. COutPoint_IsNull (prevout txin)) (vin tx) then DoS 10 False tx
          else (True, tx))"

text \<open>
  The sum of the outputs; \<open>None\<close> is the exception. The addition is before the range test of the
  addend, but an addend that could overflow the sum raises the exception too.
\<close>

fun GetValueOut_loop :: "int \<Rightarrow> CTxOut list \<Rightarrow> int option" where
  "GetValueOut_loop nValueOut [] = Some nValueOut"
| "GetValueOut_loop nValueOut (txout # outs) =
     (let nValueOut = nValueOut + nValue txout in
      if \<not> MoneyRange (nValue txout) \<or> \<not> MoneyRange nValueOut then None
      else GetValueOut_loop nValueOut outs)"

definition GetValueOut :: "CTransaction \<Rightarrow> int option" where
  "GetValueOut tx = GetValueOut_loop 0 (vout tx)"

text \<open>\<open>nBestHeight\<close> and the adjusted clock are the globals that the default arguments read.\<close>

definition IsFinalTx :: "int \<Rightarrow> int \<Rightarrow> CTransaction \<Rightarrow> int \<Rightarrow> int \<Rightarrow> bool" where
  "IsFinalTx nBestHeight adjustedTime tx nBlockHeight nBlockTime =
     (if nLockTime tx = 0 then True
      else
        let h = (if nBlockHeight = 0 then nBestHeight else nBlockHeight);
            t = (if nBlockTime = 0 then adjustedTime else nBlockTime);
            lock = uint (nLockTime tx)
        in if lock < (if lock < LOCKTIME_THRESHOLD then h else t) then True
           else list_all CTxIn_IsFinal (vin tx))"

definition GetLegacySigOpCount :: "CTransaction \<Rightarrow> nat" where
  "GetLegacySigOpCount tx =
     foldl (\<lambda>n txout. n + GetSigOpCount False (scriptPubKey txout))
       (foldl (\<lambda>n txin. n + GetSigOpCount False (scriptSig txin)) 0 (vin tx)) (vout tx)"

datatype GetMinFee_mode = GMF_BLOCK | GMF_RELAY | GMF_SEND

definition GetMinFee :: "CTransaction \<Rightarrow> u32 \<Rightarrow> GetMinFee_mode \<Rightarrow> int" where
  "GetMinFee tx nBytes mode =
     (let nBaseFee = (if mode = GMF_RELAY then MIN_RELAY_TX_FEE else MIN_TX_FEE);
          nMinFee = (1 + uint nBytes div 1000) * nBaseFee;
          nMinFee = (if nMinFee < nBaseFee \<and> mode = GMF_SEND
                     then foldl (\<lambda>fee txout. if nValue txout < CENT then nBaseFee else fee) nMinFee (vout tx)
                     else nMinFee)
      in if \<not> MoneyRange nMinFee then MAX_MONEY else nMinFee)"

text \<open>\<open>IsDust\<close>; \<open>None\<close> where the product \<open>nValue * 1000\<close> leaves the range of \<open>int64_t\<close>.\<close>

definition CTxOut_IsDust :: "CTxOut \<Rightarrow> int \<Rightarrow> bool option" where
  "CTxOut_IsDust txout minRelayTxFee =
     (if int64 (nValue txout * 1000)
      then Some ((nValue txout * 1000) sdiv (3 * (sint (size_CTxOut txout) + 148)) < minRelayTxFee)
      else None)"

lemma check_outputs_None:
  "check_outputs tx a outs = None \<longleftrightarrow>
     list_all (\<lambda>o'. \<not> (CTxOut_IsEmpty o' \<and> \<not> IsCoinBase tx \<and> \<not> IsCoinStake tx) \<and> 0 \<le> nValue o') outs
     \<and> (outs \<noteq> [] \<longrightarrow> a + sum_list (map nValue outs) \<le> MAX_MONEY)" if "0 \<le> a"
  using that
proof (induction tx a outs rule: check_outputs.induct)
  case (2 tx a o' outs)
  have nn: "list_all (\<lambda>o'. 0 \<le> nValue o') outs \<Longrightarrow> 0 \<le> sum_list (map nValue outs)"
    by (induction outs) simp_all
  show ?case
  proof (cases "0 \<le> nValue o' \<and> a + nValue o' \<le> MAX_MONEY")
    case True
    then show ?thesis using 2 by (auto simp: MoneyRange_def algebra_simps)
  next
    case False
    then show ?thesis using 2 nn by (auto simp: MoneyRange_def list_all_iff)
  qed
qed simp

lemma check_outputs_GetValueOut:
  "check_outputs tx a outs = None \<Longrightarrow> 0 \<le> a \<Longrightarrow>
   GetValueOut_loop a outs = Some (a + sum_list (map nValue outs))"
  by (induction tx a outs rule: check_outputs.induct)
    (auto simp: MoneyRange_def Let_def algebra_simps split: if_splits)

lemma duplicate_inputs_iff:
  "\<not> duplicate_inputs S ins \<longleftrightarrow> distinct (map prevout ins) \<and> prevout ` set ins \<inter> S = {}"
  by (induction S ins rule: duplicate_inputs.induct) auto

lemma check_outputs_score: "check_outputs tx a outs = Some d \<Longrightarrow> d = 100"
  by (induction tx a outs rule: check_outputs.induct) (auto split: if_splits)

lemma CheckTransaction_fst:
  "fst (CheckTransaction tx) \<longleftrightarrow>
     vin tx \<noteq> [] \<and> vout tx \<noteq> [] \<and> size_CTransaction tx \<le> MAX_BLOCK_SIZE
     \<and> check_outputs tx 0 (vout tx) = None \<and> \<not> duplicate_inputs {} (vin tx)
     \<and> (if IsCoinBase tx then 2 \<le> length (scriptSig (vin tx ! 0)) \<and> length (scriptSig (vin tx ! 0)) \<le> 100
        else list_all (\<lambda>txin. \<not> COutPoint_IsNull (prevout txin)) (vin tx))"
  by (auto simp: CheckTransaction_def DoS_def list_ex_iff list_all_iff split: option.splits)

text \<open>A small transaction for the examples: one input, one output of five coins.\<close>

definition sample_tx :: CTransaction where
  "sample_tx = \<lparr>nVersion = 1, nTime = 1000,
     vin = [\<lparr>prevout = \<lparr>op_hash = 7, op_n = 0\<rparr>, scriptSig = [0x51], prevPubKey = [], nSequence = 0\<rparr>],
     vout = [\<lparr>nValue = 500000000, nRounds = -10, scriptPubKey = [0x51]\<rparr>],
     nLockTime = 200, nDoS = 0\<rparr>"

lemmas check_defs = CheckTransaction_def DoS_def IsCoinBase_def IsCoinStake_def COutPoint_IsNull_def
  CTxOut_IsEmpty_def MoneyRange_def MAX_MONEY_def COIN_def size_CTransaction_def size_CTxIn_def
  size_CTxOut_def size_vector_def size_bytes_def GetSizeOfCompactSize_def MAX_BLOCK_SIZE_def

lemma sample_tx_accepted: "CheckTransaction sample_tx = (True, sample_tx)"
  by (simp add: sample_tx_def check_defs)

subsection \<open>Properties\<close>

text \<open>
  C29. Transactions have one encoding: \<open>Unserialize\<close> reads back every representable transaction
  that \<open>Serialize\<close> wrote, and accepts nothing else; \<open>GetSerializeSize\<close> is the number of bytes
  written.
\<close>

theorem CTransaction_serialization:
  "(unser_CTransaction s = Some (tx, t) \<longleftrightarrow> wf_CTransaction tx \<and> s = ser_CTransaction tx @ t)
   \<and> size_CTransaction tx = of_nat (length (ser_CTransaction tx))"
  by (simp add: transaction.Unser_iff size_CTransaction_length)

text \<open>
  C13. What \<open>CheckTransaction\<close> accepts, in full: inputs and outputs, the size limit, no negative
  output and a total within the money range (no intermediate sum can overflow), no empty output
  outside coinbase and coinstake, no outpoint spent twice, the coinbase script length, and no
  null outpoint otherwise. It changes nothing but the misbehaviour score, by 0, 10 or 100, and
  not that either when it accepts.
\<close>

theorem CheckTransaction_iff:
  "(fst (CheckTransaction tx) \<longleftrightarrow>
      vin tx \<noteq> [] \<and> vout tx \<noteq> [] \<and> size_CTransaction tx \<le> MAX_BLOCK_SIZE
      \<and> list_all (\<lambda>o'. 0 \<le> nValue o' \<and> (CTxOut_IsEmpty o' \<longrightarrow> IsCoinBase tx \<or> IsCoinStake tx)) (vout tx)
      \<and> sum_list (map nValue (vout tx)) \<le> MAX_MONEY
      \<and> distinct (map prevout (vin tx))
      \<and> (if IsCoinBase tx
         then 2 \<le> length (scriptSig (vin tx ! 0)) \<and> length (scriptSig (vin tx ! 0)) \<le> 100
         else list_all (\<lambda>txin. \<not> COutPoint_IsNull (prevout txin)) (vin tx)))
   \<and> (\<exists>d \<in> {0, 10, 100}. snd (CheckTransaction tx) = tx\<lparr>nDoS := nDoS tx + d\<rparr>
        \<and> (fst (CheckTransaction tx) \<longrightarrow> d = 0))"
proof (rule conjI)
  show "fst (CheckTransaction tx) \<longleftrightarrow>
      vin tx \<noteq> [] \<and> vout tx \<noteq> [] \<and> size_CTransaction tx \<le> MAX_BLOCK_SIZE
      \<and> list_all (\<lambda>o'. 0 \<le> nValue o' \<and> (CTxOut_IsEmpty o' \<longrightarrow> IsCoinBase tx \<or> IsCoinStake tx)) (vout tx)
      \<and> sum_list (map nValue (vout tx)) \<le> MAX_MONEY
      \<and> distinct (map prevout (vin tx))
      \<and> (if IsCoinBase tx
         then 2 \<le> length (scriptSig (vin tx ! 0)) \<and> length (scriptSig (vin tx ! 0)) \<le> 100
         else list_all (\<lambda>txin. \<not> COutPoint_IsNull (prevout txin)) (vin tx))"
  proof -
    have "list_all (\<lambda>o'. \<not> (CTxOut_IsEmpty o' \<and> \<not> IsCoinBase tx \<and> \<not> IsCoinStake tx) \<and> 0 \<le> nValue o') outs
      \<longleftrightarrow> list_all (\<lambda>o'. 0 \<le> nValue o' \<and> (CTxOut_IsEmpty o' \<longrightarrow> IsCoinBase tx \<or> IsCoinStake tx)) outs" for outs
      by (rule list_all_cong) auto
    then show ?thesis
      by (simp add: CheckTransaction_fst check_outputs_None duplicate_inputs_iff cong: conj_cong)
  qed
  show "\<exists>d \<in> {0, 10, 100}. snd (CheckTransaction tx) = tx\<lparr>nDoS := nDoS tx + d\<rparr>
        \<and> (fst (CheckTransaction tx) \<longrightarrow> d = 0)"
  proof -
    have "CheckTransaction tx \<in> {(True, tx), (False, tx), DoS 10 False tx, DoS 100 False tx}"
      unfolding CheckTransaction_def by (intro if_in_set) (auto split: option.split dest: check_outputs_score)
    then show ?thesis by (auto simp: DoS_def)
  qed
qed

theorem CheckTransaction_iff_witness:
  "sum_list (map nValue (vout sample_tx)) \<le> MAX_MONEY \<and> distinct (map prevout (vin sample_tx))"
  using CheckTransaction_iff [of sample_tx] sample_tx_accepted by simp

text \<open>
  After \<open>CheckTransaction\<close> accepted, \<open>GetValueOut\<close> does not throw: it returns the exact sum of
  the outputs, within the money range.
\<close>

theorem CheckTransaction_value:
  assumes "fst (CheckTransaction tx)"
  shows "GetValueOut tx = Some (sum_list (map nValue (vout tx)))
    \<and> MoneyRange (sum_list (map nValue (vout tx)))"
proof -
  have ok: "check_outputs tx 0 (vout tx) = None" "vout tx \<noteq> []"
    using assms by (simp_all add: CheckTransaction_fst)
  then have "list_all (\<lambda>o'. 0 \<le> nValue o') (vout tx)"
    by (auto simp: check_outputs_None list_all_iff)
  then have "0 \<le> sum_list (map nValue (vout tx))" by (intro sum_list_nonneg) (auto simp: list_all_iff)
  then show ?thesis using ok check_outputs_GetValueOut [OF ok(1)]
    by (simp add: GetValueOut_def check_outputs_None MoneyRange_def)
qed

theorem CheckTransaction_value_witness:
  "GetValueOut sample_tx = Some 500000000 \<and> MoneyRange 500000000"
  using CheckTransaction_value [of sample_tx] by (simp add: sample_tx_accepted) (simp add: sample_tx_def)

text \<open>
  Finality is monotone: a transaction that is final at a block height and time stays final at
  every later height and time.
\<close>

theorem IsFinalTx_monotone:
  assumes "IsFinalTx best now tx h t" "0 < h" "h \<le> h'" "0 < t" "t \<le> t'"
  shows "IsFinalTx best' now' tx h' t'"
  using assms by (auto simp: IsFinalTx_def Let_def split: if_splits)

theorem IsFinalTx_monotone_witness:
  "IsFinalTx 9 9 sample_tx 300 5 \<and> \<not> IsFinalTx 9 9 sample_tx 200 4"
  using IsFinalTx_monotone [of 0 0 sample_tx 201 4 300 5 9 9]
  by (simp add: IsFinalTx_def sample_tx_def LOCKTIME_THRESHOLD_def CTxIn_IsFinal_def)

text \<open>
  The minimal fee is 1000 per started kilobyte in every mode and for all outputs: the rule
  that raises it for outputs below a cent and the clamp to the money range never apply.
\<close>

theorem GetMinFee_value:
  "GetMinFee tx nBytes mode = (1 + uint nBytes div 1000) * 1000 \<and> MoneyRange (GetMinFee tx nBytes mode)"
proof -
  define k where "k = uint nBytes div 1000"
  have "uint nBytes < 2 ^ 32" using uint_bounded [of nBytes] by simp
  moreover have "0 \<le> uint nBytes" by simp
  ultimately have "0 \<le> k" "k < 4294968" unfolding k_def by (simp_all add: pos_imp_zdiv_nonneg_iff)
  then show ?thesis unfolding GetMinFee_def k_def [symmetric]
    by (auto simp: Let_def MIN_TX_FEE_def MIN_RELAY_TX_FEE_def MoneyRange_def MAX_MONEY_def COIN_def)
qed

end
