(* ===== verification/Sig_Hash.thy ===== *)
theory Sig_Hash imports Script_Sig Transaction begin

text \<open>
  Signature hashes and signature checks of \<open>src/src/script.cpp\<close>: \<open>SignatureHash\<close>, \<open>CheckSig\<close>
  with its cache of valid signatures, and \<open>SignatureChecker::CheckSig\<close>. The double SHA-256 that
  \<open>CHashWriter\<close> computes with OpenSSL and the verification of an ECDSA signature are parameters.
\<close>

unbundle bit_operations_syntax

subsection \<open>\<open>SignatureHash\<close>\<close>

definition set_sequence_others :: "nat \<Rightarrow> CTxIn list \<Rightarrow> CTxIn list" where
  "set_sequence_others nIn ins =
     map (\<lambda>i. if i \<noteq> nIn then (ins ! i)\<lparr>nSequence := 0\<rparr> else ins ! i) [0..<length ins]"

text \<open>\<open>vout.resize\<close>: cut to the length, or fill with default objects.\<close>

definition resize_vout :: "nat \<Rightarrow> CTxOut list \<Rightarrow> CTxOut list" where
  "resize_vout n outs = take n outs @ replicate (n - length outs) CTxOut_SetNull"

text \<open>
  The copy of the transaction that is hashed; \<open>None\<close> stands for the two error exits, which
  return the constant 1.
\<close>

definition sighash_tx :: "script \<Rightarrow> CTransaction \<Rightarrow> nat \<Rightarrow> u32 \<Rightarrow> CTransaction option" where
  "sighash_tx scriptCode txTo nIn nHashType =
     (if nIn \<ge> length (vin txTo) then None
      else
        let scriptCode = fst (FindAndDelete scriptCode [of_nat OP_CODESEPARATOR]);
            ins = map (\<lambda>txin. txin\<lparr>scriptSig := []\<rparr>) (vin txTo);
            txTmp = txTo\<lparr>vin := ins[nIn := (ins ! nIn)\<lparr>scriptSig := scriptCode\<rparr>]\<rparr>;
            finish = (\<lambda>txTmp. if nHashType AND SIGHASH_ANYONECANPAY \<noteq> 0
                              then txTmp\<lparr>vin := [vin txTmp ! nIn]\<rparr> else txTmp)
        in if nHashType AND 0x1f = SIGHASH_NONE then
             Some (finish (txTmp\<lparr>vout := [], vin := set_sequence_others nIn (vin txTmp)\<rparr>))
           else if nHashType AND 0x1f = SIGHASH_SINGLE then
             (if nIn \<ge> length (vout txTmp) then None
              else Some (finish (txTmp\<lparr>
                vout := map (\<lambda>i. if i < nIn then CTxOut_SetNull else resize_vout (nIn + 1) (vout txTmp) ! i) [0..<nIn + 1],
                vin := set_sequence_others nIn (vin txTmp)\<rparr>)))
           else Some (finish txTmp))"

definition sighash_preimage :: "script \<Rightarrow> CTransaction \<Rightarrow> nat \<Rightarrow> u32 \<Rightarrow> bytes option" where
  "sighash_preimage scriptCode txTo nIn nHashType =
     map_option (\<lambda>txTmp. ser_CTransaction txTmp @ WRITEDATA 4 nHashType)
       (sighash_tx scriptCode txTo nIn nHashType)"

definition SignatureHash ::
  "(bytes \<Rightarrow> uint256) \<Rightarrow> script \<Rightarrow> CTransaction \<Rightarrow> nat \<Rightarrow> u32 \<Rightarrow> uint256" where
  "SignatureHash hash scriptCode txTo nIn nHashType =
     (case sighash_preimage scriptCode txTo nIn nHashType of None \<Rightarrow> 1 | Some m \<Rightarrow> hash m)"

subsection \<open>The signature cache\<close>

text \<open>
  Entries are (hash, signature, public key); the set is kept as the list of its elements in the
  order of \<open>std::set\<close>. \<open>GetRandHash\<close> is a parameter: the random numbers that successive
  evictions draw.
\<close>

type_synonym sigdata = "uint256 \<times> bytes \<times> bytes"

fun lex_less :: "bytes \<Rightarrow> bytes \<Rightarrow> bool" where
  "lex_less xs [] = False"
| "lex_less [] (y # ys) = True"
| "lex_less (x # xs) (y # ys) = (x < y \<or> (x = y \<and> lex_less xs ys))"

text \<open>An invalid key compares like the single byte \<open>0xFF\<close>.\<close>

definition pubkey_vch :: "bytes \<Rightarrow> bytes" where
  "pubkey_vch k = (if k = [] then [0xFF] else k)"

definition sigdata_less :: "sigdata \<Rightarrow> sigdata \<Rightarrow> bool" where
  "sigdata_less a b = (case (a, b) of ((h, s, k), (h', s', k')) \<Rightarrow>
     h < h' \<or> (h = h' \<and> (lex_less s s' \<or> (s = s' \<and> lex_less (pubkey_vch k) (pubkey_vch k')))))"

record sig_cache =
  setValid :: "sigdata list"
  evictions :: nat

definition sigcache_Get :: "sig_cache \<Rightarrow> sigdata \<Rightarrow> bool" where
  "sigcache_Get c k \<longleftrightarrow> k \<in> set (setValid c)"

fun insert_sigdata :: "sigdata \<Rightarrow> sigdata list \<Rightarrow> sigdata list" where
  "insert_sigdata k [] = [k]"
| "insert_sigdata k (x # xs) =
     (if k = x then x # xs else if sigdata_less k x then k # x # xs else x # insert_sigdata k xs)"

text \<open>One turn of the eviction loop: the first entry not below the random key, else the first.\<close>

definition evict_one :: "(nat \<Rightarrow> uint256) \<Rightarrow> sig_cache \<Rightarrow> sig_cache" where
  "evict_one GetRandHash c =
     (let key = (GetRandHash (evictions c), [], []);
          it = (case find (\<lambda>e. \<not> sigdata_less e key) (setValid c) of
                  Some e \<Rightarrow> e | None \<Rightarrow> hd (setValid c))
      in \<lparr>setValid = remove1 it (setValid c), evictions = evictions c + 1\<rparr>)"

lemma evict_one_length:
  assumes "setValid c \<noteq> []" shows "length (setValid (evict_one rnd c)) < length (setValid c)"
proof -
  let ?P = "\<lambda>e. \<not> sigdata_less e (rnd (evictions c), [], [])"
  have "e \<in> set (setValid c)" if "find ?P (setValid c) = Some e" for e
    using that unfolding find_Some_iff by auto
  then have "(case find ?P (setValid c) of Some e \<Rightarrow> e | None \<Rightarrow> hd (setValid c)) \<in> set (setValid c)"
    using assms by (auto split: option.split)
  then show ?thesis using assms by (simp add: evict_one_def Let_def length_remove1)
qed

function evict_loop :: "(nat \<Rightarrow> uint256) \<Rightarrow> int \<Rightarrow> sig_cache \<Rightarrow> sig_cache" where
  "evict_loop GetRandHash nMaxCacheSize c =
     (if nMaxCacheSize > 0 \<and> int (length (setValid c)) > nMaxCacheSize
      then evict_loop GetRandHash nMaxCacheSize (evict_one GetRandHash c) else c)"
  by pat_completeness auto
termination
  by (relation "measure (\<lambda>(_, _, c). length (setValid c))") (auto intro!: evict_one_length)

declare evict_loop.simps [simp del]

definition sigcache_Set :: "(nat \<Rightarrow> uint256) \<Rightarrow> int \<Rightarrow> sig_cache \<Rightarrow> sigdata \<Rightarrow> sig_cache" where
  "sigcache_Set GetRandHash nMaxCacheSize c k =
     (if nMaxCacheSize \<le> 0 then c
      else let c' = evict_loop GetRandHash nMaxCacheSize c
           in c'\<lparr>setValid := insert_sigdata k (setValid c')\<rparr>)"

subsection \<open>Checking a signature\<close>

text \<open>What the checks take from outside: hash, ECDSA verification, random numbers, cache size.\<close>

record sig_env =
  tx_hash :: "bytes \<Rightarrow> uint256"
  ecdsa_verify :: "bytes \<Rightarrow> uint256 \<Rightarrow> bytes \<Rightarrow> bool"
  rand_hash :: "nat \<Rightarrow> uint256"
  max_cache :: int

definition SignatureChecker_CheckSig ::
  "sig_env \<Rightarrow> CTransaction \<Rightarrow> nat \<Rightarrow> valtype \<Rightarrow> valtype \<Rightarrow> script \<Rightarrow> bool" where
  "SignatureChecker_CheckSig E txTo nIn vchSigIn vchPubKey scriptCode =
     (case CPubKey_Set vchPubKey of
        None \<Rightarrow> False
      | Some pubkey \<Rightarrow>
          if vchSigIn = [] then False
          else let nHashType = ucast (last vchSigIn);
                   sighash = SignatureHash (tx_hash E) scriptCode txTo nIn nHashType
               in ecdsa_verify E pubkey sighash (butlast vchSigIn))"

text \<open>\<open>CheckSig\<close>, with the function-static cache as state.\<close>

definition CheckSig ::
  "sig_env \<Rightarrow> sig_cache \<Rightarrow> valtype \<Rightarrow> valtype \<Rightarrow> script \<Rightarrow> CTransaction \<Rightarrow> nat \<Rightarrow> u32 \<Rightarrow> verify_flags
     \<Rightarrow> bool \<times> sig_cache" where
  "CheckSig E cache vchSig vchPubKey scriptCode txTo nIn nHashType flags =
     (case CPubKey_Set vchPubKey of
        None \<Rightarrow> (False, cache)
      | Some pubkey \<Rightarrow>
          if vchSig = [] then (False, cache)
          else if nHashType \<noteq> 0 \<and> nHashType \<noteq> ucast (last vchSig) then (False, cache)
          else let nHashType = (if nHashType = 0 then ucast (last vchSig) else nHashType);
                   vchSig = butlast vchSig;
                   sighash = SignatureHash (tx_hash E) scriptCode txTo nIn nHashType
               in if sigcache_Get cache (sighash, vchSig, pubkey) then (True, cache)
                  else if \<not> ecdsa_verify E pubkey sighash vchSig then (False, cache)
                  else (True, if \<not> has_flag flags SCRIPT_VERIFY_NOCACHE
                              then sigcache_Set (rand_hash E) (max_cache E) cache (sighash, vchSig, pubkey)
                              else cache))"

subsection \<open>The cache only remembers\<close>

text \<open>
  What \<open>CheckSig\<close> relies on: a lookup after storing a key finds that key or one that was there.
  Everything stored being valid is then kept, so the answers do not depend on the cache.
\<close>

locale positive_cache =
  fixes lookup :: "'c \<Rightarrow> 'k \<Rightarrow> bool" and store :: "'c \<Rightarrow> 'k \<Rightarrow> 'c"
  assumes lookup_store: "lookup (store c k) k' \<Longrightarrow> k' = k \<or> lookup c k'"
begin

lemma store_valid:
  "(\<And>k'. lookup c k' \<Longrightarrow> valid k') \<Longrightarrow> valid k \<Longrightarrow> lookup (store c k) k' \<Longrightarrow> valid k'"
  using lookup_store by blast

end

lemma evict_one_subset: "set (setValid (evict_one rnd c)) \<subseteq> set (setValid c)"
  by (simp add: evict_one_def Let_def set_remove1_subset)

lemma evict_loop_props:
  assumes "0 < m"
  shows "set (setValid (evict_loop rnd m c)) \<subseteq> set (setValid c)
    \<and> int (length (setValid (evict_loop rnd m c))) \<le> m"
  using assms
proof (induction rnd m c rule: evict_loop.induct)
  case (1 rnd m c)
  then show ?case
    using evict_one_subset [of rnd c] by (subst (1 2) evict_loop.simps) auto
qed

lemma set_insert_sigdata: "set (insert_sigdata k xs) = insert k (set xs)"
  by (induction xs) auto

lemma length_insert_sigdata: "length (insert_sigdata k xs) \<le> length xs + 1"
  by (induction xs) auto

interpretation sigcache: positive_cache sigcache_Get "sigcache_Set rnd m" for rnd m
proof
  fix c k k' assume g: "sigcache_Get (sigcache_Set rnd m c k) k'"
  show "k' = k \<or> sigcache_Get c k'"
  proof (cases "0 < m")
    case True
    then show ?thesis using g evict_loop_props [OF True, of rnd c]
      by (auto simp: sigcache_Get_def sigcache_Set_def Let_def set_insert_sigdata)
  qed (use g in \<open>simp add: sigcache_Set_def\<close>)
qed

lemma sigcache_Set_length:
  "int (length (setValid (sigcache_Set rnd m c k))) \<le> max (int (length (setValid c))) (m + 1)"
proof (cases "0 < m")
  case True
  let ?c' = "evict_loop rnd m c"
  have "int (length (setValid ?c')) \<le> m" using evict_loop_props [OF True] by blast
  then show ?thesis using length_insert_sigdata [of k "setValid ?c'"] True
    by (simp add: sigcache_Set_def Let_def)
qed (simp add: sigcache_Set_def)

definition cache_sound :: "sig_env \<Rightarrow> sig_cache \<Rightarrow> bool" where
  "cache_sound E c \<longleftrightarrow> (\<forall>h s k. sigcache_Get c (h, s, k) \<longrightarrow> ecdsa_verify E k h s)"

lemma cache_sound_store:
  "cache_sound E c \<Longrightarrow> ecdsa_verify E k h s \<Longrightarrow> cache_sound E (sigcache_Set rnd m c (h, s, k))"
  unfolding cache_sound_def using sigcache.store_valid [of c "\<lambda>(h, s, k). ecdsa_verify E k h s" "(h, s, k)" rnd m]
  by fastforce

subsection \<open>What a signature commits to\<close>

definition anyone_can_pay :: "u32 \<Rightarrow> bool" where
  "anyone_can_pay ht \<longleftrightarrow> ht AND SIGHASH_ANYONECANPAY \<noteq> 0"

definition signs_all :: "u32 \<Rightarrow> bool" where
  "signs_all ht \<longleftrightarrow> ht AND 0x1f \<noteq> SIGHASH_NONE \<and> ht AND 0x1f \<noteq> SIGHASH_SINGLE"

text \<open>The part of a transaction that the signature of input \<open>nIn\<close> covers.\<close>

definition signed_input :: "CTransaction \<Rightarrow> nat \<Rightarrow> u32 \<Rightarrow> nat \<Rightarrow> COutPoint \<times> u32" where
  "signed_input tx nIn ht i =
     (prevout (vin tx ! i), if i = nIn \<or> signs_all ht then nSequence (vin tx ! i) else 0)"

definition signed_inputs :: "CTransaction \<Rightarrow> nat \<Rightarrow> u32 \<Rightarrow> (COutPoint \<times> u32) list" where
  "signed_inputs tx nIn ht =
     (if anyone_can_pay ht then [signed_input tx nIn ht nIn]
      else map (signed_input tx nIn ht) [0..<length (vin tx)])"

definition signed_outputs :: "CTransaction \<Rightarrow> nat \<Rightarrow> u32 \<Rightarrow> CTxOut list" where
  "signed_outputs tx nIn ht =
     (if signs_all ht then vout tx
      else if ht AND 0x1f = SIGHASH_NONE then [] else [vout tx ! nIn])"

definition signed_view where
  "signed_view scriptCode tx nIn ht =
     (nVersion tx, nTime tx, nLockTime tx, signed_inputs tx nIn ht, signed_outputs tx nIn ht,
      fst (FindAndDelete scriptCode [of_nat OP_CODESEPARATOR]))"

text \<open>The inputs and outputs of the hashed copy, from the view alone.\<close>

definition view_inputs :: "bool \<Rightarrow> nat \<Rightarrow> script \<Rightarrow> (COutPoint \<times> u32) list \<Rightarrow> CTxIn list" where
  "view_inputs acp nIn code ins =
     map (\<lambda>i. \<lparr>prevout = fst (ins ! i), scriptSig = (if acp \<or> i = nIn then code else []),
        prevPubKey = [], nSequence = snd (ins ! i)\<rparr>) [0..<length ins]"

definition view_outputs :: "u32 \<Rightarrow> nat \<Rightarrow> CTxOut list \<Rightarrow> CTxOut list" where
  "view_outputs ht nIn outs =
     (if ht AND 0x1f = SIGHASH_SINGLE then replicate nIn CTxOut_SetNull @ outs else outs)"

lemma view_inputs_inject:
  assumes "view_inputs acp nIn c ins = view_inputs acp nIn c' ins'"
    and "nIn < length ins \<or> acp \<and> length ins = 1"
  shows "ins = ins' \<and> c = c'"
proof -
  have len: "length ins = length ins'" using arg_cong [OF assms(1), of length] by (simp add: view_inputs_def)
  have nth: "view_inputs acp nIn c ins ! i = view_inputs acp nIn c' ins' ! i" for i
    using assms(1) by simp
  have "ins ! i = ins' ! i" if "i < length ins" for i
    using nth [of i] that len by (simp add: view_inputs_def prod_eq_iff)
  moreover have "c = c'"
    using assms(2) nth [of nIn] nth [of 0] len by (auto simp: view_inputs_def)
  ultimately show ?thesis using len by (simp add: list_eq_iff_nth_eq)
qed

lemma blanked_inputs:
  assumes "nIn < length ins" "list_all (\<lambda>i. prevPubKey i = []) ins"
  shows "(map (\<lambda>txin. txin\<lparr>scriptSig := []\<rparr>) ins)[nIn := (ins ! nIn)\<lparr>scriptSig := code\<rparr>]
    = view_inputs False nIn code (map (\<lambda>i. (prevout (ins ! i), nSequence (ins ! i))) [0..<length ins])"
  using assms
  by (auto simp: view_inputs_def list_all_length nth_list_update intro!: nth_equalityI)

lemma set_sequence_view:
  "set_sequence_others nIn (view_inputs False nIn code (map (\<lambda>i. (p i, q i)) [0..<n])) =
   view_inputs False nIn code (map (\<lambda>i. (p i, if i = nIn then q i else 0)) [0..<n])"
  by (auto simp: view_inputs_def set_sequence_others_def intro!: nth_equalityI)

lemma view_inputs_single:
  "nIn < length ins \<Longrightarrow> [view_inputs False nIn code ins ! nIn] = view_inputs True nIn code [ins ! nIn]"
  by (simp add: view_inputs_def)

lemma resized_outputs:
  assumes "nIn < length outs"
  shows "map (\<lambda>i. if i < nIn then CTxOut_SetNull else resize_vout (nIn + 1) outs ! i) [0..<Suc nIn]
    = replicate nIn CTxOut_SetNull @ [outs ! nIn]"
  using assms by (auto simp: resize_vout_def nth_append intro!: nth_equalityI)

lemma sighash_tx_view:
  assumes "nIn < length (vin tx)" "list_all (\<lambda>i. prevPubKey i = []) (vin tx)"
    and "ht AND 0x1f = SIGHASH_SINGLE \<Longrightarrow> nIn < length (vout tx)"
  shows "sighash_tx scriptCode tx nIn ht =
    Some \<lparr>nVersion = nVersion tx, nTime = nTime tx,
      vin = view_inputs (anyone_can_pay ht) nIn (fst (FindAndDelete scriptCode [of_nat OP_CODESEPARATOR]))
        (signed_inputs tx nIn ht),
      vout = view_outputs ht nIn (signed_outputs tx nIn ht), nLockTime = nLockTime tx, nDoS = nDoS tx\<rparr>"
proof -
  define c where "c = fst (FindAndDelete scriptCode [of_nat OP_CODESEPARATOR])"
  note b = blanked_inputs [OF assms(1,2), of c]
  show ?thesis
    unfolding sighash_tx_def Let_def c_def [symmetric]
    using assms(1,3) resized_outputs [of nIn "vout tx"]
    by (simp add: b set_sequence_view signed_inputs_def signed_outputs_def view_outputs_def signs_all_def
        signed_input_def [abs_def] anyone_can_pay_def view_inputs_single del: upt_Suc cong: if_cong)
      (meson assms(3) leD)
qed

lemma codeseparator_instr: "is_instr [of_nat OP_CODESEPARATOR]"
  by (simp add: is_instr_def GetOp2_def)

lemma FindAndDelete_small:
  assumes "small s" shows "small (fst (FindAndDelete s [of_nat OP_CODESEPARATOR]))"
proof -
  have "length (concat (filter P xs)) \<le> length (concat xs)" for P and xs :: "bytes list"
    by (induction xs) auto
  from this [of "\<lambda>i. i \<noteq> [of_nat OP_CODESEPARATOR]" "fst (instrs s)"]
  have "length (fst (FindAndDelete s [of_nat OP_CODESEPARATOR])) \<le> length (concat (fst (instrs s)) @ snd (instrs s))"
    unfolding FindAndDelete_instrs [OF codeseparator_instr] fst_conv by simp
  then show ?thesis using assms instrs_concat [of s] by (simp add: small_def)
qed

lemma wf_view:
  assumes "wf_CTransaction tx" "small code" "nIn < length (vin tx)"
    "ht AND 0x1f = SIGHASH_SINGLE \<Longrightarrow> nIn < length (vout tx)"
  shows "wf_CTransaction \<lparr>nVersion = nVersion tx, nTime = nTime tx,
      vin = view_inputs (anyone_can_pay ht) nIn code (signed_inputs tx nIn ht),
      vout = view_outputs ht nIn (signed_outputs tx nIn ht), nLockTime = nLockTime tx, nDoS = nDoS tx\<rparr>"
  using assms
  by (auto simp: wf_CTransaction_def wf_CTxIn_def wf_CTxOut_def view_inputs_def view_outputs_def
      signed_inputs_def signed_outputs_def signs_all_def small_def MAX_SIZE_def list_all_iff
      CTxOut_SetNull_def int64_def)

subsection \<open>Properties\<close>

text \<open>
  C14. A signature commits to exactly the signed view: for two signings of the same input position
  and hash type, the hashed messages coincide if and only if version, time, lock time, the
  script code without code separators, the covered inputs (all or only its own, sequence numbers
  as the hash type says) and the covered outputs (all, none or its own) coincide.
\<close>

theorem SignatureHash_commits:
  assumes "wf_CTransaction tx" "wf_CTransaction tx'" "small code" "small code'"
    and "nIn < length (vin tx)" "nIn < length (vin tx')"
    and "ht AND 0x1f = SIGHASH_SINGLE \<Longrightarrow> nIn < length (vout tx) \<and> nIn < length (vout tx')"
  shows "sighash_preimage code tx nIn ht = sighash_preimage code' tx' nIn ht
    \<longleftrightarrow> signed_view code tx nIn ht = signed_view code' tx' nIn ht"
proof -
  let ?T = "\<lambda>c t. \<lparr>nVersion = nVersion t, nTime = nTime t,
      vin = view_inputs (anyone_can_pay ht) nIn c (signed_inputs t nIn ht),
      vout = view_outputs ht nIn (signed_outputs t nIn ht), nLockTime = nLockTime t, nDoS = nDoS t\<rparr>"
  define c c' where "c = fst (FindAndDelete code [of_nat OP_CODESEPARATOR])"
    and "c' = fst (FindAndDelete code' [of_nat OP_CODESEPARATOR])"
  have wf: "wf_CTransaction (?T c tx)" "wf_CTransaction (?T c' tx')"
    using assms FindAndDelete_small unfolding c_def c'_def by (intro wf_view; simp)+
  have pub: "list_all (\<lambda>i. prevPubKey i = []) (vin t)" if "wf_CTransaction t" for t
    using that by (auto simp: wf_CTransaction_def wf_CTxIn_def list_all_iff)
  have pre: "sighash_preimage code tx nIn ht = Some (ser_CTransaction (?T c tx) @ WRITEDATA 4 ht)"
    "sighash_preimage code' tx' nIn ht = Some (ser_CTransaction (?T c' tx') @ WRITEDATA 4 ht)"
    unfolding sighash_preimage_def c_def c'_def using assms pub by (simp_all add: sighash_tx_view)
  have "sighash_preimage code tx nIn ht = sighash_preimage code' tx' nIn ht \<longleftrightarrow> ?T c tx = ?T c' tx'"
    unfolding pre option.inject
    by (rule iffI, drule transaction.prefix_free [OF wf], erule conjunct1, simp only:)
  also have "\<dots> \<longleftrightarrow> signed_view code tx nIn ht = signed_view code' tx' nIn ht"
  proof
    assume eq: "?T c tx = ?T c' tx'"
    have "signed_inputs tx nIn ht = signed_inputs tx' nIn ht \<and> c = c'"
      by (rule view_inputs_inject [of "anyone_can_pay ht" nIn]) (use eq assms in \<open>auto simp: signed_inputs_def\<close>)
    moreover have "signed_outputs tx nIn ht = signed_outputs tx' nIn ht"
      using eq by (simp add: view_outputs_def split: if_splits)
    ultimately show "signed_view code tx nIn ht = signed_view code' tx' nIn ht"
      using eq by (simp add: signed_view_def c_def c'_def)
  next
    assume "signed_view code tx nIn ht = signed_view code' tx' nIn ht"
    moreover have "nDoS tx = nDoS tx'" using assms by (simp add: wf_CTransaction_def)
    ultimately show "?T c tx = ?T c' tx'" by (simp add: signed_view_def c_def c'_def)
  qed
  finally show ?thesis .
qed

text \<open>
  The witness signs with \<open>SIGHASH_NONE\<close>: another output value makes no difference; with
  \<open>SIGHASH_ALL\<close> it does.
\<close>

theorem SignatureHash_commits_witness:
  "sighash_preimage [0x51] sample_tx 0 2 =
     sighash_preimage [0xab, 0x51] (sample_tx\<lparr>vout := [\<lparr>nValue = 7, nRounds = -10, scriptPubKey = []\<rparr>]\<rparr>) 0 2
   \<and> sighash_preimage [0x51] sample_tx 0 1 \<noteq>
     sighash_preimage [0xab, 0x51] (sample_tx\<lparr>vout := [\<lparr>nValue = 7, nRounds = -10, scriptPubKey = []\<rparr>]\<rparr>) 0 1"
proof -
  let ?tx' = "sample_tx\<lparr>vout := [\<lparr>nValue = 7, nRounds = -10, scriptPubKey = []\<rparr>]\<rparr>"
  have wf: "wf_CTransaction sample_tx" "wf_CTransaction ?tx'"
    by (simp_all add: sample_tx_def wf_CTransaction_def wf_CTxIn_def wf_CTxOut_def small_def MAX_SIZE_def
        int32_def int64_def)
  have code: "small [0x51 :: byte]" "small [0xab, 0x51 :: byte]" by (simp_all add: small_def MAX_SIZE_def)
  have same: "fst (FindAndDelete [0x51] [0xab]) = fst (FindAndDelete [0xab, 0x51] [0xab])" by code_simp
  show ?thesis
    using SignatureHash_commits [OF wf code, of 0 2] SignatureHash_commits [OF wf code, of 0 1] same
    by (simp add: sample_tx_def signed_view_def signed_inputs_def signed_outputs_def signed_input_def
        signs_all_def anyone_can_pay_def)
qed

text \<open>
  With \<open>SIGHASH_SINGLE\<close> and no output at the position of the input the hash is the constant 1,
  whatever the transaction: a signature of it can be reused on every such input.
\<close>

theorem SIGHASH_SINGLE_constant:
  assumes "ht AND 0x1f = SIGHASH_SINGLE" "length (vout tx) \<le> nIn"
  shows "SignatureHash hash code tx nIn ht = 1"
  using assms by (simp add: SignatureHash_def sighash_preimage_def sighash_tx_def Let_def)

theorem SIGHASH_SINGLE_constant_witness: 
  "SignatureHash (\<lambda>_. 5) [0x51] (sample_tx\<lparr>vin := vin sample_tx @ vin sample_tx\<rparr>) 1 3 = 1"
  by (rule SIGHASH_SINGLE_constant) (simp_all add: sample_tx_def)

lemma CheckSig_cached:
  assumes "cache_sound E c"
  shows "(fst (CheckSig E c vchSig pubkey code tx nIn ht flags) \<longleftrightarrow>
      (ht = 0 \<or> ht = ucast (last vchSig)) \<and> SignatureChecker_CheckSig E tx nIn vchSig pubkey code)
    \<and> cache_sound E (snd (CheckSig E c vchSig pubkey code tx nIn ht flags))
    \<and> int (length (setValid (snd (CheckSig E c vchSig pubkey code tx nIn ht flags))))
        \<le> max (int (length (setValid c))) (max_cache E + 1)"
proof (cases "CPubKey_Set pubkey")
  case None
  then show ?thesis using assms by (simp add: CheckSig_def SignatureChecker_CheckSig_def)
next
  case (Some k)
  define h where "h = SignatureHash (tx_hash E) code tx nIn (ucast (last vchSig))"
  have get: "sigcache_Get c (h, butlast vchSig, k) \<Longrightarrow> ecdsa_verify E k h (butlast vchSig)"
    using assms by (simp add: cache_sound_def)
  show ?thesis
  proof (cases "vchSig \<noteq> [] \<and> (ht = 0 \<or> ht = ucast (last vchSig))")
    case True
    then have "CheckSig E c vchSig pubkey code tx nIn ht flags =
      (if sigcache_Get c (h, butlast vchSig, k) then (True, c)
       else if \<not> ecdsa_verify E k h (butlast vchSig) then (False, c)
       else (True, if \<not> has_flag flags SCRIPT_VERIFY_NOCACHE
                   then sigcache_Set (rand_hash E) (max_cache E) c (h, butlast vchSig, k) else c))"
      using Some by (auto simp: CheckSig_def Let_def h_def)
    moreover have "SignatureChecker_CheckSig E tx nIn vchSig pubkey code = ecdsa_verify E k h (butlast vchSig)"
      using Some True by (simp add: SignatureChecker_CheckSig_def Let_def h_def)
    ultimately show ?thesis
      using True get assms cache_sound_store [OF assms] sigcache_Set_length by simp
  next
    case False
    then show ?thesis using Some assms by (auto simp: CheckSig_def SignatureChecker_CheckSig_def)
  qed
qed

text \<open>
  C31. The signature cache is transparent: while it only holds verified entries, \<open>CheckSig\<close> decides
  what a check without cache decides (for a hash type that is 0 or the one of the signature),
  adds verified entries only, and the cache never grows past its limit by more than one entry,
  whatever the eviction draws.
\<close>

theorem CheckSig_cache_transparent:
  assumes "cache_sound E c"
  shows "(fst (CheckSig E c vchSig pubkey code tx nIn ht flags) \<longleftrightarrow>
      (ht = 0 \<or> ht = ucast (last vchSig)) \<and> SignatureChecker_CheckSig E tx nIn vchSig pubkey code)
    \<and> cache_sound E (snd (CheckSig E c vchSig pubkey code tx nIn ht flags))
    \<and> int (length (setValid (snd (CheckSig E c vchSig pubkey code tx nIn ht flags))))
        \<le> max (int (length (setValid c))) (max_cache E + 1)"
  using assms by (rule CheckSig_cached)

theorem CheckSig_cache_transparent_witness:
  "fst (CheckSig \<lparr>tx_hash = (\<lambda>_. 5), ecdsa_verify = (\<lambda>k h s. h = 5 \<and> s = [9]), rand_hash = (\<lambda>_. 0), max_cache = 1\<rparr>
     \<lparr>setValid = [(5, [9], [7])], evictions = 0\<rparr> [9, 1] (2 # replicate 32 0) [0x51] sample_tx 0 0 0)"
proof -
  let ?E = "\<lparr>tx_hash = (\<lambda>_. 5), ecdsa_verify = (\<lambda>k h s. h = 5 \<and> s = [9]), rand_hash = (\<lambda>_. 0), max_cache = 1\<rparr>"
  have "cache_sound ?E \<lparr>setValid = [(5, [9], [7])], evictions = 0\<rparr>"
    by (simp add: cache_sound_def sigcache_Get_def)
  moreover have "sighash_preimage [0x51] sample_tx 0 1 \<noteq> None"
    by (simp add: sighash_preimage_def sighash_tx_def sample_tx_def Let_def)
  ultimately show ?thesis
    using CheckSig_cache_transparent [of ?E "\<lparr>setValid = [(5, [9], [7])], evictions = 0\<rparr>" "[9, 1]"
      "2 # replicate 32 0" "[0x51]" sample_tx 0 0 0]
    by (auto simp: SignatureChecker_CheckSig_def CPubKey_Set_def CPubKey_GetLen_def SignatureHash_def Let_def)
qed

end
