(* ===== verification/Script_Verify.thy ===== *)
theory Script_Verify imports Script_Limits Sig_Hash begin

text \<open>
  \<open>VerifyScript\<close> of \<open>src/src/script.cpp\<close> (the overload with a signature checker): an input script
  against an output script, with the pay-to-script-hash evaluation. The \<open>assert\<close> is a result of
  its own, which is shown not to occur.
\<close>

unbundle bit_operations_syntax

datatype verdict = Verified | Refused ScriptError | Aborted

definition VerifyScript_P2SH :: "eval_env \<Rightarrow> script \<Rightarrow> valtype list \<Rightarrow> verdict" where
  "VerifyScript_P2SH env sig_script stackCopy =
     (if \<not> IsPushOnly sig_script then Refused SCRIPT_ERR_SIG_PUSHONLY
      else case stackCopy of
        [] \<Rightarrow> Aborted
      | pubKeySerialized # stackCopy \<Rightarrow>
          (case EvalScript env stackCopy pubKeySerialized of
             Inl e \<Rightarrow> Refused e
           | Inr [] \<Rightarrow> Refused SCRIPT_ERR_EVAL_FALSE
           | Inr (res # _) \<Rightarrow>
               if \<not> CastToBool res then Refused SCRIPT_ERR_EVAL_FALSE else Verified))"

definition VerifyScript :: "eval_env \<Rightarrow> script \<Rightarrow> script \<Rightarrow> verdict" where
  "VerifyScript env sig_script pubkey_script =
     (let flags = env_flags env in
      if has_flag flags SCRIPT_VERIFY_SIGPUSHONLY \<and> \<not> IsPushOnly sig_script
      then Refused SCRIPT_ERR_SIG_PUSHONLY
      else case EvalScript env [] sig_script of
        Inl e \<Rightarrow> Refused e
      | Inr stk \<Rightarrow>
          let stackCopy = (if has_flag flags SCRIPT_VERIFY_P2SH then stk else []) in
          (case EvalScript env stk pubkey_script of
             Inl e \<Rightarrow> Refused e
           | Inr [] \<Rightarrow> Refused SCRIPT_ERR_EVAL_FALSE
           | Inr (res # _) \<Rightarrow>
               if \<not> CastToBool res then Refused SCRIPT_ERR_EVAL_FALSE
               else if has_flag flags SCRIPT_VERIFY_P2SH \<and> IsPayToScriptHash pubkey_script
               then VerifyScript_P2SH env sig_script stackCopy
               else Verified))"

text \<open>The environment of a \<open>SignatureChecker\<close> for one input of a transaction.\<close>

definition checker_env :: "sig_env \<Rightarrow> CTransaction \<Rightarrow> nat \<Rightarrow> verify_flags \<Rightarrow> (bytes \<Rightarrow> bool) \<Rightarrow> eval_env" where
  "checker_env E txTo nIn flags lowS =
     \<lparr>env_flags = flags, check_low_s = lowS, check_sig = SignatureChecker_CheckSig E txTo nIn\<rparr>"

subsection \<open>Pay-to-script-hash\<close>

text \<open>A pay-to-script-hash script fails on an empty stack: \<open>OP_HASH160\<close> has no operand.\<close>

lemma P2SH_empty_stack: "IsPayToScriptHash s \<Longrightarrow> EvalScript env [] s = Inl SCRIPT_ERR_INVALID_STACK_OPERATION"
proof -
  assume p: "IsPayToScriptHash s"
  then obtain b t where s: "s = b # t" "unat b = OP_HASH160" "length s = 23"
    by (cases s) (auto simp: IsPayToScriptHash_def)
  then have "GetOp2 s = (True, OP_HASH160, [], t)" by (simp add: GetOp2_def)
  then have "eval_step env (initial_state [] s) = Inl SCRIPT_ERR_INVALID_STACK_OPERATION"
    by (simp add: eval_step_def initial_state_def Let_def MAX_SCRIPT_ELEMENT_SIZE_def disabled_opcodes_def
        exec_op_def exec_hash_def)
  then show ?thesis using s by (simp add: EvalScript_def eval_loop.simps initial_state_def)
qed

lemma VerifyScript_not_aborted: "VerifyScript env sig_script pubkey_script \<noteq> Aborted"
  using P2SH_empty_stack [of pubkey_script env]
  by (auto simp: VerifyScript_def VerifyScript_P2SH_def Let_def split: sum.splits list.splits)

subsection \<open>Stepping through a script\<close>

lemma eval_loop_step:
  "pc st \<noteq> [] \<Longrightarrow> eval_step env st = Inr st' \<Longrightarrow> eval_loop env st = eval_loop env st'"
  "pc st \<noteq> [] \<Longrightarrow> eval_step env st = Inl e \<Longrightarrow> eval_loop env st = Inl e"
  by (simp_all add: eval_loop.simps [of env st])

lemma eval_step_push:
  assumes "pc st = push_data d @ rest" "False \<notin> set (vfExec st)" "2 \<le> length d" "length d \<le> 75"
    "length (stack st) + length (altstack st) < 1000"
  shows "eval_step env st = Inr (st\<lparr>pc := rest, stack := d # stack st\<rparr>)"
proof -
  have op: "push_opcode_of d = length d" using assms(4) by (simp add: push_opcode_of_def)
  have g: "GetOp2 (pc st) = (True, length d, d, rest)"
    using GetOp2_push_data [of d rest] assms(1,4) op by simp
  have "CheckMinimalPush d (length d)" using assms(3,4) by (auto simp: CheckMinimalPush_def)
  then show ?thesis
    using assms(2-5) unfolding eval_step_def g
    by (auto simp: Let_def MAX_SCRIPT_ELEMENT_SIZE_def disabled_opcodes_def)
qed

lemma eval_step_op:
  assumes "pc st = b # rest" "unat b = op" "OP_16 < op" "op \<notin> set disabled_opcodes"
    "False \<notin> set (vfExec st)" "nOpCount st < 201"
  shows "eval_step env st =
    (case exec_op env True op (st\<lparr>pc := rest, nOpCount := nOpCount st + 1\<rparr>) of
       Inl e \<Rightarrow> Inl e
     | Inr st2 \<Rightarrow> if length (stack st2) + length (altstack st2) > 1000
                   then Inl SCRIPT_ERR_STACK_SIZE else Inr st2)"
proof -
  have g: "GetOp2 (pc st) = (True, op, [], rest)" using assms(1-3) by (simp add: GetOp2_def)
  show ?thesis using assms unfolding eval_step_def g by (simp add: Let_def MAX_SCRIPT_ELEMENT_SIZE_def)
qed

lemma pushes_only:
  assumes "2 \<le> length a" "length a \<le> 75" "2 \<le> length b" "length b \<le> 75"
  shows "EvalScript env [] (push_data a @ push_data b) = Inr [b, a]"
proof -
  have ne: "push_data a @ push_data b \<noteq> []" "push_data b \<noteq> []" using assms by (simp_all add: push_data_def)
  have len: "length (push_data a @ push_data b) \<le> 10000"
    using assms by (simp add: push_data_def)
  have "eval_loop env (initial_state [] (push_data a @ push_data b)) =
    Inr \<lparr>stack = [b, a], altstack = [], vfExec = [], nOpCount = 0, pc = [],
      pbegincodehash = push_data a @ push_data b\<rparr>"
    using assms ne eval_step_push [of "initial_state [] (push_data a @ push_data b)" a "push_data b" env]
      eval_step_push [of "(initial_state [] (push_data a @ push_data b))\<lparr>pc := push_data b, stack := [a]\<rparr>"
        b "[]" env]
    by (simp add: eval_loop_step initial_state_def) (simp add: eval_loop.simps)
  then show ?thesis using len by (simp add: EvalScript_def)
qed

subsection \<open>Pay to public key hash\<close>

definition P2PKH_script :: "bytes \<Rightarrow> script" where
  "P2PKH_script h = [of_nat OP_DUP, of_nat OP_HASH160] @ push_data h @ [of_nat OP_EQUALVERIFY, of_nat OP_CHECKSIG]"

lemma P2PKH_instrs:
  assumes "length h = 20"
  shows "instrs (P2PKH_script h) =
    ([[of_nat OP_DUP], [of_nat OP_HASH160], push_data h, [of_nat OP_EQUALVERIFY], [of_nat OP_CHECKSIG]], [])"
proof -
  let ?is = "[[of_nat OP_DUP], [of_nat OP_HASH160], push_data h, [of_nat OP_EQUALVERIFY], [of_nat OP_CHECKSIG]]"
  have "list_all is_instr ?is"
    using is_instr_push_data [of h] assms by (simp add: is_instr_def GetOp2_def)
  then have "instrs (concat ?is @ []) = (?is @ fst (instrs []), snd (instrs []))" by (rule instrs_of_concat)
  then show ?thesis by (simp add: P2PKH_script_def instrs.simps [of "[]"] GetOp2_def)
qed

lemma P2PKH_code:
  assumes "length h = 20" "2 \<le> length sig" "length sig \<le> 75" "length sig \<noteq> 20"
  shows "fst (FindAndDelete (P2PKH_script h) (push_data sig)) = P2PKH_script h"
proof -
  have 1: "push_data sig = of_nat (length sig) # sig" "push_data h = 20 # h"
    using assms by (simp_all add: push_data_def)
  then have "length (push_data sig) \<noteq> length (push_data h)" "length (push_data sig) \<ge> 3"
    using assms by simp_all
  then have "push_data h \<noteq> push_data sig" "\<And>x. [x] \<noteq> push_data sig"
    by (auto dest: arg_cong [where f = length])
  then show ?thesis
    using FindAndDelete_instrs [OF is_instr_push_data, of sig "P2PKH_script h"] assms
    by (simp add: P2PKH_instrs) (simp add: P2PKH_script_def)
qed

lemmas P2PKH_steps = exec_op_def exec_DUP_def exec_hash_def exec_EQUAL_def exec_CHECKSIG_def

lemma EvalScript_P2PKH:
  assumes h: "length h = 20" and sig: "2 \<le> length sig" "length sig \<le> 75" "length sig \<noteq> 20"
  shows "EvalScript env [pk, sig] (P2PKH_script h) =
    (if hash160_spec pk \<noteq> h then Inl SCRIPT_ERR_EQUALVERIFY
     else case check_encodings env sig pk of
       Some e \<Rightarrow> Inl e
     | None \<Rightarrow> Inr [bool_vch (check_sig env sig pk (P2PKH_script h))])"
proof -
  let ?st = "\<lambda>stk n rest. \<lparr>stack = stk, altstack = [], vfExec = [], nOpCount = n, pc = rest,
    pbegincodehash = P2PKH_script h\<rparr>"
  let ?H = "hash160_spec pk"
  have ne: "push_data h \<noteq> []" by (simp add: push_data_def)
  have 1: "eval_step env (?st [pk, sig] 0 (P2PKH_script h)) =
      Inr (?st [pk, pk, sig] 1 (of_nat OP_HASH160 # push_data h @ [of_nat OP_EQUALVERIFY, of_nat OP_CHECKSIG]))"
    by (subst eval_step_op [where op = OP_DUP and b = "of_nat OP_DUP"]) (simp_all add: P2PKH_script_def disabled_opcodes_def P2PKH_steps)
  have 2: "eval_step env (?st [pk, pk, sig] 1 (of_nat OP_HASH160 # push_data h @ [of_nat OP_EQUALVERIFY, of_nat OP_CHECKSIG]))
      = Inr (?st [?H, pk, sig] 2 (push_data h @ [of_nat OP_EQUALVERIFY, of_nat OP_CHECKSIG]))"
    by (subst eval_step_op [where op = OP_HASH160 and b = "of_nat OP_HASH160"]) (simp_all add: disabled_opcodes_def P2PKH_steps hash_digests)
  have 3: "eval_step env (?st [?H, pk, sig] 2 (push_data h @ [of_nat OP_EQUALVERIFY, of_nat OP_CHECKSIG]))
      = Inr (?st [h, ?H, pk, sig] 2 [of_nat OP_EQUALVERIFY, of_nat OP_CHECKSIG])"
    by (subst eval_step_push) (simp_all add: h)
  have 4: "eval_step env (?st [h, ?H, pk, sig] 2 [of_nat OP_EQUALVERIFY, of_nat OP_CHECKSIG]) =
      (if ?H \<noteq> h then Inl SCRIPT_ERR_EQUALVERIFY else Inr (?st [pk, sig] 3 [of_nat OP_CHECKSIG]))"
    by (subst eval_step_op [where op = OP_EQUALVERIFY and b = "of_nat OP_EQUALVERIFY"])
      (auto simp: disabled_opcodes_def P2PKH_steps Let_def)
  have 5: "eval_step env (?st [pk, sig] 3 [of_nat OP_CHECKSIG]) =
      (case check_encodings env sig pk of
         Some e \<Rightarrow> Inl e
       | None \<Rightarrow> Inr (?st [bool_vch (check_sig env sig pk (P2PKH_script h))] 4 []))"
    by (subst eval_step_op [where op = OP_CHECKSIG and b = "of_nat OP_CHECKSIG"])
      (auto simp: disabled_opcodes_def P2PKH_steps Let_def P2PKH_code [OF h sig] split: option.split)
  have L: "eval_loop env s = (case eval_step env s of Inl e \<Rightarrow> Inl e | Inr s' \<Rightarrow> eval_loop env s')"
    if "pc s \<noteq> []" for s using that by (simp add: eval_loop.simps [of env s])
  have "eval_loop env (?st [pk, sig] 0 (P2PKH_script h)) =
      eval_loop env (?st [pk, pk, sig] 1 (of_nat OP_HASH160 # push_data h @ [of_nat OP_EQUALVERIFY, of_nat OP_CHECKSIG]))"
    by (rule eval_loop_step(1) [OF _ 1]) (simp add: P2PKH_script_def)
  also have "\<dots> = eval_loop env (?st [?H, pk, sig] 2 (push_data h @ [of_nat OP_EQUALVERIFY, of_nat OP_CHECKSIG]))"
    by (rule eval_loop_step(1) [OF _ 2]) simp
  also have "\<dots> = eval_loop env (?st [h, ?H, pk, sig] 2 [of_nat OP_EQUALVERIFY, of_nat OP_CHECKSIG])"
    by (rule eval_loop_step(1) [OF _ 3]) (simp add: ne)
  also have "\<dots> = (if ?H \<noteq> h then Inl SCRIPT_ERR_EQUALVERIFY
      else eval_loop env (?st [pk, sig] 3 [of_nat OP_CHECKSIG]))"
    by (subst L, simp, simp only: 4) simp
  also have "eval_loop env (?st [pk, sig] 3 [of_nat OP_CHECKSIG]) =
      (case check_encodings env sig pk of
         Some e \<Rightarrow> Inl e
       | None \<Rightarrow> Inr (?st [bool_vch (check_sig env sig pk (P2PKH_script h))] 4 []))"
    by (subst L, simp, simp only: 5) (simp add: eval_loop.simps split: option.split)
  finally have loop: "eval_loop env (?st [pk, sig] 0 (P2PKH_script h)) =
     (if ?H \<noteq> h then Inl SCRIPT_ERR_EQUALVERIFY
      else case check_encodings env sig pk of
         Some e \<Rightarrow> Inl e
       | None \<Rightarrow> Inr (?st [bool_vch (check_sig env sig pk (P2PKH_script h))] 4 []))" .
  have "length (P2PKH_script h) \<le> 10000" using h by (simp add: P2PKH_script_def push_data_def)
  then show ?thesis using loop by (simp add: EvalScript_def initial_state_def split: option.split)
qed

lemma IsPushOnly_pushes:
  assumes "length a \<le> 75" "length b \<le> 75" shows "IsPushOnly (push_data a @ push_data b)"
proof -
  have op: "\<not> push_opcode_of d > OP_16" if "length d \<le> 75" for d :: bytes
    using that by (simp add: push_opcode_of_def)
  have ne: "push_data d \<noteq> []" for d by (simp add: push_data_def)
  have "IsPushOnly (push_data b @ [])"
    using GetOp2_push_data [of b "[]"] assms op ne [of b] by (simp add: IsPushOnly.simps [of "push_data b"] IsPushOnly.simps [of "[]"])
  then show ?thesis
    using GetOp2_push_data [of a "push_data b"] assms op ne by (simp add: IsPushOnly.simps [of "push_data a @ push_data b"])
qed

lemma CastToBool_bool_vch: "CastToBool (bool_vch b) = b"
  by (simp add: bool_vch_def vchTrue_def vchFalse_def)

text \<open>Acceptance, spelt out over the evaluations.\<close>

lemma VerifyScript_P2SH_iff:
  "VerifyScript_P2SH env s stk = Verified \<longleftrightarrow> IsPushOnly s \<and>
     (\<exists>redeem rest res xs. stk = redeem # rest \<and> EvalScript env rest redeem = Inr (res # xs) \<and> CastToBool res)"
  by (auto simp: VerifyScript_P2SH_def split: list.splits sum.splits)

lemma VerifyScript_iff:
  "VerifyScript env s p = Verified \<longleftrightarrow>
     (has_flag (env_flags env) SCRIPT_VERIFY_SIGPUSHONLY \<longrightarrow> IsPushOnly s) \<and>
     (\<exists>stk res xs. EvalScript env [] s = Inr stk \<and> EvalScript env stk p = Inr (res # xs) \<and> CastToBool res \<and>
        (has_flag (env_flags env) SCRIPT_VERIFY_P2SH \<and> IsPayToScriptHash p \<longrightarrow>
           VerifyScript_P2SH env s stk = Verified))"
proof (cases "EvalScript env [] s")
  case (Inr stk)
  then show ?thesis
    by (cases "EvalScript env stk p") (auto simp: VerifyScript_def Let_def split: list.splits)
qed (simp add: VerifyScript_def Let_def)

lemma VerifyScript_mono:
  assumes "VerifyScript env s p = Verified" "flags_le g (env_flags env)"
  shows "VerifyScript (with_flags env g) s p = Verified"
proof -
  note e = EvalScript_mono [OF _ assms(2)]
  have "VerifyScript_P2SH env s stk = Verified \<Longrightarrow> VerifyScript_P2SH (with_flags env g) s stk = Verified" for stk
    unfolding VerifyScript_P2SH_iff using e by blast
  then show ?thesis
    using assms(1) e has_flag_mono [OF assms(2)] unfolding VerifyScript_iff with_flags_simps by blast
qed

text \<open>Pay to public key hash, from input script to verdict.\<close>

lemma VerifyScript_P2PKH_value:
  assumes "length h = 20" "2 \<le> length sig" "length sig \<le> 75" "length sig \<noteq> 20"
    and "2 \<le> length pk" "length pk \<le> 75"
  shows "VerifyScript env (push_data sig @ push_data pk) (P2PKH_script h) =
    (if hash160_spec pk \<noteq> h then Refused SCRIPT_ERR_EQUALVERIFY
     else case check_encodings env sig pk of
       Some e \<Rightarrow> Refused e
     | None \<Rightarrow> if check_sig env sig pk (P2PKH_script h) then Verified else Refused SCRIPT_ERR_EVAL_FALSE)"
proof -
  have "\<not> IsPayToScriptHash (P2PKH_script h)"
    using assms(1) by (simp add: IsPayToScriptHash_def P2PKH_script_def push_data_def)
  then show ?thesis
    using assms pushes_only [of sig pk env] EvalScript_P2PKH [OF assms(1-4), of env pk]
      IsPushOnly_pushes [of sig pk]
    by (auto simp: VerifyScript_def Let_def CastToBool_bool_vch split: option.split)
qed

subsection \<open>Properties\<close>

text \<open>
  The \<open>assert\<close> of the pay-to-script-hash branch cannot fail: whatever the scripts, flags and
  checker, \<open>VerifyScript\<close> ends with success or an error code.
\<close>

theorem VerifyScript_no_abort: "VerifyScript env sig_script pubkey_script \<noteq> Aborted"
  by (rule VerifyScript_not_aborted)

text \<open>
  Pay to public key hash: with a signature and a key pushed by the input script, verification
  succeeds exactly when the key hashes to the committed digest, both encodings pass the checks of
  the flags, and the checker accepts the signature over the whole output script; the error says
  which of them failed.
\<close>

theorem VerifyScript_P2PKH:
  assumes "length h = 20" "2 \<le> length sig" "length sig \<le> 75" "length sig \<noteq> 20"
    and "2 \<le> length pk" "length pk \<le> 75"
  shows "VerifyScript env (push_data sig @ push_data pk) (P2PKH_script h) =
    (if hash160_spec pk \<noteq> h then Refused SCRIPT_ERR_EQUALVERIFY
     else case check_encodings env sig pk of
       Some e \<Rightarrow> Refused e
     | None \<Rightarrow> if check_sig env sig pk (P2PKH_script h) then Verified else Refused SCRIPT_ERR_EVAL_FALSE)"
  using assms by (rule VerifyScript_P2PKH_value)

text \<open>The key of the example is the two bytes 2 and 3; its digest is taken as the hash gives it.\<close>

theorem VerifyScript_P2PKH_witness:
  "VerifyScript (sample_env\<lparr>check_sig := (\<lambda>sig key code. sig = [1, 1])\<rparr>)
     (push_data [1, 1] @ push_data [2, 3]) (P2PKH_script (hash160_spec [2, 3])) = Verified"
proof -
  let ?env = "sample_env\<lparr>check_sig := (\<lambda>sig key code. sig = [1, 1])\<rparr>"
  have "length (hash160_spec [2, 3]) = 20" by (simp add: len_simps)
  moreover have "check_encodings ?env [1, 1] [2, 3] = None"
    by (simp add: check_encodings_def CheckSignatureEncoding_def CheckPubKeyEncoding_def sample_env_def has_flag_def)
  ultimately show ?thesis
    using VerifyScript_P2PKH [of "hash160_spec [2, 3]" "[1, 1]" "[2, 3]" ?env] by simp
qed

text \<open>
  Verification flags only restrict, for whole verifications too: what verifies under some
  flags (pay-to-script-hash evaluation included) verifies under every subset of them.
\<close>

theorem VerifyScript_flags_restrict:
  assumes "VerifyScript env sig_script pubkey_script = Verified" "g AND env_flags env = g"
  shows "VerifyScript (env\<lparr>env_flags := g\<rparr>) sig_script pubkey_script = Verified"
  using VerifyScript_mono [OF assms(1), of g] assms(2) by (simp add: flags_le_def with_flags_def)

theorem VerifyScript_flags_restrict_witness:
  "VerifyScript (sample_env\<lparr>env_flags := 0\<rparr>) [0x52, 0x52] [0x87] = Verified"
proof (rule VerifyScript_flags_restrict)
  show "VerifyScript sample_env [0x52, 0x52] [0x87] = Verified" by code_simp
qed simp

end
