(* ===== verification/Keystore.thy ===== *)
theory Keystore imports Keys Script_Verify begin

text \<open>
  Key stores (\<open>src/src/keystore.h\<close>, \<open>src/src/keystore.cpp\<close>) and what \<open>src/src/script.cpp\<close> does with
  them: \<open>IsMine\<close>, \<open>HaveKeys\<close>, \<open>ExtractAffectedKeys\<close> and signing (\<open>Sign1\<close>, \<open>SignN\<close>, \<open>Solver\<close> with a key
  store, \<open>SignSignature\<close>). \<open>H\<close> stands for \<open>Hash160\<close> and \<open>C\<close> for libsecp256k1. The recursion of \<open>IsMine\<close>
  through pay-to-script-hash has no bound in the code: it is a partial function, whose value is
  \<open>None\<close> when it does not return.
\<close>

subsection \<open>Key stores\<close>

text \<open>The virtual functions of \<open>CKeyStore\<close> that readers call.\<close>

record key_store =
  HaveKey :: "bytes \<Rightarrow> bool"
  GetKey :: "bytes \<Rightarrow> CKey option"
  HaveCScript :: "bytes \<Rightarrow> bool"
  GetCScript :: "bytes \<Rightarrow> script option"
  HaveWatchOnly :: "script \<Rightarrow> bool"

definition GetPubKey :: "('pk, 'sig) secp256k1 \<Rightarrow> key_store \<Rightarrow> bytes \<Rightarrow> CPubKey option" where
  "GetPubKey C ks address =
     (case GetKey ks address of None \<Rightarrow> None | Some k \<Rightarrow> CKey_GetPubKey C k)"

record CBasicKeyStore =
  mapKeys :: "bytes \<rightharpoonup> CKey"
  mapScripts :: "bytes \<rightharpoonup> script"
  setWatchOnly :: "script set"

definition CBasicKeyStore_new :: CBasicKeyStore where
  "CBasicKeyStore_new = \<lparr>mapKeys = Map.empty, mapScripts = Map.empty, setWatchOnly = {}\<rparr>"

definition AddKeyPubKey :: "(bytes \<Rightarrow> bytes) \<Rightarrow> CKey \<Rightarrow> CPubKey \<Rightarrow> CBasicKeyStore \<Rightarrow> bool \<times> CBasicKeyStore" where
  "AddKeyPubKey H key pubkey s = (True, s\<lparr>mapKeys := (mapKeys s)(CPubKey_GetID H pubkey \<mapsto> key)\<rparr>)"

text \<open>\<open>None\<close> is the failed \<open>assert\<close> of \<open>GetPubKey\<close>.\<close>

definition AddKey ::
  "('pk, 'sig) secp256k1 \<Rightarrow> (bytes \<Rightarrow> bytes) \<Rightarrow> CKey \<Rightarrow> CBasicKeyStore \<Rightarrow> (bool \<times> CBasicKeyStore) option" where
  "AddKey C H key s =
     (case CKey_GetPubKey C key of None \<Rightarrow> None | Some pk \<Rightarrow> Some (AddKeyPubKey H key pk s))"

definition GetKeys :: "CBasicKeyStore \<Rightarrow> bytes set" where
  "GetKeys s = dom (mapKeys s)"

definition AddCScript :: "(bytes \<Rightarrow> bytes) \<Rightarrow> script \<Rightarrow> CBasicKeyStore \<Rightarrow> bool \<times> CBasicKeyStore" where
  "AddCScript H redeemScript s =
     (if length redeemScript > MAX_SCRIPT_ELEMENT_SIZE then (False, s)
      else (True, s\<lparr>mapScripts := (mapScripts s)(H redeemScript \<mapsto> redeemScript)\<rparr>))"

definition AddWatchOnly :: "script \<Rightarrow> CBasicKeyStore \<Rightarrow> bool \<times> CBasicKeyStore" where
  "AddWatchOnly dest s = (True, s\<lparr>setWatchOnly := insert dest (setWatchOnly s)\<rparr>)"

definition RemoveWatchOnly :: "script \<Rightarrow> CBasicKeyStore \<Rightarrow> bool \<times> CBasicKeyStore" where
  "RemoveWatchOnly dest s = (True, s\<lparr>setWatchOnly := setWatchOnly s - {dest}\<rparr>)"

definition HaveWatchOnly_any :: "CBasicKeyStore \<Rightarrow> bool" where
  "HaveWatchOnly_any s \<longleftrightarrow> setWatchOnly s \<noteq> {}"

definition basic_key_store :: "CBasicKeyStore \<Rightarrow> key_store" where
  "basic_key_store s =
     \<lparr>HaveKey = (\<lambda>a. a \<in> dom (mapKeys s)), GetKey = mapKeys s,
      HaveCScript = (\<lambda>h. h \<in> dom (mapScripts s)), GetCScript = mapScripts s,
      HaveWatchOnly = (\<lambda>dest. dest \<in> setWatchOnly s)\<rparr>"

subsection \<open>Ownership\<close>

text \<open>The values of the enumeration, which order the constructors.\<close>

fun ismine_value :: "isminetype \<Rightarrow> nat" where
  "ismine_value ISMINE_NO = 0"
| "ismine_value ISMINE_WATCH_ONLY = 1"
| "ismine_value ISMINE_SPENDABLE = 2"

instantiation isminetype :: linorder
begin

definition less_eq_isminetype :: "isminetype \<Rightarrow> isminetype \<Rightarrow> bool" where
  "less_eq_isminetype a b \<longleftrightarrow> ismine_value a \<le> ismine_value b"

definition less_isminetype :: "isminetype \<Rightarrow> isminetype \<Rightarrow> bool" where
  "less_isminetype a b \<longleftrightarrow> ismine_value a < ismine_value b"

instance
proof
  show "a \<le> b \<Longrightarrow> b \<le> a \<Longrightarrow> a = b" for a b :: isminetype
    by (cases a; cases b) (simp_all add: less_eq_isminetype_def)
qed (auto simp: less_eq_isminetype_def less_isminetype_def)

end

definition HaveKeys :: "(bytes \<Rightarrow> bytes) \<Rightarrow> valtype list \<Rightarrow> key_store \<Rightarrow> nat" where
  "HaveKeys H pubkeys ks =
     length (filter (\<lambda>pubkey. HaveKey ks (CPubKey_GetID H (CPubKey_Set pubkey))) pubkeys)"

definition watch_only :: "key_store \<Rightarrow> script \<Rightarrow> isminetype" where
  "watch_only ks pubkey_script = (if HaveWatchOnly ks pubkey_script then ISMINE_WATCH_ONLY else ISMINE_NO)"

partial_function (option) IsMine :: "(bytes \<Rightarrow> bytes) \<Rightarrow> key_store \<Rightarrow> script \<Rightarrow> isminetype option" where
  "IsMine H ks pubkey_script =
     (case Solver pubkey_script of (ok, whichType, sols) \<Rightarrow>
        if \<not> ok then Some (watch_only ks pubkey_script)
        else if whichType = TX_PUBKEY \<and> HaveKey ks (CPubKey_GetID H (CPubKey_Set (sols ! 0)))
        then Some ISMINE_SPENDABLE
        else if whichType = TX_PUBKEYHASH \<and> HaveKey ks (uint160_of (sols ! 0)) then Some ISMINE_SPENDABLE
        else if whichType = TX_SCRIPTHASH then
          (case GetCScript ks (uint160_of (sols ! 0)) of
             None \<Rightarrow> Some (watch_only ks pubkey_script)
           | Some subscript \<Rightarrow>
               Option.bind (IsMine H ks subscript) (\<lambda>ret.
                 if ret = ISMINE_SPENDABLE then Some ret else Some (watch_only ks pubkey_script)))
        else if whichType = TX_MULTISIG \<and> HaveKeys H (tl (butlast sols)) ks = length (tl (butlast sols))
        then Some ISMINE_SPENDABLE
        else Some (watch_only ks pubkey_script))"

definition IsMine_dest :: "(bytes \<Rightarrow> bytes) \<Rightarrow> key_store \<Rightarrow> CTxDestination \<Rightarrow> isminetype option" where
  "IsMine_dest H ks dest = IsMine H ks (SetDestination dest)"

definition CKeyStoreIsMineVisitor :: "key_store \<Rightarrow> CTxDestination \<Rightarrow> bool" where
  "CKeyStoreIsMineVisitor ks dest =
     (case dest of
        CNoDestination \<Rightarrow> False
      | CKeyID keyID \<Rightarrow> HaveKey ks keyID
      | CScriptID scriptID \<Rightarrow> HaveCScript ks scriptID
      | CStealthAddress stxAddr \<Rightarrow> length (scan_secret stxAddr) = 32)"

text \<open>The keys of the store that a script involves, appended to \<open>vKeys\<close>.\<close>

partial_function (option) AffectedKeys_visit ::
  "(bytes \<Rightarrow> bytes) \<Rightarrow> key_store \<Rightarrow> CTxDestination list \<Rightarrow> bytes list \<Rightarrow> bytes list option" where
  "AffectedKeys_visit H ks dests vKeys =
     (case dests of
        [] \<Rightarrow> Some vKeys
      | dest # dests \<Rightarrow>
          Option.bind
            (case dest of
               CKeyID keyId \<Rightarrow> Some (if HaveKey ks keyId then vKeys @ [keyId] else vKeys)
             | CScriptID scriptId \<Rightarrow>
                 (case GetCScript ks scriptId of
                    None \<Rightarrow> Some vKeys
                  | Some s \<Rightarrow>
                      (case ExtractDestinations H s 0 of (ok, _, vDest, _) \<Rightarrow>
                         if ok then AffectedKeys_visit H ks vDest vKeys else Some vKeys))
             | CStealthAddress _ \<Rightarrow> Some vKeys
             | CNoDestination \<Rightarrow> Some vKeys)
            (\<lambda>vKeys. AffectedKeys_visit H ks dests vKeys))"

definition ExtractAffectedKeys :: "(bytes \<Rightarrow> bytes) \<Rightarrow> key_store \<Rightarrow> script \<Rightarrow> bytes list \<Rightarrow> bytes list option" where
  "ExtractAffectedKeys H ks pubkey_script vKeys =
     (case ExtractDestinations H pubkey_script 0 of (ok, _, vDest, _) \<Rightarrow>
        if ok then AffectedKeys_visit H ks vDest vKeys else Some vKeys)"

subsection \<open>Signing\<close>

text \<open>\<open>test\<close> is a \<open>bool\<close> set to -1 and becomes the test case 1 of \<open>Sign\<close>.\<close>

definition Sign1 ::
  "('pk, 'sig) secp256k1 \<Rightarrow> bytes \<Rightarrow> key_store \<Rightarrow> uint256 \<Rightarrow> u32 \<Rightarrow> script \<Rightarrow> bool \<times> script" where
  "Sign1 C address ks hsh nHashType scriptSigRet =
     (case GetKey ks address of
        None \<Rightarrow> (False, scriptSigRet)
      | Some k \<Rightarrow>
          (case CKey_Sign C k (WRITEDATA 32 hsh) 1 of
             None \<Rightarrow> (False, scriptSigRet)
           | Some vchSig \<Rightarrow> (True, scriptSigRet @ push_data (vchSig @ [ucast nHashType]))))"

fun SignN_loop ::
  "('pk, 'sig) secp256k1 \<Rightarrow> (bytes \<Rightarrow> bytes) \<Rightarrow> key_store \<Rightarrow> uint256 \<Rightarrow> u32 \<Rightarrow> nat \<Rightarrow> valtype list \<Rightarrow> nat \<Rightarrow> script
     \<Rightarrow> nat \<times> script" where
  "SignN_loop C H ks hsh nHashType nRequired [] nSigned scriptSigRet = (nSigned, scriptSigRet)"
| "SignN_loop C H ks hsh nHashType nRequired (pubkey # pubkeys) nSigned scriptSigRet =
     (if nSigned < nRequired then
        (case Sign1 C (CPubKey_GetID H (CPubKey_Set pubkey)) ks hsh nHashType scriptSigRet of (ok, scriptSigRet) \<Rightarrow>
           SignN_loop C H ks hsh nHashType nRequired pubkeys (if ok then nSigned + 1 else nSigned) scriptSigRet)
      else (nSigned, scriptSigRet))"

definition SignN ::
  "('pk, 'sig) secp256k1 \<Rightarrow> (bytes \<Rightarrow> bytes) \<Rightarrow> valtype list \<Rightarrow> key_store \<Rightarrow> uint256 \<Rightarrow> u32 \<Rightarrow> script
     \<Rightarrow> bool \<times> script" where
  "SignN C H multisigdata ks hsh nHashType scriptSigRet =
     (let nRequired = unat (hd multisigdata ! 0)
      in case SignN_loop C H ks hsh nHashType nRequired (tl (butlast multisigdata)) 0 scriptSigRet of
        (nSigned, scriptSigRet) \<Rightarrow> (nSigned = nRequired, scriptSigRet))"

text \<open>The result, \<open>scriptSigRet\<close> and \<open>whichTypeRet\<close>; \<open>None\<close> is a failed \<open>assert\<close>.\<close>

definition Solver_sign ::
  "('pk, 'sig) secp256k1 \<Rightarrow> (bytes \<Rightarrow> bytes) \<Rightarrow> key_store \<Rightarrow> script \<Rightarrow> uint256 \<Rightarrow> u32
     \<Rightarrow> (bool \<times> script \<times> txnouttype) option" where
  "Solver_sign C H ks pubkey_script hsh nHashType =
     (case Solver pubkey_script of (ok, whichType, sols) \<Rightarrow>
        if \<not> ok then Some (False, [], whichType)
        else (case whichType of
          TX_NONSTANDARD \<Rightarrow> Some (False, [], whichType)
        | TX_NULL_DATA \<Rightarrow> Some (False, [], whichType)
        | TX_PUBKEY \<Rightarrow>
            (case Sign1 C (CPubKey_GetID H (CPubKey_Set (sols ! 0))) ks hsh nHashType [] of (r, sig_script) \<Rightarrow>
               Some (r, sig_script, whichType))
        | TX_PUBKEYHASH \<Rightarrow>
            (let keyID = uint160_of (sols ! 0) in
             case Sign1 C keyID ks hsh nHashType [] of (r, sig_script) \<Rightarrow>
               if \<not> r then Some (False, sig_script, whichType)
               else (case GetPubKey C ks keyID of None \<Rightarrow> None
                 | Some vch \<Rightarrow>
                     (case push_pubkey vch of None \<Rightarrow> None
                      | Some b \<Rightarrow> Some (True, sig_script @ b, whichType))))
        | TX_SCRIPTHASH \<Rightarrow>
            (case GetCScript ks (uint160_of (sols ! 0)) of
               None \<Rightarrow> Some (False, [], whichType)
             | Some redeem \<Rightarrow> Some (True, redeem, whichType))
        | TX_MULTISIG \<Rightarrow>
            (case SignN C H sols ks hsh nHashType (push_opcode OP_0) of (r, sig_script) \<Rightarrow>
               Some (r, sig_script, whichType))))"

definition set_scriptSig :: "CTransaction \<Rightarrow> nat \<Rightarrow> script \<Rightarrow> CTransaction" where
  "set_scriptSig tx nIn s = tx\<lparr>vin := (vin tx)[nIn := (vin tx ! nIn)\<lparr>scriptSig := s\<rparr>]\<rparr>"

text \<open>The result and the signed transaction.\<close>

definition SignSignature ::
  "('pk, 'sig) secp256k1 \<Rightarrow> (bytes \<Rightarrow> bytes) \<Rightarrow> sig_env \<Rightarrow> (bytes \<Rightarrow> bool) \<Rightarrow> key_store \<Rightarrow> script
     \<Rightarrow> CTransaction \<Rightarrow> nat \<Rightarrow> u32 \<Rightarrow> (bool \<times> CTransaction) option" where
  "SignSignature C H E lowS ks fromPubKey txTo nIn nHashType =
     (if \<not> nIn < length (vin txTo) then None
      else
        let hsh = SignatureHash (tx_hash E) fromPubKey txTo nIn nHashType;
            verify = (\<lambda>tx. (VerifyScript (checker_env E tx nIn STANDARD_SCRIPT_VERIFY_FLAGS lowS)
              (scriptSig (vin tx ! nIn)) fromPubKey = Verified, tx))
        in case Solver_sign C H ks fromPubKey hsh nHashType of
          None \<Rightarrow> None
        | Some (r, sig_script, whichType) \<Rightarrow>
            let txTo = set_scriptSig txTo nIn sig_script in
            if \<not> r then Some (False, txTo)
            else if whichType = TX_SCRIPTHASH then
              (let subscript = sig_script;
                   hash2 = SignatureHash (tx_hash E) subscript txTo nIn nHashType
               in case Solver_sign C H ks subscript hash2 nHashType of
                 None \<Rightarrow> None
               | Some (r2, sig_script, subType) \<Rightarrow>
                   let fSolved = (r2 \<and> subType \<noteq> TX_SCRIPTHASH);
                       txTo = set_scriptSig txTo nIn (sig_script @ push_data subscript)
                   in if \<not> fSolved then Some (False, txTo) else Some (verify txTo))
            else Some (verify txTo))"

definition SignSignature_from ::
  "('pk, 'sig) secp256k1 \<Rightarrow> (bytes \<Rightarrow> bytes) \<Rightarrow> sig_env \<Rightarrow> (bytes \<Rightarrow> bool) \<Rightarrow> key_store \<Rightarrow> CTransaction
     \<Rightarrow> CTransaction \<Rightarrow> nat \<Rightarrow> u32 \<Rightarrow> (bool \<times> CTransaction) option" where
  "SignSignature_from C H E lowS ks txFrom txTo nIn nHashType =
     (if \<not> nIn < length (vin txTo) then None
      else
        let n = unat (op_n (prevout (vin txTo ! nIn)))
        in if \<not> n < length (vout txFrom) then None
           else SignSignature C H E lowS ks (scriptPubKey (vout txFrom ! n)) txTo nIn nHashType)"

subsection \<open>The contract of a key store\<close>

text \<open>
  What readers rely on: the tests agree with the lookups, adding something makes it available, and
  an addition leaves the other parts and the other entries alone.
\<close>

locale key_store_laws =
  fixes view :: "'s \<Rightarrow> key_store"
    and add_key :: "bytes \<Rightarrow> CKey \<Rightarrow> 's \<Rightarrow> 's"
    and add_watch :: "script \<Rightarrow> 's \<Rightarrow> 's"
  assumes HaveKey_GetKey: "HaveKey (view s) a \<longleftrightarrow> GetKey (view s) a \<noteq> None"
    and HaveCScript_GetCScript: "HaveCScript (view s) h \<longleftrightarrow> GetCScript (view s) h \<noteq> None"
    and GetKey_add_key: "GetKey (view (add_key a k s)) b = (if b = a then Some k else GetKey (view s) b)"
    and GetCScript_add: "GetCScript (view (add_key a k s)) = GetCScript (view s)"
      "GetCScript (view (add_watch d s)) = GetCScript (view s)"
    and GetKey_add_watch: "GetKey (view (add_watch d s)) = GetKey (view s)"
    and HaveWatchOnly_add: "HaveWatchOnly (view (add_key a k s)) = HaveWatchOnly (view s)"
      "HaveWatchOnly (view (add_watch d s)) e \<longleftrightarrow> e = d \<or> HaveWatchOnly (view s) e"
begin

lemma HaveKey_add_key: "HaveKey (view (add_key a k s)) b \<longleftrightarrow> b = a \<or> HaveKey (view s) b"
  by (simp add: HaveKey_GetKey GetKey_add_key)

lemma HaveKey_add_watch: "HaveKey (view (add_watch d s)) = HaveKey (view s)"
  by (rule ext) (simp add: HaveKey_GetKey GetKey_add_watch)

text \<open>Adding a key or a watched script only adds.\<close>

lemma adds_only:
  "\<And>b. HaveKey (view s) b \<Longrightarrow> HaveKey (view (add_key a k s)) b" "\<And>b. HaveKey (view s) b \<Longrightarrow> HaveKey (view (add_watch d s)) b"
  "\<And>e. HaveWatchOnly (view s) e \<Longrightarrow> HaveWatchOnly (view (add_key a k s)) e"
  "\<And>e. HaveWatchOnly (view s) e \<Longrightarrow> HaveWatchOnly (view (add_watch d s)) e"
  by (simp_all add: HaveKey_add_key HaveKey_add_watch HaveWatchOnly_add)

end

interpretation basic: key_store_laws basic_key_store
  "\<lambda>a k s. snd (AddKeyPubKey (\<lambda>_. a) k None s)" "\<lambda>d s. snd (AddWatchOnly d s)"
  by unfold_locales (auto simp: basic_key_store_def AddKeyPubKey_def AddWatchOnly_def CPubKey_GetID_def dom_def)

subsection \<open>Ownership returns and grows\<close>

text \<open>\<open>h\<close> leads to \<open>h'\<close> when the script stored under \<open>h\<close> pays to the script hash \<open>h'\<close>.\<close>

definition leads_to :: "key_store \<Rightarrow> (bytes \<times> bytes) set" where
  "leads_to ks = {(h', h). \<exists>s. GetCScript ks h = Some s \<and> type_shape TX_SCRIPTHASH s [h']}"

lemma sols_SCRIPTHASH: "type_shape TX_SCRIPTHASH s sols \<Longrightarrow> \<exists>h. sols = [h] \<and> length h = 20"
  by (auto simp: type_shape_def)

lemma IsMine_not_P2SH:
  assumes "\<not> (\<exists>h. type_shape TX_SCRIPTHASH s [h])" shows "IsMine H ks s \<noteq> None"
proof -
  obtain ok t sols where S: "Solver s = (ok, t, sols)" by (cases "Solver s")
  have "ok \<Longrightarrow> t \<noteq> TX_SCRIPTHASH"
    using assms sols_SCRIPTHASH [of s sols] S Solver_True [of s TX_SCRIPTHASH sols] by auto
  then show ?thesis by (subst IsMine.simps) (simp add: S)
qed

lemma IsMine_P2SH:
  assumes "type_shape TX_SCRIPTHASH s [h]"
  shows "IsMine H ks s =
    (case GetCScript ks h of None \<Rightarrow> Some (watch_only ks s)
     | Some sub \<Rightarrow> Option.bind (IsMine H ks sub) (\<lambda>ret.
         if ret = ISMINE_SPENDABLE then Some ret else Some (watch_only ks s)))"
  using assms sols_SCRIPTHASH [OF assms] Solver_True [of s TX_SCRIPTHASH "[h]"]
  by (subst IsMine.simps) (simp add: uint160_of_def)

lemma IsMine_returns_wf:
  assumes "wf (leads_to ks)" shows "IsMine H ks s \<noteq> None"
proof -
  have sub: "GetCScript ks h = Some t \<Longrightarrow> IsMine H ks t \<noteq> None" for h t
    using assms
  proof (induction h arbitrary: t rule: wf_induct_rule)
    case (less h)
    show ?case
    proof (cases "\<exists>h'. type_shape TX_SCRIPTHASH t [h']")
      case True
      then obtain h' where h': "type_shape TX_SCRIPTHASH t [h']" by blast
      then have "(h', h) \<in> leads_to ks" using less.prems by (auto simp: leads_to_def)
      then show ?thesis using less.IH [of h'] IsMine_P2SH [OF h', of H ks] by (auto split: option.split)
    qed (rule IsMine_not_P2SH)
  qed
  show ?thesis
  proof (cases "\<exists>h. type_shape TX_SCRIPTHASH s [h]")
    case True
    then obtain h where "type_shape TX_SCRIPTHASH s [h]" by blast
    then show ?thesis using sub [of h] IsMine_P2SH [of s h H ks] by (auto split: option.split)
  qed (rule IsMine_not_P2SH)
qed

lemma leads_to_dom: "(h', h) \<in> leads_to ks \<Longrightarrow> GetCScript ks h \<noteq> None"
  by (auto simp: leads_to_def)

lemma finite_leads_to:
  assumes "finite (dom (GetCScript ks))" shows "finite (leads_to ks)"
proof -
  let ?f = "\<lambda>h. (hd (snd (snd (Solver (the (GetCScript ks h))))), h)"
  have "leads_to ks \<subseteq> ?f ` dom (GetCScript ks)"
  proof
    fix p assume "p \<in> leads_to ks"
    then obtain h' h s where p: "p = (h', h)" "GetCScript ks h = Some s" "Solver s = (True, TX_SCRIPTHASH, [h'])"
      unfolding leads_to_def Solver_True [symmetric] by blast
    then have "p = ?f h" "h \<in> dom (GetCScript ks)" by auto
    then show "p \<in> ?f ` dom (GetCScript ks)" by (rule image_eqI)
  qed
  then show ?thesis using assms finite_surj by blast
qed

lemma HaveKeys_all: "HaveKeys H ks s = length ks \<longleftrightarrow> (\<forall>k \<in> set ks. HaveKey s (CPubKey_GetID H (CPubKey_Set k)))"
  unfolding HaveKeys_def by (metis filter_id_conv filter_True length_filter_less less_irrefl)

lemma ismine_least [simp]: "ISMINE_NO \<le> r" "r \<le> ISMINE_SPENDABLE"
  by (cases r; simp add: less_eq_isminetype_def)+

text \<open>A store that answers more often, over the same scripts.\<close>

definition store_le :: "key_store \<Rightarrow> key_store \<Rightarrow> bool" where
  "store_le ks ks' \<longleftrightarrow> (\<forall>a. HaveKey ks a \<longrightarrow> HaveKey ks' a) \<and> GetCScript ks = GetCScript ks'
     \<and> (\<forall>d. HaveWatchOnly ks d \<longrightarrow> HaveWatchOnly ks' d)"

lemma watch_only_mono: "store_le ks ks' \<Longrightarrow> watch_only ks s \<le> watch_only ks' s"
  by (auto simp: watch_only_def store_le_def)

lemmas IsMine_induct = IsMine.raw_induct [rotated, consumes 1, case_names step]

lemma IsMine_mono:
  "IsMine H ks s = Some r \<Longrightarrow> store_le ks ks' \<Longrightarrow> \<exists>r'. IsMine H ks' s = Some r' \<and> r \<le> r'"
proof (induction arbitrary: ks' rule: IsMine_induct)
  case (step f H ks s r)
  note le = watch_only_mono [OF step.prems, of s]
  have hk: "\<And>a. HaveKey ks a \<Longrightarrow> HaveKey ks' a" and gs: "GetCScript ks' = GetCScript ks"
    using step.prems by (simp_all add: store_le_def)
  have hks: "HaveKeys H k ks = length k \<Longrightarrow> HaveKeys H k ks' = length k" for k
    unfolding HaveKeys_all using hk by blast
  obtain ok t sols where S: "Solver s = (ok, t, sols)" by (cases "Solver s")
  note unf = IsMine.simps [of H ks' s, unfolded S prod.case gs]
  show ?case
  proof (cases "ok \<and> t = TX_SCRIPTHASH")
    case True
    show ?thesis
    proof (cases "GetCScript ks (uint160_of (sols ! 0))")
      case None
      then show ?thesis using step.hyps S True le by (simp add: unf)
    next
      case (Some sub)
      then obtain r0 where r0: "f H ks sub = Some r0"
        "r = (if r0 = ISMINE_SPENDABLE then r0 else watch_only ks s)"
        using step.hyps S True by (auto simp: bind_eq_Some_conv split: if_splits)
      then obtain r1 where "IsMine H ks' sub = Some r1" "r0 \<le> r1" using step.IH [OF r0(1) step.prems] by blast
      moreover have "r0 = ISMINE_SPENDABLE \<Longrightarrow> r1 = ISMINE_SPENDABLE" using \<open>r0 \<le> r1\<close> by (simp add: antisym)
      ultimately show ?thesis using r0(2) Some True le by (auto simp: unf)
    qed
  next
    case False
    show ?thesis using step.hyps S False le hk hks
      by (auto simp: unf split: if_splits)
  qed
qed

subsection \<open>What is spendable\<close>

text \<open>The scripts that the owner of a store can sign for, as a set of rules.\<close>

inductive spendable :: "(bytes \<Rightarrow> bytes) \<Rightarrow> key_store \<Rightarrow> script \<Rightarrow> bool" for H ks where
  by_key: "type_shape TX_PUBKEY s [k] \<Longrightarrow> HaveKey ks (CPubKey_GetID H (CPubKey_Set k)) \<Longrightarrow> spendable H ks s"
| by_key_hash: "type_shape TX_PUBKEYHASH s [h] \<Longrightarrow> HaveKey ks h \<Longrightarrow> spendable H ks s"
| by_script: "type_shape TX_SCRIPTHASH s [h] \<Longrightarrow> GetCScript ks h = Some redeem \<Longrightarrow> spendable H ks redeem
    \<Longrightarrow> spendable H ks s"
| by_all_keys: "type_shape TX_MULTISIG s ([m] # keys @ [[n]]) \<Longrightarrow>
    \<forall>k \<in> set keys. HaveKey ks (CPubKey_GetID H (CPubKey_Set k)) \<Longrightarrow> spendable H ks s"

lemma sols_of_type:
  "type_shape TX_PUBKEY s sols \<Longrightarrow> \<exists>k. sols = [k]"
  "type_shape TX_PUBKEYHASH s sols \<Longrightarrow> \<exists>h. sols = [h] \<and> length h = 20"
  "type_shape TX_MULTISIG s sols \<Longrightarrow> \<exists>m keys n. sols = [m] # keys @ [[n]]"
  by (auto simp: type_shape_def data_instr_def pushed_def)

lemma spendable_sound: "IsMine H ks s = Some r \<Longrightarrow> r = ISMINE_SPENDABLE \<Longrightarrow> spendable H ks s"
proof (induction rule: IsMine_induct)
  case (step f H ks s r)
  obtain ok t sols where S: "Solver s = (ok, t, sols)" by (cases "Solver s")
  have ok using step.hyps step.prems S by (auto simp: watch_only_def split: if_splits)
  then have sh: "type_shape t s sols" using S Solver_True by simp
  show ?case
  proof (cases t)
    case TX_PUBKEY
    then show ?thesis using step.hyps step.prems S \<open>ok\<close> sh sols_of_type(1) [of s sols]
      by (auto simp: watch_only_def split: if_splits intro: by_key)
  next
    case TX_PUBKEYHASH
    then show ?thesis using step.hyps step.prems S \<open>ok\<close> sh sols_of_type(2) [of s sols]
      by (auto simp: watch_only_def uint160_of_def split: if_splits intro: by_key_hash)
  next
    case TX_SCRIPTHASH
    then obtain h where h: "sols = [h]" "length h = 20" using sh sols_SCRIPTHASH by blast
    then obtain sub r0 where sub: "GetCScript ks h = Some sub" "f H ks sub = Some r0" "r0 = ISMINE_SPENDABLE"
      using step.hyps step.prems S \<open>ok\<close> TX_SCRIPTHASH
      by (auto simp: watch_only_def uint160_of_def bind_eq_Some_conv split: if_splits option.splits)
    then show ?thesis using step.IH h sh TX_SCRIPTHASH by (blast intro: by_script)
  next
    case TX_MULTISIG
    then obtain m keys n where k: "sols = [m] # keys @ [[n]]" using sh sols_of_type(3) by blast
    then have "HaveKeys H keys ks = length keys"
      using step.hyps step.prems S \<open>ok\<close> TX_MULTISIG by (auto simp: watch_only_def butlast_append split: if_splits)
    then show ?thesis using sh TX_MULTISIG k unfolding HaveKeys_all by (blast intro: by_all_keys)
  qed (use step.hyps step.prems S in \<open>auto simp: watch_only_def split: if_splits\<close>)
qed

lemma spendable_complete: "spendable H ks s \<Longrightarrow> IsMine H ks s = Some ISMINE_SPENDABLE"
proof (induction rule: spendable.induct)
  case (by_key s k)
  then show ?case using Solver_True [of s TX_PUBKEY "[k]"] by (subst IsMine.simps) simp
next
  case (by_key_hash s h)
  then have "length h = 20" using sols_of_type(2) by fastforce
  then show ?case using by_key_hash Solver_True [of s TX_PUBKEYHASH "[h]"]
    by (subst IsMine.simps) (simp add: uint160_of_def)
next
  case (by_script s h redeem)
  then show ?case using IsMine_P2SH [of s h H ks] by simp
next
  case (by_all_keys s m keys n)
  then have "HaveKeys H keys ks = length keys" unfolding HaveKeys_all by blast
  then show ?case using by_all_keys Solver_True [of s TX_MULTISIG "[m] # keys @ [[n]]"]
    by (subst IsMine.simps) (simp add: butlast_append)
qed

subsection \<open>Stores that arise\<close>

text \<open>
  The operations of \<open>CBasicKeyStore\<close>. \<open>AddKeyPubKey\<close> takes the public key from its caller, as the wallet
  does when it loads a key, and does not compare it with the key: \<open>R\<close> says which pairs the callers pass.
\<close>

inductive store_step ::
  "('pk, 'sig) secp256k1 \<Rightarrow> (bytes \<Rightarrow> bytes) \<Rightarrow> (CKey \<Rightarrow> CPubKey \<Rightarrow> bool) \<Rightarrow> CBasicKeyStore \<Rightarrow> CBasicKeyStore \<Rightarrow> bool"
  for C H R where
  add_key: "AddKey C H k s = Some (ok, s') \<Longrightarrow> store_step C H R s s'"
| add_key_pubkey: "R k pk \<Longrightarrow> AddKeyPubKey H k pk s = (ok, s') \<Longrightarrow> store_step C H R s s'"
| add_script: "AddCScript H r s = (ok, s') \<Longrightarrow> store_step C H R s s'"
| add_watch: "AddWatchOnly d s = (ok, s') \<Longrightarrow> store_step C H R s s'"
| remove_watch: "RemoveWatchOnly d s = (ok, s') \<Longrightarrow> store_step C H R s s'"

inductive_cases store_stepE: "store_step C H R s s'"

definition store_ok :: "(CKey \<Rightarrow> CPubKey \<Rightarrow> bool) \<Rightarrow> (bytes \<Rightarrow> bytes) \<Rightarrow> CBasicKeyStore \<Rightarrow> bool" where
  "store_ok P H s \<longleftrightarrow>
     finite (dom (mapKeys s)) \<and> finite (dom (mapScripts s)) \<and> finite (setWatchOnly s) \<and>
     (\<forall>a k. mapKeys s a = Some k \<longrightarrow> (\<exists>pk. P k pk \<and> a = CPubKey_GetID H pk)) \<and>
     (\<forall>h r. mapScripts s h = Some r \<longrightarrow> h = H r \<and> length r \<le> 520)"

text \<open>The key \<open>pk\<close> is the public key of \<open>k\<close>, or one that a caller gave with it.\<close>

definition paired :: "('pk, 'sig) secp256k1 \<Rightarrow> (CKey \<Rightarrow> CPubKey \<Rightarrow> bool) \<Rightarrow> CKey \<Rightarrow> CPubKey \<Rightarrow> bool" where
  "paired C R k pk \<longleftrightarrow> CKey_GetPubKey C k = Some pk \<or> R k pk"

lemma store_ok_new: "store_ok P H CBasicKeyStore_new"
  by (simp add: store_ok_def CBasicKeyStore_new_def)

lemma store_ok_step: "store_step C H R s s' \<Longrightarrow> store_ok (paired C R) H s \<Longrightarrow> store_ok (paired C R) H s'"
  by (erule store_stepE)
    (auto simp: store_ok_def paired_def AddKey_def AddKeyPubKey_def AddCScript_def AddWatchOnly_def RemoveWatchOnly_def
      MAX_SCRIPT_ELEMENT_SIZE_def split: option.splits if_splits)

lemma store_ok_reachable: "(store_step C H R)\<^sup>*\<^sup>* CBasicKeyStore_new s \<Longrightarrow> store_ok (paired C R) H s"
  by (induction rule: rtranclp_induct) (auto intro: store_ok_new store_ok_step)

lemma store_ok_mono: "store_ok P H s \<Longrightarrow> (\<And>k pk. P k pk \<Longrightarrow> Q k pk) \<Longrightarrow> store_ok Q H s"
  unfolding store_ok_def by blast

subsection \<open>Signing pays\<close>

lemma blank_update: "map (\<lambda>i. i\<lparr>scriptSig := []\<rparr>) (ins[n := (ins ! n)\<lparr>scriptSig := s\<rparr>]) = map (\<lambda>i. i\<lparr>scriptSig := []\<rparr>) ins"
  by (cases "n < length ins") (auto simp: nth_list_update intro!: nth_equalityI)

text \<open>The hash to be signed does not depend on the input script that will hold the signature.\<close>

lemma SignatureHash_scriptSig:
  "SignatureHash hsh code (set_scriptSig tx nIn s) nIn ht = SignatureHash hsh code tx nIn ht"
  by (simp add: SignatureHash_def sighash_preimage_def sighash_tx_def set_scriptSig_def blank_update Let_def
      cong: if_cong)

definition test_case_entropy :: bytes where
  "test_case_entropy = WriteLE32 1 @ replicate 28 0"

text \<open>The signature that \<open>Sign1\<close> makes.\<close>

definition made_sig :: "('pk, 'sig) secp256k1 \<Rightarrow> CKey \<Rightarrow> uint256 \<Rightarrow> bytes" where
  "made_sig C k hsh = ecdsa_signature_serialize_der C (ecdsa_sign C (WRITEDATA 32 hsh) (keydata k) (Some test_case_entropy))"

lemma Sign1_key:
  "GetKey ks a = Some k \<Longrightarrow> fValid k \<Longrightarrow>
   Sign1 C a ks hsh ht s = (True, s @ push_data (made_sig C k hsh @ [ucast ht]))"
  by (simp add: Sign1_def CKey_Sign_def made_sig_def test_case_entropy_def)

lemma Solver_sign_P2PKH:
  assumes "length h = 20" "GetKey ks h = Some k" "CKey_GetPubKey C k = Some (Some pk)"
  shows "Solver_sign C H ks (GetScriptForDestination (CKeyID h)) hsh ht =
    Some (True, push_data (made_sig C k hsh @ [ucast ht]) @ push_data pk, TX_PUBKEYHASH)"
proof -
  have S: "Solver (GetScriptForDestination (CKeyID h)) = (True, TX_PUBKEYHASH, [h])"
    using shape_CKeyID [OF assms(1)] Solver_True by simp
  have v: "fValid k" and len: "length pk = CPubKey_GetLen (pk ! 0)"
    using assms(3) by (auto simp: CKey_GetPubKey_def Let_def split: if_splits option.splits)
  have "length (CPubKey_bytes (Some pk)) \<le> 65" using len by (simp add: CPubKey_bytes_def CPubKey_GetLen_def)
  then have "push_pubkey (Some pk) = Some (push_data pk)" using push_pubkey_data by (simp add: CPubKey_bytes_def)
  then show ?thesis
    using S assms v Sign1_key [OF assms(2) v, of C hsh ht "[]"] by (simp add: Solver_sign_def uint160_of_def GetPubKey_def)
qed

lemma P2PKH_is_destination: "length h = 20 \<Longrightarrow> GetScriptForDestination (CKeyID h) = P2PKH_script h"
  by (simp add: GetScriptForDestination_def CScriptVisitor_def P2PKH_script_def push_opcode_def push_uint160_data)

lemma standard_encodings:
  assumes "IsDERSignature sig True" "IsDefinedHashtypeSignature sig" "IsCompressedOrUncompressedPubKey pk"
    and "env_flags env = STANDARD_SCRIPT_VERIFY_FLAGS"
  shows "check_encodings env sig pk = None"
proof -
  have "\<not> has_flag STANDARD_SCRIPT_VERIFY_FLAGS SCRIPT_VERIFY_LOW_S" by code_simp
  then show ?thesis using assms by (simp add: check_encodings_def CheckSignatureEncoding_def CheckPubKeyEncoding_def)
qed

lemma SignSignature_P2PKH_value:
  assumes h: "h = hash160_spec pk" and nIn: "nIn < length (vin tx)"
    and k: "GetKey ks h = Some k" "CKey_GetPubKey C k = Some (Some pk)"
    and pk: "IsCompressedOrUncompressedPubKey pk"
    and der: "IsDERSignature (made_sig C k hsh @ [ht]) True" "length (made_sig C k hsh) > 19"
    and ht: "IsDefinedHashtypeSignature [ht]"
    and ok: "Sig_Hash.ecdsa_verify E pk hsh (made_sig C k hsh)"
    and hsh: "hsh = SignatureHash (tx_hash E) (GetScriptForDestination (CKeyID h)) tx nIn (ucast ht)"
  shows "SignSignature C H E lowS ks (GetScriptForDestination (CKeyID h)) tx nIn (ucast ht) =
    Some (True, set_scriptSig tx nIn (push_data (made_sig C k hsh @ [ht]) @ push_data pk))"
proof -
  have len: "length h = 20" using h by (simp add: len_simps)
  define sig where "sig = made_sig C k hsh @ [ht]"
  define tx' where "tx' = set_scriptSig tx nIn (push_data sig @ push_data pk)"
  have ss: "scriptSig (vin tx' ! nIn) = push_data sig @ push_data pk"
    using nIn by (simp add: tx'_def set_scriptSig_def)
  have ds: "IsDERSignature sig True" using der by (simp add: sig_def)
  then have "length sig \<le> 73" by (auto simp: IsDERSignature_def split: if_splits)
  then have ls: "2 \<le> length sig" "length sig \<le> 75" "length sig \<noteq> 20" using der(2) by (auto simp: sig_def)
  have lp: "2 \<le> length pk" "length pk \<le> 75" and set: "CPubKey_Set pk = Some pk"
    using pk by (auto simp: IsCompressedOrUncompressedPubKey_def CPubKey_Set_def CPubKey_GetLen_def split: if_splits)
  have dh: "IsDefinedHashtypeSignature sig" using ht by (simp add: IsDefinedHashtypeSignature_def sig_def)
  let ?env = "checker_env E tx' nIn STANDARD_SCRIPT_VERIFY_FLAGS lowS"
  have enc: "check_encodings ?env sig pk = None"
    by (rule standard_encodings [OF ds dh pk]) (simp add: checker_env_def)
  have chk: "check_sig ?env sig pk (P2PKH_script h)"
    using ok set hsh unfolding P2PKH_is_destination [OF len]
    by (simp add: checker_env_def SignatureChecker_CheckSig_def sig_def tx'_def SignatureHash_scriptSig)
  have ver: "VerifyScript ?env (push_data sig @ push_data pk) (P2PKH_script h) = Verified"
    unfolding VerifyScript_P2PKH_value [OF len ls lp] using h enc chk by simp
  have uu: "ucast (ucast ht :: u32) = ht" by (simp add: ucast_up_down)
  have "Solver_sign C H ks (P2PKH_script h) hsh (ucast ht) = Some (True, push_data sig @ push_data pk, TX_PUBKEYHASH)"
    using Solver_sign_P2PKH [OF len k, of H hsh "ucast ht"] by (simp add: P2PKH_is_destination [OF len] sig_def uu)
  moreover have "SignatureHash (tx_hash E) (P2PKH_script h) tx nIn (ucast ht) = hsh"
    using hsh P2PKH_is_destination [OF len] by simp
  ultimately show ?thesis
    using nIn ss ver
    by (simp add: SignSignature_def Let_def sig_def [symmetric] tx'_def [symmetric] P2PKH_is_destination [OF len])
qed

subsection \<open>Properties\<close>

text \<open>
  \<open>IsMine\<close> returns on every script when the stored redeem scripts do not pay to each other in a
  circle; nothing in the code excludes such a circle but the hash function.
\<close>

theorem IsMine_returns:
  assumes "finite (dom (GetCScript ks))" "acyclic (leads_to ks)"
  shows "\<exists>r. IsMine H ks s = Some r"
  using IsMine_returns_wf finite_acyclic_wf [OF finite_leads_to [OF assms(1)] assms(2)] by fast

definition nested_store :: CBasicKeyStore where
  "nested_store = snd (AddCScript (\<lambda>s. replicate 20 (hd s)) ([0x51])
     (snd (AddCScript (\<lambda>s. replicate 20 (hd s)) (GetScriptForDestination (CScriptID (replicate 20 0x51))) CBasicKeyStore_new)))"

lemma IsMine_returns_witness:
  "\<exists>r. IsMine (\<lambda>s. replicate 20 (hd s)) (basic_key_store nested_store)
     (GetScriptForDestination (CScriptID (replicate 20 0xa9))) = Some r"
proof (rule IsMine_returns)
  let ?g = "GetCScript (basic_key_store nested_store)"
  have g: "?g = [replicate 20 0xa9 \<mapsto> GetScriptForDestination (CScriptID (replicate 20 0x51)), replicate 20 0x51 \<mapsto> [0x51]]"
    by (simp add: nested_store_def basic_key_store_def AddCScript_def CBasicKeyStore_new_def MAX_SCRIPT_ELEMENT_SIZE_def
        GetScriptForDestination_def CScriptVisitor_def push_opcode_def push_uint160_def)
  show "finite (dom ?g)" unfolding g by simp
  have ne: "replicate 20 (0xa9 :: byte) \<noteq> replicate 20 0x51" by simp
  have "leads_to (basic_key_store nested_store) \<subseteq> {(replicate 20 0x51, replicate 20 0xa9)}"
  proof
    fix p assume "p \<in> leads_to (basic_key_store nested_store)"
    then obtain h' h s where p: "p = (h', h)" "?g h = Some s" "type_shape TX_SCRIPTHASH s [h']"
      by (auto simp: leads_to_def)
    have "s \<noteq> [0x51]" using p(3) by (auto simp: type_shape_def)
    then have "h = replicate 20 0xa9" "s = GetScriptForDestination (CScriptID (replicate 20 0x51))"
      using p(2) unfolding g by (auto split: if_splits)
    moreover have "type_shape TX_SCRIPTHASH (GetScriptForDestination (CScriptID (replicate 20 0x51))) [replicate 20 0x51]"
      by (rule shape_CScriptID) simp
    ultimately have "h' = replicate 20 0x51" using shape_sols_unique [OF p(3)] by blast
    then show "p \<in> {(replicate 20 0x51, replicate 20 0xa9)}" using p(1) \<open>h = replicate 20 0xa9\<close> by simp
  qed
  moreover have "acyclic {(replicate 20 (0x51 :: byte), replicate 20 0xa9)}"
    using ne by (simp only: acyclic_insert) (simp add: acyclic_def)
  ultimately show "acyclic (leads_to (basic_key_store nested_store))" using acyclic_subset by blast
qed

text \<open>
  \<open>IsMine\<close> answers \<open>ISMINE_SPENDABLE\<close> exactly for the scripts that the store can redeem: the key,
  the key of the hash, all keys of a multisig script, or a stored redeem script that is redeemable.
\<close>

theorem IsMine_spendable: "IsMine H ks s = Some ISMINE_SPENDABLE \<longleftrightarrow> spendable H ks s"
  using spendable_sound spendable_complete by blast

text \<open>
  Adding a key or a watched script to a \<open>CBasicKeyStore\<close> never lowers what \<open>IsMine\<close> answers.
\<close>

theorem IsMine_grows:
  assumes "IsMine H (basic_key_store s) spk = Some r"
  shows "(\<exists>r'. IsMine H (basic_key_store (snd (AddKeyPubKey H k pk s))) spk = Some r' \<and> r \<le> r')
    \<and> (\<exists>r'. IsMine H (basic_key_store (snd (AddWatchOnly d s))) spk = Some r' \<and> r \<le> r')"
proof (rule conjI)
  let ?a = "CPubKey_GetID H pk"
  have add: "snd (AddKeyPubKey H k pk s) = snd (AddKeyPubKey (\<lambda>_. ?a) k None s)"
    by (simp add: AddKeyPubKey_def CPubKey_GetID_def)
  have "store_le (basic_key_store s) (basic_key_store (snd (AddKeyPubKey H k pk s)))"
    unfolding add store_le_def using basic.adds_only(1,3) [of s] by (simp add: basic.GetCScript_add)
  then show "\<exists>r'. IsMine H (basic_key_store (snd (AddKeyPubKey H k pk s))) spk = Some r' \<and> r \<le> r'"
    by (rule IsMine_mono [OF assms])
  have "store_le (basic_key_store s) (basic_key_store (snd (AddWatchOnly d s)))"
    unfolding store_le_def using basic.adds_only(2,4) [of s] by (simp add: basic.GetCScript_add)
  then show "\<exists>r'. IsMine H (basic_key_store (snd (AddWatchOnly d s))) spk = Some r' \<and> r \<le> r'"
    by (rule IsMine_mono [OF assms])
qed

lemma IsMine_grows_witness:
  "\<exists>r. IsMine id (basic_key_store (snd (AddWatchOnly [0x51] CBasicKeyStore_new))) [0x51] = Some r \<and> ISMINE_NO \<le> r"
proof -
  have "Solver [0x51] = (False, TX_NONSTANDARD, [])" by code_simp
  then have "IsMine id (basic_key_store CBasicKeyStore_new) [0x51] = Some ISMINE_NO"
    by (subst IsMine.simps) (simp add: watch_only_def basic_key_store_def CBasicKeyStore_new_def)
  then show ?thesis using IsMine_grows by blast
qed

text \<open>
  C36. In every store that the operations build, a redeem script is filed under its own hash and none is
  longer than 520 bytes, all three collections are finite, and a key is filed under the identifier of
  its public key, or of one that a caller of \<open>AddKeyPubKey\<close> gave with it. So as long as the callers pass keys with
  their own public keys, every key is filed under the identifier of its public key.
\<close>

theorem store_invariant:
  assumes "(store_step C H R)\<^sup>*\<^sup>* CBasicKeyStore_new s"
  shows "store_ok (paired C R) H s
    \<and> ((\<forall>k pk. R k pk \<longrightarrow> CKey_GetPubKey C k = Some pk) \<longrightarrow> store_ok (\<lambda>k pk. CKey_GetPubKey C k = Some pk) H s)"
proof (intro conjI impI)
  show "store_ok (paired C R) H s" by (rule store_ok_reachable [OF assms])
  then show "store_ok (\<lambda>k pk. CKey_GetPubKey C k = Some pk) H s" if "\<forall>k pk. R k pk \<longrightarrow> CKey_GetPubKey C k = Some pk"
    by (rule store_ok_mono) (use that in \<open>auto simp: paired_def\<close>)
qed

lemma store_invariant_witness:
  "store_ok (\<lambda>k pk. CKey_GetPubKey toy_curve k = Some pk) (\<lambda>s. replicate 20 (hd s))
     (snd (AddKeyPubKey (\<lambda>s. replicate 20 (hd s)) toy_key (Some (2 # replicate 32 5)) nested_store))"
proof -
  let ?H = "\<lambda>s :: bytes. replicate 20 (hd s)" and ?R = "\<lambda>k pk. CKey_GetPubKey toy_curve k = Some pk"
  let ?s1 = "snd (AddCScript ?H (GetScriptForDestination (CScriptID (replicate 20 0x51))) CBasicKeyStore_new)"
  have step: "store_step toy_curve ?H ?R t (snd (AddCScript ?H r t))" for r t
    by (rule add_script [of _ r _ "fst (AddCScript ?H r t)"]) simp
  have "store_step toy_curve ?H ?R CBasicKeyStore_new ?s1" by (rule step)
  moreover have "store_step toy_curve ?H ?R ?s1 nested_store" unfolding nested_store_def by (rule step)
  moreover have pk: "?R toy_key (Some (2 # replicate 32 5))"
    by (simp add: CKey_GetPubKey_def toy_curve_def toy_key_def CPubKey_GetLen_def)
  have "store_step toy_curve ?H ?R nested_store (snd (AddKeyPubKey ?H toy_key (Some (2 # replicate 32 5)) nested_store))"
    by (rule add_key_pubkey [of ?R, OF pk, of ?H _ "fst (AddKeyPubKey ?H toy_key (Some (2 # replicate 32 5)) nested_store)"]) simp
  ultimately have "(store_step toy_curve ?H ?R)\<^sup>*\<^sup>* CBasicKeyStore_new
      (snd (AddKeyPubKey ?H toy_key (Some (2 # replicate 32 5)) nested_store))"
    by (intro rtranclp.rtrancl_into_rtrancl [OF rtranclp.rtrancl_into_rtrancl [OF r_into_rtranclp]])
  from store_invariant [OF this] show ?thesis by simp
qed

text \<open>
  C32. A store that holds the key can spend a pay-to-public-key-hash output: \<open>SignSignature\<close>
  succeeds, and fills the input with the signature and the key. Of the libraries it is used that
  the signature made for this hash is strict DER, longer than 19 bytes, and verifies.
\<close>

theorem SignSignature_P2PKH:
  assumes "h = hash160_spec pk" "nIn < length (vin tx)" "GetKey ks h = Some k" "CKey_GetPubKey C k = Some (Some pk)"
    and "IsCompressedOrUncompressedPubKey pk" "IsDefinedHashtypeSignature [ht]"
    and "hsh = SignatureHash (tx_hash E) (GetScriptForDestination (CKeyID h)) tx nIn (ucast ht)"
    and "IsDERSignature (made_sig C k hsh @ [ht]) True" "length (made_sig C k hsh) > 19"
    and "Sig_Hash.ecdsa_verify E pk hsh (made_sig C k hsh)"
  shows "SignSignature C H E lowS ks (GetScriptForDestination (CKeyID h)) tx nIn (ucast ht) =
    Some (True, set_scriptSig tx nIn (push_data (made_sig C k hsh @ [ht]) @ push_data pk))"
  using assms by (intro SignSignature_P2PKH_value) simp_all

definition toy_env :: sig_env where
  "toy_env = \<lparr>tx_hash = (\<lambda>_. 5), ecdsa_verify = (\<lambda>k h s. h = 5), rand_hash = (\<lambda>_. 0), max_cache = 1\<rparr>"

definition toy_signer :: "(bytes, bytes) secp256k1" where
  "toy_signer = toy_curve\<lparr>ecdsa_signature_serialize_der := (\<lambda>sig. der_signature (replicate 10 1) (replicate 10 1))\<rparr>"

definition toy_pub :: bytes where "toy_pub = 2 # replicate 32 5"

lemma SignSignature_P2PKH_witness:
  "\<exists>tx. SignSignature toy_signer id toy_env (\<lambda>_. True)
     (basic_key_store (snd (AddKeyPubKey hash160_spec toy_key (Some toy_pub) CBasicKeyStore_new)))
     (GetScriptForDestination (CKeyID (hash160_spec toy_pub))) sample_tx 0 1 = Some (True, tx)"
proof -
  let ?ks = "basic_key_store (snd (AddKeyPubKey hash160_spec toy_key (Some toy_pub) CBasicKeyStore_new))"
  let ?S = "GetScriptForDestination (CKeyID (hash160_spec toy_pub))"
  have k: "GetKey ?ks (hash160_spec toy_pub) = Some toy_key"
    by (simp add: basic_key_store_def AddKeyPubKey_def CPubKey_GetID_def CPubKey_bytes_def)
  have pk: "CKey_GetPubKey toy_signer toy_key = Some (Some toy_pub)"
    by (simp add: CKey_GetPubKey_def toy_signer_def toy_curve_def toy_key_def toy_pub_def CPubKey_GetLen_def)
  have c: "IsCompressedOrUncompressedPubKey toy_pub" by (simp add: IsCompressedOrUncompressedPubKey_def toy_pub_def)
  have ht: "IsDefinedHashtypeSignature [1]" by code_simp
  have m: "made_sig toy_signer toy_key 5 = der_signature (replicate 10 1) (replicate 10 1)"
    by (simp add: made_sig_def toy_signer_def)
  have d: "IsDERSignature (made_sig toy_signer toy_key 5 @ [1]) True" unfolding m by code_simp
  have l: "length (made_sig toy_signer toy_key 5) > 19" unfolding m by (simp add: der_signature_def)
  have v: "Sig_Hash.ecdsa_verify toy_env toy_pub 5 (made_sig toy_signer toy_key 5)" by (simp add: toy_env_def)
  have n: "0 < length (vin sample_tx)" by (simp add: sample_tx_def)
  have hsh: "5 = SignatureHash (tx_hash toy_env) ?S sample_tx 0 (ucast (1 :: byte))"
    by (simp add: SignatureHash_def sighash_preimage_def sighash_tx_def toy_env_def sample_tx_def Let_def)
  show ?thesis using SignSignature_P2PKH [OF refl n k pk c ht hsh d l v, of id "\<lambda>_. True"] by simp
qed

end
