(* ===== verification/Script_Consensus.thy ===== *)
theory Script_Consensus imports Bignum Script_Verify begin

text \<open>
  The consensus side of \<open>src/src/script.cpp\<close>: the overload of \<open>EvalScript\<close> that takes a transaction,
  computes with \<open>CBigNum\<close>, answers only true or false and goes through the signature cache, with the
  overload of \<open>VerifyScript\<close> and \<open>VerifySignature\<close> over it. The caller's stack is a reference: a run
  that returns false leaves it as it is at that point, which is \<open>Inl\<close> of that stack. The cases of
  the disabled opcodes cannot be reached and are not modelled. Its result is that of the other
  overload with the right flags.
\<close>

unbundle bit_operations_syntax

text \<open>
  What the call passes besides stack and script; the hash functions here are OpenSSL's.
\<close>

record tx_env =
  te_flags :: verify_flags
  te_low_s :: "bytes \<Rightarrow> bool"
  te_bn :: bn_lib
  te_ripemd160 :: "bytes \<Rightarrow> bytes"
  te_sha1 :: "bytes \<Rightarrow> bytes"
  te_sha256 :: "bytes \<Rightarrow> bytes"
  te_sig :: sig_env
  te_txTo :: CTransaction
  te_nIn :: nat
  te_nHashType :: u32

type_synonym bool_result = "valtype list + script_state"

abbreviation fails :: "script_state \<Rightarrow> bool_result" where
  "fails st \<equiv> Inl (stack st)"

definition CastToBigNum :: "bn_lib \<Rightarrow> valtype \<Rightarrow> nat \<Rightarrow> int option" where
  "CastToBigNum L vch max_size =
     (if length vch > max_size then None
      else Some (CBigNum_setvch L (CBigNum_getvch L (CBigNum_setvch L vch))))"

definition nDefaultMaxNumSize :: nat where "nDefaultMaxNumSize = 4"

definition big :: "tx_env \<Rightarrow> valtype \<Rightarrow> int option" where
  "big E vch = CastToBigNum (te_bn E) vch nDefaultMaxNumSize"

text \<open>\<open>CBigNum bn(n)\<close> for an \<open>int\<close>.\<close>

definition CBigNum_of_int :: "bn_lib \<Rightarrow> int \<Rightarrow> int" where
  "CBigNum_of_int L n = (if n \<ge> 0 then CBigNum_setulong (of_int n) else CBigNum_setint64 L (of_int n))"

subsection \<open>Control\<close>

definition exec_push_number_v1 :: "tx_env \<Rightarrow> opcode \<Rightarrow> script_state \<Rightarrow> bool_result" where
  "exec_push_number_v1 E opcode st =
     Inr (st\<lparr>stack := CBigNum_getvch (te_bn E) (CBigNum_of_int (te_bn E) (int opcode - (int OP_1 - 1))) # stack st\<rparr>)"

definition exec_NOPx_v1 :: "tx_env \<Rightarrow> script_state \<Rightarrow> bool_result" where
  "exec_NOPx_v1 E st =
     (if has_flag (te_flags E) SCRIPT_VERIFY_DISCOURAGE_UPGRADABLE_NOPS then fails st else Inr st)"

definition exec_IF_v1 :: "bool \<Rightarrow> opcode \<Rightarrow> script_state \<Rightarrow> bool_result" where
  "exec_IF_v1 fExec opcode st =
     (if fExec then
        (case stack st of
           [] \<Rightarrow> fails st
         | vch # xs \<Rightarrow>
             (let fValue = CastToBool vch;
                  fValue' = (if opcode = OP_NOTIF then \<not> fValue else fValue)
              in Inr (st\<lparr>stack := xs, vfExec := fValue' # vfExec st\<rparr>)))
      else Inr (st\<lparr>vfExec := False # vfExec st\<rparr>))"

definition exec_ELSE_v1 :: "script_state \<Rightarrow> bool_result" where
  "exec_ELSE_v1 st =
     (case vfExec st of [] \<Rightarrow> fails st | b # bs \<Rightarrow> Inr (st\<lparr>vfExec := (\<not> b) # bs\<rparr>))"

definition exec_ENDIF_v1 :: "script_state \<Rightarrow> bool_result" where
  "exec_ENDIF_v1 st = (case vfExec st of [] \<Rightarrow> fails st | b # bs \<Rightarrow> Inr (st\<lparr>vfExec := bs\<rparr>))"

definition exec_VERIFY_v1 :: "script_state \<Rightarrow> bool_result" where
  "exec_VERIFY_v1 st =
     (case stack st of
        [] \<Rightarrow> fails st
      | vch # xs \<Rightarrow> if CastToBool vch then Inr (st\<lparr>stack := xs\<rparr>) else fails st)"

definition exec_RETURN_v1 :: "script_state \<Rightarrow> bool_result" where
  "exec_RETURN_v1 st = fails st"

subsection \<open>Stack operations\<close>

definition exec_TOALTSTACK_v1 :: "script_state \<Rightarrow> bool_result" where
  "exec_TOALTSTACK_v1 st =
     (case stack st of
        [] \<Rightarrow> fails st | x # xs \<Rightarrow> Inr (st\<lparr>altstack := x # altstack st, stack := xs\<rparr>))"

definition exec_FROMALTSTACK_v1 :: "script_state \<Rightarrow> bool_result" where
  "exec_FROMALTSTACK_v1 st =
     (case altstack st of
        [] \<Rightarrow> fails st | x # xs \<Rightarrow> Inr (st\<lparr>stack := x # stack st, altstack := xs\<rparr>))"

definition exec_2DROP_v1 :: "script_state \<Rightarrow> bool_result" where
  "exec_2DROP_v1 st = (case stack st of x2 # x1 # xs \<Rightarrow> Inr (st\<lparr>stack := xs\<rparr>) | _ \<Rightarrow> fails st)"

definition exec_2DUP_v1 :: "script_state \<Rightarrow> bool_result" where
  "exec_2DUP_v1 st =
     (case stack st of
        x2 # x1 # xs \<Rightarrow> Inr (st\<lparr>stack := x2 # x1 # x2 # x1 # xs\<rparr>) | _ \<Rightarrow> fails st)"

definition exec_3DUP_v1 :: "script_state \<Rightarrow> bool_result" where
  "exec_3DUP_v1 st =
     (case stack st of
        x3 # x2 # x1 # xs \<Rightarrow> Inr (st\<lparr>stack := x3 # x2 # x1 # x3 # x2 # x1 # xs\<rparr>) | _ \<Rightarrow> fails st)"

definition exec_2OVER_v1 :: "script_state \<Rightarrow> bool_result" where
  "exec_2OVER_v1 st =
     (case stack st of
        x4 # x3 # x2 # x1 # xs \<Rightarrow> Inr (st\<lparr>stack := x2 # x1 # x4 # x3 # x2 # x1 # xs\<rparr>) | _ \<Rightarrow> fails st)"

definition exec_2ROT_v1 :: "script_state \<Rightarrow> bool_result" where
  "exec_2ROT_v1 st =
     (case stack st of
        x6 # x5 # x4 # x3 # x2 # x1 # xs \<Rightarrow> Inr (st\<lparr>stack := x2 # x1 # x6 # x5 # x4 # x3 # xs\<rparr>)
      | _ \<Rightarrow> fails st)"

definition exec_2SWAP_v1 :: "script_state \<Rightarrow> bool_result" where
  "exec_2SWAP_v1 st =
     (case stack st of
        x4 # x3 # x2 # x1 # xs \<Rightarrow> Inr (st\<lparr>stack := x2 # x1 # x4 # x3 # xs\<rparr>) | _ \<Rightarrow> fails st)"

definition exec_IFDUP_v1 :: "script_state \<Rightarrow> bool_result" where
  "exec_IFDUP_v1 st =
     (case stack st of
        [] \<Rightarrow> fails st | x # xs \<Rightarrow> if CastToBool x then Inr (st\<lparr>stack := x # x # xs\<rparr>) else Inr st)"

definition exec_DEPTH_v1 :: "tx_env \<Rightarrow> script_state \<Rightarrow> bool_result" where
  "exec_DEPTH_v1 E st =
     Inr (st\<lparr>stack := CBigNum_getvch (te_bn E) (CBigNum_setulong (of_nat (length (stack st)))) # stack st\<rparr>)"

definition exec_DROP_v1 :: "script_state \<Rightarrow> bool_result" where
  "exec_DROP_v1 st = (case stack st of [] \<Rightarrow> fails st | x # xs \<Rightarrow> Inr (st\<lparr>stack := xs\<rparr>))"

definition exec_DUP_v1 :: "script_state \<Rightarrow> bool_result" where
  "exec_DUP_v1 st = (case stack st of [] \<Rightarrow> fails st | x # xs \<Rightarrow> Inr (st\<lparr>stack := x # x # xs\<rparr>))"

definition exec_NIP_v1 :: "script_state \<Rightarrow> bool_result" where
  "exec_NIP_v1 st = (case stack st of x2 # x1 # xs \<Rightarrow> Inr (st\<lparr>stack := x2 # xs\<rparr>) | _ \<Rightarrow> fails st)"

definition exec_OVER_v1 :: "script_state \<Rightarrow> bool_result" where
  "exec_OVER_v1 st =
     (case stack st of x2 # x1 # xs \<Rightarrow> Inr (st\<lparr>stack := x1 # x2 # x1 # xs\<rparr>) | _ \<Rightarrow> fails st)"

text \<open>The number is popped before its range is tested.\<close>

definition exec_PICK_ROLL_v1 :: "tx_env \<Rightarrow> opcode \<Rightarrow> script_state \<Rightarrow> bool_result" where
  "exec_PICK_ROLL_v1 E opcode st =
     (if length (stack st) < 2 then fails st
      else
        (case big E (hd (stack st)) of
           None \<Rightarrow> fails st
         | Some bn \<Rightarrow>
             (let n = CBigNum_getint bn; xs = tl (stack st) in
              if n < 0 \<or> n \<ge> int (length xs) then Inl xs
              else let vch = xs ! nat n;
                       xs' = (if opcode = OP_ROLL then take (nat n) xs @ drop (nat n + 1) xs else xs)
                   in Inr (st\<lparr>stack := vch # xs'\<rparr>))))"

definition exec_ROT_v1 :: "script_state \<Rightarrow> bool_result" where
  "exec_ROT_v1 st =
     (case stack st of x3 # x2 # x1 # xs \<Rightarrow> Inr (st\<lparr>stack := x1 # x3 # x2 # xs\<rparr>) | _ \<Rightarrow> fails st)"

definition exec_SWAP_v1 :: "script_state \<Rightarrow> bool_result" where
  "exec_SWAP_v1 st =
     (case stack st of x2 # x1 # xs \<Rightarrow> Inr (st\<lparr>stack := x1 # x2 # xs\<rparr>) | _ \<Rightarrow> fails st)"

definition exec_TUCK_v1 :: "script_state \<Rightarrow> bool_result" where
  "exec_TUCK_v1 st =
     (case stack st of x2 # x1 # xs \<Rightarrow> Inr (st\<lparr>stack := x2 # x1 # x2 # xs\<rparr>) | _ \<Rightarrow> fails st)"

definition exec_SIZE_v1 :: "tx_env \<Rightarrow> script_state \<Rightarrow> bool_result" where
  "exec_SIZE_v1 E st =
     (case stack st of
        [] \<Rightarrow> fails st
      | x # xs \<Rightarrow> Inr (st\<lparr>stack := CBigNum_getvch (te_bn E) (CBigNum_setulong (of_nat (length x))) # x # xs\<rparr>))"

definition exec_EQUAL_v1 :: "opcode \<Rightarrow> script_state \<Rightarrow> bool_result" where
  "exec_EQUAL_v1 opcode st =
     (case stack st of
        vch2 # vch1 # xs \<Rightarrow>
          (let fEqual = (vch1 = vch2) in
           if opcode = OP_EQUALVERIFY then
             (if fEqual then Inr (st\<lparr>stack := xs\<rparr>) else Inl (vchFalse # xs))
           else Inr (st\<lparr>stack := bool_vch fEqual # xs\<rparr>))
      | _ \<Rightarrow> fails st)"

subsection \<open>Numeric operations\<close>

text \<open>The results of the comparisons are bools, converted by the constructor for \<open>int\<close>.\<close>

definition unary_big :: "bn_lib \<Rightarrow> opcode \<Rightarrow> int \<Rightarrow> int" where
  "unary_big L opcode bn =
     (if opcode = OP_1ADD then bn + 1
      else if opcode = OP_1SUB then bn - 1
      else if opcode = OP_NEGATE then - bn
      else if opcode = OP_ABS then (if bn < 0 then - bn else bn)
      else if opcode = OP_NOT then CBigNum_of_int L (of_bool (bn = 0))
      else CBigNum_of_int L (of_bool (bn \<noteq> 0)))"

definition exec_unary_num_v1 :: "tx_env \<Rightarrow> opcode \<Rightarrow> script_state \<Rightarrow> bool_result" where
  "exec_unary_num_v1 E opcode st =
     (case stack st of
        [] \<Rightarrow> fails st
      | x # xs \<Rightarrow>
          (case big E x of
             None \<Rightarrow> fails st
           | Some bn \<Rightarrow> Inr (st\<lparr>stack := CBigNum_getvch (te_bn E) (unary_big (te_bn E) opcode bn) # xs\<rparr>)))"

definition binary_big :: "bn_lib \<Rightarrow> opcode \<Rightarrow> int \<Rightarrow> int \<Rightarrow> int" where
  "binary_big L opcode bn1 bn2 =
     (if opcode = OP_ADD then bn1 + bn2
      else if opcode = OP_SUB then bn1 - bn2
      else if opcode = OP_BOOLAND then CBigNum_of_int L (of_bool (bn1 \<noteq> 0 \<and> bn2 \<noteq> 0))
      else if opcode = OP_BOOLOR then CBigNum_of_int L (of_bool (bn1 \<noteq> 0 \<or> bn2 \<noteq> 0))
      else if opcode = OP_NUMEQUAL then CBigNum_of_int L (of_bool (bn1 = bn2))
      else if opcode = OP_NUMEQUALVERIFY then CBigNum_of_int L (of_bool (bn1 = bn2))
      else if opcode = OP_NUMNOTEQUAL then CBigNum_of_int L (of_bool (bn1 \<noteq> bn2))
      else if opcode = OP_LESSTHAN then CBigNum_of_int L (of_bool (bn1 < bn2))
      else if opcode = OP_GREATERTHAN then CBigNum_of_int L (of_bool (bn1 > bn2))
      else if opcode = OP_LESSTHANOREQUAL then CBigNum_of_int L (of_bool (bn1 \<le> bn2))
      else if opcode = OP_GREATERTHANOREQUAL then CBigNum_of_int L (of_bool (bn1 \<ge> bn2))
      else if opcode = OP_MIN then (if bn1 < bn2 then bn1 else bn2)
      else (if bn1 > bn2 then bn1 else bn2))"

definition exec_binary_num_v1 :: "tx_env \<Rightarrow> opcode \<Rightarrow> script_state \<Rightarrow> bool_result" where
  "exec_binary_num_v1 E opcode st =
     (case stack st of
        x2 # x1 # xs \<Rightarrow>
          (case (big E x1, big E x2) of
             (Some bn1, Some bn2) \<Rightarrow>
               (let vch = CBigNum_getvch (te_bn E) (binary_big (te_bn E) opcode bn1 bn2) in
                if opcode = OP_NUMEQUALVERIFY then
                  (if CastToBool vch then Inr (st\<lparr>stack := xs\<rparr>) else Inl (vch # xs))
                else Inr (st\<lparr>stack := vch # xs\<rparr>))
           | _ \<Rightarrow> fails st)
      | _ \<Rightarrow> fails st)"

definition exec_WITHIN_v1 :: "tx_env \<Rightarrow> script_state \<Rightarrow> bool_result" where
  "exec_WITHIN_v1 E st =
     (case stack st of
        x3 # x2 # x1 # xs \<Rightarrow>
          (case (big E x1, big E x2, big E x3) of
             (Some bn1, Some bn2, Some bn3) \<Rightarrow>
               Inr (st\<lparr>stack := bool_vch (bn2 \<le> bn1 \<and> bn1 < bn3) # xs\<rparr>)
           | _ \<Rightarrow> fails st)
      | _ \<Rightarrow> fails st)"

subsection \<open>Crypto\<close>

definition exec_hash_v1 :: "tx_env \<Rightarrow> opcode \<Rightarrow> script_state \<Rightarrow> bool_result" where
  "exec_hash_v1 E opcode st =
     (case stack st of
        [] \<Rightarrow> fails st
      | vch # xs \<Rightarrow>
          (let vchHash =
             (if opcode = OP_RIPEMD160 then te_ripemd160 E vch
              else if opcode = OP_SHA1 then te_sha1 E vch
              else if opcode = OP_SHA256 then te_sha256 E vch
              else if opcode = OP_HASH160 then te_ripemd160 E (te_sha256 E vch)
              else te_sha256 E (te_sha256 E vch))
           in Inr (st\<lparr>stack := vchHash # xs\<rparr>)))"

definition exec_CODESEPARATOR_v1 :: "script_state \<Rightarrow> bool_result" where
  "exec_CODESEPARATOR_v1 st = Inr (st\<lparr>pbegincodehash := pc st\<rparr>)"

text \<open>
  The test and the check that both signature opcodes make: \<open>None\<close> is the return under
  \<open>SCRIPT_VERIFY_STRICTENC\<close>. The cache is passed through.
\<close>

definition check_one :: "tx_env \<Rightarrow> sig_cache \<Rightarrow> valtype \<Rightarrow> valtype \<Rightarrow> script \<Rightarrow> bool option \<times> sig_cache" where
  "check_one E cache vchSig vchPubKey scriptCode =
     (let enc = CheckSignatureEncoding_v1 (te_low_s E) vchSig \<and> CheckPubKeyEncoding_v1 vchPubKey in
      if has_flag (te_flags E) SCRIPT_VERIFY_STRICTENC \<and> \<not> enc then (None, cache)
      else if \<not> enc then (Some False, cache)
      else case CheckSig (te_sig E) cache vchSig vchPubKey scriptCode (te_txTo E) (te_nIn E) (te_nHashType E)
                  (te_flags E) of
             (ok, cache') \<Rightarrow> (Some ok, cache'))"

definition exec_CHECKSIG_v1 :: "tx_env \<Rightarrow> opcode \<Rightarrow> script_state \<Rightarrow> sig_cache \<Rightarrow> bool_result \<times> sig_cache" where
  "exec_CHECKSIG_v1 E opcode st cache =
     (case stack st of
        vchPubKey # vchSig # xs \<Rightarrow>
          (let scriptCode = fst (FindAndDelete (pbegincodehash st) (push_data vchSig)) in
           case check_one E cache vchSig vchPubKey scriptCode of
             (None, cache') \<Rightarrow> (fails st, cache')
           | (Some fSuccess, cache') \<Rightarrow>
               (if opcode = OP_CHECKSIGVERIFY then
                  (if fSuccess then Inr (st\<lparr>stack := xs\<rparr>) else Inl (vchFalse # xs))
                else Inr (st\<lparr>stack := bool_vch fSuccess # xs\<rparr>), cache'))
      | _ \<Rightarrow> (fails st, cache))"

fun multisig_loop_v1 ::
  "tx_env \<Rightarrow> script \<Rightarrow> valtype list \<Rightarrow> valtype list \<Rightarrow> sig_cache \<Rightarrow> bool option \<times> sig_cache" where
  "multisig_loop_v1 E scriptCode [] keys cache = (Some True, cache)"
| "multisig_loop_v1 E scriptCode (vchSig # sigs) (vchPubKey # keys) cache =
     (case check_one E cache vchSig vchPubKey scriptCode of
        (None, cache') \<Rightarrow> (None, cache')
      | (Some fOk, cache') \<Rightarrow>
          (let sigs' = (if fOk then sigs else vchSig # sigs)
           in if length sigs' > length keys then (Some False, cache')
              else multisig_loop_v1 E scriptCode sigs' keys cache'))"
| "multisig_loop_v1 E scriptCode (vchSig # sigs) [] cache = (Some False, cache)"

definition exec_CHECKMULTISIG_v1 :: "tx_env \<Rightarrow> opcode \<Rightarrow> script_state \<Rightarrow> sig_cache \<Rightarrow> bool_result \<times> sig_cache" where
  "exec_CHECKMULTISIG_v1 E opcode st cache =
     (if length (stack st) < 1 then (fails st, cache)
      else case big E (stack st ! 0) of
        None \<Rightarrow> (fails st, cache)
      | Some bn1 \<Rightarrow>
          (let nKeysCount = CBigNum_getint bn1 in
           if nKeysCount < 0 \<or> nKeysCount > 20 then (fails st, cache)
           else let nKeys = nat nKeysCount; nOps = nOpCount st + nKeys in
           if nOps > 201 then (fails st, cache)
           else if length (stack st) < 2 + nKeys then (fails st, cache)
           else case big E (stack st ! (1 + nKeys)) of
             None \<Rightarrow> (fails st, cache)
           | Some bn2 \<Rightarrow>
               (let nSigsCount = CBigNum_getint bn2 in
                if nSigsCount < 0 \<or> nSigsCount > nKeysCount then (fails st, cache)
                else let nSigs = nat nSigsCount in
                if length (stack st) < 3 + nKeys + nSigs then (fails st, cache)
                else
                  let keys = take nKeys (drop 1 (stack st));
                      sigs = take nSigs (drop (2 + nKeys) (stack st));
                      scriptCode = foldl (\<lambda>code vchSig. fst (FindAndDelete code (push_data vchSig)))
                                     (pbegincodehash st) sigs
                  in case multisig_loop_v1 E scriptCode sigs keys cache of
                       (None, cache') \<Rightarrow> (fails st, cache')
                     | (Some fSuccess, cache') \<Rightarrow>
                         (case drop (2 + nKeys + nSigs) (stack st) of
                            [] \<Rightarrow> Inl []
                          | dummy # xs \<Rightarrow>
                              if has_flag (te_flags E) SCRIPT_VERIFY_NULLDUMMY \<and> length dummy \<noteq> 0
                              then Inl (dummy # xs)
                              else
                                let st' = st\<lparr>nOpCount := nOps\<rparr> in
                                if opcode = OP_CHECKMULTISIGVERIFY then
                                  (if fSuccess then Inr (st'\<lparr>stack := xs\<rparr>) else Inl (vchFalse # xs))
                                else Inr (st'\<lparr>stack := bool_vch fSuccess # xs\<rparr>), cache'))))"

subsection \<open>The switch and the loop\<close>

definition exec_simple_v1 :: "tx_env \<Rightarrow> bool \<Rightarrow> opcode \<Rightarrow> script_state \<Rightarrow> bool_result" where
  "exec_simple_v1 E fExec opcode st =
     (if opcode = OP_1NEGATE \<or> (OP_1 \<le> opcode \<and> opcode \<le> OP_16) then exec_push_number_v1 E opcode st
      else if opcode = OP_NOP then Inr st
      else if OP_NOP1 \<le> opcode \<and> opcode \<le> OP_NOP10 then exec_NOPx_v1 E st
      else if opcode = OP_IF \<or> opcode = OP_NOTIF then exec_IF_v1 fExec opcode st
      else if opcode = OP_ELSE then exec_ELSE_v1 st
      else if opcode = OP_ENDIF then exec_ENDIF_v1 st
      else if opcode = OP_VERIFY then exec_VERIFY_v1 st
      else if opcode = OP_RETURN then exec_RETURN_v1 st
      else if opcode = OP_TOALTSTACK then exec_TOALTSTACK_v1 st
      else if opcode = OP_FROMALTSTACK then exec_FROMALTSTACK_v1 st
      else if opcode = OP_2DROP then exec_2DROP_v1 st
      else if opcode = OP_2DUP then exec_2DUP_v1 st
      else if opcode = OP_3DUP then exec_3DUP_v1 st
      else if opcode = OP_2OVER then exec_2OVER_v1 st
      else if opcode = OP_2ROT then exec_2ROT_v1 st
      else if opcode = OP_2SWAP then exec_2SWAP_v1 st
      else if opcode = OP_IFDUP then exec_IFDUP_v1 st
      else if opcode = OP_DEPTH then exec_DEPTH_v1 E st
      else if opcode = OP_DROP then exec_DROP_v1 st
      else if opcode = OP_DUP then exec_DUP_v1 st
      else if opcode = OP_NIP then exec_NIP_v1 st
      else if opcode = OP_OVER then exec_OVER_v1 st
      else if opcode = OP_PICK \<or> opcode = OP_ROLL then exec_PICK_ROLL_v1 E opcode st
      else if opcode = OP_ROT then exec_ROT_v1 st
      else if opcode = OP_SWAP then exec_SWAP_v1 st
      else if opcode = OP_TUCK then exec_TUCK_v1 st
      else if opcode = OP_SIZE then exec_SIZE_v1 E st
      else if opcode = OP_EQUAL \<or> opcode = OP_EQUALVERIFY then exec_EQUAL_v1 opcode st
      else if opcode \<in> {OP_1ADD, OP_1SUB, OP_NEGATE, OP_ABS, OP_NOT, OP_0NOTEQUAL}
      then exec_unary_num_v1 E opcode st
      else if opcode = OP_ADD \<or> opcode = OP_SUB \<or> (OP_BOOLAND \<le> opcode \<and> opcode \<le> OP_MAX)
      then exec_binary_num_v1 E opcode st
      else if opcode = OP_WITHIN then exec_WITHIN_v1 E st
      else if opcode \<in> {OP_RIPEMD160, OP_SHA1, OP_SHA256, OP_HASH160, OP_HASH256} then exec_hash_v1 E opcode st
      else if opcode = OP_CODESEPARATOR then exec_CODESEPARATOR_v1 st
      else fails st)"

definition exec_op_v1 :: "tx_env \<Rightarrow> bool \<Rightarrow> opcode \<Rightarrow> script_state \<Rightarrow> sig_cache \<Rightarrow> bool_result \<times> sig_cache" where
  "exec_op_v1 E fExec opcode st cache =
     (if opcode = OP_CHECKSIG \<or> opcode = OP_CHECKSIGVERIFY then exec_CHECKSIG_v1 E opcode st cache
      else if opcode = OP_CHECKMULTISIG \<or> opcode = OP_CHECKMULTISIGVERIFY
      then exec_CHECKMULTISIG_v1 E opcode st cache
      else (exec_simple_v1 E fExec opcode st, cache))"

definition eval_step_v1 :: "tx_env \<Rightarrow> script_state \<Rightarrow> sig_cache \<Rightarrow> bool_result \<times> sig_cache" where
  "eval_step_v1 E st cache =
     (let fExec = (False \<notin> set (vfExec st)) in
      case GetOp2 (pc st) of
        (ok, opcode, vchPushValue, rest) \<Rightarrow>
          if \<not> ok then (fails st, cache)
          else if length vchPushValue > MAX_SCRIPT_ELEMENT_SIZE then (fails st, cache)
          else
            let nOps = (if opcode > OP_16 then nOpCount st + 1 else nOpCount st) in
            if opcode > OP_16 \<and> nOps > 201 then (fails st, cache)
            else if opcode \<in> set disabled_opcodes then (fails st, cache)
            else
              let st1 = st\<lparr>pc := rest, nOpCount := nOps\<rparr>;
                  (r, cache') = (if fExec \<and> opcode \<le> OP_PUSHDATA4
                                 then (Inr (st1\<lparr>stack := vchPushValue # stack st1\<rparr>), cache)
                                 else if fExec \<or> (OP_IF \<le> opcode \<and> opcode \<le> OP_ENDIF)
                                 then exec_op_v1 E fExec opcode st1 cache
                                 else (Inr st1, cache))
              in (case r of
                    Inl stk \<Rightarrow> Inl stk
                  | Inr st2 \<Rightarrow> if length (stack st2) + length (altstack st2) > 1000 then fails st2 else Inr st2,
                  cache'))"

text \<open>Every instruction consumes bytes, as in the other overload.\<close>

lemmas exec_v1_defs = exec_push_number_v1_def exec_NOPx_v1_def exec_IF_v1_def exec_ELSE_v1_def exec_ENDIF_v1_def
  exec_VERIFY_v1_def exec_RETURN_v1_def exec_TOALTSTACK_v1_def exec_FROMALTSTACK_v1_def exec_2DROP_v1_def
  exec_2DUP_v1_def exec_3DUP_v1_def exec_2OVER_v1_def exec_2ROT_v1_def exec_2SWAP_v1_def exec_IFDUP_v1_def
  exec_DEPTH_v1_def exec_DROP_v1_def exec_DUP_v1_def exec_NIP_v1_def exec_OVER_v1_def exec_PICK_ROLL_v1_def
  exec_ROT_v1_def exec_SWAP_v1_def exec_TUCK_v1_def exec_SIZE_v1_def exec_EQUAL_v1_def exec_unary_num_v1_def
  exec_binary_num_v1_def exec_WITHIN_v1_def exec_hash_v1_def exec_CODESEPARATOR_v1_def

definition keeps_pc :: "script_state \<Rightarrow> bool_result \<Rightarrow> bool" where
  "keeps_pc st r \<longleftrightarrow> (\<forall>st'. r = Inr st' \<longrightarrow> pc st' = pc st)"

lemma keeps_pc_Inl [simp]: "keeps_pc st (Inl x)"
  by (simp add: keeps_pc_def)

lemma keeps_pc_if: "keeps_pc st a \<Longrightarrow> keeps_pc st b \<Longrightarrow> keeps_pc st (if P then a else b)"
  by simp

lemma exec_v1_pc [step_keeps]:
  "keeps_pc st (exec_push_number_v1 E op st)" "keeps_pc st (exec_NOPx_v1 E st)" "keeps_pc st (exec_IF_v1 f op st)"
  "keeps_pc st (exec_ELSE_v1 st)" "keeps_pc st (exec_ENDIF_v1 st)" "keeps_pc st (exec_VERIFY_v1 st)"
  "keeps_pc st (exec_RETURN_v1 st)" "keeps_pc st (exec_TOALTSTACK_v1 st)" "keeps_pc st (exec_FROMALTSTACK_v1 st)"
  "keeps_pc st (exec_2DROP_v1 st)" "keeps_pc st (exec_2DUP_v1 st)" "keeps_pc st (exec_3DUP_v1 st)"
  "keeps_pc st (exec_2OVER_v1 st)" "keeps_pc st (exec_2ROT_v1 st)" "keeps_pc st (exec_2SWAP_v1 st)"
  "keeps_pc st (exec_IFDUP_v1 st)" "keeps_pc st (exec_DEPTH_v1 E st)" "keeps_pc st (exec_DROP_v1 st)"
  "keeps_pc st (exec_DUP_v1 st)" "keeps_pc st (exec_NIP_v1 st)" "keeps_pc st (exec_OVER_v1 st)"
  "keeps_pc st (exec_PICK_ROLL_v1 E op st)" "keeps_pc st (exec_ROT_v1 st)" "keeps_pc st (exec_SWAP_v1 st)"
  "keeps_pc st (exec_TUCK_v1 st)" "keeps_pc st (exec_SIZE_v1 E st)" "keeps_pc st (exec_EQUAL_v1 op st)"
  "keeps_pc st (exec_unary_num_v1 E op st)" "keeps_pc st (exec_binary_num_v1 E op st)"
  "keeps_pc st (exec_WITHIN_v1 E st)" "keeps_pc st (exec_hash_v1 E op st)" "keeps_pc st (exec_CODESEPARATOR_v1 st)"
  by (auto simp: exec_v1_defs keeps_pc_def Let_def split: list.splits if_splits option.splits)

lemma exec_simple_v1_pc: "keeps_pc st (exec_simple_v1 E f op st)"
  unfolding exec_simple_v1_def by (intro keeps_pc_if exec_v1_pc keeps_pc_Inl) (simp add: keeps_pc_def)

lemma exec_sig_v1_pc:
  "keeps_pc st (fst (exec_CHECKSIG_v1 E op st c))" "keeps_pc st (fst (exec_CHECKMULTISIG_v1 E op st c))"
  by (auto simp: exec_CHECKSIG_v1_def exec_CHECKMULTISIG_v1_def keeps_pc_def Let_def
      split: list.splits if_splits option.splits prod.splits)

lemma exec_op_v1_pc: "keeps_pc st (fst (exec_op_v1 E f op st c))"
  by (simp add: exec_op_v1_def exec_sig_v1_pc exec_simple_v1_pc)

text \<open>A step, taken apart once for both results.\<close>

lemma eval_step_v1_eq:
  assumes g: "GetOp2 (pc st) = (ok, op, d, rest)"
    and n: "n = (if op > OP_16 then nOpCount st + 1 else nOpCount st)"
    and st1: "st1 = st\<lparr>pc := rest, nOpCount := n\<rparr>"
    and r: "r = (if False \<notin> set (vfExec st) \<and> op \<le> OP_PUSHDATA4 then (Inr (st1\<lparr>stack := d # stack st1\<rparr>), c)
       else if False \<notin> set (vfExec st) \<or> (OP_IF \<le> op \<and> op \<le> OP_ENDIF)
       then exec_op_v1 E (False \<notin> set (vfExec st)) op st1 c else (Inr st1, c))"
  shows "eval_step_v1 E st c =
    (if \<not> ok \<or> length d > MAX_SCRIPT_ELEMENT_SIZE \<or> op > OP_16 \<and> n > 201 \<or> op \<in> set disabled_opcodes
     then (fails st, c)
     else (case fst r of
        Inl stk \<Rightarrow> Inl stk
      | Inr st2 \<Rightarrow> if length (stack st2) + length (altstack st2) > 1000 then fails st2 else Inr st2, snd r))"
  unfolding eval_step_v1_def g Let_def prod.case n [symmetric] st1 [symmetric] r [symmetric]
  by (cases r) (auto split: sum.split)

lemma eval_step_v1_less:
  assumes "eval_step_v1 E st c = (Inr st', c')"
  shows "length (pc st') < length (pc st)"
proof -
  obtain ok op d rest where g: "GetOp2 (pc st) = (ok, op, d, rest)" by (cases "GetOp2 (pc st)") auto
  define n where "n = (if op > OP_16 then nOpCount st + 1 else nOpCount st)"
  define st1 where "st1 = st\<lparr>pc := rest, nOpCount := n\<rparr>"
  define r where "r = (if False \<notin> set (vfExec st) \<and> op \<le> OP_PUSHDATA4 then (Inr (st1\<lparr>stack := d # stack st1\<rparr>), c)
       else if False \<notin> set (vfExec st) \<or> (OP_IF \<le> op \<and> op \<le> OP_ENDIF)
       then exec_op_v1 E (False \<notin> set (vfExec st)) op st1 c else (Inr st1, c))"
  have "keeps_pc st1 (fst r)" using exec_op_v1_pc by (simp add: r_def keeps_pc_def)
  then have "ok \<and> pc st' = rest"
    using assms unfolding eval_step_v1_eq [OF g n_def st1_def r_def]
    by (auto simp: keeps_pc_def st1_def split: if_splits sum.splits)
  then show ?thesis using GetOp2_ok_rest [of "pc st" op d rest] g by simp
qed

function eval_loop_v1 :: "tx_env \<Rightarrow> script_state \<Rightarrow> sig_cache \<Rightarrow> bool_result \<times> sig_cache" where
  "eval_loop_v1 E st cache =
     (if pc st = [] then (Inr st, cache)
      else case eval_step_v1 E st cache of
             (Inl stk, cache') \<Rightarrow> (Inl stk, cache')
           | (Inr st', cache') \<Rightarrow> eval_loop_v1 E st' cache')"
  by pat_completeness auto
termination
  by (relation "measure (\<lambda>(E, st, c). length (pc st))") (auto dest: eval_step_v1_less [OF sym])

declare eval_loop_v1.simps [simp del]

text \<open>The answer, the stack the caller sees, and the cache.\<close>

definition EvalScript_v1 ::
  "tx_env \<Rightarrow> valtype list \<Rightarrow> script \<Rightarrow> sig_cache \<Rightarrow> bool \<times> valtype list \<times> sig_cache" where
  "EvalScript_v1 E stk script cache =
     (if length script > 10000 then (False, stk, cache)
      else case eval_loop_v1 E (initial_state stk script) cache of
             (Inl stk', cache') \<Rightarrow> (False, stk', cache')
           | (Inr st, cache') \<Rightarrow> if vfExec st \<noteq> [] then (False, stack st, cache') else (True, stack st, cache'))"

text \<open>
  \<open>VerifyScript\<close> evaluates pay-to-script-hash whatever the flags. \<open>None\<close> would be \<open>stackCopy.back()\<close>
  on an empty vector.
\<close>

definition VerifyScript_v1 :: "tx_env \<Rightarrow> script \<Rightarrow> script \<Rightarrow> sig_cache \<Rightarrow> bool option \<times> sig_cache" where
  "VerifyScript_v1 E sig_script pubkey_script cache =
     (case EvalScript_v1 E [] sig_script cache of
        (False, _, cache) \<Rightarrow> (Some False, cache)
      | (True, stk, cache) \<Rightarrow>
          let stackCopy = stk in
          (case EvalScript_v1 E stk pubkey_script cache of
             (False, _, cache) \<Rightarrow> (Some False, cache)
           | (True, [], cache) \<Rightarrow> (Some False, cache)
           | (True, res # _, cache) \<Rightarrow>
               if CastToBool res = False then (Some False, cache)
               else if IsPayToScriptHash pubkey_script then
                 (if \<not> IsPushOnly sig_script then (Some False, cache)
                  else case stackCopy of
                    [] \<Rightarrow> (None, cache)
                  | pubKeySerialized # stackCopy \<Rightarrow>
                      (case EvalScript_v1 E stackCopy pubKeySerialized cache of
                         (False, _, cache) \<Rightarrow> (Some False, cache)
                       | (True, [], cache) \<Rightarrow> (Some False, cache)
                       | (True, res # _, cache) \<Rightarrow> (Some (CastToBool res), cache)))
               else (Some True, cache)))"

text \<open>\<open>VerifySignature\<close> requires \<open>nIn < txTo.vin.size()\<close>; a failed \<open>assert\<close> is \<open>None\<close>.\<close>

definition VerifySignature :: "tx_env \<Rightarrow> CTransaction \<Rightarrow> sig_cache \<Rightarrow> bool option \<times> sig_cache" where
  "VerifySignature E txFrom cache =
     (let txTo = te_txTo E in
      if \<not> te_nIn E < length (vin txTo) then (None, cache)
      else let txin = vin txTo ! te_nIn E in
      if unat (op_n (prevout txin)) \<ge> length (vout txFrom) then (Some False, cache)
      else let txout = vout txFrom ! unat (op_n (prevout txin)) in
      if op_hash (prevout txin) \<noteq> CTransaction_GetHash (tx_hash (te_sig E)) txFrom then (Some False, cache)
      else VerifyScript_v1 E (scriptSig txin) (scriptPubKey txout) cache)"

subsection \<open>The two overloads agree\<close>

text \<open>
  The flags under which the other overload decides the same: canonical signatures are low-S, the
  minimal-push rule is off, pay-to-script-hash is on.
\<close>

definition v2_flags :: "verify_flags \<Rightarrow> verify_flags" where
  "v2_flags f = (f AND 0x92) OR (if has_flag f SCRIPT_VERIFY_STRICTENC then SCRIPT_VERIFY_LOW_S else 0) OR SCRIPT_VERIFY_P2SH"

text \<open>
  This overload makes the encoding tests of \<open>check_one\<close> under any flags. \<open>v2_env\<close>, a device of the proofs, puts them and
  the test of the hash type into the checker of the other overload; where they are made anyway it is the
  repository's checker (\<open>checker_env_sim\<close>).
\<close>

definition enc_ok :: "tx_env \<Rightarrow> valtype \<Rightarrow> valtype \<Rightarrow> bool" where
  "enc_ok E sig key \<longleftrightarrow> CheckSignatureEncoding_v1 (te_low_s E) sig \<and> CheckPubKeyEncoding_v1 key"

definition v2_env :: "tx_env \<Rightarrow> eval_env" where
  "v2_env E = \<lparr>env_flags = v2_flags (te_flags E), check_low_s = te_low_s E,
     check_sig = (\<lambda>sig key code. enc_ok E sig key \<and> (te_nHashType E = 0 \<or> te_nHashType E = ucast (last sig))
       \<and> SignatureChecker_CheckSig (te_sig E) (te_txTo E) (te_nIn E) sig key code)\<rparr>"

definition lib_ok :: "tx_env \<Rightarrow> bool" where
  "lib_ok E \<longleftrightarrow> bn_lib_ok (te_bn E) \<and> te_ripemd160 E = ripemd160_spec \<and> te_sha1 E = sha1_spec
     \<and> te_sha256 E = sha256_spec"

lemma v2_flags_simps:
  "has_flag (v2_flags f) SCRIPT_VERIFY_STRICTENC = has_flag f SCRIPT_VERIFY_STRICTENC"
  "has_flag (v2_flags f) SCRIPT_VERIFY_NULLDUMMY = has_flag f SCRIPT_VERIFY_NULLDUMMY"
  "has_flag (v2_flags f) SCRIPT_VERIFY_DISCOURAGE_UPGRADABLE_NOPS = has_flag f SCRIPT_VERIFY_DISCOURAGE_UPGRADABLE_NOPS"
  "has_flag (v2_flags f) SCRIPT_VERIFY_LOW_S = has_flag f SCRIPT_VERIFY_STRICTENC"
  "\<not> has_flag (v2_flags f) SCRIPT_VERIFY_MINIMALDATA" "\<not> has_flag (v2_flags f) SCRIPT_VERIFY_SIGPUSHONLY"
  "has_flag (v2_flags f) SCRIPT_VERIFY_P2SH"
  by (simp_all add: v2_flags_def has_flag_def bit.conj_disj_distrib2 and.assoc)

lemma v2_flags_enc:
  "has_flag (v2_flags f) (SCRIPT_VERIFY_DERSIG OR SCRIPT_VERIFY_LOW_S OR SCRIPT_VERIFY_STRICTENC) =
     has_flag f SCRIPT_VERIFY_STRICTENC"
proof -
  have "f AND 2 = 0 \<longleftrightarrow> \<not> bit f 1" using and_exp_eq_0_iff_not_bit [of f 1] by simp
  have split: "g AND 14 = 0 \<longleftrightarrow> g AND 4 = 0 \<and> g AND 8 = 0 \<and> g AND 2 = 0" for g :: verify_flags
  proof -
    have "g AND 14 = (g AND 4) OR (g AND 8) OR (g AND 2)" by (simp flip: bit.conj_disj_distrib)
    then show ?thesis by (simp add: or_eq_0_iff)
  qed
  have "v2_flags f AND 4 = 0" by (simp add: v2_flags_def bit.conj_disj_distrib2 and.assoc)
  then show ?thesis using v2_flags_simps(1,4) [of f] by (simp add: has_flag_def split)
qed

text \<open>Results agree when they continue in the same state or both end the run.\<close>

definition agrees :: "bool_result \<Rightarrow> step_result \<Rightarrow> bool" where
  "agrees r1 r2 \<longleftrightarrow> (case (r1, r2) of (Inr a, Inr b) \<Rightarrow> a = b | (Inl _, Inl _) \<Rightarrow> True | _ \<Rightarrow> False)"

lemma agrees_simps [simp]:
  "agrees (Inl x) (Inl e)" "agrees (Inr a) (Inr b) \<longleftrightarrow> a = b" "\<not> agrees (Inl x) (Inr b)" "\<not> agrees (Inr a) (Inl e)"
  by (simp_all add: agrees_def)

lemma agrees_if: "(P \<Longrightarrow> agrees a b) \<Longrightarrow> (\<not> P \<Longrightarrow> agrees c d) \<Longrightarrow> agrees (if P then a else c) (if P then b else d)"
  by simp

named_theorems agreement

lemma exec_agree_stack [agreement]:
  "agrees (exec_IF_v1 f op st) (exec_IF f op st)" "agrees (exec_ELSE_v1 st) (exec_ELSE st)"
  "agrees (exec_ENDIF_v1 st) (exec_ENDIF st)" "agrees (exec_VERIFY_v1 st) (exec_VERIFY st)"
  "agrees (exec_RETURN_v1 st) (exec_RETURN st)" "agrees (exec_TOALTSTACK_v1 st) (exec_TOALTSTACK st)"
  "agrees (exec_FROMALTSTACK_v1 st) (exec_FROMALTSTACK st)" "agrees (exec_2DROP_v1 st) (exec_2DROP st)"
  "agrees (exec_2DUP_v1 st) (exec_2DUP st)" "agrees (exec_3DUP_v1 st) (exec_3DUP st)"
  "agrees (exec_2OVER_v1 st) (exec_2OVER st)" "agrees (exec_2ROT_v1 st) (exec_2ROT st)"
  "agrees (exec_2SWAP_v1 st) (exec_2SWAP st)" "agrees (exec_IFDUP_v1 st) (exec_IFDUP st)"
  "agrees (exec_DROP_v1 st) (exec_DROP st)" "agrees (exec_DUP_v1 st) (exec_DUP st)"
  "agrees (exec_NIP_v1 st) (exec_NIP st)" "agrees (exec_OVER_v1 st) (exec_OVER st)"
  "agrees (exec_ROT_v1 st) (exec_ROT st)" "agrees (exec_SWAP_v1 st) (exec_SWAP st)"
  "agrees (exec_TUCK_v1 st) (exec_TUCK st)" "agrees (exec_EQUAL_v1 op st) (exec_EQUAL op st)"
  "agrees (exec_CODESEPARATOR_v1 st) (exec_CODESEPARATOR st)"
  by (auto simp: exec_v1_defs exec_defs Let_def split: list.splits)

lemma exec_NOPx_agree [agreement]: "agrees (exec_NOPx_v1 E st) (exec_NOPx (v2_env E) st)"
  by (simp add: exec_NOPx_v1_def exec_NOPx_def v2_env_def v2_flags_simps)

lemma big_num: "lib_ok E \<Longrightarrow> big E v = num (v2_env E) v"
proof -
  assume "lib_ok E"
  then have L: "bn_lib_ok (te_bn E)" by (simp add: lib_ok_def)
  have len: "length v \<le> 4 \<Longrightarrow> CastToBigNum (te_bn E) v 4 = Some (signed_value v)"
  proof -
    assume v: "length v \<le> 4"
    then have 1: "CBigNum_setvch (te_bn E) v = signed_value v" using setvch_value [OF L, of v] by simp
    have "\<bar>signed_value v\<bar> < 2 ^ 31" using ctor_bound [of v False] v by (simp add: ctor_eq)
    then have "length (CBigNum_getvch (te_bn E) (signed_value v)) \<le> 8"
      using getvch_serialize [OF L, of "signed_value v"] length_serialize [of "signed_value v"] by simp
    then show ?thesis using v 1 setvch_value [OF L] getvch_value [OF L] signed_value_payload
      by (simp add: CastToBigNum_def)
  qed
  then show ?thesis
    by (simp add: big_def num_def fRequireMinimal_def v2_env_def v2_flags_simps nDefaultMaxNumSize_def ctor_eq)
      (simp add: CastToBigNum_def)
qed

lemma big_getint: "lib_ok E \<Longrightarrow> big E v = Some n \<Longrightarrow> CBigNum_getint n = CScriptNum_getint n"
proof -
  assume "lib_ok E" "big E v = Some n"
  then have "num (v2_env E) v = Some n" by (simp add: big_num)
  then have b: "\<bar>n\<bar> < 2 ^ 31" and g: "CScriptNum_getint n = n" by (rule num_bound, rule num_getint)
  obtain w where w: "BN_get_word n = w" "uint w = \<bar>n\<bar>"
    using b by (simp add: BN_get_word_def uint_word_of_int_eq take_bit_int_eq_self)
  have "\<not> w > 0x7fffffff" using b w(2) by (simp add: word_less_def)
  then show ?thesis using b g w by (simp add: CBigNum_getint_def Let_def)
qed

lemma of_int_big: "lib_ok E \<Longrightarrow> \<bar>n\<bar> < 2 ^ 31 \<Longrightarrow> CBigNum_of_int (te_bn E) n = n"
proof -
  assume E: "lib_ok E" and n: "\<bar>n\<bar> < 2 ^ 31"
  show ?thesis
  proof (cases "n \<ge> 0")
    case True
    then show ?thesis using n by (simp add: CBigNum_of_int_def CBigNum_setulong_def uint_word_of_int_eq take_bit_int_eq_self)
  next
    case False
    have "sint (of_int n :: u64) = n"
      using n by (simp add: signed_of_int signed_take_bit_int_eq_self)
    then show ?thesis using False E by (simp add: CBigNum_of_int_def setint64_value lib_ok_def)
  qed
qed

lemma getvch_big: "lib_ok E \<Longrightarrow> \<bar>n\<bar> < 2 ^ 64 \<Longrightarrow> CBigNum_getvch (te_bn E) n = CScriptNum_serialize n"
  by (simp add: lib_ok_def getvch_serialize)

lemma exec_agree_push [agreement]:
  "lib_ok E \<Longrightarrow> op \<le> 255 \<Longrightarrow> agrees (exec_push_number_v1 E op st) (exec_push_number op st)"
  by (simp add: exec_push_number_v1_def exec_push_number_def of_int_big getvch_big abs_less_iff)

lemma size_big: "lib_ok E \<Longrightarrow> k < 2 ^ 64 \<Longrightarrow>
    CBigNum_getvch (te_bn E) (CBigNum_setulong (of_nat k)) = CScriptNum_serialize (int k)"
proof -
  assume "lib_ok E" "k < 2 ^ 64"
  then have "CBigNum_setulong (of_nat k) = int k"
    by (simp add: CBigNum_setulong_def uint_nat unat_of_nat)
  then show ?thesis using \<open>lib_ok E\<close> \<open>k < 2 ^ 64\<close> by (simp add: getvch_big)
qed

lemma exec_agree_sizes [agreement]:
  "lib_ok E \<Longrightarrow> length (stack st) < 2 ^ 64 \<Longrightarrow> agrees (exec_DEPTH_v1 E st) (exec_DEPTH st)"
  "lib_ok E \<Longrightarrow> elements_ok st \<Longrightarrow> agrees (exec_SIZE_v1 E st) (exec_SIZE st)"
  by (auto simp: exec_DEPTH_v1_def exec_DEPTH_def exec_SIZE_v1_def exec_SIZE_def elements_ok_def size_big
      split: list.split)

lemma unary_agree: "lib_ok E \<Longrightarrow> num env v = Some n \<Longrightarrow>
    CBigNum_getvch (te_bn E) (unary_big (te_bn E) op n) = CScriptNum_serialize (unary_num op n)"
  using num_bound [of env v n] getvch_big [of E]
  by (simp add: unary_big_def unary_num_def of_int_big abs_less_iff)

lemma binary_agree:
  assumes "lib_ok E" "num env v = Some n" "num env' w = Some m"
  shows "CBigNum_getvch (te_bn E) (binary_big (te_bn E) op n m) = CScriptNum_serialize (binary_num op n m)"
proof -
  have b: "\<bar>n\<bar> < 2 ^ 31" "\<bar>m\<bar> < 2 ^ 31" using assms(2,3) by (blast intro: num_bound)+
  have "binary_big (te_bn E) op n m = binary_num op n m"
    unfolding binary_big_def binary_num_def using assms(1) by (simp add: of_int_big of_bool_def)
  moreover have "binary_num op n m \<in> {-(2 ^ 33) .. 2 ^ 33}"
    unfolding binary_num_def using b by (intro if_in_set) (simp_all add: abs_less_iff)
  ultimately show ?thesis using assms(1) getvch_big [of E "binary_num op n m"] by (force simp: abs_less_iff)
qed

lemma exec_agree_num [agreement]:
  "lib_ok E \<Longrightarrow> agrees (exec_unary_num_v1 E op st) (exec_unary_num (v2_env E) op st)"
  "lib_ok E \<Longrightarrow> agrees (exec_binary_num_v1 E op st) (exec_binary_num (v2_env E) op st)"
  "lib_ok E \<Longrightarrow> agrees (exec_WITHIN_v1 E st) (exec_WITHIN (v2_env E) st)"
  by (auto simp: exec_unary_num_v1_def exec_unary_num_def exec_binary_num_v1_def exec_binary_num_def
      exec_WITHIN_v1_def exec_WITHIN_def big_num unary_agree binary_agree Let_def
      split: list.split option.split)

lemma exec_agree_PICK_ROLL [agreement]:
  "lib_ok E \<Longrightarrow> agrees (exec_PICK_ROLL_v1 E op st) (exec_PICK_ROLL (v2_env E) op st)"
  using big_getint [of E "hd (stack st)"]
  by (auto simp: exec_PICK_ROLL_v1_def exec_PICK_ROLL_def big_num Let_def split: option.split)

lemma exec_agree_hash [agreement]: "lib_ok E \<Longrightarrow> agrees (exec_hash_v1 E op st) (exec_hash op st)"
  by (auto simp: exec_hash_v1_def exec_hash_def lib_ok_def digests hash160_spec_def hash256_spec_def Let_def
      split: list.split)

lemma exec_agree_simple:
  assumes "lib_ok E" "op \<le> 255" "length (stack st) < 2 ^ 64" "elements_ok st"
    "op \<notin> {OP_CHECKSIG, OP_CHECKSIGVERIFY, OP_CHECKMULTISIG, OP_CHECKMULTISIGVERIFY}"
  shows "agrees (exec_simple_v1 E f op st) (exec_op (v2_env E) f op st)"
  unfolding exec_simple_v1_def exec_op_def
  by (intro agrees_if agreement assms(1-4)) (use assms(5) in simp_all)

text \<open>The signature operations, with the cache.\<close>

lemma check_encodings_v2:
  "check_encodings (v2_env E) sig key = None \<longleftrightarrow> has_flag (te_flags E) SCRIPT_VERIFY_STRICTENC \<longrightarrow> enc_ok E sig key"
  using v2_flags_enc [of "te_flags E"]
  by (auto simp: check_encodings_def CheckSignatureEncoding_def CheckPubKeyEncoding_def enc_ok_def v2_env_def
      v2_flags_simps CheckSignatureEncoding_v1_def CheckPubKeyEncoding_v1_def IsLowDERSignature_def
      IsLowDERSignature_serror_def Let_def split: if_splits)

lemma check_one_agree:
  assumes "cache_sound (te_sig E) c" "check_one E c sig key code = (r, c')"
  shows "cache_sound (te_sig E) c' \<and>
    (case check_encodings (v2_env E) sig key of
       None \<Rightarrow> r = Some (check_sig (v2_env E) sig key code) | Some e \<Rightarrow> r = None)"
proof -
  note cc = CheckSig_cached [OF assms(1), of sig key code "te_txTo E" "te_nIn E" "te_nHashType E" "te_flags E"]
  show ?thesis
  proof (cases "enc_ok E sig key")
    case True
    then have "check_encodings (v2_env E) sig key = None" by (simp add: check_encodings_v2)
    then show ?thesis using True assms cc
      by (auto simp: check_one_def enc_ok_def v2_env_def split: prod.splits)
  next
    case False
    then show ?thesis using assms check_encodings_v2 [of E sig key]
      by (auto simp: check_one_def enc_ok_def v2_env_def split: option.split if_splits)
  qed
qed

definition agrees_sig :: "tx_env \<Rightarrow> bool_result \<times> sig_cache \<Rightarrow> step_result \<Rightarrow> bool" where
  "agrees_sig E r1 r2 \<longleftrightarrow> agrees (fst r1) r2 \<and> cache_sound (te_sig E) (snd r1)"

lemma agrees_sig_pair [simp]: "agrees_sig E (r, c) r2 \<longleftrightarrow> agrees r r2 \<and> cache_sound (te_sig E) c"
  by (simp add: agrees_sig_def)

lemma exec_CHECKSIG_agree:
  assumes "cache_sound (te_sig E) c"
  shows "agrees_sig E (exec_CHECKSIG_v1 E op st c) (exec_CHECKSIG (v2_env E) op st)"
proof -
  consider "length (stack st) < 2" | key sig xs where "stack st = key # sig # xs"
    by (cases "stack st" rule: list.exhaust [case_product list.exhaust]) (metis list.exhaust One_nat_def
        Suc_1 length_Cons lessI list.size(3) not_less_eq zero_less_Suc)+
  then show ?thesis
  proof cases
    case 1
    then show ?thesis using assms by (auto simp: exec_CHECKSIG_v1_def exec_CHECKSIG_def split: list.split)
  next
    case 2
    let ?code = "fst (FindAndDelete (pbegincodehash st) (push_data sig))"
    obtain r c' where r: "check_one E c sig key ?code = (r, c')" by force
    show ?thesis using check_one_agree [OF assms r] r 2
      by (auto simp: exec_CHECKSIG_v1_def exec_CHECKSIG_def Let_def split: option.splits)
  qed
qed

lemma multisig_loop_agree:
  "cache_sound (te_sig E) c \<Longrightarrow> multisig_loop_v1 E code sigs keys c = (r, c') \<Longrightarrow>
   cache_sound (te_sig E) c' \<and>
   (case multisig_loop (v2_env E) code sigs keys of Inl e \<Rightarrow> r = None | Inr b \<Rightarrow> r = Some b)"
proof (induction E code sigs keys c arbitrary: r c' rule: multisig_loop_v1.induct)
  case (2 E code s sigs k keys c)
  obtain r1 c1 where r1: "check_one E c s k code = (r1, c1)" by force
  note one = check_one_agree [OF 2(2) r1]
  show ?case
  proof (cases r1)
    case None
    then show ?thesis using 2(3) one r1 by (auto split: option.splits)
  next
    case (Some fOk)
    then have "check_encodings (v2_env E) s k = None" "fOk = check_sig (v2_env E) s k code"
      using one by (auto split: option.splits)
    then show ?thesis using 2(1) [OF r1 [symmetric] Some refl] 2(3) one r1 Some
      by (auto simp: Let_def split: if_splits)
  qed
qed auto

lemma exec_CHECKMULTISIG_agree:
  assumes "lib_ok E" "cache_sound (te_sig E) c"
  shows "agrees_sig E (exec_CHECKMULTISIG_v1 E op st c) (exec_CHECKMULTISIG (v2_env E) op st)"
proof -
  have null: "has_flag (env_flags (v2_env E)) SCRIPT_VERIFY_NULLDUMMY = has_flag (te_flags E) SCRIPT_VERIFY_NULLDUMMY"
    by (simp add: v2_env_def v2_flags_simps)
  have gi: "num (v2_env E) v = Some n \<Longrightarrow> CBigNum_getint n = CScriptNum_getint n" for v n
    using big_getint [OF assms(1), of v n] by (simp add: big_num [OF assms(1)])
  have rest: "agrees_sig E
      (case r of (None, cache') \<Rightarrow> (fails st, cache')
       | (Some fSuccess, cache') \<Rightarrow>
           (case xs of [] \<Rightarrow> Inl []
            | dummy # xs \<Rightarrow>
                if has_flag (te_flags E) SCRIPT_VERIFY_NULLDUMMY \<and> length dummy \<noteq> 0 then Inl (dummy # xs)
                else let st' = st\<lparr>nOpCount := k\<rparr> in
                if op = OP_CHECKMULTISIGVERIFY then (if fSuccess then Inr (st'\<lparr>stack := xs\<rparr>) else Inl (vchFalse # xs))
                else Inr (st'\<lparr>stack := bool_vch fSuccess # xs\<rparr>), cache'))
      (case q of Inl e \<Rightarrow> Inl e
       | Inr fSuccess \<Rightarrow>
           (case xs of [] \<Rightarrow> INVALID_STACK
            | dummy # xs \<Rightarrow>
                if has_flag (te_flags E) SCRIPT_VERIFY_NULLDUMMY \<and> length dummy \<noteq> 0 then Inl SCRIPT_ERR_SIG_NULLDUMMY
                else let st' = st\<lparr>nOpCount := k\<rparr> in
                if op = OP_CHECKMULTISIGVERIFY then (if fSuccess then Inr (st'\<lparr>stack := xs\<rparr>)
                  else Inl SCRIPT_ERR_CHECKMULTISIGVERIFY)
                else Inr (st'\<lparr>stack := bool_vch fSuccess # xs\<rparr>)))"
    if "r = multisig_loop_v1 E code sigs keys c" "q = multisig_loop (v2_env E) code sigs keys"
    for r q code sigs keys xs k
  proof -
    obtain r1 c1 where r: "r = (r1, c1)" by force
    then have "cache_sound (te_sig E) c1 \<and> (case q of Inl e \<Rightarrow> r1 = None | Inr b \<Rightarrow> r1 = Some b)"
      using multisig_loop_agree [OF assms(2)] that by metis
    then show ?thesis unfolding r by (cases q; cases xs) (auto simp: Let_def)
  qed
  have opt: "(\<And>x. v = Some x \<Longrightarrow> agrees_sig E (f x) (g x)) \<Longrightarrow>
      agrees_sig E (case v of None \<Rightarrow> (fails st, c) | Some x \<Rightarrow> f x)
        (case v of None \<Rightarrow> Inl e | Some x \<Rightarrow> g x)" for v :: "int option" and f g e
    using assms(2) by (cases v) simp_all
  have guard: "(\<not> P \<Longrightarrow> agrees_sig E x y) \<Longrightarrow> agrees_sig E (if P then (fails st, c) else x) (if P then Inl e else y)"
    for P x y e using assms(2) by simp
  show ?thesis
    unfolding exec_CHECKMULTISIG_v1_def exec_CHECKMULTISIG_def big_num [OF assms(1)] null Let_def
    apply (rule guard, rule opt)
    apply (simp only: gi)
    apply (rule guard, rule guard, rule guard, rule opt)
    apply (simp only: gi)
    apply (rule guard, rule guard, rule rest [OF refl refl, unfolded Let_def])
    done
qed

lemma exec_op_agree:
  assumes "lib_ok E" "cache_sound (te_sig E) c" "op \<le> 255" "length (stack st) < 2 ^ 64" "elements_ok st"
  shows "agrees_sig E (exec_op_v1 E f op st c) (exec_op (v2_env E) f op st)"
proof (cases "op \<in> {OP_CHECKSIG, OP_CHECKSIGVERIFY, OP_CHECKMULTISIG, OP_CHECKMULTISIGVERIFY}")
  case True
  then show ?thesis
    using exec_CHECKSIG_agree [OF assms(2), of op st] exec_CHECKMULTISIG_agree [OF assms(1,2), of op st]
    by (auto simp: exec_op_v1_def exec_op_def)
next
  case False
  then show ?thesis using exec_agree_simple [OF assms(1,3,4,5) False, of f] assms(2)
    by (simp add: exec_op_v1_def)
qed

lemma eval_step_agree:
  assumes "lib_ok E" "cache_sound (te_sig E) c" "machine_ok script st"
  shows "agrees_sig E (eval_step_v1 E st c) (eval_step (v2_env E) st)"
proof -
  obtain ok op d rest where g: "GetOp2 (pc st) = (ok, op, d, rest)" by (cases "GetOp2 (pc st)") auto
  define n where "n = (if op > OP_16 then nOpCount st + 1 else nOpCount st)"
  define st1 where "st1 = st\<lparr>pc := rest, nOpCount := n\<rparr>"
  define r where "r = (if False \<notin> set (vfExec st) \<and> op \<le> OP_PUSHDATA4 then (Inr (st1\<lparr>stack := d # stack st1\<rparr>), c)
       else if False \<notin> set (vfExec st) \<or> (OP_IF \<le> op \<and> op \<le> OP_ENDIF)
       then exec_op_v1 E (False \<notin> set (vfExec st)) op st1 c else (Inr st1, c))"
  define q where "q = (if False \<notin> set (vfExec st) \<and> op \<le> OP_PUSHDATA4 then Inr (st1\<lparr>stack := d # stack st1\<rparr>)
       else if False \<notin> set (vfExec st) \<or> (OP_IF \<le> op \<and> op \<le> OP_ENDIF)
       then exec_op (v2_env E) (False \<notin> set (vfExec st)) op st1 else Inr st1)"
  have "\<not> fRequireMinimal (v2_env E)" by (simp add: fRequireMinimal_def v2_env_def v2_flags_simps)
  then have e: "eval_step (v2_env E) st =
    (if \<not> ok then Inl SCRIPT_ERR_BAD_OPCODE else if length d > MAX_SCRIPT_ELEMENT_SIZE then Inl SCRIPT_ERR_PUSH_SIZE
     else if op > OP_16 \<and> n > 201 then Inl SCRIPT_ERR_OP_COUNT
     else if op \<in> set disabled_opcodes then Inl SCRIPT_ERR_DISABLED_OPCODE
     else case q of Inl e \<Rightarrow> Inl e
       | Inr st2 \<Rightarrow> if length (stack st2) + length (altstack st2) > 1000 then Inl SCRIPT_ERR_STACK_SIZE else Inr st2)"
    unfolding eval_step_def g q_def Let_def prod.case n_def st1_def by simp
  have "length (stack st1) < 2 ^ 64" "elements_ok st1"
    using assms(3) by (simp_all add: machine_ok_def st1_def elements_ok_def)
  then have "agrees_sig E r q"
    using exec_op_agree [OF assms(1,2) GetOp2_opcode [OF g]] assms(2) by (simp add: r_def q_def)
  then have a: "agrees (fst r) q" "cache_sound (te_sig E) (snd r)" by (simp_all add: agrees_sig_def)
  show ?thesis
    unfolding eval_step_v1_eq [OF g n_def st1_def r_def] e
    using a assms(2) by (cases "fst r"; cases q) auto
qed

lemma eval_loop_agree:
  "lib_ok E \<Longrightarrow> cache_sound (te_sig E) c \<Longrightarrow> machine_ok script st \<Longrightarrow>
   agrees_sig E (eval_loop_v1 E st c) (eval_loop (v2_env E) st)"
proof (induction E st c rule: eval_loop_v1.induct)
  case (1 E st c)
  show ?case
  proof (cases "pc st = []")
    case False
    obtain r1 c1 where r1: "eval_step_v1 E st c = (r1, c1)" by force
    then have a: "agrees r1 (eval_step (v2_env E) st)" "cache_sound (te_sig E) c1"
      using eval_step_agree [OF 1(2-4)] by simp_all
    show ?thesis
    proof (cases r1)
      case (Inl s)
      then show ?thesis using False a r1
        by (cases "eval_step (v2_env E) st") (auto simp: eval_loop_v1.simps [of E st] eval_loop.simps [of _ st])
    next
      case (Inr st')
      then have s: "eval_step (v2_env E) st = Inr st'" using a(1) by (cases "eval_step (v2_env E) st") auto
      have "agrees_sig E (eval_loop_v1 E st' c1) (eval_loop (v2_env E) st')"
        using 1(1) [OF False r1 [symmetric] Inr 1(2) a(2)] eval_step_ok [OF s 1(4)] by blast
      then show ?thesis using False Inr s r1 by (simp add: eval_loop_v1.simps [of E st] eval_loop.simps [of _ st])
    qed
  qed (use 1 in \<open>simp add: eval_loop_v1.simps [of E st] eval_loop.simps [of _ st]\<close>)
qed

lemma EvalScript_agree:
  assumes "lib_ok E" "cache_sound (te_sig E) c" "length stk \<le> 1000" "\<forall>x \<in> set stk. length x \<le> 520"
    and v: "EvalScript_v1 E stk script c = (ok, stk', c')"
  shows "cache_sound (te_sig E) c' \<and> (ok \<longleftrightarrow> EvalScript (v2_env E) stk script = Inr stk')
    \<and> (\<not> ok \<longrightarrow> (\<exists>e. EvalScript (v2_env E) stk script = Inl e))"
proof -
  obtain r1 c1 where r1: "eval_loop_v1 E (initial_state stk script) c = (r1, c1)" by force
  then have "agrees r1 (eval_loop (v2_env E) (initial_state stk script)) \<and> cache_sound (te_sig E) c1"
    using eval_loop_agree [OF assms(1,2) initial_state_ok [OF assms(3,4)]] by (metis agrees_sig_pair)
  then show ?thesis using v r1 assms(2)
    by (cases r1; cases "eval_loop (v2_env E) (initial_state stk script)")
      (auto simp: EvalScript_v1_def EvalScript_def split: if_splits)
qed

lemma EvalScript_bounds:
  assumes "EvalScript env stk script = Inr stk'" "length stk \<le> 1000" "\<forall>x \<in> set stk. length x \<le> 520"
  shows "length stk' \<le> 1000" "\<forall>x \<in> set stk'. length x \<le> 520"
proof -
  obtain st where "runs env (initial_state stk script) st" "stk' = stack st"
    using assms(1) by (auto simp: EvalScript_runs)
  then have "machine_ok script st" using runs_ok initial_state_ok [OF assms(2,3)] by blast
  then show "length stk' \<le> 1000" "\<forall>x \<in> set stk'. length x \<le> 520"
    using \<open>stk' = stack st\<close> by (simp_all add: machine_ok_def elements_ok_def)
qed

lemma VerifyScript_agree:
  assumes "lib_ok E" "cache_sound (te_sig E) c"
  shows "fst (VerifyScript_v1 E s p c) = Some (VerifyScript (v2_env E) s p = Verified)
    \<and> cache_sound (te_sig E) (snd (VerifyScript_v1 E s p c))"
proof -
  obtain b1 k1 c1 where e1: "EvalScript_v1 E [] s c = (b1, k1, c1)" by (metis prod.exhaust)
  note a1 = EvalScript_agree [OF assms _ _ e1, simplified]
  show ?thesis
  proof (cases b1)
    case False
    then show ?thesis using e1 a1 by (auto simp: VerifyScript_v1_def VerifyScript_iff)
  next
    case True
    then have s1: "EvalScript (v2_env E) [] s = Inr k1" and c1: "cache_sound (te_sig E) c1" using a1 by auto
    have k1: "length k1 \<le> 1000" "\<forall>x \<in> set k1. length x \<le> 520" using EvalScript_bounds [OF s1] by simp_all
    obtain b2 k2 c2 where e2: "EvalScript_v1 E k1 p c1 = (b2, k2, c2)" by (metis prod.exhaust)
    note a2 = EvalScript_agree [OF assms(1) c1 k1 e2]
    have fl: "has_flag (env_flags (v2_env E)) SCRIPT_VERIFY_P2SH" "\<not> has_flag (env_flags (v2_env E)) SCRIPT_VERIFY_SIGPUSHONLY"
      by (simp_all add: v2_env_def v2_flags_simps)
    have iff: "VerifyScript (v2_env E) s p = Verified \<longleftrightarrow>
      (\<exists>res xs. b2 \<and> k2 = res # xs \<and> CastToBool res \<and>
         (IsPayToScriptHash p \<longrightarrow> VerifyScript_P2SH (v2_env E) s k1 = Verified))"
      unfolding VerifyScript_iff using fl s1 a2 by auto
    show ?thesis
    proof (cases "b2 \<and> IsPayToScriptHash p \<and> IsPushOnly s \<and> (\<exists>res xs. k2 = res # xs \<and> CastToBool res)")
      case False
      then show ?thesis using e1 e2 True a2 iff
        by (auto simp: VerifyScript_v1_def VerifyScript_P2SH_iff Let_def split: list.splits bool.splits)
    next
      case P: True
      then obtain res xs where k2: "k2 = res # xs" "CastToBool res" by blast
      have "k1 \<noteq> []" using P2SH_empty_stack [of p "v2_env E"] a2 P by auto
      then obtain redeem rest where k: "k1 = redeem # rest" by (cases k1) auto
      obtain b3 k3 c3 where e3: "EvalScript_v1 E rest redeem c2 = (b3, k3, c3)" by (metis prod.exhaust)
      have a3: "cache_sound (te_sig E) c3" "b3 \<longleftrightarrow> EvalScript (v2_env E) rest redeem = Inr k3"
        "\<not> b3 \<Longrightarrow> \<exists>e. EvalScript (v2_env E) rest redeem = Inl e"
        using EvalScript_agree [OF assms(1) _ _ _ e3] a2 k1 k by auto
      show ?thesis using e1 e2 e3 True P k2 k a3 iff
        by (auto simp: VerifyScript_v1_def VerifyScript_P2SH_iff Let_def split: list.splits bool.splits)
    qed
  qed
qed

subsection \<open>The checker of the repository\<close>

text \<open>
  Two environments that differ in what their checkers answer behind failed encoding tests only give the same results.
\<close>

definition env_sim :: "eval_env \<Rightarrow> eval_env \<Rightarrow> bool" where
  "env_sim a b \<longleftrightarrow> env_flags a = env_flags b \<and> check_low_s a = check_low_s b
     \<and> (\<forall>sig key code. check_encodings a sig key = None \<longrightarrow> check_sig a sig key code = check_sig b sig key code)"

lemma env_sim_parts:
  assumes "env_sim a b"
  shows "env_flags a = env_flags b" "check_encodings a = check_encodings b" "num a = num b" "fRequireMinimal a = fRequireMinimal b"
    "check_encodings b sig key = None \<Longrightarrow> check_sig a sig key code = check_sig b sig key code"
proof -
  have f: "env_flags a = env_flags b" "check_low_s a = check_low_s b" using assms by (auto simp: env_sim_def)
  then show "env_flags a = env_flags b" by blast
  show e: "check_encodings a = check_encodings b" by (intro ext) (simp only: check_encodings_def f)
  show m: "fRequireMinimal a = fRequireMinimal b" by (simp only: fRequireMinimal_def f)
  show "num a = num b" by (intro ext) (simp only: num_def m)
  show "check_encodings b sig key = None \<Longrightarrow> check_sig a sig key code = check_sig b sig key code"
    using assms unfolding env_sim_def e by blast
qed

lemma multisig_loop_sim: "env_sim a b \<Longrightarrow> multisig_loop a code sigs keys = multisig_loop b code sigs keys"
proof (induction a code sigs keys rule: multisig_loop.induct)
  case (2 a code s sigs k keys)
  show ?case
  proof (cases "check_encodings b s k")
    case None
    then show ?thesis using 2 env_sim_parts(2,5) [OF 2(2)] by (simp add: Let_def)
  next
    case (Some e)
    then show ?thesis using env_sim_parts(2) [OF 2(2)] by simp
  qed
qed simp_all

lemma exec_sig_sim:
  assumes "env_sim a b"
  shows "exec_CHECKSIG a op st = exec_CHECKSIG b op st" "exec_CHECKMULTISIG a op st = exec_CHECKMULTISIG b op st"
proof -
  show "exec_CHECKSIG a op st = exec_CHECKSIG b op st"
    using env_sim_parts [OF assms] by (auto simp: exec_CHECKSIG_def Let_def split: list.splits option.splits)
  show "exec_CHECKMULTISIG a op st = exec_CHECKMULTISIG b op st"
    unfolding exec_CHECKMULTISIG_def env_sim_parts(1,3) [OF assms] multisig_loop_sim [OF assms] ..
qed

lemma exec_op_sim:
  assumes "env_sim a b" shows "exec_op a f op st = exec_op b f op st"
  unfolding exec_op_def exec_sig_sim [OF assms] exec_NOPx_def exec_unary_num_def exec_binary_num_def exec_WITHIN_def
    exec_PICK_ROLL_def env_sim_parts(1,3) [OF assms] ..

lemma eval_step_sim: "env_sim a b \<Longrightarrow> eval_step a st = eval_step b st"
  by (simp only: eval_step_def exec_op_sim env_sim_parts(4))

lemma eval_loop_sim: "env_sim a b \<Longrightarrow> eval_loop a st = eval_loop b st"
proof (induction a st rule: eval_loop.induct)
  case (1 a st)
  then show ?case using eval_step_sim [OF 1(2), of st]
    by (auto simp: eval_loop.simps [of _ st] split: sum.split)
qed

lemma EvalScript_sim: "env_sim a b \<Longrightarrow> EvalScript a = EvalScript b"
  by (simp add: fun_eq_iff EvalScript_def eval_loop_sim)

lemma VerifyScript_sim:
  assumes "env_sim a b" shows "VerifyScript a s p = VerifyScript b s p"
  unfolding VerifyScript_def VerifyScript_P2SH_def EvalScript_sim [OF assms] env_sim_parts(1) [OF assms] ..

text \<open>The environment of the other overload: the same input and the repository's own \<open>SignatureChecker\<close>.\<close>

abbreviation checker_of :: "tx_env \<Rightarrow> eval_env" where
  "checker_of E \<equiv> checker_env (te_sig E) (te_txTo E) (te_nIn E) (v2_flags (te_flags E)) (te_low_s E)"

lemma checker_env_sim:
  assumes "has_flag (te_flags E) SCRIPT_VERIFY_STRICTENC" "te_nHashType E = 0"
  shows "env_sim (v2_env E) (checker_of E)"
  using assms check_encodings_v2 [of E] by (auto simp: env_sim_def v2_env_def checker_env_def)

lemma VerifyScript_checker:
  assumes "lib_ok E" "cache_sound (te_sig E) c" "has_flag (te_flags E) SCRIPT_VERIFY_STRICTENC" "te_nHashType E = 0"
  shows "fst (VerifyScript_v1 E s p c) = Some (VerifyScript (checker_of E) s p = Verified)
    \<and> cache_sound (te_sig E) (snd (VerifyScript_v1 E s p c))"
  using VerifyScript_agree [OF assms(1,2)] VerifyScript_sim [OF checker_env_sim [OF assms(3,4)]] by simp


subsection \<open>Properties\<close>

definition sample_tx_env :: tx_env where
  "sample_tx_env = \<lparr>te_flags = 2, te_low_s = (\<lambda>_. True), te_bn = ref_lib, te_ripemd160 = ripemd160_spec,
     te_sha1 = sha1_spec, te_sha256 = sha256_spec,
     te_sig = \<lparr>tx_hash = (\<lambda>_. 5), ecdsa_verify = (\<lambda>k h s. True), rand_hash = (\<lambda>_. 0), max_cache = 1\<rparr>,
     te_txTo = sample_tx, te_nIn = 0, te_nHashType = 0\<rparr>"

abbreviation empty_cache :: sig_cache where
  "empty_cache \<equiv> \<lparr>setValid = [], evictions = 0\<rparr>"

lemma sample_tx_env_ok: "lib_ok sample_tx_env" "cache_sound (te_sig sample_tx_env) empty_cache"
  by (simp_all add: lib_ok_def sample_tx_env_def ref_lib_ok cache_sound_def sigcache_Get_def)

text \<open>
  The two script interpreters agree: with OpenSSL computing the standard hash functions and
  MPI strings, a signature cache that holds verified entries only and a stack within the limits,
  the transaction-level \<open>EvalScript\<close> returns true exactly when the checker-level one succeeds in the environment
  \<open>v2_env\<close>, with the same stack; the cache stays sound.
\<close>

theorem EvalScript_overloads_agree:
  assumes "lib_ok E" "cache_sound (te_sig E) c" "length stk \<le> 1000" "\<forall>x \<in> set stk. length x \<le> 520"
    and "EvalScript_v1 E stk script c = (ok, stk', c')"
  shows "cache_sound (te_sig E) c' \<and> (ok \<longleftrightarrow> EvalScript (v2_env E) stk script = Inr stk')
    \<and> (\<not> ok \<longrightarrow> (\<exists>e. EvalScript (v2_env E) stk script = Inl e))"
  using assms by (rule EvalScript_agree)

theorem EvalScript_overloads_agree_witness:
  "fst (EvalScript_v1 sample_tx_env [] (push_data [1, 2] @ push_data [3, 4]) empty_cache)"
proof -
  obtain ok stk c where e: "EvalScript_v1 sample_tx_env [] (push_data [1, 2] @ push_data [3, 4]) empty_cache = (ok, stk, c)"
    by (metis prod.exhaust)
  have "EvalScript (v2_env sample_tx_env) [] (push_data [1, 2] @ push_data [3, 4]) = Inr [[3, 4], [1, 2]]"
    using pushes_only [of "[1, 2]" "[3, 4]" "v2_env sample_tx_env"] by simp
  then show ?thesis using EvalScript_overloads_agree [OF sample_tx_env_ok _ _ e] e by auto
qed

text \<open>
  C16. The transaction-level \<open>VerifyScript\<close> never reads from an empty vector and keeps the cache sound. When
  \<open>SCRIPT_VERIFY_STRICTENC\<close> is among its flags, it accepts exactly what the checker-level \<open>VerifyScript\<close> verifies for the
  same input with \<open>SignatureChecker\<close>, under the flags \<open>v2_flags\<close>: those for strict encodings, the null dummy and
  the upgradable NOPs as they are, low S and pay-to-script-hash on, the others off. The hash type 0 is what every
  caller passes.
\<close>

theorem VerifyScript_overloads_agree:
  assumes "lib_ok E" "cache_sound (te_sig E) c" "te_nHashType E = 0"
  shows "\<exists>b c'. VerifyScript_v1 E s p c = (Some b, c') \<and> cache_sound (te_sig E) c'
    \<and> (has_flag (te_flags E) SCRIPT_VERIFY_STRICTENC \<longrightarrow>
         (b \<longleftrightarrow> VerifyScript (checker_env (te_sig E) (te_txTo E) (te_nIn E) (v2_flags (te_flags E)) (te_low_s E)) s p = Verified))"
  using VerifyScript_agree [OF assms(1,2), of s p] VerifyScript_checker [OF assms(1,2) _ assms(3), of s p]
  by (cases "VerifyScript_v1 E s p c") auto

definition sample_sig :: bytes where
  "sample_sig = [0x30, 6, 2, 1, 1, 2, 1, 1, 1]"

definition sample_pk :: bytes where
  "sample_pk = 2 # replicate 32 0"

lemma sample_enc_ok: "enc_ok sample_tx_env sample_sig sample_pk"
proof -
  have "CheckSignatureEncoding_v1 (\<lambda>_. True) sample_sig" "CheckPubKeyEncoding_v1 sample_pk" by code_simp+
  then show ?thesis by (simp add: enc_ok_def sample_tx_env_def)
qed

lemma sample_checks: "check_encodings (v2_env sample_tx_env) sample_sig sample_pk = None"
  "check_sig (v2_env sample_tx_env) sample_sig sample_pk code"
proof -
  show "check_encodings (v2_env sample_tx_env) sample_sig sample_pk = None"
    by (simp add: check_encodings_v2 sample_enc_ok)
  have "CPubKey_Set sample_pk = Some sample_pk" "sample_sig \<noteq> []"
    by (simp_all add: CPubKey_Set_def CPubKey_GetLen_def sample_pk_def sample_sig_def)
  then show "check_sig (v2_env sample_tx_env) sample_sig sample_pk code"
    using sample_enc_ok by (simp add: v2_env_def SignatureChecker_CheckSig_def sample_tx_env_def)
qed

theorem VerifyScript_overloads_agree_witness:
  "fst (VerifyScript_v1 sample_tx_env (push_data sample_sig @ push_data sample_pk)
     (P2PKH_script (hash160_spec sample_pk)) empty_cache) = Some True"
proof -
  let ?s = "push_data sample_sig @ push_data sample_pk" and ?p = "P2PKH_script (hash160_spec sample_pk)"
  have "VerifyScript (v2_env sample_tx_env) ?s ?p = Verified"
    using VerifyScript_P2PKH_value [of "hash160_spec sample_pk" sample_sig sample_pk "v2_env sample_tx_env"] sample_checks
    by (simp add: len_simps) (simp add: sample_sig_def sample_pk_def)
  moreover have "has_flag (te_flags sample_tx_env) SCRIPT_VERIFY_STRICTENC" "te_nHashType sample_tx_env = 0"
    by (simp_all add: sample_tx_env_def has_flag_def)
  ultimately show ?thesis
    using VerifyScript_overloads_agree [OF sample_tx_env_ok, of ?s ?p] VerifyScript_sim [OF checker_env_sim, of sample_tx_env ?s ?p]
    by auto
qed

text \<open>
  Without that flag the overloads differ: under the flags of \<open>ConnectBlock\<close> a signature that is not in the canonical
  encoding is refused here and verified by the other overload, if the library verifies it.
\<close>

lemma overloads_differ_without_STRICTENC:
  fixes E p s
  defines "E \<equiv> sample_tx_env\<lparr>te_flags := SCRIPT_VERIFY_NOCACHE\<rparr>" and "s \<equiv> push_data [1, 1] @ push_data sample_pk"
    and "p \<equiv> P2PKH_script (hash160_spec sample_pk)"
  shows "fst (VerifyScript_v1 E s p empty_cache) = Some False" "VerifyScript (checker_of E) s p = Verified"
proof -
  have ok: "lib_ok E" "cache_sound (te_sig E) empty_cache" using sample_tx_env_ok by (simp_all add: E_def lib_ok_def)
  have k: "CPubKey_Set sample_pk = Some sample_pk" "length sample_pk = 33"
    by (simp_all add: CPubKey_Set_def CPubKey_GetLen_def sample_pk_def)
  have n: "\<not> enc_ok E [1, 1] sample_pk"
  proof -
    have "\<not> CheckSignatureEncoding_v1 (\<lambda>_. True) [1, 1]" by code_simp
    then show ?thesis by (simp add: E_def enc_ok_def sample_tx_env_def)
  qed
  note vs = VerifyScript_P2PKH_value [of "hash160_spec sample_pk" "[1, 1]" sample_pk, folded s_def p_def]
  have "VerifyScript (v2_env E) s p \<noteq> Verified"
    using vs [of "v2_env E"] n k(2) by (auto simp: v2_env_def len_simps split: option.split)
  then show "fst (VerifyScript_v1 E s p empty_cache) = Some False" using VerifyScript_agree [OF ok, of s p] by simp
  have fl: "te_flags E = SCRIPT_VERIFY_NOCACHE" by (simp add: E_def)
  have "\<not> has_flag (te_flags E) SCRIPT_VERIFY_STRICTENC" unfolding fl by (simp add: has_flag_def)
  then have "check_encodings (v2_env E) [1, 1] sample_pk = None" by (simp add: check_encodings_v2)
  moreover have "check_encodings (v2_env E) [1, 1] sample_pk = check_encodings (checker_of E) [1, 1] sample_pk"
    by (simp only: check_encodings_def v2_env_def checker_env_def eval_env.select_convs)
  ultimately have "check_encodings (checker_of E) [1, 1] sample_pk = None" by simp
  then show "VerifyScript (checker_of E) s p = Verified"
    using vs [of "checker_of E"] k
    by (simp add: len_simps checker_env_def SignatureChecker_CheckSig_def E_def sample_tx_env_def)
qed

text \<open>
  Spending a pay-to-public-key-hash output, end to end: for an input that names an existing output
  of the funding transaction by its hash and index, \<open>VerifySignature\<close> accepts a pushed signature and
  key exactly when the key hashes to the digest in the output, both are canonically encoded, and the
  signature verifies for the hash of this transaction, this input and the output script.
\<close>

theorem VerifySignature_P2PKH:
  fixes E txFrom i
  defines "txin \<equiv> vin (te_txTo E) ! te_nIn E"
  assumes "lib_ok E" "cache_sound (te_sig E) c" "te_nIn E < length (vin (te_txTo E))"
    and "op_hash (prevout txin) = CTransaction_GetHash (tx_hash (te_sig E)) txFrom"
    and "i = unat (op_n (prevout txin))" "i < length (vout txFrom)"
    and "scriptPubKey (vout txFrom ! i) = P2PKH_script h" "scriptSig txin = push_data sig @ push_data pk"
    and "length h = 20" "2 \<le> length sig" "length sig \<le> 75" "length sig \<noteq> 20" "2 \<le> length pk" "length pk \<le> 75"
  shows "fst (VerifySignature E txFrom c) =
    Some (hash160_spec pk = h \<and> enc_ok E sig pk \<and> (te_nHashType E = 0 \<or> te_nHashType E = ucast (last sig))
      \<and> SignatureChecker_CheckSig (te_sig E) (te_txTo E) (te_nIn E) sig pk (P2PKH_script h))"
proof -
  have "fst (VerifySignature E txFrom c) =
      Some (VerifyScript (v2_env E) (push_data sig @ push_data pk) (P2PKH_script h) = Verified)"
    using assms VerifyScript_agree [OF assms(2,3), of "push_data sig @ push_data pk" "P2PKH_script h"]
    by (simp add: VerifySignature_def Let_def)
  then show ?thesis
    using VerifyScript_P2PKH_value [OF assms(10-15), of "v2_env E"] check_encodings_v2 [of E sig pk]
    by (auto simp: v2_env_def split: option.split)
qed

definition sample_from :: CTransaction where
  "sample_from = sample_tx\<lparr>vout := [\<lparr>nValue = 1, nRounds = -10, scriptPubKey = P2PKH_script (hash160_spec sample_pk)\<rparr>]\<rparr>"

definition sample_spend :: tx_env where
  "sample_spend = sample_tx_env\<lparr>te_txTo := sample_tx\<lparr>vin := [\<lparr>prevout = \<lparr>op_hash = 5, op_n = 0\<rparr>,
     scriptSig = push_data sample_sig @ push_data sample_pk, prevPubKey = [], nSequence = 0\<rparr>]\<rparr>\<rparr>"

theorem VerifySignature_P2PKH_witness: "fst (VerifySignature sample_spend sample_from empty_cache) = Some True"
proof -
  have env: "lib_ok sample_spend" "cache_sound (te_sig sample_spend) empty_cache"
    using sample_tx_env_ok by (simp_all add: lib_ok_def sample_spend_def)
  have k: "CPubKey_Set sample_pk = Some sample_pk" "sample_sig \<noteq> []"
    by (simp_all add: CPubKey_Set_def CPubKey_GetLen_def sample_pk_def sample_sig_def)
  have len: "length sample_sig = 9" "length sample_pk = 33" by (simp_all add: sample_sig_def sample_pk_def)
  have "enc_ok sample_spend sample_sig sample_pk"
    using sample_enc_ok by (simp add: enc_ok_def sample_spend_def)
  then show ?thesis
    using VerifySignature_P2PKH [OF env, of sample_from 0 "hash160_spec sample_pk" sample_sig sample_pk] k len
    by (simp add: sample_spend_def sample_from_def sample_tx_env_def CTransaction_GetHash_def len_simps
        SignatureChecker_CheckSig_def)
qed

end
