(* ===== verification/Std_Map.thy ===== *)
theory Std_Map imports BSG_Prelude begin

text \<open>
  \<open>std::map\<close> with ordered keys, as the list of its entries in iteration order: insertion, erasure,
  \<open>lower_bound\<close>, and the facts the components that keep such maps use. A map is well formed when
  its keys ascend strictly.
\<close>

type_synonym ('k, 'v) std_map = "('k \<times> 'v) list"

definition std_erase :: "'k \<Rightarrow> ('k, 'v) std_map \<Rightarrow> ('k, 'v) std_map" where
  "std_erase k m = filter (\<lambda>p. fst p \<noteq> k) m"

definition std_put :: "'k::linorder \<Rightarrow> 'v \<Rightarrow> ('k, 'v) std_map \<Rightarrow> ('k, 'v) std_map" where
  "std_put k v m = insort_key fst (k, v) (std_erase k m)"

definition lower_bound :: "'k::linorder \<Rightarrow> ('k, 'v) std_map \<Rightarrow> ('k \<times> 'v) option" where
  "lower_bound k m = List.find (\<lambda>p. k \<le> fst p) m"

definition std_ok :: "('k::linorder, 'v) std_map \<Rightarrow> bool" where
  "std_ok m \<longleftrightarrow> sorted (map fst m) \<and> distinct (map fst m)"

lemma std_ok_Nil [simp]: "std_ok []"
  by (simp add: std_ok_def)

lemma map_of_std_erase [simp]: "map_of (std_erase k m) = (map_of m)(k := None)"
  by (induction m) (auto simp: std_erase_def fun_eq_iff)

lemma map_of_insort_key:
  "k \<notin> fst ` set m \<Longrightarrow> map_of (insort_key fst (k, v) m) = (map_of m)(k \<mapsto> v)"
  by (induction m) (auto simp: fun_eq_iff)

lemma keys_std_erase: "fst ` set (std_erase k m) = fst ` set m - {k}"
  by (auto simp: std_erase_def)

lemma map_of_std_put [simp]: "map_of (std_put k v m) = (map_of m)(k \<mapsto> v)"
  by (simp add: std_put_def map_of_insort_key keys_std_erase)

lemma std_ok_erase [simp]: "std_ok m \<Longrightarrow> std_ok (std_erase k m)"
  by (auto simp: std_ok_def std_erase_def sorted_filter distinct_map_filter)

lemma std_ok_put [simp]: "std_ok m \<Longrightarrow> std_ok (std_put k v m)"
  using std_ok_erase [of m k] keys_std_erase [of k m]
  by (auto simp: std_ok_def std_put_def sorted_insort_key distinct_insort_key)

lemma length_std_erase: "k \<in> fst ` set m \<Longrightarrow> length (std_erase k m) < length m"
  by (auto simp: std_erase_def intro: length_filter_less)

lemma length_std_erase_ok:
  assumes "std_ok m" "k \<in> fst ` set m" shows "length (std_erase k m) = length m - 1"
  using assms
proof (induction m)
  case (Cons p m)
  show ?case
  proof (cases "fst p = k")
    case True
    then have "k \<notin> fst ` set m" using Cons.prems(1) by (auto simp: std_ok_def)
    then have "std_erase k m = m" by (auto simp: std_erase_def filter_id_conv)
    then show ?thesis using True by (simp add: std_erase_def)
  next
    case False
    then have "k \<in> fst ` set m" using Cons.prems by auto
    moreover have "std_ok m" using Cons.prems(1) by (simp add: std_ok_def)
    moreover have "length m \<noteq> 0" using \<open>k \<in> fst ` set m\<close> by auto
    ultimately show ?thesis using Cons.IH False by (simp add: std_erase_def)
  qed
qed simp

lemma length_std_put: "std_ok m \<Longrightarrow> k \<notin> fst ` set m \<Longrightarrow> length (std_put k v m) = length m + 1"
proof -
  assume "k \<notin> fst ` set m"
  then have "std_erase k m = m" by (auto simp: std_erase_def filter_id_conv)
  then show ?thesis by (simp add: std_put_def)
qed

lemma lower_bound_in: "lower_bound k m = Some p \<Longrightarrow> p \<in> set m \<and> k \<le> fst p"
  by (auto simp: lower_bound_def find_Some_iff)

lemma lower_bound_least:
  "std_ok m \<Longrightarrow> lower_bound k m = Some p \<Longrightarrow> q \<in> set m \<Longrightarrow> k \<le> fst q \<Longrightarrow> fst p \<le> fst q"
  by (induction m) (auto simp: lower_bound_def std_ok_def split: if_splits)

lemma map_of_keys: "map_of m k = None \<longleftrightarrow> k \<notin> fst ` set m"
  by (rule map_of_eq_None_iff)

lemma std_ok_map_of: "std_ok m \<Longrightarrow> (k, v) \<in> set m \<longleftrightarrow> map_of m k = Some v"
  by (auto simp: std_ok_def dest: map_of_SomeD)

end
