(* ===== verification/Orphans.thy ===== *)
theory Orphans imports Std_Map Transaction "HOL-Library.Sublist" begin

text \<open>
  The pool of orphan transactions of \<open>src/src/main.cpp\<close>: \<open>mapOrphanTransactions\<close> with its index by
  previous transaction, \<open>AddOrphanTx\<close>, \<open>EraseOrphanTx\<close>, \<open>LimitOrphanTxSize\<close>, and the work queue that
  retries orphans when a transaction is accepted. Hashing, random numbers and
  \<open>AcceptToMemoryPool\<close> are parameters; log messages and relaying are left out.
\<close>

record orphan_pool =
  mapOrphanTransactions :: "(uint256, CTransaction) std_map"
  mapOrphanTransactionsByPrev :: "uint256 \<Rightarrow> uint256 set option"

definition prev_hashes :: "CTransaction \<Rightarrow> uint256 set" where
  "prev_hashes tx = (\<lambda>txin. op_hash (prevout txin)) ` set (vin tx)"

subsection \<open>Adding and erasing\<close>

definition index_orphan ::
  "uint256 \<Rightarrow> (uint256 \<Rightarrow> uint256 set option) \<Rightarrow> CTxIn \<Rightarrow> (uint256 \<Rightarrow> uint256 set option)" where
  "index_orphan h m txin =
     (let p = op_hash (prevout txin)
      in m(p := Some (insert h (case m p of None \<Rightarrow> {} | Some s \<Rightarrow> s))))"

definition AddOrphanTx :: "(CTransaction \<Rightarrow> uint256) \<Rightarrow> CTransaction \<Rightarrow> orphan_pool \<Rightarrow> bool \<times> orphan_pool" where
  "AddOrphanTx GetHash tx pool =
     (let h = GetHash tx in
      if map_of (mapOrphanTransactions pool) h \<noteq> None then (False, pool)
      else if size_CTransaction tx > 5000 then (False, pool)
      else (True, \<lparr>mapOrphanTransactions = std_put h tx (mapOrphanTransactions pool),
                   mapOrphanTransactionsByPrev =
                     foldl (index_orphan h) (mapOrphanTransactionsByPrev pool) (vin tx)\<rparr>))"

definition unindex_orphan ::
  "uint256 \<Rightarrow> (uint256 \<Rightarrow> uint256 set option) \<Rightarrow> CTxIn \<Rightarrow> (uint256 \<Rightarrow> uint256 set option)" where
  "unindex_orphan h m txin =
     (let p = op_hash (prevout txin) in
      case m p of
        None \<Rightarrow> m
      | Some s \<Rightarrow> let s' = s - {h} in m(p := (if s' = {} then None else Some s')))"

definition EraseOrphanTx :: "uint256 \<Rightarrow> orphan_pool \<Rightarrow> orphan_pool" where
  "EraseOrphanTx h pool =
     (case map_of (mapOrphanTransactions pool) h of
        None \<Rightarrow> pool
      | Some tx \<Rightarrow>
          \<lparr>mapOrphanTransactions = std_erase h (mapOrphanTransactions pool),
           mapOrphanTransactionsByPrev =
             foldl (unindex_orphan h) (mapOrphanTransactionsByPrev pool) (vin tx)\<rparr>)"

text \<open>
  The eviction loop; \<open>GetRandHash n\<close> is the number that the n-th eviction draws. An orphan is
  there to be found, since the pool is larger than the limit.
\<close>

definition evict_orphan :: "uint256 \<Rightarrow> orphan_pool \<Rightarrow> orphan_pool" where
  "evict_orphan randomhash pool =
     (case lower_bound randomhash (mapOrphanTransactions pool) of
        Some it \<Rightarrow> EraseOrphanTx (fst it) pool
      | None \<Rightarrow> EraseOrphanTx (fst (hd (mapOrphanTransactions pool))) pool)"

lemma EraseOrphanTx_less:
  "h \<in> fst ` set (mapOrphanTransactions pool) \<Longrightarrow>
   length (mapOrphanTransactions (EraseOrphanTx h pool)) < length (mapOrphanTransactions pool)"
  by (cases "map_of (mapOrphanTransactions pool) h")
    (auto simp: EraseOrphanTx_def length_std_erase map_of_keys)

lemma evict_orphan_key:
  assumes "mapOrphanTransactions pool \<noteq> []"
  obtains h where "h \<in> fst ` set (mapOrphanTransactions pool)" "evict_orphan r pool = EraseOrphanTx h pool"
proof (cases "lower_bound r (mapOrphanTransactions pool)")
  case None
  then show thesis using assms that [of "fst (hd (mapOrphanTransactions pool))"] by (simp add: evict_orphan_def)
next
  case (Some p)
  then show thesis using lower_bound_in [OF Some] that [of "fst p"] by (simp add: evict_orphan_def)
qed

function limit_loop :: "(nat \<Rightarrow> uint256) \<Rightarrow> nat \<Rightarrow> nat \<Rightarrow> orphan_pool \<Rightarrow> nat \<times> orphan_pool" where
  "limit_loop GetRandHash nMaxOrphans nEvicted pool =
     (if length (mapOrphanTransactions pool) > nMaxOrphans
      then limit_loop GetRandHash nMaxOrphans (nEvicted + 1) (evict_orphan (GetRandHash nEvicted) pool)
      else (nEvicted, pool))"
  by pat_completeness auto
termination
proof (relation "measure (\<lambda>(r, m, n, pool). length (mapOrphanTransactions pool))")
  fix r :: "nat \<Rightarrow> uint256" and m n :: nat and pool :: orphan_pool
  assume "m < length (mapOrphanTransactions pool)"
  then have "mapOrphanTransactions pool \<noteq> []" by auto
  then show "((r, m, n + 1, evict_orphan (r n) pool), r, m, n, pool)
      \<in> measure (\<lambda>(r, m, n, pool). length (mapOrphanTransactions pool))"
    by (rule evict_orphan_key [of _ "r n"]) (use EraseOrphanTx_less in simp)
qed simp

declare limit_loop.simps [simp del]

definition LimitOrphanTxSize :: "(nat \<Rightarrow> uint256) \<Rightarrow> nat \<Rightarrow> orphan_pool \<Rightarrow> nat \<times> orphan_pool" where
  "LimitOrphanTxSize GetRandHash nMaxOrphans pool = limit_loop GetRandHash nMaxOrphans 0 pool"

subsection \<open>The index is exact\<close>

definition dependents :: "(uint256 \<Rightarrow> CTransaction option) \<Rightarrow> uint256 \<Rightarrow> uint256 set" where
  "dependents m p = {h. \<exists>tx. m h = Some tx \<and> p \<in> prev_hashes tx}"

definition some_set :: "'a set \<Rightarrow> 'a set option" where
  "some_set S = (if S = {} then None else Some S)"

definition pool_ok :: "(CTransaction \<Rightarrow> uint256) \<Rightarrow> orphan_pool \<Rightarrow> bool" where
  "pool_ok GetHash pool \<longleftrightarrow>
     std_ok (mapOrphanTransactions pool)
     \<and> (\<forall>h tx. map_of (mapOrphanTransactions pool) h = Some tx \<longrightarrow> GetHash tx = h \<and> size_CTransaction tx \<le> 5000)
     \<and> mapOrphanTransactionsByPrev pool = (\<lambda>p. some_set (dependents (map_of (mapOrphanTransactions pool)) p))"

lemma index_all:
  "foldl (index_orphan h) (\<lambda>p. some_set (D p)) ins =
     (\<lambda>p. some_set (D p \<union> (if p \<in> (\<lambda>i. op_hash (prevout i)) ` set ins then {h} else {})))"
proof (induction ins arbitrary: D)
  case (Cons i ins)
  have step: "index_orphan h (\<lambda>p. some_set (D p)) i =
      (\<lambda>p. some_set (D p \<union> (if p = op_hash (prevout i) then {h} else {})))"
    by (auto simp: index_orphan_def some_set_def fun_eq_iff Let_def)
  show ?case unfolding foldl_Cons step Cons.IH by (auto simp: fun_eq_iff)
qed simp

lemma unindex_all:
  "foldl (unindex_orphan h) (\<lambda>p. some_set (D p)) ins =
     (\<lambda>p. some_set (D p - (if p \<in> (\<lambda>i. op_hash (prevout i)) ` set ins then {h} else {})))"
proof (induction ins arbitrary: D)
  case (Cons i ins)
  have step: "unindex_orphan h (\<lambda>p. some_set (D p)) i =
      (\<lambda>p. some_set (D p - (if p = op_hash (prevout i) then {h} else {})))"
    by (auto simp: unindex_orphan_def some_set_def fun_eq_iff Let_def)
  show ?case unfolding foldl_Cons step Cons.IH by (auto simp: fun_eq_iff)
qed simp

lemma AddOrphanTx_ok:
  assumes "pool_ok GetHash pool" shows "pool_ok GetHash (snd (AddOrphanTx GetHash tx pool))"
proof (cases "map_of (mapOrphanTransactions pool) (GetHash tx) \<noteq> None \<or> size_CTransaction tx > 5000")
  case False
  let ?m = "map_of (mapOrphanTransactions pool)"
  have "dependents (?m(GetHash tx \<mapsto> tx)) p =
      dependents ?m p \<union> (if p \<in> prev_hashes tx then {GetHash tx} else {})" for p
    using False by (auto simp: dependents_def)
  then show ?thesis
    using assms False index_all [of "GetHash tx" "dependents ?m" "vin tx"]
    by (auto simp: pool_ok_def AddOrphanTx_def Let_def prev_hashes_def)
qed (use assms in \<open>auto simp: AddOrphanTx_def Let_def\<close>)

lemma EraseOrphanTx_ok:
  assumes "pool_ok GetHash pool"
  shows "pool_ok GetHash (EraseOrphanTx h pool)"
    "map_of (mapOrphanTransactions (EraseOrphanTx h pool)) = (map_of (mapOrphanTransactions pool))(h := None)"
proof -
  let ?m = "map_of (mapOrphanTransactions pool)"
  show "map_of (mapOrphanTransactions (EraseOrphanTx h pool)) = ?m(h := None)"
    by (cases "?m h") (auto simp: EraseOrphanTx_def fun_eq_iff)
  show "pool_ok GetHash (EraseOrphanTx h pool)"
  proof (cases "?m h")
    case (Some tx)
    have "dependents (?m(h := None)) p = dependents ?m p - (if p \<in> prev_hashes tx then {h} else {})" for p
      using Some by (auto simp: dependents_def)
    then show ?thesis
      using assms Some unindex_all [of h "dependents ?m" "vin tx"]
      by (auto simp: pool_ok_def EraseOrphanTx_def prev_hashes_def)
  qed (use assms in \<open>simp add: EraseOrphanTx_def\<close>)
qed

lemma EraseOrphanTx_length:
  assumes "pool_ok GetHash pool" "h \<in> fst ` set (mapOrphanTransactions pool)"
  shows "length (mapOrphanTransactions (EraseOrphanTx h pool)) = length (mapOrphanTransactions pool) - 1"
proof -
  obtain tx where "map_of (mapOrphanTransactions pool) h = Some tx"
    using assms(2) by (metis map_of_keys option.exhaust)
  then show ?thesis using assms by (simp add: EraseOrphanTx_def length_std_erase_ok pool_ok_def)
qed

lemma limit_loop_props:
  "pool_ok GetHash pool \<Longrightarrow> limit_loop rnd n k pool = (k', pool') \<Longrightarrow>
   pool_ok GetHash pool' \<and> length (mapOrphanTransactions pool') = min n (length (mapOrphanTransactions pool))
   \<and> k' = k + (length (mapOrphanTransactions pool) - n)
   \<and> map_of (mapOrphanTransactions pool') \<subseteq>\<^sub>m map_of (mapOrphanTransactions pool)"
proof (induction rnd n k pool rule: limit_loop.induct)
  case (1 rnd n k pool)
  show ?case
  proof (cases "length (mapOrphanTransactions pool) > n")
    case True
    then have "mapOrphanTransactions pool \<noteq> []" by auto
    then obtain h where h: "h \<in> fst ` set (mapOrphanTransactions pool)"
      and e: "evict_orphan (rnd k) pool = EraseOrphanTx h pool" by (rule evict_orphan_key)
    note ok = EraseOrphanTx_ok [OF 1(2), of h] and len = EraseOrphanTx_length [OF 1(2) h]
    have "limit_loop rnd n (k + 1) (EraseOrphanTx h pool) = (k', pool')"
      using 1(3) True e by (simp add: limit_loop.simps [of rnd n k pool])
    then have "pool_ok GetHash pool' \<and> length (mapOrphanTransactions pool') =
          min n (length (mapOrphanTransactions (EraseOrphanTx h pool)))
        \<and> k' = k + 1 + (length (mapOrphanTransactions (EraseOrphanTx h pool)) - n)
        \<and> map_of (mapOrphanTransactions pool') \<subseteq>\<^sub>m map_of (mapOrphanTransactions (EraseOrphanTx h pool))"
      using 1(1) [OF True, unfolded e] ok(1) by blast
    then show ?thesis unfolding len ok(2) using True map_le_trans [OF _ upd_None_map_le] by fastforce
  next
    case False
    then show ?thesis using 1(2,3) by (simp add: limit_loop.simps [of rnd n k pool])
  qed
qed

subsection \<open>Retrying orphans\<close>

text \<open>
  When a transaction is accepted, the orphans that depend on it are offered to the memory pool, and
  so on for those that are accepted: \<open>vWorkQueue\<close> is read from the front and extended at the end,
  \<open>vEraseQueue\<close> collects what leaves the pool of orphans. \<open>accept\<close> is \<open>AcceptToMemoryPool\<close>: the answer,
  \<open>fMissingInputs\<close> and the new state. \<open>None\<close> would be \<open>mapOrphanTransactions[h]\<close> creating an entry.
\<close>

type_synonym 's accept = "'s \<Rightarrow> CTransaction \<Rightarrow> bool \<times> bool \<times> 's"

fun retry_dependents ::
  "'s accept \<Rightarrow> orphan_pool \<Rightarrow> uint256 list \<Rightarrow> 's \<times> uint256 list \<times> uint256 list
     \<Rightarrow> ('s \<times> uint256 list \<times> uint256 list) option" where
  "retry_dependents accept pool [] st = Some st"
| "retry_dependents accept pool (h # hs) (s, vWorkQueue, vEraseQueue) =
     (case map_of (mapOrphanTransactions pool) h of
        None \<Rightarrow> None
      | Some orphanTx \<Rightarrow>
          (case accept s orphanTx of
             (True, _, s') \<Rightarrow> retry_dependents accept pool hs (s', vWorkQueue @ [h], vEraseQueue @ [h])
           | (False, False, s') \<Rightarrow> retry_dependents accept pool hs (s', vWorkQueue, vEraseQueue @ [h])
           | (False, True, s') \<Rightarrow> retry_dependents accept pool hs (s', vWorkQueue, vEraseQueue)))"

partial_function (option) work_loop ::
  "'s accept \<Rightarrow> orphan_pool \<Rightarrow> uint256 list \<Rightarrow> 's \<Rightarrow> uint256 list \<Rightarrow> ('s \<times> uint256 list) option" where
  "work_loop accept pool vWorkQueue s vEraseQueue =
     (case vWorkQueue of
        [] \<Rightarrow> Some (s, vEraseQueue)
      | w # ws \<Rightarrow>
          (case mapOrphanTransactionsByPrev pool w of
             None \<Rightarrow> work_loop accept pool ws s vEraseQueue
           | Some deps \<Rightarrow>
               (case retry_dependents accept pool (sorted_list_of_set deps) (s, ws, vEraseQueue) of
                  None \<Rightarrow> None
                | Some (s', ws', vEraseQueue') \<Rightarrow> work_loop accept pool ws' s' vEraseQueue')))"

definition MAX_ORPHAN_TRANSACTIONS :: nat where "MAX_ORPHAN_TRANSACTIONS = unat (MAX_BLOCK_SIZE div 10000)"

text \<open>
  What the message handler does with a received transaction; \<open>ignoreFees\<close> is for transactions of
  masternodes.
\<close>

definition receive_tx ::
  "(CTransaction \<Rightarrow> uint256) \<Rightarrow> (nat \<Rightarrow> uint256) \<Rightarrow> (bool \<Rightarrow> 's accept) \<Rightarrow> bool \<Rightarrow> CTransaction \<Rightarrow> 's \<times> orphan_pool
     \<Rightarrow> ('s \<times> orphan_pool) option" where
  "receive_tx GetHash GetRandHash accept ignoreFees tx st =
     (case st of (s, pool) \<Rightarrow>
      case accept ignoreFees s tx of
        (True, _, s') \<Rightarrow>
          (case work_loop (accept False) pool [GetHash tx] s' [] of
             None \<Rightarrow> None
           | Some (s'', vEraseQueue) \<Rightarrow> Some (s'', foldl (\<lambda>p h. EraseOrphanTx h p) pool vEraseQueue))
      | (False, True, s') \<Rightarrow>
          Some (s', snd (LimitOrphanTxSize GetRandHash MAX_ORPHAN_TRANSACTIONS (snd (AddOrphanTx GetHash tx pool))))
      | (False, False, s') \<Rightarrow> Some (s', pool))"

text \<open>
  What the loop relies on: a transaction that the memory pool has is not accepted again, and only
  an accepted one is added.
\<close>

definition accepts_once :: "(CTransaction \<Rightarrow> uint256) \<Rightarrow> ('s \<Rightarrow> uint256 set) \<Rightarrow> 's accept \<Rightarrow> bool" where
  "accepts_once GetHash known accept \<longleftrightarrow>
     (\<forall>s tx. case accept s tx of (ok, _, s') \<Rightarrow>
        if ok then GetHash tx \<notin> known s \<and> known s' = insert (GetHash tx) (known s) else known s' = known s)"

abbreviation orphan_keys :: "orphan_pool \<Rightarrow> uint256 set" where
  "orphan_keys pool \<equiv> fst ` set (mapOrphanTransactions pool)"

lemma retry_dependents_props:
  assumes "pool_ok GetHash pool" "accepts_once GetHash known accept"
  shows "set hs \<subseteq> orphan_keys pool \<Longrightarrow>
    \<exists>s' new er. retry_dependents accept pool hs (s, ws, es) = Some (s', ws @ new, es @ er)
      \<and> length new + card (orphan_keys pool - known s') \<le> card (orphan_keys pool - known s)
      \<and> known s \<subseteq> known s' \<and> known s' - known s \<subseteq> set er"
proof (induction hs arbitrary: s ws es)
  case (Cons h hs)
  obtain tx where tx: "map_of (mapOrphanTransactions pool) h = Some tx"
    using Cons.prems by (metis list.set_intros(1) map_of_keys option.exhaust subsetD)
  then have hash: "GetHash tx = h" using assms(1) by (simp add: pool_ok_def)
  obtain ok missing s1 where a: "accept s tx = (ok, missing, s1)" by (metis prod.exhaust)
  have k: "if ok then h \<notin> known s \<and> known s1 = insert h (known s) else known s1 = known s"
    using assms(2) a hash by (auto simp: accepts_once_def split: prod.splits)
  have sub: "set hs \<subseteq> orphan_keys pool" and h: "h \<in> orphan_keys pool" using Cons.prems by auto
  show ?case
  proof (cases ok)
    case True
    obtain s' new er where r: "retry_dependents accept pool hs (s1, ws @ [h], es @ [h]) = Some (s', (ws @ [h]) @ new, (es @ [h]) @ er)"
        "length new + card (orphan_keys pool - known s') \<le> card (orphan_keys pool - known s1)"
        "known s1 \<subseteq> known s'" "known s' - known s1 \<subseteq> set er"
      using Cons.IH [OF sub, of s1 "ws @ [h]" "es @ [h]"] by blast
    have "orphan_keys pool - known s = insert h (orphan_keys pool - known s1)" using k True h by auto
    then have "card (orphan_keys pool - known s) = Suc (card (orphan_keys pool - known s1))"
      using k True by simp
    then show ?thesis using r k True tx a
      by (intro exI [of _ s'] exI [of _ "h # new"] exI [of _ "h # er"]) auto
  next
    case False
    let ?es = "if missing then es else es @ [h]"
    obtain s' new er where r: "retry_dependents accept pool hs (s1, ws, ?es) = Some (s', ws @ new, ?es @ er)"
        "length new + card (orphan_keys pool - known s') \<le> card (orphan_keys pool - known s1)"
        "known s1 \<subseteq> known s'" "known s' - known s1 \<subseteq> set er"
      using Cons.IH [OF sub, of s1 ws ?es] by blast
    then show ?thesis using k False tx a
      by (intro exI [of _ s'] exI [of _ new] exI [of _ "(if missing then [] else [h]) @ er"])
        (auto split: bool.split)
  qed
qed (auto intro: exI [of _ "[]"])

lemma dependents_keys: "dependents (map_of (mapOrphanTransactions pool)) p \<subseteq> orphan_keys pool"
  by (auto simp: dependents_def dest!: map_of_SomeD intro: rev_image_eqI)

lemma work_loop_returns:
  assumes "pool_ok GetHash pool" "accepts_once GetHash known accept"
  shows "length ws + card (orphan_keys pool - known s) = n \<Longrightarrow>
    \<exists>s' er. work_loop accept pool ws s es = Some (s', es @ er) \<and> known s \<subseteq> known s' \<and> known s' - known s \<subseteq> set er"
proof (induction n arbitrary: ws s es rule: less_induct)
  case (less n)
  show ?case
  proof (cases ws)
    case Nil
    then show ?thesis by (simp add: work_loop.simps)
  next
    case (Cons w ws')
    show ?thesis
    proof (cases "mapOrphanTransactionsByPrev pool w")
      case None
      have "length ws' + card (orphan_keys pool - known s) < n" using less.prems Cons by simp
      from less.IH [OF this refl, of es] show ?thesis
        using Cons None by (simp add: work_loop.simps [of _ _ "w # ws'"])
    next
      case (Some deps)
      then have "deps \<subseteq> orphan_keys pool"
        using assms(1) dependents_keys [of pool w] by (auto simp: pool_ok_def some_set_def split: if_splits)
      moreover from this have "finite deps" by (rule finite_subset) simp
      ultimately have "set (sorted_list_of_set deps) \<subseteq> orphan_keys pool" by simp
      from retry_dependents_props [OF assms this, of s ws' es] obtain s1 new er where
        r: "retry_dependents accept pool (sorted_list_of_set deps) (s, ws', es) = Some (s1, ws' @ new, es @ er)"
          "length new + card (orphan_keys pool - known s1) \<le> card (orphan_keys pool - known s)"
          "known s \<subseteq> known s1" "known s1 - known s \<subseteq> set er" by blast
      have "length (ws' @ new) + card (orphan_keys pool - known s1) < n" using less.prems Cons r(2) by simp
      from less.IH [OF this refl, of "es @ er"] obtain s' er' where
        "work_loop accept pool (ws' @ new) s1 (es @ er) = Some (s', (es @ er) @ er')"
        "known s1 \<subseteq> known s'" "known s' - known s1 \<subseteq> set er'" by blast
      then show ?thesis using Cons Some r by (auto simp: work_loop.simps [of _ _ "w # ws'"])
    qed
  qed
qed

lemma erase_all:
  "pool_ok GetHash pool \<Longrightarrow> pool_ok GetHash (foldl (\<lambda>p h. EraseOrphanTx h p) pool es) \<and>
   map_of (mapOrphanTransactions (foldl (\<lambda>p h. EraseOrphanTx h p) pool es)) =
     (\<lambda>h. if h \<in> set es then None else map_of (mapOrphanTransactions pool) h)"
proof (induction es arbitrary: pool)
  case (Cons e es)
  from Cons.IH [OF EraseOrphanTx_ok(1) [OF Cons.prems, of e]] EraseOrphanTx_ok(2) [OF Cons.prems, of e]
  show ?case by (auto simp: fun_eq_iff)
qed simp

subsection \<open>Properties\<close>

text \<open>The pool as a state machine: every way in which it changes.\<close>

inductive orphan_step :: "(CTransaction \<Rightarrow> uint256) \<Rightarrow> orphan_pool \<Rightarrow> orphan_pool \<Rightarrow> bool" for GetHash where
  step_add: "orphan_step GetHash pool (snd (AddOrphanTx GetHash tx pool))"
| step_erase: "orphan_step GetHash pool (EraseOrphanTx h pool)"
| step_limit: "orphan_step GetHash pool (snd (LimitOrphanTxSize rnd n pool))"

definition empty_pool :: orphan_pool where
  "empty_pool = \<lparr>mapOrphanTransactions = [], mapOrphanTransactionsByPrev = (\<lambda>_. None)\<rparr>"

lemma empty_pool_ok: "pool_ok GetHash empty_pool"
  by (simp add: pool_ok_def empty_pool_def dependents_def some_set_def)

lemma LimitOrphanTxSize_ok: "pool_ok GetHash pool \<Longrightarrow> pool_ok GetHash (snd (LimitOrphanTxSize rnd n pool))"
  unfolding LimitOrphanTxSize_def using limit_loop_props [of GetHash pool rnd n 0] by (metis prod.collapse)

lemma reachable_ok: "(orphan_step GetHash)\<^sup>*\<^sup>* empty_pool pool \<Longrightarrow> pool_ok GetHash pool"
proof (induction rule: rtranclp_induct)
  case (step p q)
  from step(2) show ?case
    by cases (use step(3) in \<open>auto intro: AddOrphanTx_ok EraseOrphanTx_ok LimitOrphanTxSize_ok\<close>)
qed (rule empty_pool_ok)

text \<open>
  C27. In every reachable pool the two maps agree: an orphan is filed under its own hash and has at
  most 5000 bytes, and the index lists for each transaction exactly the orphans that spend it, with
  no empty entries.
\<close>

theorem orphan_index_exact:
  assumes "(orphan_step GetHash)\<^sup>*\<^sup>* empty_pool pool"
  shows "(map_of (mapOrphanTransactions pool) h = Some tx \<longrightarrow> GetHash tx = h \<and> size_CTransaction tx \<le> 5000)
    \<and> (case mapOrphanTransactionsByPrev pool p of
         None \<Rightarrow> dependents (map_of (mapOrphanTransactions pool)) p = {}
       | Some s \<Rightarrow> s \<noteq> {} \<and> s = dependents (map_of (mapOrphanTransactions pool)) p)"
  using reachable_ok [OF assms] by (auto simp: pool_ok_def some_set_def)

theorem orphan_index_exact_witness:
  "mapOrphanTransactionsByPrev (snd (AddOrphanTx (\<lambda>_. 3) sample_tx empty_pool)) 7 = Some {3}"
proof -
  have "(orphan_step (\<lambda>_. 3))\<^sup>*\<^sup>* empty_pool (snd (AddOrphanTx (\<lambda>_. 3) sample_tx empty_pool))"
    by (rule r_into_rtranclp) (rule step_add)
  note w = orphan_index_exact [OF this, of 0 sample_tx 7]
  have "size_CTransaction sample_tx \<le> 5000" by code_simp
  then have "dependents (map_of (mapOrphanTransactions (snd (AddOrphanTx (\<lambda>_. 3) sample_tx empty_pool)))) 7 = {3}"
    by (auto simp: AddOrphanTx_def empty_pool_def dependents_def prev_hashes_def sample_tx_def)
  then show ?thesis using w by (auto split: option.splits)
qed

text \<open>
  \<open>LimitOrphanTxSize\<close> leaves exactly the allowed number of orphans when there are more, whatever
  random numbers are drawn, reports how many it removed, and changes none of those it keeps.
\<close>

theorem LimitOrphanTxSize_bound:
  assumes "(orphan_step GetHash)\<^sup>*\<^sup>* empty_pool pool" "LimitOrphanTxSize rnd n pool = (nEvicted, pool')"
  shows "length (mapOrphanTransactions pool') = min n (length (mapOrphanTransactions pool))
    \<and> nEvicted = length (mapOrphanTransactions pool) - n
    \<and> map_of (mapOrphanTransactions pool') \<subseteq>\<^sub>m map_of (mapOrphanTransactions pool)"
  using limit_loop_props [OF reachable_ok [OF assms(1)], of rnd n 0 nEvicted pool'] assms(2)
  by (simp add: LimitOrphanTxSize_def)

theorem LimitOrphanTxSize_bound_witness:
  "fst (LimitOrphanTxSize (\<lambda>_. 9) 0 (snd (AddOrphanTx (\<lambda>_. 3) sample_tx empty_pool))) = 1"
proof -
  let ?p = "snd (AddOrphanTx (\<lambda>_. 3) sample_tx empty_pool)"
  obtain k p' where e: "LimitOrphanTxSize (\<lambda>_. 9) 0 ?p = (k, p')" by force
  have "(orphan_step (\<lambda>_. 3))\<^sup>*\<^sup>* empty_pool ?p" by (rule r_into_rtranclp) (rule step_add)
  note w = LimitOrphanTxSize_bound [OF this e]
  have "size_CTransaction sample_tx \<le> 5000" by code_simp
  then have "length (mapOrphanTransactions ?p) = 1"
    by (simp add: AddOrphanTx_def empty_pool_def std_put_def std_erase_def)
  then show ?thesis using w e by simp
qed

text \<open>
  C28. Receiving a transaction ends, also when the orphans it unblocks unblock others: as long as the
  memory pool accepts no transaction twice, the work queue runs empty, no lookup creates an entry,
  both maps still agree, and no orphan that was accepted on the way stays behind.
\<close>

theorem receive_tx_returns:
  assumes "(orphan_step GetHash)\<^sup>*\<^sup>* empty_pool pool" "\<And>f. accepts_once GetHash known (accept f)"
  shows "\<exists>s' pool'. receive_tx GetHash rnd accept ignoreFees tx (s, pool) = Some (s', pool') \<and> pool_ok GetHash pool'
    \<and> (\<forall>h \<in> known s' - known s - {GetHash tx}. map_of (mapOrphanTransactions pool') h = None)"
proof -
  note ok = reachable_ok [OF assms(1)]
  obtain b m s1 where a: "accept ignoreFees s tx = (b, m, s1)" by (metis prod.exhaust)
  have k: "if b then GetHash tx \<notin> known s \<and> known s1 = insert (GetHash tx) (known s) else known s1 = known s"
    using assms(2) [of ignoreFees] a by (auto simp: accepts_once_def split: prod.splits)
  show ?thesis
  proof (cases b)
    case True
    obtain s' er where w: "work_loop (accept False) pool [GetHash tx] s1 [] = Some (s', er)"
      "known s1 \<subseteq> known s'" "known s' - known s1 \<subseteq> set er"
      using work_loop_returns [OF ok assms(2), where ws = "[GetHash tx]" and s = s1 and es = "[]", OF refl, of False] by auto
    show ?thesis using True a w k erase_all [OF ok, of er] by (auto simp: receive_tx_def)
  next
    case False
    then show ?thesis using a k ok LimitOrphanTxSize_ok [OF AddOrphanTx_ok [OF ok]]
      by (cases m) (auto simp: receive_tx_def)
  qed
qed

theorem receive_tx_returns_witness:
  "receive_tx (\<lambda>_. 3) (\<lambda>_. 0) (\<lambda>_ s tx. if s then (False, False, s) else (True, False, True)) False sample_tx
     (False, snd (AddOrphanTx (\<lambda>_. 3) sample_tx empty_pool)) \<noteq> None"
proof -
  have "(orphan_step (\<lambda>_. 3))\<^sup>*\<^sup>* empty_pool (snd (AddOrphanTx (\<lambda>_. 3) sample_tx empty_pool))"
    by (rule r_into_rtranclp) (rule step_add)
  moreover have "accepts_once (\<lambda>_. 3) (\<lambda>s. if s then {3} else {})
      (\<lambda>s tx. if s then (False, False, s) else (True, False, True))"
    by (simp add: accepts_once_def)
  ultimately show ?thesis
    using receive_tx_returns [of "\<lambda>_. 3" _ "\<lambda>s. if s then {3} else {}"
      "\<lambda>_ s tx. if s then (False, False, s) else (True, False, True)"] by fastforce
qed

end
