(* ===== verification/Mempool.thy ===== *)
theory Mempool imports Std_Map Transaction begin

text \<open>
  \<open>CTxMemPool\<close> of \<open>src/src/txmempool.cpp\<close>: the transactions by hash, and \<open>mapNextTx\<close>, which names for every
  outpoint spent in the pool the transaction and input that spends it. A pointer into \<open>mapTx\<close> is the key
  of its node; following it when the node is gone is \<open>None\<close>, as is running out of fuel in the
  recursion of \<open>remove\<close>. Locks are left out; the hash of a transaction is a parameter.
\<close>

record CTxMemPool =
  nTransactionsUpdated :: u32
  mapTx :: "(uint256, CTransaction) std_map"
  mapNextTx :: "COutPoint \<Rightarrow> (uint256 \<times> u32) option"

definition AddTransactionsUpdated :: "u32 \<Rightarrow> CTxMemPool \<Rightarrow> CTxMemPool" where
  "AddTransactionsUpdated n pool = pool\<lparr>nTransactionsUpdated := nTransactionsUpdated pool + n\<rparr>"

definition pool_size :: "CTxMemPool \<Rightarrow> nat" where
  "pool_size pool = length (mapTx pool)"

definition pool_exists :: "CTxMemPool \<Rightarrow> uint256 \<Rightarrow> bool" where
  "pool_exists pool h \<longleftrightarrow> map_of (mapTx pool) h \<noteq> None"

definition pool_lookup :: "CTxMemPool \<Rightarrow> uint256 \<Rightarrow> CTransaction \<Rightarrow> bool \<times> CTransaction" where
  "pool_lookup pool h result = (case map_of (mapTx pool) h of None \<Rightarrow> (False, result) | Some tx \<Rightarrow> (True, tx))"

definition pool_queryHashes :: "CTxMemPool \<Rightarrow> uint256 list" where
  "pool_queryHashes pool = map fst (mapTx pool)"

definition pool_clear :: "CTxMemPool \<Rightarrow> CTxMemPool" where
  "pool_clear pool = \<lparr>nTransactionsUpdated = nTransactionsUpdated pool + 1, mapTx = [], mapNextTx = (\<lambda>_. None)\<rparr>"

definition addUnchecked :: "uint256 \<Rightarrow> CTransaction \<Rightarrow> CTxMemPool \<Rightarrow> CTxMemPool" where
  "addUnchecked h tx pool =
     \<lparr>nTransactionsUpdated = nTransactionsUpdated pool + 1,
      mapTx = std_put h tx (mapTx pool),
      mapNextTx = foldl (\<lambda>m i. m(prevout (vin tx ! i) \<mapsto> (h, of_nat i))) (mapNextTx pool) [0..<length (vin tx)]\<rparr>"

subsection \<open>Removal\<close>

text \<open>The loop over the outputs of a transaction; \<open>rm\<close> is the recursive call.\<close>

fun remove_spenders ::
  "(CTransaction \<Rightarrow> CTxMemPool \<Rightarrow> CTxMemPool option) \<Rightarrow> uint256 \<Rightarrow> nat list \<Rightarrow> CTxMemPool \<Rightarrow> CTxMemPool option" where
  "remove_spenders rm h [] pool = Some pool"
| "remove_spenders rm h (i # is) pool =
     (case mapNextTx pool \<lparr>op_hash = h, op_n = of_nat i\<rparr> of
        None \<Rightarrow> remove_spenders rm h is pool
      | Some (ptx, n) \<Rightarrow>
          (case map_of (mapTx pool) ptx of
             None \<Rightarrow> None
           | Some child \<Rightarrow>
               (case rm child pool of None \<Rightarrow> None | Some pool' \<Rightarrow> remove_spenders rm h is pool')))"

definition erase_tx :: "uint256 \<Rightarrow> CTransaction \<Rightarrow> CTxMemPool \<Rightarrow> CTxMemPool" where
  "erase_tx h tx pool =
     \<lparr>nTransactionsUpdated = nTransactionsUpdated pool + 1,
      mapTx = std_erase h (mapTx pool),
      mapNextTx = foldl (\<lambda>m txin. m(prevout txin := None)) (mapNextTx pool) (vin tx)\<rparr>"

fun pool_remove ::
  "(CTransaction \<Rightarrow> uint256) \<Rightarrow> nat \<Rightarrow> bool \<Rightarrow> CTransaction \<Rightarrow> CTxMemPool \<Rightarrow> CTxMemPool option" where
  "pool_remove GetHash 0 fRecursive tx pool = None"
| "pool_remove GetHash (Suc fuel) fRecursive tx pool =
     (let h = GetHash tx in
      if map_of (mapTx pool) h = None then Some pool
      else
        case (if fRecursive then remove_spenders (pool_remove GetHash fuel True) h [0..<length (vout tx)] pool
              else Some pool) of
          None \<Rightarrow> None
        | Some pool \<Rightarrow> Some (erase_tx h tx pool))"

definition CTransaction_eq :: "CTransaction \<Rightarrow> CTransaction \<Rightarrow> bool" where
  "CTransaction_eq a b \<longleftrightarrow>
     nVersion a = nVersion b \<and> nTime a = nTime b \<and> list_all2 CTxIn_eq (vin a) (vin b) \<and> vout a = vout b
     \<and> nLockTime a = nLockTime b"

fun remove_conflicts ::
  "(CTransaction \<Rightarrow> CTxMemPool \<Rightarrow> CTxMemPool option) \<Rightarrow> CTransaction \<Rightarrow> CTxIn list \<Rightarrow> CTxMemPool \<Rightarrow> CTxMemPool option" where
  "remove_conflicts rm tx [] pool = Some pool"
| "remove_conflicts rm tx (txin # ins) pool =
     (case mapNextTx pool (prevout txin) of
        None \<Rightarrow> remove_conflicts rm tx ins pool
      | Some (ptx, n) \<Rightarrow>
          (case map_of (mapTx pool) ptx of
             None \<Rightarrow> None
           | Some txConflict \<Rightarrow>
               if \<not> CTransaction_eq txConflict tx then
                 (case rm txConflict pool of None \<Rightarrow> None | Some pool' \<Rightarrow> remove_conflicts rm tx ins pool')
               else remove_conflicts rm tx ins pool))"

definition removeConflicts :: "(CTransaction \<Rightarrow> uint256) \<Rightarrow> nat \<Rightarrow> CTransaction \<Rightarrow> CTxMemPool \<Rightarrow> CTxMemPool option" where
  "removeConflicts GetHash fuel tx pool = remove_conflicts (pool_remove GetHash fuel True) tx (vin tx) pool"

subsection \<open>The index is exact\<close>

definition mempool_ok :: "(CTransaction \<Rightarrow> uint256) \<Rightarrow> CTxMemPool \<Rightarrow> bool" where
  "mempool_ok GetHash pool \<longleftrightarrow> std_ok (mapTx pool)
     \<and> (\<forall>k tx. map_of (mapTx pool) k = Some tx \<longrightarrow> GetHash tx = k \<and> length (vin tx) < 2 ^ 32)
     \<and> (\<forall>p k i. mapNextTx pool p = Some (k, i) \<longleftrightarrow>
          (\<exists>tx. map_of (mapTx pool) k = Some tx \<and> unat i < length (vin tx) \<and> prevout (vin tx ! unat i) = p))"

text \<open>A pool without the transactions of a set, as the removals are meant to leave it.\<close>

definition without :: "uint256 set \<Rightarrow> CTxMemPool \<Rightarrow> CTxMemPool" where
  "without S pool =
     \<lparr>nTransactionsUpdated = nTransactionsUpdated pool + of_nat (length (filter (\<lambda>e. fst e \<in> S) (mapTx pool))),
      mapTx = filter (\<lambda>e. fst e \<notin> S) (mapTx pool),
      mapNextTx = (\<lambda>p. case mapNextTx pool p of None \<Rightarrow> None | Some e \<Rightarrow> if fst e \<in> S then None else Some e)\<rparr>"

lemma map_of_filter_notin: "map_of (filter (\<lambda>e. fst e \<notin> S) m) k = (if k \<in> S then None else map_of m k)"
  by (induction m) auto

lemma map_of_without: "map_of (mapTx (without S pool)) k = (if k \<in> S then None else map_of (mapTx pool) k)"
  by (simp add: without_def map_of_filter_notin)

lemma next_without:
  "mapNextTx (without S pool) p = Some (k, i) \<longleftrightarrow> mapNextTx pool p = Some (k, i) \<and> k \<notin> S"
  by (auto simp: without_def split: option.splits if_splits)

lemma without_empty [simp]: "without {} pool = pool"
  by (cases pool) (auto simp: without_def fun_eq_iff split: option.splits)

lemma filter_split_length:
  "length (filter (\<lambda>e. P e \<or> Q e) m) = length (filter P m) + length (filter Q (filter (\<lambda>e. \<not> P e) m))"
  by (induction m) auto

lemma without_without: "without S (without T pool) = without (S \<union> T) pool"
  using filter_split_length [of "\<lambda>e. fst e \<in> T" "\<lambda>e. fst e \<in> S" "mapTx pool"]
  by (auto simp: without_def Un_commute disj_commute conj_commute fun_eq_iff split: option.splits)

lemma without_not_in: "\<forall>e\<in>set (mapTx pool). fst e \<notin> T \<Longrightarrow> (\<And>p k i. mapNextTx pool p = Some (k, i) \<Longrightarrow> k \<notin> T) \<Longrightarrow>
    without T pool = pool"
  by (auto simp: without_def filter_id_conv filter_empty_conv fun_eq_iff split: option.splits)

lemma mempool_ok_without [simp]: "mempool_ok H pool \<Longrightarrow> mempool_ok H (without S pool)"
proof -
  assume ok: "mempool_ok H pool"
  have "std_ok (mapTx (without S pool))"
    using ok by (simp add: mempool_ok_def std_ok_def without_def sorted_filter distinct_map_filter)
  moreover have "mapNextTx (without S pool) p = Some (k, i) \<longleftrightarrow>
      (\<exists>tx. map_of (mapTx (without S pool)) k = Some tx \<and> unat i < length (vin tx) \<and> prevout (vin tx ! unat i) = p)" for p k i
    using ok unfolding next_without map_of_without mempool_ok_def by simp
  ultimately show ?thesis using ok by (simp add: mempool_ok_def map_of_without)
qed

lemma mempool_okD:
  assumes "mempool_ok H pool"
  shows "std_ok (mapTx pool)" "map_of (mapTx pool) k = Some tx \<Longrightarrow> H tx = k"
    "map_of (mapTx pool) k = Some tx \<Longrightarrow> length (vin tx) < 2 ^ 32"
    "mapNextTx pool p = Some (k, i) \<Longrightarrow>
       \<exists>tx. map_of (mapTx pool) k = Some tx \<and> unat i < length (vin tx) \<and> prevout (vin tx ! unat i) = p"
    "map_of (mapTx pool) k = Some tx \<Longrightarrow> unat i < length (vin tx) \<Longrightarrow> prevout (vin tx ! unat i) = p \<Longrightarrow>
       mapNextTx pool p = Some (k, i)"
  using assms by (auto simp: mempool_ok_def)

lemma mempool_next_vin:
  assumes "mempool_ok H pool" "map_of (mapTx pool) k = Some tx" "txin \<in> set (vin tx)"
  obtains i where "mapNextTx pool (prevout txin) = Some (k, i)"
proof -
  obtain j where j: "j < length (vin tx)" "vin tx ! j = txin" using assms(3) by (auto simp: in_set_conv_nth)
  moreover have "length (vin tx) < 2 ^ 32" using assms(1,2) mempool_okD(3) by blast
  ultimately have "unat (of_nat j :: u32) = j" by (simp add: unat_of_nat)
  then show ?thesis using mempool_okD(5) [OF assms(1,2), of "of_nat j"] j that by auto
qed

lemma foldl_erase: "foldl (\<lambda>m txin. m(prevout txin := None)) m ins = (\<lambda>p. if p \<in> prevout ` set ins then None else m p)"
  by (induction ins arbitrary: m) (auto simp: fun_eq_iff)

lemma erase_tx_without:
  assumes "mempool_ok H pool" "map_of (mapTx pool) h = Some tx"
  shows "erase_tx h tx pool = without {h} pool"
proof -
  have "length (filter (\<lambda>e. fst e \<in> {h}) (mapTx pool)) = length (mapTx pool) - length (std_erase h (mapTx pool))"
    using sum_length_filter_compl [of "\<lambda>e. fst e = h" "mapTx pool"] by (simp add: std_erase_def)
  moreover have "h \<in> fst ` set (mapTx pool)" using assms(2) by (auto dest: map_of_SomeD intro: rev_image_eqI)
  then have "length (std_erase h (mapTx pool)) = length (mapTx pool) - 1" "length (mapTx pool) > 0"
    using length_std_erase_ok [OF mempool_okD(1) [OF assms(1)]] by auto
  ultimately have n: "length (filter (\<lambda>e. fst e \<in> {h}) (mapTx pool)) = 1" by simp
  have "(if p \<in> prevout ` set (vin tx) then None else mapNextTx pool p) =
      (case mapNextTx pool p of None \<Rightarrow> None | Some e \<Rightarrow> if fst e \<in> {h} then None else Some e)" for p
  proof (cases "p \<in> prevout ` set (vin tx)")
    case True
    then obtain i where "mapNextTx pool p = Some (h, i)" using mempool_next_vin [OF assms] by blast
    then show ?thesis using True by simp
  next
    case False
    then show ?thesis using mempool_okD(4) [OF assms(1), of p h] assms(2)
      by (auto split: option.splits dest: nth_mem)
  qed
  then show ?thesis using n by (simp add: erase_tx_def without_def std_erase_def foldl_erase)
qed

subsection \<open>Removal takes the descendants\<close>

definition spends :: "CTxMemPool \<Rightarrow> uint256 \<Rightarrow> uint256 \<Rightarrow> bool" where
  "spends pool h k \<longleftrightarrow>
     (\<exists>tx i n. map_of (mapTx pool) h = Some tx \<and> i < length (vout tx)
        \<and> mapNextTx pool \<lparr>op_hash = h, op_n = of_nat i\<rparr> = Some (k, n))"

definition descendants :: "CTxMemPool \<Rightarrow> uint256 \<Rightarrow> uint256 set" where
  "descendants pool h = {k. (spends pool)\<^sup>*\<^sup>* h k}"

definition closed_down :: "CTxMemPool \<Rightarrow> uint256 set \<Rightarrow> bool" where
  "closed_down pool S \<longleftrightarrow> (\<forall>h\<in>S. \<forall>k. spends pool h k \<longrightarrow> k \<in> S)"

lemma spends_without: "spends (without S pool) h k \<longleftrightarrow> spends pool h k \<and> h \<notin> S \<and> k \<notin> S"
  by (auto simp: spends_def map_of_without next_without split: if_splits)

lemma spends_stored: "mempool_ok H pool \<Longrightarrow> spends pool h k \<Longrightarrow> \<exists>tx. map_of (mapTx pool) k = Some tx"
  using mempool_okD(4) by (fastforce simp: spends_def)

lemma descendants_self [simp]: "h \<in> descendants pool h"
  by (simp add: descendants_def)

lemma descendants_step: "spends pool h k \<Longrightarrow> descendants pool k \<subseteq> descendants pool h"
  by (auto simp: descendants_def intro: converse_rtranclp_into_rtranclp)

lemma closed_descendants: "closed_down pool (descendants pool h)"
  by (auto simp: closed_down_def descendants_def)

lemma closed_Un: "closed_down pool S \<Longrightarrow> closed_down pool T \<Longrightarrow> closed_down pool (S \<union> T)"
  by (auto simp: closed_down_def)

lemma descendants_closed: "closed_down pool S \<Longrightarrow> h \<in> S \<Longrightarrow> descendants pool h \<subseteq> S"
proof
  fix k assume S: "closed_down pool S" "h \<in> S" and "k \<in> descendants pool h"
  then have "(spends pool)\<^sup>*\<^sup>* h k" by (simp add: descendants_def)
  then show "k \<in> S" using S by (induction rule: rtranclp_induct) (auto simp: closed_down_def)
qed

lemma descendants_without:
  assumes "closed_down pool S" "h \<notin> S"
  shows "descendants (without S pool) h = descendants pool h - S"
proof
  show "descendants (without S pool) h \<subseteq> descendants pool h - S"
  proof
    fix k assume "k \<in> descendants (without S pool) h"
    then have "(spends (without S pool))\<^sup>*\<^sup>* h k" by (simp add: descendants_def)
    then have "(spends pool)\<^sup>*\<^sup>* h k \<and> k \<notin> S"
      by (induction rule: rtranclp_induct) (auto simp: spends_without assms(2) intro: rtranclp.rtrancl_into_rtrancl)
    then show "k \<in> descendants pool h - S" by (simp add: descendants_def)
  qed
  show "descendants pool h - S \<subseteq> descendants (without S pool) h"
  proof
    fix k assume "k \<in> descendants pool h - S"
    then have "(spends pool)\<^sup>*\<^sup>* h k" "k \<notin> S" by (simp_all add: descendants_def)
    then have "(spends (without S pool))\<^sup>*\<^sup>* h k"
    proof (induction rule: rtranclp_induct)
      case (step y z)
      then have "y \<notin> S" using assms(1) by (auto simp: closed_down_def)
      then show ?case using step by (auto simp: spends_without intro: rtranclp.rtrancl_into_rtrancl)
    qed simp
    then show "k \<in> descendants (without S pool) h" by (simp add: descendants_def)
  qed
qed

lemma finite_descendants: "mempool_ok H pool \<Longrightarrow> finite (descendants pool h)"
proof (rule finite_subset)
  assume ok: "mempool_ok H pool"
  show "descendants pool h \<subseteq> insert h (fst ` set (mapTx pool))"
  proof
    fix k assume "k \<in> descendants pool h"
    then have "(spends pool)\<^sup>*\<^sup>* h k" by (simp add: descendants_def)
    then show "k \<in> insert h (fst ` set (mapTx pool))"
      by (induction rule: rtranclp_induct) (use ok spends_stored map_of_SomeD in \<open>fastforce intro: rev_image_eqI\<close>)+
  qed
qed simp

lemma acyclic_not_back: "acyclicP (spends pool) \<Longrightarrow> spends pool h k \<Longrightarrow> h \<notin> descendants pool k"
  by (auto simp: descendants_def acyclic_def tranclp_unfold [symmetric] dest: rtranclp_into_tranclp2)

lemma acyclic_without: "acyclicP (spends pool) \<Longrightarrow> acyclicP (spends (without S pool))"
  by (rule acyclic_subset) (auto simp: spends_without)

text \<open>The spenders of the listed outputs with all that depends on them.\<close>

definition below_outputs :: "CTxMemPool \<Rightarrow> uint256 \<Rightarrow> nat list \<Rightarrow> uint256 set" where
  "below_outputs pool h is =
     (\<Union>i\<in>set is. case mapNextTx pool \<lparr>op_hash = h, op_n = of_nat i\<rparr> of None \<Rightarrow> {} | Some e \<Rightarrow> descendants pool (fst e))"

lemma below_outputs_closed: "closed_down pool (below_outputs pool h is)"
  using closed_descendants by (fastforce simp: closed_down_def below_outputs_def split: option.splits)

lemma descendants_outputs:
  assumes "map_of (mapTx pool) h = Some tx"
  shows "descendants pool h = insert h (below_outputs pool h [0..<length (vout tx)])"
proof
  show "descendants pool h \<subseteq> insert h (below_outputs pool h [0..<length (vout tx)])"
  proof
    fix k assume "k \<in> descendants pool h"
    then have "(spends pool)\<^sup>*\<^sup>* h k" by (simp add: descendants_def)
    then show "k \<in> insert h (below_outputs pool h [0..<length (vout tx)])"
    proof (cases rule: converse_rtranclpE)
      case (step y)
      then obtain i n where "i < length (vout tx)" "mapNextTx pool \<lparr>op_hash = h, op_n = of_nat i\<rparr> = Some (y, n)"
        using assms by (auto simp: spends_def)
      then show ?thesis using step(2) by (force simp: below_outputs_def descendants_def)
    qed simp
  qed
  show "insert h (below_outputs pool h [0..<length (vout tx)]) \<subseteq> descendants pool h"
    using assms descendants_step [of pool h] by (fastforce simp: below_outputs_def spends_def split: option.splits)
qed

lemma remove_spenders_without:
  assumes ok: "mempool_ok H pool" and parent: "map_of (mapTx pool) h = Some tx"
    and rm: "\<And>c ctx S. spends pool h c \<Longrightarrow> map_of (mapTx pool) c = Some ctx \<Longrightarrow> closed_down pool S \<Longrightarrow> c \<notin> S \<Longrightarrow>
      rm ctx (without S pool) = Some (without (S \<union> descendants pool c) pool)"
    and S: "closed_down pool S" and len: "\<forall>i\<in>set outs. i < length (vout tx)"
  shows "remove_spenders rm h outs (without S pool) = Some (without (S \<union> below_outputs pool h outs) pool)"
  using S len
proof (induction outs arbitrary: S)
  case Nil
  then show ?case by (simp add: below_outputs_def)
next
  case (Cons i outs)
  let ?p = "\<lparr>op_hash = h, op_n = of_nat i\<rparr> :: COutPoint"
  show ?case
  proof (cases "mapNextTx pool ?p")
    case None
    then have "mapNextTx (without S pool) ?p = None" by (simp add: without_def)
    then show ?thesis using Cons None by (simp add: below_outputs_def)
  next
    case (Some e)
    obtain c n where e: "e = (c, n)" by (cases e)
    have sp: "spends pool h c" using Some parent Cons.prems(2) by (auto simp: spends_def e)
    then obtain ctx where ctx: "map_of (mapTx pool) c = Some ctx" using spends_stored [OF ok] by blast
    have all: "S \<union> below_outputs pool h (i # outs) = (S \<union> descendants pool c) \<union> below_outputs pool h outs"
      using Some by (auto simp: below_outputs_def e)
    have rest: "remove_spenders rm h outs (without (S \<union> descendants pool c) pool) =
        Some (without ((S \<union> descendants pool c) \<union> below_outputs pool h outs) pool)"
      using Cons.IH [OF closed_Un [OF Cons.prems(1) closed_descendants]] Cons.prems(2) by simp
    show ?thesis
    proof (cases "c \<in> S")
      case True
      then have "mapNextTx (without S pool) ?p = None" using Some by (simp add: without_def e)
      moreover have "S \<union> descendants pool c = S" using descendants_closed [OF Cons.prems(1) True] by auto
      ultimately show ?thesis using rest unfolding all by simp
    next
      case False
      then have "mapNextTx (without S pool) ?p = Some (c, n)" using Some by (simp add: next_without e)
      moreover have "map_of (mapTx (without S pool)) c = Some ctx" using False ctx by (simp add: map_of_without)
      ultimately show ?thesis using rm [OF sp ctx Cons.prems(1) False] rest unfolding all by simp
    qed
  qed
qed

lemma pool_remove_recursive:
  "mempool_ok H pool \<Longrightarrow> acyclicP (spends pool) \<Longrightarrow> map_of (mapTx pool) h = Some tx \<Longrightarrow>
   card (descendants pool h) \<le> fuel \<Longrightarrow>
   pool_remove H fuel True tx pool = Some (without (descendants pool h) pool)"
proof (induction fuel arbitrary: pool h tx)
  case 0
  then show ?case using finite_descendants [of H pool h] descendants_self [of h pool] by auto
next
  case (Suc fuel)
  note ok = Suc.prems(1) and ac = Suc.prems(2) and h = Suc.prems(3)
  have key: "H tx = h" using mempool_okD(2) [OF ok h] .
  have rm: "pool_remove H fuel True ctx (without S pool) = Some (without (S \<union> descendants pool c) pool)"
    if "spends pool h c" "map_of (mapTx pool) c = Some ctx" "closed_down pool S" "c \<notin> S" for c ctx S
  proof -
    have d: "descendants (without S pool) c = descendants pool c - S" using descendants_without that by blast
    have "descendants pool c \<subset> descendants pool h"
      using descendants_step [OF that(1)] acyclic_not_back [OF ac that(1)] descendants_self by blast
    then have "card (descendants pool c) < card (descendants pool h)"
      using psubset_card_mono finite_descendants [OF ok] by blast
    moreover have "card (descendants pool c - S) \<le> card (descendants pool c)"
      by (rule card_mono) (use finite_descendants [OF ok] in auto)
    ultimately have "card (descendants (without S pool) c) \<le> fuel" using Suc.prems(4) d by simp
    moreover have "map_of (mapTx (without S pool)) c = Some ctx" using that by (simp add: map_of_without)
    ultimately have "pool_remove H fuel True ctx (without S pool) =
        Some (without (descendants pool c - S) (without S pool))"
      using Suc.IH [OF mempool_ok_without [OF ok] acyclic_without [OF ac]] d by metis
    moreover have "descendants pool c - S \<union> S = S \<union> descendants pool c" by blast
    ultimately show ?thesis by (simp add: without_without)
  qed
  let ?B = "below_outputs pool h [0..<length (vout tx)]"
  have "closed_down pool {}" by (simp add: closed_down_def)
  from remove_spenders_without [OF ok h rm this, where outs = "[0..<length (vout tx)]"]
  have rs: "remove_spenders (pool_remove H fuel True) h [0..<length (vout tx)] pool = Some (without ?B pool)" by simp
  have "h \<notin> ?B"
  proof
    assume "h \<in> ?B"
    then obtain i e where "i < length (vout tx)" "mapNextTx pool \<lparr>op_hash = h, op_n = of_nat i\<rparr> = Some e" "h \<in> descendants pool (fst e)"
      by (auto simp: below_outputs_def split: option.splits)
    then show False using acyclic_not_back [OF ac, of h "fst e"] h by (cases e) (auto simp: spends_def)
  qed
  then have "map_of (mapTx (without ?B pool)) h = Some tx" using h by (simp add: map_of_without)
  then have "erase_tx h tx (without ?B pool) = without {h} (without ?B pool)"
    using erase_tx_without [OF mempool_ok_without [OF ok]] by blast
  also have "\<dots> = without (descendants pool h) pool" unfolding without_without descendants_outputs [OF h] by simp
  finally show ?case using h rs by (simp add: key)
qed

lemma pool_remove_single:
  assumes "mempool_ok H pool" "map_of (mapTx pool) h = Some tx"
  shows "pool_remove H (Suc fuel) False tx pool = Some (without {h} pool)"
  using erase_tx_without [OF assms] mempool_okD(2) [OF assms] assms(2) by simp

lemma descendants_bound:
  assumes "mempool_ok H pool" "map_of (mapTx pool) h = Some tx"
  shows "card (descendants pool h) \<le> pool_size pool"
proof -
  have "descendants pool h \<subseteq> fst ` set (mapTx pool)"
  proof
    fix k assume "k \<in> descendants pool h"
    then have "(spends pool)\<^sup>*\<^sup>* h k" by (simp add: descendants_def)
    then show "k \<in> fst ` set (mapTx pool)"
      by (induction rule: rtranclp_induct)
        (use assms spends_stored [OF assms(1)] map_of_SomeD in \<open>fastforce intro: rev_image_eqI\<close>)+
  qed
  then have "card (descendants pool h) \<le> card (fst ` set (mapTx pool))" by (intro card_mono) simp_all
  also have "\<dots> \<le> length (mapTx pool)" by (metis card_image_le card_length finite_set le_trans)
  finally show ?thesis by (simp add: pool_size_def)
qed

subsection \<open>Conflicts\<close>

text \<open>What \<open>removeConflicts\<close> is meant to remove for the inputs listed.\<close>

definition conflict_set :: "CTxMemPool \<Rightarrow> CTransaction \<Rightarrow> CTxIn list \<Rightarrow> uint256 set" where
  "conflict_set pool tx ins =
     (\<Union>txin\<in>set ins. case mapNextTx pool (prevout txin) of
        None \<Rightarrow> {}
      | Some e \<Rightarrow> if \<exists>c. map_of (mapTx pool) (fst e) = Some c \<and> \<not> CTransaction_eq c tx then descendants pool (fst e) else {})"

lemma remove_conflicts_without:
  assumes ok: "mempool_ok H pool"
    and rm: "\<And>c ctx S. map_of (mapTx pool) c = Some ctx \<Longrightarrow> closed_down pool S \<Longrightarrow> c \<notin> S \<Longrightarrow>
      rm ctx (without S pool) = Some (without (S \<union> descendants pool c) pool)"
    and S: "closed_down pool S"
  shows "remove_conflicts rm tx ins (without S pool) = Some (without (S \<union> conflict_set pool tx ins) pool)"
  using S
proof (induction ins arbitrary: S)
  case Nil
  then show ?case by (simp add: conflict_set_def)
next
  case (Cons txin ins)
  show ?case
  proof (cases "mapNextTx pool (prevout txin)")
    case None
    then have "mapNextTx (without S pool) (prevout txin) = None" by (simp add: without_def)
    then show ?thesis using Cons None by (simp add: conflict_set_def)
  next
    case (Some e)
    obtain c n where e: "e = (c, n)" by (cases e)
    obtain ctx where ctx: "map_of (mapTx pool) c = Some ctx" using mempool_okD(4) [OF ok] Some e by blast
    let ?D = "if \<not> CTransaction_eq ctx tx then descendants pool c else {}"
    have all: "S \<union> conflict_set pool tx (txin # ins) = (S \<union> ?D) \<union> conflict_set pool tx ins"
      using Some ctx by (auto simp: conflict_set_def e)
    have "closed_down pool ?D" using closed_descendants [of pool c] by (simp add: closed_down_def)
    then have rest: "remove_conflicts rm tx ins (without (S \<union> ?D) pool) =
        Some (without ((S \<union> ?D) \<union> conflict_set pool tx ins) pool)"
      using Cons.IH [OF closed_Un [OF Cons.prems]] by blast
    show ?thesis
    proof (cases "c \<in> S")
      case True
      then have "mapNextTx (without S pool) (prevout txin) = None" using Some by (simp add: without_def e)
      moreover have "S \<union> ?D = S" using descendants_closed [OF Cons.prems True] by auto
      ultimately show ?thesis using rest unfolding all by simp
    next
      case False
      then have "mapNextTx (without S pool) (prevout txin) = Some (c, n)" using Some by (simp add: next_without e)
      moreover have "map_of (mapTx (without S pool)) c = Some ctx" using False ctx by (simp add: map_of_without)
      ultimately show ?thesis using rm [OF ctx Cons.prems False] rest unfolding all
        by (cases "CTransaction_eq ctx tx") simp_all
    qed
  qed
qed

lemma pool_remove_without:
  assumes "mempool_ok H pool" "acyclicP (spends pool)" "pool_size pool \<le> fuel"
    and "map_of (mapTx pool) c = Some ctx" "closed_down pool S" "c \<notin> S"
  shows "pool_remove H fuel True ctx (without S pool) = Some (without (S \<union> descendants pool c) pool)"
proof -
  have d: "descendants (without S pool) c = descendants pool c - S" using descendants_without assms by blast
  have "card (descendants pool c - S) \<le> card (descendants pool c)"
    by (rule card_mono) (use finite_descendants [OF assms(1)] in auto)
  then have "card (descendants (without S pool) c) \<le> fuel"
    using descendants_bound [OF assms(1,4)] assms(3) d by simp
  moreover have "map_of (mapTx (without S pool)) c = Some ctx" using assms by (simp add: map_of_without)
  ultimately have "pool_remove H fuel True ctx (without S pool) =
      Some (without (descendants pool c - S) (without S pool))"
    using pool_remove_recursive [OF mempool_ok_without [OF assms(1)] acyclic_without [OF assms(2)]] d by metis
  moreover have "descendants pool c - S \<union> S = S \<union> descendants pool c" by blast
  ultimately show ?thesis by (simp add: without_without)
qed

lemma removeConflicts_eq:
  assumes "mempool_ok H pool" "acyclicP (spends pool)" "pool_size pool \<le> fuel"
  shows "removeConflicts H fuel tx pool = Some (without (conflict_set pool tx (vin tx)) pool)"
proof -
  have "closed_down pool {}" by (simp add: closed_down_def)
  from remove_conflicts_without [OF assms(1) pool_remove_without [OF assms] this, where tx = tx and ins = "vin tx"]
  show ?thesis by (simp add: removeConflicts_def)
qed

subsection \<open>Any sequence of operations\<close>

lemma foldl_index:
  assumes "distinct (map prevout ins)" "n \<le> length ins"
  shows "foldl (\<lambda>m i. m(prevout (ins ! i) \<mapsto> (h, of_nat i))) m [0..<n] p =
    (if \<exists>i<n. prevout (ins ! i) = p then Some (h, of_nat (THE i. i < n \<and> prevout (ins ! i) = p)) else m p)"
  using assms(2)
proof (induction n)
  case (Suc n)
  have uniq: "i = j" if "i < length ins" "j < length ins" "prevout (ins ! i) = prevout (ins ! j)" for i j
    using that assms(1) by (metis length_map nth_eq_iff_index_eq nth_map)
  show ?case
  proof (cases "prevout (ins ! n) = p")
    case True
    then have "(THE i. i < Suc n \<and> prevout (ins ! i) = p) = n"
      using uniq Suc.prems by (intro the_equality) auto
    then show ?thesis using True by auto
  next
    case False
    then have "(\<lambda>i. i < Suc n \<and> prevout (ins ! i) = p) = (\<lambda>i. i < n \<and> prevout (ins ! i) = p)"
      by (auto simp: less_Suc_eq)
    then show ?thesis using Suc False by (simp add: less_Suc_eq fun_upd_def) (metis less_SucI less_antisym)
  qed
qed simp

text \<open>What \<open>AcceptToMemoryPool\<close> has checked when it adds a transaction.\<close>

definition may_add :: "(CTransaction \<Rightarrow> uint256) \<Rightarrow> CTransaction \<Rightarrow> CTxMemPool \<Rightarrow> bool" where
  "may_add GetHash tx pool \<longleftrightarrow> \<not> pool_exists pool (GetHash tx) \<and> distinct (map prevout (vin tx))
     \<and> (\<forall>txin\<in>set (vin tx). mapNextTx pool (prevout txin) = None) \<and> length (vin tx) < 2 ^ 32"

lemma mempool_ok_add:
  assumes ok: "mempool_ok H pool" and add: "may_add H tx pool"
  shows "mempool_ok H (addUnchecked (H tx) tx pool)"
proof -
  let ?m = "foldl (\<lambda>m i. m(prevout (vin tx ! i) \<mapsto> (H tx, of_nat i))) (mapNextTx pool) [0..<length (vin tx)]"
  have dis: "distinct (map prevout (vin tx))" and new: "map_of (mapTx pool) (H tx) = None"
    and len: "length (vin tx) < 2 ^ 32" and free: "\<And>i. i < length (vin tx) \<Longrightarrow> mapNextTx pool (prevout (vin tx ! i)) = None"
    using add by (auto simp: may_add_def pool_exists_def)
  have uniq: "i = j" if "i < length (vin tx)" "j < length (vin tx)" "prevout (vin tx ! i) = prevout (vin tx ! j)" for i j
    using that dis by (metis length_map nth_eq_iff_index_eq nth_map)
  have "?m p = Some (k, j) \<longleftrightarrow> (\<exists>t. map_of (std_put (H tx) tx (mapTx pool)) k = Some t
      \<and> unat j < length (vin t) \<and> prevout (vin t ! unat j) = p)" for p k j
  proof (cases "\<exists>i<length (vin tx). prevout (vin tx ! i) = p")
    case True
    then obtain i where i: "i < length (vin tx)" "prevout (vin tx ! i) = p" by blast
    then have the: "(THE i. i < length (vin tx) \<and> prevout (vin tx ! i) = p) = i"
      using uniq by (intro the_equality) auto
    have m: "?m p = Some (H tx, of_nat i)" unfolding foldl_index [OF dis order_refl] the using True by simp
    have other: "\<not> (\<exists>t. map_of (mapTx pool) k = Some t \<and> unat j < length (vin t) \<and> prevout (vin t ! unat j) = p)" for k and j :: u32
    proof
      assume "\<exists>t. map_of (mapTx pool) k = Some t \<and> unat j < length (vin t) \<and> prevout (vin t ! unat j) = p"
      then have "mapNextTx pool p = Some (k, j)" using mempool_okD(5) [OF ok] by blast
      then show False using free [OF i(1)] i(2) by simp
    qed
    have "of_nat i = j \<longleftrightarrow> unat j < length (vin tx) \<and> prevout (vin tx ! unat j) = p" for j :: u32
    proof
      assume "of_nat i = j"
      then have "unat j = i" using i(1) len by (auto simp: unat_of_nat)
      then show "unat j < length (vin tx) \<and> prevout (vin tx ! unat j) = p" using i by simp
    next
      assume "unat j < length (vin tx) \<and> prevout (vin tx ! unat j) = p"
      then have "unat j = i" using uniq i by blast
      then show "of_nat i = j" by auto
    qed
    then show ?thesis unfolding m using other [of k j] by auto
  next
    case False
    then have "?m p = mapNextTx pool p" unfolding foldl_index [OF dis order_refl] by auto
    moreover have "mapNextTx pool p = Some (k, j) \<longleftrightarrow>
        (\<exists>t. map_of (mapTx pool) k = Some t \<and> unat j < length (vin t) \<and> prevout (vin t ! unat j) = p)"
      using ok by (simp add: mempool_ok_def)
    ultimately show ?thesis using False new by (auto split: if_splits)
  qed
  then show ?thesis using ok len unfolding mempool_ok_def addUnchecked_def by auto
qed

lemma erase_tx_cong: "map prevout (vin a) = map prevout (vin b) \<Longrightarrow> erase_tx h a pool = erase_tx h b pool"
proof -
  assume "map prevout (vin a) = map prevout (vin b)"
  then have "prevout ` set (vin a) = prevout ` set (vin b)" by (metis list.set_map)
  then show ?thesis by (simp add: erase_tx_def foldl_erase)
qed

text \<open>
  A removal that returns leaves an exact index, whether or not it is recursive: what it leaves is the
  pool without some of the transactions. Here the pool may even be circular.
\<close>

definition part_of :: "CTxMemPool \<Rightarrow> CTxMemPool \<Rightarrow> bool" where
  "part_of pool' pool \<longleftrightarrow> (\<exists>S. mapTx pool' = mapTx (without S pool) \<and> mapNextTx pool' = mapNextTx (without S pool))"

lemma part_of_self: "part_of pool pool"
  unfolding part_of_def by (rule exI [of _ "{}"]) simp

lemma part_of_without: "part_of pool' pool \<Longrightarrow> part_of (without T pool') pool"
proof -
  assume "part_of pool' pool"
  then obtain S where S: "mapTx pool' = mapTx (without S pool)" "mapNextTx pool' = mapNextTx (without S pool)"
    by (auto simp: part_of_def)
  then have "mapTx (without T pool') = mapTx (without T (without S pool))"
    "mapNextTx (without T pool') = mapNextTx (without T (without S pool))"
    by (simp_all add: without_def)
  then show ?thesis unfolding part_of_def without_without by blast
qed

lemma mempool_ok_cong: "mapTx a = mapTx b \<Longrightarrow> mapNextTx a = mapNextTx b \<Longrightarrow> mempool_ok H a \<longleftrightarrow> mempool_ok H b"
  by (simp add: mempool_ok_def)

lemma part_of_ok: "part_of pool' pool \<Longrightarrow> mempool_ok H pool \<Longrightarrow> mempool_ok H pool'"
  unfolding part_of_def using mempool_ok_cong mempool_ok_without by blast

lemma part_of_stored: "part_of pool' pool \<Longrightarrow> map_of (mapTx pool') k = Some t \<Longrightarrow> map_of (mapTx pool) k = Some t"
  by (auto simp: part_of_def map_of_without split: if_splits)

lemma part_of_trans: "part_of c b \<Longrightarrow> part_of b a \<Longrightarrow> part_of c a"
proof -
  assume "part_of c b" "part_of b a"
  then obtain S where "mapTx c = mapTx (without S b)" "mapNextTx c = mapNextTx (without S b)" "part_of (without S b) a"
    using part_of_without unfolding part_of_def by blast
  then show ?thesis by (simp add: part_of_def)
qed

lemma erase_tx_part:
  assumes "mempool_ok H pool" "part_of pool' pool" "map_of (mapTx pool) h = Some tx"
  shows "part_of (erase_tx h tx pool') pool"
proof (cases "map_of (mapTx pool') h")
  case (Some t)
  then have "t = tx" using part_of_stored [OF assms(2)] assms(3) by fastforce
  then show ?thesis using erase_tx_without [OF part_of_ok [OF assms(2,1)] Some] part_of_without [OF assms(2)] by simp
next
  case None
  then have "std_erase h (mapTx pool') = mapTx pool'"
    by (auto simp: std_erase_def filter_id_conv map_of_eq_None_iff)
  moreover have "(if p \<in> prevout ` set (vin tx) then None else mapNextTx pool' p) = mapNextTx pool' p" for p
  proof (cases "mapNextTx pool' p")
    case (Some e)
    obtain k i where e: "e = (k, i)" by (cases e)
    have nx: "mapNextTx pool' p = Some (k, i)" using Some e by simp
    then have 1: "mapNextTx pool p = Some (k, i)" using nx assms(2) unfolding part_of_def by (metis next_without)
    have 2: "k \<noteq> h" using mempool_okD(4) [OF part_of_ok [OF assms(2,1)] nx] None by auto
    have "p \<notin> prevout ` set (vin tx)"
    proof
      assume "p \<in> prevout ` set (vin tx)"
      then obtain j where "mapNextTx pool p = Some (h, j)" using mempool_next_vin [OF assms(1,3)] by blast
      then show False using 1 2 by simp
    qed
    then show ?thesis by simp
  qed simp
  ultimately have "mapTx (erase_tx h tx pool') = mapTx pool'" "mapNextTx (erase_tx h tx pool') = mapNextTx pool'"
    by (simp_all add: erase_tx_def foldl_erase)
  then show ?thesis using assms(2) by (simp add: part_of_def)
qed

lemma remove_spenders_part:
  assumes rm: "\<And>c ctx p p'. map_of (mapTx p) c = Some ctx \<Longrightarrow> mempool_ok H p \<Longrightarrow> rm ctx p = Some p' \<Longrightarrow> part_of p' p"
  shows "mempool_ok H pool \<Longrightarrow> remove_spenders rm h outs pool = Some pool' \<Longrightarrow> part_of pool' pool"
proof (induction outs arbitrary: pool)
  case (Cons i outs)
  show ?case
  proof (cases "mapNextTx pool \<lparr>op_hash = h, op_n = of_nat i\<rparr>")
    case None
    then show ?thesis using Cons by simp
  next
    case (Some e)
    obtain c n where e: "e = (c, n)" by (cases e)
    obtain ctx p where p: "map_of (mapTx pool) c = Some ctx" "rm ctx pool = Some p" "remove_spenders rm h outs p = Some pool'"
      using Cons.prems(2) Some by (auto simp: e split: option.splits)
    have "part_of p pool" by (rule rm [OF p(1) Cons.prems(1) p(2)])
    moreover from this have "part_of pool' p" using Cons.IH [OF _ p(3)] part_of_ok Cons.prems(1) by blast
    ultimately show ?thesis using part_of_trans by blast
  qed
qed (simp add: part_of_self)

lemma pool_remove_part:
  "mempool_ok H pool \<Longrightarrow> map_of (mapTx pool) (H tx) = Some stored \<Longrightarrow> map prevout (vin stored) = map prevout (vin tx) \<Longrightarrow>
   pool_remove H fuel r tx pool = Some pool' \<Longrightarrow> part_of pool' pool"
proof (induction fuel arbitrary: r tx stored pool pool')
  case (Suc fuel)
  obtain p where p: "(if r then remove_spenders (pool_remove H fuel True) (H tx) [0..<length (vout tx)] pool else Some pool) = Some p"
    "pool' = erase_tx (H tx) tx p"
    using Suc.prems(2,4) by (auto simp: Let_def split: option.splits)
  have rm: "part_of p' p" if "map_of (mapTx p) c = Some ctx" "mempool_ok H p" "pool_remove H fuel True ctx p = Some p'" for c ctx p p'
    using Suc.IH [OF that(2) _ _ that(3), of ctx] mempool_okD(2) [OF that(2,1)] that(1) by simp
  have "part_of p pool"
  proof (cases r)
    case True
    then have "remove_spenders (pool_remove H fuel True) (H tx) [0..<length (vout tx)] pool = Some p" using p(1) by simp
    then show ?thesis
      by (intro remove_spenders_part [where rm = "pool_remove H fuel True", OF _ Suc.prems(1)]) (use rm in blast)+
  next
    case False
    then show ?thesis using p(1) part_of_self by simp
  qed
  then have "part_of (erase_tx (H tx) stored p) pool" by (rule erase_tx_part [OF Suc.prems(1) _ Suc.prems(2)])
  then show ?case unfolding p(2) erase_tx_cong [OF Suc.prems(3)] .
qed simp

lemma remove_conflicts_part:
  assumes rm: "\<And>c ctx p p'. map_of (mapTx p) c = Some ctx \<Longrightarrow> mempool_ok H p \<Longrightarrow> rm ctx p = Some p' \<Longrightarrow> part_of p' p"
  shows "mempool_ok H pool \<Longrightarrow> remove_conflicts rm tx ins pool = Some pool' \<Longrightarrow> part_of pool' pool"
proof (induction ins arbitrary: pool)
  case (Cons txin ins)
  show ?case
  proof (cases "mapNextTx pool (prevout txin)")
    case None
    then show ?thesis using Cons by simp
  next
    case (Some e)
    obtain c n where e: "e = (c, n)" by (cases e)
    obtain ctx p where p: "map_of (mapTx pool) c = Some ctx" "rm ctx pool = Some p \<or> p = pool" "remove_conflicts rm tx ins p = Some pool'"
      using Cons.prems(2) Some by (auto simp: e split: option.splits if_splits)
    have "part_of p pool" using rm [OF p(1) Cons.prems(1)] p(2) part_of_self by blast
    moreover from this have "part_of pool' p" using Cons.IH [OF _ p(3)] part_of_ok Cons.prems(1) by blast
    ultimately show ?thesis using part_of_trans by blast
  qed
qed (simp add: part_of_self)

text \<open>
  The steps a pool takes. A removal is asked for with a transaction that has the inputs of the one stored
  under its hash, and may run out of fuel (it would not return).
\<close>

inductive mempool_step :: "(CTransaction \<Rightarrow> uint256) \<Rightarrow> CTxMemPool \<Rightarrow> CTxMemPool \<Rightarrow> bool" for GetHash where
  add: "may_add GetHash tx pool \<Longrightarrow> mempool_step GetHash pool (addUnchecked (GetHash tx) tx pool)"
| remove: "\<lbrakk>\<And>t. map_of (mapTx pool) (GetHash tx) = Some t \<Longrightarrow> map prevout (vin t) = map prevout (vin tx);
     pool_remove GetHash fuel fRecursive tx pool = Some pool'\<rbrakk> \<Longrightarrow> mempool_step GetHash pool pool'"
| conflicts: "removeConflicts GetHash fuel tx pool = Some pool' \<Longrightarrow> mempool_step GetHash pool pool'"
| clear: "mempool_step GetHash pool (pool_clear pool)"
| updated: "mempool_step GetHash pool (AddTransactionsUpdated n pool)"

lemma mempool_ok_step: "mempool_step H pool pool' \<Longrightarrow> mempool_ok H pool \<Longrightarrow> mempool_ok H pool'"
proof (induction rule: mempool_step.induct)
  case (add tx pool)
  then show ?case by (simp add: mempool_ok_add)
next
  case (remove pool tx fuel r pool')
  show ?case
  proof (cases "map_of (mapTx pool) (H tx)")
    case None
    then have "pool' = pool" using remove(2) by (cases fuel) simp_all
    then show ?thesis using remove(3) by simp
  next
    case (Some t)
    then show ?thesis using pool_remove_part [OF remove(3) Some remove(1) [OF Some] remove(2)] part_of_ok remove(3) by blast
  qed
next
  case (conflicts fuel tx pool pool')
  have "part_of p' p" if "map_of (mapTx p) c = Some ctx" "mempool_ok H p" "pool_remove H fuel True ctx p = Some p'" for c ctx p p'
    using pool_remove_part [OF that(2) _ _ that(3)] mempool_okD(2) [OF that(2,1)] that(1) by simp
  then have "part_of pool' pool"
    using conflicts(1) unfolding removeConflicts_def
    by (intro remove_conflicts_part [where rm = "pool_remove H fuel True", OF _ conflicts(2)]) blast+
  then show ?case using part_of_ok conflicts(2) by blast
next
  case (updated pool n)
  then show ?case by (simp add: mempool_ok_def AddTransactionsUpdated_def)
qed (simp add: mempool_ok_def pool_clear_def)


definition CTxMemPool_new :: CTxMemPool where
  "CTxMemPool_new = \<lparr>nTransactionsUpdated = 0, mapTx = [], mapNextTx = (\<lambda>_. None)\<rparr>"

lemma mempool_ok_new: "mempool_ok H CTxMemPool_new"
  by (simp add: mempool_ok_def CTxMemPool_new_def)

text \<open>
  C20. The memory pool keeps an exact index: after any sequence of additions (of what
  \<open>AcceptToMemoryPool\<close> lets through), removals, conflict removals and clears, each transaction is
  stored under its hash, \<open>mapNextTx\<close> names exactly the inputs of the stored transactions (so its pointers
  never dangle and no outpoint is spent twice in the pool).
\<close>

theorem mempool_index_exact:
  assumes "(mempool_step GetHash)\<^sup>*\<^sup>* CTxMemPool_new pool"
  shows "(mapNextTx pool p = Some (k, i) \<longleftrightarrow>
      (\<exists>tx. map_of (mapTx pool) k = Some tx \<and> unat i < length (vin tx) \<and> prevout (vin tx ! unat i) = p))
    \<and> (map_of (mapTx pool) k = Some tx \<longrightarrow> GetHash tx = k)"
proof -
  have "mempool_ok GetHash pool"
    using assms by (induction rule: rtranclp_induct) (auto simp: mempool_ok_new mempool_ok_step)
  then show ?thesis by (simp add: mempool_ok_def)
qed

text \<open>A transaction and one that spends it, for the instances.\<close>

definition pool_parent :: CTransaction where
  "pool_parent = (CTransaction_SetNull 7)\<lparr>vin := [\<lparr>prevout = \<lparr>op_hash = 5, op_n = 0\<rparr>, scriptSig = [], prevPubKey = [], nSequence = 0\<rparr>],
     vout := [\<lparr>nValue = 3, nRounds = -10, scriptPubKey = []\<rparr>]\<rparr>"

definition pool_child :: CTransaction where
  "pool_child = pool_parent\<lparr>vin := [\<lparr>prevout = \<lparr>op_hash = 1007, op_n = 0\<rparr>, scriptSig = [], prevPubKey = [], nSequence = 0\<rparr>], nTime := 8\<rparr>"

definition time_hash :: "CTransaction \<Rightarrow> uint256" where
  "time_hash tx = 1000 + ucast (nTime tx)"

definition sample_pool :: CTxMemPool where
  "sample_pool = addUnchecked (time_hash pool_child) pool_child (addUnchecked (time_hash pool_parent) pool_parent CTxMemPool_new)"

lemmas sample_pool_defs = sample_pool_def pool_child_def pool_parent_def time_hash_def CTxMemPool_new_def
  addUnchecked_def CTransaction_SetNull_def std_put_def std_erase_def

lemma sample_pool_reachable: "(mempool_step time_hash)\<^sup>*\<^sup>* CTxMemPool_new sample_pool"
proof -
  have "mempool_step time_hash CTxMemPool_new (addUnchecked (time_hash pool_parent) pool_parent CTxMemPool_new)"
    by (rule mempool_step.add) (simp add: may_add_def pool_exists_def CTxMemPool_new_def pool_parent_def)
  moreover have "mempool_step time_hash (addUnchecked (time_hash pool_parent) pool_parent CTxMemPool_new) sample_pool"
    unfolding sample_pool_def by (rule mempool_step.add)
      (simp add: may_add_def pool_exists_def CTxMemPool_new_def pool_parent_def pool_child_def addUnchecked_def
        std_put_def std_erase_def time_hash_def CTransaction_SetNull_def)
  ultimately show ?thesis by (meson rtranclp.simps)
qed

lemma mempool_index_exact_witness: "mapNextTx sample_pool \<lparr>op_hash = 1007, op_n = 0\<rparr> = Some (1008, 0)"
  using mempool_index_exact [OF sample_pool_reachable, of "\<lparr>op_hash = 1007, op_n = 0\<rparr>" 1008 0]
  by (simp add: sample_pool_defs)

lemma sample_pool_ok: "mempool_ok time_hash sample_pool"
  using sample_pool_reachable by (induction rule: rtranclp_induct) (auto simp: mempool_ok_new mempool_ok_step)

lemma sample_pool_acyclic: "acyclicP (spends sample_pool)"
proof -
  have "spends sample_pool h k \<Longrightarrow> h < k" for h k
    by (auto simp: spends_def sample_pool_defs split: if_splits)
  then have "{(x, y). spends sample_pool x y} \<subseteq> {(x, y). x < y}" by auto
  moreover have "acyclic {(x :: uint256, y). x < y}" by (rule acyclicI_order [where f = "\<lambda>x. - uint x"]) (auto simp: word_less_def)
  ultimately show ?thesis by (rule acyclic_subset [rotated])
qed

text \<open>
  C21. A recursive removal returns, and takes exactly the transaction and all that depend on it: in a
  pool with an exact index and no circular spending, fuel of the size of the pool is enough, and what is
  left is the pool without the descendants, with an exact index again; what is not recursive takes
  the one transaction.
\<close>

theorem mempool_remove_descendants:
  assumes "mempool_ok GetHash pool" "map_of (mapTx pool) h = Some tx" "acyclicP (spends pool)" "pool_size pool \<le> fuel"
  shows "pool_remove GetHash fuel True tx pool = Some (without {k. (spends pool)\<^sup>*\<^sup>* h k} pool)
    \<and> pool_remove GetHash (Suc fuel) False tx pool = Some (without {h} pool)
    \<and> mempool_ok GetHash (without S pool)"
proof -
  have "card (descendants pool h) \<le> fuel" using descendants_bound [OF assms(1,2)] assms(4) by linarith
  from pool_remove_recursive [OF assms(1,3,2) this] show ?thesis
    using pool_remove_single [OF assms(1,2)] mempool_ok_without [OF assms(1)] by (simp add: descendants_def)
qed

lemma mempool_remove_descendants_witness:
  "pool_remove time_hash 2 True pool_parent sample_pool = Some (without {k. (spends sample_pool)\<^sup>*\<^sup>* 1007 k} sample_pool)"
proof -
  have "map_of (mapTx sample_pool) 1007 = Some pool_parent" "pool_size sample_pool \<le> 2"
    by (simp_all add: sample_pool_defs pool_size_def)
  from mempool_remove_descendants [OF sample_pool_ok this(1) sample_pool_acyclic this(2)] show ?thesis by blast
qed

text \<open>
  \<open>removeConflicts\<close> returns and leaves no transaction in the pool that spends an input of the given one,
  unless it is that one; and it takes only such transactions and what depends on them.
\<close>

theorem mempool_removeConflicts:
  assumes "mempool_ok GetHash pool" "acyclicP (spends pool)" "pool_size pool \<le> fuel"
  shows "\<exists>pool'. removeConflicts GetHash fuel tx pool = Some pool' \<and> mempool_ok GetHash pool'
    \<and> (\<forall>k t txin. map_of (mapTx pool') k = Some t \<and> txin \<in> set (vin tx) \<and> prevout txin \<in> prevout ` set (vin t) \<longrightarrow> CTransaction_eq t tx)
    \<and> (\<forall>k t. map_of (mapTx pool) k = Some t \<and> map_of (mapTx pool') k = None \<longrightarrow>
        (\<exists>c ctx txin. map_of (mapTx pool) c = Some ctx \<and> \<not> CTransaction_eq ctx tx \<and> txin \<in> set (vin tx)
          \<and> prevout txin \<in> prevout ` set (vin ctx) \<and> (spends pool)\<^sup>*\<^sup>* c k))"
proof -
  let ?P = "without (conflict_set pool tx (vin tx)) pool"
  have "CTransaction_eq t tx" if t: "map_of (mapTx ?P) k = Some t" "txin \<in> set (vin tx)" "prevout txin \<in> prevout ` set (vin t)"
    for k t txin
  proof (rule ccontr)
    assume ne: "\<not> CTransaction_eq t tx"
    have st: "map_of (mapTx pool) k = Some t" "k \<notin> conflict_set pool tx (vin tx)"
      using t(1) by (auto simp: map_of_without split: if_splits)
    obtain txin' where "txin' \<in> set (vin t)" "prevout txin' = prevout txin" using t(3) by auto
    then obtain i where "mapNextTx pool (prevout txin) = Some (k, i)" using mempool_next_vin [OF assms(1) st(1)] by metis
    then have "descendants pool k \<subseteq> conflict_set pool tx (vin tx)"
      using t(2) ne st(1) unfolding conflict_set_def by force
    then show False using st(2) descendants_self by blast
  qed
  moreover have "\<exists>c ctx txin. map_of (mapTx pool) c = Some ctx \<and> \<not> CTransaction_eq ctx tx \<and> txin \<in> set (vin tx)
          \<and> prevout txin \<in> prevout ` set (vin ctx) \<and> (spends pool)\<^sup>*\<^sup>* c k"
    if k: "map_of (mapTx pool) k = Some t" "map_of (mapTx ?P) k = None" for k t
  proof -
    have "k \<in> conflict_set pool tx (vin tx)" using k by (simp add: map_of_without split: if_splits)
    then obtain txin c i ctx where c: "txin \<in> set (vin tx)" "mapNextTx pool (prevout txin) = Some (c, i)"
      "map_of (mapTx pool) c = Some ctx" "\<not> CTransaction_eq ctx tx" "k \<in> descendants pool c"
      by (fastforce simp: conflict_set_def split: option.splits if_splits)
    then have "prevout txin \<in> prevout ` set (vin ctx)"
      using mempool_okD(4) [OF assms(1) c(2)] by (metis image_eqI nth_mem option.inject)
    then show ?thesis using c unfolding descendants_def by blast
  qed
  ultimately show ?thesis using removeConflicts_eq [OF assms] mempool_ok_without [OF assms(1)] by blast
qed

lemma mempool_removeConflicts_witness:
  "\<exists>pool'. removeConflicts time_hash 2 (pool_parent\<lparr>nTime := 9\<rparr>) sample_pool = Some pool' \<and> mempool_ok time_hash pool'"
  using mempool_removeConflicts [OF sample_pool_ok sample_pool_acyclic, of 2 "pool_parent\<lparr>nTime := 9\<rparr>"]
  by (auto simp: pool_size_def sample_pool_defs)

end
