(* ===== verification/Block.thy ===== *)
theory Block imports Transaction begin

text \<open>
  \<open>CBlock\<close> of \<open>src/src/main.h\<close>: header and transactions with their serialisation, the two kinds of
  block, and the Merkle tree with its branches. The hash of two concatenated hashes is the parameter
  \<open>H\<close>, that of a transaction \<open>GetHash\<close>. The tree is shown to be the recursive pairing of hashes,
  branches to lead to its root, and the root to bind the transactions as far as \<open>H\<close> has no
  collision among the pairs hashed.
\<close>

unbundle bit_operations_syntax

record CBlock =
  b_nVersion :: int
  hashPrevBlock :: uint256
  hashMerkleRoot :: uint256
  b_nTime :: u32
  nBits :: u32
  nNonce :: u32
  vtx :: "CTransaction list"
  vchBlockSig :: bytes
  vMerkleTree :: "uint256 list"
  b_nDoS :: int

definition CBlock_SetNull :: CBlock where
  "CBlock_SetNull = \<lparr>b_nVersion = 7, hashPrevBlock = 0, hashMerkleRoot = 0, b_nTime = 0, nBits = 0, nNonce = 0,
     vtx = [], vchBlockSig = [], vMerkleTree = [], b_nDoS = 0\<rparr>"

definition CBlock_IsNull :: "CBlock \<Rightarrow> bool" where
  "CBlock_IsNull b \<longleftrightarrow> nBits b = 0"

definition CBlock_DoS :: "int \<Rightarrow> bool \<Rightarrow> CBlock \<Rightarrow> bool \<times> CBlock" where
  "CBlock_DoS nDoSIn fIn b = (fIn, b\<lparr>b_nDoS := b_nDoS b + nDoSIn\<rparr>)"

definition CBlock_GetBlockTime :: "CBlock \<Rightarrow> int" where
  "CBlock_GetBlockTime b = uint (b_nTime b)"

subsection \<open>Serialisation and hashes\<close>

definition ser_header :: "CBlock \<Rightarrow> bytes" where
  "ser_header b = ser_int32 (b_nVersion b) @ WRITEDATA 32 (hashPrevBlock b) @ WRITEDATA 32 (hashMerkleRoot b)
     @ WRITEDATA 4 (b_nTime b) @ WRITEDATA 4 (nBits b) @ WRITEDATA 4 (nNonce b)"

text \<open>\<open>header_only\<close> is \<open>nType & (SER_GETHASH | SER_BLOCKHEADERONLY)\<close>.\<close>

definition ser_CBlock :: "bool \<Rightarrow> CBlock \<Rightarrow> bytes" where
  "ser_CBlock header_only b =
     ser_header b @ (if \<not> header_only then ser_vector ser_CTransaction (vtx b) @ ser_bytes (vchBlockSig b) else [])"

text \<open>Reading into a fresh block; members that are not read keep the values of the constructor.\<close>

definition unser_CBlock :: "bool \<Rightarrow> CBlock reader" where
  "unser_CBlock header_only s = do {
     (version, s1) \<leftarrow> unser_int32 s;
     (prev, s2) \<leftarrow> READDATA 32 s1;
     (root, s3) \<leftarrow> READDATA 32 s2;
     (time, s4) \<leftarrow> READDATA 4 s3;
     (bits, s5) \<leftarrow> READDATA 4 s4;
     (nonce, s6) \<leftarrow> READDATA 4 s5;
     let b = CBlock_SetNull\<lparr>b_nVersion := version, hashPrevBlock := prev, hashMerkleRoot := root,
               b_nTime := time, nBits := bits, nNonce := nonce\<rparr>;
     if \<not> header_only then do {
       (txs, s7) \<leftarrow> unser_vector unser_CTransaction s6;
       (sig, s8) \<leftarrow> unser_bytes s7;
       Some (b\<lparr>vtx := txs, vchBlockSig := sig\<rparr>, s8) }
     else Some (b, s6) }"

definition size_CBlock :: "CBlock \<Rightarrow> u32" where
  "size_CBlock b = 4 + 32 + 32 + 4 + 4 + 4 + size_vector size_CTransaction (vtx b) + size_bytes (vchBlockSig b)"

definition CBlock_GetHash :: "(bytes \<Rightarrow> uint256) \<Rightarrow> CBlock \<Rightarrow> uint256" where
  "CBlock_GetHash hash b = hash (ser_header b)"

definition CBlock_GetPoWHash :: "(bytes \<Rightarrow> uint256) \<Rightarrow> CBlock \<Rightarrow> uint256" where
  "CBlock_GetPoWHash scrypt b = scrypt (ser_header b)"

definition GetStakeEntropyBit :: "(bytes \<Rightarrow> uint256) \<Rightarrow> CBlock \<Rightarrow> u32" where
  "GetStakeEntropyBit hash b = (ucast (ucast (CBlock_GetHash hash b) AND 1 :: u64))"

subsection \<open>Kinds of block\<close>

definition CBlock_IsProofOfStake :: "CBlock \<Rightarrow> bool" where
  "CBlock_IsProofOfStake b \<longleftrightarrow> length (vtx b) > 1 \<and> IsCoinStake (vtx b ! 1)"

definition CBlock_IsProofOfWork :: "CBlock \<Rightarrow> bool" where
  "CBlock_IsProofOfWork b \<longleftrightarrow> \<not> CBlock_IsProofOfStake b"

definition CBlock_GetProofOfStake :: "CBlock \<Rightarrow> COutPoint \<times> u32" where
  "CBlock_GetProofOfStake b =
     (if CBlock_IsProofOfStake b then (prevout (vin (vtx b ! 1) ! 0), nTime (vtx b ! 1)) else (COutPoint_SetNull, 0))"

definition GetMaxTransactionTime :: "CBlock \<Rightarrow> int" where
  "GetMaxTransactionTime b = foldl (\<lambda>m tx. max m (uint (nTime tx))) 0 (vtx b)"

subsection \<open>The Merkle tree\<close>

text \<open>The inner loop over one level of \<open>nSize\<close> hashes that starts at \<open>j\<close>, and the loop over levels.\<close>

function merkle_row :: "(uint256 \<Rightarrow> uint256 \<Rightarrow> uint256) \<Rightarrow> nat \<Rightarrow> nat \<Rightarrow> nat \<Rightarrow> uint256 list \<Rightarrow> uint256 list" where
  "merkle_row H j nSize i tree =
     (if i < nSize then
        let i2 = min (i + 1) (nSize - 1)
        in merkle_row H j nSize (i + 2) (tree @ [H (tree ! (j + i)) (tree ! (j + i2))])
      else tree)"
  by pat_completeness auto
termination by (relation "measure (\<lambda>(H, j, nSize, i, tree). nSize - i)") auto

function merkle_rows :: "(uint256 \<Rightarrow> uint256 \<Rightarrow> uint256) \<Rightarrow> nat \<Rightarrow> nat \<Rightarrow> uint256 list \<Rightarrow> uint256 list" where
  "merkle_rows H j nSize tree =
     (if nSize > 1 then merkle_rows H (j + nSize) ((nSize + 1) div 2) (merkle_row H j nSize 0 tree) else tree)"
  by pat_completeness auto
termination by (relation "measure (\<lambda>(H, j, nSize, tree). nSize)") auto

declare merkle_row.simps [simp del] merkle_rows.simps [simp del]

definition BuildMerkleTree ::
  "(CTransaction \<Rightarrow> uint256) \<Rightarrow> (uint256 \<Rightarrow> uint256 \<Rightarrow> uint256) \<Rightarrow> CBlock \<Rightarrow> uint256 \<times> CBlock" where
  "BuildMerkleTree GetHash H b =
     (let tree = merkle_rows H 0 (length (vtx b)) (map GetHash (vtx b))
      in (if tree = [] then 0 else last tree, b\<lparr>vMerkleTree := tree\<rparr>))"

function merkle_branch :: "uint256 list \<Rightarrow> nat \<Rightarrow> nat \<Rightarrow> int \<Rightarrow> uint256 list" where
  "merkle_branch tree j nSize nIndex =
     (if nSize > 1 then
        let i = min (nIndex XOR 1) (int nSize - 1)
        in tree ! nat (int j + i) # merkle_branch tree (j + nSize) ((nSize + 1) div 2) (drop_bit 1 nIndex)
      else [])"
  by pat_completeness auto
termination by (relation "measure (\<lambda>(tree, j, nSize, nIndex). nSize)") auto

declare merkle_branch.simps [simp del]

definition GetMerkleBranch ::
  "(CTransaction \<Rightarrow> uint256) \<Rightarrow> (uint256 \<Rightarrow> uint256 \<Rightarrow> uint256) \<Rightarrow> CBlock \<Rightarrow> int \<Rightarrow> uint256 list \<times> CBlock" where
  "GetMerkleBranch GetHash H b nIndex =
     (let b = (if vMerkleTree b = [] then snd (BuildMerkleTree GetHash H b) else b)
      in (merkle_branch (vMerkleTree b) 0 (length (vtx b)) nIndex, b))"

fun check_branch :: "(uint256 \<Rightarrow> uint256 \<Rightarrow> uint256) \<Rightarrow> uint256 \<Rightarrow> uint256 list \<Rightarrow> int \<Rightarrow> uint256" where
  "check_branch H h [] nIndex = h"
| "check_branch H h (otherside # rest) nIndex =
     check_branch H (if nIndex AND 1 \<noteq> 0 then H otherside h else H h otherside) rest (drop_bit 1 nIndex)"

definition CheckMerkleBranch ::
  "(uint256 \<Rightarrow> uint256 \<Rightarrow> uint256) \<Rightarrow> uint256 \<Rightarrow> uint256 list \<Rightarrow> int \<Rightarrow> uint256" where
  "CheckMerkleBranch H h vMerkleBranch nIndex = (if nIndex = -1 then 0 else check_branch H h vMerkleBranch nIndex)"

subsection \<open>The tree as pairing of hashes\<close>

fun pair_up :: "('a \<Rightarrow> 'a \<Rightarrow> 'a) \<Rightarrow> 'a list \<Rightarrow> 'a list" where
  "pair_up H [] = []"
| "pair_up H [x] = [H x x]"
| "pair_up H (x # y # xs) = H x y # pair_up H xs"

lemma length_pair_up [simp]: "length (pair_up H xs) = (length xs + 1) div 2"
  by (induction H xs rule: pair_up.induct) auto

function merkle_root :: "(uint256 \<Rightarrow> uint256 \<Rightarrow> uint256) \<Rightarrow> uint256 list \<Rightarrow> uint256" where
  "merkle_root H xs = (if xs = [] then 0 else if length xs = 1 then hd xs else merkle_root H (pair_up H xs))"
  by pat_completeness auto
termination
proof (relation "measure (\<lambda>(H, xs). length xs)")
  fix H and xs :: "uint256 list"
  assume "xs \<noteq> []" "length xs \<noteq> 1"
  then have "length xs > 1" by (cases xs) auto
  then show "((H, pair_up H xs), H, xs) \<in> measure (\<lambda>(H, xs). length xs)" by simp
qed simp

declare merkle_root.simps [simp del]

lemma pair_up_nth:
  "k < length (pair_up H xs) \<Longrightarrow> pair_up H xs ! k = H (xs ! (2 * k)) (xs ! min (2 * k + 1) (length xs - 1))"
proof (induction H xs arbitrary: k rule: pair_up.induct)
  case (3 H x y xs)
  show ?case
  proof (cases k)
    case (Suc m)
    then have "m < length (pair_up H xs)" using "3.prems" by simp
    moreover from this have "xs \<noteq> []" by auto
    then have "min (2 * Suc m + 1) (length (x # y # xs) - 1) = Suc (Suc (min (2 * m + 1) (length xs - 1)))"
      by (cases xs) simp_all
    ultimately show ?thesis using "3.IH" [of m] unfolding Suc by (simp del: length_pair_up)
  qed simp
qed auto

lemma merkle_row_eq:
  assumes "tree = pre @ xs @ take k (pair_up H xs)" "i = 2 * k" "k \<le> length (pair_up H xs)"
  shows "merkle_row H (length pre) (length xs) i tree = pre @ xs @ pair_up H xs"
  using assms
proof (induction "length (pair_up H xs) - k" arbitrary: k i tree)
  case 0
  then have k: "k = length (pair_up H xs)" by simp
  then have "\<not> i < length xs" using 0 by simp
  then show ?case using 0(2) k by (simp add: merkle_row.simps [of H _ _ i])
next
  case (Suc n)
  then have k: "k < length (pair_up H xs)" by simp
  then have i: "i < length xs" using Suc.prems by simp
  have m: "min (i + 1) (length xs - 1) < length xs" using i by simp
  let ?tree = "tree @ [H (tree ! (length pre + i)) (tree ! (length pre + min (i + 1) (length xs - 1)))]"
  have "tree ! (length pre + m) = xs ! m" if "m < length xs" for m
    using that Suc.prems by (simp add: nth_append)
  then have "?tree = pre @ xs @ take (Suc k) (pair_up H xs)"
    using i m k Suc.prems by (simp add: take_Suc_conv_app_nth pair_up_nth)
  then have "merkle_row H (length pre) (length xs) (i + 2) ?tree = pre @ xs @ pair_up H xs"
    using Suc k by (intro Suc.hyps(1) [of "Suc k"]) auto
  then show ?case unfolding merkle_row.simps [of H _ _ i tree] Let_def using i by (simp only: if_True)
qed

text \<open>The whole tree, level by level, and where each level starts.\<close>

lemma merkle_rows_eq:
  "merkle_rows H (length pre) (length xs) (pre @ xs) =
     (if length xs > 1 then merkle_rows H (length (pre @ xs)) (length (pair_up H xs)) ((pre @ xs) @ pair_up H xs)
      else pre @ xs)"
  using merkle_row_eq [of "pre @ xs" pre xs 0 H 0] by (simp add: merkle_rows.simps [of H "length pre"])

function merkle_above :: "(uint256 \<Rightarrow> uint256 \<Rightarrow> uint256) \<Rightarrow> uint256 list \<Rightarrow> uint256 list" where
  "merkle_above H xs = (if length xs > 1 then pair_up H xs @ merkle_above H (pair_up H xs) else [])"
  by pat_completeness auto
termination by (relation "measure (\<lambda>(H, xs). length xs)") auto

declare merkle_above.simps [simp del]

lemma merkle_rows_above: "merkle_rows H (length pre) (length xs) (pre @ xs) = pre @ xs @ merkle_above H xs"
proof (induction H xs arbitrary: pre rule: merkle_above.induct)
  case (1 H xs)
  then show ?case unfolding merkle_rows_eq [of H pre] merkle_above.simps [of H xs]
    by (auto simp del: length_append simp flip: append_assoc)
qed

lemma merkle_above_last:
  "xs \<noteq> [] \<Longrightarrow> last (xs @ merkle_above H xs) = merkle_root H xs"
proof (induction H xs rule: merkle_above.induct)
  case (1 H xs)
  show ?case
  proof (cases "length xs > 1")
    case True
    then have "length (pair_up H xs) \<noteq> 0" by simp
    then have "pair_up H xs \<noteq> []" by (metis list.size(3))
    then show ?thesis using 1 True
      by (simp add: merkle_above.simps [of H xs] merkle_root.simps [of H xs])
  next
    case False
    then obtain x where "xs = [x]" using 1(2) by (cases xs) auto
    then show ?thesis by (simp add: merkle_above.simps merkle_root.simps)
  qed
qed

lemma BuildMerkleTree_eq:
  "BuildMerkleTree GetHash H b = (merkle_root H (map GetHash (vtx b)),
     b\<lparr>vMerkleTree := map GetHash (vtx b) @ merkle_above H (map GetHash (vtx b))\<rparr>)"
proof (cases "vtx b = []")
  case True
  then show ?thesis by (simp add: BuildMerkleTree_def merkle_rows.simps merkle_root.simps merkle_above.simps)
next
  case False
  then show ?thesis using merkle_rows_above [of H "[]" "map GetHash (vtx b)"]
      merkle_above_last [of "map GetHash (vtx b)" H]
    by (simp add: BuildMerkleTree_def Let_def)
qed

subsection \<open>Branches\<close>

function spec_branch :: "(uint256 \<Rightarrow> uint256 \<Rightarrow> uint256) \<Rightarrow> uint256 list \<Rightarrow> nat \<Rightarrow> uint256 list" where
  "spec_branch H xs i =
     (if length xs > 1
      then xs ! (if even i then min (i + 1) (length xs - 1) else i - 1) # spec_branch H (pair_up H xs) (i div 2)
      else [])"
  by pat_completeness auto
termination by (relation "measure (\<lambda>(H, xs, i). length xs)") auto

declare spec_branch.simps [simp del]

lemma merkle_branch_eq:
  "i < length xs \<Longrightarrow> merkle_branch (pre @ xs @ merkle_above H xs) (length pre) (length xs) (int i) = spec_branch H xs i"
proof (induction H xs i arbitrary: pre rule: spec_branch.induct)
  case (1 H xs i)
  show ?case
  proof (cases "length xs > 1")
    case True
    define k where "k = (if even i then min (i + 1) (length xs - 1) else i - 1)"
    have k: "min (int i XOR 1) (int (length xs) - 1) = int k" "k < length xs"
      using 1(2) True by (auto simp: k_def xor_one_eq of_nat_diff odd_pos Suc_leI)
    have "i div 2 < length (pair_up H xs)" using 1(2) by simp
    from 1(1) [OF True this, of "pre @ xs"] have ih:
      "merkle_branch (pre @ xs @ merkle_above H xs) (length pre + length xs) ((length xs + 1) div 2) (int (i div 2)) =
        spec_branch H (pair_up H xs) (i div 2)"
      using True by (simp add: merkle_above.simps [of H xs])
    have d: "drop_bit 1 (int i) = int (i div 2)" by (simp add: drop_bit_eq_div zdiv_int)
    have "(pre @ xs @ merkle_above H xs) ! nat (int (length pre) + int k) = xs ! k"
      using k(2) by (simp add: nth_append nat_add_distrib)
    then show ?thesis
      unfolding merkle_branch.simps [of _ "length pre"] spec_branch.simps [of H xs] Let_def k(1) d ih
      using True by (simp add: k_def)
  qed (simp add: merkle_branch.simps spec_branch.simps)
qed

lemma check_branch_root:
  "i < length xs \<Longrightarrow> check_branch H (xs ! i) (spec_branch H xs i) (int i) = merkle_root H xs"
proof (induction H xs i rule: spec_branch.induct)
  case (1 H xs i)
  show ?case
  proof (cases "length xs > 1")
    case True
    have i: "i div 2 < length (pair_up H xs)" using 1(2) by simp
    have d: "drop_bit 1 (int i) = int (i div 2)" by (simp add: drop_bit_eq_div zdiv_int)
    have o: "int i AND 1 \<noteq> 0 \<longleftrightarrow> odd i" by (metis and_one_eq even_iff_mod_2_eq_zero even_of_nat)
    have "pair_up H xs ! (i div 2) =
      (if odd i then H (xs ! (i - 1)) (xs ! i) else H (xs ! i) (xs ! min (i + 1) (length xs - 1)))"
      using 1(2) by (auto simp: pair_up_nth [OF i] min_def elim!: oddE evenE)
    then have "check_branch H (xs ! i) (spec_branch H xs i) (int i) =
        check_branch H (pair_up H xs ! (i div 2)) (spec_branch H (pair_up H xs) (i div 2)) (int (i div 2))"
      using True o by (simp add: spec_branch.simps [of H xs] d [unfolded One_nat_def])
    also have "\<dots> = merkle_root H (pair_up H xs)" using 1(1) [OF True i] .
    also have "\<dots> = merkle_root H xs" using True by (auto simp: merkle_root.simps [of H xs])
    finally show ?thesis .
  next
    case False
    then obtain x where "xs = [x]" "i = 0" using 1(2) by (cases xs) auto
    then show ?thesis by (simp add: spec_branch.simps merkle_root.simps)
  qed
qed

subsection \<open>What a root binds\<close>

fun level_pairs :: "'a list \<Rightarrow> ('a \<times> 'a) list" where
  "level_pairs [] = []"
| "level_pairs [x] = [(x, x)]"
| "level_pairs (x # y # xs) = (x, y) # level_pairs xs"

lemma pair_up_level: "pair_up H xs = map (\<lambda>(a, b). H a b) (level_pairs xs)"
  by (induction xs rule: level_pairs.induct) auto

lemma level_pairs_inject: "length xs = length ys \<Longrightarrow> level_pairs xs = level_pairs ys \<Longrightarrow> xs = ys"
proof (induction xs arbitrary: ys rule: level_pairs.induct)
  case (2 x)
  then show ?case by (cases ys rule: level_pairs.cases) auto
next
  case (3 x y xs)
  then show ?case by (cases ys rule: level_pairs.cases) auto
qed simp

text \<open>All pairs hashed on the way to the root.\<close>

function merkle_pairs :: "(uint256 \<Rightarrow> uint256 \<Rightarrow> uint256) \<Rightarrow> uint256 list \<Rightarrow> (uint256 \<times> uint256) list" where
  "merkle_pairs H xs = (if length xs > 1 then level_pairs xs @ merkle_pairs H (pair_up H xs) else [])"
  by pat_completeness auto
termination by (relation "measure (\<lambda>(H, xs). length xs)") auto

declare merkle_pairs.simps [simp del]

lemma merkle_root_binds:
  "length xs = length ys \<Longrightarrow> inj_on (\<lambda>(a, b). H a b) (set (merkle_pairs H xs) \<union> set (merkle_pairs H ys)) \<Longrightarrow>
   merkle_root H xs = merkle_root H ys \<Longrightarrow> xs = ys"
proof (induction H xs arbitrary: ys rule: merkle_pairs.induct)
  case (1 H xs)
  show ?case
  proof (cases "length xs > 1")
    case True
    have p: "set (merkle_pairs H zs) = set (level_pairs zs) \<union> set (merkle_pairs H (pair_up H zs))"
        "merkle_root H zs = merkle_root H (pair_up H zs)" if "length zs = length xs" for zs
      using True that by (auto simp: merkle_pairs.simps [of H zs] merkle_root.simps [of H zs])
    have "pair_up H xs = pair_up H ys"
    proof (rule 1(1) [OF True])
      show "inj_on (\<lambda>(a, b). H a b) (set (merkle_pairs H (pair_up H xs)) \<union> set (merkle_pairs H (pair_up H ys)))"
        using 1(3) p(1) [of xs] p(1) [of ys] 1(2) by (auto intro: inj_on_subset)
      show "merkle_root H (pair_up H xs) = merkle_root H (pair_up H ys)"
        using 1(2,4) p(2) [of xs] p(2) [of ys] by simp
    qed (use 1(2) in simp)
    moreover have "inj_on (\<lambda>(a, b). H a b) (set (level_pairs xs) \<union> set (level_pairs ys))"
      using 1(3) p(1) [of xs] p(1) [of ys] 1(2) by (auto intro: inj_on_subset)
    ultimately have "level_pairs xs = level_pairs ys"
      unfolding pair_up_level using inj_on_map_eq_map by blast
    then show ?thesis using level_pairs_inject 1(2) by blast
  next
    case False
    then show ?thesis using 1(2,4)
      by (cases xs; cases ys) (auto simp: merkle_root.simps [of H "[_]"])
  qed
qed

lemma pair_up_duplicate: "odd (length xs) \<Longrightarrow> pair_up H (xs @ [last xs]) = pair_up H xs"
proof (induction H xs rule: pair_up.induct)
  case (3 H x y xs)
  then have "xs \<noteq> []" by auto
  then show ?case using 3 by simp
qed simp_all

subsection \<open>Properties\<close>

lemma size_CBlock_length: "size_CBlock b = of_nat (length (ser_CBlock False b))"
  by (simp add: size_CBlock_def ser_CBlock_def ser_header_def ser_int32_def size_bytes_length
      size_vector_length [OF size_CTransaction_length])

interpretation vtxs: serializable "ser_vector ser_CTransaction" "unser_vector unser_CTransaction"
  "\<lambda>v. small v \<and> list_all wf_CTransaction v"
  by (rule transaction.vector)

definition wf_CBlock :: "bool \<Rightarrow> CBlock \<Rightarrow> bool" where
  "wf_CBlock header_only b \<longleftrightarrow> int32 (b_nVersion b) \<and> vMerkleTree b = [] \<and> b_nDoS b = 0
     \<and> (if header_only then vtx b = [] \<and> vchBlockSig b = []
        else small (vtx b) \<and> list_all wf_CTransaction (vtx b) \<and> small (vchBlockSig b))"

interpretation block: serializable "ser_CBlock k" "unser_CBlock k" "wf_CBlock k"
proof
  show "unser_CBlock k (ser_CBlock k b @ s) = Some (b, s)" if "wf_CBlock k b" for b s
    using that by (cases k) (simp_all add: ser_CBlock_def ser_header_def unser_CBlock_def wf_CBlock_def
        CBlock_SetNull_def member_writes sint32.Unser_Ser vtxs.Unser_Ser)
  show "s = ser_CBlock k b @ t \<and> wf_CBlock k b" if "unser_CBlock k s = Some (b, t)" for s b t
    using that by (cases k) (auto simp: ser_CBlock_def ser_header_def unser_CBlock_def wf_CBlock_def
        CBlock_SetNull_def member_reads sint32.Unser_iff vtxs.Unser_iff Let_def)
qed

text \<open>
  A block has exactly one serialisation, with or without its body, and it is read back; the size
  is that of the full form.
\<close>

theorem CBlock_serialization:
  "(unser_CBlock k s = Some (b, t) \<longleftrightarrow> wf_CBlock k b \<and> s = ser_CBlock k b @ t)
   \<and> size_CBlock b = of_nat (length (ser_CBlock False b))"
  by (simp add: block.Unser_iff size_CBlock_length)

text \<open>
  C25. The loops of \<open>BuildMerkleTree\<close> compute the recursive Merkle root (pair neighbours, the last one
  with itself, until one hash is left; 0 for no transactions), and every branch that
  \<open>GetMerkleBranch\<close> gives, from a fresh or a stored tree, leads \<open>CheckMerkleBranch\<close> to that root.
\<close>

theorem merkle_branch_leads_to_root:
  assumes "i < length (vtx b)" "vMerkleTree b = [] \<or> b = snd (BuildMerkleTree GetHash H b0) \<and> vtx b0 = vtx b"
  shows "fst (BuildMerkleTree GetHash H b) = merkle_root H (map GetHash (vtx b))
    \<and> CheckMerkleBranch H (GetHash (vtx b ! i)) (fst (GetMerkleBranch GetHash H b (int i))) (int i) =
        fst (BuildMerkleTree GetHash H b)"
proof -
  let ?xs = "map GetHash (vtx b)"
  have ne: "?xs \<noteq> []" using assms(1) by auto
  have "fst (GetMerkleBranch GetHash H b (int i)) = merkle_branch (?xs @ merkle_above H ?xs) 0 (length (vtx b)) (int i)"
    using assms(2) ne by (auto simp: GetMerkleBranch_def BuildMerkleTree_eq Let_def)
  also have "\<dots> = spec_branch H ?xs i" using merkle_branch_eq [of i ?xs "[]"] assms(1) by simp
  finally show ?thesis
    using check_branch_root [of i ?xs H] assms(1) by (simp add: CheckMerkleBranch_def BuildMerkleTree_eq)
qed

definition sample_block :: CBlock where
  "sample_block = CBlock_SetNull\<lparr>vtx := [sample_tx, sample_tx\<lparr>nLockTime := 201\<rparr>, sample_tx\<lparr>nLockTime := 202\<rparr>]\<rparr>"

definition sample_hash :: "CTransaction \<Rightarrow> uint256" where
  "sample_hash tx = ucast (nLockTime tx)"

theorem merkle_branch_leads_to_root_witness:
  "CheckMerkleBranch (\<lambda>a b. 3 * a + b) 202
     (fst (GetMerkleBranch sample_hash (\<lambda>a b. 3 * a + b) sample_block 2)) 2 = 3211"
proof -
  have "fst (BuildMerkleTree sample_hash (\<lambda>a b. 3 * a + b) sample_block) = 3211"
    by (simp add: BuildMerkleTree_eq merkle_root.simps sample_block_def sample_hash_def sample_tx_def CBlock_SetNull_def)
  then show ?thesis
    using merkle_branch_leads_to_root [of 2 sample_block sample_hash "\<lambda>a b. 3 * a + b" sample_block]
    by (simp add: sample_block_def sample_hash_def CBlock_SetNull_def)
qed

text \<open>
  A Merkle root binds the transactions: two blocks with the same number of transactions and the
  same root have the same transaction hashes in the same order, unless two of the pairs hashed for
  the two trees collide.
\<close>

theorem merkle_root_binding:
  assumes "length (vtx b) = length (vtx b')"
    and "fst (BuildMerkleTree GetHash H b) = fst (BuildMerkleTree GetHash H b')"
    and "inj_on (\<lambda>(x, y). H x y)
      (set (merkle_pairs H (map GetHash (vtx b))) \<union> set (merkle_pairs H (map GetHash (vtx b'))))"
  shows "map GetHash (vtx b) = map GetHash (vtx b')"
  using merkle_root_binds [OF _ assms(3)] assms(1,2) by (simp add: BuildMerkleTree_eq)

theorem merkle_root_binding_witness:
  "map sample_hash (vtx sample_block) = map sample_hash (vtx (sample_block\<lparr>nBits := 5\<rparr>))"
proof (rule merkle_root_binding [where H = "\<lambda>a b. 1000 * a + b"])
  have "inj_on (\<lambda>(x, y). 1000 * x + y) {(200, 201), (202, 202), (200201, 202202 :: uint256)}"
    by (simp add: inj_on_def)
  then show "inj_on (\<lambda>(x, y). 1000 * x + y)
      (set (merkle_pairs (\<lambda>a b. 1000 * a + b) (map sample_hash (vtx sample_block))) \<union>
       set (merkle_pairs (\<lambda>a b. 1000 * a + b) (map sample_hash (vtx (sample_block\<lparr>nBits := 5\<rparr>)))))"
    by (simp add: merkle_pairs.simps sample_block_def sample_hash_def sample_tx_def CBlock_SetNull_def)
qed (simp_all add: BuildMerkleTree_eq)

text \<open>
  The number of transactions is not bound: repeating the last one of an odd number of
  transactions leaves the root as it is. (Such a block repeats a transaction hash.)
\<close>

theorem merkle_root_duplicate:
  assumes "odd (length (vtx b))" "length (vtx b) > 1"
  shows "fst (BuildMerkleTree GetHash H (b\<lparr>vtx := vtx b @ [last (vtx b)]\<rparr>)) = fst (BuildMerkleTree GetHash H b)"
proof -
  let ?xs = "map GetHash (vtx b)"
  have "vtx b \<noteq> []" using assms(2) by auto
  then have "map GetHash (vtx b @ [last (vtx b)]) = ?xs @ [last ?xs]" by (simp add: last_map)
  moreover have "merkle_root H (?xs @ [last ?xs]) = merkle_root H ?xs"
    using pair_up_duplicate [of ?xs H] assms \<open>vtx b \<noteq> []\<close>
    by (simp add: merkle_root.simps [of H "?xs @ [last ?xs]"] merkle_root.simps [of H ?xs])
  ultimately show ?thesis by (simp add: BuildMerkleTree_eq)
qed

theorem merkle_root_duplicate_witness:
  "fst (BuildMerkleTree sample_hash H (sample_block\<lparr>vtx := vtx sample_block @ [last (vtx sample_block)]\<rparr>)) =
     fst (BuildMerkleTree sample_hash H sample_block)"
  by (rule merkle_root_duplicate) (simp_all add: sample_block_def CBlock_SetNull_def)

end
