(* ===== verification/Chain_Index.thy ===== *)
theory Chain_Index imports Bignum Block begin

text \<open>
  The block index of \<open>src/src/main.h\<close> and the difficulty rules of \<open>src/src/main.cpp\<close>. A \<open>CBlockIndex*\<close>
  with what its \<open>pprev\<close> pointers lead to is the list of the entries from it back to the genesis block;
  \<open>NULL\<close> is the empty list. Modelled are the entry with its flags and its disk form, the walks along
  \<open>pprev\<close> (\<open>GetLastBlockIndex\<close>, \<open>GetMedianTimePast\<close>, block locators) and the targets
  (\<open>GetNextTargetRequired\<close>, \<open>CheckProofOfWork\<close>, \<open>GetBlockTrust\<close>).
\<close>

unbundle bit_operations_syntax

record CBlockIndex =
  bi_hash :: uint256
  bi_nFile :: u32
  bi_nBlockPos :: u32
  nChainTrust :: uint256
  nHeight :: int
  nMint :: int
  nMoneySupply :: int
  nLastReward :: int
  nFlags :: u32
  nStakeModifier :: u64
  bnStakeModifierV2 :: uint256
  prevoutStake :: COutPoint
  nStakeTime :: u32
  hashProof :: uint256
  bi_nVersion :: int
  bi_hashMerkleRoot :: uint256
  bi_nTime :: u32
  bi_nBits :: u32
  bi_nNonce :: u32

type_synonym chain = "CBlockIndex list"

abbreviation (input) BLOCK_PROOF_OF_STAKE :: u32 where "BLOCK_PROOF_OF_STAKE \<equiv> 1"
abbreviation (input) BLOCK_STAKE_ENTROPY :: u32 where "BLOCK_STAKE_ENTROPY \<equiv> 2"
abbreviation (input) BLOCK_STAKE_MODIFIER :: u32 where "BLOCK_STAKE_MODIFIER \<equiv> 4"

definition CBlockIndex_new :: CBlockIndex where
  "CBlockIndex_new = \<lparr>bi_hash = 0, bi_nFile = 0, bi_nBlockPos = 0, nChainTrust = 0, nHeight = 0, nMint = 0,
     nMoneySupply = 0, nLastReward = 0, nFlags = 0, nStakeModifier = 0, bnStakeModifierV2 = 0,
     prevoutStake = COutPoint_SetNull, nStakeTime = 0, hashProof = 0, bi_nVersion = 0, bi_hashMerkleRoot = 0,
     bi_nTime = 0, bi_nBits = 0, bi_nNonce = 0\<rparr>"

subsection \<open>Flags\<close>

definition IsProofOfStake :: "CBlockIndex \<Rightarrow> bool" where
  "IsProofOfStake p \<longleftrightarrow> nFlags p AND BLOCK_PROOF_OF_STAKE \<noteq> 0"

definition IsProofOfWork :: "CBlockIndex \<Rightarrow> bool" where
  "IsProofOfWork p \<longleftrightarrow> \<not> (nFlags p AND BLOCK_PROOF_OF_STAKE \<noteq> 0)"

definition SetProofOfStake :: "CBlockIndex \<Rightarrow> CBlockIndex" where
  "SetProofOfStake p = p\<lparr>nFlags := nFlags p OR BLOCK_PROOF_OF_STAKE\<rparr>"

definition bi_GetStakeEntropyBit :: "CBlockIndex \<Rightarrow> u32" where
  "bi_GetStakeEntropyBit p = drop_bit 1 (nFlags p AND BLOCK_STAKE_ENTROPY)"

definition SetStakeEntropyBit :: "u32 \<Rightarrow> CBlockIndex \<Rightarrow> bool \<times> CBlockIndex" where
  "SetStakeEntropyBit nEntropyBit p =
     (if nEntropyBit > 1 then (False, p)
      else (True, p\<lparr>nFlags := nFlags p OR (if nEntropyBit \<noteq> 0 then BLOCK_STAKE_ENTROPY else 0)\<rparr>))"

definition GeneratedStakeModifier :: "CBlockIndex \<Rightarrow> bool" where
  "GeneratedStakeModifier p \<longleftrightarrow> nFlags p AND BLOCK_STAKE_MODIFIER \<noteq> 0"

definition SetStakeModifier :: "u64 \<Rightarrow> bool \<Rightarrow> CBlockIndex \<Rightarrow> CBlockIndex" where
  "SetStakeModifier nModifier fGenerated p =
     (let p = p\<lparr>nStakeModifier := nModifier\<rparr>
      in if fGenerated then p\<lparr>nFlags := nFlags p OR BLOCK_STAKE_MODIFIER\<rparr> else p)"

subsection \<open>Entry and header\<close>

definition CBlockIndex_of_block :: "u32 \<Rightarrow> u32 \<Rightarrow> CBlock \<Rightarrow> CBlockIndex" where
  "CBlockIndex_of_block nFileIn nBlockPosIn block =
     (let p = CBlockIndex_new\<lparr>bi_nFile := nFileIn, bi_nBlockPos := nBlockPosIn\<rparr>;
          p = (if CBlock_IsProofOfStake block
               then (SetProofOfStake p)\<lparr>prevoutStake := prevout (vin (vtx block ! 1) ! 0), nStakeTime := nTime (vtx block ! 1)\<rparr>
               else p\<lparr>prevoutStake := COutPoint_SetNull, nStakeTime := 0\<rparr>)
      in p\<lparr>bi_nVersion := b_nVersion block, bi_hashMerkleRoot := hashMerkleRoot block, bi_nTime := b_nTime block,
           bi_nBits := nBits block, bi_nNonce := nNonce block\<rparr>)"

text \<open>The header, for an entry and what is behind it; the chain is not empty.\<close>

definition GetBlockHeader :: "chain \<Rightarrow> CBlock" where
  "GetBlockHeader c =
     (let p = hd c in
      CBlock_SetNull\<lparr>b_nVersion := bi_nVersion p,
        hashPrevBlock := (case tl c of [] \<Rightarrow> 0 | q # _ \<Rightarrow> bi_hash q),
        hashMerkleRoot := bi_hashMerkleRoot p, b_nTime := bi_nTime p, nBits := bi_nBits p, nNonce := bi_nNonce p\<rparr>)"

definition GetBlockTime :: "CBlockIndex \<Rightarrow> int" where
  "GetBlockTime p = uint (bi_nTime p)"

definition DRIFT :: int where "DRIFT = 5 * 60"

definition FutureDrift :: "int \<Rightarrow> int" where
  "FutureDrift t = t + DRIFT"

definition GetPastTimeLimit :: "CBlockIndex \<Rightarrow> int" where
  "GetPastTimeLimit p = GetBlockTime p - DRIFT"

definition nMedianTimeSpan :: nat where "nMedianTimeSpan = 11"

text \<open>The times of at most eleven entries, written backwards into the array and sorted.\<close>

definition GetMedianTimePast :: "chain \<Rightarrow> int" where
  "GetMedianTimePast c =
     (let pmedian = sort (rev (map GetBlockTime (take nMedianTimeSpan c))) in pmedian ! (length pmedian div 2))"

subsection \<open>Targets\<close>

fun GetLastBlockIndex :: "chain \<Rightarrow> bool \<Rightarrow> chain" where
  "GetLastBlockIndex [] fProofOfStake = []"
| "GetLastBlockIndex [p] fProofOfStake = [p]"
| "GetLastBlockIndex (p # q # c) fProofOfStake =
     (if IsProofOfStake p \<noteq> fProofOfStake then GetLastBlockIndex (q # c) fProofOfStake else p # q # c)"

text \<open>\<open>~uint256(0) >> 16\<close> and \<open>~uint256(0) >> 20\<close> as numbers.\<close>

definition bnProofOfWorkLimit :: int where
  "bnProofOfWorkLimit = uint (drop_bit 16 (NOT 0 :: uint256))"

definition bnProofOfStakeLimit :: int where
  "bnProofOfStakeLimit = uint (drop_bit 20 (NOT 0 :: uint256))"

definition GetProofOfStakeLimit :: "int \<Rightarrow> int" where
  "GetProofOfStakeLimit height = bnProofOfStakeLimit"

definition TARGET_SPACING :: int where "TARGET_SPACING = 4 * 60"
definition nTargetTimespan :: int where "nTargetTimespan = 1 * 24 * 60 * 60"

text \<open>\<open>None\<close> is reading \<open>pindexLast->nHeight\<close> of a null pointer, before the test for it.\<close>

definition GetNextTargetRequired :: "bn_lib \<Rightarrow> chain \<Rightarrow> bool \<Rightarrow> u32 option" where
  "GetNextTargetRequired L pindexLast fProofOfStake =
     (if fProofOfStake \<and> pindexLast = [] then None
      else
        let bnTargetLimit = (if fProofOfStake then GetProofOfStakeLimit (nHeight (hd pindexLast)) else bnProofOfWorkLimit) in
        if pindexLast = [] then Some (CBigNum_GetCompact L bnTargetLimit)
        else
          let pindexPrev = GetLastBlockIndex pindexLast fProofOfStake in
          if tl pindexPrev = [] then Some (CBigNum_GetCompact L bnTargetLimit)
          else
            let pindexPrevPrev = GetLastBlockIndex (tl pindexPrev) fProofOfStake in
            if tl pindexPrevPrev = [] then Some (CBigNum_GetCompact L bnTargetLimit)
            else
              let nActualSpacing = GetBlockTime (hd pindexPrev) - GetBlockTime (hd pindexPrevPrev);
                  nActualSpacing = (if nActualSpacing < 0 then TARGET_SPACING else nActualSpacing);
                  bnNew = CBigNum_SetCompact L (bi_nBits (hd pindexPrev));
                  nInterval = nTargetTimespan div TARGET_SPACING;
                  bnNew = bnNew * ((nInterval - 1) * TARGET_SPACING + nActualSpacing + nActualSpacing)
              in case CBigNum_div bnNew ((nInterval + 1) * TARGET_SPACING) of
                   None \<Rightarrow> None
                 | Some bnNew \<Rightarrow>
                     Some (CBigNum_GetCompact L (if bnNew \<le> 0 \<or> bnNew > bnTargetLimit then bnTargetLimit else bnNew)))"

definition CheckProofOfWork :: "bn_lib \<Rightarrow> uint256 \<Rightarrow> u32 \<Rightarrow> bool" where
  "CheckProofOfWork L h bits =
     (let bnTarget = CBigNum_SetCompact L bits in
      if bnTarget \<le> 0 \<or> bnTarget > bnProofOfWorkLimit then False
      else if h > CBigNum_getuint256 L bnTarget then False
      else True)"

definition GetBlockTrust :: "bn_lib \<Rightarrow> CBlockIndex \<Rightarrow> uint256" where
  "GetBlockTrust L p =
     (let bnTarget = CBigNum_SetCompact L (bi_nBits p) in
      if bnTarget \<le> 0 then 0
      else case CBigNum_div (CBigNum_shl 1 256) (bnTarget + 1) of
             None \<Rightarrow> 0
           | Some q \<Rightarrow> CBigNum_getuint256 L q)"

subsection \<open>The disk form\<close>

record CDiskBlockIndex = CBlockIndex +
  hashPrev :: uint256
  hashNext :: uint256
  blockHash :: uint256

definition CDiskBlockIndex_new :: CDiskBlockIndex where
  "CDiskBlockIndex_new = CBlockIndex.extend CBlockIndex_new (CDiskBlockIndex.fields 0 0 0)"

text \<open>\<open>pnext\<close> is the entry that follows on the main chain, if there is one.\<close>

definition CDiskBlockIndex_of :: "chain \<Rightarrow> CBlockIndex option \<Rightarrow> CDiskBlockIndex" where
  "CDiskBlockIndex_of c pnext =
     CBlockIndex.extend (hd c) (CDiskBlockIndex.fields
       (case tl c of [] \<Rightarrow> 0 | q # _ \<Rightarrow> bi_hash q) (case pnext of None \<Rightarrow> 0 | Some q \<Rightarrow> bi_hash q) 0)"

text \<open>
  \<open>stream_version\<close> is the version of the stream, which the entry is headed by except for hashing. The
  pointers of the entry and its trust are not written.
\<close>

definition ser_CDiskBlockIndex :: "bool \<Rightarrow> int \<Rightarrow> CDiskBlockIndex \<Rightarrow> bytes" where
  "ser_CDiskBlockIndex for_hash stream_version p =
     (if \<not> for_hash then ser_int32 stream_version else []) @
     WRITEDATA 32 (hashNext p) @ WRITEDATA 4 (bi_nFile p) @ WRITEDATA 4 (bi_nBlockPos p) @ ser_int32 (nHeight p) @
     ser_int64 (nMint p) @ ser_int64 (nMoneySupply p) @ ser_int64 (nLastReward p) @
     WRITEDATA 4 (nFlags p) @ WRITEDATA 8 (nStakeModifier p) @ WRITEDATA 32 (bnStakeModifierV2 p) @
     (if IsProofOfStake (CBlockIndex.truncate p) then ser_COutPoint (prevoutStake p) @ WRITEDATA 4 (nStakeTime p) else []) @
     WRITEDATA 32 (hashProof p) @
     ser_int32 (bi_nVersion p) @ WRITEDATA 32 (hashPrev p) @ WRITEDATA 32 (bi_hashMerkleRoot p) @
     WRITEDATA 4 (bi_nTime p) @ WRITEDATA 4 (bi_nBits p) @ WRITEDATA 4 (bi_nNonce p) @ WRITEDATA 32 (blockHash p)"

text \<open>The stake and the part after it, then the whole entry read into a fresh one.\<close>

definition unser_stake :: "CDiskBlockIndex \<Rightarrow> CDiskBlockIndex reader" where
  "unser_stake p s =
     (if IsProofOfStake (CBlockIndex.truncate p) then do {
        (o1, s1) \<leftarrow> unser_COutPoint s;
        (t1, s2) \<leftarrow> READDATA 4 s1;
        Some (p\<lparr>prevoutStake := o1, nStakeTime := t1\<rparr>, s2) }
      else Some (p\<lparr>prevoutStake := COutPoint_SetNull, nStakeTime := 0\<rparr>, s))"

definition unser_index_header :: "CDiskBlockIndex \<Rightarrow> CDiskBlockIndex reader" where
  "unser_index_header p s = do {
     (proof, s1) \<leftarrow> READDATA 32 s;
     (version, s2) \<leftarrow> unser_int32 s1;
     (prev, s3) \<leftarrow> READDATA 32 s2;
     (root, s4) \<leftarrow> READDATA 32 s3;
     (time, s5) \<leftarrow> READDATA 4 s4;
     (bits, s6) \<leftarrow> READDATA 4 s5;
     (nonce, s7) \<leftarrow> READDATA 4 s6;
     (h, s8) \<leftarrow> READDATA 32 s7;
     Some (p\<lparr>hashProof := proof, bi_nVersion := version, hashPrev := prev, bi_hashMerkleRoot := root,
       bi_nTime := time, bi_nBits := bits, bi_nNonce := nonce, blockHash := h\<rparr>, s8) }"

definition unser_CDiskBlockIndex :: "bool \<Rightarrow> CDiskBlockIndex reader" where
  "unser_CDiskBlockIndex for_hash s = do {
     (_, s0) \<leftarrow> (if \<not> for_hash then unser_int32 s else Some (0, s));
     (next, s1) \<leftarrow> READDATA 32 s0;
     (file, s2) \<leftarrow> READDATA 4 s1;
     (pos, s3) \<leftarrow> READDATA 4 s2;
     (height, s4) \<leftarrow> unser_int32 s3;
     (mint, s5) \<leftarrow> unser_int64 s4;
     (supply, s6) \<leftarrow> unser_int64 s5;
     (reward, s7) \<leftarrow> unser_int64 s6;
     (flags, s8) \<leftarrow> READDATA 4 s7;
     (modifier, s9) \<leftarrow> READDATA 8 s8;
     (modifier2, s10) \<leftarrow> READDATA 32 s9;
     (p, s11) \<leftarrow> unser_stake (CDiskBlockIndex_new\<lparr>hashNext := next, bi_nFile := file, bi_nBlockPos := pos,
        nHeight := height, nMint := mint, nMoneySupply := supply, nLastReward := reward, nFlags := flags,
        nStakeModifier := modifier, bnStakeModifierV2 := modifier2\<rparr>) s10;
     unser_index_header p s11 }"

text \<open>
  \<open>GetBlockHash\<close> of the disk form trusts the stored hash of an entry older than a day when the fast
  index is on, and computes (and stores) it otherwise; \<open>now\<close> is \<open>GetAdjustedTime()\<close>.
\<close>

definition CDiskBlockIndex_GetBlockHash ::
  "(bytes \<Rightarrow> uint256) \<Rightarrow> bool \<Rightarrow> int \<Rightarrow> CDiskBlockIndex \<Rightarrow> uint256 \<times> CDiskBlockIndex" where
  "CDiskBlockIndex_GetBlockHash hash fUseFastIndex now p =
     (if fUseFastIndex \<and> uint (bi_nTime p) < now - 24 * 60 * 60 \<and> blockHash p \<noteq> 0 then (blockHash p, p)
      else
        let block = CBlock_SetNull\<lparr>b_nVersion := bi_nVersion p, hashPrevBlock := hashPrev p,
              hashMerkleRoot := bi_hashMerkleRoot p, b_nTime := bi_nTime p, nBits := bi_nBits p, nNonce := bi_nNonce p\<rparr>;
            h = CBlock_GetHash hash block
        in (h, p\<lparr>blockHash := h\<rparr>))"

subsection \<open>Block locators\<close>

text \<open>
  \<open>CBlockLocator::Set\<close>: \<open>n\<close> is the number of hashes so far; after the eleventh the step doubles. The
  entry \<open>p\<close> is the first of \<open>nStep\<close> pointers followed, and \<open>nStep\<close> is never 0. (It would overflow an
  \<open>int\<close> only on a chain of more than \<open>2 ^ 30\<close> blocks.)
\<close>

function locator_loop :: "nat \<Rightarrow> nat \<Rightarrow> chain \<Rightarrow> uint256 list" where
  "locator_loop n nStep [] = []"
| "locator_loop n nStep (p # c) =
     bi_hash p # locator_loop (n + 1) (if n + 1 > 10 then nStep * 2 else nStep) (drop (nStep - 1) c)"
  by pat_completeness auto
termination by (relation "measure (\<lambda>(n, nStep, c). length c)") auto

definition CBlockLocator_Set :: "uint256 \<Rightarrow> chain \<Rightarrow> uint256 list" where
  "CBlockLocator_Set hashGenesisBlock pindex = locator_loop 0 1 pindex @ [hashGenesisBlock]"

text \<open>
  The readers of a locator. \<open>find_main\<close> is what they do with a hash: look it up in \<open>mapBlockIndex\<close> and
  ask the entry whether it is in the main chain.
\<close>

definition find_main :: "(uint256 \<Rightarrow> chain option) \<Rightarrow> (chain \<Rightarrow> bool) \<Rightarrow> uint256 \<Rightarrow> chain option" where
  "find_main mapBlockIndex IsInMainChain h =
     (case mapBlockIndex h of
        None \<Rightarrow> None
      | Some pindex \<Rightarrow> if IsInMainChain pindex then Some pindex else None)"

fun locator_GetBlockIndex :: "(uint256 \<Rightarrow> chain option) \<Rightarrow> chain \<Rightarrow> uint256 list \<Rightarrow> chain" where
  "locator_GetBlockIndex look pindexGenesisBlock [] = pindexGenesisBlock"
| "locator_GetBlockIndex look pindexGenesisBlock (h # vHave) =
     (case look h of Some pindex \<Rightarrow> pindex | None \<Rightarrow> locator_GetBlockIndex look pindexGenesisBlock vHave)"

fun locator_GetBlockHash :: "(uint256 \<Rightarrow> chain option) \<Rightarrow> uint256 \<Rightarrow> uint256 list \<Rightarrow> uint256" where
  "locator_GetBlockHash look hashGenesisBlock [] = hashGenesisBlock"
| "locator_GetBlockHash look hashGenesisBlock (h # vHave) =
     (case look h of Some pindex \<Rightarrow> h | None \<Rightarrow> locator_GetBlockHash look hashGenesisBlock vHave)"

definition locator_GetHeight :: "(uint256 \<Rightarrow> chain option) \<Rightarrow> chain \<Rightarrow> uint256 list \<Rightarrow> int" where
  "locator_GetHeight look pindexGenesisBlock vHave =
     (case locator_GetBlockIndex look pindexGenesisBlock vHave of [] \<Rightarrow> 0 | p # _ \<Rightarrow> nHeight p)"

subsection \<open>The disk form is read back\<close>

definition wf_CDiskBlockIndex :: "CDiskBlockIndex \<Rightarrow> bool" where
  "wf_CDiskBlockIndex p \<longleftrightarrow> int32 (nHeight p) \<and> int64 (nMint p) \<and> int64 (nMoneySupply p) \<and> int64 (nLastReward p)
     \<and> int32 (bi_nVersion p) \<and> bi_hash p = 0 \<and> nChainTrust p = 0
     \<and> (\<not> IsProofOfStake (CBlockIndex.truncate p) \<longrightarrow> prevoutStake p = COutPoint_SetNull \<and> nStakeTime p = 0)"

lemma IsProofOfStake_truncate:
  "nFlags (CBlockIndex.truncate p) = nFlags p"
  by (simp add: CBlockIndex.truncate_def)


lemma disk_index_writes:
  assumes "wf_CDiskBlockIndex p" "int32 v"
  shows "unser_CDiskBlockIndex k (ser_CDiskBlockIndex k v p @ s) = Some (p, s)"
  using assms unfolding unser_CDiskBlockIndex_def ser_CDiskBlockIndex_def
  by (cases p) (auto simp: wf_CDiskBlockIndex_def member_writes sint32.Unser_Ser sint64.Unser_Ser outpoint.Unser_Ser
    unser_stake_def unser_index_header_def CDiskBlockIndex_new_def CBlockIndex_new_def CBlockIndex.extend_def
    CDiskBlockIndex.fields_def IsProofOfStake_truncate IsProofOfStake_def)

lemma disk_index_reads:
  assumes "unser_CDiskBlockIndex k s = Some (p, t)"
  shows "\<exists>v. int32 v \<and> wf_CDiskBlockIndex p \<and> s = ser_CDiskBlockIndex k v p @ t"
proof -
  have "int32 0" by (simp add: int32_def)
  then show ?thesis
  using assms unfolding unser_CDiskBlockIndex_def ser_CDiskBlockIndex_def
  by (cases k) (auto simp: wf_CDiskBlockIndex_def member_reads sint32.Unser_iff sint64.Unser_iff outpoint.Unser_iff
    unser_stake_def unser_index_header_def CDiskBlockIndex_new_def CBlockIndex_new_def CBlockIndex.extend_def
    CDiskBlockIndex.fields_def IsProofOfStake_truncate IsProofOfStake_def split: if_splits)
qed

text \<open>What an entry of the chain keeps: its integers fit, and only proof of stake has a stake.\<close>

definition index_ok :: "CBlockIndex \<Rightarrow> bool" where
  "index_ok p \<longleftrightarrow> int32 (nHeight p) \<and> int64 (nMint p) \<and> int64 (nMoneySupply p) \<and> int64 (nLastReward p)
     \<and> int32 (bi_nVersion p) \<and> (\<not> IsProofOfStake p \<longrightarrow> prevoutStake p = COutPoint_SetNull \<and> nStakeTime p = 0)"

lemma index_ok_of_block: "int32 (b_nVersion block) \<Longrightarrow> index_ok (CBlockIndex_of_block nFileIn nBlockPosIn block)"
  by (auto simp: index_ok_def CBlockIndex_of_block_def CBlockIndex_new_def SetProofOfStake_def IsProofOfStake_def
      Let_def int32_def int64_def)

lemma wf_disk_index:
  "index_ok (hd c) \<Longrightarrow> wf_CDiskBlockIndex ((CDiskBlockIndex_of c pnext)\<lparr>bi_hash := 0, nChainTrust := 0, blockHash := h\<rparr>)"
  by (cases "hd c") (simp add: wf_CDiskBlockIndex_def index_ok_def IsProofOfStake_truncate CDiskBlockIndex_of_def
      CBlockIndex.extend_def CDiskBlockIndex.fields_def IsProofOfStake_def)

lemma disk_index_hash:
  "fst (CDiskBlockIndex_GetBlockHash hash f now ((CDiskBlockIndex_of c pnext)\<lparr>bi_hash := x, nChainTrust := y, blockHash := h\<rparr>)) =
     CBlock_GetHash hash (GetBlockHeader c)" if "h = 0 \<or> h = CBlock_GetHash hash (GetBlockHeader c)"
  using that by (cases "hd c") (auto simp: CDiskBlockIndex_GetBlockHash_def CDiskBlockIndex_of_def GetBlockHeader_def
      CBlockIndex.extend_def CDiskBlockIndex.fields_def Let_def CBlock_SetNull_def split: list.splits)

text \<open>
  An entry of the block index that goes to disk, with its hash computed on the way or not, is
  read back with its links as hashes and without its trust; and \<open>GetBlockHash\<close> of what was read is the
  hash of the header of the block, whether the fast index serves it or not.
\<close>

theorem CDiskBlockIndex_roundtrip:
  assumes "index_ok (hd c)" "int32 v" "h = 0 \<or> h = CBlock_GetHash hash (GetBlockHeader c)"
  shows "\<exists>p. unser_CDiskBlockIndex k (ser_CDiskBlockIndex k v ((CDiskBlockIndex_of c pnext)\<lparr>blockHash := h\<rparr>) @ s) = Some (p, s)
    \<and> p = (CDiskBlockIndex_of c pnext)\<lparr>bi_hash := 0, nChainTrust := 0, blockHash := h\<rparr>
    \<and> fst (CDiskBlockIndex_GetBlockHash hash fUseFastIndex now p) = CBlock_GetHash hash (GetBlockHeader c)"
proof -
  let ?p = "(CDiskBlockIndex_of c pnext)\<lparr>bi_hash := 0, nChainTrust := 0, blockHash := h\<rparr>"
  have "ser_CDiskBlockIndex k v ?p = ser_CDiskBlockIndex k v ((CDiskBlockIndex_of c pnext)\<lparr>blockHash := h\<rparr>)"
    by (simp add: ser_CDiskBlockIndex_def IsProofOfStake_truncate IsProofOfStake_def)
  then show ?thesis using disk_index_writes [OF wf_disk_index [OF assms(1)] assms(2)] disk_index_hash [OF assms(3)]
    by metis
qed

lemma CDiskBlockIndex_roundtrip_witness:
  "\<exists>p. unser_CDiskBlockIndex False (ser_CDiskBlockIndex False 7
        ((CDiskBlockIndex_of [CBlockIndex_of_block 1 2 sample_block] None)\<lparr>blockHash := 0\<rparr>) @ []) = Some (p, [])
    \<and> p = (CDiskBlockIndex_of [CBlockIndex_of_block 1 2 sample_block] None)\<lparr>bi_hash := 0, nChainTrust := 0, blockHash := 0\<rparr>
    \<and> fst (CDiskBlockIndex_GetBlockHash (\<lambda>bs. of_nat (length bs)) True 100000 p) =
        CBlock_GetHash (\<lambda>bs. of_nat (length bs)) (GetBlockHeader [CBlockIndex_of_block 1 2 sample_block])"
  by (rule CDiskBlockIndex_roundtrip)
    (simp_all add: index_ok_of_block sample_block_def CBlock_SetNull_def int32_def)

subsection \<open>The targets\<close>

lemma limit_values: "bnProofOfWorkLimit = 2 ^ 240 - 1" "bnProofOfStakeLimit = 2 ^ 236 - 1"
  by (simp_all add: bnProofOfWorkLimit_def bnProofOfStakeLimit_def unsigned_drop_bit_eq drop_bit_eq_div)

lemma payload_length:
  assumes "0 < n"
  shows "256 ^ (length (mpi_payload n) - 3) \<le> n" "n < 256 ^ k \<Longrightarrow> length (mpi_payload n) \<le> k + 1"
proof -
  let ?r = "le_bytes (nat n)"
  have r: "?r \<noteq> []" "last ?r \<noteq> 0" using le_bytes_props [of "nat n"] assms by simp_all
  have len: "length (mpi_payload n) \<le> length ?r + 1"
    using assms length_signed_bytes [OF r(1)] by (simp add: mpi_payload_def)
  have v: "le_val ?r = nat n" by (rule le_val_le_bytes)
  have "?r = butlast ?r @ [last ?r]" using r(1) by simp
  then have "le_val ?r = le_val (butlast ?r) + 256 ^ (length ?r - 1) * unat (last ?r)"
    by (metis le_val_append length_butlast le_val.simps mult.right_neutral mult_0_right add.right_neutral)
  moreover have "unat (last ?r) \<ge> 1" using r(2) by (simp add: Suc_le_eq unat_gt_0)
  ultimately have low: "256 ^ (length ?r - 1) \<le> nat n"
    unfolding v by (metis mult.right_neutral mult_le_mono2 trans_le_add2)
  have "(256 :: nat) ^ (length (mpi_payload n) - 3) \<le> 256 ^ (length ?r - 1)"
    using len by (intro power_increasing) simp_all
  with low have "256 ^ (length (mpi_payload n) - 3) \<le> nat n" by linarith
  then have "int (256 ^ (length (mpi_payload n) - 3)) \<le> n" using assms by linarith
  then show "256 ^ (length (mpi_payload n) - 3) \<le> n" by simp
  assume "n < 256 ^ k"
  then have "nat n < 256 ^ k" using assms by (simp add: nat_less_iff)
  with low have "(256 :: nat) ^ (length ?r - 1) < 256 ^ k" by linarith
  then have "length ?r - 1 < k" by (simp only: power_strict_increasing_iff)
  then show "length (mpi_payload n) \<le> k + 1" using len by linarith
qed

lemma compact_target:
  assumes "bn_lib_ok L" "0 < n" "n < 256 ^ 31"
  shows "0 < CBigNum_SetCompact L (CBigNum_GetCompact L n)" "CBigNum_SetCompact L (CBigNum_GetCompact L n) \<le> n"
    "n < CBigNum_SetCompact L (CBigNum_GetCompact L n) + 256 ^ (length (mpi_payload n) - 3)"
proof -
  let ?m = "256 ^ (length (mpi_payload n) - 3) :: int"
  have eq: "CBigNum_SetCompact L (CBigNum_GetCompact L n) = n div ?m * ?m"
    using compact_rounds [OF assms(1), of n] payload_length(2) [of n 31] assms by simp
  have m: "0 < ?m" by simp
  have "1 \<le> n div ?m" using payload_length(1) [OF assms(2)] m by (simp add: pos_imp_zdiv_pos_iff int_one_le_iff_zero_less)
  then show "0 < CBigNum_SetCompact L (CBigNum_GetCompact L n)" unfolding eq using m by (simp add: mult_pos_pos)
  have "n = n div ?m * ?m + n mod ?m" by (rule div_mult_mod_eq [symmetric])
  moreover have "0 \<le> n mod ?m" "n mod ?m < ?m" using m by simp_all
  ultimately show "CBigNum_SetCompact L (CBigNum_GetCompact L n) \<le> n"
    "n < CBigNum_SetCompact L (CBigNum_GetCompact L n) + 256 ^ (length (mpi_payload n) - 3)" unfolding eq by linarith+
qed

text \<open>What the retargeting computes from the previous target and the spacing of the last two blocks.\<close>

definition retarget :: "int \<Rightarrow> int \<Rightarrow> int \<Rightarrow> int" where
  "retarget limit bnNew spacing =
     (let n = bnNew * (359 * 240 + (if spacing < 0 then 240 else spacing) * 2) sdiv (361 * 240)
      in if n \<le> 0 \<or> n > limit then limit else n)"

definition target_limit :: "bool \<Rightarrow> int" where
  "target_limit fProofOfStake = (if fProofOfStake then bnProofOfStakeLimit else bnProofOfWorkLimit)"

text \<open>The two blocks of the kind that are compared, each with at least one block behind it.\<close>

definition last_two :: "chain \<Rightarrow> bool \<Rightarrow> (CBlockIndex \<times> CBlockIndex) option" where
  "last_two c fProofOfStake =
     (case GetLastBlockIndex c fProofOfStake of
        p # q # c' \<Rightarrow> (case GetLastBlockIndex (q # c') fProofOfStake of p' # q' # c'' \<Rightarrow> Some (p, p') | _ \<Rightarrow> None)
      | _ \<Rightarrow> None)"

lemma GetLastBlockIndex_Nil [simp]: "GetLastBlockIndex c b = [] \<longleftrightarrow> c = []"
  by (induction c b rule: GetLastBlockIndex.induct) simp_all

lemma GetNextTargetRequired_eq:
  "GetNextTargetRequired L c b =
     (if b \<and> c = [] then None
      else Some (CBigNum_GetCompact L
        (case last_two c b of
           None \<Rightarrow> target_limit b
         | Some (p, p') \<Rightarrow> retarget (target_limit b) (CBigNum_SetCompact L (bi_nBits p)) (GetBlockTime p - GetBlockTime p'))))"
proof (cases "c = []")
  case True
  then show ?thesis by (simp add: GetNextTargetRequired_def last_two_def target_limit_def)
next
  case False
  then obtain p c1 where 1: "GetLastBlockIndex c b = p # c1" by (meson GetLastBlockIndex_Nil list.exhaust)
  show ?thesis
  proof (cases c1)
    case Nil
    then show ?thesis using False 1
      by (simp add: GetNextTargetRequired_def last_two_def target_limit_def GetProofOfStakeLimit_def)
  next
    case (Cons q c2)
    then obtain p' c3 where 2: "GetLastBlockIndex (q # c2) b = p' # c3"
      by (metis GetLastBlockIndex_Nil list.exhaust list.discI)
    have k: "TARGET_SPACING = 240" "nTargetTimespan div 240 = 360"
      by (simp_all add: nTargetTimespan_def TARGET_SPACING_def)
    have 1: "GetLastBlockIndex c b = p # q # c2" using 1 Cons by simp
    have l: "last_two c b = (if c3 = [] then None else Some (p, p'))"
      unfolding last_two_def 1 using 2 by (cases c3) simp_all
    have m: "(360 - 1) * (240 :: int) + x + x = 359 * 240 + x * 2" "(360 + 1) * (240 :: int) = 361 * 240"
      "361 * (240 :: int) = 0 \<longleftrightarrow> False" for x by simp_all
    show ?thesis
      unfolding GetNextTargetRequired_def l 1 target_limit_def GetProofOfStakeLimit_def k Let_def list.sel 2 m
        CBigNum_div_def retarget_def by (cases "c3 = []"; cases b) (simp_all only: False simp_thms if_True if_False option.case prod.case
          list.distinct if_cancel Let_def)
  qed
qed

lemma target_limit_range: "0 < target_limit b" "target_limit b < 256 ^ 30"
  by (simp_all add: target_limit_def limit_values)

lemma retarget_range: "0 < limit \<Longrightarrow> 0 < retarget limit n k \<and> retarget limit n k \<le> limit"
  by (simp add: retarget_def Let_def)

text \<open>
  C24. Whatever the chain holds, the target asked of the next block is positive and within the limit of
  its kind, so the range check of \<open>CheckProofOfWork\<close> never fires on it; the only failure is the null
  dereference for a proof of stake after no block. Reading the compact form back loses at most the
  bytes below the third.
\<close>

theorem GetNextTargetRequired_in_range:
  assumes "bn_lib_ok L"
  shows "(GetNextTargetRequired L c b = None \<longleftrightarrow> b \<and> c = []) \<and>
    (case GetNextTargetRequired L c b of
       None \<Rightarrow> True
     | Some bits \<Rightarrow> 0 < CBigNum_SetCompact L bits \<and> CBigNum_SetCompact L bits \<le> target_limit b
         \<and> (CheckProofOfWork L h bits \<longleftrightarrow> uint h \<le> CBigNum_SetCompact L bits))"
proof (cases "b \<and> c = []")
  case True
  then show ?thesis by (simp add: GetNextTargetRequired_eq)
next
  case False
  define n where "n = (case last_two c b of None \<Rightarrow> target_limit b
    | Some (p, p') \<Rightarrow> retarget (target_limit b) (CBigNum_SetCompact L (bi_nBits p)) (GetBlockTime p - GetBlockTime p'))"
  have n: "0 < n" "n \<le> target_limit b"
    using retarget_range target_limit_range(1) [of b] by (auto simp: n_def split: option.splits)
  then have lt: "n < 256 ^ 31" using target_limit_range(2) [of b] by simp
  let ?t = "CBigNum_SetCompact L (CBigNum_GetCompact L n)"
  note t = compact_target [OF assms n(1) lt]
  have "?t \<le> bnProofOfWorkLimit" using t(2) n(2) by (simp add: target_limit_def limit_values split: if_splits)
  moreover have "uint (CBigNum_getuint256 L ?t) = ?t"
    using t(1,2) lt by (simp add: getuint_value [OF assms] unsigned_of_int take_bit_int_eq_self)
  ultimately have "CheckProofOfWork L h (CBigNum_GetCompact L n) \<longleftrightarrow> uint h \<le> ?t"
    using t(1) by (simp add: CheckProofOfWork_def Let_def word_less_def not_less)
  moreover have "GetNextTargetRequired L c b = Some (CBigNum_GetCompact L n)"
    using False by (auto simp: GetNextTargetRequired_eq n_def)
  ultimately show ?thesis using t(1,2) n(2) False by simp
qed

lemma GetNextTargetRequired_in_range_witness:
  "(GetNextTargetRequired ref_lib [] False = None \<longleftrightarrow> False) \<and>
    (case GetNextTargetRequired ref_lib [] False of
       None \<Rightarrow> True
     | Some bits \<Rightarrow> 0 < CBigNum_SetCompact ref_lib bits \<and> CBigNum_SetCompact ref_lib bits \<le> target_limit False
         \<and> (CheckProofOfWork ref_lib 5 bits \<longleftrightarrow> uint (5 :: uint256) \<le> CBigNum_SetCompact ref_lib bits))"
  using GetNextTargetRequired_in_range [OF ref_lib_ok, of "[]" False] by simp

lemma sdiv_nonneg: "0 \<le> a \<Longrightarrow> 0 < b \<Longrightarrow> a sdiv b = a div b" for a b :: int
  by (cases "a = 0") (simp_all add: signed_divide_int_def sgn_if)

lemma retarget_mono:
  fixes n :: int
  assumes "0 < n" "0 \<le> k"
  shows "k \<le> 240 \<Longrightarrow> n * (359 * 240 + k * 2) sdiv (361 * 240) \<le> n"
    "240 \<le> k \<Longrightarrow> n \<le> n * (359 * 240 + k * 2) sdiv (361 * 240)"
proof -
  have "0 \<le> n * (359 * 240 + k * 2)" using assms by (intro mult_nonneg_nonneg) simp_all
  then have sd: "n * (359 * 240 + k * 2) sdiv (361 * 240) = n * (359 * 240 + k * 2) div (361 * 240)"
    by (rule sdiv_nonneg) simp
  have self: "n * (361 * 240) div (361 * 240) = n" by simp
  show "n * (359 * 240 + k * 2) sdiv (361 * 240) \<le> n" if "k \<le> 240"
  proof -
    have "n * (359 * 240 + k * 2) \<le> n * (361 * 240)" using that assms by (intro mult_left_mono) simp_all
    then have "n * (359 * 240 + k * 2) div (361 * 240) \<le> n * (361 * 240) div (361 * 240)" by (rule zdiv_mono1) simp
    then show ?thesis by (simp only: sd self)
  qed
  show "n \<le> n * (359 * 240 + k * 2) sdiv (361 * 240)" if "240 \<le> k"
  proof -
    have "n * (361 * 240) \<le> n * (359 * 240 + k * 2)" using that assms by (intro mult_left_mono) simp_all
    then have "n * (361 * 240) div (361 * 240) \<le> n * (359 * 240 + k * 2) div (361 * 240)" by (rule zdiv_mono1) simp
    then show ?thesis by (simp only: sd self)
  qed
qed

lemma retarget_direction:
  assumes "0 < n" "n \<le> limit"
  shows "k < 0 \<or> k = 240 \<Longrightarrow> retarget limit n k = n" "240 \<le> k \<Longrightarrow> n \<le> retarget limit n k"
    "0 \<le> k \<Longrightarrow> k \<le> 240 \<Longrightarrow> 0 < n * (359 * 240 + k * 2) sdiv (361 * 240) \<Longrightarrow> retarget limit n k \<le> n"
proof -
  have eq: "n * (359 * 240 + 240 * 2) sdiv (361 * 240) = n"
    using retarget_mono [OF assms(1), of 240] by simp
  then show "k < 0 \<or> k = 240 \<Longrightarrow> retarget limit n k = n"
    using assms by (auto simp: retarget_def Let_def)
  show "240 \<le> k \<Longrightarrow> n \<le> retarget limit n k"
    using retarget_mono(2) [OF assms(1), of k] assms by (auto simp: retarget_def Let_def)
  show "0 \<le> k \<Longrightarrow> k \<le> 240 \<Longrightarrow> 0 < n * (359 * 240 + k * 2) sdiv (361 * 240) \<Longrightarrow> retarget limit n k \<le> n"
    using retarget_mono(1) [OF assms(1), of k] assms by (auto simp: retarget_def Let_def)
qed


text \<open>
  The retargeting is an exponential moving average around the target spacing: two blocks of the
  kind that came exactly \<open>TARGET_SPACING\<close> apart, or with decreasing times, leave the target as it is;
  faster ones do not raise it (unless the average truncates to 0, which asks for the easiest target)
  and slower ones do not lower it, before the compact form rounds down.
\<close>

theorem GetNextTargetRequired_direction:
  assumes "last_two c b = Some (p, p')" "0 < CBigNum_SetCompact L (bi_nBits p)"
    "CBigNum_SetCompact L (bi_nBits p) \<le> target_limit b"
  shows "\<exists>n. GetNextTargetRequired L c b = Some (CBigNum_GetCompact L n) \<and> n \<le> target_limit b
    \<and> (let spacing = GetBlockTime p - GetBlockTime p'; old = CBigNum_SetCompact L (bi_nBits p) in
        (spacing < 0 \<or> spacing = TARGET_SPACING \<longrightarrow> n = old) \<and>
        (TARGET_SPACING \<le> spacing \<longrightarrow> old \<le> n) \<and>
        (0 \<le> spacing \<and> spacing \<le> TARGET_SPACING \<and> 2 \<le> old \<longrightarrow> n \<le> old))"
proof -
  let ?k = "GetBlockTime p - GetBlockTime p'" and ?old = "CBigNum_SetCompact L (bi_nBits p)"
  have "c \<noteq> []" using assms(1) by (auto simp: last_two_def)
  then have eq: "GetNextTargetRequired L c b = Some (CBigNum_GetCompact L (retarget (target_limit b) ?old ?k))"
    by (simp add: GetNextTargetRequired_eq assms(1))
  have "0 < ?old * (359 * 240 + ?k * 2) sdiv (361 * 240)" if "0 \<le> ?k" "2 \<le> ?old"
  proof -
    have "2 * (359 * 240) \<le> ?old * (359 * 240 + ?k * 2)" using that by (intro mult_mono) simp_all
    then have "2 * (359 * 240) div (361 * 240) \<le> ?old * (359 * 240 + ?k * 2) div (361 * 240)" by (rule zdiv_mono1) simp
    then show ?thesis using that by (simp add: signed_divide_int_def sgn_if)
  qed
  then show ?thesis
    unfolding eq Let_def TARGET_SPACING_def
    using retarget_direction [OF assms(2,3), of ?k] retarget_range [OF target_limit_range(1)]
    by (intro exI [of _ "retarget (target_limit b) ?old ?k"]) auto
qed

subsection \<open>Trust\<close>

lemma GetBlockTrust_value:
  assumes "bn_lib_ok L"
  shows "uint (GetBlockTrust L p) =
    (let t = CBigNum_SetCompact L (bi_nBits p) in if t \<le> 0 then 0 else 2 ^ 256 div (t + 1))"
proof (cases "CBigNum_SetCompact L (bi_nBits p) \<le> 0")
  case True
  then show ?thesis by (simp add: GetBlockTrust_def Let_def)
next
  case False
  let ?t = "CBigNum_SetCompact L (bi_nBits p)"
  have q: "(2 ^ 256 :: int) sdiv (?t + 1) = 2 ^ 256 div (?t + 1)" using False by (simp add: signed_divide_int_def sgn_if)
  have "2 ^ 256 div (?t + 1) \<le> 2 ^ 256 div 2" using False by (intro zdiv_mono2) simp_all
  then have "2 ^ 256 div (?t + 1) < (2 ^ 256 :: int)" by simp
  moreover have "0 \<le> (2 ^ 256 :: int) div (?t + 1)" using False by (simp add: pos_imp_zdiv_nonneg_iff)
  ultimately show ?thesis using False
    by (simp add: GetBlockTrust_def Let_def CBigNum_div_def CBigNum_shl_def q getuint_value [OF assms]
        uint_word_of_int del: power_numeral)
qed

lemma retarget_sample:
  "last_two [CBlockIndex_new\<lparr>bi_nTime := 1500, bi_nBits := 0x03123456\<rparr>, CBlockIndex_new\<lparr>bi_nTime := 1000\<rparr>, CBlockIndex_new] False =
     Some (CBlockIndex_new\<lparr>bi_nTime := 1500, bi_nBits := 0x03123456\<rparr>, CBlockIndex_new\<lparr>bi_nTime := 1000\<rparr>)"
  "CBigNum_SetCompact ref_lib 0x03123456 = 0x123456"
proof -
  show "last_two [CBlockIndex_new\<lparr>bi_nTime := 1500, bi_nBits := 0x03123456\<rparr>, CBlockIndex_new\<lparr>bi_nTime := 1000\<rparr>, CBlockIndex_new] False =
     Some (CBlockIndex_new\<lparr>bi_nTime := 1500, bi_nBits := 0x03123456\<rparr>, CBlockIndex_new\<lparr>bi_nTime := 1000\<rparr>)"
    by (simp add: last_two_def IsProofOfStake_def CBlockIndex_new_def)
  have "WriteBE32 0x03123456 = [of_nat 3, 0x12, 0x34, 0x56]" by (simp add: WriteBE32_def)
  then have "CBigNum_SetCompact ref_lib 0x03123456 = BN_mpi2bn ref_lib (mpi_size 3 @ take 3 ([0x12, 0x34, 0x56] @ replicate (3 - 3) 0))"
    by (rule SetCompact_bytes) simp
  also have "\<dots> = BN_mpi2bn ref_lib (mpi_size (length [0x12, 0x34, 0x56 :: byte]) @ [0x12, 0x34, 0x56])"
    by (simp add: eval_nat_numeral)
  also have "\<dots> = signed_value (rev [0x12, 0x34, 0x56])"
  proof -
    have "length d < 2 ^ 32 \<Longrightarrow> BN_mpi2bn ref_lib (mpi_size (length d) @ d) = signed_value (rev d)" for d
      using ref_lib_ok unfolding bn_lib_ok_def by blast
    from this [of "[0x12, 0x34, 0x56]"] show ?thesis by (simp only: list.size) simp
  qed
  finally show "CBigNum_SetCompact ref_lib 0x03123456 = 0x123456" by (simp add: signed_value_def)
qed

lemma GetNextTargetRequired_direction_witness:
  "\<exists>n. GetNextTargetRequired ref_lib [CBlockIndex_new\<lparr>bi_nTime := 1500, bi_nBits := 0x03123456\<rparr>,
         CBlockIndex_new\<lparr>bi_nTime := 1000\<rparr>, CBlockIndex_new] False = Some (CBigNum_GetCompact ref_lib n)
     \<and> 0x123456 \<le> n"
  using GetNextTargetRequired_direction [OF retarget_sample(1), of ref_lib]
  by (auto simp: retarget_sample(2) target_limit_def limit_values GetBlockTime_def TARGET_SPACING_def Let_def)

text \<open>
  The trust of a block is the number of hashes its target asks for, \<open>2 ^ 256\<close> divided by the target
  plus one: 0 for an invalid target, and never more for an easier target.
\<close>

theorem GetBlockTrust_antitone:
  assumes "bn_lib_ok L"
  shows "uint (GetBlockTrust L p) =
      (let t = CBigNum_SetCompact L (bi_nBits p) in if t \<le> 0 then 0 else 2 ^ 256 div (t + 1))
    \<and> (0 < CBigNum_SetCompact L (bi_nBits p) \<and> CBigNum_SetCompact L (bi_nBits p) \<le> CBigNum_SetCompact L (bi_nBits q)
        \<longrightarrow> GetBlockTrust L q \<le> GetBlockTrust L p)"
proof -
  have "GetBlockTrust L q \<le> GetBlockTrust L p"
    if "0 < CBigNum_SetCompact L (bi_nBits p)" "CBigNum_SetCompact L (bi_nBits p) \<le> CBigNum_SetCompact L (bi_nBits q)"
    using that unfolding word_le_def GetBlockTrust_value [OF assms] Let_def by (simp add: zdiv_mono2 del: power_numeral)
  then show ?thesis using GetBlockTrust_value [OF assms] by blast
qed

lemma GetBlockTrust_antitone_witness: "uint (GetBlockTrust ref_lib (CBlockIndex_new\<lparr>bi_nBits := 0x03123456\<rparr>)) = 2 ^ 256 div 0x123457"
proof -
  have b: "CBigNum_SetCompact ref_lib (bi_nBits (CBlockIndex_new\<lparr>bi_nBits := 0x03123456\<rparr>)) = 0x123456"
    using retarget_sample(2) by simp
  have "(0x123456 :: int) \<le> 0 \<longleftrightarrow> False" "(0x123456 :: int) + 1 = 0x123457" by simp_all
  then show ?thesis
    using GetBlockTrust_antitone [OF ref_lib_ok, of "CBlockIndex_new\<lparr>bi_nBits := 0x03123456\<rparr>"]
    unfolding b Let_def by (simp only: if_False)
qed

subsection \<open>Median time\<close>

lemma sorted_middle_counts:
  assumes "sorted (A @ m # B)"
  shows "length (filter (\<lambda>x. x > m) (A @ m # B)) \<le> length B" "length (filter (\<lambda>x. x < m) (A @ m # B)) \<le> length A"
proof -
  have "filter (\<lambda>x. x > m) A = []" "filter (\<lambda>x. x < m) B = []"
    using assms by (force simp: filter_empty_conv sorted_append)+
  then show "length (filter (\<lambda>x. x > m) (A @ m # B)) \<le> length B" "length (filter (\<lambda>x. x < m) (A @ m # B)) \<le> length A"
    by simp_all
qed

text \<open>At most half of the last eleven times are above the median, and at most half are below.\<close>

lemma GetMedianTimePast_half:
  assumes "c \<noteq> []"
  defines "t \<equiv> map GetBlockTime (take nMedianTimeSpan c)"
  shows "GetMedianTimePast c \<in> set t" "2 * length (filter (\<lambda>x. x > GetMedianTimePast c) t) \<le> length t"
    "2 * length (filter (\<lambda>x. x < GetMedianTimePast c) t) \<le> length t"
proof -
  define s where "s = sort (rev t)"
  define k where "k = length t div 2"
  have "t \<noteq> []" using assms by (simp add: t_def nMedianTimeSpan_def)
  then have k: "k < length s" by (simp add: k_def s_def)
  have m: "GetMedianTimePast c = s ! k" by (simp add: GetMedianTimePast_def t_def k_def s_def Let_def)
  have "set s = set t" by (simp add: s_def)
  then show "GetMedianTimePast c \<in> set t" using nth_mem [OF k] m by simp
  have split: "s = take k s @ s ! k # drop (Suc k) s" by (rule id_take_nth_drop [OF k])
  have "sorted s" by (simp add: s_def)
  then have srt: "sorted (take k s @ s ! k # drop (Suc k) s)" using split by argo
  have len: "length (take k s) = k" "length (drop (Suc k) s) = length t - Suc k" using k by (simp_all add: s_def)
  have cnt: "length (filter P t) = length (filter P (take k s @ s ! k # drop (Suc k) s))" for P
    unfolding split [symmetric] by (simp add: s_def filter_sort rev_filter [symmetric])
  show "2 * length (filter (\<lambda>x. x > GetMedianTimePast c) t) \<le> length t"
    "2 * length (filter (\<lambda>x. x < GetMedianTimePast c) t) \<le> length t"
    using sorted_middle_counts [OF srt] unfolding m cnt len by (simp_all only: k_def) linarith+
qed

subsection \<open>Locators find the fork\<close>

lemma drop_step: "0 < s \<Longrightarrow> drop (s - 1) c = drop s (p # c)"
  by (cases s) simp_all

lemma locator_finds:
  assumes "d < length c" "\<And>i. i < length c \<Longrightarrow> look (bi_hash (c ! i)) = (if d \<le> i then Some (drop i c) else None)"
    and "look g = Some (drop (length c - 1) c)"
  shows "n \<le> p \<Longrightarrow> 0 < s \<Longrightarrow> s = 1 \<or> s \<le> p \<Longrightarrow> p \<le> 2 * d \<Longrightarrow>
    \<exists>e. locator_GetBlockIndex look G (locator_loop n s (drop p c) @ [g]) = drop e c \<and> d \<le> e \<and> e \<le> 2 * d \<and> e < length c"
proof (induction n s "drop p c" arbitrary: p rule: locator_loop.induct)
  case (1 n s)
  have "length c \<le> p" using 1(1) drop_eq_Nil [of p c] by simp
  then have "length c - 1 \<le> 2 * d" "d \<le> length c - 1" using assms(1) 1(5) by linarith+
  then show ?case unfolding 1(1) [symmetric] using assms by (intro exI [of _ "length c - 1"]) auto
next
  case (2 n s q c1)
  have p: "p < length c" using 2(2) by (metis drop_all list.distinct(1) not_less)
  have q: "q = c ! p" using 2(2) p by (metis Cons_nth_drop_Suc list.inject)
  show ?case
  proof (cases "d \<le> p")
    case True
    then show ?thesis unfolding 2(2) [symmetric] using assms(2) [OF p] 2(6) p by (auto simp: q)
  next
    case False
    have next_chain: "drop (s - 1) c1 = drop (p + s) c"
      unfolding drop_step [OF 2(4), of c1 q] using 2(2) by (simp add: add.commute)
    have "n + 1 \<le> p + s" "0 < (if n + 1 > 10 then s * 2 else s)" "p + s \<le> 2 * d"
      "(if n + 1 > 10 then s * 2 else s) = 1 \<or> (if n + 1 > 10 then s * 2 else s) \<le> p + s"
      using 2(3-6) False by auto
    from 2(1) [OF next_chain this(1,2,4,3)]
    obtain e where e: "locator_GetBlockIndex look G
        (locator_loop (n + 1) (if n + 1 > 10 then s * 2 else s) (drop (s - 1) c1) @ [g]) = drop e c"
      "d \<le> e" "e \<le> 2 * d" "e < length c" by (auto simp only: next_chain)
    have "look (bi_hash q) = None" using assms(2) [OF p] False q by simp
    then have "locator_GetBlockIndex look G (locator_loop n s (q # c1) @ [g]) = drop e c"
      by (simp only: locator_loop.simps append_Cons locator_GetBlockIndex.simps option.case e(1))
    then show ?thesis unfolding 2(2) [symmetric] using e(2-4) by blast
  qed
qed

lemma locator_loop_length:
  "10 < n \<Longrightarrow> 0 < s \<Longrightarrow> length c \<le> s * (2 ^ j - 1) \<Longrightarrow> length (locator_loop n s c) \<le> j"
proof (induction n s c arbitrary: j rule: locator_loop.induct)
  case (2 n s p c)
  then obtain k where k: "j = Suc k" by (cases j) auto
  have "s * (2 ^ j - 1) = s + (s * 2) * (2 ^ k - 1)"
    by (cases "(2 :: nat) ^ k") (simp_all add: k algebra_simps)
  then have "length (drop (s - 1) c) \<le> s * 2 * (2 ^ k - 1)" using 2(4) \<open>0 < s\<close> by simp
  then have "length (locator_loop (n + 1) (s * 2) (drop (s - 1) c)) \<le> k" using 2(1) [of k] \<open>10 < n\<close> \<open>0 < s\<close> by simp
  then show ?case using \<open>10 < n\<close> k by simp
qed simp

lemma locator_start_length:
  "k \<le> 10 \<Longrightarrow> length c \<le> (11 - k) + 2 * (2 ^ j - 1) \<Longrightarrow> length (locator_loop k 1 c) \<le> (11 - k) + j"
proof (induction k "1 :: nat" c rule: locator_loop.induct)
  case (2 k p c)
  show ?case
  proof (cases "k = 10")
    case True
    then have "length (locator_loop 11 2 c) \<le> j" using locator_loop_length [of 11 2 c j] 2(3) by simp
    then show ?thesis by (simp add: True)
  next
    case False
    then have "length (locator_loop (Suc k) 1 c) \<le> 11 - Suc k + j" using 2 by simp
    then show ?thesis using False 2(2) by simp
  qed
qed simp

text \<open>
  C40. A locator leads the node that receives it to the fork: when it shares the chain of the sender
  from depth \<open>d\<close> on, \<open>GetBlockIndex\<close> gives a shared block at depth at most \<open>2 * d\<close>; and the locator is
  short, at most \<open>12 + j\<close> hashes for \<open>9 + 2 ^ (j + 1)\<close> blocks.
\<close>

theorem CBlockLocator_finds_fork:
  assumes "d < length c"
    and "\<And>i. i < length c \<Longrightarrow> find_main mapBlockIndex IsInMainChain (bi_hash (c ! i)) = (if d \<le> i then Some (drop i c) else None)"
    and "hashGenesisBlock = bi_hash (last c)"
  shows "(\<exists>e. locator_GetBlockIndex (find_main mapBlockIndex IsInMainChain) G (CBlockLocator_Set hashGenesisBlock c) = drop e c
      \<and> d \<le> e \<and> e \<le> 2 * d \<and> e < length c)
    \<and> (\<forall>j. length c \<le> 9 + 2 ^ (j + 1) \<longrightarrow> length (CBlockLocator_Set hashGenesisBlock c) \<le> 12 + j)"
proof
  have "c \<noteq> []" using assms(1) by auto
  then have "find_main mapBlockIndex IsInMainChain hashGenesisBlock = Some (drop (length c - 1) c)"
    using assms(2) [of "length c - 1"] assms(1) by (simp add: assms(3) last_conv_nth)
  from locator_finds [OF assms(1,2) this, of 0 0 1 G]
  show "\<exists>e. locator_GetBlockIndex (find_main mapBlockIndex IsInMainChain) G (CBlockLocator_Set hashGenesisBlock c) = drop e c
      \<and> d \<le> e \<and> e \<le> 2 * d \<and> e < length c" by (simp add: CBlockLocator_Set_def)
  show "\<forall>j. length c \<le> 9 + 2 ^ (j + 1) \<longrightarrow> length (CBlockLocator_Set hashGenesisBlock c) \<le> 12 + j"
  proof (intro allI impI)
    fix j :: nat
    assume "length c \<le> 9 + 2 ^ (j + 1)"
    moreover have "(2 :: nat) * (2 ^ j - 1) = 2 ^ (j + 1) - 2" "(2 :: nat) ^ (j + 1) \<ge> 2" by (simp_all add: diff_mult_distrib2)
    ultimately show "length (CBlockLocator_Set hashGenesisBlock c) \<le> 12 + j"
      using locator_start_length [of 0 c j] by (simp add: CBlockLocator_Set_def)
  qed
qed

definition numbered :: "nat \<Rightarrow> CBlockIndex" where
  "numbered n = CBlockIndex_new\<lparr>bi_hash := of_nat n, nHeight := int n\<rparr>"

lemma CBlockLocator_finds_fork_witness:
  "\<exists>e. locator_GetBlockIndex (find_main (\<lambda>h. if h = 1 then Some [numbered 1] else None) (\<lambda>_. True)) []
      (CBlockLocator_Set 1 [numbered 2, numbered 1]) = drop e [numbered 2, numbered 1] \<and> 1 \<le> e \<and> e \<le> 2 * 1 \<and> e < length [numbered 2, numbered 1]"
proof -
  have "find_main (\<lambda>h. if h = 1 then Some [numbered 1] else None) (\<lambda>_. True) (bi_hash ([numbered 2, numbered 1] ! i)) =
      (if 1 \<le> i then Some (drop i [numbered 2, numbered 1]) else None)" if "i < length [numbered 2, numbered 1]" for i
  proof -
    from that have "i = 0 \<or> i = 1" by auto
    then show ?thesis by (auto simp: find_main_def numbered_def)
  qed
  moreover have "(1 :: nat) < length [numbered 2, numbered 1]" "1 = bi_hash (last [numbered 2, numbered 1])"
    by (simp_all add: numbered_def)
  ultimately show ?thesis
    using CBlockLocator_finds_fork [of 1 "[numbered 2, numbered 1]" "\<lambda>h. if h = 1 then Some [numbered 1] else None" "\<lambda>_. True" 1 "[]"]
    by blast
qed

end
