(* ===== verification/Connect.thy ===== *)
theory Connect imports Mempool Chain_Index Script_Consensus Script_Solve begin

text \<open>
  How the inputs of a transaction are fetched and connected (\<open>src/src/main.cpp\<close>: \<open>FetchInputs\<close>,
  \<open>GetOutputFor\<close>, \<open>GetValueIn\<close>, \<open>ConnectInputs\<close>, \<open>DisconnectInputs\<close>, \<open>AreInputsStandard\<close>,
  \<open>GetP2SHSigOpCount\<close>). The transaction database is a map from hashes to index entries. Clocks and
  \<open>IsInitialBlockDownload\<close>, which the code asks once per input, are functions of the number of the input.
  An exception, a failed \<open>assert\<close>, an access outside a vector and a sum of \<open>GetValueIn\<close> beyond 64 bits are the
  errors of \<open>connect_error\<close>.
  Comments in the source call many of the checks below ignored for now; the theorems say what is left.
\<close>

unbundle bit_operations_syntax

subsection \<open>The index of transactions\<close>

record CDiskTxPos =
  tp_nFile :: u32
  tp_nBlockPos :: u32
  tp_nTxPos :: u32

record CTxIndex =
  ti_pos :: CDiskTxPos
  vSpent :: "CDiskTxPos list"

definition CDiskTxPos_SetNull :: CDiskTxPos where
  "CDiskTxPos_SetNull = \<lparr>tp_nFile = -1, tp_nBlockPos = 0, tp_nTxPos = 0\<rparr>"

definition CDiskTxPos_IsNull :: "CDiskTxPos \<Rightarrow> bool" where
  "CDiskTxPos_IsNull p \<longleftrightarrow> tp_nFile p = -1"

definition CTxIndex_SetNull :: CTxIndex where
  "CTxIndex_SetNull = \<lparr>ti_pos = CDiskTxPos_SetNull, vSpent = []\<rparr>"

definition CTxIndex_new :: "CDiskTxPos \<Rightarrow> nat \<Rightarrow> CTxIndex" where
  "CTxIndex_new posIn nOutputs = \<lparr>ti_pos = posIn, vSpent = replicate nOutputs CDiskTxPos_SetNull\<rparr>"

definition CTxIndex_IsNull :: "CTxIndex \<Rightarrow> bool" where
  "CTxIndex_IsNull t \<longleftrightarrow> CDiskTxPos_IsNull (ti_pos t)"

type_synonym tx_db = "uint256 \<Rightarrow> CTxIndex option"

definition ReadTxIndex :: "tx_db \<Rightarrow> uint256 \<Rightarrow> bool \<times> CTxIndex" where
  "ReadTxIndex txdb h = (case txdb h of None \<Rightarrow> (False, CTxIndex_SetNull) | Some t \<Rightarrow> (True, t))"

definition UpdateTxIndex :: "uint256 \<Rightarrow> CTxIndex \<Rightarrow> tx_db \<Rightarrow> tx_db" where
  "UpdateTxIndex h t txdb = txdb(h \<mapsto> t)"

definition AddTxIndex :: "(CTransaction \<Rightarrow> uint256) \<Rightarrow> CTransaction \<Rightarrow> CDiskTxPos \<Rightarrow> tx_db \<Rightarrow> tx_db" where
  "AddTxIndex GetHash tx p txdb = txdb(GetHash tx \<mapsto> CTxIndex_new p (length (vout tx)))"

definition EraseTxIndex :: "(CTransaction \<Rightarrow> uint256) \<Rightarrow> CTransaction \<Rightarrow> tx_db \<Rightarrow> tx_db" where
  "EraseTxIndex GetHash tx txdb = txdb(GetHash tx := None)"

definition ContainsTx :: "tx_db \<Rightarrow> uint256 \<Rightarrow> bool" where
  "ContainsTx txdb h \<longleftrightarrow> txdb h \<noteq> None"

subsection \<open>Fetching\<close>

type_synonym MapPrevTx = "uint256 \<Rightarrow> (CTxIndex \<times> CTransaction) option"

definition mempool_pos :: CDiskTxPos where
  "mempool_pos = \<lparr>tp_nFile = 1, tp_nBlockPos = 1, tp_nTxPos = 1\<rparr>"

definition resize_spent :: "nat \<Rightarrow> CTxIndex \<Rightarrow> CTxIndex" where
  "resize_spent n t = t\<lparr>vSpent := take n (vSpent t) @ replicate (n - length (vSpent t)) CDiskTxPos_SetNull\<rparr>"

text \<open>
  One turn of the first loop: a fresh entry holds an empty transaction of the present time \<open>now\<close>, and
  what is on disk is not read into it. \<open>None\<close> is the exit with \<open>false\<close>, whose map is not used again.
\<close>

definition fetch_input :: "tx_db \<Rightarrow> CTxMemPool \<Rightarrow> bool \<Rightarrow> bool \<Rightarrow> u32 \<Rightarrow> CTxIn \<Rightarrow> MapPrevTx \<Rightarrow> MapPrevTx option" where
  "fetch_input txdb pool fBlock fMiner now txin inputsRet =
     (let h = op_hash (prevout txin);
          txPrev = (case inputsRet h of None \<Rightarrow> CTransaction_SetNull now | Some e \<Rightarrow> snd e);
          (fFound, txindex) = ReadTxIndex txdb h;
          inputsRet = inputsRet(h \<mapsto> (txindex, txPrev))
      in if \<not> fFound \<and> (fBlock \<or> fMiner) then Some inputsRet
         else if \<not> fFound \<or> ti_pos txindex = mempool_pos then
           (case pool_lookup pool h txPrev of
              (False, txPrev) \<Rightarrow> None
            | (True, txPrev) \<Rightarrow>
                Some (inputsRet(h \<mapsto> (if \<not> fFound then resize_spent (length (vout txPrev)) txindex else txindex, txPrev))))
         else Some inputsRet)"

fun fetch_loop :: "tx_db \<Rightarrow> CTxMemPool \<Rightarrow> bool \<Rightarrow> bool \<Rightarrow> (nat \<Rightarrow> u32) \<Rightarrow> nat \<Rightarrow> CTxIn list \<Rightarrow> MapPrevTx \<Rightarrow> MapPrevTx option" where
  "fetch_loop txdb pool fBlock fMiner now i [] inputsRet = Some inputsRet"
| "fetch_loop txdb pool fBlock fMiner now i (txin # ins) inputsRet =
     (case fetch_input txdb pool fBlock fMiner (now i) txin inputsRet of
        None \<Rightarrow> None
      | Some inputsRet \<Rightarrow> fetch_loop txdb pool fBlock fMiner now (i + 1) ins inputsRet)"

text \<open>The second loop reads every index entry from disk once more and sets \<open>fInvalid\<close>, but goes on.\<close>

fun recheck_loop :: "tx_db \<Rightarrow> CTransaction \<Rightarrow> CTxIn list \<Rightarrow> MapPrevTx \<times> bool \<Rightarrow> MapPrevTx \<times> bool" where
  "recheck_loop txdb tx [] (inputsRet, fInvalid) = (inputsRet, fInvalid)"
| "recheck_loop txdb tx (txin # ins) (inputsRet, fInvalid) =
     (let h = op_hash (prevout txin); n = unat (op_n (prevout txin));
          txPrev = (case inputsRet h of None \<Rightarrow> CTransaction_SetNull 0 | Some e \<Rightarrow> snd e);
          txindex = snd (ReadTxIndex txdb h)
      in recheck_loop txdb tx ins (inputsRet(h \<mapsto> (txindex, txPrev)),
           if n > length (vout tx) \<or> n \<ge> length (vSpent txindex) then True else fInvalid))"

text \<open>The answer, the map of previous transactions and \<open>fInvalid\<close>.\<close>

definition FetchInputs ::
  "tx_db \<Rightarrow> CTxMemPool \<Rightarrow> bool \<Rightarrow> bool \<Rightarrow> (nat \<Rightarrow> u32) \<Rightarrow> CTransaction \<Rightarrow> MapPrevTx \<Rightarrow> bool \<times> MapPrevTx \<times> bool" where
  "FetchInputs txdb pool fBlock fMiner now tx inputsRet =
     (if IsCoinBase tx then (True, inputsRet, False)
      else case fetch_loop txdb pool fBlock fMiner now 0 (vin tx) inputsRet of
             None \<Rightarrow> (False, inputsRet, False)
           | Some inputsRet \<Rightarrow> (True, recheck_loop txdb tx (vin tx) (inputsRet, False)))"

datatype connect_error = Thrown | AssertFailed | OutOfRange | Overflow

subsection \<open>Outputs and values\<close>

text \<open>
  \<open>GetOutputFor\<close> looks into the transaction itself, not into the previous one; its reference to a local
  variable, for a transaction without inputs or outputs, is \<open>OutOfRange\<close> as well. It also touches
  \<open>inputs[prevout.hash]\<close>, which is there after \<open>FetchInputs\<close>.
\<close>

definition GetOutputFor :: "CTransaction \<Rightarrow> CTxIn \<Rightarrow> MapPrevTx \<Rightarrow> connect_error + CTxOut" where
  "GetOutputFor tx input inputs =
     (let n = unat (op_n (prevout input)) in
      if vin tx = [] \<or> vout tx = [] then Inl OutOfRange
      else if n = length (vout tx) then Inr (vout tx ! 0)
      else if n < length (vout tx) then Inr (vout tx ! n)
      else Inl OutOfRange)"

definition GetOutputFor_Other :: "CTransaction \<Rightarrow> CTxIn \<Rightarrow> MapPrevTx \<Rightarrow> connect_error + int" where
  "GetOutputFor_Other tx input inputs =
     (case inputs (op_hash (prevout input)) of
        None \<Rightarrow> Inr 0
      | Some (txindex, txPrev) \<Rightarrow>
          if vin txPrev = [] \<or> vout txPrev = [] then Inr 0
          else if vin tx = [] \<or> vout tx = [] then Inr 0
          else let n = unat (op_n (prevout input)) in
            if n < length (vout txPrev) then Inr (nValue (vout txPrev ! n)) else Inl OutOfRange)"

fun value_in_loop :: "CTransaction \<Rightarrow> MapPrevTx \<Rightarrow> int \<Rightarrow> CTxIn list \<Rightarrow> connect_error + int" where
  "value_in_loop tx inputs nResult [] = Inr nResult"
| "value_in_loop tx inputs nResult (txin # ins) =
     (case GetOutputFor_Other tx txin inputs of
        Inl e \<Rightarrow> Inl e
      | Inr v \<Rightarrow> if int64 (nResult + v) then value_in_loop tx inputs (nResult + v) ins else Inl Overflow)"

definition GetValueIn :: "CTransaction \<Rightarrow> MapPrevTx \<Rightarrow> connect_error + int" where
  "GetValueIn tx inputs = (if IsCoinBase tx then Inr 0 else value_in_loop tx inputs 0 (vin tx))"

fun p2sh_sigops_loop :: "CTransaction \<Rightarrow> MapPrevTx \<Rightarrow> nat \<Rightarrow> CTxIn list \<Rightarrow> connect_error + nat" where
  "p2sh_sigops_loop tx inputs nSigOps [] = Inr nSigOps"
| "p2sh_sigops_loop tx inputs nSigOps (txin # ins) =
     (case GetOutputFor tx txin inputs of
        Inl e \<Rightarrow> Inl e
      | Inr out \<Rightarrow> p2sh_sigops_loop tx inputs
          (if IsPayToScriptHash (scriptPubKey out)
           then nSigOps + GetSigOpCount_P2SH (scriptPubKey out) (scriptSig txin) else nSigOps) ins)"

definition GetP2SHSigOpCount :: "CTransaction \<Rightarrow> MapPrevTx \<Rightarrow> connect_error + nat" where
  "GetP2SHSigOpCount tx inputs = (if IsCoinBase tx then Inr 0 else p2sh_sigops_loop tx inputs 0 (vin tx))"

subsection \<open>Standard inputs\<close>

definition MAX_P2SH_SIGOPS :: nat where "MAX_P2SH_SIGOPS = 15"

text \<open>
  One turn of the loop over the inputs: \<open>None\<close> goes on, \<open>Some b\<close> returns \<open>b\<close>. \<open>E\<close> is the environment of the
  script evaluation.
\<close>

definition input_standard ::
  "tx_env \<Rightarrow> CTransaction \<Rightarrow> nat \<Rightarrow> CTxOut \<Rightarrow> sig_cache \<Rightarrow> bool option \<times> sig_cache" where
  "input_standard E tx i prev cache =
     (case Solver (scriptPubKey prev) of (ok, whichType, vSolutions) \<Rightarrow>
        if \<not> ok then (Some False, cache)
        else let nArgsExpected = ScriptSigArgsExpected whichType vSolutions in
        if nArgsExpected < 0 then (Some False, cache)
        else case EvalScript_v1 (E\<lparr>te_flags := SCRIPT_VERIFY_NONE, te_txTo := tx, te_nIn := i, te_nHashType := 0\<rparr>) []
                    (scriptSig (vin tx ! i)) cache of
          (False, stk, cache) \<Rightarrow> (Some False, cache)
        | (True, stk, cache) \<Rightarrow>
            if whichType = TX_SCRIPTHASH then
              (case stk of
                 [] \<Rightarrow> (Some False, cache)
               | subscript # _ \<Rightarrow>
                   (case Solver subscript of (ok2, whichType2, vSolutions2) \<Rightarrow>
                      if ok2 then
                        let tmpExpected = ScriptSigArgsExpected whichType2 vSolutions2 in
                        if whichType2 = TX_SCRIPTHASH then (Some False, cache)
                        else if tmpExpected < 0 then (Some False, cache)
                        else (if int (length stk) \<noteq> nArgsExpected + tmpExpected then Some False else None, cache)
                      else (Some (GetSigOpCount True subscript \<le> MAX_P2SH_SIGOPS), cache)))
            else (if int (length stk) \<noteq> nArgsExpected then Some False else None, cache))"

fun standard_loop ::
  "tx_env \<Rightarrow> CTransaction \<Rightarrow> MapPrevTx \<Rightarrow> nat list \<Rightarrow> sig_cache \<Rightarrow> (connect_error + bool) \<times> sig_cache" where
  "standard_loop E tx mapInputs [] cache = (Inr True, cache)"
| "standard_loop E tx mapInputs (i # is) cache =
     (case GetOutputFor tx (vin tx ! i) mapInputs of
        Inl e \<Rightarrow> (Inl e, cache)
      | Inr prev \<Rightarrow>
          (case input_standard E tx i prev cache of
             (Some b, cache) \<Rightarrow> (Inr b, cache)
           | (None, cache) \<Rightarrow> standard_loop E tx mapInputs is cache))"

definition AreInputsStandard :: "tx_env \<Rightarrow> CTransaction \<Rightarrow> MapPrevTx \<Rightarrow> sig_cache \<Rightarrow> (connect_error + bool) \<times> sig_cache" where
  "AreInputsStandard E tx mapInputs cache =
     (if IsCoinBase tx then (Inr True, cache) else standard_loop E tx mapInputs [0..<length (vin tx)] cache)"

subsection \<open>Connecting\<close>

definition nCoinbaseMaturity :: int where "nCoinbaseMaturity = 70"

text \<open>The depth at which the transaction was found, within \<open>nMaxDepth\<close> blocks.\<close>

fun confirmed_loop :: "CTxIndex \<Rightarrow> int \<Rightarrow> int \<Rightarrow> chain \<Rightarrow> int option" where
  "confirmed_loop txindex from_height nMaxDepth [] = None"
| "confirmed_loop txindex from_height nMaxDepth (p # c) =
     (if from_height - nHeight p < nMaxDepth then
        if bi_nBlockPos p = tp_nBlockPos (ti_pos txindex) \<and> bi_nFile p = tp_nFile (ti_pos txindex)
        then Some (from_height - nHeight p)
        else confirmed_loop txindex from_height nMaxDepth c
      else None)"

definition IsConfirmedInNPrevBlocks :: "CTxIndex \<Rightarrow> chain \<Rightarrow> int \<Rightarrow> int option" where
  "IsConfirmedInNPrevBlocks txindex pindexFrom nMaxDepth =
     (case pindexFrom of [] \<Rightarrow> None | p # _ \<Rightarrow> confirmed_loop txindex (nHeight p) nMaxDepth pindexFrom)"

text \<open>
  The first loop of \<open>ConnectInputs\<close>; \<open>False\<close> is its only exit. The sum of the input values, after a
  \<open>continue\<close> in both branches, is never computed and stays 0.
\<close>

fun mature_loop :: "CTransaction \<Rightarrow> MapPrevTx \<Rightarrow> chain \<Rightarrow> CTxIn list \<Rightarrow> bool" where
  "mature_loop tx inputs pindexBlock [] = True"
| "mature_loop tx inputs pindexBlock (txin # ins) =
     (case inputs (op_hash (prevout txin)) of
        None \<Rightarrow> mature_loop tx inputs pindexBlock ins
      | Some (txindex, txPrev) \<Rightarrow>
          if nTime txPrev > nTime tx then mature_loop tx inputs pindexBlock ins
          else if (IsCoinBase txPrev \<or> IsCoinStake txPrev)
                  \<and> IsConfirmedInNPrevBlocks txindex pindexBlock nCoinbaseMaturity \<noteq> None then False
          else mature_loop tx inputs pindexBlock ins)"

definition verify_input ::
  "tx_env \<Rightarrow> CTransaction \<Rightarrow> nat \<Rightarrow> CTransaction \<Rightarrow> verify_flags \<Rightarrow> sig_cache \<Rightarrow> bool option \<times> sig_cache" where
  "verify_input E tx i txPrev flags cache =
     VerifySignature (E\<lparr>te_flags := flags, te_txTo := tx, te_nIn := i, te_nHashType := 0\<rparr>) txPrev cache"

text \<open>The signature checks of one input: whether the transaction is rejected for it.\<close>

definition signature_rejects ::
  "tx_env \<Rightarrow> CTransaction \<Rightarrow> nat \<Rightarrow> CTransaction \<Rightarrow> verify_flags \<Rightarrow> sig_cache \<Rightarrow> (connect_error + bool) \<times> sig_cache" where
  "signature_rejects E tx i txPrev flags cache =
     (case verify_input E tx i txPrev flags cache of
        (None, cache) \<Rightarrow> (Inl AssertFailed, cache)
      | (Some True, cache) \<Rightarrow> (Inr False, cache)
      | (Some False, cache) \<Rightarrow>
          if flags AND STANDARD_NOT_MANDATORY_VERIFY_FLAGS \<noteq> 0 then
            (case verify_input E tx i txPrev (flags AND NOT STANDARD_NOT_MANDATORY_VERIFY_FLAGS) cache of
               (None, cache) \<Rightarrow> (Inl AssertFailed, cache)
             | (Some b, cache) \<Rightarrow> (Inr b, cache))
          else (Inr False, cache))"

record connect_call =
  cc_posThisTx :: CDiskTxPos
  cc_fBlock :: bool
  cc_fMiner :: bool
  cc_flags :: verify_flags
  cc_fValidateSig :: bool
  cc_ibd :: "nat \<Rightarrow> bool"

text \<open>
  The second loop: its result is the answer of an early \<open>return\<close>, or the maps to go on with. An input whose
  previous transaction is younger than the spending one is left by a \<open>continue\<close>: it is neither verified nor
  marked nor written back.
\<close>

fun connect_loop ::
  "tx_env \<Rightarrow> connect_call \<Rightarrow> CTransaction \<Rightarrow> nat list \<Rightarrow> MapPrevTx \<Rightarrow> tx_db \<Rightarrow> sig_cache
   \<Rightarrow> (connect_error + bool \<times> tx_db) \<times> sig_cache" where
  "connect_loop E C tx [] inputs mapTestPool cache = (Inr (True, mapTestPool), cache)"
| "connect_loop E C tx (i # is) inputs mapTestPool cache =
     (let h = op_hash (prevout (vin tx ! i)); n = unat (op_n (prevout (vin tx ! i))) in
      case inputs h of
        None \<Rightarrow> (Inl AssertFailed, cache)
      | Some (txindex, txPrev) \<Rightarrow>
          if nTime txPrev > nTime tx then connect_loop E C tx is inputs mapTestPool cache
          else if n \<ge> length (vSpent txindex) then (Inl OutOfRange, cache)
          else
            case (if cc_fValidateSig C \<and> \<not> (cc_fBlock C \<and> \<not> cc_ibd C i)
                  then signature_rejects E tx i txPrev (cc_flags C) cache else (Inr False, cache)) of
              (Inl e, cache) \<Rightarrow> (Inl e, cache)
            | (Inr True, cache) \<Rightarrow> (Inr (False, mapTestPool), cache)
            | (Inr False, cache) \<Rightarrow>
                let txindex = txindex\<lparr>vSpent := (vSpent txindex)[n := cc_posThisTx C]\<rparr>
                in connect_loop E C tx is (inputs(h \<mapsto> (txindex, txPrev)))
                     (if cc_fBlock C \<or> cc_fMiner C then mapTestPool(h \<mapsto> txindex) else mapTestPool) cache)"

definition ConnectInputs ::
  "tx_env \<Rightarrow> connect_call \<Rightarrow> CTransaction \<Rightarrow> MapPrevTx \<Rightarrow> tx_db \<Rightarrow> chain \<Rightarrow> sig_cache
   \<Rightarrow> (connect_error + bool \<times> tx_db) \<times> sig_cache" where
  "ConnectInputs E C tx inputs mapTestPool pindexBlock cache =
     (if IsCoinBase tx then (Inr (True, mapTestPool), cache)
      else if \<not> mature_loop tx inputs pindexBlock (vin tx) then (Inr (False, mapTestPool), cache)
      else case connect_loop E C tx [0..<length (vin tx)] inputs mapTestPool cache of
             (Inr (True, mapTestPool), cache) \<Rightarrow>
               if \<not> IsCoinStake tx \<and> GetValueOut tx = None then (Inl Thrown, cache)
               else (Inr (True, mapTestPool), cache)
           | r \<Rightarrow> r)"

definition DisconnectInputs :: "(CTransaction \<Rightarrow> uint256) \<Rightarrow> CTransaction \<Rightarrow> tx_db \<Rightarrow> bool \<times> tx_db" where
  "DisconnectInputs GetHash tx txdb = (True, EraseTxIndex GetHash tx txdb)"

subsection \<open>Spent outputs\<close>

text \<open>The answer without the map of changes; and the maps with every output marked unspent.\<close>

fun answer :: "connect_error + bool \<times> tx_db \<Rightarrow> connect_error + bool" where
  "answer (Inl e) = Inl e"
| "answer (Inr (b, m)) = Inr b"


definition unspent :: "MapPrevTx \<Rightarrow> MapPrevTx" where
  "unspent inputs = (\<lambda>h. map_option (\<lambda>(t, tx). (t\<lparr>vSpent := replicate (length (vSpent t)) CDiskTxPos_SetNull\<rparr>, tx)) (inputs h))"

lemma unspent_eqD:
  assumes "unspent a = unspent b"
  shows "a h = None \<longleftrightarrow> b h = None"
    "a h = Some (t, x) \<Longrightarrow> \<exists>t'. b h = Some (t', x) \<and> ti_pos t' = ti_pos t \<and> length (vSpent t') = length (vSpent t)"
proof -
  have e: "unspent a h = unspent b h" using assms by simp
  then show "a h = None \<longleftrightarrow> b h = None" by (cases "a h"; cases "b h") (simp_all add: unspent_def)
  assume "a h = Some (t, x)"
  then obtain t' where t': "b h = Some (t', x)"
    "t\<lparr>vSpent := replicate (length (vSpent t)) CDiskTxPos_SetNull\<rparr> = t'\<lparr>vSpent := replicate (length (vSpent t')) CDiskTxPos_SetNull\<rparr>"
    using e by (cases "b h") (auto simp: unspent_def)
  then have "length (vSpent t) = length (vSpent t')"
    by (metis CTxIndex.ext_inject CTxIndex.surjective CTxIndex.update_convs(2) length_replicate)
  moreover have "ti_pos t = ti_pos t'"
    using t'(2) by (metis CTxIndex.ext_inject CTxIndex.surjective CTxIndex.update_convs(2))
  ultimately show "\<exists>t'. b h = Some (t', x) \<and> ti_pos t' = ti_pos t \<and> length (vSpent t') = length (vSpent t)"
    using t'(1) by simp
qed

lemma unspent_unspent: "unspent (unspent a) = unspent a"
  by (auto simp: unspent_def fun_eq_iff option.map_comp comp_def split: prod.splits intro!: option.map_cong0)

lemma confirmed_loop_pos: "ti_pos t = ti_pos t' \<Longrightarrow> confirmed_loop t fh m c = confirmed_loop t' fh m c"
  by (induction c) simp_all

lemma mature_loop_unspent: "unspent a = unspent b \<Longrightarrow> mature_loop tx a c ins = mature_loop tx b c ins"
proof (induction ins)
  case (Cons txin ins)
  show ?case
  proof (cases "a (op_hash (prevout txin))")
    case None
    moreover from this have "b (op_hash (prevout txin)) = None" using unspent_eqD(1) [OF Cons.prems] by blast
    ultimately show ?thesis using Cons by simp
  next
    case (Some e)
    obtain t x where e: "e = (t, x)" by (cases e)
    obtain t' where "b (op_hash (prevout txin)) = Some (t', x)" "ti_pos t' = ti_pos t"
      using unspent_eqD(2) [OF Cons.prems] Some e by blast
    moreover from this have "IsConfirmedInNPrevBlocks t' c m = IsConfirmedInNPrevBlocks t c m" for m
      using confirmed_loop_pos [of t' t] unfolding IsConfirmedInNPrevBlocks_def by (cases c) (simp_all only: list.case)
    ultimately show ?thesis using Some Cons by (simp add: e)
  qed
qed simp

lemma connect_loop_unspent:
  "unspent a = unspent b \<Longrightarrow>
   answer (fst (connect_loop E C tx outs a m cache)) = answer (fst (connect_loop E C tx outs b m' cache))
   \<and> snd (connect_loop E C tx outs a m cache) = snd (connect_loop E C tx outs b m' cache)"
proof (induction outs arbitrary: a b m m' cache)
  case (Cons i outs)
  let ?h = "op_hash (prevout (vin tx ! i))" and ?n = "unat (op_n (prevout (vin tx ! i)))"
  show ?case
  proof (cases "a ?h")
    case None
    moreover from this have "b ?h = None" using unspent_eqD(1) [OF Cons.prems] by blast
    ultimately show ?thesis by (simp add: Let_def)
  next
    case (Some e)
    obtain t x where e: "e = (t, x)" by (cases e)
    obtain t' where t': "b ?h = Some (t', x)" "ti_pos t' = ti_pos t" "length (vSpent t') = length (vSpent t)"
      using unspent_eqD(2) [OF Cons.prems] Some e by blast
    define mark :: "CTxIndex \<Rightarrow> CTxIndex" where "mark = (\<lambda>t. t\<lparr>vSpent := (vSpent t)[?n := cc_posThisTx C]\<rparr>)"
    define sig where "sig = (if cc_fValidateSig C \<and> \<not> (cc_fBlock C \<and> \<not> cc_ibd C i)
      then signature_rejects E tx i x (cc_flags C) cache else (Inr False, cache))"
    have "unspent (a(?h \<mapsto> (mark t, x))) = unspent (b(?h \<mapsto> (mark t', x)))"
      using fun_cong [OF Cons.prems] t' by (auto simp: unspent_def fun_eq_iff mark_def)
    note IH = Cons.IH [OF this]
    have step: "connect_loop E C tx (i # outs) q m cache =
        (if nTime x > nTime tx then connect_loop E C tx outs q m cache
         else if ?n \<ge> length (vSpent u) then (Inl OutOfRange, cache)
         else case sig of (Inl e, cache) \<Rightarrow> (Inl e, cache)
           | (Inr True, cache) \<Rightarrow> (Inr (False, m), cache)
           | (Inr False, cache) \<Rightarrow> connect_loop E C tx outs (q(?h \<mapsto> (mark u, x)))
               (if cc_fBlock C \<or> cc_fMiner C then m(?h \<mapsto> mark u) else m) cache)"
      if "q ?h = Some (u, x)" for q u m
      by (simp only: connect_loop.simps that option.case prod.case Let_def sig_def mark_def)
    show ?thesis unfolding step [of a t, OF Some [unfolded e]] step [of b t', OF t'(1)] t'(3)
      using Cons.IH [OF Cons.prems] by (cases sig; cases "fst sig") (auto simp: IH split: bool.splits)
  qed
qed simp


text \<open>
  C18. A double spend connects like a first spend: the answer of \<open>ConnectInputs\<close>, its errors and the
  signature cache are the same whatever the outputs of the previous transactions are marked with.
\<close>

theorem ConnectInputs_ignores_spent:
  "answer (fst (ConnectInputs E C tx (unspent inputs) mapTestPool pindexBlock cache)) =
     answer (fst (ConnectInputs E C tx inputs mapTestPool pindexBlock cache))
   \<and> snd (ConnectInputs E C tx (unspent inputs) mapTestPool pindexBlock cache) =
     snd (ConnectInputs E C tx inputs mapTestPool pindexBlock cache)"
proof -
  let ?a = "connect_loop E C tx [0..<length (vin tx)] (unspent inputs) mapTestPool cache"
  let ?b = "connect_loop E C tx [0..<length (vin tx)] inputs mapTestPool cache"
  have l: "answer (fst ?a) = answer (fst ?b)" "snd ?a = snd ?b"
    using connect_loop_unspent [OF unspent_unspent] by blast+
  have m: "mature_loop tx (unspent inputs) pindexBlock (vin tx) = mature_loop tx inputs pindexBlock (vin tx)"
    by (rule mature_loop_unspent [OF unspent_unspent])
  obtain ra ca rb cb where ab: "?a = (ra, ca)" "?b = (rb, cb)" by (metis prod.exhaust)
  show ?thesis using l unfolding ConnectInputs_def m ab
    by (cases ra; cases rb) (auto split: bool.splits prod.splits)
qed

subsection \<open>Signatures\<close>

lemma verify_input_returns:
  assumes "lib_ok E" "cache_sound (te_sig E) cache" "i < length (vin tx)"
  shows "\<exists>b c. verify_input E tx i txPrev flags cache = (Some b, c) \<and> cache_sound (te_sig E) c"
proof -
  let ?E = "E\<lparr>te_flags := flags, te_txTo := tx, te_nIn := i, te_nHashType := 0\<rparr>"
  have 1: "lib_ok ?E" "cache_sound (te_sig ?E) cache" using assms by (simp_all add: lib_ok_def)
  have v: "\<exists>b c. VerifyScript_v1 ?E s p cache = (Some b, c) \<and> cache_sound (te_sig E) c" for s p
    using VerifyScript_agree [OF 1, of s p] by (cases "VerifyScript_v1 ?E s p cache") simp
  show ?thesis using v assms(2,3) by (auto simp: verify_input_def VerifySignature_def Let_def)
qed

lemma signature_rejects_mandatory:
  assumes "lib_ok E" "cache_sound (te_sig E) cache" "i < length (vin tx)" "flags AND STANDARD_NOT_MANDATORY_VERIFY_FLAGS = 0"
  shows "\<exists>c. signature_rejects E tx i txPrev flags cache = (Inr False, c) \<and> cache_sound (te_sig E) c"
proof -
  obtain b c where "verify_input E tx i txPrev flags cache = (Some b, c)" "cache_sound (te_sig E) c"
    using verify_input_returns [OF assms(1-3)] by blast
  then show ?thesis using assms(4) by (cases b) (simp_all add: signature_rejects_def)
qed

text \<open>The inputs are there, and an output that is not younger than the transaction exists.\<close>

definition inputs_in_range :: "CTransaction \<Rightarrow> MapPrevTx \<Rightarrow> bool" where
  "inputs_in_range tx inputs \<longleftrightarrow> (\<forall>txin\<in>set (vin tx). \<exists>t x. inputs (op_hash (prevout txin)) = Some (t, x)
     \<and> (nTime x \<le> nTime tx \<longrightarrow> unat (op_n (prevout txin)) < length (vSpent t)))"

text \<open>The loop over the inputs goes through when no signature check rejects.\<close>

lemma connect_loop_passes:
  assumes sig: "\<And>i txPrev cache. i < length (vin tx) \<Longrightarrow> ok txPrev \<Longrightarrow> sound cache \<Longrightarrow> cc_fValidateSig C \<Longrightarrow>
      \<exists>c. signature_rejects E tx i txPrev (cc_flags C) cache = (Inr False, c) \<and> sound c"
  shows "inputs_in_range tx inputs \<Longrightarrow> (\<forall>h t x. inputs h = Some (t, x) \<longrightarrow> ok x) \<Longrightarrow> sound cache \<Longrightarrow>
    (\<forall>i\<in>set outs. i < length (vin tx)) \<Longrightarrow>
    \<exists>m c. connect_loop E C tx outs inputs mapTestPool cache = (Inr (True, m), c) \<and> sound c"
proof (induction outs arbitrary: inputs mapTestPool cache)
  case (Cons i outs)
  let ?h = "op_hash (prevout (vin tx ! i))" and ?n = "unat (op_n (prevout (vin tx ! i)))"
  have i: "i < length (vin tx)" using Cons.prems(4) by simp
  then obtain t x where t: "inputs ?h = Some (t, x)" "nTime x \<le> nTime tx \<longrightarrow> ?n < length (vSpent t)"
    using Cons.prems(1) unfolding inputs_in_range_def by (meson nth_mem)
  show ?case
  proof (cases "nTime x > nTime tx")
    case True
    then have "connect_loop E C tx (i # outs) inputs mapTestPool cache = connect_loop E C tx outs inputs mapTestPool cache"
      by (simp only: connect_loop.simps Let_def t(1) option.case prod.case if_True)
    then show ?thesis using Cons.IH [OF Cons.prems(1-3)] Cons.prems(4) by simp
  next
    case False
    define t' where "t' = t\<lparr>vSpent := (vSpent t)[?n := cc_posThisTx C]\<rparr>"
    have len: "length (vSpent t') = length (vSpent t)" by (simp add: t'_def)
    obtain c where c: "(if cc_fValidateSig C \<and> \<not> (cc_fBlock C \<and> \<not> cc_ibd C i)
        then signature_rejects E tx i x (cc_flags C) cache else (Inr False, cache)) = (Inr False, c)" "sound c"
      using sig [OF i _ Cons.prems(3)] Cons.prems(2,3) t(1) by (metis (full_types))
    have ok: "\<not> ?n \<ge> length (vSpent t)" using t(2) False by (auto simp: not_less)
    have "connect_loop E C tx (i # outs) inputs mapTestPool cache =
        connect_loop E C tx outs (inputs(?h \<mapsto> (t', x))) (if cc_fBlock C \<or> cc_fMiner C then mapTestPool(?h \<mapsto> t') else mapTestPool) c"
      using ok False by (simp only: connect_loop.simps Let_def t(1) option.case prod.case c(1) sum.case bool.case t'_def if_False)
    moreover have "inputs_in_range tx (inputs(?h \<mapsto> (t', x)))"
      using Cons.prems(1) t(1) len unfolding inputs_in_range_def by auto
    moreover have "\<forall>h t y. (inputs(?h \<mapsto> (t', x))) h = Some (t, y) \<longrightarrow> ok y" using Cons.prems(2) t(1) by auto
    ultimately show ?thesis using Cons.IH c(2) Cons.prems(4) by (metis list.set_intros(2))
  qed
qed simp

text \<open>
  With the flags of \<open>ConnectBlock\<close> and the mandatory flags of the memory pool no signature is ever
  refused: when the inputs are there, whatever the scripts and whatever the amounts, \<open>ConnectInputs\<close>
  answers whether the inputs are mature coinbases or coinstakes or none.
\<close>

theorem ConnectInputs_signatures_unchecked:
  assumes "lib_ok E" "cache_sound (te_sig E) cache" "\<not> IsCoinBase tx" "inputs_in_range tx inputs"
    and "cc_flags C \<in> {SCRIPT_VERIFY_NOCACHE, MANDATORY_SCRIPT_VERIFY_FLAGS} \<or> \<not> cc_fValidateSig C"
    and "IsCoinStake tx \<or> GetValueOut tx \<noteq> None"
  shows "\<exists>m. fst (ConnectInputs E C tx inputs mapTestPool pindexBlock cache) = Inr (mature_loop tx inputs pindexBlock (vin tx), m)"
proof -
  have flags: "cc_flags C AND STANDARD_NOT_MANDATORY_VERIFY_FLAGS = 0" if "cc_fValidateSig C"
    using assms(5) that
    by (auto simp: STANDARD_NOT_MANDATORY_VERIFY_FLAGS_def STANDARD_SCRIPT_VERIFY_FLAGS_def MANDATORY_SCRIPT_VERIFY_FLAGS_def)
  have "\<exists>m c. connect_loop E C tx [0..<length (vin tx)] inputs mapTestPool cache = (Inr (True, m), c) \<and> cache_sound (te_sig E) c"
    by (rule connect_loop_passes [where ok = "\<lambda>_. True"])
      (use signature_rejects_mandatory [OF assms(1)] flags assms(2,4) in auto)
  then show ?thesis using assms(3,6) by (auto simp: ConnectInputs_def)
qed


subsection \<open>Outputs that are on disk\<close>

text \<open>The previous transactions of the inputs are in the database, and not as a reference to the memory pool.\<close>

definition prevs_stored :: "tx_db \<Rightarrow> CTransaction \<Rightarrow> bool" where
  "prevs_stored txdb tx \<longleftrightarrow> (\<forall>txin\<in>set (vin tx). \<exists>t. txdb (op_hash (prevout txin)) = Some t \<and> ti_pos t \<noteq> mempool_pos)"

text \<open>Every entry has the index from disk and an empty transaction of the time it was made.\<close>

definition blank_inputs :: "(nat \<Rightarrow> u32) \<Rightarrow> tx_db \<Rightarrow> MapPrevTx \<Rightarrow> bool" where
  "blank_inputs now txdb inputs \<longleftrightarrow>
     (\<forall>h t x. inputs h = Some (t, x) \<longrightarrow> txdb h = Some t \<and> (\<exists>i. x = CTransaction_SetNull (now i)))"

lemma fetch_loop_blank:
  assumes "\<forall>txin\<in>set ins. \<exists>t. txdb (op_hash (prevout txin)) = Some t \<and> ti_pos t \<noteq> mempool_pos" "blank_inputs now txdb inputs"
  shows "\<exists>m. fetch_loop txdb pool fBlock fMiner now i ins inputs = Some m \<and> blank_inputs now txdb m
    \<and> dom m = dom inputs \<union> (\<lambda>txin. op_hash (prevout txin)) ` set ins"
  using assms
proof (induction ins arbitrary: i inputs)
  case (Cons txin ins)
  let ?h = "op_hash (prevout txin)"
  obtain t where t: "txdb ?h = Some t" "ti_pos t \<noteq> mempool_pos" using Cons.prems(1) by auto
  let ?x = "case inputs ?h of None \<Rightarrow> CTransaction_SetNull (now i) | Some e \<Rightarrow> snd e"
  have f: "fetch_input txdb pool fBlock fMiner (now i) txin inputs = Some (inputs(?h \<mapsto> (t, ?x)))"
    using t by (simp add: fetch_input_def ReadTxIndex_def Let_def)
  have "blank_inputs now txdb (inputs(?h \<mapsto> (t, ?x)))"
    using Cons.prems(2) t(1) by (fastforce simp: blank_inputs_def split: option.splits if_splits)
  moreover have "\<forall>txin\<in>set ins. \<exists>t. txdb (op_hash (prevout txin)) = Some t \<and> ti_pos t \<noteq> mempool_pos"
    using Cons.prems(1) by simp
  ultimately obtain m where m: "fetch_loop txdb pool fBlock fMiner now (i + 1) ins (inputs(?h \<mapsto> (t, ?x))) = Some m"
    "blank_inputs now txdb m" "dom m = dom (inputs(?h \<mapsto> (t, ?x))) \<union> (\<lambda>txin. op_hash (prevout txin)) ` set ins"
    using Cons.IH by blast
  have "dom m = dom inputs \<union> (\<lambda>txin. op_hash (prevout txin)) ` set (txin # ins)" unfolding m(3) by simp
  then show ?case using m(1,2) by (simp add: f)
qed simp

lemma recheck_loop_blank:
  assumes "blank_inputs now txdb inputs" "(\<lambda>txin. op_hash (prevout txin)) ` set ins \<subseteq> dom inputs"
  shows "fst (recheck_loop txdb tx ins (inputs, fInvalid)) = inputs"
  using assms
proof (induction ins arbitrary: fInvalid)
  case (Cons txin ins)
  obtain t x where "inputs (op_hash (prevout txin)) = Some (t, x)" using Cons.prems(2) by auto
  moreover from this have "txdb (op_hash (prevout txin)) = Some t" using Cons.prems(1) by (auto simp: blank_inputs_def)
  ultimately have "inputs(op_hash (prevout txin) \<mapsto> (snd (ReadTxIndex txdb (op_hash (prevout txin))),
      case inputs (op_hash (prevout txin)) of None \<Rightarrow> CTransaction_SetNull 0 | Some e \<Rightarrow> snd e)) = inputs"
    by (auto simp: ReadTxIndex_def fun_eq_iff)
  then show ?case using Cons by (simp add: Let_def)
qed simp

lemma FetchInputs_blank:
  assumes "\<not> IsCoinBase tx" "prevs_stored txdb tx"
  shows "\<exists>inputs fInvalid. FetchInputs txdb pool fBlock fMiner now tx (\<lambda>_. None) = (True, inputs, fInvalid)
    \<and> blank_inputs now txdb inputs \<and> dom inputs = (\<lambda>txin. op_hash (prevout txin)) ` set (vin tx)"
proof -
  have "blank_inputs now txdb (\<lambda>_. None)" by (simp add: blank_inputs_def)
  from fetch_loop_blank [OF assms(2) [unfolded prevs_stored_def] this, of pool fBlock fMiner 0]
  obtain m where m: "fetch_loop txdb pool fBlock fMiner now 0 (vin tx) (\<lambda>_. None) = Some m" "blank_inputs now txdb m"
    "dom m = (\<lambda>txin. op_hash (prevout txin)) ` set (vin tx)" by auto
  have "fst (recheck_loop txdb tx (vin tx) (m, False)) = m" using recheck_loop_blank [OF m(2)] m(3) by simp
  then show ?thesis using m assms(1) by (cases "recheck_loop txdb tx (vin tx) (m, False)") (simp add: FetchInputs_def)
qed

text \<open>Without an entry that refers to the memory pool, fetching for a block never answers false.\<close>

lemma FetchInputs_off_pool:
  assumes "IsCoinBase tx \<or> (\<forall>txin\<in>set (vin tx). \<forall>t. txdb (op_hash (prevout txin)) = Some t \<longrightarrow> ti_pos t \<noteq> mempool_pos)"
  shows "fst (FetchInputs txdb pool True fMiner now tx inputs)"
proof -
  have "\<exists>m. fetch_loop txdb pool True fMiner now i ins inputs = Some m"
    if "\<forall>txin\<in>set ins. \<forall>t. txdb (op_hash (prevout txin)) = Some t \<longrightarrow> ti_pos t \<noteq> mempool_pos" for i ins inputs
    using that
  proof (induction ins arbitrary: i inputs)
    case (Cons txin ins)
    have "\<exists>m. fetch_input txdb pool True fMiner (now i) txin inputs = Some m"
      using Cons.prems by (auto simp: fetch_input_def ReadTxIndex_def Let_def split: option.split)
    then show ?case using Cons by fastforce
  qed simp
  from this [of "vin tx" 0 inputs] show ?thesis using assms
    by (cases "IsCoinBase tx") (auto simp: FetchInputs_def split: prod.split)
qed

text \<open>The positions of the transactions in the queued changes come from the inputs.\<close>

lemma connect_loop_positions:
  "connect_loop E C tx outs inputs q cache = (Inr (True, m), c) \<Longrightarrow> (\<forall>h t x. inputs h = Some (t, x) \<longrightarrow> P (ti_pos t)) \<Longrightarrow>
   (\<forall>h t. q h = Some t \<longrightarrow> P (ti_pos t)) \<Longrightarrow> (\<forall>h t. m h = Some t \<longrightarrow> P (ti_pos t))"
proof (induction outs arbitrary: inputs q cache)
  case (Cons i outs)
  let ?h = "op_hash (prevout (vin tx ! i))" and ?n = "unat (op_n (prevout (vin tx ! i)))"
  obtain t x where t: "inputs ?h = Some (t, x)" using Cons.prems(1) by (auto simp: Let_def split: option.splits)
  define u where "u = t\<lparr>vSpent := (vSpent t)[?n := cc_posThisTx C]\<rparr>"
  have pt: "P (ti_pos t)" using Cons.prems(2) t by blast
  then have p: "P (ti_pos u)" by (simp add: u_def)
  show ?case
  proof (cases "nTime x > nTime tx")
    case True
    then have "connect_loop E C tx outs inputs q cache = (Inr (True, m), c)" using Cons.prems(1) t by (simp add: Let_def)
    then show ?thesis using Cons by blast
  next
    case False
    then obtain c' where go: "connect_loop E C tx outs (inputs(?h \<mapsto> (u, x)))
        (if cc_fBlock C \<or> cc_fMiner C then q(?h \<mapsto> u) else q) c' = (Inr (True, m), c)"
      using Cons.prems(1) t by (auto simp: Let_def u_def split: prod.splits sum.splits bool.splits if_splits)
    have "\<forall>h t y. (inputs(?h \<mapsto> (u, x))) h = Some (t, y) \<longrightarrow> P (ti_pos t)" using Cons.prems(2) p by simp
    moreover have "\<forall>h t. (if cc_fBlock C \<or> cc_fMiner C then q(?h \<mapsto> u) else q) h = Some t \<longrightarrow> P (ti_pos t)"
      using Cons.prems(3) p by simp
    ultimately show ?thesis by (rule Cons.IH [OF go])
  qed
qed simp

lemma ConnectInputs_positions:
  assumes "ConnectInputs E C tx inputs q pindexBlock cache = (Inr (True, m), c)"
    and "\<forall>h t x. inputs h = Some (t, x) \<longrightarrow> P (ti_pos t)" "\<forall>h t. q h = Some t \<longrightarrow> P (ti_pos t)"
  shows "\<forall>h t. m h = Some t \<longrightarrow> P (ti_pos t)"
proof (cases "IsCoinBase tx")
  case False
  then have "\<exists>c'. connect_loop E C tx [0..<length (vin tx)] inputs q cache = (Inr (True, m), c')"
    using assms(1) by (auto simp: ConnectInputs_def split: if_splits prod.splits sum.splits bool.splits)
  then show ?thesis using connect_loop_positions assms(2,3) by blast
qed (use assms in \<open>simp add: ConnectInputs_def\<close>)

lemma signature_rejects_blank:
  "i < length (vin tx) \<Longrightarrow> signature_rejects E tx i (CTransaction_SetNull k) flags cache = (Inr False, cache)"
  by (simp add: signature_rejects_def verify_input_def VerifySignature_def Let_def CTransaction_SetNull_def)

lemma connect_loop_younger:
  assumes "\<forall>h t x. inputs h = Some (t, x) \<longrightarrow> nTime x > nTime tx"
  shows "connect_loop E C tx outs inputs mapTestPool cache = (Inr (True, m), c) \<Longrightarrow> m = mapTestPool \<and> c = cache"
proof (induction outs)
  case (Cons i outs)
  obtain t x where t: "inputs (op_hash (prevout (vin tx ! i))) = Some (t, x)"
    using Cons.prems by (auto simp: Let_def split: option.splits)
  then have "nTime x > nTime tx" using assms by blast
  then show ?case using Cons by (simp add: t Let_def)
qed simp

lemma stored_outputs_connect:
  assumes "\<not> IsCoinBase tx" "prevs_stored txdb tx"
    and "\<forall>txin\<in>set (vin tx). unat (op_n (prevout txin)) < length (vSpent (the (txdb (op_hash (prevout txin)))))"
    and "IsCoinStake tx \<or> GetValueOut tx \<noteq> None"
  shows "\<exists>inputs fInvalid m. FetchInputs txdb pool fBlock fMiner now tx (\<lambda>_. None) = (True, inputs, fInvalid)
    \<and> fst (ConnectInputs E C tx inputs mapTestPool pindexBlock cache) = Inr (True, m)
    \<and> ((\<forall>i. now i > nTime tx) \<longrightarrow> m = mapTestPool)"
proof -
  obtain inputs fInvalid where f: "FetchInputs txdb pool fBlock fMiner now tx (\<lambda>_. None) = (True, inputs, fInvalid)"
    "blank_inputs now txdb inputs" "dom inputs = (\<lambda>txin. op_hash (prevout txin)) ` set (vin tx)"
    using FetchInputs_blank [OF assms(1,2)] by blast
  have blank: "\<exists>i. x = CTransaction_SetNull (now i)" "txdb h = Some t" if "inputs h = Some (t, x)" for h t x
    using f(2) that by (auto simp: blank_inputs_def)
  have "inputs_in_range tx inputs"
    unfolding inputs_in_range_def
  proof
    fix txin assume "txin \<in> set (vin tx)"
    moreover from this obtain t x where "inputs (op_hash (prevout txin)) = Some (t, x)" using f(3) by fastforce
    ultimately show "\<exists>t x. inputs (op_hash (prevout txin)) = Some (t, x)
      \<and> (nTime x \<le> nTime tx \<longrightarrow> unat (op_n (prevout txin)) < length (vSpent t))" using blank(2) assms(3) by fastforce
  qed
  moreover have "\<forall>h t x. inputs h = Some (t, x) \<longrightarrow> (\<exists>k. x = CTransaction_SetNull k)" using blank(1) by blast
  ultimately have "\<exists>m c. connect_loop E C tx [0..<length (vin tx)] inputs mapTestPool cache = (Inr (True, m), c) \<and> True"
    by (intro connect_loop_passes [where ok = "\<lambda>x. \<exists>k. x = CTransaction_SetNull k"])
      (use signature_rejects_blank in auto)
  then obtain m c where m: "connect_loop E C tx [0..<length (vin tx)] inputs mapTestPool cache = (Inr (True, m), c)" by blast
  have "mature_loop tx inputs pindexBlock ins" for ins
  proof (induction ins)
    case (Cons txin ins)
    then show ?case using blank(1) [of "op_hash (prevout txin)"]
      by (auto simp: CTransaction_SetNull_def IsCoinBase_def IsCoinStake_def split: option.splits)
  qed simp
  then have "fst (ConnectInputs E C tx inputs mapTestPool pindexBlock cache) = Inr (True, m)"
    using m assms(1,4) by (auto simp: ConnectInputs_def)
  moreover have "m = mapTestPool" if now: "\<forall>i. now i > nTime tx"
  proof -
    have "\<forall>h t x. inputs h = Some (t, x) \<longrightarrow> nTime x > nTime tx"
      using blank(1) now by (fastforce simp: CTransaction_SetNull_def)
    from connect_loop_younger [OF this m] show ?thesis by simp
  qed
  ultimately show ?thesis using f(1) by blast
qed

text \<open>
  Nothing is verified about outputs that are on disk. \<open>FetchInputs\<close> does not read the previous
  transactions, so for a transaction whose inputs name stored transactions, spent or not, in range,
  \<open>ConnectInputs\<close> always answers true: whatever the scripts, the amounts, the flags and the signature
  library. When the transaction is older than the present, no change is queued for the index, so that the
  outputs do not become spent either.
\<close>

theorem spending_stored_outputs_connects:
  assumes "\<not> IsCoinBase tx" "prevs_stored txdb tx"
    and "\<forall>txin\<in>set (vin tx). unat (op_n (prevout txin)) < length (vSpent (the (txdb (op_hash (prevout txin)))))"
    and "IsCoinStake tx \<or> GetValueOut tx \<noteq> None"
  shows "\<exists>inputs fInvalid m. FetchInputs txdb pool fBlock fMiner now tx (\<lambda>_. None) = (True, inputs, fInvalid)
    \<and> fst (ConnectInputs E C tx inputs mapTestPool pindexBlock cache) = Inr (True, m)
    \<and> ((\<forall>i. now i > nTime tx) \<longrightarrow> m = mapTestPool)"
  using assms by (rule stored_outputs_connect)

text \<open>A transaction that spends an output already spent, with no script, to create more than it spends.\<close>

definition spent_db :: tx_db where
  "spent_db h = (if h = 5 then Some \<lparr>ti_pos = \<lparr>tp_nFile = 1, tp_nBlockPos = 9, tp_nTxPos = 90\<rparr>,
      vSpent = [\<lparr>tp_nFile = 1, tp_nBlockPos = 700, tp_nTxPos = 790\<rparr>]\<rparr> else None)"

lemma pool_parent_facts:
  "\<not> IsCoinBase pool_parent" "prevs_stored spent_db pool_parent" "GetValueOut pool_parent = Some 3"
  "vSpent (the (spent_db 5)) \<noteq> [CDiskTxPos_SetNull]"
  by (simp_all add: IsCoinBase_def pool_parent_def COutPoint_IsNull_def prevs_stored_def spent_db_def mempool_pos_def
      CTransaction_SetNull_def GetValueOut_def MoneyRange_def MAX_MONEY_def COIN_def CDiskTxPos_SetNull_def)

lemma spending_stored_outputs_connects_witness:
  "\<exists>inputs fInvalid m. FetchInputs spent_db CTxMemPool_new True False (\<lambda>_. 1000) pool_parent (\<lambda>_. None) = (True, inputs, fInvalid)
    \<and> fst (ConnectInputs sample_tx_env \<lparr>cc_posThisTx = mempool_pos, cc_fBlock = True, cc_fMiner = False, cc_flags = STANDARD_SCRIPT_VERIFY_FLAGS,
        cc_fValidateSig = True, cc_ibd = (\<lambda>_. True)\<rparr> pool_parent inputs (\<lambda>_. None) [] empty_cache) = Inr (True, m)
    \<and> m 5 = None"
proof -
  have range: "\<forall>txin\<in>set (vin pool_parent). unat (op_n (prevout txin)) < length (vSpent (the (spent_db (op_hash (prevout txin)))))"
    by (simp add: pool_parent_def spent_db_def)
  have val: "IsCoinStake pool_parent \<or> GetValueOut pool_parent \<noteq> None" using pool_parent_facts(3) by simp
  have past: "\<forall>i :: nat. (1000 :: u32) > nTime pool_parent" by (simp add: pool_parent_def CTransaction_SetNull_def)
  show ?thesis
    using spending_stored_outputs_connects [OF pool_parent_facts(1,2) range val, of CTxMemPool_new True False "\<lambda>_. 1000" sample_tx_env
        "\<lparr>cc_posThisTx = mempool_pos, cc_fBlock = True, cc_fMiner = False, cc_flags = STANDARD_SCRIPT_VERIFY_FLAGS,
          cc_fValidateSig = True, cc_ibd = (\<lambda>_. True)\<rparr>" "\<lambda>_. None" "[]" empty_cache] past
    by fastforce
qed

lemma ConnectInputs_signatures_unchecked_witness:
  "\<exists>m. fst (ConnectInputs sample_tx_env \<lparr>cc_posThisTx = mempool_pos, cc_fBlock = False, cc_fMiner = False,
        cc_flags = MANDATORY_SCRIPT_VERIFY_FLAGS, cc_fValidateSig = True, cc_ibd = (\<lambda>_. True)\<rparr> pool_parent
        (\<lambda>h. Some (CTxIndex_new mempool_pos 1, pool_child\<lparr>nTime := 0\<rparr>)) (\<lambda>_. None) [] empty_cache) = Inr (True, m)"
proof -
  let ?C = "\<lparr>cc_posThisTx = mempool_pos, cc_fBlock = False, cc_fMiner = False,
        cc_flags = MANDATORY_SCRIPT_VERIFY_FLAGS, cc_fValidateSig = True, cc_ibd = (\<lambda>_. True)\<rparr>"
  let ?in = "\<lambda>h :: uint256. Some (CTxIndex_new mempool_pos 1, pool_child\<lparr>nTime := 0\<rparr>)"
  have "inputs_in_range pool_parent ?in"
    by (simp add: inputs_in_range_def pool_parent_def CTxIndex_new_def)
  moreover have "mature_loop pool_parent ?in [] (vin pool_parent)"
    by (simp add: pool_parent_def pool_child_def IsCoinBase_def IsCoinStake_def COutPoint_IsNull_def IsConfirmedInNPrevBlocks_def)
  ultimately show ?thesis
    using ConnectInputs_signatures_unchecked [OF sample_tx_env_ok pool_parent_facts(1), of ?in ?C "\<lambda>_. None" "[]"] pool_parent_facts(3)
    by simp
qed

end
