(* ===== verification/Accept.thy ===== *)
theory Accept imports Connect begin

text \<open>
  Admission to the memory pool (\<open>src/src/main.cpp\<close>): \<open>IsStandardTx\<close> and \<open>AcceptToMemoryPool\<close>, over the pool, the
  fetching and connecting of inputs and the checks of the transaction itself. Parameters are the clock,
  the network, the chain, the locked inputs and broadcasts of the masternode code, and whether the
  rate limiter for free transactions (floating point) refuses. Locks, log messages and the wallets that
  are told of the transaction are left out.
\<close>

unbundle bit_operations_syntax

subsection \<open>Standard transactions\<close>

definition MAX_BLOCK_SIZE_GEN :: u32 where "MAX_BLOCK_SIZE_GEN = MAX_BLOCK_SIZE div 2"
definition MAX_STANDARD_TX_SIZE :: u32 where "MAX_STANDARD_TX_SIZE = MAX_BLOCK_SIZE_GEN div 5"
definition MAX_BLOCK_SIGOPS :: u32 where "MAX_BLOCK_SIGOPS = MAX_BLOCK_SIZE div 50"
definition MAX_TX_SIGOPS :: u32 where "MAX_TX_SIGOPS = MAX_BLOCK_SIGOPS div 5"

definition CURRENT_VERSION :: int where "CURRENT_VERSION = 1"

text \<open>The loops give the reason for which they return, \<open>None\<close> when they run through.\<close>

fun standard_inputs :: "CTxIn list \<Rightarrow> string option" where
  "standard_inputs [] = None"
| "standard_inputs (txin # ins) =
     (if length (scriptSig txin) > 1650 then Some ''scriptsig-size''
      else if \<not> IsPushOnly (scriptSig txin) then Some ''scriptsig-not-pushonly''
      else if \<not> HasCanonicalPushes (scriptSig txin) then Some ''scriptsig-non-canonical-push''
      else standard_inputs ins)"

fun standard_outputs :: "nat \<Rightarrow> CTxOut list \<Rightarrow> string + nat" where
  "standard_outputs nDataOut [] = Inr nDataOut"
| "standard_outputs nDataOut (txout # outs) =
     (case IsStandard (scriptPubKey txout) of (ok, whichType) \<Rightarrow>
        if \<not> ok then Inl ''scriptpubkey''
        else if whichType \<noteq> TX_NULL_DATA \<and> nValue txout = 0 then Inl ''dust''
        else if \<not> HasCanonicalPushes (scriptPubKey txout) then Inl ''scriptpubkey-non-canonical-push''
        else standard_outputs (if whichType = TX_NULL_DATA then nDataOut + 1 else nDataOut) outs)"

text \<open>\<open>None\<close> is the answer true, \<open>Some reason\<close> false.\<close>

definition IsStandardTx :: "int \<Rightarrow> int \<Rightarrow> CTransaction \<Rightarrow> string option" where
  "IsStandardTx nBestHeight adjustedTime tx =
     (if nVersion tx > CURRENT_VERSION \<or> nVersion tx < 1 then Some ''version''
      else if \<not> IsFinalTx nBestHeight adjustedTime tx (nBestHeight + 1) 0 then Some ''non-final''
      else if uint (nTime tx) > FutureDrift adjustedTime then Some ''time-too-new''
      else if size_CTransaction tx \<ge> MAX_STANDARD_TX_SIZE then Some ''tx-size''
      else case standard_inputs (vin tx) of
        Some reason \<Rightarrow> Some reason
      | None \<Rightarrow>
          (case standard_outputs 0 (vout tx) of
             Inl reason \<Rightarrow> Some reason
           | Inr nDataOut \<Rightarrow>
               if nDataOut > 1 \<and> nDataOut > length (vout tx) div 2 then Some ''multi-op-return'' else None))"

subsection \<open>Admission\<close>

record accept_env =
  ae_TestNet :: bool
  ae_nBestHeight :: int
  ae_adjustedTime :: int
  ae_now :: "nat \<Rightarrow> u32"
  ae_pindexBest :: chain
  ae_txdb :: tx_db
  ae_mapLockedInputs :: "COutPoint \<Rightarrow> uint256 option"
  ae_isBroadcast :: "uint256 \<Rightarrow> bool"
  ae_rate_limited :: "u32 \<Rightarrow> bool"
  ae_script :: tx_env

record accept_state =
  as_pool :: CTxMemPool
  as_cache :: sig_cache
  as_setValidatedTx :: "uint256 set"
  as_fMissingInputs :: bool
  as_tx :: CTransaction

definition ae_GetHash :: "accept_env \<Rightarrow> CTransaction \<Rightarrow> uint256" where
  "ae_GetHash A = CTransaction_GetHash (tx_hash (te_sig (ae_script A)))"

definition atmp_call :: "verify_flags \<Rightarrow> connect_call" where
  "atmp_call flags = \<lparr>cc_posThisTx = mempool_pos, cc_fBlock = False, cc_fMiner = False, cc_flags = flags,
     cc_fValidateSig = True, cc_ibd = (\<lambda>_. False)\<rparr>"

text \<open>The tests before the inputs are looked at; \<open>False\<close> is an exit.\<close>

definition atmp_precheck :: "accept_env \<Rightarrow> accept_state \<Rightarrow> bool" where
  "atmp_precheck A s =
     (let tx = as_tx s; h = ae_GetHash A tx in
      \<not> IsCoinBase tx \<and> \<not> IsCoinStake tx
      \<and> (ae_TestNet A \<or> IsStandardTx (ae_nBestHeight A) (ae_adjustedTime A) tx = None)
      \<and> \<not> pool_exists (as_pool s) h
      \<and> list_all (\<lambda>txin. ae_mapLockedInputs A (prevout txin) = None \<or> ae_mapLockedInputs A (prevout txin) = Some h) (vin tx)
      \<and> list_all (\<lambda>txin. mapNextTx (as_pool s) (prevout txin) = None) (vin tx)
      \<and> \<not> ContainsTx (ae_txdb A) h)"

text \<open>The fee rules; \<open>False\<close> is an exit.\<close>

definition atmp_fees :: "accept_env \<Rightarrow> bool \<Rightarrow> bool \<Rightarrow> bool \<Rightarrow> CTransaction \<Rightarrow> int \<Rightarrow> bool" where
  "atmp_fees A fLimitFree fRejectInsaneFee ignoreFees tx nFees =
     (let nSize = size_CTransaction tx in
      if \<not> ae_isBroadcast A (ae_GetHash A tx) \<and> \<not> ignoreFees \<and> fLimitFree \<and> nFees < GetMinFee tx nSize GMF_RELAY then False
      else if \<not> ae_isBroadcast A (ae_GetHash A tx) \<and> \<not> ignoreFees \<and> fLimitFree \<and> nFees < MIN_RELAY_TX_FEE
              \<and> ae_rate_limited A nSize then False
      else \<not> (fRejectInsaneFee \<and> nFees > MIN_RELAY_TX_FEE * 10000))"

text \<open>Connecting twice, and the pool at last.\<close>

definition atmp_connect :: "accept_env \<Rightarrow> MapPrevTx \<Rightarrow> accept_state \<Rightarrow> (connect_error + bool) \<times> accept_state" where
  "atmp_connect A mapInputs s =
     (let tx = as_tx s; h = ae_GetHash A tx in
      case ConnectInputs (ae_script A) (atmp_call STANDARD_SCRIPT_VERIFY_FLAGS) tx mapInputs
             (\<lambda>_. None) (ae_pindexBest A) (as_cache s) of
        (Inl e, cache) \<Rightarrow> (Inl e, s\<lparr>as_cache := cache\<rparr>)
      | (Inr (ok, mapUnused), cache) \<Rightarrow>
          if \<not> ok then (Inr False, s\<lparr>as_cache := cache\<rparr>)
          else
            case ConnectInputs (ae_script A) (atmp_call MANDATORY_SCRIPT_VERIFY_FLAGS) tx mapInputs
                   mapUnused (ae_pindexBest A) cache of
              (Inl e, cache) \<Rightarrow> (Inl e, s\<lparr>as_cache := cache\<rparr>)
            | (Inr (ok, _), cache) \<Rightarrow>
                if \<not> ok then (Inr False, s\<lparr>as_cache := cache\<rparr>)
                else (Inr True, s\<lparr>as_cache := cache, as_pool := addUnchecked h tx (as_pool s),
                        as_setValidatedTx := insert h (as_setValidatedTx s)\<rparr>))"

text \<open>The count of signature operations, whose limit is only logged, and the fees.\<close>

definition atmp_values ::
  "accept_env \<Rightarrow> bool \<Rightarrow> bool \<Rightarrow> bool \<Rightarrow> MapPrevTx \<Rightarrow> accept_state \<Rightarrow> (connect_error + bool) \<times> accept_state" where
  "atmp_values A fLimitFree fRejectInsaneFee ignoreFees mapInputs s =
     (let tx = as_tx s in
      case GetP2SHSigOpCount tx mapInputs of
        Inl e \<Rightarrow> (Inl e, s)
      | Inr _ \<Rightarrow>
          (case GetValueIn tx mapInputs of
             Inl e \<Rightarrow> (Inl e, s)
           | Inr nValueIn \<Rightarrow>
               (case GetValueOut tx of
                  None \<Rightarrow> (Inl Thrown, s)
                | Some nValueOut \<Rightarrow>
                    if \<not> atmp_fees A fLimitFree fRejectInsaneFee ignoreFees tx (nValueIn - nValueOut) then (Inr False, s)
                    else atmp_connect A mapInputs s)))"

definition atmp_inputs ::
  "accept_env \<Rightarrow> bool \<Rightarrow> bool \<Rightarrow> bool \<Rightarrow> accept_state \<Rightarrow> (connect_error + bool) \<times> accept_state" where
  "atmp_inputs A fLimitFree fRejectInsaneFee ignoreFees s =
     (let tx = as_tx s in
      if \<not> list_all (\<lambda>txin. ContainsTx (ae_txdb A) (op_hash (prevout txin))) (vin tx)
      then (Inr False, s\<lparr>as_fMissingInputs := True\<rparr>)
      else
        case FetchInputs (ae_txdb A) (as_pool s) False False (ae_now A) tx (\<lambda>_. None) of
          (fetched, mapInputs, fInvalid) \<Rightarrow>
            if \<not> fetched then (Inr False, s)
            else
              case (if ae_TestNet A then (Inr True, as_cache s)
                    else AreInputsStandard (ae_script A) tx mapInputs (as_cache s)) of
                (Inl e, cache) \<Rightarrow> (Inl e, s\<lparr>as_cache := cache\<rparr>)
              | (Inr ok, cache) \<Rightarrow>
                  if \<not> ok then (Inr False, s\<lparr>as_cache := cache\<rparr>)
                  else atmp_values A fLimitFree fRejectInsaneFee ignoreFees mapInputs (s\<lparr>as_cache := cache\<rparr>))"

definition AcceptToMemoryPool ::
  "accept_env \<Rightarrow> bool \<Rightarrow> bool \<Rightarrow> bool \<Rightarrow> accept_state \<Rightarrow> (connect_error + bool) \<times> accept_state" where
  "AcceptToMemoryPool A fLimitFree fRejectInsaneFee ignoreFees s =
     (case CheckTransaction (as_tx s) of (ok, tx) \<Rightarrow>
        let s = s\<lparr>as_fMissingInputs := False, as_tx := tx\<rparr> in
        if \<not> ok then (Inr False, s)
        else if \<not> atmp_precheck A s then (Inr False, s)
        else atmp_inputs A fLimitFree fRejectInsaneFee ignoreFees s)"

subsection \<open>The index of the pool stays exact\<close>

lemma atmp_precheck_may_add:
  assumes "atmp_precheck A s" "fst (CheckTransaction t)" "as_tx s = snd (CheckTransaction t)" "length (vin t) < 2 ^ 32"
  shows "may_add (ae_GetHash A) (as_tx s) (as_pool s)"
proof -
  have v: "vin (as_tx s) = vin t"
    using assms(3) by (auto simp: CheckTransaction_def DoS_def split: option.splits if_splits)
  have "\<not> duplicate_inputs {} (vin t)" using assms(2) by (simp add: CheckTransaction_fst)
  then have "distinct (map prevout (vin t))" by (simp add: duplicate_inputs_iff)
  then show ?thesis using assms(1,4) v by (auto simp: may_add_def atmp_precheck_def Let_def list_all_iff)
qed

text \<open>What a stage may do to the pool: add the transaction, and then answer true, or nothing.\<close>

definition adds_or_keeps :: "accept_env \<Rightarrow> accept_state \<Rightarrow> (connect_error + bool) \<times> accept_state \<Rightarrow> bool" where
  "adds_or_keeps A s rs \<longleftrightarrow> as_tx (snd rs) = as_tx s \<and>
     (if fst rs = Inr True then as_pool (snd rs) = addUnchecked (ae_GetHash A (as_tx s)) (as_tx s) (as_pool s)
      else as_pool (snd rs) = as_pool s)"

lemma keeps: "r \<noteq> Inr True \<Longrightarrow> as_tx s' = as_tx s \<Longrightarrow> as_pool s' = as_pool s \<Longrightarrow> adds_or_keeps A s (r, s')"
  by (simp add: adds_or_keeps_def)

lemma atmp_connect_pool: "adds_or_keeps A s (atmp_connect A mapInputs s)"
  unfolding atmp_connect_def Let_def by (auto simp: keeps split: prod.split sum.split) (simp add: adds_or_keeps_def)

lemma atmp_values_pool: "adds_or_keeps A s (atmp_values A fl fr ig mapInputs s)"
  unfolding atmp_values_def Let_def by (auto simp: keeps atmp_connect_pool split: option.split sum.split)

lemma atmp_inputs_pool: "adds_or_keeps A s (atmp_inputs A fl fr ig s)"
proof -
  have "adds_or_keeps A s (atmp_values A fl fr ig m (s\<lparr>as_cache := c\<rparr>))" for m c
    using atmp_values_pool [of A "s\<lparr>as_cache := c\<rparr>" fl fr ig m] by (simp add: adds_or_keeps_def)
  then show ?thesis unfolding atmp_inputs_def Let_def
    by (auto simp: keeps atmp_values_pool split: prod.split sum.split)
qed

lemma AcceptToMemoryPool_pool:
  assumes "AcceptToMemoryPool A fl fr ig s = (r, s')"
  shows "(r = Inr True \<and> as_pool s' = addUnchecked (ae_GetHash A (as_tx s')) (as_tx s') (as_pool s)
      \<and> fst (CheckTransaction (as_tx s)) \<and> as_tx s' = snd (CheckTransaction (as_tx s))
      \<and> atmp_precheck A (s\<lparr>as_fMissingInputs := False, as_tx := as_tx s'\<rparr>))
    \<or> (r \<noteq> Inr True \<and> as_pool s' = as_pool s)"
proof -
  obtain ok tx where ct: "CheckTransaction (as_tx s) = (ok, tx)" by (metis prod.exhaust)
  let ?s = "s\<lparr>as_fMissingInputs := False, as_tx := tx\<rparr>"
  show ?thesis
  proof (cases "ok \<and> atmp_precheck A ?s")
    case True
    then have "atmp_inputs A fl fr ig ?s = (r, s')" using assms by (simp add: AcceptToMemoryPool_def ct Let_def)
    then have "adds_or_keeps A ?s (r, s')" using atmp_inputs_pool by metis
    then show ?thesis using True by (cases "r = Inr True") (simp_all add: adds_or_keeps_def ct)
  next
    case False
    then have "r = Inr False" "s' = ?s" using assms by (auto simp: AcceptToMemoryPool_def ct Let_def split: if_splits)
    then show ?thesis by simp
  qed
qed

text \<open>
  \<open>AcceptToMemoryPool\<close> keeps the index of the pool exact: it adds the transaction under its hash, and
  only when no outpoint it spends is spent in the pool already, or leaves the pool as it was.
\<close>

theorem AcceptToMemoryPool_keeps_index:
  assumes "mempool_ok (ae_GetHash A) (as_pool s)" "length (vin (as_tx s)) < 2 ^ 32"
    and "AcceptToMemoryPool A fLimitFree fRejectInsaneFee ignoreFees s = (r, s')"
  shows "mempool_ok (ae_GetHash A) (as_pool s')
    \<and> (if r = Inr True
       then pool_exists (as_pool s') (ae_GetHash A (as_tx s')) \<and> \<not> pool_exists (as_pool s) (ae_GetHash A (as_tx s'))
         \<and> (\<forall>txin\<in>set (vin (as_tx s')). mapNextTx (as_pool s) (prevout txin) = None)
       else as_pool s' = as_pool s)"
proof (cases "r = Inr True")
  case True
  note p = AcceptToMemoryPool_pool [OF assms(3)]
  then have q: "atmp_precheck A (s\<lparr>as_fMissingInputs := False, as_tx := as_tx s'\<rparr>)" "fst (CheckTransaction (as_tx s))"
    "as_tx s' = snd (CheckTransaction (as_tx s))" "as_pool s' = addUnchecked (ae_GetHash A (as_tx s')) (as_tx s') (as_pool s)"
    using True by blast+
  have add: "may_add (ae_GetHash A) (as_tx s') (as_pool s)"
    using atmp_precheck_may_add [OF q(1,2) _ assms(2)] q(3) by simp
  then show ?thesis
    using mempool_ok_add [OF assms(1) add] q(4) True
    by (auto simp: may_add_def pool_exists_def addUnchecked_def)
next
  case False
  then show ?thesis using AcceptToMemoryPool_pool [OF assms(3)] assms(1) by simp
qed

subsection \<open>Relayed transactions\<close>

lemma value_in_blank: "blank_inputs now db inputs \<Longrightarrow> value_in_loop tx inputs 0 ins = Inr 0"
proof (induction ins)
  case (Cons txin ins)
  have "GetOutputFor_Other tx txin inputs = Inr 0"
    using Cons.prems by (fastforce simp: GetOutputFor_Other_def blank_inputs_def CTransaction_SetNull_def split: option.split)
  then show ?case using Cons by (simp add: int64_def)
qed simp

lemma GetValueOut_loop_nonneg: "GetValueOut_loop n outs = Some v \<Longrightarrow> 0 \<le> n \<Longrightarrow> 0 \<le> v"
  by (induction n outs rule: GetValueOut_loop.induct) (auto simp: Let_def MoneyRange_def split: if_splits)

lemma GetMinFee_pos: "0 < GetMinFee tx n GMF_RELAY"
proof -
  have "0 \<le> uint n div 1000" by (simp add: pos_imp_zdiv_nonneg_iff)
  then show ?thesis by (auto simp: GetMinFee_def Let_def MIN_RELAY_TX_FEE_def MIN_TX_FEE_def MAX_MONEY_def COIN_def)
qed

text \<open>
  C19. A transaction that a peer relays (fees limited and not ignored, not a masternode broadcast) is never
  admitted: \<open>AcceptToMemoryPool\<close> asks for inputs that are on disk, \<open>FetchInputs\<close> does not read them, so the
  value that goes in counts as 0 and the fee is below the minimum.
\<close>

theorem AcceptToMemoryPool_never_relays:
  assumes "\<And>h t. ae_txdb A h = Some t \<Longrightarrow> ti_pos t \<noteq> mempool_pos"
    and "\<not> ae_isBroadcast A (ae_GetHash A (snd (CheckTransaction (as_tx s))))"
  shows "fst (AcceptToMemoryPool A True fRejectInsaneFee False s) \<noteq> Inr True"
proof -
  obtain ok tx where ct: "CheckTransaction (as_tx s) = (ok, tx)" by (metis prod.exhaust)
  show ?thesis
  proof (cases "IsCoinBase tx \<or> \<not> list_all (\<lambda>txin. ContainsTx (ae_txdb A) (op_hash (prevout txin))) (vin tx)")
    case True
    then show ?thesis unfolding AcceptToMemoryPool_def Let_def ct by (auto simp: atmp_precheck_def atmp_inputs_def Let_def)
  next
    case False
    then have "prevs_stored (ae_txdb A) tx"
      using assms(1) by (fastforce simp: prevs_stored_def list_all_iff ContainsTx_def)
    then obtain inputs inv' where f: "FetchInputs (ae_txdb A) (as_pool s) False False (ae_now A) tx (\<lambda>_. None) = (True, inputs, inv')"
      "blank_inputs (ae_now A) (ae_txdb A) inputs"
      using FetchInputs_blank False by blast
    have v: "GetValueIn tx inputs = Inr 0" using value_in_blank [OF f(2)] False by (simp add: GetValueIn_def)
    have fees: "\<not> atmp_fees A True fRejectInsaneFee False tx (0 - out)" if "GetValueOut tx = Some out" for out
    proof -
      have "0 \<le> out" using GetValueOut_loop_nonneg that by (simp add: GetValueOut_def)
      then have "0 - out < GetMinFee tx (size_CTransaction tx) GMF_RELAY" using GetMinFee_pos [of tx "size_CTransaction tx"] by linarith
      then show ?thesis using assms(2) ct by (simp add: atmp_fees_def Let_def)
    qed
    have stop: "fst (atmp_values A True fRejectInsaneFee False inputs t) \<noteq> Inr True" if "as_tx t = tx" for t
      using fees that by (auto simp: atmp_values_def Let_def v split: sum.splits option.splits)
    have "fst (atmp_inputs A True fRejectInsaneFee False (s\<lparr>as_fMissingInputs := False, as_tx := tx\<rparr>)) \<noteq> Inr True"
      using f(1) stop unfolding atmp_inputs_def Let_def by (auto split: prod.splits sum.splits)
    then show ?thesis unfolding AcceptToMemoryPool_def Let_def ct by simp
  qed
qed


text \<open>A node with an empty pool and the database of \<open>spent_db\<close>, that is offered a transaction.\<close>

definition sample_accept_env :: accept_env where
  "sample_accept_env = \<lparr>ae_TestNet = True, ae_nBestHeight = 10, ae_adjustedTime = 1000, ae_now = (\<lambda>_. 1000),
     ae_pindexBest = [], ae_txdb = spent_db, ae_mapLockedInputs = (\<lambda>_. None), ae_isBroadcast = (\<lambda>_. False),
     ae_rate_limited = (\<lambda>_. False), ae_script = sample_tx_env\<rparr>"

definition sample_accept_state :: accept_state where
  "sample_accept_state = \<lparr>as_pool = CTxMemPool_new, as_cache = empty_cache, as_setValidatedTx = {},
     as_fMissingInputs = False, as_tx = pool_parent\<rparr>"

lemma AcceptToMemoryPool_never_relays_witness:
  "fst (AcceptToMemoryPool sample_accept_env True False False sample_accept_state) \<noteq> Inr True"
proof (rule AcceptToMemoryPool_never_relays)
  show "ti_pos t \<noteq> mempool_pos" if "ae_txdb sample_accept_env h = Some t" for h t
    using that by (auto simp: sample_accept_env_def spent_db_def mempool_pos_def split: if_splits)
qed (simp add: sample_accept_env_def)

lemma AcceptToMemoryPool_keeps_index_witness:
  "\<exists>r s'. AcceptToMemoryPool sample_accept_env True False True sample_accept_state = (r, s')
     \<and> mempool_ok (ae_GetHash sample_accept_env) (as_pool s')"
proof -
  obtain r s' where "AcceptToMemoryPool sample_accept_env True False True sample_accept_state = (r, s')" by (metis prod.exhaust)
  moreover have "mempool_ok (ae_GetHash sample_accept_env) (as_pool sample_accept_state)"
    "length (vin (as_tx sample_accept_state)) < 2 ^ 32"
    by (simp_all add: sample_accept_state_def mempool_ok_new pool_parent_def)
  ultimately show ?thesis using AcceptToMemoryPool_keeps_index by blast
qed

end
