(* ===== verification/Check_Block.thy ===== *)
theory Check_Block imports Accept Block Keys begin

text \<open>
  The checks on a block that do not depend on its place in the chain (\<open>src/src/main.cpp\<close>):
  \<open>CBlock::CheckBlock\<close> with the masternode payment and the transaction locks, \<open>CheckBlockSignature\<close> and
  \<open>IsCanonicalBlockSignature\<close>. Parameters are the hash functions, the curve, the clock, the spork, the
  locked inputs, whether the node is downloading the chain, its best chain and the payee that the
  masternode code expects. Log messages and locks are left out.
\<close>

unbundle bit_operations_syntax

record ('pk, 'sig) check_env =
  ce_curve :: "('pk, 'sig) secp256k1"
  ce_hash :: "bytes \<Rightarrow> uint256"
  ce_scrypt :: "bytes \<Rightarrow> uint256"
  ce_pair :: "uint256 \<Rightarrow> uint256 \<Rightarrow> uint256"
  ce_bn :: bn_lib
  ce_adjustedTime :: int
  ce_filter_locks :: bool
  ce_mapLockedInputs :: "COutPoint \<Rightarrow> uint256 option"
  ce_initial_download :: bool
  ce_pindexBest :: chain
  ce_GetBlockPayee :: "int \<Rightarrow> bool \<times> script"

definition START_MASTERNODE_PAYMENTS :: u32 where "START_MASTERNODE_PAYMENTS = 1516001840"

definition ce_GetHash :: "('pk, 'sig) check_env \<Rightarrow> CTransaction \<Rightarrow> uint256" where
  "ce_GetHash E = CTransaction_GetHash (ce_hash E)"

subsection \<open>Signature\<close>

definition CheckBlockSignature :: "('pk, 'sig) check_env \<Rightarrow> CBlock \<Rightarrow> bool" where
  "CheckBlockSignature E b =
     (if CBlock_IsProofOfWork b then vchBlockSig b = []
      else if vchBlockSig b = [] then False
      else case Solver (scriptPubKey (vout (vtx b ! 1) ! 1)) of (ok, whichType, vSolutions) \<Rightarrow>
        if \<not> ok then False
        else if whichType = TX_PUBKEY
        then CPubKey_Verify (ce_curve E) (CPubKey_Set (vSolutions ! 0))
               (WRITEDATA 32 (CBlock_GetHash (ce_hash E) b)) (vchBlockSig b)
        else False)"

definition IsCanonicalBlockSignature :: "CBlock \<Rightarrow> bool" where
  "IsCanonicalBlockSignature b =
     (if CBlock_IsProofOfWork b then vchBlockSig b = [] else IsDERSignature (vchBlockSig b) False)"

subsection \<open>Stages of the check\<close>

text \<open>The shape of the list of transactions; \<open>False\<close> is an exit with score 100.\<close>

definition check_kinds :: "CBlock \<Rightarrow> bool" where
  "check_kinds b =
     (if vtx b = [] \<or> \<not> IsCoinBase (vtx b ! 0) then False
      else if list_ex IsCoinBase (drop 1 (vtx b)) then False
      else if CBlock_IsProofOfStake b then
        (if length (vout (vtx b ! 0)) \<noteq> 1 \<or> \<not> CTxOut_IsEmpty (vout (vtx b ! 0) ! 0) then False
         else if vtx b = [] \<or> \<not> IsCoinStake (vtx b ! 1) then False
         else \<not> list_ex IsCoinStake (drop 2 (vtx b)))
      else True)"

text \<open>The transaction locks; \<open>False\<close> is an exit with score 0.\<close>

definition check_locks :: "('pk, 'sig) check_env \<Rightarrow> CBlock \<Rightarrow> bool" where
  "check_locks E b =
     (if ce_filter_locks E then
        list_all (\<lambda>tx. IsCoinBase tx \<or>
          list_all (\<lambda>txin. case ce_mapLockedInputs E (prevout txin) of None \<Rightarrow> True
                         | Some h \<Rightarrow> h = ce_GetHash E tx) (vin tx)) (vtx b)
      else True)"

text \<open>
  The amount that is expected is the value of the last output of the coinstake: the loop that looks
  for it is left in its first turn.
\<close>

definition masternodePaymentAmount :: "CTransaction \<Rightarrow> int" where
  "masternodePaymentAmount coinstake = nValue (last (vout coinstake))"

definition check_payee :: "('pk, 'sig) check_env \<Rightarrow> CBlock \<Rightarrow> bool" where
  "check_payee E b =
     (case ce_GetBlockPayee E (nHeight (hd (ce_pindexBest E)) + 1) of (found, payee) \<Rightarrow>
        if \<not> found \<or> payee = [] then True
        else list_ex (\<lambda>txout. nValue txout = masternodePaymentAmount (vtx b ! 1) \<and> scriptPubKey txout = payee)
               (vout (vtx b ! 1)))"

definition check_masternode :: "('pk, 'sig) check_env \<Rightarrow> CBlock \<Rightarrow> bool" where
  "check_masternode E b =
     (if ce_initial_download E then True
      else if \<not> b_nTime b > START_MASTERNODE_PAYMENTS then True
      else if \<not> (CBlock_IsProofOfStake b \<and> ce_pindexBest E \<noteq> []) then True
      else if bi_hash (hd (ce_pindexBest E)) = hashPrevBlock b then check_payee E b
      else True)"

text \<open>
  The loop over the transactions. \<open>Some (d, txs)\<close> is the exit with score \<open>d\<close>; \<open>CheckTransaction\<close> has by
  then raised the score of the transaction it refuses.
\<close>

fun check_txs :: "int \<Rightarrow> CTransaction list \<Rightarrow> (int \<times> CTransaction list) option" where
  "check_txs blockTime [] = None"
| "check_txs blockTime (tx # txs) =
     (case CheckTransaction tx of (ok, tx') \<Rightarrow>
        if \<not> ok then Some (nDoS tx', tx' # txs)
        else if blockTime < uint (nTime tx) then Some (50, tx' # txs)
        else map_option (\<lambda>(d, rest). (d, tx' # rest)) (check_txs blockTime txs))"

definition block_sigops :: "CTransaction list \<Rightarrow> u32" where
  "block_sigops txs = foldl (\<lambda>n tx. n + of_nat (GetLegacySigOpCount tx)) 0 txs"

text \<open>The end: repeated transactions, signature operations, Merkle root.\<close>

definition check_root :: "('pk, 'sig) check_env \<Rightarrow> bool \<Rightarrow> CBlock \<Rightarrow> bool \<times> CBlock" where
  "check_root E fCheckMerkleRoot b =
     (if card (set (map (ce_GetHash E) (vtx b))) \<noteq> length (vtx b) then CBlock_DoS 100 False b
      else if block_sigops (vtx b) > MAX_BLOCK_SIGOPS then CBlock_DoS 100 False b
      else if fCheckMerkleRoot then
        (case BuildMerkleTree (ce_GetHash E) (ce_pair E) b of (root, b') \<Rightarrow>
           if hashMerkleRoot b \<noteq> root then CBlock_DoS 100 False b' else (True, b'))
      else (True, b))"

definition check_body :: "('pk, 'sig) check_env \<Rightarrow> bool \<Rightarrow> CBlock \<Rightarrow> bool \<times> CBlock" where
  "check_body E fCheckMerkleRoot b =
     (if \<not> check_locks E b then CBlock_DoS 0 False b
      else if \<not> check_masternode E b then CBlock_DoS 100 False b
      else case check_txs (CBlock_GetBlockTime b) (vtx b) of
        Some (d, txs) \<Rightarrow> CBlock_DoS d False (b\<lparr>vtx := txs\<rparr>)
      | None \<Rightarrow> check_root E fCheckMerkleRoot b)"

definition CheckBlock :: "('pk, 'sig) check_env \<Rightarrow> bool \<Rightarrow> bool \<Rightarrow> bool \<Rightarrow> CBlock \<Rightarrow> bool \<times> CBlock" where
  "CheckBlock E fCheckPOW fCheckMerkleRoot fCheckSig b =
     (if vtx b = [] \<or> length (vtx b) > unat MAX_BLOCK_SIZE \<or> size_CBlock b > MAX_BLOCK_SIZE then CBlock_DoS 100 False b
      else if fCheckPOW \<and> CBlock_IsProofOfWork b
              \<and> \<not> CheckProofOfWork (ce_bn E) (CBlock_GetPoWHash (ce_scrypt E) b) (nBits b) then CBlock_DoS 50 False b
      else if CBlock_GetBlockTime b > FutureDrift (ce_adjustedTime E) then (False, b)
      else if \<not> check_kinds b then CBlock_DoS 100 False b
      else if fCheckSig \<and> \<not> CheckBlockSignature E b then CBlock_DoS 100 False b
      else check_body E fCheckMerkleRoot b)"


subsection \<open>What an accepted block satisfies\<close>

definition one_coinbase :: "CBlock \<Rightarrow> bool" where
  "one_coinbase b \<longleftrightarrow> (\<forall>i < length (vtx b). IsCoinBase (vtx b ! i) \<longleftrightarrow> i = 0)"

definition one_coinstake :: "CBlock \<Rightarrow> bool" where
  "one_coinstake b \<longleftrightarrow> (\<exists>txout. vout (vtx b ! 0) = [txout] \<and> CTxOut_IsEmpty txout)
     \<and> (\<forall>i < length (vtx b). IsCoinStake (vtx b ! i) \<longleftrightarrow> i = 1)"

definition enough_work :: "('pk, 'sig) check_env \<Rightarrow> CBlock \<Rightarrow> bool" where
  "enough_work E b \<longleftrightarrow> (let target = CBigNum_SetCompact (ce_bn E) (nBits b) in
     0 < target \<and> target \<le> bnProofOfWorkLimit \<and> uint (CBlock_GetPoWHash (ce_scrypt E) b) \<le> target)"

definition block_valid :: "('pk, 'sig) check_env \<Rightarrow> bool \<Rightarrow> bool \<Rightarrow> bool \<Rightarrow> CBlock \<Rightarrow> bool" where
  "block_valid E pow root sig b \<longleftrightarrow>
     vtx b \<noteq> [] \<and> length (ser_CBlock False b) \<le> 30000000
     \<and> (pow \<and> CBlock_IsProofOfWork b \<longrightarrow> enough_work E b)
     \<and> uint (b_nTime b) \<le> ce_adjustedTime E + 300
     \<and> one_coinbase b \<and> (CBlock_IsProofOfStake b \<longrightarrow> one_coinstake b)
     \<and> (sig \<longrightarrow> CheckBlockSignature E b) \<and> check_locks E b \<and> check_masternode E b
     \<and> (\<forall>tx \<in> set (vtx b). fst (CheckTransaction tx) \<and> nTime tx \<le> b_nTime b)
     \<and> distinct (map (ce_GetHash E) (vtx b))
     \<and> sum_list (map GetLegacySigOpCount (vtx b)) \<le> 600000
     \<and> (root \<longrightarrow> hashMerkleRoot b = merkle_root (ce_pair E) (map (ce_GetHash E) (vtx b)))"

lemma list_ex_drop: "list_ex P (drop k xs) \<longleftrightarrow> (\<exists>i. k \<le> i \<and> i < length xs \<and> P (xs ! i))"
proof
  assume "list_ex P (drop k xs)"
  then obtain j where "j < length xs - k" "P (xs ! (k + j))" by (auto simp: list_ex_length)
  then show "\<exists>i. k \<le> i \<and> i < length xs \<and> P (xs ! i)" by (intro exI [of _ "k + j"]) simp
next
  assume "\<exists>i. k \<le> i \<and> i < length xs \<and> P (xs ! i)"
  then obtain i where i: "k \<le> i" "i < length xs" "P (xs ! i)" by blast
  then have "i - k < length (drop k xs)" "P (drop k xs ! (i - k))" by simp_all
  then show "list_ex P (drop k xs)" unfolding list_ex_length by blast
qed

lemma coinbase_not_coinstake: "IsCoinBase tx \<Longrightarrow> \<not> IsCoinStake tx"
  by (auto simp: IsCoinBase_def IsCoinStake_def)

lemma coinbase_iff:
  assumes "vtx b \<noteq> []"
  shows "IsCoinBase (vtx b ! 0) \<and> \<not> list_ex IsCoinBase (drop 1 (vtx b)) \<longleftrightarrow> one_coinbase b"
proof -
  have "(1 \<le> i) \<longleftrightarrow> (i \<noteq> 0)" for i :: nat by auto
  then show ?thesis using assms by (auto simp: list_ex_drop one_coinbase_def)
qed

lemma coinstake_iff:
  assumes "CBlock_IsProofOfStake b" "one_coinbase b"
  shows "length (vout (vtx b ! 0)) = 1 \<and> CTxOut_IsEmpty (vout (vtx b ! 0) ! 0) \<and> \<not> list_ex IsCoinStake (drop 2 (vtx b))
    \<longleftrightarrow> one_coinstake b"
proof -
  have s: "1 < length (vtx b)" "IsCoinStake (vtx b ! 1)" using assms(1) by (auto simp: CBlock_IsProofOfStake_def)
  have "0 < length (vtx b)" using s(1) by linarith
  then have "IsCoinBase (vtx b ! 0)" using assms(2) unfolding one_coinbase_def by blast
  then have 0: "\<not> IsCoinStake (vtx b ! 0)" by (rule coinbase_not_coinstake)
  have "\<not> list_ex IsCoinStake (drop 2 (vtx b)) \<longleftrightarrow> (\<forall>i < length (vtx b). IsCoinStake (vtx b ! i) \<longleftrightarrow> i = 1)"
  proof -
    have "i = 0 \<or> i = 1 \<or> 2 \<le> i" for i :: nat by auto
    then show ?thesis using 0 s unfolding list_ex_drop by (metis not_one_le_zero one_le_numeral numeral_le_one_iff semiring_norm(69))
  qed
  moreover have "length (vout (vtx b ! 0)) = 1 \<and> CTxOut_IsEmpty (vout (vtx b ! 0) ! 0) \<longleftrightarrow>
      (\<exists>txout. vout (vtx b ! 0) = [txout] \<and> CTxOut_IsEmpty txout)"
    by (auto simp: length_Suc_conv)
  ultimately show ?thesis by (auto simp: one_coinstake_def)
qed

lemma check_kinds_iff:
  assumes "vtx b \<noteq> []"
  shows "check_kinds b \<longleftrightarrow> one_coinbase b \<and> (CBlock_IsProofOfStake b \<longrightarrow> one_coinstake b)"
proof (cases "one_coinbase b")
  case True
  then have c: "IsCoinBase (vtx b ! 0)" "\<not> list_ex IsCoinBase (drop 1 (vtx b))" using coinbase_iff assms by blast+
  show ?thesis
  proof (cases "CBlock_IsProofOfStake b")
    case True
    then have "IsCoinStake (vtx b ! 1)" by (simp add: CBlock_IsProofOfStake_def)
    then show ?thesis using coinstake_iff [OF True \<open>one_coinbase b\<close>] True c \<open>one_coinbase b\<close> assms
      unfolding check_kinds_def by argo
  next
    case False
    then show ?thesis using c \<open>one_coinbase b\<close> assms by (simp add: check_kinds_def)
  qed
next
  case False
  then have "\<not> (IsCoinBase (vtx b ! 0) \<and> \<not> list_ex IsCoinBase (drop 1 (vtx b)))" using coinbase_iff assms by blast
  then show ?thesis using False assms by (auto simp: check_kinds_def)
qed

lemma CheckProofOfWork_iff:
  assumes "bn_lib_ok (ce_bn E)"
  shows "CheckProofOfWork (ce_bn E) (CBlock_GetPoWHash (ce_scrypt E) b) (nBits b) \<longleftrightarrow> enough_work E b"
proof -
  let ?t = "CBigNum_SetCompact (ce_bn E) (nBits b)"
  have "uint (of_int \<bar>?t\<bar> :: uint256) = ?t" if "0 < ?t" "?t \<le> bnProofOfWorkLimit"
    using that by (simp add: limit_values unsigned_of_int take_bit_int_eq_self)
  then show ?thesis
    by (auto simp: CheckProofOfWork_def enough_work_def Let_def getuint_value [OF assms] word_less_def)
qed

lemma check_txs_None:
  "check_txs (uint t) txs = None \<longleftrightarrow> (\<forall>tx \<in> set txs. fst (CheckTransaction tx) \<and> nTime tx \<le> t)"
  by (induction txs) (auto split: prod.splits simp: word_le_def)

subsubsection \<open>Sizes and signature operations\<close>

lemma sigops_le_bytes: "GetSigOpCount False s \<le> 20 * length s"
proof -
  have "sum_list (map sigop_cost is) \<le> 20 * length is" for "is"
    by (induction "is") (simp_all add: add_mono sigop_cost_le)
  then show ?thesis
    using length_instrs_le [of s] by (simp add: GetSigOpCount_def sigops_legacy) (meson le_trans mult_le_mono2)
qed

lemma ser_vector_sum: "length (ser_vector Ser v) \<ge> sum_list (map (\<lambda>x. length (Ser x)) v)"
  by (simp add: ser_vector_def length_concat comp_def)

lemma foldl_sum: "foldl (\<lambda>n x. n + f x) a xs = a + sum_list (map f xs)" for a :: "'a :: comm_monoid_add"
  by (induction xs arbitrary: a) (simp_all add: ac_simps)

lemma sum_list_scaled:
  "(\<And>x. x \<in> set xs \<Longrightarrow> f x \<le> c * g x) \<Longrightarrow> sum_list (map f xs) \<le> c * sum_list (map g xs)" for f g :: "'a \<Rightarrow> nat"
  by (induction xs) (simp_all add: add_mono distrib_left)

lemma legacy_sigops_le: "GetLegacySigOpCount tx \<le> 20 * length (ser_CTransaction tx)"
proof -
  have i: "sum_list (map (\<lambda>i. GetSigOpCount False (scriptSig i)) (vin tx)) \<le>
      20 * sum_list (map (\<lambda>i. length (ser_CTxIn i)) (vin tx))"
    by (rule sum_list_scaled) (rule order.trans [OF sigops_le_bytes], simp add: ser_CTxIn_def ser_bytes_def)
  have o: "sum_list (map (\<lambda>o'. GetSigOpCount False (scriptPubKey o')) (vout tx)) \<le>
      20 * sum_list (map (\<lambda>o'. length (ser_CTxOut o')) (vout tx))"
    by (rule sum_list_scaled) (rule order.trans [OF sigops_le_bytes], simp add: ser_CTxOut_def ser_bytes_def)
  have "sum_list (map (\<lambda>i. length (ser_CTxIn i)) (vin tx)) + sum_list (map (\<lambda>o'. length (ser_CTxOut o')) (vout tx))
      \<le> length (ser_CTransaction tx)"
    using ser_vector_sum [of ser_CTxIn "vin tx"] ser_vector_sum [of ser_CTxOut "vout tx"]
    by (simp add: ser_CTransaction_def)
  then show ?thesis using i o by (simp add: GetLegacySigOpCount_def foldl_sum)
qed

lemma block_body_length:
  "sum_list (map (\<lambda>tx. length (ser_CTransaction tx)) (vtx b)) \<le> length (ser_CBlock False b)"
  using ser_vector_sum [of ser_CTransaction "vtx b"] by (simp add: ser_CBlock_def)

lemma length_ser_CTransaction_pos: "0 < length (ser_CTransaction tx)"
  by (simp add: ser_CTransaction_def ser_int32_def length_WRITEDATA del: length_greater_0_conv)

lemma block_length: "length (vtx b) \<le> length (ser_CBlock False b)"
proof -
  have "length txs \<le> sum_list (map (\<lambda>tx. length (ser_CTransaction tx)) txs)" for txs
  proof (induction txs)
    case (Cons tx txs)
    then show ?case using length_ser_CTransaction_pos [of tx] by (simp del: length_greater_0_conv)
  qed simp
  then show ?thesis using block_body_length [of b] le_trans by blast
qed

lemma sum_list_words: "(\<Sum>x\<leftarrow>xs. of_nat (f x)) = (of_nat (\<Sum>x\<leftarrow>xs. f x) :: 'a :: len word)"
  by (induction xs) simp_all

lemma block_sigops_exact:
  assumes "length (ser_CBlock False b) \<le> 30000000"
  shows "unat (block_sigops (vtx b)) = sum_list (map GetLegacySigOpCount (vtx b))"
proof -
  have "block_sigops (vtx b) = of_nat (sum_list (map GetLegacySigOpCount (vtx b)))"
    by (simp add: block_sigops_def foldl_sum sum_list_words)
  moreover have "sum_list (map GetLegacySigOpCount (vtx b)) \<le> 20 * length (ser_CBlock False b)"
    using sum_list_scaled [of "vtx b" GetLegacySigOpCount 20 "\<lambda>tx. length (ser_CTransaction tx)"]
      legacy_sigops_le block_body_length [of b] by (meson le_trans mult_le_mono2)
  ultimately show ?thesis using assms by (simp add: unsigned_of_nat take_bit_nat_eq_self)
qed


subsection \<open>Acceptance\<close>

lemma check_root_fst:
  assumes "length (ser_CBlock False b) \<le> 30000000"
  shows "fst (check_root E root b) \<longleftrightarrow> distinct (map (ce_GetHash E) (vtx b))
     \<and> sum_list (map GetLegacySigOpCount (vtx b)) \<le> 600000
     \<and> (root \<longrightarrow> hashMerkleRoot b = merkle_root (ce_pair E) (map (ce_GetHash E) (vtx b)))"
proof -
  have n: "block_sigops (vtx b) > MAX_BLOCK_SIGOPS \<longleftrightarrow> \<not> sum_list (map GetLegacySigOpCount (vtx b)) \<le> 600000"
    using block_sigops_exact [OF assms] by (simp add: word_less_nat_alt MAX_BLOCK_SIGOPS_def MAX_BLOCK_SIZE_def not_le)
  have d: "card (set (map (ce_GetHash E) (vtx b))) \<noteq> length (vtx b) \<longleftrightarrow> \<not> distinct (map (ce_GetHash E) (vtx b))"
    using card_distinct [of "map (ce_GetHash E) (vtx b)"] distinct_card [of "map (ce_GetHash E) (vtx b)"]
    by (metis length_map)
  show ?thesis
    by (simp only: check_root_def n d CBlock_DoS_def BuildMerkleTree_eq prod.case if_distrib [of fst] fst_conv
        if_bool_eq_conj) argo
qed

lemma check_body_fst:
  "fst (check_body E root b) \<longleftrightarrow> check_locks E b \<and> check_masternode E b
     \<and> (\<forall>tx \<in> set (vtx b). fst (CheckTransaction tx) \<and> nTime tx \<le> b_nTime b) \<and> fst (check_root E root b)"
  unfolding check_txs_None [of "b_nTime b" "vtx b", symmetric]
  by (simp add: check_body_def CBlock_DoS_def CBlock_GetBlockTime_def split: option.split)

lemma CheckBlock_sizes:
  assumes "length (ser_CBlock False b) < 2 ^ 32"
  shows "length (vtx b) > unat MAX_BLOCK_SIZE \<or> size_CBlock b > MAX_BLOCK_SIZE \<longleftrightarrow> length (ser_CBlock False b) > 30000000"
proof -
  have "unat (size_CBlock b) = length (ser_CBlock False b)" using assms by (simp add: size_CBlock_length unsigned_of_nat take_bit_nat_eq_self)
  then show ?thesis using block_length [of b] by (auto simp: word_less_nat_alt MAX_BLOCK_SIZE_def)
qed

lemma CheckBlock_accepts:
  assumes "bn_lib_ok (ce_bn E)" "length (ser_CBlock False b) < 2 ^ 32"
  shows "fst (CheckBlock E pow root sig b) \<longleftrightarrow> block_valid E pow root sig b"
proof (cases "vtx b = [] \<or> length (ser_CBlock False b) > 30000000")
  case True
  then show ?thesis using CheckBlock_sizes [OF assms(2)] by (auto simp: CheckBlock_def block_valid_def CBlock_DoS_def)
next
  case False
  then have ne: "vtx b \<noteq> []" and le: "length (ser_CBlock False b) \<le> 30000000" by auto
  have "\<not> (vtx b = [] \<or> length (vtx b) > unat MAX_BLOCK_SIZE \<or> size_CBlock b > MAX_BLOCK_SIZE)"
    using CheckBlock_sizes [OF assms(2)] False by blast
  moreover have "CBlock_GetBlockTime b > FutureDrift (ce_adjustedTime E) \<longleftrightarrow> \<not> uint (b_nTime b) \<le> ce_adjustedTime E + 300"
    by (simp add: CBlock_GetBlockTime_def FutureDrift_def DRIFT_def not_le)
  ultimately have "fst (CheckBlock E pow root sig b) \<longleftrightarrow>
      (pow \<and> CBlock_IsProofOfWork b \<longrightarrow> enough_work E b) \<and> uint (b_nTime b) \<le> ce_adjustedTime E + 300
      \<and> (one_coinbase b \<and> (CBlock_IsProofOfStake b \<longrightarrow> one_coinstake b)) \<and> (sig \<longrightarrow> CheckBlockSignature E b)
      \<and> fst (check_body E root b)"
    by (simp only: CheckBlock_def CBlock_DoS_def if_False if_distrib [of fst] fst_conv if_bool_eq_conj
        check_kinds_iff [OF ne] CheckProofOfWork_iff [OF assms(1)]) argo
  then show ?thesis using ne le unfolding block_valid_def check_body_fst check_root_fst [OF le] by blast
qed

text \<open>
  C8. \<open>CheckBlock\<close> accepts exactly the valid blocks: a bounded serialisation, enough work under a target
  in range, a time at most five minutes ahead, one coinbase and it is first, for proof of stake one
  coinstake and it is second after an empty coinbase, the block signature, the transaction locks, the
  masternode payment, every transaction passing \<open>CheckTransaction\<close> with a time not after the block's, no
  transaction hash twice, at most 600000 signature operations, and the recursive Merkle root.
\<close>

theorem CheckBlock_iff:
  assumes "bn_lib_ok (ce_bn E)" "length (ser_CBlock False b) < 2 ^ 32"
  shows "fst (CheckBlock E pow root sig b) \<longleftrightarrow> block_valid E pow root sig b"
  using assms by (rule CheckBlock_accepts)


subsection \<open>A block that is accepted\<close>

text \<open>
  A proof-of-work block whose third transaction is a coinstake: only blocks whose second transaction is
  one are searched for more of them.
\<close>

definition sample_coinbase :: CTransaction where
  "sample_coinbase = \<lparr>nVersion = 1, nTime = 1000,
     vin = [\<lparr>prevout = COutPoint_SetNull, scriptSig = [0x51, 0x51], prevPubKey = [], nSequence = 0\<rparr>],
     vout = [\<lparr>nValue = 7, nRounds = -10, scriptPubKey = [0x51]\<rparr>], nLockTime = 0, nDoS = 0\<rparr>"

definition stray_coinstake :: CTransaction where
  "stray_coinstake = sample_tx\<lparr>vout := [\<lparr>nValue = 0, nRounds = -10, scriptPubKey = []\<rparr>,
     \<lparr>nValue = 9, nRounds = -10, scriptPubKey = [0x51]\<rparr>]\<rparr>"

definition stray_block :: CBlock where
  "stray_block = CBlock_SetNull\<lparr>nBits := 0x03123456, b_nTime := 2000, hashMerkleRoot := 0,
     vtx := [sample_coinbase, sample_tx, stray_coinstake]\<rparr>"

definition sample_check_env :: "(bytes, bytes) check_env" where
  "sample_check_env = \<lparr>ce_curve = toy_curve, ce_hash = (\<lambda>s. of_nat (length s)), ce_scrypt = (\<lambda>_. 5),
     ce_pair = (\<lambda>a b. 0), ce_bn = ref_lib, ce_adjustedTime = 1900, ce_filter_locks = True,
     ce_mapLockedInputs = (\<lambda>_. None), ce_initial_download = True, ce_pindexBest = [],
     ce_GetBlockPayee = (\<lambda>_. (False, []))\<rparr>"

lemma stray_kinds:
  "\<not> IsCoinBase sample_tx" "IsCoinBase sample_coinbase" "\<not> IsCoinBase stray_coinstake"
  "\<not> IsCoinStake sample_coinbase" "\<not> IsCoinStake sample_tx" "IsCoinStake stray_coinstake"
  by (simp_all add: IsCoinBase_def IsCoinStake_def sample_tx_def sample_coinbase_def stray_coinstake_def
      COutPoint_IsNull_def COutPoint_SetNull_def CTxOut_IsEmpty_def)

lemma stray_checked:
  "fst (CheckTransaction sample_coinbase)" "fst (CheckTransaction stray_coinstake)"
  by (simp_all add: sample_coinbase_def stray_coinstake_def sample_tx_def check_defs COutPoint_SetNull_def)

lemma stray_lengths:
  "length (ser_CTransaction sample_coinbase) = 67" "length (ser_CTransaction sample_tx) = 66"
  "length (ser_CTransaction stray_coinstake) = 75"
  by (simp_all add: ser_CTransaction_def ser_vector_def ser_CTxIn_def ser_CTxOut_def ser_COutPoint_def ser_bytes_def
      ser_int32_def ser_int64_def WriteCompactSize_def sample_coinbase_def sample_tx_def stray_coinstake_def)

lemma stray_block_valid:
  "block_valid sample_check_env True True True stray_block" "CBlock_IsProofOfWork stray_block"
  "length (ser_CBlock False stray_block) \<le> 15000"
proof -
  show pow: "CBlock_IsProofOfWork stray_block"
    by (simp add: CBlock_IsProofOfWork_def CBlock_IsProofOfStake_def stray_block_def stray_kinds)
  show len: "length (ser_CBlock False stray_block) \<le> 15000"
    by (simp add: ser_CBlock_def ser_header_def ser_vector_def ser_bytes_def WriteCompactSize_def stray_block_def
        stray_lengths CBlock_SetNull_def ser_int32_def)
  have work: "enough_work sample_check_env stray_block"
    using retarget_sample(2)
    by (simp add: enough_work_def Let_def stray_block_def sample_check_env_def CBlock_GetPoWHash_def limit_values)
  have one: "one_coinbase stray_block"
    by (auto simp: one_coinbase_def stray_block_def stray_kinds less_Suc_eq numeral_3_eq_3)
  have ids: "map (ce_GetHash sample_check_env) (vtx stray_block) = [67, 66, 75]"
    by (simp add: stray_block_def ce_GetHash_def sample_check_env_def CTransaction_GetHash_def stray_lengths)
  show "block_valid sample_check_env True True True stray_block"
    unfolding block_valid_def ids
  proof (intro conjI impI)
    show "sum_list (map GetLegacySigOpCount (vtx stray_block)) \<le> 600000"
      using legacy_sigops_le [of sample_coinbase] legacy_sigops_le [of sample_tx] legacy_sigops_le [of stray_coinstake]
      by (simp add: stray_block_def stray_lengths)
    show "hashMerkleRoot stray_block = merkle_root (ce_pair sample_check_env) [67, 66, 75]"
      by (simp add: merkle_root.simps stray_block_def sample_check_env_def)
    show "\<forall>tx \<in> set (vtx stray_block). fst (CheckTransaction tx) \<and> nTime tx \<le> b_nTime stray_block"
      using stray_checked sample_tx_accepted
      by (simp add: stray_block_def) (simp add: sample_coinbase_def sample_tx_def stray_coinstake_def)
    show "CheckBlockSignature sample_check_env stray_block"
      using pow by (simp add: CheckBlockSignature_def stray_block_def CBlock_SetNull_def)
    show "one_coinstake stray_block" if "CBlock_IsProofOfStake stray_block" using that pow by (simp add: CBlock_IsProofOfWork_def)
  qed (use pow len work one in \<open>simp_all add: check_locks_def check_masternode_def sample_check_env_def stray_block_def list_all_iff\<close>)
qed

theorem CheckBlock_iff_witness:
  "fst (CheckBlock sample_check_env True True True stray_block) \<and> CBlock_IsProofOfWork stray_block
   \<and> IsCoinStake (vtx stray_block ! 2)"
  using CheckBlock_iff [of sample_check_env stray_block True True True] stray_block_valid ref_lib_ok
  by (simp add: stray_kinds) (simp add: sample_check_env_def stray_block_def stray_kinds)


subsection \<open>Repeated transactions\<close>

lemma check_root_distinct: "fst (check_root E root b) \<Longrightarrow> distinct (map (ce_GetHash E) (vtx b))"
  using card_distinct [of "map (ce_GetHash E) (vtx b)"]
  by (simp add: check_root_def CBlock_DoS_def del: set_map distinct_map split: if_splits)

lemma CheckBlock_distinct: "fst (CheckBlock E pow root sig b) \<Longrightarrow> distinct (map (ce_GetHash E) (vtx b))"
  using check_root_distinct [of E root b]
  by (simp add: CheckBlock_def CBlock_DoS_def check_body_fst del: distinct_map split: if_splits)

text \<open>
  C12. The block with its last transaction repeated cannot pass for the original: with an odd number of
  transactions it has the same header, hash and Merkle root, but \<open>CheckBlock\<close> refuses it under all flags.
\<close>

theorem CheckBlock_rejects_repeated_tail:
  assumes "odd (length (vtx b))" "length (vtx b) > 1" "b' = b\<lparr>vtx := vtx b @ [last (vtx b)]\<rparr>"
  shows "CBlock_GetHash (ce_hash E) b' = CBlock_GetHash (ce_hash E) b
     \<and> fst (BuildMerkleTree (ce_GetHash E) (ce_pair E) b') = fst (BuildMerkleTree (ce_GetHash E) (ce_pair E) b)
     \<and> \<not> fst (CheckBlock E pow root sig b')"
proof (intro conjI)
  show "CBlock_GetHash (ce_hash E) b' = CBlock_GetHash (ce_hash E) b"
    by (simp add: assms(3) CBlock_GetHash_def ser_header_def)
  show "fst (BuildMerkleTree (ce_GetHash E) (ce_pair E) b') = fst (BuildMerkleTree (ce_GetHash E) (ce_pair E) b)"
    using merkle_root_duplicate [of b "ce_GetHash E" "ce_pair E"] assms by simp
  have "vtx b \<noteq> []" using assms(2) by auto
  then show "\<not> fst (CheckBlock E pow root sig b')"
    using CheckBlock_distinct [of E pow root sig b'] by (auto simp: assms(3))
qed

theorem CheckBlock_rejects_repeated_tail_witness:
  "\<not> fst (CheckBlock sample_check_env False True False (stray_block\<lparr>vtx := vtx stray_block @ [stray_coinstake]\<rparr>))"
  using CheckBlock_rejects_repeated_tail [of stray_block _ sample_check_env False True False]
  by (simp add: stray_block_def)

end
