(* ===== verification/Tx_Database.thy ===== *)
theory Tx_Database imports Connect Block begin

text \<open>
  The database of the node (\<open>src/src/txdb-leveldb.h\<close>, \<open>txdb-leveldb.cpp\<close>): \<open>CTxDB\<close>, which keeps the writes of
  a transaction in a batch and looks there first, and the tables kept in it under prefixed keys: the
  index of transactions, addresses, blocks and the best chain. LevelDB is a map from keys to values; its
  answer to a write (\<open>ok\<close>) is a parameter, and a refused write changes nothing. A write to a database
  opened for reading, and a transaction begun twice or ended without begin, fail an \<open>assert\<close> (\<open>None\<close>). A damaged
  record reads as none: the members that the code fills before the exception are not kept.
\<close>

type_synonym uint160 = "160 word"

datatype batch_op = BatchPut bytes bytes | BatchDelete bytes

record CTxDB =
  pdb :: "bytes \<Rightarrow> bytes option"
  activeBatch :: "batch_op list option"
  fReadOnly :: bool

subsection \<open>Batches\<close>

text \<open>The scanner visits the entries of a batch in order; its state is (found, value, deleted).\<close>

fun CBatchScanner_visit :: "bytes \<Rightarrow> batch_op \<Rightarrow> bool \<times> bytes \<times> bool \<Rightarrow> bool \<times> bytes \<times> bool" where
  "CBatchScanner_visit needle (BatchPut k v) (foundEntry, foundValue, deleted) =
     (if k = needle then (True, v, False) else (foundEntry, foundValue, deleted))"
| "CBatchScanner_visit needle (BatchDelete k) (foundEntry, foundValue, deleted) =
     (if k = needle then (True, foundValue, True) else (foundEntry, foundValue, deleted))"

definition ScanBatch :: "batch_op list \<Rightarrow> bytes \<Rightarrow> bool \<times> bytes \<times> bool" where
  "ScanBatch ops key = fold (CBatchScanner_visit key) ops (False, [], False)"

subsection \<open>Operations on bytes\<close>

definition db_Read :: "CTxDB \<Rightarrow> bytes \<Rightarrow> bytes option" where
  "db_Read db key =
     (case activeBatch db of
        Some ops \<Rightarrow> (case ScanBatch ops key of (found, value, deleted) \<Rightarrow>
          if deleted then None else if \<not> found then pdb db key else Some value)
      | None \<Rightarrow> pdb db key)"

definition db_Exists :: "CTxDB \<Rightarrow> bytes \<Rightarrow> bool" where
  "db_Exists db key =
     (case activeBatch db of
        Some ops \<Rightarrow> (case ScanBatch ops key of (found, value, deleted) \<Rightarrow>
          if found \<and> \<not> deleted then True else pdb db key \<noteq> None)
      | None \<Rightarrow> pdb db key \<noteq> None)"

definition db_Write :: "bool \<Rightarrow> bytes \<Rightarrow> bytes \<Rightarrow> CTxDB \<Rightarrow> (bool \<times> CTxDB) option" where
  "db_Write ok key value db =
     (if fReadOnly db then None
      else case activeBatch db of
        Some ops \<Rightarrow> Some (True, db\<lparr>activeBatch := Some (ops @ [BatchPut key value])\<rparr>)
      | None \<Rightarrow> Some (if ok then (True, db\<lparr>pdb := (pdb db)(key \<mapsto> value)\<rparr>) else (False, db)))"

definition db_Erase :: "bool \<Rightarrow> bytes \<Rightarrow> CTxDB \<Rightarrow> (bool \<times> CTxDB) option" where
  "db_Erase ok key db =
     (if fReadOnly db then None
      else case activeBatch db of
        Some ops \<Rightarrow> Some (True, db\<lparr>activeBatch := Some (ops @ [BatchDelete key])\<rparr>)
      | None \<Rightarrow> Some (if ok then (True, db\<lparr>pdb := (pdb db)(key := None)\<rparr>) else (False, db)))"

definition TxnBegin :: "CTxDB \<Rightarrow> (bool \<times> CTxDB) option" where
  "TxnBegin db = (if activeBatch db \<noteq> None then None else Some (True, db\<lparr>activeBatch := Some []\<rparr>))"

text \<open>What LevelDB does with a batch: apply its entries in order.\<close>

fun apply_op :: "batch_op \<Rightarrow> (bytes \<Rightarrow> bytes option) \<Rightarrow> (bytes \<Rightarrow> bytes option)" where
  "apply_op (BatchPut k v) m = m(k \<mapsto> v)"
| "apply_op (BatchDelete k) m = m(k := None)"

definition TxnCommit :: "bool \<Rightarrow> CTxDB \<Rightarrow> (bool \<times> CTxDB) option" where
  "TxnCommit ok db =
     (case activeBatch db of
        None \<Rightarrow> None
      | Some ops \<Rightarrow> Some (if ok then (True, db\<lparr>pdb := fold apply_op ops (pdb db), activeBatch := None\<rparr>)
                          else (False, db\<lparr>activeBatch := None\<rparr>)))"

definition TxnAbort :: "CTxDB \<Rightarrow> bool \<times> CTxDB" where
  "TxnAbort db = (True, db\<lparr>activeBatch := None\<rparr>)"

subsection \<open>Keys and values\<close>

definition db_key :: "string \<Rightarrow> bytes \<Rightarrow> bytes" where
  "db_key name rest = ser_bytes (map of_char name) @ rest"

definition db_value :: "'a reader \<Rightarrow> bytes option \<Rightarrow> 'a option" where
  "db_value Unser v = (case v of None \<Rightarrow> None | Some s \<Rightarrow> map_option fst (Unser s))"

definition tx_key :: "uint256 \<Rightarrow> bytes" where "tx_key h = db_key ''tx'' (WRITEDATA 32 h)"
definition adr_key :: "uint160 \<Rightarrow> bytes" where "adr_key a = db_key ''adr'' (WRITEDATA 20 a)"
definition blockindex_key :: "uint256 \<Rightarrow> bytes" where "blockindex_key h = db_key ''blockindex'' (WRITEDATA 32 h)"
definition best_key :: bytes where "best_key = db_key ''hashBestChain'' []"
definition version_key :: bytes where "version_key = db_key ''version'' []"

definition ser_CDiskTxPos :: "CDiskTxPos \<Rightarrow> bytes" where
  "ser_CDiskTxPos p = WRITEDATA 4 (tp_nFile p) @ WRITEDATA 4 (tp_nBlockPos p) @ WRITEDATA 4 (tp_nTxPos p)"

definition unser_CDiskTxPos :: "CDiskTxPos reader" where
  "unser_CDiskTxPos s = do {
     (f, s1) \<leftarrow> READDATA 4 s;
     (b, s2) \<leftarrow> READDATA 4 s1;
     (t, s3) \<leftarrow> READDATA 4 s2;
     Some (\<lparr>tp_nFile = f, tp_nBlockPos = b, tp_nTxPos = t\<rparr>, s3) }"

definition ser_CTxIndex :: "int \<Rightarrow> CTxIndex \<Rightarrow> bytes" where
  "ser_CTxIndex stream_version t =
     ser_int32 stream_version @ ser_CDiskTxPos (ti_pos t) @ ser_vector ser_CDiskTxPos (vSpent t)"

definition unser_CTxIndex :: "CTxIndex reader" where
  "unser_CTxIndex s = do {
     (_, s1) \<leftarrow> unser_int32 s;
     (p, s2) \<leftarrow> unser_CDiskTxPos s1;
     (v, s3) \<leftarrow> unser_vector unser_CDiskTxPos s2;
     Some (\<lparr>ti_pos = p, vSpent = v\<rparr>, s3) }"

subsection \<open>The tables\<close>

text \<open>\<open>v\<close> is the version of the stream, \<open>CLIENT_VERSION\<close>.\<close>

definition db_ReadAddrIndex :: "CTxDB \<Rightarrow> uint160 \<Rightarrow> uint256 list option" where
  "db_ReadAddrIndex db addrHash = db_value (unser_vector (READDATA 32)) (db_Read db (adr_key addrHash))"

definition db_WriteAddrIndex :: "bool \<Rightarrow> uint160 \<Rightarrow> uint256 \<Rightarrow> CTxDB \<Rightarrow> (bool \<times> CTxDB) option" where
  "db_WriteAddrIndex ok addrHash txHash db =
     (case db_ReadAddrIndex db addrHash of
        None \<Rightarrow> db_Write ok (adr_key addrHash) (ser_vector (WRITEDATA 32) [txHash]) db
      | Some txHashes \<Rightarrow>
          if txHash \<notin> set txHashes
          then db_Write ok (adr_key addrHash) (ser_vector (WRITEDATA 32) (txHashes @ [txHash])) db
          else Some (True, db))"

definition db_ReadTxIndex :: "CTxDB \<Rightarrow> uint256 \<Rightarrow> bool \<times> CTxIndex" where
  "db_ReadTxIndex db h =
     (case db_value unser_CTxIndex (db_Read db (tx_key h)) of None \<Rightarrow> (False, CTxIndex_SetNull) | Some t \<Rightarrow> (True, t))"

definition db_UpdateTxIndex :: "int \<Rightarrow> bool \<Rightarrow> uint256 \<Rightarrow> CTxIndex \<Rightarrow> CTxDB \<Rightarrow> (bool \<times> CTxDB) option" where
  "db_UpdateTxIndex v ok h t db = db_Write ok (tx_key h) (ser_CTxIndex v t) db"

definition db_AddTxIndex ::
  "(CTransaction \<Rightarrow> uint256) \<Rightarrow> int \<Rightarrow> bool \<Rightarrow> CTransaction \<Rightarrow> CDiskTxPos \<Rightarrow> CTxDB \<Rightarrow> (bool \<times> CTxDB) option" where
  "db_AddTxIndex GetHash v ok tx p db =
     db_Write ok (tx_key (GetHash tx)) (ser_CTxIndex v (CTxIndex_new p (length (vout tx)))) db"

definition db_EraseTxIndex :: "(CTransaction \<Rightarrow> uint256) \<Rightarrow> bool \<Rightarrow> CTransaction \<Rightarrow> CTxDB \<Rightarrow> (bool \<times> CTxDB) option" where
  "db_EraseTxIndex GetHash ok tx db = db_Erase ok (tx_key (GetHash tx)) db"

definition db_ContainsTx :: "CTxDB \<Rightarrow> uint256 \<Rightarrow> bool" where
  "db_ContainsTx db h = db_Exists db (tx_key h)"

text \<open>
  Reading a transaction opens the block file and seeks (\<open>opens\<close> says whether that succeeds), and does not
  read: the line that would is commented out, so the object stays as it was. The overloads of
  \<open>CTransaction::ReadFromDisk\<close> that look up the index first answer true once the entry is found.
\<close>

definition ReadFromDisk_pos :: "(CDiskTxPos \<Rightarrow> bool) \<Rightarrow> CDiskTxPos \<Rightarrow> CTransaction \<Rightarrow> bool \<times> CTransaction" where
  "ReadFromDisk_pos opens pos tx = (opens pos, tx)"

definition ReadFromDisk_hash ::
  "(CDiskTxPos \<Rightarrow> bool) \<Rightarrow> CTxDB \<Rightarrow> uint256 \<Rightarrow> CTransaction \<Rightarrow> bool \<times> CTransaction \<times> CTxIndex" where
  "ReadFromDisk_hash opens db h tx =
     (case db_ReadTxIndex db h of (found, t) \<Rightarrow>
        if \<not> found then (False, tx, t)
        else case ReadFromDisk_pos opens (ti_pos t) tx of (_, tx) \<Rightarrow> (True, tx, t))"

definition ReadFromDisk_outpoint ::
  "(CDiskTxPos \<Rightarrow> bool) \<Rightarrow> CTxDB \<Rightarrow> COutPoint \<Rightarrow> CTransaction \<Rightarrow> bool \<times> CTransaction \<times> CTxIndex" where
  "ReadFromDisk_outpoint opens db outpoint tx = ReadFromDisk_hash opens db (op_hash outpoint) tx"

definition db_ReadDiskTx ::
  "(CDiskTxPos \<Rightarrow> bool) \<Rightarrow> u32 \<Rightarrow> CTxDB \<Rightarrow> uint256 \<Rightarrow> bool \<times> CTransaction \<times> CTxIndex" where
  "db_ReadDiskTx opens now db h =
     (case db_ReadTxIndex db h of (found, t) \<Rightarrow>
        if \<not> found then (False, CTransaction_SetNull now, t)
        else case ReadFromDisk_pos opens (ti_pos t) (CTransaction_SetNull now) of (ok, tx) \<Rightarrow> (ok, tx, t))"

definition db_ReadDiskTx_outpoint ::
  "(CDiskTxPos \<Rightarrow> bool) \<Rightarrow> u32 \<Rightarrow> CTxDB \<Rightarrow> COutPoint \<Rightarrow> bool \<times> CTransaction \<times> CTxIndex" where
  "db_ReadDiskTx_outpoint opens now db outpoint = db_ReadDiskTx opens now db (op_hash outpoint)"

text \<open>The key is computed first; an entry that computes its hash stores it and is then written with it.\<close>

definition db_WriteBlockIndex ::
  "(bytes \<Rightarrow> uint256) \<Rightarrow> bool \<Rightarrow> int \<Rightarrow> int \<Rightarrow> bool \<Rightarrow> CDiskBlockIndex \<Rightarrow> CTxDB \<Rightarrow> (bool \<times> CTxDB) option" where
  "db_WriteBlockIndex hash fUseFastIndex now v ok p db =
     (case CDiskBlockIndex_GetBlockHash hash fUseFastIndex now p of (h, p) \<Rightarrow>
        db_Write ok (blockindex_key h) (ser_CDiskBlockIndex False v p) db)"

definition db_ReadHashBestChain :: "CTxDB \<Rightarrow> uint256 option" where
  "db_ReadHashBestChain db = db_value (READDATA 32) (db_Read db best_key)"

definition db_WriteHashBestChain :: "bool \<Rightarrow> uint256 \<Rightarrow> CTxDB \<Rightarrow> (bool \<times> CTxDB) option" where
  "db_WriteHashBestChain ok h db = db_Write ok best_key (WRITEDATA 32 h) db"

definition db_ReadVersion :: "CTxDB \<Rightarrow> bool \<times> int" where
  "db_ReadVersion db = (case db_value unser_int32 (db_Read db version_key) of None \<Rightarrow> (False, 0) | Some v \<Rightarrow> (True, v))"

definition db_WriteVersion :: "bool \<Rightarrow> int \<Rightarrow> CTxDB \<Rightarrow> (bool \<times> CTxDB) option" where
  "db_WriteVersion ok v db = db_Write ok version_key (ser_int32 v) db"


subsection \<open>Key-value stores and tables in them\<close>

locale key_value =
  fixes get :: "'s \<Rightarrow> bytes \<Rightarrow> bytes option" and put :: "bytes \<Rightarrow> bytes \<Rightarrow> 's \<Rightarrow> 's" and del :: "bytes \<Rightarrow> 's \<Rightarrow> 's"
  assumes get_put: "get (put k v s) = (get s)(k \<mapsto> v)"
    and get_del: "get (del k s) = (get s)(k := None)"

text \<open>A table: keys that tell its entries apart, and values that are read back from their encoding.\<close>

locale table = key_value get put del
  for get :: "'s \<Rightarrow> bytes \<Rightarrow> bytes option" and put :: "bytes \<Rightarrow> bytes \<Rightarrow> 's \<Rightarrow> 's" and del :: "bytes \<Rightarrow> 's \<Rightarrow> 's" +
  fixes key :: "'k \<Rightarrow> bytes" and Ser :: "'v \<Rightarrow> bytes" and Unser :: "'v reader" and wf :: "'v \<Rightarrow> bool"
  assumes key_inject: "key a = key b \<longleftrightarrow> a = b"
    and Unser_Ser: "wf x \<Longrightarrow> Unser (Ser x @ t) = Some (x, t)"
begin

lemma value_Ser: "wf x \<Longrightarrow> db_value Unser (Some (Ser x)) = Some x"
  using Unser_Ser [of x "[]"] by (simp add: db_value_def)

lemma lookup_put:
  "wf x \<Longrightarrow> (\<lambda>b. db_value Unser (get (put (key a) (Ser x) s) (key b))) = (\<lambda>b. db_value Unser (get s (key b)))(a \<mapsto> x)"
  by (rule ext) (simp add: get_put key_inject value_Ser)

lemma lookup_del:
  "(\<lambda>b. db_value Unser (get (del (key a) s) (key b))) = (\<lambda>b. db_value Unser (get s (key b)))(a := None)"
  by (rule ext) (simp add: get_del key_inject db_value_def)

lemma lookup_put_other:
  "(\<And>b. k \<noteq> key b) \<Longrightarrow> (\<lambda>b. db_value Unser (get (put k v s) (key b))) = (\<lambda>b. db_value Unser (get s (key b)))"
  by (rule ext) (metis get_put fun_upd_other)

end

subsection \<open>The database is such a store\<close>

definition db_put :: "bytes \<Rightarrow> bytes \<Rightarrow> CTxDB \<Rightarrow> CTxDB" where
  "db_put k v db = (case activeBatch db of Some ops \<Rightarrow> db\<lparr>activeBatch := Some (ops @ [BatchPut k v])\<rparr>
     | None \<Rightarrow> db\<lparr>pdb := (pdb db)(k \<mapsto> v)\<rparr>)"

definition db_del :: "bytes \<Rightarrow> CTxDB \<Rightarrow> CTxDB" where
  "db_del k db = (case activeBatch db of Some ops \<Rightarrow> db\<lparr>activeBatch := Some (ops @ [BatchDelete k])\<rparr>
     | None \<Rightarrow> db\<lparr>pdb := (pdb db)(k := None)\<rparr>)"

lemma db_Write_put: "\<not> fReadOnly db \<Longrightarrow> db_Write True k v db = Some (True, db_put k v db)"
  by (simp add: db_Write_def db_put_def split: option.split)

lemma db_Erase_del: "\<not> fReadOnly db \<Longrightarrow> db_Erase True k db = Some (True, db_del k db)"
  by (simp add: db_Erase_def db_del_def split: option.split)

lemma fReadOnly_put [simp]: "fReadOnly (db_put k v db) = fReadOnly db" "fReadOnly (db_del k db) = fReadOnly db"
  by (simp_all add: db_put_def db_del_def split: option.split)

definition picked :: "bool \<times> bytes \<times> bool \<Rightarrow> bytes option \<Rightarrow> bytes option" where
  "picked st x = (case st of (found, value, deleted) \<Rightarrow> if deleted then None else if \<not> found then x else Some value)"

lemma scan_apply:
  "m k = picked st x \<Longrightarrow> fold apply_op ops m k = picked (fold (CBatchScanner_visit k) ops st) x"
proof (induction ops arbitrary: m st)
  case (Cons op ops)
  have "apply_op op m k = picked (CBatchScanner_visit k op st) x"
    using Cons.prems by (cases op; cases st) (auto simp: picked_def)
  then show ?case using Cons.IH by simp
qed simp

lemma db_Read_view:
  "db_Read db = (case activeBatch db of None \<Rightarrow> pdb db | Some ops \<Rightarrow> fold apply_op ops (pdb db))"
proof (rule ext)
  fix k
  have "fold apply_op ops (pdb db) k = picked (ScanBatch ops k) (pdb db k)" for ops
    unfolding ScanBatch_def by (rule scan_apply) (simp add: picked_def)
  then show "db_Read db k = (case activeBatch db of None \<Rightarrow> pdb db | Some ops \<Rightarrow> fold apply_op ops (pdb db)) k"
    by (simp add: db_Read_def picked_def split: option.split)
qed

interpretation db: key_value db_Read db_put db_del
  by unfold_locales (simp_all add: db_Read_view db_put_def db_del_def split: option.split)

subsubsection \<open>Its keys and values\<close>

lemma WRITEDATA_inject:
  assumes "LENGTH('a) = 8 * k"
  shows "WRITEDATA k (x :: 'a::len word) = WRITEDATA k y \<longleftrightarrow> x = y"
proof
  assume "WRITEDATA k x = WRITEDATA k y"
  then have "READDATA k (WRITEDATA k x @ []) = (READDATA k (WRITEDATA k y @ []) :: ('a word \<times> bytes) option)" by simp
  then show "x = y" by (simp only: READDATA_WRITEDATA [OF assms] option.inject prod.inject)
qed simp

lemma of_char_inject: "map of_char a = (map of_char b :: bytes) \<longleftrightarrow> a = b"
proof -
  have "inj (of_char :: char \<Rightarrow> byte)"
  proof (rule injI)
    fix c d :: char assume "of_char c = (of_char d :: byte)"
    then have "(of_nat (of_char c) :: byte) = of_nat (of_char d)" by (simp only: of_nat_of_char)
    from arg_cong [OF this, of unat] have "take_bit 8 (of_char c :: nat) = take_bit 8 (of_char d)"
      by (simp add: unsigned_of_nat del: of_nat_of_char)
    moreover have "(of_char c :: nat) < 256" "(of_char d :: nat) < 256" by simp_all
    ultimately have "(of_char c :: nat) = of_char d" by (simp add: take_bit_nat_eq_self)
    then show "c = d" by simp
  qed
  then show ?thesis by (simp add: inj_map_eq_map)
qed

lemma db_key_inject:
  assumes "length a < 100" "length b < 100"
  shows "db_key a x = db_key b y \<longleftrightarrow> a = b \<and> x = y"
proof -
  have "small (map of_char a :: bytes)" "small (map of_char b :: bytes)" using assms by (simp_all add: small_def MAX_SIZE_def)
  from vector_bytes.prefix_free [OF this] show ?thesis by (auto simp: db_key_def of_char_inject)
qed

lemmas table_keys = tx_key_def adr_key_def blockindex_key_def best_key_def version_key_def

lemma keys_differ:
  "adr_key a \<noteq> tx_key h" "blockindex_key h' \<noteq> tx_key h" "best_key \<noteq> tx_key h"
  "tx_key h \<noteq> best_key" "adr_key a \<noteq> best_key" "blockindex_key h' \<noteq> best_key"
  "tx_key h \<noteq> adr_key a" "blockindex_key h' \<noteq> adr_key a" "best_key \<noteq> adr_key a"
  "tx_key h \<noteq> blockindex_key h'" "adr_key a \<noteq> blockindex_key h'" "best_key \<noteq> blockindex_key h'"
  by (simp_all add: table_keys db_key_inject)

lemma keys_inject:
  "tx_key h = tx_key h' \<longleftrightarrow> h = h'" "adr_key a = adr_key b \<longleftrightarrow> a = b" "blockindex_key h = blockindex_key h' \<longleftrightarrow> h = h'"
  by (simp_all add: table_keys db_key_inject WRITEDATA_inject)

interpretation txpos: serializable ser_CDiskTxPos unser_CDiskTxPos "\<lambda>_. True"
  by unfold_locales (simp add: ser_CDiskTxPos_def unser_CDiskTxPos_def member_writes,
      auto simp: ser_CDiskTxPos_def unser_CDiskTxPos_def member_reads)

interpretation txposs: serializable "ser_vector ser_CDiskTxPos" "unser_vector unser_CDiskTxPos"
  "\<lambda>v. small v \<and> list_all (\<lambda>_. True) v"
  by (rule txpos.vector)

interpretation int160: serializable "WRITEDATA 20 :: uint160 \<Rightarrow> bytes" "READDATA 20" "\<lambda>_. True"
  by (rule word_serializable) simp

interpretation hashes: serializable "ser_vector (WRITEDATA 32 :: uint256 \<Rightarrow> bytes)" "unser_vector (READDATA 32)"
  "\<lambda>v. small v \<and> list_all (\<lambda>_. True) v"
  by (rule int256.vector)

lemma all_True [simp]: "list_all (\<lambda>_. True) xs"
  by (simp add: list_all_iff)

interpretation txs: table db_Read db_put db_del tx_key "ser_CTxIndex v" unser_CTxIndex "\<lambda>t. small (vSpent t) \<and> int32 v"
proof
  show "unser_CTxIndex (ser_CTxIndex v x @ t) = Some (x, t)" if "small (vSpent x) \<and> int32 v" for x t
    using that by (cases x) (simp add: unser_CTxIndex_def ser_CTxIndex_def sint32.Unser_Ser txpos.Unser_Ser txposs.Unser_Ser)
qed (simp add: keys_inject)

interpretation addrs: table db_Read db_put db_del adr_key "ser_vector (WRITEDATA 32 :: uint256 \<Rightarrow> bytes)"
  "unser_vector (READDATA 32)" small
  by unfold_locales (simp_all add: keys_inject hashes.Unser_Ser)

interpretation blockindexes: table db_Read db_put db_del blockindex_key "ser_CDiskBlockIndex False v"
  "unser_CDiskBlockIndex False" "\<lambda>p. wf_CDiskBlockIndex p \<and> int32 v"
  by unfold_locales (simp_all add: keys_inject disk_index_writes)

interpretation best: table db_Read db_put db_del "\<lambda>_ :: unit. best_key" "WRITEDATA 32 :: uint256 \<Rightarrow> bytes" "READDATA 32" "\<lambda>_. True"
  by unfold_locales (simp_all add: int256.Unser_Ser)


subsection \<open>Properties\<close>

text \<open>The index of transactions that a database holds, as the rest of the node sees it.\<close>

definition tx_view :: "CTxDB \<Rightarrow> tx_db" where
  "tx_view db h = db_value unser_CTxIndex (db_Read db (tx_key h))"

lemma tx_view_put: "int32 v \<Longrightarrow> small (vSpent t) \<Longrightarrow> tx_view (db_put (tx_key h) (ser_CTxIndex v t) db) = (tx_view db)(h \<mapsto> t)"
  unfolding tx_view_def [abs_def] by (rule txs.lookup_put) simp

text \<open>Whatever the length of an entry, what is read back of it has its position.\<close>

lemma tx_view_put_pos:
  assumes "tx_view (db_put (tx_key h) (ser_CTxIndex v t) db) h' = Some t'"
  shows "tx_view db h' = Some t' \<or> ti_pos t' = ti_pos t"
proof (cases "h' = h")
  case True
  then have "map_option fst (unser_CTxIndex (ser_CTxIndex v t)) = Some t'"
    using assms by (simp add: tx_view_def db.get_put db_value_def)
  then have "ti_pos t' = ti_pos t"
    by (auto simp: unser_CTxIndex_def ser_CTxIndex_def unser_int32_def ser_int32_def member_writes txpos.Unser_Ser
        split: Option.bind_splits)
  then show ?thesis ..
qed (use assms in \<open>simp add: tx_view_def db.get_put keys_inject\<close>)

lemma tx_view_del: "tx_view (db_del (tx_key h) db) = (tx_view db)(h := None)"
  unfolding tx_view_def [abs_def] by (rule txs.lookup_del)

lemma tx_view_other: "(\<And>h. k \<noteq> tx_key h) \<Longrightarrow> tx_view (db_put k x db) = tx_view db"
  unfolding tx_view_def [abs_def] by (rule txs.lookup_put_other)

lemma other_tables_keep:
  assumes "\<not> fReadOnly db"
  shows "\<exists>db'. db_WriteAddrIndex True a h db = Some (True, db') \<and> tx_view db' = tx_view db"
    "\<exists>db'. db_WriteBlockIndex hash fast now v True p db = Some (True, db') \<and> tx_view db' = tx_view db"
    "\<exists>db'. db_WriteHashBestChain True h db = Some (True, db') \<and> tx_view db' = tx_view db"
  using assms by (simp_all add: db_WriteAddrIndex_def db_WriteBlockIndex_def db_WriteHashBestChain_def db_Write_put
      tx_view_other keys_differ split: option.split prod.split)

text \<open>
  C11. The database implements the map of transactions that fetching and connecting inputs work on: within
  a transaction of the database or not, reading, updating, adding and erasing act on the map that is
  read back, and writing addresses, blocks or the best chain leaves it alone.
\<close>

theorem CTxDB_refines_tx_db:
  assumes "\<not> fReadOnly db" "int32 v" "small (vSpent t)" "small (vout tx)"
  shows "db_ReadTxIndex db h = ReadTxIndex (tx_view db) h
    \<and> (\<exists>db'. db_UpdateTxIndex v True h t db = Some (True, db') \<and> tx_view db' = UpdateTxIndex h t (tx_view db))
    \<and> (\<exists>db'. db_AddTxIndex GetHash v True tx p db = Some (True, db') \<and> tx_view db' = AddTxIndex GetHash tx p (tx_view db))
    \<and> (\<exists>db'. db_EraseTxIndex GetHash True tx db = Some (True, db') \<and> tx_view db' = EraseTxIndex GetHash tx (tx_view db))
    \<and> (\<exists>db'. db_WriteAddrIndex True a h db = Some (True, db') \<and> tx_view db' = tx_view db)
    \<and> (\<exists>db'. db_WriteBlockIndex hash fast now v True q db = Some (True, db') \<and> tx_view db' = tx_view db)
    \<and> (\<exists>db'. db_WriteHashBestChain True h db = Some (True, db') \<and> tx_view db' = tx_view db)"
proof (intro conjI other_tables_keep [OF assms(1)])
  show "db_ReadTxIndex db h = ReadTxIndex (tx_view db) h"
    by (simp add: db_ReadTxIndex_def ReadTxIndex_def tx_view_def)
  show "\<exists>db'. db_UpdateTxIndex v True h t db = Some (True, db') \<and> tx_view db' = UpdateTxIndex h t (tx_view db)"
    using assms by (simp add: db_UpdateTxIndex_def db_Write_put UpdateTxIndex_def tx_view_put)
  have "small (vSpent (CTxIndex_new p (length (vout tx))))" using assms(4) by (simp add: CTxIndex_new_def small_def)
  then show "\<exists>db'. db_AddTxIndex GetHash v True tx p db = Some (True, db') \<and> tx_view db' = AddTxIndex GetHash tx p (tx_view db)"
    using assms by (simp add: db_AddTxIndex_def db_Write_put AddTxIndex_def tx_view_put)
  show "\<exists>db'. db_EraseTxIndex GetHash True tx db = Some (True, db') \<and> tx_view db' = EraseTxIndex GetHash tx (tx_view db)"
    using assms by (simp add: db_EraseTxIndex_def db_Erase_del EraseTxIndex_def tx_view_del)
qed

definition empty_db :: CTxDB where
  "empty_db = \<lparr>pdb = (\<lambda>_. None), activeBatch = Some [], fReadOnly = False\<rparr>"

theorem CTxDB_refines_tx_db_witness:
  "\<exists>db'. db_UpdateTxIndex 1 True 5 (CTxIndex_new mempool_pos 2) empty_db = Some (True, db')
     \<and> tx_view db' = UpdateTxIndex 5 (CTxIndex_new mempool_pos 2) (tx_view empty_db)"
  using CTxDB_refines_tx_db [of empty_db 1 "CTxIndex_new mempool_pos 2" sample_tx 5]
  by (simp add: empty_db_def int32_def small_def MAX_SIZE_def CTxIndex_new_def sample_tx_def)

text \<open>The addresses of a database: the transactions recorded under one, none when there is no entry.\<close>

definition addr_view :: "CTxDB \<Rightarrow> uint160 \<Rightarrow> uint256 list" where
  "addr_view db a = (case db_ReadAddrIndex db a of None \<Rightarrow> [] | Some hashes \<Rightarrow> hashes)"

definition list_add :: "'a \<Rightarrow> 'a list \<Rightarrow> 'a list" where
  "list_add x xs = (if x \<in> set xs then xs else xs @ [x])"

lemma WriteAddrIndex_adds:
  assumes "\<not> fReadOnly db" "small (h # addr_view db a)"
  shows "\<exists>db'. db_WriteAddrIndex True a h db = Some (True, db') \<and> \<not> fReadOnly db'
    \<and> addr_view db' = (addr_view db)(a := list_add h (addr_view db a))"
proof -
  let ?look = "\<lambda>db b. db_value (unser_vector (READDATA 32)) (db_Read db (adr_key b)) :: uint256 list option"
  have look: "addr_view db = (\<lambda>b. case ?look db b of None \<Rightarrow> [] | Some hashes \<Rightarrow> hashes)" for db
    by (simp add: addr_view_def [abs_def] db_ReadAddrIndex_def)
  have put: "addr_view (db_put (adr_key a) (ser_vector (WRITEDATA 32) hashes) db) = (addr_view db)(a := hashes)" if "small hashes" for hashes
    using fun_cong [OF addrs.lookup_put [OF that, of a db]] unfolding look by (intro ext) simp
  have "small [h]" "small (addr_view db a @ [h])" using assms(2) by (simp_all add: small_def)
  show ?thesis
  proof (cases "db_ReadAddrIndex db a")
    case None
    then have "addr_view db a = []" by (simp add: addr_view_def)
    then show ?thesis using None assms(1) put [OF \<open>small [h]\<close>]
      by (simp add: db_WriteAddrIndex_def db_Write_put list_add_def)
  next
    case (Some found)
    then have "addr_view db a = found" by (simp add: addr_view_def)
    then show ?thesis using Some assms(1) put [OF \<open>small (addr_view db a @ [h])\<close>]
      by (simp add: db_WriteAddrIndex_def db_Write_put list_add_def fun_upd_idem)
  qed
qed

fun db_write_addrs :: "(uint160 \<times> uint256) list \<Rightarrow> CTxDB \<Rightarrow> CTxDB option" where
  "db_write_addrs [] db = Some db"
| "db_write_addrs ((a, h) # ws) db =
     (case db_WriteAddrIndex True a h db of None \<Rightarrow> None | Some (_, db') \<Rightarrow> db_write_addrs ws db')"

lemma length_list_add: "length (list_add x xs) \<le> length xs + 1"
  by (simp add: list_add_def)

lemma addr_room:
  assumes "\<And>b. length (v b) + Suc n \<le> m" "v' = v(a := list_add h (v a))"
  shows "length (v' b) + n \<le> m"
  using assms(1) [of b] length_list_add [of h "v b"] by (auto simp: assms(2))

text \<open>
  The address index collects: writing pairs of an address and a transaction, in any order and with
  repetitions, leaves every address with its former transactions and the new ones, each once.
\<close>

theorem address_index_collects:
  assumes "\<not> fReadOnly db" "\<And>a. distinct (addr_view db a)" "\<And>a. length (addr_view db a) + length ws \<le> unat MAX_SIZE"
  shows "\<exists>db'. db_write_addrs ws db = Some db'
    \<and> distinct (addr_view db' a) \<and> set (addr_view db' a) = set (addr_view db a) \<union> {h. (a, h) \<in> set ws}"
  using assms
proof (induction ws arbitrary: db)
  case (Cons w ws)
  obtain b h where w: "w = (b, h)" by fastforce
  have room: "length (addr_view db a) + Suc (length ws) \<le> unat MAX_SIZE" for a using Cons.prems(3) [of a] by simp
  have "small (h # addr_view db b)" using room [of b] by (simp add: small_def)
  then obtain db1 where db1: "db_WriteAddrIndex True b h db = Some (True, db1)" "\<not> fReadOnly db1"
    "addr_view db1 = (addr_view db)(b := list_add h (addr_view db b))"
    using WriteAddrIndex_adds [OF Cons.prems(1)] by blast
  have "distinct (addr_view db1 a)" for a using Cons.prems(2) by (simp add: db1(3) list_add_def)
  then obtain db' where "db_write_addrs ws db1 = Some db'" "distinct (addr_view db' a)"
    "set (addr_view db' a) = set (addr_view db1 a) \<union> {h. (a, h) \<in> set ws}"
    using Cons.IH [OF db1(2) _ addr_room [OF room db1(3)]] by blast
  moreover have "set (addr_view db1 a) = set (addr_view db a) \<union> (if a = b then {h} else {})"
    by (auto simp: db1(3) list_add_def)
  ultimately show ?case using db1(1) by (auto simp: w)
qed simp

theorem address_index_collects_witness:
  "\<exists>db'. db_write_addrs [(1, 5), (2, 6), (1, 5), (1, 7)] empty_db = Some db' \<and> distinct (addr_view db' 1)
    \<and> set (addr_view db' 1) = {5, 7}"
proof -
  have none: "addr_view empty_db a = []" for a
    by (simp add: addr_view_def db_ReadAddrIndex_def db_Read_view empty_db_def db_value_def)
  have "\<exists>db'. db_write_addrs [(1, 5), (2, 6), (1, 5), (1, 7)] empty_db = Some db' \<and> distinct (addr_view db' 1)
    \<and> set (addr_view db' 1) = set (addr_view empty_db 1) \<union> {h. (1 :: uint160, h :: uint256) \<in> set [(1, 5), (2, 6), (1, 5), (1, 7)]}"
    by (rule address_index_collects) (simp_all add: none MAX_SIZE_def, simp add: empty_db_def)
  moreover have "set [] \<union> {h. (1 :: uint160, h :: uint256) \<in> set [(1, 5), (2, 6), (1, 5), (1, 7)]} = ({5, 7} :: uint256 set)"
    by auto
  ultimately show ?thesis by (simp only: none)
qed

subsubsection \<open>Transactions of the database\<close>

fun db_do :: "bool \<times> batch_op \<Rightarrow> CTxDB \<Rightarrow> (bool \<times> CTxDB) option" where
  "db_do (ok, BatchPut k v) db = db_Write ok k v db"
| "db_do (ok, BatchDelete k) db = db_Erase ok k db"

fun db_run :: "(bool \<times> batch_op) list \<Rightarrow> CTxDB \<Rightarrow> CTxDB option" where
  "db_run [] db = Some db"
| "db_run (op # ops) db = (case db_do op db of None \<Rightarrow> None | Some (_, db') \<Rightarrow> db_run ops db')"

lemma db_do_batch:
  "\<not> fReadOnly db \<Longrightarrow> activeBatch db = Some b \<Longrightarrow> db_do op db = Some (True, db\<lparr>activeBatch := Some (b @ [snd op])\<rparr>)"
  by (cases op; cases "snd op") (auto simp: db_Write_def db_Erase_def)

lemma db_run_batch:
  "\<not> fReadOnly db \<Longrightarrow> activeBatch db = Some b \<Longrightarrow> db_run ops db = Some (db\<lparr>activeBatch := Some (b @ map snd ops)\<rparr>)"
proof (induction ops arbitrary: db b)
  case (Cons op ops)
  then show ?case by (simp add: db_do_batch)
qed simp

text \<open>
  C10. A transaction of the database is atomic: whatever is written and erased in it is read back at once
  and is not on disk; a successful commit puts all of it on disk and changes nothing that is read, a
  failed commit and an abort restore the state before it.
\<close>

theorem database_transaction_atomic:
  assumes "activeBatch db = None" "\<not> fReadOnly db"
  shows "\<exists>db1 db2. TxnBegin db = Some (True, db1) \<and> db_run ops db1 = Some db2
    \<and> pdb db2 = pdb db \<and> db_Read db2 = fold apply_op (map snd ops) (db_Read db)
    \<and> TxnCommit True db2 = Some (True, db\<lparr>pdb := db_Read db2\<rparr>)
    \<and> db_Read (db\<lparr>pdb := db_Read db2\<rparr>) = db_Read db2
    \<and> TxnCommit False db2 = Some (False, db) \<and> TxnAbort db2 = (True, db)"
proof -
  have "TxnBegin db = Some (True, db\<lparr>activeBatch := Some []\<rparr>)" using assms by (simp add: TxnBegin_def)
  moreover have "db_run ops (db\<lparr>activeBatch := Some []\<rparr>) = Some (db\<lparr>activeBatch := Some (map snd ops)\<rparr>)"
    using assms db_run_batch [of "db\<lparr>activeBatch := Some []\<rparr>" "[]" ops] by simp
  moreover have "db\<lparr>activeBatch := None\<rparr> = db" using assms by (cases db) simp
  ultimately show ?thesis using assms by (simp add: db_Read_view TxnCommit_def TxnAbort_def)
qed

theorem database_transaction_atomic_witness:
  "\<exists>db1 db2. TxnBegin (empty_db\<lparr>activeBatch := None\<rparr>) = Some (True, db1)
     \<and> db_run [(False, BatchPut [1] [2]), (True, BatchDelete [3])] db1 = Some db2 \<and> db_Read db2 [1] = Some [2]"
  using database_transaction_atomic [of "empty_db\<lparr>activeBatch := None\<rparr>" "[(False, BatchPut [1] [2]), (True, BatchDelete [3])]"]
  by (auto simp: empty_db_def)

text \<open>
  The test for existence does not see pending erasures: after a stored transaction is erased within a
  transaction of the database, \<open>ReadTxIndex\<close> no longer finds it, but \<open>ContainsTx\<close> still says it is there.
\<close>

theorem ContainsTx_misses_erasure:
  assumes "\<not> fReadOnly db" "activeBatch db \<noteq> None" "pdb db (tx_key (GetHash tx)) \<noteq> None"
  shows "\<exists>db'. db_EraseTxIndex GetHash ok tx db = Some (True, db')
    \<and> \<not> fst (db_ReadTxIndex db' (GetHash tx)) \<and> db_ContainsTx db' (GetHash tx)"
proof -
  let ?k = "tx_key (GetHash tx)"
  have e: "db_EraseTxIndex GetHash ok tx db = Some (True, db_del ?k db)"
    using assms(1,2) by (auto simp: db_EraseTxIndex_def db_Erase_def db_del_def)
  have "db_Read (db_del ?k db) ?k = None" by (simp add: db.get_del)
  then have "\<not> fst (db_ReadTxIndex (db_del ?k db) (GetHash tx))" by (simp add: db_ReadTxIndex_def db_value_def)
  moreover have "pdb (db_del ?k db) = pdb db" using assms(2) by (auto simp: db_del_def)
  then have "db_ContainsTx (db_del ?k db) (GetHash tx)"
    using assms(3) by (auto simp: db_ContainsTx_def db_Exists_def split: option.split prod.split)
  ultimately show ?thesis using e by blast
qed

theorem ContainsTx_misses_erasure_witness:
  "\<exists>db'. db_EraseTxIndex sample_hash True sample_tx 
       (empty_db\<lparr>pdb := [tx_key (sample_hash sample_tx) \<mapsto> ser_CTxIndex 1 (CTxIndex_new mempool_pos 1)]\<rparr>) = Some (True, db')
    \<and> \<not> fst (db_ReadTxIndex db' (sample_hash sample_tx)) \<and> db_ContainsTx db' (sample_hash sample_tx)"
  by (rule ContainsTx_misses_erasure) (simp_all add: empty_db_def)

end
