(* ===== verification/Kernel.thy ===== *)
theory Kernel imports Tx_Database "HOL-Library.Product_Lexorder" begin

text \<open>
  The proof-of-stake kernel (\<open>src/src/kernel.cpp\<close>): the stake modifier, which is made of the entropy bits
  of blocks selected from the recent chain, and the checks of a coinstake's kernel. The chain is the list
  of entries from the last block back; \<open>mapBlockIndex\<close> is a map from hashes to entries, and \<open>hash\<close> the hash
  of a stream.
\<close>

unbundle bit_operations_syntax

definition nStakeMinAge :: u32 where "nStakeMinAge = 60 * 60 * 1"
definition nModifierInterval :: nat where "nModifierInterval = 8 * 60"
definition MODIFIER_INTERVAL_RATIO :: nat where "MODIFIER_INTERVAL_RATIO = 3"
definition STAKE_TIMESTAMP_MASK :: int where "STAKE_TIMESTAMP_MASK = 15"

definition GetWeight :: "int \<Rightarrow> int \<Rightarrow> int" where
  "GetWeight nIntervalBeginning nIntervalEnd = nIntervalEnd - nIntervalBeginning - uint nStakeMinAge"

subsection \<open>The stake modifier\<close>

fun GetLastStakeModifier :: "chain \<Rightarrow> (u64 \<times> int) option" where
  "GetLastStakeModifier [] = None"
| "GetLastStakeModifier (p # c) =
     (if c \<noteq> [] \<and> \<not> GeneratedStakeModifier p then GetLastStakeModifier c
      else if \<not> GeneratedStakeModifier p then None
      else Some (nStakeModifier p, GetBlockTime p))"

definition GetStakeModifierSelectionIntervalSection :: "nat \<Rightarrow> int" where
  "GetStakeModifierSelectionIntervalSection nSection =
     int (nModifierInterval * 63 div (63 + ((63 - nSection) * (MODIFIER_INTERVAL_RATIO - 1))))"

definition GetStakeModifierSelectionInterval :: int where
  "GetStakeModifierSelectionInterval =
     foldl (\<lambda>n nSection. n + GetStakeModifierSelectionIntervalSection nSection) 0 [0..<64]"

definition selection_hash :: "(bytes \<Rightarrow> uint256) \<Rightarrow> u64 \<Rightarrow> CBlockIndex \<Rightarrow> uint256" where
  "selection_hash hash nStakeModifierPrev p =
     (let hashSelection = hash (WRITEDATA 32 (hashProof p) @ WRITEDATA 8 nStakeModifierPrev)
      in if IsProofOfStake p then drop_bit 32 hashSelection else hashSelection)"

text \<open>
  The loop over the candidates; the best one so far is kept with its hash. \<open>None\<close> is the error of a
  candidate that is not in the index.
\<close>

fun select_loop ::
  "(bytes \<Rightarrow> uint256) \<Rightarrow> (uint256 \<Rightarrow> CBlockIndex option) \<Rightarrow> CBlockIndex list \<Rightarrow> int \<Rightarrow> u64 \<Rightarrow> (int \<times> uint256) list
   \<Rightarrow> (uint256 \<times> CBlockIndex) option \<Rightarrow> (uint256 \<times> CBlockIndex) option option" where
  "select_loop hash mapBlockIndex selected stop prev [] best = Some best"
| "select_loop hash mapBlockIndex selected stop prev (item # items) best =
     (case mapBlockIndex (snd item) of
        None \<Rightarrow> None
      | Some p \<Rightarrow>
          if best \<noteq> None \<and> GetBlockTime p > stop then Some best
          else if bi_hash p \<in> set (map bi_hash selected) then select_loop hash mapBlockIndex selected stop prev items best
          else
            let hashSelection = selection_hash hash prev p in
            select_loop hash mapBlockIndex selected stop prev items
              (case best of
                 Some (hashBest, _) \<Rightarrow> if hashSelection < hashBest then Some (hashSelection, p) else best
               | None \<Rightarrow> Some (hashSelection, p)))"

text \<open>The selected block, \<open>None\<close> for the answer false.\<close>

definition SelectBlockFromCandidates ::
  "(bytes \<Rightarrow> uint256) \<Rightarrow> (uint256 \<Rightarrow> CBlockIndex option) \<Rightarrow> (int \<times> uint256) list \<Rightarrow> CBlockIndex list \<Rightarrow> int \<Rightarrow> u64
   \<Rightarrow> CBlockIndex option" where
  "SelectBlockFromCandidates hash mapBlockIndex vSortedByTimestamp mapSelectedBlocks nSelectionIntervalStop nStakeModifierPrev =
     (case select_loop hash mapBlockIndex mapSelectedBlocks nSelectionIntervalStop nStakeModifierPrev vSortedByTimestamp None of
        None \<Rightarrow> None
      | Some best \<Rightarrow> map_option snd best)"

text \<open>The rounds: the blocks selected so far, the end of the interval and the bits written.\<close>

fun select_rounds ::
  "(bytes \<Rightarrow> uint256) \<Rightarrow> (uint256 \<Rightarrow> CBlockIndex option) \<Rightarrow> (int \<times> uint256) list \<Rightarrow> u64 \<Rightarrow> nat list
   \<Rightarrow> CBlockIndex list \<Rightarrow> int \<Rightarrow> u64 \<Rightarrow> u64 option" where
  "select_rounds hash mapBlockIndex cands prev [] selected stop new = Some new"
| "select_rounds hash mapBlockIndex cands prev (nRound # rounds) selected stop new =
     (let stop = stop + GetStakeModifierSelectionIntervalSection nRound in
      case SelectBlockFromCandidates hash mapBlockIndex cands selected stop prev of
        None \<Rightarrow> None
      | Some p \<Rightarrow>
          select_rounds hash mapBlockIndex cands prev rounds (p # selected) stop
            (new OR push_bit nRound (ucast (bi_GetStakeEntropyBit p))))"

definition stake_candidates :: "chain \<Rightarrow> int \<Rightarrow> (int \<times> uint256) list" where
  "stake_candidates c start =
     sort (rev (map (\<lambda>p. (GetBlockTime p, bi_hash p)) (takeWhile (\<lambda>p. GetBlockTime p \<ge> start) c)))"

text \<open>The answer, the modifier and whether it is a new one.\<close>

definition ComputeNextStakeModifier ::
  "(bytes \<Rightarrow> uint256) \<Rightarrow> (uint256 \<Rightarrow> CBlockIndex option) \<Rightarrow> chain \<Rightarrow> bool \<times> u64 \<times> bool" where
  "ComputeNextStakeModifier hash mapBlockIndex c =
     (if c = [] then (True, 0, True)
      else case GetLastStakeModifier c of
        None \<Rightarrow> (False, 0, False)
      | Some (modifier, nModifierTime) \<Rightarrow>
          if nModifierTime div int nModifierInterval \<ge> GetBlockTime (hd c) div int nModifierInterval
          then (True, modifier, False)
          else
            let start = (GetBlockTime (hd c) div int nModifierInterval) * int nModifierInterval - GetStakeModifierSelectionInterval;
                vSortedByTimestamp = stake_candidates c start
            in case select_rounds hash mapBlockIndex vSortedByTimestamp modifier
                      [0..<min 64 (length vSortedByTimestamp)] [] start 0 of
                 None \<Rightarrow> (False, modifier, False)
               | Some newModifier \<Rightarrow> (True, newModifier, True))"

subsection \<open>The kernel of a coinstake\<close>

text \<open>
  The answer with the hash and the target when they were computed; \<open>None\<close> is an access outside the
  outputs of the previous transaction. \<open>nBestHeight\<close> is the height of \<open>pindexBest\<close>.
\<close>

definition CheckStakeKernelHash ::
  "bn_lib \<Rightarrow> (bytes \<Rightarrow> uint256) \<Rightarrow> int \<Rightarrow> CBlockIndex \<Rightarrow> u32 \<Rightarrow> u32 \<Rightarrow> CTransaction \<Rightarrow> COutPoint \<Rightarrow> u32
   \<Rightarrow> (bool \<times> (uint256 \<times> uint256) option) option" where
  "CheckStakeKernelHash L hash nBestHeight pindexPrev bits nTimeBlockFrom txPrev outpoint nTimeTx =
     (if nTimeTx < nTime txPrev then Some (False, None)
      else if nTimeBlockFrom + nStakeMinAge > nTimeTx \<and> nBestHeight \<noteq> 21189 \<and> \<not> nBestHeight < 260000
      then Some (False, None)
      else if \<not> unat (op_n outpoint) < length (vout txPrev) then None
      else
        let bnTarget = CBigNum_SetCompact L bits * nValue (vout txPrev ! unat (op_n outpoint));
            targetProofOfStake = CBigNum_getuint256 L bnTarget;
            hashProofOfStake = hash (WRITEDATA 8 (nStakeModifier pindexPrev) @ WRITEDATA 4 nTimeBlockFrom @
              WRITEDATA 4 (nTime txPrev) @ WRITEDATA 32 (op_hash outpoint) @ WRITEDATA 4 (op_n outpoint) @ WRITEDATA 4 nTimeTx)
        in Some (\<not> CBigNum_setuint256 L hashProofOfStake > bnTarget, Some (hashProofOfStake, targetProofOfStake)))"

text \<open>
  What the checks read: \<open>ke_opens\<close> as for reading transactions, \<open>ke_header\<close> the header of a block in its
  file, \<open>ke_now\<close> the clock, \<open>ke_adjustedTime\<close> the time of fresh transactions.
\<close>

record kernel_env =
  ke_bn :: bn_lib
  ke_hash :: "bytes \<Rightarrow> uint256"
  ke_script :: tx_env
  ke_db :: CTxDB
  ke_opens :: "CDiskTxPos \<Rightarrow> bool"
  ke_header :: "u32 \<Rightarrow> u32 \<Rightarrow> CBlock option"
  ke_pindexBest :: CBlockIndex
  ke_now :: int
  ke_adjustedTime :: u32

definition block_from :: "kernel_env \<Rightarrow> CTxIndex \<Rightarrow> CBlock" where
  "block_from K txindex =
     (case ke_header K (tp_nFile (ti_pos txindex)) (tp_nBlockPos (ti_pos txindex)) of
        None \<Rightarrow> CBlock_SetNull | Some b \<Rightarrow> b)"

definition CheckProofOfStake ::
  "kernel_env \<Rightarrow> CBlockIndex \<Rightarrow> CTransaction \<Rightarrow> u32 \<Rightarrow> sig_cache
   \<Rightarrow> (connect_error + bool \<times> (uint256 \<times> uint256) option) \<times> CTransaction \<times> sig_cache" where
  "CheckProofOfStake K pindexPrev tx bits cache =
     (if \<not> IsCoinStake tx then (Inr (False, None), tx, cache)
      else
        let txin = vin tx ! 0 in
        case ReadFromDisk_outpoint (ke_opens K) (ke_db K) (prevout txin) (CTransaction_SetNull (ke_adjustedTime K)) of
          (found, txPrev, txindex) \<Rightarrow>
            if \<not> found then (case DoS 1 False tx of (b, tx) \<Rightarrow> (Inr (b, None), tx, cache))
            else
              case verify_input (ke_script K) tx 0 txPrev SCRIPT_VERIFY_NONE cache of
                (None, cache) \<Rightarrow> (Inl AssertFailed, tx, cache)
              | (Some _, cache) \<Rightarrow>
                  (case CheckStakeKernelHash (ke_bn K) (ke_hash K) (nHeight (ke_pindexBest K)) pindexPrev bits
                          (b_nTime (block_from K txindex)) txPrev (prevout txin) (nTime tx) of
                     None \<Rightarrow> (Inl OutOfRange, tx, cache)
                   | Some (ok, proofs) \<Rightarrow>
                       if \<not> ok \<and> ke_now K - GetBlockTime (ke_pindexBest K) > 1800 then (Inr (True, proofs), tx, cache)
                       else (Inr (True, proofs), tx, cache)))"

definition CheckCoinStakeTimestamp :: "int \<Rightarrow> int \<Rightarrow> int \<Rightarrow> bool" where
  "CheckCoinStakeTimestamp height nTimeBlock nTimeTx \<longleftrightarrow> nTimeBlock = nTimeTx \<and> nTimeTx AND STAKE_TIMESTAMP_MASK = 0"

text \<open>\<open>CheckKernel\<close>: the answer and, when it was set, the time of the block the coins come from.\<close>

definition CheckKernel ::
  "kernel_env \<Rightarrow> CBlockIndex \<Rightarrow> u32 \<Rightarrow> int \<Rightarrow> COutPoint \<Rightarrow> (connect_error + bool) \<times> int option" where
  "CheckKernel K pindexPrev bits time outpoint =
     (case ReadFromDisk_outpoint (ke_opens K) (ke_db K) outpoint (CTransaction_SetNull (ke_adjustedTime K)) of
        (found, txPrev, txindex) \<Rightarrow>
          if \<not> found then (Inr False, None)
          else case ke_header K (tp_nFile (ti_pos txindex)) (tp_nBlockPos (ti_pos txindex)) of
            None \<Rightarrow> (Inr False, None)
          | Some block \<Rightarrow>
              if CBlock_GetBlockTime block + uint nStakeMinAge > time then (Inr False, None)
              else
                (case CheckStakeKernelHash (ke_bn K) (ke_hash K) (nHeight (ke_pindexBest K)) pindexPrev bits
                        (b_nTime block) txPrev outpoint (of_int time) of
                   None \<Rightarrow> Inl OutOfRange
                 | Some (ok, _) \<Rightarrow> Inr ok,
                 Some (CBlock_GetBlockTime block)))"


subsection \<open>Selecting blocks\<close>

definition indexed :: "(uint256 \<Rightarrow> CBlockIndex option) \<Rightarrow> (int \<times> uint256) list \<Rightarrow> bool" where
  "indexed mapBlockIndex items \<longleftrightarrow> (\<forall>i \<in> set items. \<exists>p. mapBlockIndex (snd i) = Some p \<and> bi_hash p = snd i)"

definition fresh :: "(uint256 \<Rightarrow> CBlockIndex option) \<Rightarrow> (int \<times> uint256) list \<Rightarrow> CBlockIndex list \<Rightarrow> CBlockIndex \<Rightarrow> bool" where
  "fresh mapBlockIndex items selected p \<longleftrightarrow> mapBlockIndex (bi_hash p) = Some p \<and> bi_hash p \<in> snd ` set items
     \<and> bi_hash p \<notin> set (map bi_hash selected)"

lemma fresh_Cons: "fresh m items selected p \<Longrightarrow> fresh m (i # items) selected p"
  by (simp add: fresh_def)

lemma select_loop_ok:
  assumes "indexed m items"
  shows "\<exists>r. select_loop hash m selected stop prev items best = Some r
    \<and> (r = None \<longrightarrow> best = None \<and> snd ` set items \<subseteq> set (map bi_hash selected))
    \<and> (\<forall>h p. r = Some (h, p) \<longrightarrow> r = best \<or> fresh m items selected p)"
  using assms
proof (induction items arbitrary: best)
  case (Cons item items)
  obtain p where p: "m (snd item) = Some p" "bi_hash p = snd item" using Cons.prems by (auto simp: indexed_def)
  have ok: "indexed m items" using Cons.prems by (simp add: indexed_def)
  show ?case
  proof (cases "best \<noteq> None \<and> GetBlockTime p > stop")
    case True
    then show ?thesis using p by auto
  next
    case go: False
    show ?thesis
    proof (cases "bi_hash p \<in> set (map bi_hash selected)")
      case True
      obtain r where "select_loop hash m selected stop prev items best = Some r"
        "r = None \<longrightarrow> best = None \<and> snd ` set items \<subseteq> set (map bi_hash selected)"
        "\<forall>h q. r = Some (h, q) \<longrightarrow> r = best \<or> fresh m items selected q"
        using Cons.IH [OF ok, of best] by blast
      then show ?thesis using go True p by (auto intro: fresh_Cons)
    next
      case False
      let ?h = "selection_hash hash prev p"
      let ?best = "case best of Some (hashBest, _) \<Rightarrow> if ?h < hashBest then Some (?h, p) else best | None \<Rightarrow> Some (?h, p)"
      have f: "fresh m (item # items) selected p" using p False by (auto simp: fresh_def)
      have b: "?best \<noteq> None" "?best = Some (h, q) \<Longrightarrow> ?best = best \<or> q = p" for h q
        by (auto split: option.splits prod.splits if_splits)
      obtain r where r: "select_loop hash m selected stop prev items ?best = Some r"
        "r = None \<longrightarrow> ?best = None" "\<forall>h q. r = Some (h, q) \<longrightarrow> r = ?best \<or> fresh m items selected q"
        using Cons.IH [OF ok, of ?best] by blast
      have "select_loop hash m selected stop prev (item # items) best = Some r"
        using go False p r(1) by (auto simp: Let_def)
      moreover have "r = best \<or> fresh m (item # items) selected q" if "r = Some (h, q)" for h q
        using r(3) b(2) [of h q] that f fresh_Cons by metis
      ultimately show ?thesis using r(2) b(1) by blast
    qed
  qed
qed simp

lemma SelectBlock_ok:
  assumes "indexed m cands" "distinct (map snd cands)" "set (map bi_hash selected) \<subseteq> snd ` set cands" "length selected < length cands"
  shows "\<exists>p. SelectBlockFromCandidates hash m cands selected stop prev = Some p \<and> fresh m cands selected p"
proof -
  obtain r where r: "select_loop hash m selected stop prev cands None = Some r"
    "r = None \<longrightarrow> snd ` set cands \<subseteq> set (map bi_hash selected)" "\<forall>h p. r = Some (h, p) \<longrightarrow> r = None \<or> fresh m cands selected p"
    using select_loop_ok [OF assms(1), of hash selected stop prev None] by blast
  have "card (set (map bi_hash selected)) \<le> length selected" by (metis card_length length_map)
  moreover have "card (snd ` set cands) = length cands" using distinct_card [OF assms(2)] by simp
  moreover have "card (snd ` set cands) \<le> card (set (map bi_hash selected))" if "r = None"
    using r(2) that by (intro card_mono) auto
  ultimately have "r \<noteq> None" using assms(4) by linarith
  then obtain h p where "r = Some (h, p)" by auto
  then show ?thesis using r(1,3) by (simp add: SelectBlockFromCandidates_def)
qed

lemma entropy_bit:
  assumes "k < 64"
  shows "bit (push_bit k (ucast (bi_GetStakeEntropyBit p)) :: u64) i \<longleftrightarrow> i = k \<and> bi_GetStakeEntropyBit p \<noteq> 0"
proof -
  have e: "bit (bi_GetStakeEntropyBit p) j \<longleftrightarrow> j = 0 \<and> bit (nFlags p) 1" for j
  proof -
    have "bit (2 :: u32) n \<longleftrightarrow> n = 1" for n using bit_2_iff [where ?'a = u32] by auto
    then show ?thesis by (auto simp: bi_GetStakeEntropyBit_def bit_simps)
  qed
  have "bi_GetStakeEntropyBit p = 0 \<longleftrightarrow> \<not> bit (nFlags p) 1"
    unfolding bit_eq_iff [of "bi_GetStakeEntropyBit p" 0] by (auto simp: e dest: spec [of _ 0])
  then show ?thesis using assms by (auto simp: bit_simps e dest: bit_imp_le_length)
qed

lemma select_rounds_ok:
  assumes "indexed m cands" "distinct (map snd cands)" "k \<le> n" "n \<le> 64"
    and "distinct (map bi_hash selected)" "set (map bi_hash selected) \<subseteq> snd ` set cands" "length selected + (n - k) \<le> length cands"
  shows "\<exists>new' sel. select_rounds hash m cands prev [k..<n] selected stop new = Some new' \<and> length sel = n - k
    \<and> distinct (map bi_hash (sel @ selected)) \<and> (\<forall>p \<in> set sel. m (bi_hash p) = Some p \<and> bi_hash p \<in> snd ` set cands)
    \<and> (\<forall>i. bit new' i \<longleftrightarrow> bit new i \<or> k \<le> i \<and> i < n \<and> bi_GetStakeEntropyBit (sel ! (i - k)) \<noteq> 0)"
  using assms(3,5-)
proof (induction "n - k" arbitrary: k selected stop new)
  case 0
  then show ?case by (intro exI [of _ new] exI [of _ "[]"]) auto
next
  case (Suc d)
  then have kn: "k < n" by simp
  then have up: "[k..<n] = k # [Suc k..<n]" by (rule upt_conv_Cons)
  let ?stop = "stop + GetStakeModifierSelectionIntervalSection k"
  obtain p where p: "SelectBlockFromCandidates hash m cands selected ?stop prev = Some p" "fresh m cands selected p"
    using SelectBlock_ok [OF assms(1,2) Suc.prems(3), of hash ?stop prev] Suc.prems(4) kn by fastforce
  let ?new = "new OR push_bit k (ucast (bi_GetStakeEntropyBit p)) :: u64"
  have "d = n - Suc k" "Suc k \<le> n" "distinct (map bi_hash (p # selected))"
    "set (map bi_hash (p # selected)) \<subseteq> snd ` set cands" "length (p # selected) + (n - Suc k) \<le> length cands"
    using Suc p(2) kn by (auto simp: fresh_def)
  from Suc.hyps(1) [OF this, of ?stop ?new] obtain new' sel where r:
    "select_rounds hash m cands prev [Suc k..<n] (p # selected) ?stop ?new = Some new'" "length sel = n - Suc k"
    "distinct (map bi_hash (sel @ p # selected))" "\<forall>p \<in> set sel. m (bi_hash p) = Some p \<and> bi_hash p \<in> snd ` set cands"
    "\<forall>i. bit new' i \<longleftrightarrow> bit ?new i \<or> Suc k \<le> i \<and> i < n \<and> bi_GetStakeEntropyBit (sel ! (i - Suc k)) \<noteq> 0"
    by blast
  have "bit new' i \<longleftrightarrow> bit new i \<or> k \<le> i \<and> i < n \<and> bi_GetStakeEntropyBit ((p # sel) ! (i - k)) \<noteq> 0" for i
  proof (cases "i = k")
    case False
    then show ?thesis using r(5) entropy_bit [of k p i] kn assms(4)
      by (cases "k \<le> i") (auto simp: bit_or_iff Suc_diff_Suc [symmetric] Suc_le_eq)
  qed (use r(5) entropy_bit [of k p i] kn assms(4) in \<open>auto simp: bit_or_iff\<close>)
  moreover have "select_rounds hash m cands prev [k..<n] selected stop new = Some new'"
    using up p(1) r(1) by (simp add: Let_def)
  ultimately show ?case using r(2-4) p(2) kn
    by (intro exI [of _ new'] exI [of _ "p # sel"]) (auto simp: fresh_def)
qed


text \<open>What a chain in memory satisfies: its blocks are indexed under distinct hashes, the first has a modifier.\<close>

definition chain_indexed :: "(uint256 \<Rightarrow> CBlockIndex option) \<Rightarrow> chain \<Rightarrow> bool" where
  "chain_indexed m c \<longleftrightarrow> c \<noteq> [] \<and> distinct (map bi_hash c) \<and> (\<forall>p \<in> set c. m (bi_hash p) = Some p)
     \<and> GeneratedStakeModifier (last c)"

lemma GetLastStakeModifier_returns:
  "c \<noteq> [] \<Longrightarrow> GeneratedStakeModifier (last c) \<Longrightarrow> GetLastStakeModifier c \<noteq> None"
  by (induction c rule: GetLastStakeModifier.induct) auto

lemma candidates_of_chain:
  assumes "chain_indexed m c"
  shows "indexed m (stake_candidates c start)" "distinct (map snd (stake_candidates c start))"
    "snd ` set (stake_candidates c start) = bi_hash ` set (takeWhile (\<lambda>p. GetBlockTime p \<ge> start) c)"
proof -
  let ?t = "takeWhile (\<lambda>p. GetBlockTime p \<ge> start) c"
  show s: "snd ` set (stake_candidates c start) = bi_hash ` set ?t"
    by (auto simp: stake_candidates_def image_image)
  have sub: "set ?t \<subseteq> set c" by (auto dest: set_takeWhileD)
  then show "indexed m (stake_candidates c start)"
    using assms by (auto simp: indexed_def chain_indexed_def stake_candidates_def)
  have "distinct (map bi_hash ?t)"
    using assms takeWhile_dropWhile_id [of "\<lambda>p. GetBlockTime p \<ge> start" c]
    by (metis chain_indexed_def distinct_append map_append)
  moreover have "card (snd ` set (stake_candidates c start)) = card (set (map bi_hash ?t))" by (simp add: s)
  ultimately have "card (set (map snd (stake_candidates c start))) = length (map snd (stake_candidates c start))"
    using distinct_card [of "map bi_hash ?t"] by (simp add: stake_candidates_def)
  then show "distinct (map snd (stake_candidates c start))" by (rule card_distinct)
qed

lemma ComputeNextStakeModifier_bits:
  assumes "chain_indexed mapBlockIndex c"
  shows "\<exists>modifier generated. ComputeNextStakeModifier hash mapBlockIndex c = (True, modifier, generated)
    \<and> (generated \<longrightarrow> (\<exists>sel. length sel \<le> 64 \<and> set sel \<subseteq> set c \<and> distinct sel
         \<and> (\<forall>i. bit modifier i \<longleftrightarrow> i < length sel \<and> bi_GetStakeEntropyBit (sel ! i) \<noteq> 0)))"
proof -
  obtain modifier time where last: "GetLastStakeModifier c = Some (modifier, time)"
    using GetLastStakeModifier_returns [of c] assms unfolding chain_indexed_def by fastforce
  have ne: "c \<noteq> []" using assms by (simp add: chain_indexed_def)
  define start where "start = (GetBlockTime (hd c) div int nModifierInterval) * int nModifierInterval - GetStakeModifierSelectionInterval"
  let ?cands = "stake_candidates c start"
  let ?n = "min 64 (length ?cands)"
  obtain new sel where r: "select_rounds hash mapBlockIndex ?cands modifier [0..<?n] [] start 0 = Some new" "length sel = ?n"
    "distinct (map bi_hash sel)" "\<forall>p \<in> set sel. mapBlockIndex (bi_hash p) = Some p \<and> bi_hash p \<in> snd ` set ?cands"
    "\<forall>i. bit new i \<longleftrightarrow> i < ?n \<and> bi_GetStakeEntropyBit (sel ! i) \<noteq> 0"
    using select_rounds_ok [where cands = ?cands and k = 0 and n = ?n and selected = "[]" and hash = hash and prev = modifier
        and stop = start and new = 0, OF candidates_of_chain(1,2) [OF assms]] by auto
  have "set sel \<subseteq> set c"
  proof
    fix p assume "p \<in> set sel"
    then have p: "mapBlockIndex (bi_hash p) = Some p" "bi_hash p \<in> snd ` set ?cands" using r(4) by auto
    then obtain q where "q \<in> set c" "bi_hash p = bi_hash q"
      unfolding candidates_of_chain(3) [OF assms] by (auto dest: set_takeWhileD)
    then show "p \<in> set c" using p(1) assms by (auto simp: chain_indexed_def)
  qed
  moreover have "distinct sel" using r(3) by (simp add: distinct_map)
  ultimately have "\<exists>sel. length sel \<le> 64 \<and> set sel \<subseteq> set c \<and> distinct sel
      \<and> (\<forall>i. bit new i \<longleftrightarrow> i < length sel \<and> bi_GetStakeEntropyBit (sel ! i) \<noteq> 0)"
    using r(2,5) by (intro exI [of _ sel]) simp
  then show ?thesis using ne last r(1) by (auto simp: ComputeNextStakeModifier_def Let_def start_def [symmetric])
qed

text \<open>
  C22. \<open>ComputeNextStakeModifier\<close> always finds a modifier on an indexed chain. A new one has one bit for each
  of at most 64 rounds, the entropy bit of a block of the chain, and no block is selected twice.
\<close>

theorem ComputeNextStakeModifier_returns:
  assumes "chain_indexed mapBlockIndex c"
  shows "\<exists>modifier generated. ComputeNextStakeModifier hash mapBlockIndex c = (True, modifier, generated)
    \<and> (generated \<longrightarrow> (\<exists>sel. length sel \<le> 64 \<and> set sel \<subseteq> set c \<and> distinct sel
         \<and> (\<forall>i. bit modifier i \<longleftrightarrow> i < length sel \<and> bi_GetStakeEntropyBit (sel ! i) \<noteq> 0)))"
  using assms by (rule ComputeNextStakeModifier_bits)

theorem ComputeNextStakeModifier_returns_witness:
  "\<exists>modifier generated. ComputeNextStakeModifier (\<lambda>_. 1) (\<lambda>h. if h = 0 then Some (SetStakeModifier 7 True CBlockIndex_new) else None)
     [SetStakeModifier 7 True CBlockIndex_new] = (True, modifier, generated)"
proof -
  have "chain_indexed (\<lambda>h. if h = 0 then Some (SetStakeModifier 7 True CBlockIndex_new) else None)
      [SetStakeModifier 7 True CBlockIndex_new]"
    by (simp add: chain_indexed_def SetStakeModifier_def CBlockIndex_new_def GeneratedStakeModifier_def)
  from ComputeNextStakeModifier_returns [OF this] show ?thesis by blast
qed

text \<open>
  C23. The hash target of the kernel does not protect blocks: \<open>CheckProofOfStake\<close> answers whether the
  transaction is a coinstake whose previous transaction is in the index, whatever the signature, the
  hash, the target, the age and the clock.
\<close>

theorem CheckProofOfStake_ignores_kernel:
  assumes "CheckProofOfStake K pindexPrev tx bits cache = (Inr (b, proofs), tx', cache')"
  shows "b \<longleftrightarrow> IsCoinStake tx \<and> tx_view (ke_db K) (op_hash (prevout (vin tx ! 0))) \<noteq> None"
  using assms
  by (auto simp: CheckProofOfStake_def ReadFromDisk_outpoint_def ReadFromDisk_hash_def ReadFromDisk_pos_def
      db_ReadTxIndex_def tx_view_def Let_def DoS_def split: prod.splits option.splits if_splits)

text \<open>
  A heavier coin never does worse: if the kernel hash of an output meets its target, it meets the
  target of an output of greater value with the same place and times.
\<close>

theorem CheckStakeKernelHash_mono:
  assumes "CheckStakeKernelHash L hash nBestHeight p bits nTimeBlockFrom txPrev out nTimeTx = Some (True, proofs)"
    and "nTime txPrev' = nTime txPrev" "unat (op_n out) < length (vout txPrev')" "0 < CBigNum_SetCompact L bits"
    and "nValue (vout txPrev ! unat (op_n out)) \<le> nValue (vout txPrev' ! unat (op_n out))"
  shows "\<exists>proofs'. CheckStakeKernelHash L hash nBestHeight p bits nTimeBlockFrom txPrev' out nTimeTx = Some (True, proofs')"
proof -
  let ?h = "hash (WRITEDATA 8 (nStakeModifier p) @ WRITEDATA 4 nTimeBlockFrom @
    WRITEDATA 4 (nTime txPrev) @ WRITEDATA 32 (op_hash out) @ WRITEDATA 4 (op_n out) @ WRITEDATA 4 nTimeTx)"
  have "CBigNum_setuint256 L ?h \<le> CBigNum_SetCompact L bits * nValue (vout txPrev ! unat (op_n out))"
    "\<not> nTimeTx < nTime txPrev" "\<not> (nTimeBlockFrom + nStakeMinAge > nTimeTx \<and> nBestHeight \<noteq> 21189 \<and> \<not> nBestHeight < 260000)"
    using assms(1) by (auto simp: CheckStakeKernelHash_def Let_def split: if_splits)
  moreover have "CBigNum_SetCompact L bits * nValue (vout txPrev ! unat (op_n out)) \<le>
      CBigNum_SetCompact L bits * nValue (vout txPrev' ! unat (op_n out))"
    using assms(4,5) by (intro mult_left_mono) simp_all
  ultimately show ?thesis using assms(2,3) by (auto simp: CheckStakeKernelHash_def Let_def)
qed


text \<open>A coinstake from the future of its coins, whose kernel fails, and one that passes.\<close>

definition sample_coinstake :: CTransaction where
  "sample_coinstake = sample_tx\<lparr>vout := [\<lparr>nValue = 0, nRounds = -10, scriptPubKey = []\<rparr>,
     \<lparr>nValue = 9, nRounds = -10, scriptPubKey = [0x51]\<rparr>]\<rparr>"

definition sample_kernel_env :: kernel_env where
  "sample_kernel_env = \<lparr>ke_bn = ref_lib, ke_hash = (\<lambda>_. 99), ke_script = sample_tx_env,
     ke_db = empty_db\<lparr>pdb := [tx_key 7 \<mapsto> ser_CTxIndex 1 (CTxIndex_new mempool_pos 1)], activeBatch := None\<rparr>,
     ke_opens = (\<lambda>_. False), ke_header = (\<lambda>_ _. None), ke_pindexBest = CBlockIndex_new,
     ke_now = 0, ke_adjustedTime = 2000\<rparr>"

lemma sample_indexed: "tx_view (ke_db sample_kernel_env) 7 = Some (CTxIndex_new mempool_pos 1)"
proof -
  have "db_Read (ke_db sample_kernel_env) (tx_key 7) = Some (ser_CTxIndex 1 (CTxIndex_new mempool_pos 1))"
    by (simp add: db_Read_view sample_kernel_env_def)
  moreover have "db_value unser_CTxIndex (Some (ser_CTxIndex 1 (CTxIndex_new mempool_pos 1))) = Some (CTxIndex_new mempool_pos 1)"
    by (rule txs.value_Ser) (simp add: CTxIndex_new_def small_def MAX_SIZE_def int32_def)
  ultimately show ?thesis by (simp add: tx_view_def)
qed

theorem CheckProofOfStake_ignores_kernel_witness:
  "CheckProofOfStake sample_kernel_env CBlockIndex_new sample_coinstake 1 empty_cache =
     (Inr (True, None), sample_coinstake, empty_cache)"
proof -
  have stake: "IsCoinStake sample_coinstake"
    by (simp add: sample_coinstake_def sample_tx_def IsCoinStake_def COutPoint_IsNull_def CTxOut_IsEmpty_def)
  have p: "prevout (vin sample_coinstake ! 0) = \<lparr>op_hash = 7, op_n = 0\<rparr>" by (simp add: sample_coinstake_def sample_tx_def)
  have found: "db_ReadTxIndex (ke_db sample_kernel_env) 7 = (True, CTxIndex_new mempool_pos 1)"
    using sample_indexed by (simp add: db_ReadTxIndex_def tx_view_def)
  have sig: "verify_input (ke_script sample_kernel_env) sample_coinstake 0 (CTransaction_SetNull 2000) SCRIPT_VERIFY_NONE empty_cache
      = (Some False, empty_cache)"
    by (simp add: verify_input_def VerifySignature_def Let_def sample_coinstake_def sample_tx_def CTransaction_SetNull_def)
  have "CheckProofOfStake sample_kernel_env CBlockIndex_new sample_coinstake 1 empty_cache =
     (Inr (b, None), sample_coinstake, empty_cache) \<longleftrightarrow> b" for b
    using stake found sig p
    by (simp add: CheckProofOfStake_def ReadFromDisk_outpoint_def ReadFromDisk_hash_def ReadFromDisk_pos_def Let_def
        sample_kernel_env_def CheckStakeKernelHash_def)
      (simp add: CTransaction_SetNull_def sample_coinstake_def sample_tx_def)
  then obtain b where b: "CheckProofOfStake sample_kernel_env CBlockIndex_new sample_coinstake 1 empty_cache =
     (Inr (b, None), sample_coinstake, empty_cache)" by blast
  have "b" using CheckProofOfStake_ignores_kernel [OF b] stake p sample_indexed by simp
  then show ?thesis using b by simp
qed

theorem CheckStakeKernelHash_mono_witness:
  "\<exists>proofs. CheckStakeKernelHash ref_lib (\<lambda>_. 99) 0 CBlockIndex_new 0x03123456 900
     (sample_tx\<lparr>vout := [\<lparr>nValue = 600000000, nRounds = -10, scriptPubKey = []\<rparr>]\<rparr>) \<lparr>op_hash = 7, op_n = 0\<rparr> 5000 = Some (True, proofs)"
proof -
  have "CBigNum_setuint256 ref_lib 99 = 99" using setuint_value(2) [OF ref_lib_ok] by simp
  then have "CheckStakeKernelHash ref_lib (\<lambda>_. 99) 0 CBlockIndex_new 0x03123456 900 sample_tx \<lparr>op_hash = 7, op_n = 0\<rparr> 5000 =
     Some (True, Some (99, CBigNum_getuint256 ref_lib (0x123456 * 500000000)))"
    using retarget_sample(2) by (simp add: CheckStakeKernelHash_def Let_def sample_tx_def nStakeMinAge_def)
  from CheckStakeKernelHash_mono [OF this] show ?thesis
    using retarget_sample(2) by (simp add: sample_tx_def)
qed

end
