(* ===== verification/Rewards.thy ===== *)
theory Rewards imports Chain_Index Complex_Main begin

text \<open>
  Block rewards (\<open>src/src/main.cpp\<close>: \<open>GetDynamicBlockReward3\<close>, \<open>GetProofOfWorkReward\<close>,
  \<open>GetProofOfStakeReward\<close>), which the code computes with \<open>double\<close>. A \<open>double\<close> is the rational number it stands
  for; every operation rounds to 53 significant bits, ties to even. The exponents stay far from the
  ends of their range. The difficulty and the hash rate of the network, which the reward is derived
  from, are parameters.
\<close>

subsection \<open>Arithmetic of doubles\<close>

fun bit_length :: "nat \<Rightarrow> nat" where
  "bit_length n = (if n = 0 then 0 else bit_length (n div 2) + 1)"

declare bit_length.simps [simp del]

definition pow2 :: "int \<Rightarrow> rat" where
  "pow2 k = (if k \<ge> 0 then 2 ^ nat k else 1 / 2 ^ nat (- k))"

text \<open>The exponent of the leading bit of a positive rational.\<close>

definition exponent :: "rat \<Rightarrow> int" where
  "exponent x = (case quotient_of x of (p, q) \<Rightarrow>
     let e = int (bit_length (nat p)) - int (bit_length (nat q)) in if pow2 e \<le> x then e else e - 1)"

definition half_even :: "rat \<Rightarrow> int" where
  "half_even x = (let f = \<lfloor>x\<rfloor>; r = x - of_int f in
     if r < 1 / 2 then f else if r > 1 / 2 then f + 1 else if even f then f else f + 1)"

definition double :: "rat \<Rightarrow> rat" where
  "double x = (if x = 0 then 0 else let u = pow2 (exponent \<bar>x\<bar> - 52) in of_int (half_even (x / u)) * u)"

text \<open>Conversions: from integers, and to 64-bit integers, towards zero; \<open>None\<close> outside their range.\<close>

definition of_int64 :: "int \<Rightarrow> rat" where "of_int64 n = double (of_int n)"

definition to_int64 :: "rat \<Rightarrow> int option" where
  "to_int64 x = (let n = (if x \<ge> 0 then \<lfloor>x\<rfloor> else \<lceil>x\<rceil>) in if int64 n then Some n else None)"

definition to_int32 :: "rat \<Rightarrow> int option" where
  "to_int32 x = (let n = (if x \<ge> 0 then \<lfloor>x\<rfloor> else \<lceil>x\<rceil>) in if int32 n then Some n else None)"

subsection \<open>Proof of work\<close>

definition subsidy_max :: "int \<Rightarrow> rat" where
  "subsidy_max height =
     (if height > 50000001 then 2 else if height > 1000001 then 1 else if height > 100 then 2
      else if height > 0 then 200000 else 1)"

text \<open>\<open>None\<close> is a conversion outside the range of \<open>int\<close>.\<close>

definition GetDynamicBlockReward3 :: "rat \<Rightarrow> rat \<Rightarrow> int \<Rightarrow> int option" where
  "GetDynamicBlockReward3 nDifficulty nNetworkHashPS height =
     (let nSubsidyMin = 1;
          nSubsidyMax = subsidy_max height;
          nSubsidyMod = (if nNetworkHashPS > 0 then double (nNetworkHashPS / nDifficulty) else 0);
          nSubsidyBase = double (nSubsidyMax - nSubsidyMod);
          nSubsidyBase = (if height < 101 then nSubsidyBase
                          else let nSubsidyBase = (if nSubsidyMod > nSubsidyMax then nSubsidyMax else nSubsidyBase)
                               in if nSubsidyMod < nSubsidyMin then nSubsidyMin else nSubsidyBase)
      in to_int32 nSubsidyBase)"

definition supply_exceeded :: "int \<Rightarrow> bool" where
  "supply_exceeded nSupply \<longleftrightarrow> double (of_int64 nSupply / of_int64 COIN) > 450000000"

definition GetProofOfWorkReward :: "rat \<Rightarrow> rat \<Rightarrow> CBlockIndex \<Rightarrow> int \<Rightarrow> int \<Rightarrow> int option" where
  "GetProofOfWorkReward nDifficulty nNetworkHashPS pindexBest height nFees =
     (if supply_exceeded (nMoneySupply pindexBest) then Some 0
      else do {
        nSubsidyBase \<leftarrow> (if height > 0 then GetDynamicBlockReward3 nDifficulty nNetworkHashPS height else Some 1);
        nSubsidy \<leftarrow> to_int64 (double (of_int nSubsidyBase * of_int COIN));
        Some (nSubsidy + nFees) })"

subsection \<open>Proof of stake\<close>

definition COIN_YEAR_REWARD :: int where "COIN_YEAR_REWARD = 1000 * CENT"

text \<open>\<open>n * c\<close> for an integer and a constant of type \<open>double\<close>, assigned to an integer.\<close>

definition scaled :: "int \<Rightarrow> rat \<Rightarrow> int option" where
  "scaled n c = to_int64 (double (of_int64 n * double c))"

text \<open>The tiers are tested one after the other, each on the result of the ones before it.\<close>

definition tier :: "bool \<Rightarrow> int \<Rightarrow> rat \<Rightarrow> int \<Rightarrow> int option" where
  "tier cond n c nSubsidy = (if cond then scaled n c else Some nSubsidy)"

text \<open>\<open>None\<close> is an integer overflow, or a conversion outside its range.\<close>

definition GetProofOfStakeReward :: "CBlockIndex \<Rightarrow> int \<Rightarrow> int \<Rightarrow> int \<Rightarrow> int option" where
  "GetProofOfStakeReward pindexBest prev_height nCoinAge nFees =
     (if \<not> int64 (nCoinAge * COIN_YEAR_REWARD * 33) then None
      else
        let nSubsidy = (nCoinAge * COIN_YEAR_REWARD * 33) sdiv (365 * 33 + 8);
            nSubsidyBase = (nCoinAge * COIN_YEAR_REWARD) sdiv (365 + 8 div 33)
        in if supply_exceeded (nMoneySupply pindexBest) then Some 0
           else do {
             n0 \<leftarrow> (if prev_height = 0 then to_int64 (double (3125 / 100000)) else Some (nSubsidy * 1));
             n1 \<leftarrow> tier (prev_height > 100) n0 (35 / 100) n0;
             n2 \<leftarrow> tier (prev_height > 1000000) n1 (30 / 100) n1;
             n3 \<leftarrow> tier (prev_height > 5000000) n2 (25 / 1000) n2;
             n4 \<leftarrow> tier (prev_height > 5000000) nSubsidyBase (1 / 100) n3;
             n5 \<leftarrow> tier (prev_height > 20000000) nSubsidyBase (5 / 1000) n4;
             n6 \<leftarrow> tier (prev_height > 50000001) nSubsidyBase (25 / 10000) n5;
             Some (n6 + nFees) })"

text \<open>What \<open>ConnectBlock\<close> takes the minted amount of a coinstake to be: its last outputs times 2.5.\<close>

definition stake_mint :: "CTxOut list \<Rightarrow> int option" where
  "stake_mint outs =
     (let n = length outs;
          Transaction_vout = (if n = 3 \<or> n = 4 then nValue (outs ! (n - 1))
                              else if n = 5 then nValue (outs ! 3) + nValue (outs ! 4) else 0)
      in scaled Transaction_vout (25 / 10))"

subsection \<open>Rounding\<close>

lemma bit_length_bounds: "0 < n \<Longrightarrow> 2 ^ (bit_length n - 1) \<le> n \<and> n < 2 ^ bit_length n \<and> 0 < bit_length n"
proof (induction n rule: bit_length.induct)
  case (1 n)
  show ?case
  proof (cases "n = 1")
    case True
    then show ?thesis by (simp add: bit_length.simps)
  next
    case False
    then have h: "0 < n div 2" using 1(2) by (simp add: div_greater_zero_iff)
    have IH: "2 ^ (bit_length (n div 2) - 1) \<le> n div 2" "n div 2 < 2 ^ bit_length (n div 2)" "0 < bit_length (n div 2)"
      using 1(1) 1(2) h by simp_all
    have b: "bit_length n = bit_length (n div 2) + 1" using 1(2) by (simp add: bit_length.simps [of n])
    have "2 * 2 ^ (bit_length (n div 2) - 1) = (2 :: nat) ^ bit_length (n div 2)"
      using IH(3) by (simp flip: power_Suc)
    then have "2 ^ bit_length (n div 2) \<le> n" using IH(1) by linarith
    moreover have "n < 2 * 2 ^ bit_length (n div 2)" using IH(2) by linarith
    ultimately show ?thesis by (simp add: b)
  qed
qed

lemma pow2_pos [simp]: "0 < pow2 k"
  by (simp add: pow2_def)

lemma pow2_add: "pow2 (a + b) = pow2 a * pow2 b"
proof -
  have p: "pow2 k = 2 powi k" for k
    by (auto simp: pow2_def power_int_def field_simps)
  show ?thesis by (simp add: p power_int_add)
qed

lemma pow2_mono: "a \<le> b \<Longrightarrow> pow2 a \<le> pow2 b"
proof -
  assume "a \<le> b"
  then have "pow2 b = pow2 a * 2 ^ nat (b - a)" using pow2_add [of a "b - a"] by (simp add: pow2_def)
  moreover have "1 \<le> (2 :: rat) ^ nat (b - a)" by simp
  ultimately show ?thesis using pow2_pos [of a] by (metis mult.right_neutral mult_le_cancel_left_pos)
qed

lemma exponent_bounds:
  assumes "0 < x"
  shows "pow2 (exponent x) \<le> x" "x < pow2 (exponent x + 1)"
proof -
  obtain p q where pq: "quotient_of x = (p, q)" by fastforce
  have q: "0 < q" using quotient_of_denom_pos [OF pq] .
  have x: "x = of_int p / of_int q" using quotient_of_div [OF pq] .
  have p: "0 < p" using assms q by (simp add: x zero_less_divide_iff)
  define a b where "a = bit_length (nat p)" and "b = bit_length (nat q)"
  have pb: "2 ^ (a - 1) \<le> nat p" "nat p < 2 ^ a" "0 < a" using bit_length_bounds [of "nat p"] p by (simp_all add: a_def)
  have qb: "2 ^ (b - 1) \<le> nat q" "nat q < 2 ^ b" "0 < b" using bit_length_bounds [of "nat q"] q by (simp_all add: b_def)
  have P: "(of_nat (nat p) :: rat) = of_int p" "(of_nat (nat q) :: rat) = of_int q" using p q by simp_all
  have pr: "pow2 (int a - 1) \<le> of_int p" "of_int p < pow2 (int a)"
    using of_nat_mono [OF pb(1), where ?'a = rat] of_nat_less_iff [THEN iffD2, OF pb(2), where ?'a1 = rat] pb(3) P
    by (simp_all add: pow2_def nat_diff_distrib)
  have qr: "pow2 (int b - 1) \<le> of_int q" "of_int q < pow2 (int b)"
    using of_nat_mono [OF qb(1), where ?'a = rat] of_nat_less_iff [THEN iffD2, OF qb(2), where ?'a1 = rat] qb(3) P
    by (simp_all add: pow2_def nat_diff_distrib)
  have q0: "(0 :: rat) < of_int q" using q by simp
  have "pow2 (int a - int b - 1) * of_int q < pow2 (int a - int b - 1) * pow2 (int b)" using qr(2) by simp
  also have "\<dots> = pow2 (int a - 1)" by (simp add: pow2_add [symmetric])
  finally have lo: "pow2 (int a - int b - 1) \<le> x" using pr(1) q0 by (simp add: x pos_le_divide_eq)
  have "of_int p < pow2 (int a)" by (rule pr(2))
  also have "\<dots> = pow2 (int a - int b + 1) * pow2 (int b - 1)" by (simp add: pow2_add [symmetric])
  also have "\<dots> \<le> pow2 (int a - int b + 1) * of_int q" using qr(1) by (intro mult_left_mono) (simp_all add: less_imp_le)
  finally have hi: "x < pow2 (int a - int b + 1)" using q0 by (simp add: x pos_divide_less_eq)
  have e: "exponent x = (if pow2 (int a - int b) \<le> x then int a - int b else int a - int b - 1)"
    by (simp add: exponent_def pq a_def b_def Let_def)
  show "pow2 (exponent x) \<le> x" "x < pow2 (exponent x + 1)" using lo hi by (auto simp: e)
qed

lemma half_even_le: "x \<le> of_int n \<Longrightarrow> half_even x \<le> n"
proof -
  assume le: "x \<le> of_int n"
  have "\<lfloor>x\<rfloor> \<le> n" using le floor_mono [OF le] by simp
  moreover have "x = of_int n" if "\<lfloor>x\<rfloor> = n" using that le of_int_floor_le [of x] by simp
  ultimately show "half_even x \<le> n" by (cases "\<lfloor>x\<rfloor> = n") (auto simp: half_even_def Let_def)
qed

lemma half_even_ge: "of_int n \<le> x \<Longrightarrow> n \<le> half_even x"
  using floor_mono [of "of_int n" x] by (auto simp: half_even_def Let_def)

lemma half_even_int: "half_even (of_int n) = n"
  by (simp add: half_even_def Let_def)

lemma double_int:
  assumes "x = of_int m * pow2 (exponent \<bar>x\<bar> - 52)" shows "double x = x"
proof (cases "x = 0")
  case False
  have "x / pow2 (exponent \<bar>x\<bar> - 52) = of_int m"
    using assms pow2_pos [of "exponent \<bar>x\<bar> - 52"] by (metis nonzero_mult_div_cancel_right less_irrefl)
  then show ?thesis using assms False by (simp add: double_def Let_def half_even_int)
qed (simp add: double_def)

lemma double_le:
  assumes "0 \<le> x" "x \<le> r" "r = of_int m * pow2 (exponent x - 52)"
  shows "double x \<le> r"
proof (cases "x = 0")
  case False
  let ?u = "pow2 (exponent x - 52)"
  have "x / ?u \<le> of_int m" using assms by (simp add: pos_divide_le_eq)
  then have "half_even (x / ?u) \<le> m" by (rule half_even_le)
  then have "of_int (half_even (x / ?u)) * ?u \<le> of_int m * ?u" by (intro mult_right_mono) (simp_all add: less_imp_le)
  then show ?thesis using assms(1,3) False by (simp add: double_def Let_def)
qed (use assms in \<open>simp add: double_def\<close>)

lemma double_nonneg: "0 \<le> x \<Longrightarrow> 0 \<le> double x"
proof -
  assume "0 \<le> x"
  then have "0 \<le> half_even (x / pow2 (exponent \<bar>x\<bar> - 52))"
    by (intro half_even_ge) (simp add: less_imp_le)
  then show ?thesis by (simp add: double_def Let_def less_imp_le)
qed


lemma exponent_less: "0 < x \<Longrightarrow> x < pow2 k \<Longrightarrow> exponent x < k"
  using exponent_bounds(1) [of x] pow2_mono [of k "exponent x"] by (meson leD le_less_trans not_le)

lemma int_multiple: "k \<le> 0 \<Longrightarrow> of_int n = of_int (n * 2 ^ nat (- k)) * pow2 k"
  by (cases "k = 0") (simp_all add: pow2_def)

lemma double_le_int:
  assumes "0 \<le> x" "x \<le> of_int n" "n < 2 ^ 53"
  shows "double x \<le> of_int n"
proof (cases "x = 0")
  case False
  have "(of_int n :: rat) < of_int (2 ^ 53)" using assms(3) by (simp only: of_int_less_iff)
  then have "x < pow2 53" using assms(2) by (simp add: pow2_def)
  then have "exponent x - 52 \<le> 0" using exponent_less [of x 53] assms(1) False by simp
  from double_le [OF assms(1,2) int_multiple [OF this]] show ?thesis .
qed (use assms in \<open>simp add: double_def\<close>)

lemma double_of_int:
  assumes "\<bar>n\<bar> < 2 ^ 53" shows "double (of_int n) = of_int n"
proof (cases "n = 0")
  case False
  have "(of_int \<bar>n\<bar> :: rat) < of_int (2 ^ 53)" using assms by (simp only: of_int_less_iff)
  then have "\<bar>of_int n :: rat\<bar> < pow2 53" by (simp add: pow2_def)
  then have "exponent \<bar>of_int n :: rat\<bar> - 52 \<le> 0" using exponent_less [of "\<bar>of_int n\<bar>" 53] False by simp
  from double_int [OF int_multiple [OF this]] show ?thesis .
qed (simp add: double_def)

lemma to_int32_unit: "0 \<le> x \<Longrightarrow> x \<le> 1 \<Longrightarrow> \<exists>k. to_int32 x = Some k \<and> 0 \<le> k \<and> k \<le> 1"
  using floor_mono [of x 1] by (auto simp: to_int32_def Let_def int32_def)

lemma to_int32_int: "int32 n \<Longrightarrow> to_int32 (of_int n) = Some n"
  by (simp add: to_int32_def)

lemma to_int64_int: "int64 n \<Longrightarrow> to_int64 (of_int n) = Some n"
  by (simp add: to_int64_def)

lemma double_half_int:
  assumes "0 \<le> n" "n < 2 ^ 53" shows "double (of_int n / 2) = of_int n / 2"
proof (cases "n = 0")
  case False
  let ?x = "of_int n / 2 :: rat"
  have "(of_int n :: rat) < of_int (2 ^ 53)" using assms(2) by (simp only: of_int_less_iff)
  then have "?x < pow2 52" by (simp add: pow2_def)
  then have e: "exponent ?x - 52 \<le> - 1" using exponent_less [of ?x 52] assms(1) False by simp
  have "pow2 (exponent ?x - 51) = 2 * pow2 (exponent ?x - 52)" using pow2_add [of 1 "exponent ?x - 52"] by (simp add: pow2_def)
  moreover have "of_int n = of_int (n * 2 ^ nat (- (exponent ?x - 51))) * pow2 (exponent ?x - 51)"
    using e by (intro int_multiple) simp
  ultimately have "?x = of_int (n * 2 ^ nat (- (exponent ?x - 51))) * pow2 (exponent ?x - 52)" by (simp add: mult.commute)
  moreover have "\<bar>?x\<bar> = ?x" using assms(1) by simp
  ultimately have "?x = of_int (n * 2 ^ nat (- (exponent ?x - 51))) * pow2 (exponent \<bar>?x\<bar> - 52)" by (simp only:)
  then show ?thesis by (rule double_int)
qed (simp add: double_def)

subsection \<open>Properties\<close>

lemma subsidy_max_cases: "height > 100 \<Longrightarrow> subsidy_max height = of_int 1 \<or> subsidy_max height = of_int 2"
  by (simp add: subsidy_max_def)

lemma dynamic_reward:
  assumes "height > 100" "0 \<le> nNetworkHashPS" "0 < nDifficulty"
  shows "\<exists>k. GetDynamicBlockReward3 nDifficulty nNetworkHashPS height = Some k \<and> 0 \<le> k \<and> k \<le> 2
    \<and> (double (nNetworkHashPS / nDifficulty) > subsidy_max height \<longrightarrow> of_int k = subsidy_max height)"
proof -
  define m where "m = (if nNetworkHashPS > 0 then double (nNetworkHashPS / nDifficulty) else 0)"
  have m: "m = double (nNetworkHashPS / nDifficulty)" using assms(2) by (auto simp: m_def double_def)
  have m0: "0 \<le> m" using double_nonneg [of "nNetworkHashPS / nDifficulty"] assms by (simp add: m)
  obtain M where M: "subsidy_max height = of_int M" "M = 1 \<or> M = 2" using subsidy_max_cases [OF assms(1)] by blast
  have eq: "GetDynamicBlockReward3 nDifficulty nNetworkHashPS height =
      to_int32 (if m < 1 then 1 else if m > of_int M then of_int M else double (of_int M - m))"
    using assms(1) by (simp add: GetDynamicBlockReward3_def Let_def m_def [symmetric] M(1))
  consider "m < 1" | "1 \<le> m" "m > of_int M" | "1 \<le> m" "m \<le> of_int M" by linarith
  then show ?thesis
  proof cases
    case 1
    then show ?thesis using M to_int32_int [of 1] by (auto simp: eq m [symmetric] int32_def)
  next
    case 2
    then show ?thesis using M to_int32_int [of M] by (auto simp: eq m [symmetric] int32_def)
  next
    case 3
    have "0 \<le> of_int M - m" "of_int M - m \<le> of_int 1" using 3 M(2) by auto
    then have "0 \<le> double (of_int M - m)" "double (of_int M - m) \<le> of_int 1"
      using double_nonneg double_le_int [of _ 1] by auto
    then show ?thesis using 3 M(1) to_int32_unit [of "double (of_int M - m)"] by (auto simp: eq m [symmetric])
  qed
qed

text \<open>
  After the premine (height above 100) a block of proof of work earns at most two coins: \<open>GetDynamicBlockReward3\<close>
  never leaves the range of its integer, and it pays the highest reward of the tier when the network
  is too fast for its difficulty, not the lowest.
\<close>

theorem GetDynamicBlockReward3_bounds:
  assumes "height > 100" "0 \<le> nNetworkHashPS" "0 < nDifficulty"
  shows "\<exists>k. GetDynamicBlockReward3 nDifficulty nNetworkHashPS height = Some k \<and> 0 \<le> k \<and> k \<le> 2
    \<and> (double (nNetworkHashPS / nDifficulty) > subsidy_max height \<longrightarrow> of_int k = subsidy_max height)"
  using assms by (rule dynamic_reward)

theorem GetDynamicBlockReward3_bounds_witness:
  "\<exists>k. GetDynamicBlockReward3 2 10 500 = Some k \<and> 0 \<le> k \<and> k \<le> 2"
  using GetDynamicBlockReward3_bounds [of 500 10 2] by auto

lemma supply_in_range:
  assumes "0 \<le> n" "n \<le> MAX_MONEY" shows "\<not> supply_exceeded n"
proof -
  have M: "MAX_MONEY = 45000000000000000" by (simp add: MAX_MONEY_def COIN_def)
  have "of_int64 n \<le> of_int MAX_MONEY"
  proof (cases "n < 2 ^ 53")
    case True
    then show ?thesis using assms double_of_int [of n] by (simp add: of_int64_def)
  next
    case False
    let ?x = "of_int n :: rat"
    have "pow2 53 \<le> ?x" "?x < pow2 56"
      using False of_int_le_iff [of "2 ^ 53" n, where ?'a = rat] of_int_less_iff [of n "2 ^ 56", where ?'a = rat] assms(2)
      by (simp_all add: pow2_def M)
    then have x: "0 < ?x" by (meson less_le_trans pow2_pos)
    have "exponent ?x < 56" using exponent_less x \<open>?x < pow2 56\<close> by blast
    moreover have "53 \<le> exponent ?x"
      using exponent_bounds(2) [OF x] \<open>pow2 53 \<le> ?x\<close> pow2_mono [of "exponent ?x + 1" 53] by linarith
    ultimately have e: "exponent ?x - 52 = 1 \<or> exponent ?x - 52 = 2 \<or> exponent ?x - 52 = 3" by linarith
    have "\<exists>m. (of_int MAX_MONEY :: rat) = of_int m * pow2 (exponent ?x - 52)"
      using e by (elim disjE) (auto simp: M pow2_def intro: exI [of _ 22500000000000000] exI [of _ 11250000000000000]
          exI [of _ 5625000000000000])
    then obtain m where "(of_int MAX_MONEY :: rat) = of_int m * pow2 (exponent ?x - 52)" ..
    from double_le [OF _ _ this] show ?thesis using assms by (simp add: of_int64_def)
  qed
  moreover have c: "of_int64 COIN = 100000000" using double_of_int [of COIN] by (simp add: of_int64_def COIN_def)
  ultimately have q: "of_int64 n / of_int64 COIN \<le> of_int 450000000" by (simp add: M c pos_divide_le_eq)
  have "0 \<le> of_int64 n" using double_nonneg [of "of_int n"] assms(1) by (simp add: of_int64_def)
  then have "0 \<le> of_int64 n / of_int64 COIN" by (simp add: c)
  from double_le_int [OF this q] show ?thesis by (simp add: supply_exceeded_def not_less)
qed

text \<open>
  While the money supply has not passed its maximum, the reward of a block of proof of work is 0, 1 or 2
  coins and the fees.
\<close>

theorem GetProofOfWorkReward_bounds:
  assumes "height > 100" "0 \<le> nNetworkHashPS" "0 < nDifficulty" "0 \<le> nMoneySupply best" "nMoneySupply best \<le> MAX_MONEY"
  shows "\<exists>k. GetProofOfWorkReward nDifficulty nNetworkHashPS best height nFees = Some (k * COIN + nFees) \<and> 0 \<le> k \<and> k \<le> 2"
proof -
  obtain k where k: "GetDynamicBlockReward3 nDifficulty nNetworkHashPS height = Some k" "0 \<le> k" "k \<le> 2"
    using dynamic_reward [OF assms(1-3)] by blast
  have "double (of_int k * of_int COIN) = of_int (k * COIN)"
    using double_of_int [of "k * COIN"] k(2,3) by (simp add: COIN_def)
  moreover have "int64 (k * COIN)" using k(2,3) by (auto simp: int64_def COIN_def)
  then have "to_int64 (of_int (k * COIN)) = Some (k * COIN)" by (rule to_int64_int)
  ultimately have "GetProofOfWorkReward nDifficulty nNetworkHashPS best height nFees = Some (k * COIN + nFees)"
    using assms(1) k(1) supply_in_range [OF assms(4,5)] by (simp add: GetProofOfWorkReward_def)
  then show ?thesis using k(2,3) by blast
qed

theorem GetProofOfWorkReward_bounds_witness:
  "\<exists>k. GetProofOfWorkReward 2 10 (CBlockIndex_new\<lparr>nMoneySupply := 44999999999999999\<rparr>) 500 7 = Some (k * COIN + 7)
     \<and> 0 \<le> k \<and> k \<le> 2"
  using GetProofOfWorkReward_bounds [of 500 10 2 "CBlockIndex_new\<lparr>nMoneySupply := 44999999999999999\<rparr>" 7]
  by (simp add: MAX_MONEY_def COIN_def)


lemma scaled_two_and_a_half:
  assumes "0 \<le> v" "v \<le> 2 ^ 50" shows "scaled v (25 / 10) = Some (5 * v div 2)"
proof -
  have v: "of_int64 v = of_int v" using double_of_int [of v] assms by (simp add: of_int64_def)
  have c: "double (25 / 10) = 5 / 2" using double_half_int [of 5] by simp
  have "double (of_int v * (5 / 2)) = of_int (5 * v) / 2" using double_half_int [of "5 * v"] assms by (simp add: mult.commute)
  then have "scaled v (25 / 10) = to_int64 (of_int (5 * v) / 2)" by (simp only: scaled_def v c)
  moreover have "\<lfloor>of_int (5 * v) / 2 :: rat\<rfloor> = 5 * v div 2" by (metis floor_divide_of_int_eq of_int_numeral)
  moreover have "int64 (5 * v div 2)" "0 \<le> (of_int (5 * v) / 2 :: rat)" using assms by (simp_all add: int64_def) presburger
  ultimately show ?thesis by (simp only: to_int64_def Let_def if_True)
qed

end
