(* ===== verification/Chain_State.thy ===== *)
theory Chain_State imports Check_Block Kernel Rewards begin

text \<open>
  How a block changes the state of the node (\<open>src/src/main.cpp\<close>): \<open>ConnectBlock\<close> and \<open>DisconnectBlock\<close> with the
  address index, \<open>GetCoinAge\<close>, \<open>SetBestChainInner\<close>, \<open>SetBestChain\<close> and \<open>AddToBlockIndex\<close>, over the database, the
  checks of blocks and transactions, the stake modifier and the rewards. Locks, sleeps, log messages,
  wallets and the interface are left out. Sums of amounts are unbounded integers; a conversion of a reward
  outside its range counts as \<open>OutOfRange\<close>.
\<close>

unbundle bit_operations_syntax

text \<open>
  \<open>ne_now\<close> is the clock that fresh transactions read and \<open>ne_ibd\<close> the answer of \<open>IsInitialBlockDownload\<close>, for
  an input of a transaction of the block; \<open>ne_ok\<close> is the answer of LevelDB to single writes, \<open>ne_commit_index\<close> to the batch with the
  entry of a block and \<open>ne_commit\<close> to that of the block.
\<close>

record ('pk, 'sig) node_env =
  ne_check :: "('pk, 'sig) check_env"
  ne_script :: tx_env
  ne_kernel :: kernel_env
  ne_now :: "nat \<Rightarrow> nat \<Rightarrow> u32"
  ne_ibd :: "nat \<Rightarrow> nat \<Rightarrow> bool"
  ne_addrindex :: bool
  ne_fUseFastIndex :: bool
  ne_client_version :: int
  ne_Hash160 :: "bytes \<Rightarrow> uint160"
  ne_nDifficulty :: rat
  ne_nNetworkHashPS :: rat
  ne_hashGenesisBlock :: uint256
  ne_ok :: bool
  ne_commit_index :: bool
  ne_commit :: bool

definition ne_GetHash :: "('pk, 'sig) node_env \<Rightarrow> CTransaction \<Rightarrow> uint256" where
  "ne_GetHash E = ce_GetHash (ne_check E)"

definition block_hash :: "('pk, 'sig) node_env \<Rightarrow> CBlock \<Rightarrow> uint256" where
  "block_hash E b = CBlock_GetHash (ce_hash (ne_check E)) b"

subsection \<open>Transactions of a block\<close>

record cb_state =
  cb_nFees :: int
  cb_nValueIn :: int
  cb_nValueOut :: int
  cb_nSigOps :: u32
  cb_nTxPos :: u32
  cb_queue :: tx_db
  cb_cache :: sig_cache

text \<open>A turn of the loop returns from \<open>ConnectBlock\<close>, with a score for misbehaviour, or goes on.\<close>

datatype tx_outcome = Leaves "connect_error + bool" int sig_cache | Goes cb_state

text \<open>The sums over a transaction with fewer than three inputs; others are not counted.\<close>

definition connect_amounts :: "CBlock \<Rightarrow> CTransaction \<Rightarrow> MapPrevTx \<Rightarrow> cb_state \<Rightarrow> connect_error + cb_state" where
  "connect_amounts b tx mapInputs st =
     (case GetValueIn tx mapInputs of
        Inl e \<Rightarrow> Inl e
      | Inr nTxValueIn \<Rightarrow>
          (case GetValueOut tx of
             None \<Rightarrow> Inl Thrown
           | Some nTxValueOut \<Rightarrow>
               Inr (st\<lparr>cb_nValueIn := cb_nValueIn st + nTxValueIn, cb_nValueOut := cb_nValueOut st + nTxValueOut,
                 cb_nFees := (if IsCoinStake tx then cb_nFees st
                              else if CBlock_IsProofOfWork b then 0
                              else cb_nFees st + (nTxValueIn - nTxValueOut))\<rparr>)))"

definition block_call :: "('pk, 'sig) node_env \<Rightarrow> nat \<Rightarrow> CDiskTxPos \<Rightarrow> connect_call" where
  "block_call E i posThisTx = \<lparr>cc_posThisTx = posThisTx, cc_fBlock = True, cc_fMiner = False,
     cc_flags = SCRIPT_VERIFY_NOCACHE, cc_fValidateSig = True, cc_ibd = ne_ibd E i\<rparr>"

text \<open>A transaction that spends: its inputs are fetched and connected. Three inputs or more never fail.\<close>

definition connect_spending ::
  "('pk, 'sig) node_env \<Rightarrow> CTxMemPool \<Rightarrow> CBlock \<Rightarrow> chain \<Rightarrow> CTxDB \<Rightarrow> CDiskTxPos \<Rightarrow> nat \<Rightarrow> CTransaction \<Rightarrow> cb_state \<Rightarrow> tx_outcome" where
  "connect_spending E pool b c db posThisTx i tx st =
     (case FetchInputs (tx_view db) pool True False (ne_now E i) tx (\<lambda>_. None) of
        (fetched, mapInputs, fInvalid) \<Rightarrow>
          if \<not> fetched then Leaves (Inr True) 0 (cb_cache st)
          else
            case GetP2SHSigOpCount tx mapInputs of
              Inl e \<Rightarrow> Leaves (Inl e) 0 (cb_cache st)
            | Inr n \<Rightarrow>
                (case (if length (vin tx) < 3 then connect_amounts b tx mapInputs st else Inr st) of
                   Inl e \<Rightarrow> Leaves (Inl e) 0 (cb_cache st)
                 | Inr st \<Rightarrow>
                     (case ConnectInputs (ne_script E) (block_call E i posThisTx) tx mapInputs (cb_queue st) c (cb_cache st) of
                        (Inl e, cache) \<Rightarrow> Leaves (Inl e) 0 cache
                      | (Inr (ok, queue), cache) \<Rightarrow>
                          if \<not> ok then Leaves (Inr (\<not> length (vin tx) < 3)) 0 cache
                          else Goes (st\<lparr>cb_nSigOps := cb_nSigOps st + of_nat n, cb_queue := queue, cb_cache := cache\<rparr>))))"

definition connect_tx ::
  "('pk, 'sig) node_env \<Rightarrow> CTxMemPool \<Rightarrow> CBlock \<Rightarrow> chain \<Rightarrow> CTxDB \<Rightarrow> bool \<Rightarrow> nat \<Rightarrow> CTransaction \<Rightarrow> cb_state \<Rightarrow> tx_outcome" where
  "connect_tx E pool b c db fJustCheck i tx st =
     (let st = st\<lparr>cb_nSigOps := cb_nSigOps st + of_nat (GetLegacySigOpCount tx)\<rparr>;
          posThisTx = \<lparr>tp_nFile = bi_nFile (hd c), tp_nBlockPos = bi_nBlockPos (hd c), tp_nTxPos = cb_nTxPos st\<rparr>
      in if cb_nSigOps st > MAX_BLOCK_SIGOPS then Leaves (Inr False) 100 (cb_cache st)
         else
           let st = (if fJustCheck then st else st\<lparr>cb_nTxPos := cb_nTxPos st + size_CTransaction tx\<rparr>) in
           case (if IsCoinBase tx
                 then (case GetValueOut tx of None \<Rightarrow> Leaves (Inl Thrown) 0 (cb_cache st)
                       | Some v \<Rightarrow> Goes (st\<lparr>cb_nValueOut := cb_nValueOut st + v\<rparr>))
                 else connect_spending E pool b c db posThisTx i tx st) of
             Leaves r d cache \<Rightarrow> Leaves r d cache
           | Goes st \<Rightarrow> Goes (st\<lparr>cb_queue := (cb_queue st)(ne_GetHash E tx \<mapsto> CTxIndex_new posThisTx (length (vout tx)))\<rparr>))"

fun connect_txs ::
  "('pk, 'sig) node_env \<Rightarrow> CTxMemPool \<Rightarrow> CBlock \<Rightarrow> chain \<Rightarrow> CTxDB \<Rightarrow> bool \<Rightarrow> nat \<Rightarrow> CTransaction list \<Rightarrow> cb_state \<Rightarrow> tx_outcome" where
  "connect_txs E pool b c db fJustCheck i [] st = Goes st"
| "connect_txs E pool b c db fJustCheck i (tx # txs) st =
     (case connect_tx E pool b c db fJustCheck i tx st of
        Leaves r d cache \<Rightarrow> Leaves r d cache
      | Goes st \<Rightarrow> connect_txs E pool b c db fJustCheck (i + 1) txs st)"

definition cb_start :: "CBlock \<Rightarrow> chain \<Rightarrow> bool \<Rightarrow> sig_cache \<Rightarrow> cb_state" where
  "cb_start b c fJustCheck cache = \<lparr>cb_nFees = 0, cb_nValueIn = 0, cb_nValueOut = 0, cb_nSigOps = 0,
     cb_nTxPos = (if fJustCheck then 1
                  else bi_nBlockPos (hd c) + size_CBlock CBlock_SetNull - (2 * GetSizeOfCompactSize 0)
                       + GetSizeOfCompactSize (of_nat (length (vtx b)))),
     cb_queue = (\<lambda>_. None), cb_cache = cache\<rparr>"

subsection \<open>Rewards and the entry of the block\<close>

text \<open>\<open>GetCoinAge\<close>: the answer and the age in coin days. The caller ignores both.\<close>

fun coin_age_loop :: "kernel_env \<Rightarrow> CTransaction \<Rightarrow> CTxIn list \<Rightarrow> int \<Rightarrow> connect_error + bool \<times> int" where
  "coin_age_loop K tx [] bnCentSecond = Inr (True, bnCentSecond)"
| "coin_age_loop K tx (txin # ins) bnCentSecond =
     (case ReadFromDisk_outpoint (ke_opens K) (ke_db K) (prevout txin) (CTransaction_SetNull (ke_adjustedTime K)) of
        (found, txPrev, txindex) \<Rightarrow>
          if \<not> found then coin_age_loop K tx ins bnCentSecond
          else if nTime tx < nTime txPrev then Inr (False, 0)
          else case ke_header K (tp_nFile (ti_pos txindex)) (tp_nBlockPos (ti_pos txindex)) of
            None \<Rightarrow> Inr (False, 0)
          | Some block \<Rightarrow>
              if CBlock_GetBlockTime block + uint nStakeMinAge > uint (nTime tx) then coin_age_loop K tx ins bnCentSecond
              else if \<not> unat (op_n (prevout txin)) < length (vout txPrev) then Inl OutOfRange
              else coin_age_loop K tx ins (bnCentSecond +
                     (nValue (vout txPrev ! unat (op_n (prevout txin))) * uint (nTime tx - nTime txPrev)) sdiv CENT))"

definition GetCoinAge :: "kernel_env \<Rightarrow> CTransaction \<Rightarrow> connect_error + bool \<times> u64" where
  "GetCoinAge K tx =
     (if IsCoinBase tx then Inr (True, 0)
      else case coin_age_loop K tx (vin tx) 0 of
        Inl e \<Rightarrow> Inl e
      | Inr (False, _) \<Rightarrow> Inr (False, 0)
      | Inr (True, bnCentSecond) \<Rightarrow>
          Inr (True, CBigNum_getuint64 (ke_bn K) ((((bnCentSecond * CENT) sdiv COIN) sdiv (24 * 60 * 60)))))"

text \<open>The entry \<open>hd c\<close> of the block with its reward, what it mints and the money supply; \<open>best\<close> is \<open>pindexBest\<close>.\<close>

definition reward_of_work :: "('pk, 'sig) node_env \<Rightarrow> CBlockIndex \<Rightarrow> chain \<Rightarrow> cb_state \<Rightarrow> connect_error + CBlockIndex" where
  "reward_of_work E best c st =
     (let nFees = (if cb_nFees st < 0 then 0 else cb_nFees st) in
      case GetProofOfWorkReward (ne_nDifficulty E) (ne_nNetworkHashPS E) best (nHeight (hd c)) nFees of
        None \<Rightarrow> Inl OutOfRange
      | Some nReward \<Rightarrow>
          let nValueOut = (if cb_nValueOut st > nReward then nReward else cb_nValueOut st)
          in Inr ((hd c)\<lparr>nLastReward := nReward, nMint := nValueOut - cb_nValueIn st + nFees,
               nMoneySupply := (case tl c of [] \<Rightarrow> 0 | q # _ \<Rightarrow> nMoneySupply q) + nValueOut - cb_nValueIn st\<rparr>))"

definition reward_of_stake :: "('pk, 'sig) node_env \<Rightarrow> CTxDB \<Rightarrow> CBlockIndex \<Rightarrow> CBlock \<Rightarrow> CBlockIndex \<Rightarrow> connect_error + CBlockIndex" where
  "reward_of_stake E db best b p =
     (case GetCoinAge ((ne_kernel E)\<lparr>ke_db := db\<rparr>) (vtx b ! 1) of
        Inl e \<Rightarrow> Inl e
      | Inr _ \<Rightarrow>
          (case stake_mint (vout (vtx b ! 1)) of
             None \<Rightarrow> Inl OutOfRange
           | Some nStakeReward \<Rightarrow>
               Inr (p\<lparr>nLastReward := nStakeReward, nMint := nStakeReward, nMoneySupply := nMoneySupply best + nStakeReward\<rparr>)))"

definition block_reward ::
  "('pk, 'sig) node_env \<Rightarrow> CTxDB \<Rightarrow> CBlockIndex \<Rightarrow> CBlock \<Rightarrow> chain \<Rightarrow> cb_state \<Rightarrow> connect_error + CBlockIndex" where
  "block_reward E db best b c st =
     (if CBlock_IsProofOfWork b then reward_of_work E best c st else reward_of_stake E db best b (hd c))"


subsection \<open>The address index\<close>

text \<open>Every push of at least 8 bytes is an address; a script without one is its own address.\<close>

function address_pushes :: "(bytes \<Rightarrow> uint160) \<Rightarrow> bytes \<Rightarrow> uint160 list" where
  "address_pushes Hash160 script =
     (if script = [] then []
      else case GetOp2 script of (ok, opcode, data, rest) \<Rightarrow>
        (if opcode \<le> OP_PUSHDATA4 \<and> length data \<ge> 8
         then [if length data \<le> 20 then of_nat (le_val data) else Hash160 data] else [])
        @ address_pushes Hash160 rest)"
  by pat_completeness auto
termination
  by (relation "measure (\<lambda>(H, script). length script)") (auto dest: GetOp2_rest [OF sym])

declare address_pushes.simps [simp del]

definition BuildAddrIndex :: "(bytes \<Rightarrow> uint160) \<Rightarrow> script \<Rightarrow> uint160 list" where
  "BuildAddrIndex Hash160 script =
     (let addrIds = address_pushes Hash160 script in if addrIds = [] then [Hash160 script] else addrIds)"

text \<open>Failed writes are only logged.\<close>

fun write_addresses :: "bool \<Rightarrow> uint256 \<Rightarrow> uint160 list \<Rightarrow> CTxDB \<Rightarrow> CTxDB option" where
  "write_addresses ok hashTx [] db = Some db"
| "write_addresses ok hashTx (a # as) db =
     (case db_WriteAddrIndex ok a hashTx db of None \<Rightarrow> None | Some (_, db) \<Rightarrow> write_addresses ok hashTx as db)"

definition output_addresses :: "('pk, 'sig) node_env \<Rightarrow> CTxOut list \<Rightarrow> uint160 list" where
  "output_addresses E outs = concat (map (\<lambda>txout. BuildAddrIndex (ne_Hash160 E) (scriptPubKey txout)) outs)"

definition prev_hashes :: "CTransaction \<Rightarrow> uint256 list" where
  "prev_hashes tx = sort (remdups (map (\<lambda>txin. op_hash (prevout txin)) (vin tx)))"

text \<open>The loop over the transactions; a failure to fetch the inputs answers false.\<close>

fun index_addresses ::
  "('pk, 'sig) node_env \<Rightarrow> CTxMemPool \<Rightarrow> nat \<Rightarrow> CTransaction list \<Rightarrow> CTxDB \<Rightarrow> (connect_error + bool) \<times> CTxDB" where
  "index_addresses E pool i [] db = (Inr True, db)"
| "index_addresses E pool i (tx # txs) db =
     (let outs = output_addresses E (vout tx) in
      case (if IsCoinBase tx then (True, \<lambda>_. None, False)
            else FetchInputs (tx_view db) pool True False (ne_now E i) tx (\<lambda>_. None)) of
        (fetched, mapInputs, _) \<Rightarrow>
          if \<not> fetched then (Inr False, db)
          else
            let ins = concat (map (\<lambda>h. case mapInputs h of None \<Rightarrow> [] | Some (_, txPrev) \<Rightarrow> output_addresses E (vout txPrev))
                        (prev_hashes tx))
            in case write_addresses (ne_ok E) (ne_GetHash E tx) (ins @ outs) db of
                 None \<Rightarrow> (Inl AssertFailed, db)
               | Some db \<Rightarrow> index_addresses E pool (i + 1) txs db)"

subsection \<open>Connecting and disconnecting a block\<close>

definition write_index ::
  "('pk, 'sig) node_env \<Rightarrow> CDiskBlockIndex \<Rightarrow> CTxDB \<Rightarrow> (bool \<times> CTxDB) option" where
  "write_index E p db = db_WriteBlockIndex (ce_hash (ne_check E)) (ne_fUseFastIndex E) (ce_adjustedTime (ne_check E))
     (ne_client_version E) (ne_ok E) p db"

definition queue_keys :: "('pk, 'sig) node_env \<Rightarrow> CBlock \<Rightarrow> uint256 list" where
  "queue_keys E b = sort (remdups (concat (map (\<lambda>tx. ne_GetHash E tx # map (\<lambda>txin. op_hash (prevout txin)) (vin tx)) (vtx b))))"

text \<open>The queued changes, in the order of their keys.\<close>

fun write_queue :: "('pk, 'sig) node_env \<Rightarrow> tx_db \<Rightarrow> uint256 list \<Rightarrow> CTxDB \<Rightarrow> (bool \<times> CTxDB) option" where
  "write_queue E queue [] db = Some (True, db)"
| "write_queue E queue (h # keys) db =
     (case queue h of
        None \<Rightarrow> write_queue E queue keys db
      | Some t \<Rightarrow>
          (case db_UpdateTxIndex (ne_client_version E) (ne_ok E) h t db of
             Some (True, db) \<Rightarrow> write_queue E queue keys db
           | r \<Rightarrow> r))"

text \<open>A write whose failure makes the caller answer false.\<close>

definition or_fail :: "(bool \<times> CTxDB) option \<Rightarrow> CTxDB \<Rightarrow> (CTxDB \<Rightarrow> (connect_error + bool) \<times> CTxDB) \<Rightarrow> (connect_error + bool) \<times> CTxDB" where
  "or_fail r db rest =
     (case r of None \<Rightarrow> (Inl AssertFailed, db) | Some (False, db) \<Rightarrow> (Inr False, db) | Some (True, db) \<Rightarrow> rest db)"

definition link_previous :: "('pk, 'sig) node_env \<Rightarrow> chain \<Rightarrow> uint256 \<Rightarrow> CTxDB \<Rightarrow> (bool \<times> CTxDB) option" where
  "link_previous E c h db =
     (if tl c = [] then Some (True, db) else write_index E ((CDiskBlockIndex_of (tl c) None)\<lparr>hashNext := h\<rparr>) db)"

definition write_block ::
  "('pk, 'sig) node_env \<Rightarrow> CTxMemPool \<Rightarrow> bool \<Rightarrow> CBlock \<Rightarrow> chain \<Rightarrow> tx_db \<Rightarrow> CTxDB \<Rightarrow> (connect_error + bool) \<times> CTxDB" where
  "write_block E pool fJustCheck b c queue db =
     or_fail (write_index E (CDiskBlockIndex_of c None) db) db (\<lambda>db.
       if fJustCheck then (Inr True, db)
       else or_fail (write_queue E queue (queue_keys E b) db) db (\<lambda>db.
         case (if ne_addrindex E then index_addresses E pool 0 (vtx b) db else (Inr True, db)) of
           (Inr True, db) \<Rightarrow> or_fail (link_previous E c (bi_hash (hd c)) db) db (\<lambda>db. (Inr True, db))
         | r \<Rightarrow> r))"

text \<open>
  The chain \<open>c\<close> starts with the entry of the block. The result is the answer with the database, the entry,
  the block (its score and tree) and the signature cache.
\<close>

definition ConnectBlock ::
  "('pk, 'sig) node_env \<Rightarrow> CTxMemPool \<Rightarrow> CBlockIndex \<Rightarrow> bool \<Rightarrow> CBlock \<Rightarrow> chain \<Rightarrow> CTxDB \<Rightarrow> sig_cache
   \<Rightarrow> (connect_error + bool) \<times> CTxDB \<times> CBlockIndex \<times> CBlock \<times> sig_cache" where
  "ConnectBlock E pool best fJustCheck b c db cache =
     (case CheckBlock (ne_check E) (\<not> fJustCheck) (\<not> fJustCheck) False b of
        (False, b) \<Rightarrow> (Inr False, db, hd c, b, cache)
      | (True, b) \<Rightarrow>
          (case connect_txs E pool b c db fJustCheck 0 (vtx b) (cb_start b c fJustCheck cache) of
             Leaves r d cache \<Rightarrow> (r, db, hd c, snd (CBlock_DoS d False b), cache)
           | Goes st \<Rightarrow>
               (case block_reward E db best b c st of
                  Inl e \<Rightarrow> (Inl e, db, hd c, b, cb_cache st)
                | Inr p \<Rightarrow>
                    (case write_block E pool fJustCheck b (p # tl c) (cb_queue st) db of
                       (r, db) \<Rightarrow> (r, db, p, b, cb_cache st)))))"

fun disconnect_txs :: "('pk, 'sig) node_env \<Rightarrow> CTransaction list \<Rightarrow> CTxDB \<Rightarrow> (connect_error + bool) \<times> CTxDB" where
  "disconnect_txs E [] db = (Inr True, db)"
| "disconnect_txs E (tx # txs) db =
     (case db_EraseTxIndex (ne_GetHash E) (ne_ok E) tx db of
        None \<Rightarrow> (Inl AssertFailed, db) | Some (_, db) \<Rightarrow> disconnect_txs E txs db)"

text \<open>The log message between the two steps follows the null pointer of a block without predecessor.\<close>

definition DisconnectBlock :: "('pk, 'sig) node_env \<Rightarrow> CBlock \<Rightarrow> chain \<Rightarrow> CTxDB \<Rightarrow> (connect_error + bool) \<times> CTxDB" where
  "DisconnectBlock E b c db =
     (case disconnect_txs E (rev (vtx b)) db of
        (Inr True, db) \<Rightarrow>
          if tl c = [] then (Inl OutOfRange, db) else or_fail (link_previous E c 0 db) db (\<lambda>db. (Inr True, db))
      | r \<Rightarrow> r)"


subsection \<open>The best chain\<close>

text \<open>
  The globals: the database, \<open>pindexBest\<close> with its ancestors, \<open>hashBestChain\<close>, \<open>mapBlockIndex\<close> (a pointer
  is the chain it leads), the memory pool, the signature cache, whether the genesis block is known, \<open>nBestChainTrust\<close>,
  \<open>nBestHeight\<close> and \<open>setStakeSeen\<close>. Links to the next block are not kept.
\<close>

record node =
  ns_db :: CTxDB
  ns_best :: chain
  ns_hashBestChain :: uint256
  ns_mapBlockIndex :: "uint256 \<Rightarrow> chain option"
  ns_pool :: CTxMemPool
  ns_cache :: sig_cache
  ns_genesis :: bool
  ns_nBestChainTrust :: uint256
  ns_nBestHeight :: int
  ns_setStakeSeen :: "(COutPoint \<times> u32) set"

text \<open>Removal without descendants does not recurse.\<close>

fun remove_txs :: "('pk, 'sig) node_env \<Rightarrow> CTransaction list \<Rightarrow> CTxMemPool \<Rightarrow> CTxMemPool" where
  "remove_txs E [] pool = pool"
| "remove_txs E (tx # txs) pool =
     remove_txs E txs (case pool_remove (ne_GetHash E) 1 False tx pool of None \<Rightarrow> pool | Some pool \<Rightarrow> pool)"

text \<open>
  The block, with what \<open>ConnectBlock\<close> made of it and of its entry, becomes part of the state when the
  commit succeeds. A failed \<open>ConnectBlock\<close> only leads to a second write of the best chain, which succeeds
  within a transaction of the database.
\<close>

definition SetBestChainInner ::
  "('pk, 'sig) node_env \<Rightarrow> CBlock \<Rightarrow> chain \<Rightarrow> node \<Rightarrow> (connect_error + bool) \<times> chain \<times> CBlock \<times> node" where
  "SetBestChainInner E b c s =
     (case ConnectBlock E (ns_pool s) (hd (ns_best s)) False b c (ns_db s) (ns_cache s) of
        (Inl e, db, p, b', cache) \<Rightarrow> (Inl e, p # tl c, b', s\<lparr>ns_db := db, ns_cache := cache\<rparr>)
      | (Inr ok, db, p, b', cache) \<Rightarrow>
          let c = p # tl c; s = s\<lparr>ns_cache := cache\<rparr>;
              first = (if ok then db_WriteHashBestChain (ne_ok E) (block_hash E b) db else Some (False, db));
              written = (case first of Some (False, db) \<Rightarrow> db_WriteHashBestChain (ne_ok E) (block_hash E b) db | r \<Rightarrow> r)
          in case written of
               None \<Rightarrow> (Inl AssertFailed, c, b', s\<lparr>ns_db := db\<rparr>)
             | Some (False, db) \<Rightarrow> (Inr False, c, b', s\<lparr>ns_db := snd (TxnAbort db)\<rparr>)
             | Some (True, db) \<Rightarrow>
                 (case TxnCommit (ne_commit E) db of
                    None \<Rightarrow> (Inl AssertFailed, c, b', s\<lparr>ns_db := db\<rparr>)
                  | Some (False, db) \<Rightarrow> (Inr False, c, b', s\<lparr>ns_db := db\<rparr>)
                  | Some (True, db) \<Rightarrow>
                      if tl c = [] then (Inl OutOfRange, c, b', s\<lparr>ns_db := db\<rparr>)
                      else (Inr True, c, b', s\<lparr>ns_db := db,
                              ns_pool := remove_txs E (vtx b) (ns_pool s)\<rparr>)))"

definition new_best :: "('pk, 'sig) node_env \<Rightarrow> CBlock \<Rightarrow> chain \<Rightarrow> node \<Rightarrow> node" where
  "new_best E b c s = s\<lparr>ns_hashBestChain := block_hash E b, ns_best := c, ns_nBestHeight := nHeight (hd c),
     ns_nBestChainTrust := nChainTrust (hd c), ns_pool := AddTransactionsUpdated 1 (ns_pool s)\<rparr>"

text \<open>
  The answer true means that the block leads the best chain. The branch that reorganises the chain is not
  modelled: it is for blocks whose predecessor is not the best block, and those have been refused at the
  start.
\<close>

definition SetBestChain ::
  "('pk, 'sig) node_env \<Rightarrow> CBlock \<Rightarrow> chain \<Rightarrow> node \<Rightarrow> (connect_error + bool) \<times> chain \<times> CBlock \<times> node" where
  "SetBestChain E b c s =
     (if hashPrevBlock b \<noteq> ns_hashBestChain s then (Inr False, c, b, s)
      else case TxnBegin (ns_db s) of
        None \<Rightarrow> (Inl AssertFailed, c, b, s)
      | Some (began, db) \<Rightarrow>
          if \<not> began then (Inr False, c, b, s\<lparr>ns_db := db\<rparr>)
          else if \<not> ns_genesis s \<and> block_hash E b = ne_hashGenesisBlock E then
            (case db_WriteHashBestChain (ne_ok E) (block_hash E b) db of
               None \<Rightarrow> (Inl AssertFailed, c, b, s\<lparr>ns_db := db\<rparr>)
             | Some (_, db) \<Rightarrow>
                 (case TxnCommit (ne_commit E) db of
                    None \<Rightarrow> (Inl AssertFailed, c, b, s\<lparr>ns_db := db\<rparr>)
                  | Some (False, db) \<Rightarrow> (Inr False, c, b, s\<lparr>ns_db := db\<rparr>)
                  | Some (True, db) \<Rightarrow> (Inr True, c, b, new_best E b c (s\<lparr>ns_db := db, ns_genesis := True\<rparr>))))
          else
            (case SetBestChainInner E b c (s\<lparr>ns_db := db\<rparr>) of
               (Inr True, c, b', s) \<Rightarrow> (Inr True, c, b', new_best E b c s)
             | r \<Rightarrow> r))"


text \<open>The entry of a new block, in front of its predecessor's chain.\<close>

definition new_entry :: "('pk, 'sig) node_env \<Rightarrow> u32 \<Rightarrow> u32 \<Rightarrow> uint256 \<Rightarrow> CBlock \<Rightarrow> node \<Rightarrow> chain" where
  "new_entry E nFile nBlockPos proof b s =
     (let p = (CBlockIndex_of_block nFile nBlockPos b)\<lparr>bi_hash := block_hash E b\<rparr>;
          pprev = (case ns_mapBlockIndex s (hashPrevBlock b) of None \<Rightarrow> [] | Some c \<Rightarrow> c);
          p = (case pprev of [] \<Rightarrow> p | q # _ \<Rightarrow> p\<lparr>nHeight := nHeight q + 1\<rparr>);
          p = p\<lparr>nChainTrust := (case pprev of [] \<Rightarrow> 0 | q # _ \<Rightarrow> nChainTrust q) + GetBlockTrust (ce_bn (ne_check E)) p\<rparr>;
          p = snd (SetStakeEntropyBit (GetStakeEntropyBit (ce_hash (ne_check E)) b) p)
      in p\<lparr>hashProof := proof\<rparr> # pprev)"

text \<open>The database object of the function is gone at its end, and a batch that is still open with it.\<close>

definition close_db :: "node \<Rightarrow> node" where
  "close_db s = s\<lparr>ns_db := (ns_db s)\<lparr>activeBatch := None\<rparr>\<rparr>"

definition AddToBlockIndex ::
  "('pk, 'sig) node_env \<Rightarrow> u32 \<Rightarrow> u32 \<Rightarrow> uint256 \<Rightarrow> CBlock \<Rightarrow> node \<Rightarrow> (connect_error + bool) \<times> CBlock \<times> node" where
  "AddToBlockIndex E nFile nBlockPos proof b s =
     (let h = block_hash E b in
      if ns_mapBlockIndex s h \<noteq> None then (Inr False, b, s)
      else if hashPrevBlock b \<noteq> ns_hashBestChain s then (Inr False, b, s)
      else
        let c = new_entry E nFile nBlockPos proof b s in
        if GetStakeEntropyBit (ce_hash (ne_check E)) b > 1 then (Inr False, b, s)
        else case ComputeNextStakeModifier (ce_hash (ne_check E)) (\<lambda>h. map_option hd (ns_mapBlockIndex s h)) (tl c) of
          (computed, modifier, generated) \<Rightarrow>
            if \<not> computed then (Inr False, b, s)
            else
              let c = SetStakeModifier modifier generated (hd c) # tl c;
                  s = s\<lparr>ns_mapBlockIndex := (ns_mapBlockIndex s)(h \<mapsto> c),
                        ns_setStakeSeen := (if IsProofOfStake (hd c) then insert (prevoutStake (hd c), nStakeTime (hd c)) (ns_setStakeSeen s)
                                            else ns_setStakeSeen s)\<rparr>
              in case TxnBegin (ns_db s) of
                   None \<Rightarrow> (Inl AssertFailed, b, s)
                 | Some (began, db) \<Rightarrow>
                     if \<not> began then (Inr False, b, close_db (s\<lparr>ns_db := db\<rparr>))
                     else case write_index E (CDiskBlockIndex_of c None) db of
                       None \<Rightarrow> (Inl AssertFailed, b, s)
                     | Some (_, db) \<Rightarrow>
                         (case TxnCommit (ne_commit_index E) db of
                            None \<Rightarrow> (Inl AssertFailed, b, s)
                          | Some (False, db) \<Rightarrow> (Inr False, b, close_db (s\<lparr>ns_db := db\<rparr>))
                          | Some (True, db) \<Rightarrow>
                              if nChainTrust (hd c) > ns_nBestChainTrust s then
                                (case SetBestChain E b c (s\<lparr>ns_db := db\<rparr>) of
                                   (r, c, b, s) \<Rightarrow> (r, b, close_db (s\<lparr>ns_mapBlockIndex := (ns_mapBlockIndex s)(h \<mapsto> c)\<rparr>)))
                              else (Inr True, b, close_db (s\<lparr>ns_db := db\<rparr>))))"

subsection \<open>Writing within a transaction of the database\<close>

text \<open>Within a transaction nothing that a block does to the database can fail, and the disk does not change.\<close>

definition stays_open :: "CTxDB \<Rightarrow> CTxDB \<Rightarrow> bool" where
  "stays_open db db' \<longleftrightarrow> activeBatch db' \<noteq> None \<and> fReadOnly db' = fReadOnly db \<and> pdb db' = pdb db"

definition writable :: "CTxDB \<Rightarrow> bool" where
  "writable db \<longleftrightarrow> activeBatch db \<noteq> None \<and> \<not> fReadOnly db"

lemma stays_open_refl: "writable db \<Longrightarrow> stays_open db db"
  by (simp add: stays_open_def writable_def)

lemma stays_open_trans: "stays_open a b \<Longrightarrow> stays_open b c \<Longrightarrow> stays_open a c"
  by (simp add: stays_open_def)

lemma stays_open_writable: "stays_open db db' \<Longrightarrow> writable db \<Longrightarrow> writable db'"
  by (simp add: stays_open_def writable_def)

lemma db_Write_open: "writable db \<Longrightarrow> \<exists>db'. db_Write ok k v db = Some (True, db') \<and> stays_open db db'"
  by (auto simp: db_Write_def writable_def stays_open_def)

lemma table_write_open:
  assumes "writable db"
  shows "\<exists>db'. db_WriteAddrIndex ok a h db = Some (True, db') \<and> stays_open db db'"
    and "\<exists>db'. db_UpdateTxIndex v ok h t db = Some (True, db') \<and> stays_open db db'"
    and "\<exists>db'. db_WriteHashBestChain ok h db = Some (True, db') \<and> stays_open db db'"
    and "\<exists>db'. write_index E p db = Some (True, db') \<and> stays_open db db'"
  using db_Write_open [OF assms] stays_open_refl [OF assms]
  by (auto simp: db_WriteAddrIndex_def db_UpdateTxIndex_def db_WriteHashBestChain_def write_index_def
      db_WriteBlockIndex_def split: option.split prod.split)

lemma write_queue_open: "writable db \<Longrightarrow> \<exists>db'. write_queue E queue keys db = Some (True, db') \<and> stays_open db db'"
proof (induction keys arbitrary: db)
  case (Cons h keys)
  show ?case
  proof (cases "queue h")
    case (Some t)
    obtain db1 where db1: "db_UpdateTxIndex (ne_client_version E) (ne_ok E) h t db = Some (True, db1)" "stays_open db db1"
      using table_write_open(2) [OF Cons.prems] by blast
    from Cons.IH [OF stays_open_writable [OF db1(2) Cons.prems]] db1 Some show ?thesis
      by (auto intro: stays_open_trans)
  qed (use Cons in simp)
qed (simp add: stays_open_refl)

lemma write_addresses_open: "writable db \<Longrightarrow> \<exists>db'. write_addresses ok h as db = Some db' \<and> stays_open db db'"
proof (induction "as" arbitrary: db)
  case (Cons a as)
  obtain db1 where db1: "db_WriteAddrIndex ok a h db = Some (True, db1)" "stays_open db db1"
    using table_write_open(1) [OF Cons.prems] by blast
  from Cons.IH [OF stays_open_writable [OF db1(2) Cons.prems]] db1 show ?case
    by (auto intro: stays_open_trans)
qed (simp add: stays_open_refl)

lemma index_addresses_open:
  "writable db \<Longrightarrow> index_addresses E pool i txs db = (r, db') \<Longrightarrow> stays_open db db' \<and> (\<exists>b. r = Inr b)"
proof (induction txs arbitrary: i db)
  case (Cons tx txs)
  let ?F = "if IsCoinBase tx then (True, \<lambda>_. None, False)
    else FetchInputs (tx_view db) pool True False (ne_now E i) tx (\<lambda>_. None)"
  obtain fetched inputs inv where F: "?F = (fetched, inputs, inv)" by (metis prod_cases3)
  show ?case
  proof (cases fetched)
    case True
    let ?as = "concat (map (\<lambda>h. case inputs h of None \<Rightarrow> [] | Some (_, txPrev) \<Rightarrow> output_addresses E (vout txPrev))
                        (prev_hashes tx)) @ output_addresses E (vout tx)"
    obtain db1 where db1: "write_addresses (ne_ok E) (ne_GetHash E tx) ?as db = Some db1" "stays_open db db1"
      using write_addresses_open [OF Cons.prems(1)] by blast
    have "index_addresses E pool (i + 1) txs db1 = (r, db')"
      using Cons.prems(2) unfolding index_addresses.simps Let_def F by (simp add: True db1(1))
    from Cons.IH [OF stays_open_writable [OF db1(2) Cons.prems(1)] this] db1(2) show ?thesis
      by (auto intro: stays_open_trans)
  next
    case False
    then show ?thesis using Cons.prems unfolding index_addresses.simps Let_def F by (auto simp: stays_open_refl)
  qed
qed (auto simp: stays_open_refl)

lemma or_fail_open:
  assumes "writable db" "\<exists>db1. w = Some (True, db1) \<and> stays_open db db1"
    and "\<And>db1. stays_open db db1 \<Longrightarrow> writable db1 \<Longrightarrow> Q (rest db1)"
  shows "Q (or_fail w db rest)"
  using assms(2) assms(3) [OF _ stays_open_writable [OF _ assms(1)]] by (auto simp: or_fail_def)

lemma link_previous_open: "writable db \<Longrightarrow> \<exists>db'. link_previous E c h db = Some (True, db') \<and> stays_open db db'"
  by (cases "tl c = []") (simp_all add: link_previous_def stays_open_refl table_write_open(4))

text \<open>Writing a block only fails when the inputs of its transactions cannot be fetched for the address index.\<close>

lemma write_block_open:
  assumes "writable db" "write_block E pool J b c queue db = (r, db')"
  shows "stays_open db db' \<and> (\<exists>ok. r = Inr ok \<and> (J \<or> \<not> ne_addrindex E \<longrightarrow> ok))"
proof -
  let ?Q = "\<lambda>x. stays_open db (snd x) \<and> (\<exists>ok. fst x = Inr ok \<and> (J \<or> \<not> ne_addrindex E \<longrightarrow> ok))"
  have "?Q (write_block E pool J b c queue db)"
    unfolding write_block_def
  proof (rule or_fail_open [OF assms(1) table_write_open(4) [OF assms(1)]])
    fix db1 assume db1: "stays_open db db1" "writable db1"
    have "?Q (or_fail (write_queue E queue (queue_keys E b) db1) db1 (\<lambda>db.
         case (if ne_addrindex E then index_addresses E pool 0 (vtx b) db else (Inr True, db)) of
           (Inr True, db) \<Rightarrow> or_fail (link_previous E c (bi_hash (hd c)) db) db (\<lambda>db. (Inr True, db))
         | r \<Rightarrow> r))" (is "?Q (or_fail _ _ ?rest)") if J: "\<not> J"
    proof (rule or_fail_open [OF db1(2) write_queue_open [OF db1(2)]])
      fix db2 assume db2: "stays_open db1 db2" "writable db2"
      obtain r3 db3 where r3: "(if ne_addrindex E then index_addresses E pool 0 (vtx b) db2 else (Inr True, db2)) = (r3, db3)"
        by fastforce
      then have s3: "stays_open db2 db3 \<and> (\<exists>ok. r3 = Inr ok \<and> (\<not> ne_addrindex E \<longrightarrow> ok))"
        using index_addresses_open [OF db2(2), of E pool 0 "vtx b" r3 db3] stays_open_refl [OF db2(2)] by (auto split: if_splits)
      then have o3: "stays_open db db3" using db1 db2 by (blast intro: stays_open_trans)
      have w3: "writable db3" using s3 db2 by (blast intro: stays_open_writable)
      have "?Q (or_fail (link_previous E c (bi_hash (hd c)) db3) db3 (\<lambda>db. (Inr True, db)))"
        by (rule or_fail_open [OF w3 link_previous_open [OF w3]]) (auto simp: stays_open_trans [OF o3])
      moreover obtain ok where ok: "r3 = Inr ok" "\<not> ne_addrindex E \<longrightarrow> ok" using s3 by blast
      moreover have "?Q (Inr False, db3)" if "\<not> ok" using o3 ok(2) that J by (intro conjI exI [of _ False]) simp_all
      ultimately show "?Q (?rest db2)" unfolding r3 by (cases ok) (simp_all only: prod.case sum.case bool.case not_False_eq_True)
    qed
    then show "?Q (if J then (Inr True, db1) else or_fail (write_queue E queue (queue_keys E b) db1) db1 ?rest)"
      using db1(1) by (cases J) (simp_all, blast)
  qed
  then show ?thesis using assms(2) by simp
qed

text \<open>What connecting changes of the entry of a block: only what it mints.\<close>

definition same_entry :: "CBlockIndex \<Rightarrow> CBlockIndex \<Rightarrow> bool" where
  "same_entry p q \<longleftrightarrow> bi_hash p = bi_hash q \<and> nHeight p = nHeight q \<and> nChainTrust p = nChainTrust q \<and> bi_nBits p = bi_nBits q"

lemma same_entry_refl [simp]: "same_entry p p"
  by (simp add: same_entry_def)

lemma block_reward_entry: "block_reward E db best b c st = Inr p \<Longrightarrow> same_entry p (hd c)"
  by (auto simp: block_reward_def reward_of_work_def reward_of_stake_def same_entry_def Let_def
      split: if_splits option.splits sum.splits)

lemma ConnectBlock_frame:
  assumes "writable db" "ConnectBlock E pool best J b c db cache = (r, db', p, b', cache')"
  shows "stays_open db db' \<and> same_entry p (hd c)"
proof (cases "CheckBlock (ne_check E) (\<not> J) (\<not> J) False b")
  case (Pair ok b1)
  show ?thesis
  proof (cases ok)
    case True
    show ?thesis
    proof (cases "connect_txs E pool b1 c db J 0 (vtx b1) (cb_start b1 c J cache)")
      case (Leaves r0 d cache0)
      then show ?thesis using assms Pair True by (auto simp: ConnectBlock_def stays_open_refl)
    next
      case (Goes st)
      show ?thesis
      proof (cases "block_reward E db best b1 c st")
        case (Inl e)
        then show ?thesis using assms Pair True Goes by (auto simp: ConnectBlock_def stays_open_refl)
      next
        case (Inr q)
        obtain r1 db1 where w: "write_block E pool J b1 (q # tl c) (cb_queue st) db = (r1, db1)" by fastforce
        have "db' = db1" "p = q" using assms(2) Pair True Goes Inr w by (auto simp: ConnectBlock_def)
        then show ?thesis using write_block_open [OF assms(1) w] block_reward_entry [OF Inr] by simp
      qed
    qed
  qed (use assms Pair in \<open>auto simp: ConnectBlock_def stays_open_refl\<close>)
qed

lemma best_after_write:
  assumes "db_WriteHashBestChain ok h db = Some (True, db1)" "TxnCommit True db1 = Some (True, db2)" "writable db"
  shows "db_ReadHashBestChain db2 = Some h"
proof -
  obtain ops where ops: "activeBatch db = Some ops" "\<not> fReadOnly db" using assms(3) by (auto simp: writable_def)
  then have "db_Read db2 best_key = Some (WRITEDATA 32 h)"
    using assms(1,2) by (auto simp: db_WriteHashBestChain_def db_Write_def TxnCommit_def db_Read_view)
  then show ?thesis using best.value_Ser [of h] by (simp add: db_ReadHashBestChain_def)
qed

text \<open>\<open>SetBestChainInner\<close> on an open database: whatever \<open>ConnectBlock\<close> answers, the block is committed.\<close>

lemma SetBestChainInner_commits:
  assumes "writable (ns_db s)" "ne_commit E" "tl c \<noteq> []"
    and "ConnectBlock E (ns_pool s) (hd (ns_best s)) False b c (ns_db s) (ns_cache s) = (Inr ok, db1, p, b1, cache)"
  shows "\<exists>db2. SetBestChainInner E b c s = (Inr True, p # tl c, b1,
      s\<lparr>ns_cache := cache, ns_db := db2, ns_pool := remove_txs E (vtx b) (ns_pool s)\<rparr>)
    \<and> activeBatch db2 = None \<and> fReadOnly db2 = fReadOnly (ns_db s) \<and> db_ReadHashBestChain db2 = Some (block_hash E b)"
proof -
  have open1: "stays_open (ns_db s) db1" using ConnectBlock_frame [OF assms(1,4)] by simp
  then have w1: "writable db1" using assms(1) by (rule stays_open_writable)
  obtain dbw where dbw: "db_WriteHashBestChain (ne_ok E) (block_hash E b) db1 = Some (True, dbw)" "stays_open db1 dbw"
    using table_write_open(3) [OF w1] by blast
  then obtain db2 where db2: "TxnCommit True dbw = Some (True, db2)" "activeBatch db2 = None" "fReadOnly db2 = fReadOnly dbw"
    by (auto simp: stays_open_def TxnCommit_def)
  have "db_ReadHashBestChain db2 = Some (block_hash E b)" by (rule best_after_write [OF dbw(1) db2(1) w1])
  moreover have "fReadOnly db2 = fReadOnly (ns_db s)" using open1 dbw(2) db2(3) by (simp add: stays_open_def)
  ultimately show ?thesis using assms dbw(1) db2
    by (cases ok) (auto simp: SetBestChainInner_def Let_def)
qed

lemma SetBestChainInner_aborts:
  assumes "writable (ns_db s)" "\<not> ne_commit E"
    and "ConnectBlock E (ns_pool s) (hd (ns_best s)) False b c (ns_db s) (ns_cache s) = (Inr ok, db1, p, b1, cache)"
  shows "SetBestChainInner E b c s = (Inr False, p # tl c, b1,
      s\<lparr>ns_cache := cache, ns_db := (ns_db s)\<lparr>activeBatch := None\<rparr>\<rparr>)"
proof -
  have open1: "stays_open (ns_db s) db1" using ConnectBlock_frame [OF assms(1,3)] by simp
  then have w1: "writable db1" using assms(1) by (rule stays_open_writable)
  obtain dbw where dbw: "db_WriteHashBestChain (ne_ok E) (block_hash E b) db1 = Some (True, dbw)" "stays_open db1 dbw"
    using table_write_open(3) [OF w1] by blast
  then have "stays_open (ns_db s) dbw" using open1 by (blast intro: stays_open_trans)
  then have "TxnCommit False dbw = Some (False, (ns_db s)\<lparr>activeBatch := None\<rparr>)"
    by (cases dbw; cases "ns_db s") (auto simp: stays_open_def TxnCommit_def)
  then show ?thesis using assms dbw(1) by (cases ok) (auto simp: SetBestChainInner_def Let_def)
qed

subsection \<open>Blocks that spend what they may not\<close>

text \<open>
  The inputs of the transactions name stored transactions, spent or not, in range; the scripts and the
  amounts may be anything.
\<close>

definition spends_stored :: "tx_db \<Rightarrow> CTransaction \<Rightarrow> bool" where
  "spends_stored txdb tx \<longleftrightarrow> IsCoinBase tx \<or> prevs_stored txdb tx
     \<and> (\<forall>txin\<in>set (vin tx). unat (op_n (prevout txin)) < length (vSpent (the (txdb (op_hash (prevout txin))))))
     \<and> (IsCoinStake tx \<or> GetValueOut tx \<noteq> None)"

lemma connect_spending_stored:
  assumes "spends_stored (tx_view db) tx" "\<not> IsCoinBase tx"
  shows "connect_spending E pool b c db pos i tx st \<noteq> Leaves (Inr False) d cache"
proof -
  obtain inputs inv where f: "FetchInputs (tx_view db) pool True False (ne_now E i) tx (\<lambda>_. None) = (True, inputs, inv)"
    and con: "\<And>C q ch. \<exists>m. fst (ConnectInputs (ne_script E) C tx inputs q c ch) = Inr (True, m)"
  proof -
    have "\<exists>inputs fInvalid m. FetchInputs (tx_view db) pool True False (ne_now E i) tx (\<lambda>_. None) = (True, inputs, fInvalid)
      \<and> fst (ConnectInputs (ne_script E) C tx inputs q c ch) = Inr (True, m)" for C q ch
      using stored_outputs_connect [of tx "tx_view db" pool True False "ne_now E i" "ne_script E" C q c ch] assms
      by (auto simp: spends_stored_def)
    then show ?thesis using that by (metis prod.inject)
  qed
  show ?thesis
  proof (cases "GetP2SHSigOpCount tx inputs")
    case (Inr n)
    define am where "am = (if length (vin tx) < 3 then connect_amounts b tx inputs st else Inr st)"
    show ?thesis
    proof (cases am)
      case (Inr st1)
      obtain m ch where "ConnectInputs (ne_script E) (block_call E i pos) tx inputs (cb_queue st1) c (cb_cache st1) = (Inr (True, m), ch)"
        using con [of "block_call E i pos" "cb_queue st1" "cb_cache st1"] by (metis prod.collapse)
      then show ?thesis using f \<open>GetP2SHSigOpCount tx inputs = Inr n\<close> Inr by (simp add: connect_spending_def am_def [symmetric])
    qed (use f Inr in \<open>simp add: connect_spending_def am_def [symmetric]\<close>)
  qed (use f in \<open>simp add: connect_spending_def\<close>)
qed

subsubsection \<open>The address index\<close>

text \<open>No entry of the index that a transaction needs refers to the memory pool.\<close>

definition off_pool :: "CTransaction list \<Rightarrow> tx_db \<Rightarrow> bool" where
  "off_pool txs m \<longleftrightarrow> (\<forall>tx\<in>set txs. IsCoinBase tx \<or>
     (\<forall>txin\<in>set (vin tx). \<forall>t. m (op_hash (prevout txin)) = Some t \<longrightarrow> ti_pos t \<noteq> mempool_pos))"

definition queue_off_pool :: "tx_db \<Rightarrow> bool" where
  "queue_off_pool q \<longleftrightarrow> (\<forall>h t. q h = Some t \<longrightarrow> ti_pos t \<noteq> mempool_pos)"

lemma db_Write_writable: "writable db \<Longrightarrow> db_Write ok k v db = Some (True, db_put k v db)"
  by (auto simp: db_Write_def db_put_def writable_def)

lemma writable_put: "writable db \<Longrightarrow> writable (db_put k v db)"
  by (auto simp: db_put_def writable_def)

lemma write_index_view: "writable db \<Longrightarrow> write_index E p db = Some (True, db') \<Longrightarrow> writable db' \<and> tx_view db' = tx_view db"
  by (auto simp: write_index_def db_WriteBlockIndex_def db_Write_writable writable_put tx_view_other keys_differ
      split: prod.splits)

lemma write_addresses_view:
  "writable db \<Longrightarrow> write_addresses ok h as db = Some db' \<Longrightarrow> writable db' \<and> tx_view db' = tx_view db"
proof (induction "as" arbitrary: db)
  case (Cons a as)
  have "\<exists>db1. db_WriteAddrIndex ok a h db = Some (True, db1) \<and> writable db1 \<and> tx_view db1 = tx_view db"
    using Cons.prems(1) by (simp add: db_WriteAddrIndex_def db_Write_writable writable_put tx_view_other keys_differ split: option.split)
  then obtain db1 where db1: "db_WriteAddrIndex ok a h db = Some (True, db1)" "writable db1" "tx_view db1 = tx_view db"
    by blast
  then show ?case using Cons by simp
qed simp

lemma write_queue_off_pool:
  "writable db \<Longrightarrow> queue_off_pool q \<Longrightarrow> off_pool txs (tx_view db) \<Longrightarrow>
   write_queue E q keys db = Some (ok, db') \<Longrightarrow> writable db' \<and> off_pool txs (tx_view db')"
proof (induction keys arbitrary: db)
  case (Cons h keys)
  show ?case
  proof (cases "q h")
    case (Some t)
    let ?db = "db_put (tx_key h) (ser_CTxIndex (ne_client_version E) t) db"
    have "off_pool txs (tx_view ?db)"
      using Cons.prems(2,3) Some tx_view_put_pos unfolding off_pool_def queue_off_pool_def by metis
    moreover have "write_queue E q keys ?db = Some (ok, db')"
      using Cons.prems(1,4) Some by (simp add: db_UpdateTxIndex_def db_Write_writable)
    ultimately show ?thesis using Cons.IH [OF writable_put [OF Cons.prems(1)] Cons.prems(2)] by blast
  qed (use Cons in simp)
qed simp

lemma index_addresses_fetches:
  "writable db \<Longrightarrow> off_pool txs (tx_view db) \<Longrightarrow> fst (index_addresses E pool i txs db) \<noteq> Inr False"
proof (induction txs arbitrary: i db)
  case (Cons tx txs)
  let ?F = "if IsCoinBase tx then (True, \<lambda>_. None, False)
    else FetchInputs (tx_view db) pool True False (ne_now E i) tx (\<lambda>_. None)"
  obtain fetched inputs inv where F: "?F = (fetched, inputs, inv)" by (metis prod_cases3)
  have "fst ?F"
    using FetchInputs_off_pool [of tx "tx_view db" pool False "ne_now E i" "\<lambda>_. None"] Cons.prems(2) by (simp add: off_pool_def)
  then have f: "fetched" using F by simp
  let ?as = "concat (map (\<lambda>h. case inputs h of None \<Rightarrow> [] | Some (_, txPrev) \<Rightarrow> output_addresses E (vout txPrev))
                        (prev_hashes tx)) @ output_addresses E (vout tx)"
  show ?case
  proof (cases "write_addresses (ne_ok E) (ne_GetHash E tx) ?as db")
    case (Some db1)
    then have "writable db1" "off_pool txs (tx_view db1)"
      using write_addresses_view [OF Cons.prems(1) Some] Cons.prems(2) by (simp_all add: off_pool_def)
    from Cons.IH [OF this, of "i + 1"] show ?thesis unfolding index_addresses.simps Let_def F by (simp add: f Some)
  next
    case None
    then show ?thesis unfolding index_addresses.simps Let_def F by (simp add: f)
  qed
qed simp

lemma write_block_accepts:
  assumes "writable db" "off_pool (vtx b) (tx_view db)" "queue_off_pool q"
  shows "fst (write_block E pool J b c q db) \<noteq> Inr False"
proof -
  have link: "fst (or_fail (link_previous E c h db) db (\<lambda>db. (Inr True, db))) \<noteq> Inr False" if "writable db" for db h
    using link_previous_open [OF that, of E c h] by (auto simp: or_fail_def)
  obtain db1 where db1: "write_index E (CDiskBlockIndex_of c None) db = Some (True, db1)"
    using table_write_open(4) [OF assms(1)] by blast
  have w1: "writable db1" "off_pool (vtx b) (tx_view db1)" using write_index_view [OF assms(1) db1] assms(2) by simp_all
  obtain db2 where db2: "write_queue E q (queue_keys E b) db1 = Some (True, db2)" using write_queue_open [OF w1(1)] by blast
  have w2: "writable db2" "off_pool (vtx b) (tx_view db2)"
    using write_queue_off_pool [OF w1(1) assms(3) w1(2) db2] by simp_all
  obtain r db3 where r: "(if ne_addrindex E then index_addresses E pool 0 (vtx b) db2 else (Inr True, db2)) = (r, db3)"
    by fastforce
  then have "r \<noteq> Inr False" using index_addresses_fetches [OF w2, of E pool 0] by (auto split: if_splits)
  moreover have "writable db3" using r w2(1) index_addresses_open [OF w2(1), of E pool 0 "vtx b" r db3]
    by (auto split: if_splits intro: stays_open_writable)
  ultimately show ?thesis using link [of db3 "bi_hash (hd c)"]
    by (cases r) (auto simp: write_block_def or_fail_def db1 db2 r split: bool.splits)
qed

text \<open>The changes queued by the transactions of the block are of that kind.\<close>

lemma connect_spending_queue:
  assumes "spends_stored (tx_view db) tx" "\<not> IsCoinBase tx" "queue_off_pool (cb_queue st)"
    and "connect_spending E pool b c db pos i tx st = Goes st'"
  shows "queue_off_pool (cb_queue st')"
proof -
  obtain inputs inv where f: "FetchInputs (tx_view db) pool True False (ne_now E i) tx (\<lambda>_. None) = (True, inputs, inv)"
    "blank_inputs (ne_now E i) (tx_view db) inputs" "dom inputs = (\<lambda>txin. op_hash (prevout txin)) ` set (vin tx)"
    using FetchInputs_blank [of tx "tx_view db" pool True False "ne_now E i"] assms(1,2) unfolding spends_stored_def by blast
  have stored: "prevs_stored (tx_view db) tx" using assms(1,2) by (simp add: spends_stored_def)
  have off: "\<forall>h t x. inputs h = Some (t, x) \<longrightarrow> ti_pos t \<noteq> mempool_pos"
  proof (intro allI impI)
    fix h t x assume h: "inputs h = Some (t, x)"
    then have "h \<in> (\<lambda>txin. op_hash (prevout txin)) ` set (vin tx)" using f(3) by blast
    moreover have "tx_view db h = Some t" using f(2) h by (simp add: blank_inputs_def)
    ultimately show "ti_pos t \<noteq> mempool_pos" using stored by (auto simp: prevs_stored_def)
  qed
  obtain n st1 m cache where st1: "(if length (vin tx) < 3 then connect_amounts b tx inputs st else Inr st) = Inr st1"
    and con: "ConnectInputs (ne_script E) (block_call E i pos) tx inputs (cb_queue st1) c (cb_cache st1) = (Inr (True, m), cache)"
    and st': "st' = st1\<lparr>cb_nSigOps := cb_nSigOps st1 + of_nat n, cb_queue := m, cb_cache := cache\<rparr>"
    using assms(4) f(1) unfolding connect_spending_def
    by (simp only: prod.case not_True_eq_False if_False) (auto split: sum.splits prod.splits if_split_asm)
  have "cb_queue st1 = cb_queue st"
    using st1 by (auto simp: connect_amounts_def split: if_splits sum.splits option.splits)
  then show ?thesis using ConnectInputs_positions [OF con off] assms(3) by (simp add: queue_off_pool_def st')
qed

lemma connect_tx_queue:
  assumes "spends_stored (tx_view db) tx" "bi_nBlockPos (hd c) \<noteq> 1" "queue_off_pool (cb_queue st)"
    and "connect_tx E pool b c db J i tx st = Goes st'"
  shows "queue_off_pool (cb_queue st')"
proof -
  define pos where "pos = \<lparr>tp_nFile = bi_nFile (hd c), tp_nBlockPos = bi_nBlockPos (hd c),
    tp_nTxPos = cb_nTxPos (st\<lparr>cb_nSigOps := cb_nSigOps st + of_nat (GetLegacySigOpCount tx)\<rparr>)\<rparr>"
  obtain st1 st2 where q1: "cb_queue st1 = cb_queue st"
    and st2: "cb_queue st2 = cb_queue st \<or> (\<not> IsCoinBase tx \<and> connect_spending E pool b c db pos i tx st1 = Goes st2)"
    and st': "cb_queue st' = (cb_queue st2)(ne_GetHash E tx \<mapsto> CTxIndex_new pos (length (vout tx)))"
  proof -
    define s1 where "s1 = (let st = st\<lparr>cb_nSigOps := cb_nSigOps st + of_nat (GetLegacySigOpCount tx)\<rparr> in
      if J then st else st\<lparr>cb_nTxPos := cb_nTxPos st + size_CTransaction tx\<rparr>)"
    have q1: "cb_queue s1 = cb_queue st" by (simp add: s1_def Let_def)
    show ?thesis
    proof (cases "IsCoinBase tx")
      case True
      then show ?thesis using assms(4) that [OF q1, of s1] q1
        by (auto simp: connect_tx_def Let_def pos_def s1_def split: if_splits option.splits)
    next
      case False
      then obtain s2 where "connect_spending E pool b c db pos i tx s1 = Goes s2"
        "st' = s2\<lparr>cb_queue := (cb_queue s2)(ne_GetHash E tx \<mapsto> CTxIndex_new pos (length (vout tx)))\<rparr>"
        using assms(4) by (auto simp: connect_tx_def Let_def pos_def s1_def split: if_splits tx_outcome.splits)
      then show ?thesis using that [OF q1, of s2] False by simp
    qed
  qed
  have "queue_off_pool (cb_queue st2)" using st2 connect_spending_queue [OF assms(1)] assms(3) q1 by metis
  moreover have "pos \<noteq> mempool_pos" using assms(2) by (simp add: pos_def mempool_pos_def)
  ultimately show ?thesis by (auto simp: queue_off_pool_def st' CTxIndex_new_def)
qed

lemma connect_txs_queue:
  "\<forall>tx\<in>set txs. spends_stored (tx_view db) tx \<Longrightarrow> bi_nBlockPos (hd c) \<noteq> 1 \<Longrightarrow> queue_off_pool (cb_queue st) \<Longrightarrow>
   connect_txs E pool b c db J i txs st = Goes st' \<Longrightarrow> queue_off_pool (cb_queue st')"
proof (induction txs arbitrary: i st)
  case (Cons tx txs)
  then obtain st1 where "connect_tx E pool b c db J i tx st = Goes st1" "connect_txs E pool b c db J (i + 1) txs st1 = Goes st'"
    by (auto split: tx_outcome.splits)
  then show ?case using Cons connect_tx_queue by (metis list.set_intros)
qed simp

subsubsection \<open>Signature operations of small blocks\<close>

lemma sigops_loop_le: "GetSigOpCount_loop acc l s \<le> 20 * length s"
proof (induction acc l s rule: GetSigOpCount_loop.induct)
  case (1 acc l s)
  obtain ok opc d rest where g: "GetOp2 s = (ok, opc, d, rest)" by (metis prod_cases4)
  show ?case
  proof (cases "s = [] \<or> \<not> ok")
    case False
    then have "length rest < length s" "GetSigOpCount_loop acc opc rest \<le> 20 * length rest"
      using g GetOp2_rest 1 by auto
    moreover have "the (DecodeOP_N l) \<le> 20" if "OP_1 \<le> l" "l \<le> OP_16"
      using that by (auto simp: DecodeOP_N_def)
    ultimately show ?thesis using False g by (subst GetSigOpCount_loop.simps) (auto simp: not_less)
  qed (use g in \<open>auto simp: GetSigOpCount_loop.simps [of acc l s]\<close>)
qed

lemma GetOp2_lengths: "GetOp2 s = (ok, opc, d, rest) \<Longrightarrow> s \<noteq> [] \<Longrightarrow> length d + length rest \<le> length s"
  by (cases s) (auto simp: GetOp2_def Let_def GetOp2_data_def split: if_splits option.splits
      dest!: GetOp2_size_suffix)

lemma last_push_le: "last_push data s = Some d \<Longrightarrow> length d \<le> max (length data) (length s)"
proof (induction data s rule: last_push.induct)
  case (1 data s)
  obtain ok opc d' rest where g: "GetOp2 s = (ok, opc, d', rest)" by (metis prod_cases4)
  show ?case
  proof (cases "s = []")
    case False
    then show ?thesis using 1 g GetOp2_lengths [OF g]
      by (force simp: last_push.simps [of data s] split: if_splits)
  qed (use 1(2) in \<open>simp add: last_push.simps [of data "[]"]\<close>)
qed

lemma GetSigOpCount_P2SH_le: "IsPayToScriptHash s \<Longrightarrow> GetSigOpCount_P2SH s t \<le> 20 * length t"
  using last_push_le [of "[]" t]
  by (auto simp: GetSigOpCount_P2SH_def GetSigOpCount_def split: option.split intro!: order.trans [OF sigops_loop_le])

lemma p2sh_sigops_le:
  "p2sh_sigops_loop tx inputs n ins = Inr m \<Longrightarrow> m \<le> n + 20 * sum_list (map (\<lambda>i. length (scriptSig i)) ins)"
proof (induction ins arbitrary: n)
  case (Cons txin ins)
  then obtain out where o': "GetOutputFor tx txin inputs = Inr out" by (auto split: sum.splits)
  show ?case using Cons o' GetSigOpCount_P2SH_le [of "scriptPubKey out" "scriptSig txin"]
    by (fastforce split: if_splits)
qed simp

lemma GetP2SHSigOpCount_le:
  assumes "GetP2SHSigOpCount tx inputs = Inr m"
  shows "m \<le> 20 * length (ser_CTransaction tx)"
proof -
  have "m \<le> 20 * sum_list (map (\<lambda>i. length (scriptSig i)) (vin tx))"
    using assms p2sh_sigops_le [of tx inputs 0 "vin tx" m] by (auto simp: GetP2SHSigOpCount_def split: if_splits)
  moreover have "sum_list (map (\<lambda>i. length (scriptSig i)) (vin tx)) \<le> sum_list (map (\<lambda>i. length (ser_CTxIn i)) (vin tx))"
    by (rule sum_list_mono) (simp add: ser_CTxIn_def ser_bytes_def)
  moreover have "\<dots> \<le> length (ser_CTransaction tx)"
    using ser_vector_sum [of ser_CTxIn "vin tx"] by (simp add: ser_CTransaction_def)
  ultimately show ?thesis by simp
qed

text \<open>A transaction adds at most 40 operations for each of its bytes.\<close>

definition tx_room :: "CTransaction \<Rightarrow> nat" where
  "tx_room tx = 40 * length (ser_CTransaction tx)"

lemma unat_add_of_nat_le: "unat (x + of_nat n) \<le> unat x + n" for x :: "'a::len word"
proof -
  have "unat (x + of_nat n) \<le> unat x + unat (of_nat n :: 'a word)" by (simp add: unat_word_ariths)
  moreover have "unat (of_nat n :: 'a word) \<le> n" by (simp add: unsigned_of_nat)
  ultimately show ?thesis by simp
qed

lemma connect_amounts_sigops: "connect_amounts b tx inputs st = Inr st1 \<Longrightarrow> cb_nSigOps st1 = cb_nSigOps st"
  by (auto simp: connect_amounts_def split: sum.splits option.splits)

lemma connect_spending_sigops:
  assumes "connect_spending E pool b c db pos i tx st = Goes st'"
  shows "unat (cb_nSigOps st') \<le> unat (cb_nSigOps st) + 20 * length (ser_CTransaction tx)"
proof -
  obtain inputs inv where "FetchInputs (tx_view db) pool True False (ne_now E i) tx (\<lambda>_. None) = (True, inputs, inv)"
    using assms by (auto simp: connect_spending_def split: prod.splits if_splits)
  then obtain n st1 m cache where n: "GetP2SHSigOpCount tx inputs = Inr n"
    and st1: "(if length (vin tx) < 3 then connect_amounts b tx inputs st else Inr st) = Inr st1"
    and st': "st' = st1\<lparr>cb_nSigOps := cb_nSigOps st1 + of_nat n, cb_queue := m, cb_cache := cache\<rparr>"
    using assms unfolding connect_spending_def
    by (simp only: prod.case not_True_eq_False if_False) (auto split: sum.splits prod.splits if_split_asm)
  have "cb_nSigOps st1 = cb_nSigOps st" using st1 by (auto dest: connect_amounts_sigops split: if_splits)
  then show ?thesis using unat_add_of_nat_le [of "cb_nSigOps st" n] GetP2SHSigOpCount_le [OF n] by (simp add: st')
qed

lemma connect_tx_sigops:
  assumes "spends_stored (tx_view db) tx" "unat (cb_nSigOps st) + tx_room tx \<le> 600000"
  shows "connect_tx E pool b c db J i tx st \<noteq> Leaves (Inr False) d cache"
    and "connect_tx E pool b c db J i tx st = Goes st' \<Longrightarrow> unat (cb_nSigOps st') \<le> unat (cb_nSigOps st) + tx_room tx"
proof -
  define st1 where "st1 = st\<lparr>cb_nSigOps := cb_nSigOps st + of_nat (GetLegacySigOpCount tx)\<rparr>"
  define st2 where "st2 = (if J then st1 else st1\<lparr>cb_nTxPos := cb_nTxPos st1 + size_CTransaction tx\<rparr>)"
  have "unat (cb_nSigOps st1) \<le> unat (cb_nSigOps st) + GetLegacySigOpCount tx"
    by (simp add: st1_def unat_add_of_nat_le)
  then have le: "unat (cb_nSigOps st1) \<le> unat (cb_nSigOps st) + 20 * length (ser_CTransaction tx)"
    using legacy_sigops_le [of tx] by linarith
  then have few: "\<not> cb_nSigOps st1 > MAX_BLOCK_SIGOPS"
    using assms(2) by (simp add: word_less_nat_alt MAX_BLOCK_SIGOPS_def MAX_BLOCK_SIZE_def tx_room_def)
  have n2: "cb_nSigOps st2 = cb_nSigOps st1" by (simp add: st2_def)
  note step = connect_tx_def Let_def st1_def [symmetric] st2_def [symmetric] few if_False
  have spend: "connect_spending E pool b c db pos i tx st2 \<noteq> Leaves (Inr False) d cache" if "\<not> IsCoinBase tx" for pos
    using connect_spending_stored [OF assms(1) that] .
  show "connect_tx E pool b c db J i tx st \<noteq> Leaves (Inr False) d cache"
    unfolding step using spend few by (auto split: tx_outcome.split option.split)
  assume "connect_tx E pool b c db J i tx st = Goes st'"
  then show "unat (cb_nSigOps st') \<le> unat (cb_nSigOps st) + tx_room tx"
    unfolding step using le n2 few
    by (auto simp: tx_room_def split: tx_outcome.splits option.splits if_splits dest!: connect_spending_sigops)
qed

lemma connect_txs_stored:
  "\<forall>tx\<in>set txs. spends_stored (tx_view db) tx \<Longrightarrow> unat (cb_nSigOps st) + sum_list (map tx_room txs) \<le> 600000
   \<Longrightarrow> connect_txs E pool b c db J i txs st \<noteq> Leaves (Inr False) d cache"
proof (induction txs arbitrary: i st)
  case (Cons tx txs)
  then have tx: "spends_stored (tx_view db) tx" "unat (cb_nSigOps st) + tx_room tx \<le> 600000" by simp_all
  show ?case
  proof (cases "connect_tx E pool b c db J i tx st")
    case (Leaves r d0 cache0)
    then show ?thesis using connect_tx_sigops(1) [OF tx, of E pool b c J i d cache] by auto
  next
    case (Goes st1)
    then have "unat (cb_nSigOps st1) + sum_list (map tx_room txs) \<le> 600000"
      using connect_tx_sigops(2) [OF tx Goes] Cons.prems(2) by simp
    then show ?thesis using Cons.IH Cons.prems(1) Goes by simp
  qed
qed simp

lemma CheckBlock_vtx: "CheckBlock E pow mr sig b = (True, b1) \<Longrightarrow> vtx b1 = vtx b"
proof -
  have r: "vtx (snd (check_root E mr b)) = vtx b"
    by (simp add: check_root_def CBlock_DoS_def BuildMerkleTree_def Let_def split: prod.split)
  have "check_body E mr b = (True, b1) \<Longrightarrow> vtx b1 = vtx b"
    using r by (auto simp: check_body_def CBlock_DoS_def split: if_splits option.splits prod.splits)
  then show "CheckBlock E pow mr sig b = (True, b1) \<Longrightarrow> vtx b1 = vtx b"
    by (simp add: CheckBlock_def CBlock_DoS_def split: if_splits)
qed

text \<open>
  C9. Connecting a block does not examine what it spends. Within a transaction of the database, a block
  of at most 15000 bytes that passes \<open>CheckBlock\<close> and whose transactions spend outputs on disk, spent or
  not and whatever their scripts and amounts, is never refused by \<open>ConnectBlock\<close>, in a trial connection or
  not, with the address index or without it. The bound on the size only keeps it below the limit for signature
  operations, and no block is at position 1 of its file, since eight bytes precede it.
\<close>

theorem ConnectBlock_never_refuses:
  assumes "writable db" "\<forall>tx\<in>set (vtx b). spends_stored (tx_view db) tx" "bi_nBlockPos (hd c) \<noteq> 1"
    and "length (ser_CBlock False b) \<le> 15000" "fst (CheckBlock (ne_check E) (\<not> J) (\<not> J) False b)"
  shows "fst (ConnectBlock E pool best J b c db cache) \<noteq> Inr False"
proof -
  obtain b1 where b1: "CheckBlock (ne_check E) (\<not> J) (\<not> J) False b = (True, b1)"
    using assms(5) by (metis prod.collapse)
  have v: "vtx b1 = vtx b" by (rule CheckBlock_vtx [OF b1])
  have "sum_list (map tx_room (vtx b)) = 40 * sum_list (map (\<lambda>tx. length (ser_CTransaction tx)) (vtx b))"
    by (simp add: tx_room_def [abs_def] sum_list_const_mult)
  then have room: "unat (cb_nSigOps (cb_start b1 c J cache)) + sum_list (map tx_room (vtx b)) \<le> 600000"
    using block_body_length [of b] assms(4) by (simp add: cb_start_def)
  show ?thesis
  proof (cases "connect_txs E pool b1 c db J 0 (vtx b1) (cb_start b1 c J cache)")
    case (Leaves r d cache0)
    then show ?thesis using connect_txs_stored [OF assms(2) room, of E pool b1 c J 0 d cache0] by (auto simp: ConnectBlock_def b1 v)
  next
    case (Goes st)
    show ?thesis
    proof (cases "block_reward E db best b1 c st")
      case (Inr q)
      have "off_pool (vtx b1) (tx_view db)"
        using assms(2) by (fastforce simp: off_pool_def v spends_stored_def prevs_stored_def)
      moreover have "queue_off_pool (cb_queue st)"
        using connect_txs_queue [OF assms(2,3) _ Goes [unfolded v]] by (simp add: cb_start_def queue_off_pool_def)
      ultimately have "fst (write_block E pool J b1 (q # tl c) (cb_queue st) db) \<noteq> Inr False"
        by (rule write_block_accepts [OF assms(1)])
      then show ?thesis using Goes Inr by (auto simp: ConnectBlock_def b1 split: prod.splits)
    qed (use Goes in \<open>simp add: ConnectBlock_def b1\<close>)
  qed
qed

subsection \<open>The best chain accepts what does not connect\<close>

lemma SetBestChain_accepts:
  assumes "hashPrevBlock b = ns_hashBestChain s" "ns_genesis s" "tl c \<noteq> []" "ne_commit E"
    and "activeBatch (ns_db s) = None" "\<not> fReadOnly (ns_db s)"
    and "ConnectBlock E (ns_pool s) (hd (ns_best s)) False b c ((ns_db s)\<lparr>activeBatch := Some []\<rparr>) (ns_cache s)
      = (Inr ok, db1, p, b1, cache)"
  shows "\<exists>s'. SetBestChain E b c s = (Inr True, p # tl c, b1, s') \<and> ns_best s' = p # tl c
    \<and> ns_hashBestChain s' = block_hash E b \<and> db_ReadHashBestChain (ns_db s') = Some (block_hash E b)"
proof -
  let ?s = "s\<lparr>ns_db := (ns_db s)\<lparr>activeBatch := Some []\<rparr>\<rparr>"
  have "writable (ns_db ?s)" using assms(6) by (simp add: writable_def)
  moreover have "ConnectBlock E (ns_pool ?s) (hd (ns_best ?s)) False b c (ns_db ?s) (ns_cache ?s) = (Inr ok, db1, p, b1, cache)"
    using assms(7) by simp
  ultimately obtain db2 where "SetBestChainInner E b c ?s = (Inr True, p # tl c, b1,
      ?s\<lparr>ns_cache := cache, ns_db := db2, ns_pool := remove_txs E (vtx b) (ns_pool ?s)\<rparr>)"
    "db_ReadHashBestChain db2 = Some (block_hash E b)"
    using SetBestChainInner_commits [of ?s E c b ok db1 p b1 cache] assms(3,4) by blast
  then show ?thesis using assms(1,2,5) by (simp add: SetBestChain_def TxnBegin_def new_best_def)
qed

text \<open>
  C7. The answer of \<open>ConnectBlock\<close> does not matter: a block on top of the best chain, whether \<open>ConnectBlock\<close>
  answers true or false, becomes the best block, in memory and, when the commit succeeds, on disk.
\<close>

theorem SetBestChain_ignores_ConnectBlock:
  assumes "hashPrevBlock b = ns_hashBestChain s" "ns_genesis s" "tl c \<noteq> []" "ne_commit E"
    and "activeBatch (ns_db s) = None" "\<not> fReadOnly (ns_db s)"
    and "ConnectBlock E (ns_pool s) (hd (ns_best s)) False b c ((ns_db s)\<lparr>activeBatch := Some []\<rparr>) (ns_cache s)
      = (Inr ok, db1, p, b1, cache)"
  shows "\<exists>s'. SetBestChain E b c s = (Inr True, p # tl c, b1, s') \<and> ns_best s' = p # tl c
    \<and> ns_hashBestChain s' = block_hash E b \<and> db_ReadHashBestChain (ns_db s') = Some (block_hash E b)"
  using assms by (rule SetBestChain_accepts)

subsection \<open>Invariant of the chain\<close>

text \<open>Heights and trust add up along a chain; \<open>mapBlockIndex\<close> files every entry under its hash, with its predecessors.\<close>

fun linked :: "bn_lib \<Rightarrow> chain \<Rightarrow> bool" where
  "linked L (p # q # c) \<longleftrightarrow> nHeight p = nHeight q + 1 \<and> nChainTrust p = nChainTrust q + GetBlockTrust L p \<and> linked L (q # c)"
| "linked L c \<longleftrightarrow> c \<noteq> []"

definition entries_linked :: "bn_lib \<Rightarrow> (uint256 \<Rightarrow> chain option) \<Rightarrow> bool" where
  "entries_linked L m \<longleftrightarrow> (\<forall>h c. m h = Some c \<longrightarrow> linked L c \<and> bi_hash (hd c) = h \<and> (tl c \<noteq> [] \<longrightarrow> m (bi_hash (hd (tl c))) = Some (tl c)))"

definition chain_ok :: "bn_lib \<Rightarrow> node \<Rightarrow> bool" where
  "chain_ok L s \<longleftrightarrow> entries_linked L (ns_mapBlockIndex s) \<and> ns_mapBlockIndex s (ns_hashBestChain s) = Some (ns_best s)
     \<and> ns_genesis s \<and> activeBatch (ns_db s) = None \<and> \<not> fReadOnly (ns_db s)
     \<and> db_ReadHashBestChain (ns_db s) = Some (ns_hashBestChain s)
     \<and> ns_nBestHeight s = nHeight (hd (ns_best s)) \<and> ns_nBestChainTrust s = nChainTrust (hd (ns_best s))
     \<and> GeneratedStakeModifier (last (ns_best s))"

lemma linked_Cons: "linked L q \<Longrightarrow> linked L (p # q) \<longleftrightarrow> nHeight p = nHeight (hd q) + 1 \<and> nChainTrust p = nChainTrust (hd q) + GetBlockTrust L p"
  by (cases q) auto

lemma linked_not_Nil: "linked L c \<Longrightarrow> c \<noteq> []"
  by (cases c) auto

lemma indexed_insert:
  assumes "entries_linked L m" "m h = None" "linked L (p # q)" "bi_hash p = h" "q \<noteq> [] \<longrightarrow> m (bi_hash (hd q)) = Some q"
  shows "entries_linked L (m(h \<mapsto> p # q))"
  unfolding entries_linked_def
proof (intro allI impI)
  fix h' c assume c: "(m(h \<mapsto> p # q)) h' = Some c"
  show "linked L c \<and> bi_hash (hd c) = h' \<and> (tl c \<noteq> [] \<longrightarrow> (m(h \<mapsto> p # q)) (bi_hash (hd (tl c))) = Some (tl c))"
  proof (cases "h' = h")
    case True
    then show ?thesis using c assms by auto
  next
    case False
    then have "m h' = Some c" using c by simp
    with assms(1) have "linked L c" "bi_hash (hd c) = h'" "tl c \<noteq> [] \<longrightarrow> m (bi_hash (hd (tl c))) = Some (tl c)"
      unfolding entries_linked_def by blast+
    then show ?thesis using assms(2) by auto
  qed
qed

lemma linked_same_entry: "linked L (p # q) \<Longrightarrow> same_entry p' p \<Longrightarrow> linked L (p' # q)"
  by (cases q) (auto simp: same_entry_def GetBlockTrust_def)

subsubsection \<open>A new entry\<close>

lemma new_entry_links:
  assumes "ns_mapBlockIndex s (hashPrevBlock b) = Some q" "linked (ce_bn (ne_check E)) q"
  shows "\<exists>p. new_entry E nFile nBlockPos proof b s = p # q \<and> bi_hash p = block_hash E b
    \<and> linked (ce_bn (ne_check E)) (SetStakeModifier m g p # q)
    \<and> same_entry (SetStakeModifier m g p) p"
  using assms linked_not_Nil [OF assms(2)]
  by (cases q) (auto simp: new_entry_def Let_def SetStakeEntropyBit_def SetStakeModifier_def same_entry_def GetBlockTrust_def)

lemma index_transaction:
  assumes "activeBatch db = None" "\<not> fReadOnly db"
  shows "\<exists>db1 db2. TxnBegin db = Some (True, db\<lparr>activeBatch := Some []\<rparr>)
    \<and> write_index E p (db\<lparr>activeBatch := Some []\<rparr>) = Some (True, db1)
    \<and> TxnCommit False db1 = Some (False, db) \<and> TxnCommit True db1 = Some (True, db2)
    \<and> activeBatch db2 = None \<and> \<not> fReadOnly db2 \<and> db_ReadHashBestChain db2 = db_ReadHashBestChain db"
proof -
  obtain k v where k: "write_index E p (db\<lparr>activeBatch := Some []\<rparr>) = Some (True, db\<lparr>activeBatch := Some [BatchPut (blockindex_key k) v]\<rparr>)"
    using assms(2) by (cases "CDiskBlockIndex_GetBlockHash (ce_hash (ne_check E)) (ne_fUseFastIndex E) (ce_adjustedTime (ne_check E)) p")
      (simp add: write_index_def db_WriteBlockIndex_def db_Write_def)
  let ?db2 = "db\<lparr>pdb := (pdb db)(blockindex_key k \<mapsto> v), activeBatch := None\<rparr>"
  have "db\<lparr>activeBatch := None\<rparr> = db" using assms(1) by (cases db) simp
  moreover have "db_Read ?db2 best_key = db_Read db best_key"
    using assms(1) keys_differ(6) [of k] by (simp add: db_Read_view)
  ultimately show ?thesis using assms k
    by (intro exI [of _ "db\<lparr>activeBatch := Some [BatchPut (blockindex_key k) v]\<rparr>"] exI [of _ ?db2])
      (simp add: TxnBegin_def TxnCommit_def db_ReadHashBestChain_def)
qed

text \<open>A state with a new entry that is not the best one, and a state where it is.\<close>

lemma chain_ok_insert:
  assumes "chain_ok L s" "ns_mapBlockIndex s h = None" "linked L (p # ns_best s)" "bi_hash p = h"
    and "ns_mapBlockIndex s' = (ns_mapBlockIndex s)(h \<mapsto> p # ns_best s)" "ns_genesis s'"
    and "activeBatch (ns_db s') = None" "\<not> fReadOnly (ns_db s')"
    and "ns_best s' = ns_best s \<and> ns_hashBestChain s' = ns_hashBestChain s \<and> db_ReadHashBestChain (ns_db s') = db_ReadHashBestChain (ns_db s)
       \<and> ns_nBestHeight s' = ns_nBestHeight s \<and> ns_nBestChainTrust s' = ns_nBestChainTrust s
      \<or> ns_best s' = p # ns_best s \<and> ns_hashBestChain s' = h \<and> db_ReadHashBestChain (ns_db s') = Some h
       \<and> ns_nBestHeight s' = nHeight p \<and> ns_nBestChainTrust s' = nChainTrust p"
  shows "chain_ok L s'"
proof -
  have m: "entries_linked L (ns_mapBlockIndex s)" "ns_mapBlockIndex s (ns_hashBestChain s) = Some (ns_best s)"
    using assms(1) by (simp_all add: chain_ok_def)
  then have "bi_hash (hd (ns_best s)) = ns_hashBestChain s" unfolding entries_linked_def by blast
  then have "entries_linked L (ns_mapBlockIndex s')"
    using indexed_insert [OF m(1) assms(2-4)] m(2) by (simp add: assms(5))
  moreover have "ns_best s \<noteq> []" using m linked_not_Nil unfolding entries_linked_def by blast
  ultimately show ?thesis using assms m(2) by (auto simp: chain_ok_def)
qed

text \<open>Trying to make the new entry the best block.\<close>

lemma SetBestChain_step:
  assumes "chain_ok L s" "hashPrevBlock b = ns_hashBestChain s" "linked L (p # ns_best s)" "bi_hash p = block_hash E b"
    and "ns_mapBlockIndex s (block_hash E b) = None" "s1 = s\<lparr>ns_mapBlockIndex := m, ns_setStakeSeen := seen, ns_db := db\<rparr>"
    and "m = (ns_mapBlockIndex s)(block_hash E b \<mapsto> p # ns_best s)"
    and "activeBatch db = None" "\<not> fReadOnly db" "db_ReadHashBestChain db = db_ReadHashBestChain (ns_db s)"
    and "SetBestChain E b (p # ns_best s) s1 = (Inr r, c, b', s2)"
    and "s' = close_db (s2\<lparr>ns_mapBlockIndex := (ns_mapBlockIndex s2)(block_hash E b \<mapsto> c)\<rparr>)"
  shows "chain_ok L s' \<and> ns_mapBlockIndex s' = (ns_mapBlockIndex s)(block_hash E b \<mapsto> c)
    \<and> (ns_best s' = ns_best s \<or> ns_best s' = c) \<and> (\<exists>p'. c = p' # ns_best s \<and> same_entry p' p)"
proof -
  let ?so = "s1\<lparr>ns_db := db\<lparr>activeBatch := Some []\<rparr>\<rparr>"
  have ne: "ns_best s \<noteq> []" using assms(1) linked_not_Nil by (auto simp: chain_ok_def entries_linked_def)
  have inner: "SetBestChain E b (p # ns_best s) s1 =
      (case SetBestChainInner E b (p # ns_best s) ?so of
         (Inr True, c, b', s) \<Rightarrow> (Inr True, c, b', new_best E b c s) | r \<Rightarrow> r)"
    using assms(1,2,8) by (simp add: SetBestChain_def TxnBegin_def assms(6) chain_ok_def)
  have w: "writable (ns_db ?so)" using assms(9) by (simp add: writable_def)
  obtain res db1 p' b1 cache where con:
    "ConnectBlock E (ns_pool ?so) (hd (ns_best ?so)) False b (p # ns_best s) (ns_db ?so) (ns_cache ?so) = (res, db1, p', b1, cache)"
    by (metis prod_cases5)
  obtain ok where res: "res = Inr ok"
    using assms(11) con unfolding inner by (cases res) (simp_all add: SetBestChainInner_def)
  note con = con [unfolded res]
  have same: "same_entry p' p" using ConnectBlock_frame [OF w con] by simp
  then have link: "linked L (p' # ns_best s)" "bi_hash p' = block_hash E b"
    using linked_same_entry [OF assms(3)] assms(4) by (simp_all add: same_entry_def)
  show ?thesis
  proof (cases "ne_commit E")
    case True
    obtain db2 where db2: "SetBestChainInner E b (p # ns_best s) ?so = (Inr True, p' # ns_best s, b1,
        ?so\<lparr>ns_cache := cache, ns_db := db2, ns_pool := remove_txs E (vtx b) (ns_pool ?so)\<rparr>)"
      "activeBatch db2 = None" "\<not> fReadOnly db2" "db_ReadHashBestChain db2 = Some (block_hash E b)"
      using SetBestChainInner_commits [OF w True _ con] ne assms(9) by auto
    have c: "c = p' # ns_best s" and s2: "s2 = new_best E b c (?so\<lparr>ns_cache := cache, ns_db := db2, ns_pool := remove_txs E (vtx b) (ns_pool ?so)\<rparr>)"
      using assms(11) unfolding inner db2(1) by auto
    have d: "db2\<lparr>activeBatch := None\<rparr> = db2" using db2(2) by (cases db2) simp
    then have "chain_ok L s'"
      using chain_ok_insert [OF assms(1,5) link, of s'] assms(1) db2(2-4)
      by (simp add: assms(12) s2 c assms(6,7) close_db_def new_best_def chain_ok_def d)
    then show ?thesis using same c by (simp add: assms(12) s2 assms(6,7) close_db_def new_best_def)
  next
    case False
    have c: "c = p' # ns_best s" and s2: "s2 = ?so\<lparr>ns_cache := cache, ns_db := (ns_db ?so)\<lparr>activeBatch := None\<rparr>\<rparr>"
      using assms(11) SetBestChainInner_aborts [OF w False con] unfolding inner by auto
    have d: "db\<lparr>activeBatch := None\<rparr> = db" using assms(8) by (cases db) simp
    then have "chain_ok L s'"
      using chain_ok_insert [OF assms(1,5) link, of s'] assms(1,8-10)
      by (simp add: assms(12) s2 c assms(6,7) close_db_def chain_ok_def d)
    then show ?thesis using same c by (simp add: assms(12) s2 assms(6,7) close_db_def)
  qed
qed

text \<open>What adding a block on top of the best one does, the failures that cannot happen left out.\<close>

lemma AddToBlockIndex_eval:
  assumes "chain_ok (ce_bn (ne_check E)) s" "ns_mapBlockIndex s (block_hash E b) = None" "hashPrevBlock b = ns_hashBestChain s"
  obtains p seen db2 where "bi_hash p = block_hash E b" "linked (ce_bn (ne_check E)) (p # ns_best s)"
    and "activeBatch db2 = None" "\<not> fReadOnly db2" "db_ReadHashBestChain db2 = db_ReadHashBestChain (ns_db s)"
    and "AddToBlockIndex E nFile nBlockPos proof b s =
     (if \<not> fst (ComputeNextStakeModifier (ce_hash (ne_check E)) (\<lambda>h. map_option hd (ns_mapBlockIndex s h)) (ns_best s)) then (Inr False, b, s)
      else let s = s\<lparr>ns_mapBlockIndex := (ns_mapBlockIndex s)(block_hash E b \<mapsto> p # ns_best s), ns_setStakeSeen := seen\<rparr> in
        if \<not> ne_commit_index E then (Inr False, b, close_db (s\<lparr>ns_db := ns_db s\<rparr>))
        else if nChainTrust p > ns_nBestChainTrust s then
          (case SetBestChain E b (p # ns_best s) (s\<lparr>ns_db := db2\<rparr>) of
             (r, c, b', s) \<Rightarrow> (r, b', close_db (s\<lparr>ns_mapBlockIndex := (ns_mapBlockIndex s)(block_hash E b \<mapsto> c)\<rparr>)))
        else (Inr True, b, close_db (s\<lparr>ns_db := db2\<rparr>)))"
proof -
  let ?L = "ce_bn (ne_check E)" and ?h = "block_hash E b" and ?c0 = "new_entry E nFile nBlockPos proof b s"
  have best: "ns_mapBlockIndex s (hashPrevBlock b) = Some (ns_best s)" "linked ?L (ns_best s)"
    using assms by (auto simp: chain_ok_def entries_linked_def)
  obtain computed m g where mod: "ComputeNextStakeModifier (ce_hash (ne_check E)) (\<lambda>h. map_option hd (ns_mapBlockIndex s h)) (ns_best s)
      = (computed, m, g)" by (metis prod_cases3)
  obtain p0 where p0: "?c0 = p0 # ns_best s" "bi_hash p0 = ?h" "linked ?L (SetStakeModifier m g p0 # ns_best s)"
    "same_entry (SetStakeModifier m g p0) p0"
    using new_entry_links [OF best] by blast
  define p where "p = SetStakeModifier m g p0"
  have p: "bi_hash p = ?h" "linked ?L (p # ns_best s)" using p0 by (simp_all add: p_def same_entry_def)
  have closed: "activeBatch (ns_db s) = None" "\<not> fReadOnly (ns_db s)" using assms(1) by (simp_all add: chain_ok_def)
  from index_transaction [OF this] obtain db1 db2 where db:
    "TxnBegin (ns_db s) = Some (True, (ns_db s)\<lparr>activeBatch := Some []\<rparr>)"
    "write_index E (CDiskBlockIndex_of (p # ns_best s) None) ((ns_db s)\<lparr>activeBatch := Some []\<rparr>) = Some (True, db1)"
    "TxnCommit False db1 = Some (False, ns_db s)" "TxnCommit True db1 = Some (True, db2)"
    "activeBatch db2 = None" "\<not> fReadOnly db2" "db_ReadHashBestChain db2 = db_ReadHashBestChain (ns_db s)" by blast
  have bit: "\<not> GetStakeEntropyBit (ce_hash (ne_check E)) b > 1"
    by (simp add: GetStakeEntropyBit_def and_one_eq mod_2_eq_odd)
  show thesis
    by (rule that [OF p db(5-7),
        of "if IsProofOfStake p then insert (prevoutStake p, nStakeTime p) (ns_setStakeSeen s) else ns_setStakeSeen s"])
      (use bit assms(2,3) mod db(1-4) in \<open>unfold AddToBlockIndex_def Let_def p0(1) list.sel mod prod.case fst_conv,
        cases "ne_commit_index E"; simp add: p_def [symmetric]\<close>)
qed

lemma AddToBlockIndex_step:
  assumes "chain_ok (ce_bn (ne_check E)) s" "AddToBlockIndex E nFile nBlockPos proof b s = (Inr r, b', s')"
  shows "s' = s \<or> chain_ok (ce_bn (ne_check E)) s' \<and> ns_mapBlockIndex s (block_hash E b) = None
    \<and> (\<exists>p. ns_mapBlockIndex s' = (ns_mapBlockIndex s)(block_hash E b \<mapsto> p # ns_best s)
        \<and> (ns_best s' = ns_best s \<or> ns_best s' = p # ns_best s \<and> ns_nBestChainTrust s < nChainTrust p))"
proof (cases "ns_mapBlockIndex s (block_hash E b) = None \<and> hashPrevBlock b = ns_hashBestChain s")
  case False
  then show ?thesis using assms(2) by (auto simp: AddToBlockIndex_def Let_def split: if_splits)
next
  case True
  let ?L = "ce_bn (ne_check E)" and ?h = "block_hash E b"
  let ?computed = "fst (ComputeNextStakeModifier (ce_hash (ne_check E)) (\<lambda>h. map_option hd (ns_mapBlockIndex s h)) (ns_best s))"
  obtain p seen db2 where p: "bi_hash p = ?h" "linked ?L (p # ns_best s)"
    and db2: "activeBatch db2 = None" "\<not> fReadOnly db2" "db_ReadHashBestChain db2 = db_ReadHashBestChain (ns_db s)"
    and step: "AddToBlockIndex E nFile nBlockPos proof b s =
     (if \<not> ?computed then (Inr False, b, s)
      else let s = s\<lparr>ns_mapBlockIndex := (ns_mapBlockIndex s)(?h \<mapsto> p # ns_best s), ns_setStakeSeen := seen\<rparr> in
        if \<not> ne_commit_index E then (Inr False, b, close_db (s\<lparr>ns_db := ns_db s\<rparr>))
        else if nChainTrust p > ns_nBestChainTrust s then
          (case SetBestChain E b (p # ns_best s) (s\<lparr>ns_db := db2\<rparr>) of
             (r, c, b', s) \<Rightarrow> (r, b', close_db (s\<lparr>ns_mapBlockIndex := (ns_mapBlockIndex s)(?h \<mapsto> c)\<rparr>)))
        else (Inr True, b, close_db (s\<lparr>ns_db := db2\<rparr>)))"
    using AddToBlockIndex_eval [OF assms(1)] True by blast
  define mp where "mp = (ns_mapBlockIndex s)(?h \<mapsto> p # ns_best s)"
  note step = step [folded mp_def]
  have closed: "activeBatch (ns_db s) = None" "\<not> fReadOnly (ns_db s)" using assms(1) by (simp_all add: chain_ok_def)
  let ?goal = "\<lambda>s'. chain_ok ?L s' \<and> (\<exists>p. ns_mapBlockIndex s' = (ns_mapBlockIndex s)(?h \<mapsto> p # ns_best s)
      \<and> (ns_best s' = ns_best s \<or> ns_best s' = p # ns_best s \<and> ns_nBestChainTrust s < nChainTrust p))"
  have keeps: "?goal (close_db (s\<lparr>ns_mapBlockIndex := mp, ns_setStakeSeen := seen, ns_db := db\<rparr>))"
    if "activeBatch db = None" "\<not> fReadOnly db" "db_ReadHashBestChain db = db_ReadHashBestChain (ns_db s)" for db
  proof -
    have d: "db\<lparr>activeBatch := None\<rparr> = db" using that(1) by (cases db) simp
    have "chain_ok ?L (close_db (s\<lparr>ns_mapBlockIndex := mp, ns_setStakeSeen := seen, ns_db := db\<rparr>))"
      by (rule chain_ok_insert [OF assms(1) _ p(2,1)])
        (use True that assms(1) in \<open>simp_all add: d mp_def close_db_def chain_ok_def\<close>)
    then show ?thesis by (auto simp: mp_def close_db_def)
  qed
  consider "\<not> ?computed" | "?computed" "\<not> ne_commit_index E" | "?computed" "ne_commit_index E" "\<not> nChainTrust p > ns_nBestChainTrust s"
    | "?computed" "ne_commit_index E" "nChainTrust p > ns_nBestChainTrust s" by blast
  then show ?thesis
  proof cases
    case 1
    then show ?thesis using assms(2) by (simp add: step)
  next
    case 2
    then have "s' = close_db (s\<lparr>ns_mapBlockIndex := mp, ns_setStakeSeen := seen, ns_db := ns_db s\<rparr>)"
      using assms(2) by (simp add: step)
    then show ?thesis using keeps [OF closed refl] True by blast
  next
    case 3
    then have "s' = close_db (s\<lparr>ns_mapBlockIndex := mp, ns_setStakeSeen := seen, ns_db := db2\<rparr>)"
      using assms(2) by (simp add: step)
    then show ?thesis using keeps [OF db2] True by blast
  next
    case 4
    obtain c s2 where sb: "SetBestChain E b (p # ns_best s) (s\<lparr>ns_mapBlockIndex := mp, ns_setStakeSeen := seen, ns_db := db2\<rparr>)
        = (Inr r, c, b', s2)" and s': "s' = close_db (s2\<lparr>ns_mapBlockIndex := (ns_mapBlockIndex s2)(?h \<mapsto> c)\<rparr>)"
      using 4 assms(2) by (auto simp: step split: prod.splits)
    have "chain_ok ?L s' \<and> ns_mapBlockIndex s' = (ns_mapBlockIndex s)(?h \<mapsto> c)
      \<and> (ns_best s' = ns_best s \<or> ns_best s' = c) \<and> (\<exists>p'. c = p' # ns_best s \<and> same_entry p' p)"
      by (rule SetBestChain_step [OF assms(1) _ p(2,1) _ refl mp_def db2 sb s']) (use True in simp_all)
    then show ?thesis using True 4 by (auto simp: same_entry_def)
  qed
qed

text \<open>The steps of the chain: blocks of any kind, added under any answers of the disk and the clocks.\<close>

inductive chain_step :: "('pk, 'sig) node_env \<Rightarrow> node \<Rightarrow> node \<Rightarrow> bool" for F :: "('pk, 'sig) node_env" where
  add: "ce_bn (ne_check (E :: ('pk, 'sig) node_env)) = ce_bn (ne_check F) \<Longrightarrow> AddToBlockIndex E nFile nBlockPos proof b s = (Inr r, b', s')
    \<Longrightarrow> chain_step F s s'"

inductive_cases chain_step_add: "chain_step F s s'"

text \<open>
  C3. The chain never reorganises. Whatever blocks are added, under any answers of the disk, the clocks
  and the checks: the best chain only grows at its end, its trust never falls, known blocks keep their
  place, every indexed block hangs on an indexed chain with heights and trust adding up, and the best
  chain on disk is the one in memory.
\<close>

theorem best_chain_only_grows:
  fixes E :: "('pk, 'sig) node_env"
  assumes "chain_ok (ce_bn (ne_check E)) s" "rtranclp (chain_step E) s s'"
  shows "chain_ok (ce_bn (ne_check E)) s' \<and> (\<exists>new. ns_best s' = new @ ns_best s)
    \<and> ns_nBestChainTrust s \<le> ns_nBestChainTrust s' \<and> ns_mapBlockIndex s \<subseteq>\<^sub>m ns_mapBlockIndex s'"
  using assms(2,1)
proof (induction rule: rtranclp_induct)
  case (step t t')
  then have IH: "chain_ok (ce_bn (ne_check E)) t" "\<exists>new. ns_best t = new @ ns_best s"
    "ns_nBestChainTrust s \<le> ns_nBestChainTrust t" "ns_mapBlockIndex s \<subseteq>\<^sub>m ns_mapBlockIndex t" by auto
  from step(2) obtain E' :: "('pk, 'sig) node_env" and nFile nBlockPos hp b r b' where bn: "ce_bn (ne_check E') = ce_bn (ne_check E)"
    and a: "AddToBlockIndex E' nFile nBlockPos hp b t = (Inr r, b', t')" by (rule chain_step_add) blast
  from AddToBlockIndex_step [OF _ a] IH(1) bn consider "t' = t"
    | p where "chain_ok (ce_bn (ne_check E)) t'" "ns_mapBlockIndex t (block_hash E' b) = None"
      "ns_mapBlockIndex t' = (ns_mapBlockIndex t)(block_hash E' b \<mapsto> p # ns_best t)"
      "ns_best t' = ns_best t \<or> ns_best t' = p # ns_best t \<and> ns_nBestChainTrust t < nChainTrust p" by auto
  then show ?case
  proof cases
    case 2
    have "ns_nBestChainTrust t \<le> ns_nBestChainTrust t'"
      using 2(1,4) IH(1) by (auto simp: chain_ok_def)
    moreover have "ns_mapBlockIndex t \<subseteq>\<^sub>m ns_mapBlockIndex t'" using 2(2,3) by (auto simp: map_le_def)
    moreover have "\<exists>new. ns_best t' = new @ ns_best s" using IH(2) 2(4) by (metis append_Cons)
    ultimately show ?thesis using 2(1) IH(3,4) by (auto intro: map_le_trans)
  qed (use IH in auto)
qed (auto simp: assms(1))

subsection \<open>Samples\<close>

definition sample_node_env :: "(bytes, bytes) node_env" where
  "sample_node_env = \<lparr>ne_check = sample_check_env, ne_script = sample_tx_env, ne_kernel = sample_kernel_env,
     ne_now = (\<lambda>_ _. 3000), ne_ibd = (\<lambda>_ _. False), ne_addrindex = True, ne_fUseFastIndex = False,
     ne_client_version = 1, ne_Hash160 = (\<lambda>_. 0), ne_nDifficulty = 1, ne_nNetworkHashPS = 1, ne_hashGenesisBlock = 1,
     ne_ok = True, ne_commit_index = True, ne_commit = True\<rparr>"

text \<open>The output of a stored transaction, spent before; the block spends it twice more, to create value.\<close>

definition spent_entry :: CTxIndex where
  "spent_entry = \<lparr>ti_pos = \<lparr>tp_nFile = 1, tp_nBlockPos = 9, tp_nTxPos = 90\<rparr>,
     vSpent = [\<lparr>tp_nFile = 1, tp_nBlockPos = 700, tp_nTxPos = 790\<rparr>]\<rparr>"

definition spent_store :: CTxDB where
  "spent_store = db_put (tx_key 7) (ser_CTxIndex 1 spent_entry) empty_db"

lemma spent_store_view: "tx_view spent_store 7 = Some spent_entry"
  unfolding spent_store_def by (subst tx_view_put) (simp_all add: int32_def small_def MAX_SIZE_def spent_entry_def)

lemma stray_spends_stored: "\<forall>tx\<in>set (vtx stray_block). spends_stored (tx_view spent_store) tx"
  using stray_kinds spent_store_view
  by (simp add: stray_block_def spends_stored_def)
    (simp add: prevs_stored_def sample_tx_def stray_coinstake_def spent_entry_def mempool_pos_def GetValueOut_def
      MoneyRange_def MAX_MONEY_def COIN_def)

theorem ConnectBlock_never_refuses_witness:
  "fst (ConnectBlock sample_node_env CTxMemPool_new CBlockIndex_new True stray_block [CBlockIndex_new] spent_store empty_cache) \<noteq> Inr False"
proof (rule ConnectBlock_never_refuses)
  show "writable spent_store" by (simp add: writable_def spent_store_def db_put_def empty_db_def)
  have "block_valid sample_check_env False False False stray_block"
    using stray_block_valid(1) by (simp add: block_valid_def)
  then show "fst (CheckBlock (ne_check sample_node_env) (\<not> True) (\<not> True) False stray_block)"
    using CheckBlock_accepts [of sample_check_env stray_block False False False] stray_block_valid(3) ref_lib_ok
    by (simp add: sample_node_env_def) (simp add: sample_check_env_def)
qed (use stray_spends_stored stray_block_valid(3) in \<open>simp_all add: CBlockIndex_new_def\<close>)

text \<open>A node that knows one block, and a block without transactions on top of it.\<close>

definition sample_genesis :: CBlockIndex where
  "sample_genesis = CBlockIndex_new\<lparr>nFlags := 4\<rparr>"

definition sample_node :: node where
  "sample_node = \<lparr>ns_db = \<lparr>pdb = [best_key \<mapsto> WRITEDATA 32 (0 :: uint256)], activeBatch = None, fReadOnly = False\<rparr>,
     ns_best = [sample_genesis], ns_hashBestChain = 0, ns_mapBlockIndex = [0 \<mapsto> [sample_genesis]],
     ns_pool = CTxMemPool_new, ns_cache = empty_cache, ns_genesis = True, ns_nBestChainTrust = 0, ns_nBestHeight = 0,
     ns_setStakeSeen = {}\<rparr>"

definition bare_block :: CBlock where
  "bare_block = CBlock_SetNull\<lparr>nBits := 0x03123456, b_nTime := 2000\<rparr>"

lemma bare_block_refused: "\<exists>b'. CheckBlock sample_check_env pow mr sig bare_block = (False, b')"
  by (simp add: CheckBlock_def bare_block_def CBlock_DoS_def CBlock_SetNull_def)

lemma bare_block_connect:
  "\<exists>b1. ConnectBlock sample_node_env pool best J bare_block c db cache = (Inr False, db, hd c, b1, cache)"
  using bare_block_refused [of "\<not> J" "\<not> J" False] by (auto simp: ConnectBlock_def sample_node_env_def)

theorem SetBestChain_ignores_ConnectBlock_witness:
  "\<exists>b1 s'. SetBestChain sample_node_env bare_block [sample_genesis, sample_genesis] sample_node
      = (Inr True, [sample_genesis, sample_genesis], b1, s')
    \<and> ns_best s' = [sample_genesis, sample_genesis] \<and> \<not> fst (CheckBlock sample_check_env True True False bare_block)"
proof -
  let ?c = "[sample_genesis, sample_genesis]"
  obtain b1 where "ConnectBlock sample_node_env (ns_pool sample_node) (hd (ns_best sample_node)) False bare_block ?c
      ((ns_db sample_node)\<lparr>activeBatch := Some []\<rparr>) (ns_cache sample_node)
    = (Inr False, (ns_db sample_node)\<lparr>activeBatch := Some []\<rparr>, hd ?c, b1, ns_cache sample_node)"
    using bare_block_connect by blast
  from SetBestChain_ignores_ConnectBlock [OF _ _ _ _ _ _ this]
  have "\<exists>s'. SetBestChain sample_node_env bare_block ?c sample_node = (Inr True, hd ?c # tl ?c, b1, s') \<and> ns_best s' = hd ?c # tl ?c"
    by (auto simp: bare_block_def CBlock_SetNull_def sample_node_def sample_node_env_def)
  then show ?thesis using bare_block_refused [of True True False] by auto
qed

lemma bare_trust: "bi_nBits p = 0x03123456 \<Longrightarrow> 0 < GetBlockTrust ref_lib p"
proof -
  assume "bi_nBits p = 0x03123456"
  then have "GetBlockTrust ref_lib p = GetBlockTrust ref_lib (CBlockIndex_new\<lparr>bi_nBits := 0x03123456\<rparr>)"
    by (simp add: GetBlockTrust_def)
  then show ?thesis using GetBlockTrust_antitone_witness by (simp add: word_less_def)
qed

lemma sample_node_ok: "chain_ok ref_lib sample_node"
  using best.value_Ser [of 0]
  by (auto simp: chain_ok_def entries_linked_def sample_node_def sample_genesis_def CBlockIndex_new_def
      db_ReadHashBestChain_def db_Read_view GeneratedStakeModifier_def split: if_splits)

lemma bare_block_added:
  "\<exists>b' s'. AddToBlockIndex sample_node_env 1 2 3 bare_block sample_node = (Inr True, b', s')
    \<and> length (ns_best s') = 2"
proof -
  have h: "block_hash sample_node_env bare_block = 80"
    by (simp add: block_hash_def sample_node_env_def sample_check_env_def CBlock_GetHash_def ser_header_def ser_int32_def
        length_WRITEDATA)
  have bits: "GetStakeEntropyBit (ce_hash (ne_check sample_node_env)) bare_block = 0"
    using h by (simp add: GetStakeEntropyBit_def block_hash_def)
  have modifier: "ComputeNextStakeModifier hash m [sample_genesis] = (True, 0, False)" for hash m
    by (simp add: ComputeNextStakeModifier_def GeneratedStakeModifier_def sample_genesis_def CBlockIndex_new_def)
  obtain p where p: "new_entry sample_node_env 1 2 3 bare_block sample_node = p # [sample_genesis]"
    "nChainTrust p = GetBlockTrust ref_lib p" "bi_nBits p = 0x03123456"
    using bits by (simp add: new_entry_def Let_def SetStakeEntropyBit_def sample_node_def GetBlockTrust_def
        sample_genesis_def CBlockIndex_of_block_def CBlockIndex_new_def bare_block_def CBlock_SetNull_def sample_node_env_def
        sample_check_env_def CBlock_IsProofOfStake_def)
  define p1 where "p1 = SetStakeModifier 0 False p"
  have trust: "ns_nBestChainTrust sample_node < nChainTrust p1"
    using bare_trust [OF p(3)] p(2) by (simp add: p1_def SetStakeModifier_def sample_node_def)
  have closed: "activeBatch (ns_db sample_node) = None" "\<not> fReadOnly (ns_db sample_node)" by (simp_all add: sample_node_def)
  obtain db1 db2 where db: "TxnBegin (ns_db sample_node) = Some (True, (ns_db sample_node)\<lparr>activeBatch := Some []\<rparr>)"
    "write_index sample_node_env (CDiskBlockIndex_of [p1, sample_genesis] None) ((ns_db sample_node)\<lparr>activeBatch := Some []\<rparr>) = Some (True, db1)"
    "TxnCommit True db1 = Some (True, db2)" "activeBatch db2 = None" "\<not> fReadOnly db2"
    using index_transaction [OF closed, of sample_node_env "CDiskBlockIndex_of [p1, sample_genesis] None"] by blast
  define s where "s = sample_node\<lparr>ns_mapBlockIndex := (ns_mapBlockIndex sample_node)(80 \<mapsto> [p1, sample_genesis]),
    ns_setStakeSeen := (if IsProofOfStake p1 then insert (prevoutStake p1, nStakeTime p1) (ns_setStakeSeen sample_node)
                        else ns_setStakeSeen sample_node), ns_db := db2\<rparr>"
  obtain b1 where "ConnectBlock sample_node_env (ns_pool s) (hd (ns_best s)) False bare_block [p1, sample_genesis]
      ((ns_db s)\<lparr>activeBatch := Some []\<rparr>) (ns_cache s)
    = (Inr False, (ns_db s)\<lparr>activeBatch := Some []\<rparr>, hd [p1, sample_genesis], b1, ns_cache s)"
    using bare_block_connect by blast
  from SetBestChain_accepts [OF _ _ _ _ _ _ this] obtain s' where
    s': "SetBestChain sample_node_env bare_block [p1, sample_genesis] s = (Inr True, [p1, sample_genesis], b1, s')"
    "ns_best s' = [p1, sample_genesis]"
    using db(4,5) by (auto simp: s_def bare_block_def CBlock_SetNull_def sample_node_def sample_node_env_def)
  have "ne_commit_index sample_node_env" "hashPrevBlock bare_block = ns_hashBestChain sample_node"
    "ns_mapBlockIndex sample_node 80 = None"
    by (simp_all add: sample_node_env_def bare_block_def CBlock_SetNull_def sample_node_def)
  then have "AddToBlockIndex sample_node_env 1 2 3 bare_block sample_node = (Inr True, b1,
      close_db (s'\<lparr>ns_mapBlockIndex := (ns_mapBlockIndex s')(80 \<mapsto> [p1, sample_genesis])\<rparr>))"
    using h bits modifier trust db(1-3) s'(1)
    unfolding AddToBlockIndex_def Let_def p(1) list.sel h modifier prod.case p1_def [symmetric] s_def
    by simp
  then show ?thesis using s'(2) by (simp add: close_db_def)
qed

theorem best_chain_only_grows_witness:
  "\<exists>s'. rtranclp (chain_step sample_node_env) sample_node s' \<and> length (ns_best s') = 2
     \<and> chain_ok ref_lib s' \<and> (\<exists>new. ns_best s' = new @ ns_best sample_node)"
proof -
  obtain b' s' where s': "AddToBlockIndex sample_node_env 1 2 3 bare_block sample_node = (Inr True, b', s')"
    "length (ns_best s') = 2" using bare_block_added by blast
  then have steps: "rtranclp (chain_step sample_node_env) sample_node s'"
    by (intro r_into_rtranclp chain_step.add) simp
  have "ce_bn (ne_check sample_node_env) = ref_lib" by (simp add: sample_node_env_def sample_check_env_def)
  then show ?thesis using best_chain_only_grows [OF _ steps] steps s'(2) sample_node_ok by auto
qed

end
