(* ===== verification/Accept_Block.thy ===== *)
theory Accept_Block imports Chain_State begin

text \<open>
  The checkpoints (\<open>src/src/checkpoints.cpp\<close>) and \<open>AcceptBlock\<close> (\<open>src/src/main.cpp\<close>), which decides whether a
  received block goes to disk and into the index. Messages to other nodes, sleeps and the relaying of the
  inventory are left out. \<open>CheckBlock\<close> is not part of it.
\<close>

unbundle bit_operations_syntax

subsection \<open>Checkpoints\<close>

definition nCheckpointSpan :: int where "nCheckpointSpan = 5000"

type_synonym MapCheckpoints = "(int \<times> uint256) list"

definition mapCheckpoints :: "bool \<Rightarrow> MapCheckpoints" where
  "mapCheckpoints TestNet = (if TestNet then [] else
     [(0, 0x0000c2caef2570ac63eb9cc1bc71543b9d5c8b76cbc11ce59ee35abdaf1dc03b),
      (1, 0xe9cad4ebd61b705b03749b353e0085b55398409aa6f8d38edfc8c6fcccad6ba9)])"

text \<open>\<open>past_end\<close> is what the code reads through the iterator at the end of the map.\<close>

definition CheckHardened :: "uint256 \<Rightarrow> MapCheckpoints \<Rightarrow> int \<Rightarrow> uint256 \<Rightarrow> bool" where
  "CheckHardened past_end checkpoints height h =
     (let second = (case map_of checkpoints height of None \<Rightarrow> past_end | Some x \<Rightarrow> x)
      in if second \<noteq> h then True else h = second)"

definition GetTotalBlocksEstimate :: "MapCheckpoints \<Rightarrow> int" where
  "GetTotalBlocksEstimate checkpoints = (if checkpoints = [] then 0 else fst (last checkpoints))"

fun last_checkpoint :: "(uint256 \<Rightarrow> chain option) \<Rightarrow> MapCheckpoints \<Rightarrow> chain option" where
  "last_checkpoint mapBlockIndex [] = None"
| "last_checkpoint mapBlockIndex ((n, h) # cps) = (case mapBlockIndex h of Some c \<Rightarrow> Some c | None \<Rightarrow> last_checkpoint mapBlockIndex cps)"

definition GetLastCheckpoint :: "(uint256 \<Rightarrow> chain option) \<Rightarrow> MapCheckpoints \<Rightarrow> chain option" where
  "GetLastCheckpoint mapBlockIndex checkpoints = last_checkpoint mapBlockIndex (rev checkpoints)"

fun sync_checkpoint :: "int \<Rightarrow> chain \<Rightarrow> chain" where
  "sync_checkpoint best_height (p # q # c) =
     (if nHeight p + nCheckpointSpan > best_height then sync_checkpoint best_height (q # c) else p # q # c)"
| "sync_checkpoint best_height c = c"

definition AutoSelectSyncCheckpoint :: "chain \<Rightarrow> chain" where
  "AutoSelectSyncCheckpoint pindexBest = sync_checkpoint (nHeight (hd pindexBest)) pindexBest"

definition CheckSync :: "chain \<Rightarrow> int \<Rightarrow> bool" where
  "CheckSync pindexBest height = (if height \<le> nHeight (hd (AutoSelectSyncCheckpoint pindexBest)) then False else True)"

subsection \<open>Accepting a block\<close>

definition LastPOWBlock :: "bool \<Rightarrow> int" where "LastPOWBlock TestNet = (if TestNet then 5184000 else 75000000)"
definition POSStartBlock :: int where "POSStartBlock = 101"
definition BLOCK_CURRENT_VERSION :: int where "BLOCK_CURRENT_VERSION = 7"

text \<open>The blocks whose target is not compared.\<close>

definition target_exceptions :: "uint256 list" where
  "target_exceptions =
     [0x474619e0a58ec88c8e2516f8232064881750e87acac3a416d65b99bd61246968,
      0x4f3dd45d3de3737d60da46cff2d36df0002b97c505cdac6756d2d88561840b63,
      0x274996cec47b3f3e6cd48c8f0b39c32310dd7ddc8328ae37762be956b9031024]"

record accept_env =
  ae_TestNet :: bool
  ae_past_end :: uint256
  ae_adjustedTime :: int
  ae_disk_space :: bool
  ae_fRequestShutdown :: bool
  ae_WriteToDisk :: "CBlock \<Rightarrow> (u32 \<times> u32) option"

text \<open>The test of the coinbase: its script starts with the height.\<close>

definition coinbase_height :: "bn_lib \<Rightarrow> CBlock \<Rightarrow> int \<Rightarrow> bool" where
  "coinbase_height L b height =
     (let expect = push_int64 (CBigNum_getvch L) height; s = scriptSig (vin (vtx b ! 0) ! 0) in
      if length s < length expect \<or> take (length expect) s \<noteq> expect then False else True)"

text \<open>The proof of a block of stake; it is only recorded, a failure is not followed.\<close>

definition stake_proof ::
  "('pk, 'sig) node_env \<Rightarrow> CBlockIndex \<Rightarrow> CBlock \<Rightarrow> node \<Rightarrow> connect_error + uint256 \<times> CBlock \<times> node" where
  "stake_proof E pindexPrev b s =
     (case CheckProofOfStake ((ne_kernel E)\<lparr>ke_db := ns_db s, ke_pindexBest := hd (ns_best s)\<rparr>)
             pindexPrev (vtx b ! 1) (nBits b) (ns_cache s) of
        (Inl e, tx, cache) \<Rightarrow> Inl e
      | (Inr (ok, proofs), tx, cache) \<Rightarrow>
          Inr (case proofs of None \<Rightarrow> 0 | Some (h, target) \<Rightarrow> h,
               b\<lparr>vtx := (vtx b)[1 := tx]\<rparr>, s\<lparr>ns_cache := cache\<rparr>))"

text \<open>From the check of the synchronised checkpoint to the end.\<close>

definition accept_store ::
  "('pk, 'sig) node_env \<Rightarrow> accept_env \<Rightarrow> int \<Rightarrow> uint256 \<Rightarrow> CBlock \<Rightarrow> node \<Rightarrow> (connect_error + bool) \<times> CBlock \<times> node" where
  "accept_store E A height proof_hash b s =
     (if \<not> CheckSync (ns_best s) height then (Inr False, b, s)
      else if vin (vtx b ! 0) = [] then (Inl OutOfRange, b, s)
      else if \<not> coinbase_height (ce_bn (ne_check E)) b height then (Inr False, snd (CBlock_DoS 100 False b), s)
      else if \<not> ae_disk_space A then (Inr False, b, s)
      else if ae_fRequestShutdown A then (Inr False, b, s)
      else case ae_WriteToDisk A b of
        None \<Rightarrow> (Inr False, b, s)
      | Some (nFile, nBlockPos) \<Rightarrow> AddToBlockIndex E nFile nBlockPos proof_hash b s)"

definition AcceptBlock ::
  "('pk, 'sig) node_env \<Rightarrow> accept_env \<Rightarrow> CBlock \<Rightarrow> node \<Rightarrow> (connect_error + bool) \<times> CBlock \<times> node" where
  "AcceptBlock E A b s =
     (let DoS = \<lambda>n. (Inr False, snd (CBlock_DoS n False b), s); h = block_hash E b in
      if b_nVersion b < BLOCK_CURRENT_VERSION \<or> b_nVersion b > BLOCK_CURRENT_VERSION then DoS 100
      else if ns_mapBlockIndex s h \<noteq> None then (Inr False, b, s)
      else case ns_mapBlockIndex s (hashPrevBlock b) of
        None \<Rightarrow> (Inr False, b, s)
      | Some c \<Rightarrow>
          if hashPrevBlock b \<noteq> ns_hashBestChain s then (Inr False, b, s)
          else
            let height = nHeight (hd c) + 1; stake = CBlock_IsProofOfStake b; time = CBlock_GetBlockTime b;
                proof_hash = (if CBlock_IsProofOfWork b then CBlock_GetPoWHash (ce_scrypt (ne_check E)) b else 0)
            in if CBlock_IsProofOfWork b \<and> height > LastPOWBlock (ae_TestNet A) then DoS 100
            else if stake \<and> height < POSStartBlock then DoS 100
            else if vtx b = [] then (Inl OutOfRange, b, s)
            else if time > FutureDrift (uint (nTime (vtx b ! 0))) \<and> stake then DoS 50
            else if stake \<and> \<not> CheckCoinStakeTimestamp height time (uint (nTime (vtx b ! 1))) then DoS 50
            else if Some (nBits b) \<noteq> GetNextTargetRequired (ce_bn (ne_check E)) c stake \<and> h \<notin> set target_exceptions then DoS 100
            else if time \<le> GetPastTimeLimit (hd c) \<or> FutureDrift time < GetBlockTime (hd c) then (Inr False, b, s)
            else if \<not> list_all (\<lambda>tx. IsFinalTx (ns_nBestHeight s) (ae_adjustedTime A) tx height time) (vtx b) then DoS 10
            else if \<not> CheckHardened (ae_past_end A) (mapCheckpoints (ae_TestNet A)) height h then DoS 100
            else if stake then
              (case stake_proof E (hd c) b s of
                 Inl e \<Rightarrow> (Inl e, b, s)
               | Inr (h, b, s) \<Rightarrow> accept_store E A height h b s)
            else accept_store E A height proof_hash b s)"

subsection \<open>Checkpoints do not restrict\<close>

lemma CheckHardened_accepts: "CheckHardened past_end cps height h"
  by (auto simp: CheckHardened_def Let_def)

lemma linked_heights: "linked L c \<Longrightarrow> p \<in> set c \<Longrightarrow> nHeight p \<le> nHeight (hd c)"
  by (induction L c arbitrary: p rule: linked.induct) fastforce+

lemma sync_checkpoint_suffix: "c \<noteq> [] \<Longrightarrow> \<exists>xs. c = xs @ sync_checkpoint n c \<and> sync_checkpoint n c \<noteq> []"
proof (induction n c rule: sync_checkpoint.induct)
  case (1 n p q c)
  show ?case
  proof (cases "nHeight p + nCheckpointSpan > n")
    case True
    then obtain xs where "q # c = xs @ sync_checkpoint n (q # c)" "sync_checkpoint n (q # c) \<noteq> []" using 1 by auto
    then show ?thesis using True by (intro exI [of _ "p # xs"]) simp
  qed simp
qed auto

lemma CheckSync_next:
  assumes "linked L c" "height > nHeight (hd c)"
  shows "CheckSync c height"
proof -
  have "c \<noteq> []" using assms(1) by (rule linked_not_Nil)
  then obtain xs where c: "c = xs @ sync_checkpoint (nHeight (hd c)) c" "sync_checkpoint (nHeight (hd c)) c \<noteq> []"
    using sync_checkpoint_suffix by blast
  then have "hd (sync_checkpoint (nHeight (hd c)) c) \<in> set c" by (metis UnCI hd_in_set set_append)
  then show ?thesis using linked_heights [OF assms(1)] assms(2)
    by (fastforce simp: CheckSync_def AutoSelectSyncCheckpoint_def)
qed

subsection \<open>The modifier of the next block\<close>

lemma entries_linked_suffix:
  assumes "entries_linked L m"
  shows "m h = Some (xs @ d) \<Longrightarrow> d \<noteq> [] \<Longrightarrow> m (bi_hash (hd d)) = Some d"
proof (induction xs arbitrary: h)
  case Nil
  then have "bi_hash (hd d) = h" using assms unfolding entries_linked_def by fastforce
  then show ?case using Nil by simp
next
  case (Cons x xs)
  then have "m (bi_hash (hd (xs @ d))) = Some (xs @ d)" using assms unfolding entries_linked_def by fastforce
  then show ?case using Cons by blast
qed

lemma entries_linked_distinct:
  assumes "entries_linked L m"
  shows "m h = Some (xs @ d) \<Longrightarrow> distinct (map bi_hash d)"
proof (induction d arbitrary: xs)
  case (Cons p d)
  have "bi_hash p \<notin> bi_hash ` set d"
  proof
    assume "bi_hash p \<in> bi_hash ` set d"
    then obtain q ys zs where d: "d = ys @ q # zs" "bi_hash q = bi_hash p" by (metis imageE split_list)
    have "m (bi_hash q) = Some (q # zs)"
      using entries_linked_suffix [OF assms, of h "xs @ p # ys" "q # zs"] Cons.prems d by simp
    moreover have "m (bi_hash p) = Some (p # d)" using entries_linked_suffix [OF assms Cons.prems] by simp
    ultimately show False using d by simp
  qed
  then show ?case using Cons.IH [of "xs @ [p]"] Cons.prems by simp
qed simp

lemma chain_ok_indexed:
  assumes "chain_ok L s"
  shows "chain_indexed (\<lambda>h. map_option hd (ns_mapBlockIndex s h)) (ns_best s)"
proof -
  have m: "entries_linked L (ns_mapBlockIndex s)" "ns_mapBlockIndex s (ns_hashBestChain s) = Some ([] @ ns_best s)"
    using assms by (simp_all add: chain_ok_def)
  have "map_option hd (ns_mapBlockIndex s (bi_hash p)) = Some p" if mem: "p \<in> set (ns_best s)" for p
  proof -
    obtain ys zs where "ns_best s = ys @ p # zs" using split_list [OF mem] by blast
    with m(2) have "ns_mapBlockIndex s (ns_hashBestChain s) = Some (ys @ p # zs)" by (simp only: append_Nil)
    from entries_linked_suffix [OF m(1) this] show ?thesis by simp
  qed
  moreover have "ns_best s \<noteq> []" using m linked_not_Nil unfolding entries_linked_def by fastforce
  ultimately show ?thesis using assms entries_linked_distinct [OF m]
    by (simp add: chain_indexed_def chain_ok_def)
qed

lemma modifier_computed:
  assumes "chain_ok L s"
  shows "fst (ComputeNextStakeModifier hash (\<lambda>h. map_option hd (ns_mapBlockIndex s h)) (ns_best s))"
proof -
  obtain m g where "ComputeNextStakeModifier hash (\<lambda>h. map_option hd (ns_mapBlockIndex s h)) (ns_best s) = (True, m, g)"
    using ComputeNextStakeModifier_bits [OF chain_ok_indexed [OF assms], of hash] by blast
  then show ?thesis by simp
qed

text \<open>With a disk that answers, adding a block on top of the best one never answers false.\<close>

lemma AddToBlockIndex_true:
  assumes "chain_ok (ce_bn (ne_check E)) s" "ns_mapBlockIndex s (block_hash E b) = None" "hashPrevBlock b = ns_hashBestChain s"
    and "ne_commit_index E" "ne_commit E" "AddToBlockIndex E nFile nBlockPos hp b s = (Inr r, b', s')"
  shows "r \<and> ns_mapBlockIndex s' (block_hash E b) \<noteq> None"
proof (rule AddToBlockIndex_eval [OF assms(1-3), of nFile nBlockPos hp])
  fix p seen db2
  let ?s1 = "s\<lparr>ns_mapBlockIndex := (ns_mapBlockIndex s)(block_hash E b \<mapsto> p # ns_best s), ns_setStakeSeen := seen, ns_db := db2\<rparr>"
  assume db2: "activeBatch db2 = None" "\<not> fReadOnly db2"
    and eval: "AddToBlockIndex E nFile nBlockPos hp b s =
     (if \<not> fst (ComputeNextStakeModifier (ce_hash (ne_check E)) (\<lambda>h. map_option hd (ns_mapBlockIndex s h)) (ns_best s)) then (Inr False, b, s)
      else let s = s\<lparr>ns_mapBlockIndex := (ns_mapBlockIndex s)(block_hash E b \<mapsto> p # ns_best s), ns_setStakeSeen := seen\<rparr> in
        if \<not> ne_commit_index E then (Inr False, b, close_db (s\<lparr>ns_db := ns_db s\<rparr>))
        else if nChainTrust p > ns_nBestChainTrust s then
          (case SetBestChain E b (p # ns_best s) (s\<lparr>ns_db := db2\<rparr>) of
             (r, c, b', s) \<Rightarrow> (r, b', close_db (s\<lparr>ns_mapBlockIndex := (ns_mapBlockIndex s)(block_hash E b \<mapsto> c)\<rparr>)))
        else (Inr True, b, close_db (s\<lparr>ns_db := db2\<rparr>)))"
  have ne: "ns_best s \<noteq> []" "ns_genesis s" using chain_ok_indexed [OF assms(1)] assms(1) by (simp_all add: chain_indexed_def chain_ok_def)
  obtain res db1 p' b1 cache where con: "ConnectBlock E (ns_pool ?s1) (hd (ns_best ?s1)) False b (p # ns_best s)
      ((ns_db ?s1)\<lparr>activeBatch := Some []\<rparr>) (ns_cache ?s1) = (res, db1, p', b1, cache)" by (metis prod_cases5)
  show ?thesis
  proof (cases "nChainTrust p > ns_nBestChainTrust s")
    case True
    show ?thesis
    proof (cases res)
      case (Inl e)
      then have "fst (SetBestChain E b (p # ns_best s) ?s1) = Inl e"
        using con assms(3) ne db2 by (simp add: SetBestChain_def SetBestChainInner_def TxnBegin_def)
      then show ?thesis using assms(4,6) True modifier_computed [OF assms(1)] unfolding eval
        by (auto split: prod.splits)
    next
      case (Inr ok)
      obtain s2 where "SetBestChain E b (p # ns_best s) ?s1 = (Inr True, p' # ns_best s, b1, s2)"
        using SetBestChain_accepts [OF _ _ _ assms(5) _ _ con [unfolded Inr]] assms(3) ne db2 by auto
      then show ?thesis using assms(4,6) True modifier_computed [OF assms(1)] unfolding eval by (auto simp: close_db_def)
    qed
  next
    case False
    then show ?thesis using assms(4,6) modifier_computed [OF assms(1)] unfolding eval by (auto simp: close_db_def)
  qed
qed

subsection \<open>What is accepted\<close>

text \<open>
  The rules for a block on top of the best one: its version, its height, its time, its target, the locks
  of its transactions and the height in its coinbase. Nothing is asked of the work behind its hash, the
  Merkle root, the transactions or the signature.
\<close>

definition acceptable :: "('pk, 'sig) node_env \<Rightarrow> accept_env \<Rightarrow> CBlock \<Rightarrow> node \<Rightarrow> bool" where
  "acceptable E A b s \<longleftrightarrow>
     b_nVersion b = 7 \<and> ns_mapBlockIndex s (block_hash E b) = None \<and> hashPrevBlock b = ns_hashBestChain s
     \<and> (let prev = hd (ns_best s); height = nHeight prev + 1; time = uint (b_nTime b) in
         (if CBlock_IsProofOfStake b
          then height \<ge> 101 \<and> time \<le> uint (nTime (vtx b ! 0)) + 300 \<and> uint (nTime (vtx b ! 1)) = time \<and> time AND 15 = 0
          else height \<le> LastPOWBlock (ae_TestNet A))
         \<and> (GetNextTargetRequired (ce_bn (ne_check E)) (ns_best s) (CBlock_IsProofOfStake b) = Some (nBits b)
            \<or> block_hash E b \<in> set target_exceptions)
         \<and> GetBlockTime prev < time + 300
         \<and> list_all (\<lambda>tx. IsFinalTx (ns_nBestHeight s) (ae_adjustedTime A) tx height time) (vtx b)
         \<and> (\<exists>rest. scriptSig (vin (vtx b ! 0) ! 0) = push_int64 (CBigNum_getvch (ce_bn (ne_check E))) height @ rest))"

definition disk_answers :: "('pk, 'sig) node_env \<Rightarrow> accept_env \<Rightarrow> bool" where
  "disk_answers E A \<longleftrightarrow> ae_disk_space A \<and> \<not> ae_fRequestShutdown A \<and> ne_commit_index E \<and> ne_commit E
     \<and> (\<forall>b. ae_WriteToDisk A b \<noteq> None)"

lemma coinbase_height_iff:
  "coinbase_height L b height \<longleftrightarrow>
     (\<exists>rest. scriptSig (vin (vtx b ! 0) ! 0) = push_int64 (CBigNum_getvch L) height @ rest)"
proof -
  have "\<not> (length s < length e \<or> take (length e) s \<noteq> e) \<longleftrightarrow> (\<exists>rest. s = e @ rest)" for e s :: bytes
    by (metis append_eq_conv_conj append_take_drop_id le_add1 length_append not_less take_all_iff nat_le_linear)
  from this [of "scriptSig (vin (vtx b ! 0) ! 0)" "push_int64 (CBigNum_getvch L) height"] show ?thesis
    unfolding coinbase_height_def Let_def by argo
qed

lemma accept_store_iff:
  assumes "chain_ok (ce_bn (ne_check E)) s" "ns_mapBlockIndex s (block_hash E b) = None" "hashPrevBlock b = ns_hashBestChain s"
    and "disk_answers E A" "accept_store E A (nHeight (hd (ns_best s)) + 1) hp b s = (Inr r, b', s')"
  shows "(r \<longleftrightarrow> coinbase_height (ce_bn (ne_check E)) b (nHeight (hd (ns_best s)) + 1))
    \<and> (r \<longrightarrow> (\<exists>p. ns_mapBlockIndex s' (block_hash E b) = Some (p # ns_best s)))"
proof -
  have "linked (ce_bn (ne_check E)) (ns_best s)" using assms(1) unfolding chain_ok_def entries_linked_def by blast
  then have sync: "CheckSync (ns_best s) (nHeight (hd (ns_best s)) + 1)" by (rule CheckSync_next) simp
  have "ae_WriteToDisk A b \<noteq> None" using assms(4) unfolding disk_answers_def by blast
  then obtain f pos where w: "ae_WriteToDisk A b = Some (f, pos)" by fastforce
  show ?thesis
  proof (cases "coinbase_height (ce_bn (ne_check E)) b (nHeight (hd (ns_best s)) + 1)")
    case True
    then have add: "AddToBlockIndex E f pos hp b s = (Inr r, b', s')"
      using assms(4,5) sync w by (auto simp: accept_store_def disk_answers_def split: if_splits)
    have r: "r" "ns_mapBlockIndex s' (block_hash E b) \<noteq> None"
      using AddToBlockIndex_true [OF assms(1-3) _ _ add] assms(4) by (auto simp: disk_answers_def)
    moreover from r(2) have "s' \<noteq> s" using assms(2) by auto
    ultimately show ?thesis using AddToBlockIndex_step [OF assms(1) add] True by auto
  next
    case False
    then show ?thesis using assms(5) sync by (auto simp: accept_store_def split: if_splits)
  qed
qed

lemma stake_proof_keeps:
  assumes "stake_proof E q b s = Inr (hp, b1, s1)"
  shows "\<exists>cache tx. s1 = s\<lparr>ns_cache := cache\<rparr> \<and> b1 = b\<lparr>vtx := (vtx b)[1 := tx]\<rparr>"
  using assms by (auto simp: stake_proof_def split: prod.splits sum.splits)

lemma block_hash_vtx: "block_hash E (b\<lparr>vtx := txs\<rparr>) = block_hash E b"
  by (simp add: block_hash_def CBlock_GetHash_def ser_header_def)

text \<open>The header rules in the order of the code, and in that of \<open>acceptable\<close>.\<close>

definition header_rules :: "('pk, 'sig) node_env \<Rightarrow> accept_env \<Rightarrow> CBlock \<Rightarrow> node \<Rightarrow> bool" where
  "header_rules E A b s \<longleftrightarrow>
     (let c = ns_best s; height = nHeight (hd c) + 1; stake = CBlock_IsProofOfStake b; time = CBlock_GetBlockTime b in
      \<not> (\<not> stake \<and> height > LastPOWBlock (ae_TestNet A)) \<and> \<not> (stake \<and> height < POSStartBlock)
      \<and> \<not> (time > FutureDrift (uint (nTime (vtx b ! 0))) \<and> stake)
      \<and> \<not> (stake \<and> \<not> CheckCoinStakeTimestamp height time (uint (nTime (vtx b ! 1))))
      \<and> \<not> (Some (nBits b) \<noteq> GetNextTargetRequired (ce_bn (ne_check E)) c stake \<and> block_hash E b \<notin> set target_exceptions)
      \<and> \<not> (time \<le> GetPastTimeLimit (hd c) \<or> FutureDrift time < GetBlockTime (hd c))
      \<and> list_all (\<lambda>tx. IsFinalTx (ns_nBestHeight s) (ae_adjustedTime A) tx height time) (vtx b))"

lemma acceptable_rules:
  "acceptable E A b s \<longleftrightarrow> b_nVersion b = 7 \<and> ns_mapBlockIndex s (block_hash E b) = None \<and> hashPrevBlock b = ns_hashBestChain s
     \<and> header_rules E A b s \<and> coinbase_height (ce_bn (ne_check E)) b (nHeight (hd (ns_best s)) + 1)"
  unfolding acceptable_def header_rules_def coinbase_height_iff Let_def CBlock_GetBlockTime_def FutureDrift_def
    GetPastTimeLimit_def DRIFT_def CheckCoinStakeTimestamp_def STAKE_TIMESTAMP_MASK_def POSStartBlock_def
  by (cases "CBlock_IsProofOfStake b") auto

lemma AcceptBlock_refuses:
  assumes "chain_ok (ce_bn (ne_check E)) s" "AcceptBlock E A b s = (Inr r, b', s')"
    and "\<not> (b_nVersion b = 7 \<and> ns_mapBlockIndex s (block_hash E b) = None \<and> hashPrevBlock b = ns_hashBestChain s \<and> header_rules E A b s)"
  shows "\<not> r"
proof (cases "b_nVersion b = 7 \<and> ns_mapBlockIndex s (block_hash E b) = None \<and> hashPrevBlock b = ns_hashBestChain s")
  case True
  then have best: "ns_mapBlockIndex s (hashPrevBlock b) = Some (ns_best s)" using assms(1) by (simp add: chain_ok_def)
  show ?thesis using assms(2,3) True best
    by (auto simp: AcceptBlock_def Let_def BLOCK_CURRENT_VERSION_def header_rules_def CBlock_IsProofOfWork_def CheckHardened_accepts
        split: if_splits)
next
  case False
  then show ?thesis using assms(2)
    by (auto simp: AcceptBlock_def Let_def BLOCK_CURRENT_VERSION_def split: if_splits option.splits)
qed

lemma AcceptBlock_eval:
  assumes "chain_ok (ce_bn (ne_check E)) s" "b_nVersion b = 7" "ns_mapBlockIndex s (block_hash E b) = None"
    and "hashPrevBlock b = ns_hashBestChain s" "header_rules E A b s" "vtx b \<noteq> []"
  shows "AcceptBlock E A b s =
     (let height = nHeight (hd (ns_best s)) + 1 in
      if CBlock_IsProofOfStake b
      then (case stake_proof E (hd (ns_best s)) b s of Inl e \<Rightarrow> (Inl e, b, s) | Inr (hp, b, s) \<Rightarrow> accept_store E A height hp b s)
      else accept_store E A height (if CBlock_IsProofOfWork b then CBlock_GetPoWHash (ce_scrypt (ne_check E)) b else 0) b s)"
proof -
  have "ns_mapBlockIndex s (hashPrevBlock b) = Some (ns_best s)" using assms(1,4) by (simp add: chain_ok_def)
  then show ?thesis using assms(2-6)
    by (auto simp: AcceptBlock_def Let_def BLOCK_CURRENT_VERSION_def header_rules_def CBlock_IsProofOfWork_def CheckHardened_accepts)
qed

lemma AcceptBlock_goes_on:
  assumes "chain_ok (ce_bn (ne_check E)) s" "AcceptBlock E A b s = (Inr r, b', s')"
    and "b_nVersion b = 7" "ns_mapBlockIndex s (block_hash E b) = None" "hashPrevBlock b = ns_hashBestChain s" "header_rules E A b s"
  shows "\<exists>hp b1 s1. accept_store E A (nHeight (hd (ns_best s)) + 1) hp b1 s1 = (Inr r, b', s')
    \<and> (\<exists>cache. s1 = s\<lparr>ns_cache := cache\<rparr>) \<and> (\<exists>tx. b1 = b\<lparr>vtx := (vtx b)[1 := tx]\<rparr>)"
proof -
  have best: "ns_mapBlockIndex s (hashPrevBlock b) = Some (ns_best s)" using assms(1,5) by (simp add: chain_ok_def)
  have same: "\<exists>cache. s = s\<lparr>ns_cache := cache\<rparr>" "\<exists>tx. b = b\<lparr>vtx := (vtx b)[1 := tx]\<rparr>"
    by (rule exI [of _ "ns_cache s"], simp, rule exI [of _ "vtx b ! 1"], simp)
  have "vtx b \<noteq> []" using assms(2-6) best
    by (auto simp: AcceptBlock_def Let_def BLOCK_CURRENT_VERSION_def header_rules_def CBlock_IsProofOfWork_def)
  note eval = AcceptBlock_eval [OF assms(1,3-6) this]
  show ?thesis
  proof (cases "CBlock_IsProofOfStake b")
    case True
    then obtain hp b1 s1 where p: "stake_proof E (hd (ns_best s)) b s = Inr (hp, b1, s1)"
      using assms(2) unfolding eval by (cases "stake_proof E (hd (ns_best s)) b s") (auto simp: Let_def)
    then show ?thesis using stake_proof_keeps [OF p] assms(2) True unfolding eval by (auto simp: Let_def)
  next
    case False
    then show ?thesis using same assms(2) unfolding eval by (auto simp: Let_def)
  qed
qed

lemma AcceptBlock_decides:
  assumes "chain_ok (ce_bn (ne_check E)) s" "disk_answers E A" "AcceptBlock E A b s = (Inr r, b', s')"
  shows "(r \<longleftrightarrow> acceptable E A b s) \<and> (r \<longrightarrow> (\<exists>p. ns_mapBlockIndex s' (block_hash E b) = Some (p # ns_best s)))"
proof (cases "b_nVersion b = 7 \<and> ns_mapBlockIndex s (block_hash E b) = None \<and> hashPrevBlock b = ns_hashBestChain s \<and> header_rules E A b s")
  case True
  then obtain hp b1 s1 cache tx where st: "accept_store E A (nHeight (hd (ns_best s)) + 1) hp b1 s1 = (Inr r, b', s')"
    and s1: "s1 = s\<lparr>ns_cache := cache\<rparr>" and b1: "b1 = b\<lparr>vtx := (vtx b)[1 := tx]\<rparr>"
    using AcceptBlock_goes_on [OF assms(1,3)] by blast
  have "chain_ok (ce_bn (ne_check E)) s1" using assms(1) by (simp add: chain_ok_def s1)
  moreover have "coinbase_height L b1 n = coinbase_height L b n" for L n by (simp add: coinbase_height_def b1)
  ultimately show ?thesis using accept_store_iff [of E s1 b1 A hp r b' s'] True assms(2) st
    unfolding acceptable_rules by (simp add: s1 b1 block_hash_vtx)
next
  case False
  then show ?thesis using AcceptBlock_refuses [OF assms(1,3)] unfolding acceptable_rules by blast
qed

text \<open>
  C4. \<open>AcceptBlock\<close> decides by the header rules alone. When the disk answers, a block is accepted exactly when
  it has the current version, is new and on top of the best block, keeps the limits on heights, times,
  target and locks, and has the height in its coinbase. The proof of work, the kernel, the Merkle root, the
  transactions, their inputs, the block signature and the checkpoints play no part; and
  a block that is accepted is in the index, on top of the best chain.
\<close>

theorem AcceptBlock_iff:
  assumes "chain_ok (ce_bn (ne_check E)) s" "disk_answers E A" "AcceptBlock E A b s = (Inr r, b', s')"
  shows "(r \<longleftrightarrow> acceptable E A b s) \<and> (r \<longrightarrow> (\<exists>p. ns_mapBlockIndex s' (block_hash E b) = Some (p # ns_best s)))"
  using assms by (rule AcceptBlock_decides)

subsection \<open>A block that is accepted\<close>

text \<open>A block of one coinbase under a Merkle root that is not its own.\<close>

definition wrong_root_block :: "uint256 \<Rightarrow> CBlock" where
  "wrong_root_block h = CBlock_SetNull\<lparr>hashPrevBlock := h, nBits := the (GetNextTargetRequired ref_lib [sample_genesis] False), b_nTime := 2000,
     vtx := [sample_coinbase]\<rparr>"

definition sample_accept_env :: accept_env where
  "sample_accept_env = \<lparr>ae_TestNet = False, ae_past_end = 0, ae_adjustedTime = 2000, ae_disk_space = True,
     ae_fRequestShutdown = False, ae_WriteToDisk = (\<lambda>_. Some (1, 2))\<rparr>"

lemma AddToBlockIndex_answers:
  assumes "chain_ok (ce_bn (ne_check E)) s" "ns_mapBlockIndex s (block_hash E b) = None" "hashPrevBlock b = ns_hashBestChain s"
    and "ne_commit E" "\<And>sig. \<not> fst (CheckBlock (ne_check E) True True sig b)"
  shows "\<exists>r. fst (AddToBlockIndex E nFile nBlockPos hp b s) = Inr r"
proof (rule AddToBlockIndex_eval [OF assms(1-3), of nFile nBlockPos hp])
  fix p seen db2
  let ?s1 = "s\<lparr>ns_mapBlockIndex := (ns_mapBlockIndex s)(block_hash E b \<mapsto> p # ns_best s), ns_setStakeSeen := seen, ns_db := db2\<rparr>"
  assume db2: "activeBatch db2 = None" "\<not> fReadOnly db2"
    and eval: "AddToBlockIndex E nFile nBlockPos hp b s =
     (if \<not> fst (ComputeNextStakeModifier (ce_hash (ne_check E)) (\<lambda>h. map_option hd (ns_mapBlockIndex s h)) (ns_best s)) then (Inr False, b, s)
      else let s = s\<lparr>ns_mapBlockIndex := (ns_mapBlockIndex s)(block_hash E b \<mapsto> p # ns_best s), ns_setStakeSeen := seen\<rparr> in
        if \<not> ne_commit_index E then (Inr False, b, close_db (s\<lparr>ns_db := ns_db s\<rparr>))
        else if nChainTrust p > ns_nBestChainTrust s then
          (case SetBestChain E b (p # ns_best s) (s\<lparr>ns_db := db2\<rparr>) of
             (r, c, b', s) \<Rightarrow> (r, b', close_db (s\<lparr>ns_mapBlockIndex := (ns_mapBlockIndex s)(block_hash E b \<mapsto> c)\<rparr>)))
        else (Inr True, b, close_db (s\<lparr>ns_db := db2\<rparr>)))"
  have ne: "ns_best s \<noteq> []" "ns_genesis s" using chain_ok_indexed [OF assms(1)] assms(1) by (simp_all add: chain_indexed_def chain_ok_def)
  obtain b1 where "CheckBlock (ne_check E) True True False b = (False, b1)" using assms(5) [of False] by (metis prod.collapse)
  then have "ConnectBlock E (ns_pool ?s1) (hd (ns_best ?s1)) False b (p # ns_best s) ((ns_db ?s1)\<lparr>activeBatch := Some []\<rparr>) (ns_cache ?s1)
      = (Inr False, (ns_db ?s1)\<lparr>activeBatch := Some []\<rparr>, p, b1, ns_cache ?s1)"
    by (simp add: ConnectBlock_def)
  from SetBestChain_accepts [OF _ _ _ assms(4) _ _ this] obtain s2 where
    "SetBestChain E b (p # ns_best s) ?s1 = (Inr True, p # ns_best s, b1, s2)" using assms(3) ne db2 by auto
  then show ?thesis unfolding eval by (auto simp: Let_def intro: exI [of _ False] exI [of _ True])
qed

lemma wrong_root_refused: "\<not> fst (CheckBlock sample_check_env pow True sig (wrong_root_block h))"
proof
  have len: "length (ser_CBlock False (wrong_root_block h)) \<le> 30000000"
    by (simp add: ser_CBlock_def ser_header_def ser_vector_def ser_bytes_def WriteCompactSize_def wrong_root_block_def
        stray_lengths CBlock_SetNull_def ser_int32_def length_WRITEDATA)
  assume "fst (CheckBlock sample_check_env pow True sig (wrong_root_block h))"
  then have "block_valid sample_check_env pow True sig (wrong_root_block h)"
    using CheckBlock_accepts [of sample_check_env "wrong_root_block h" pow True sig] len ref_lib_ok
    by (simp add: sample_check_env_def)
  then have "hashMerkleRoot (wrong_root_block h) = merkle_root (ce_pair sample_check_env) (map (ce_GetHash sample_check_env) (vtx (wrong_root_block h)))"
    by (simp add: block_valid_def)
  then show False
    by (simp add: wrong_root_block_def CBlock_SetNull_def merkle_root.simps ce_GetHash_def sample_check_env_def CTransaction_GetHash_def
        stray_lengths)
qed

lemma AcceptBlock_answers:
  assumes "chain_ok (ce_bn (ne_check E)) s" "disk_answers E A" "acceptable E A b s"
    and "vtx b \<noteq> []" "vin (vtx b ! 0) \<noteq> []" "\<not> CBlock_IsProofOfStake b" "\<And>sig. \<not> fst (CheckBlock (ne_check E) True True sig b)"
  shows "\<exists>r b' s'. AcceptBlock E A b s = (Inr r, b', s')"
proof -
  have rules: "b_nVersion b = 7" "ns_mapBlockIndex s (block_hash E b) = None" "hashPrevBlock b = ns_hashBestChain s"
    "header_rules E A b s" "coinbase_height (ce_bn (ne_check E)) b (nHeight (hd (ns_best s)) + 1)"
    using assms(3) unfolding acceptable_rules by blast+
  have "linked (ce_bn (ne_check E)) (ns_best s)" using assms(1) unfolding chain_ok_def entries_linked_def by blast
  then have sync: "CheckSync (ns_best s) (nHeight (hd (ns_best s)) + 1)" by (rule CheckSync_next) simp
  obtain f pos where w: "ae_WriteToDisk A b = Some (f, pos)" using assms(2) unfolding disk_answers_def by fastforce
  obtain hp where "AcceptBlock E A b s = AddToBlockIndex E f pos hp b s"
    using AcceptBlock_eval [OF assms(1) rules(1-4) assms(4)] assms(2,5,6) rules(5) sync w
    by (simp add: accept_store_def Let_def disk_answers_def)
  moreover have "ne_commit E" using assms(2) by (simp add: disk_answers_def)
  ultimately show ?thesis
    using AddToBlockIndex_answers [OF assms(1) rules(2,3) _ assms(7)] by (metis prod.collapse)
qed

lemma wrong_root_shape:
  "vtx (wrong_root_block h) \<noteq> []" "vin (vtx (wrong_root_block h) ! 0) \<noteq> []" "\<not> CBlock_IsProofOfStake (wrong_root_block h)"
  by (simp_all add: wrong_root_block_def sample_coinbase_def CBlock_IsProofOfStake_def)

lemma wrong_root_acceptable: "acceptable sample_node_env sample_accept_env (wrong_root_block 0) sample_node"
proof -
  have work: "\<not> CBlock_IsProofOfStake (wrong_root_block 0)" by (simp add: wrong_root_block_def CBlock_IsProofOfStake_def)
  have h: "block_hash sample_node_env (wrong_root_block 0) = 80"
    by (simp add: block_hash_def sample_node_env_def sample_check_env_def CBlock_GetHash_def ser_header_def ser_int32_def
        length_WRITEDATA)
  have t: "GetNextTargetRequired ref_lib [sample_genesis] False = Some (nBits (wrong_root_block 0))"
    by (simp add: wrong_root_block_def GetNextTargetRequired_def Let_def)
  have f: "IsFinalTx n t sample_coinbase height time" for n t height time by (simp add: IsFinalTx_def sample_coinbase_def)
  show ?thesis unfolding acceptable_def h
    using work t f
    by (simp add: wrong_root_block_def CBlock_SetNull_def sample_node_def sample_genesis_def CBlockIndex_new_def sample_node_env_def
        sample_check_env_def sample_accept_env_def LastPOWBlock_def GetBlockTime_def push_int64_def sample_coinbase_def)
qed

theorem AcceptBlock_iff_witness:
  "fst (AcceptBlock sample_node_env sample_accept_env (wrong_root_block 0) sample_node) = Inr True
   \<and> \<not> fst (CheckBlock sample_check_env True True True (wrong_root_block 0))"
proof -
  let ?E = sample_node_env and ?A = sample_accept_env and ?b = "wrong_root_block 0" and ?s = sample_node
  have bn: "ce_bn (ne_check ?E) = ref_lib" "ne_check ?E = sample_check_env"
    by (simp_all add: sample_node_env_def sample_check_env_def)
  have ok: "chain_ok (ce_bn (ne_check ?E)) ?s" using sample_node_ok bn by simp
  have disk: "disk_answers ?E ?A" by (simp add: disk_answers_def sample_accept_env_def sample_node_env_def)
  have acc: "acceptable ?E ?A ?b ?s" by (rule wrong_root_acceptable)
  obtain r b' s' where res: "AcceptBlock ?E ?A ?b ?s = (Inr r, b', s')"
    using AcceptBlock_answers [OF ok disk acc] wrong_root_shape wrong_root_refused bn(2) by metis
  show ?thesis using AcceptBlock_iff [OF ok disk res] acc res wrong_root_refused by simp
qed

end
