(* ===== verification/Process_Block.thy ===== *)
theory Process_Block imports Accept_Block begin

text \<open>
  \<open>ProcessBlock\<close> of \<open>src/src/main.cpp\<close>: the buffer of received blocks, the search for blocks on top of
  the best one and the loop that hands them to \<open>AcceptBlock\<close>. What follows the scope of the buffer is unreachable
  and left out, as are messages to other nodes, except that they need a node to send to.
\<close>

subsection \<open>State\<close>

definition MAXIMUM_ARRAY_OF_BLOCKS :: nat where "MAXIMUM_ARRAY_OF_BLOCKS = 30"
definition SYNCH_BLOCK_BUFFER_SIZE :: nat where "SYNCH_BLOCK_BUFFER_SIZE = 3"
definition BLOCKER_END_OF_BUFFER :: int where "BLOCKER_END_OF_BUFFER = 30 - 1"

text \<open>
  The static variables that outlive a call: \<open>Block_Checker_Array\<close> as a flag, \<open>Block_Checker\<close>, \<open>Buffer_entries\<close>,
  \<open>synch_check\<close> and \<open>marked_blocks_for_processing\<close>.
\<close>

record block_buffer =
  Block_Checker_Array :: bool
  Block_Checker :: "CBlock list"
  Buffer_entries :: int
  synch_check :: int
  marked_blocks_for_processing :: "int list"

definition block_buffer_new :: block_buffer where
  "block_buffer_new = \<lparr>Block_Checker_Array = False, Block_Checker = replicate MAXIMUM_ARRAY_OF_BLOCKS CBlock_SetNull,
     Buffer_entries = 0, synch_check = 0, marked_blocks_for_processing = replicate 25 0\<rparr>"

record process_env =
  pe_GetTime :: int
  pe_fRequestShutdown :: bool
  pe_Last_known_block_height :: int

text \<open>
  \<open>NoValue\<close> is the return statement without a value, \<open>NoReturn\<close> the call that does not end; \<open>NullPointer\<close> a message to
  a node that is not there or about a block before the first, \<open>PastArray\<close> a write behind an array.
\<close>

datatype process_fault = NullPointer | PastArray | AcceptFault connect_error
datatype process_result = Answer bool | NoValue | NoReturn | Fault process_fault

subsection \<open>Receiving a block\<close>

definition prepare_buffer :: "block_buffer \<Rightarrow> block_buffer" where
  "prepare_buffer B =
     (if \<not> Block_Checker_Array B
      then B\<lparr>Block_Checker := replicate MAXIMUM_ARRAY_OF_BLOCKS CBlock_SetNull, Buffer_entries := 0, Block_Checker_Array := True\<rparr>
      else B)"

fun store_block :: "CBlock \<Rightarrow> nat \<Rightarrow> CBlock list \<Rightarrow> CBlock list option" where
  "store_block b 0 bs = None"
| "store_block b (Suc n) [] = None"
| "store_block b (Suc n) (x # bs) = (if hashPrevBlock x = 0 then Some (b # bs) else map_option ((#) x) (store_block b n bs))"

definition fill_buffer :: "CBlock \<Rightarrow> nat \<Rightarrow> block_buffer \<Rightarrow> block_buffer" where
  "fill_buffer b bufsize B =
     (case store_block b bufsize (Block_Checker B) of
        None \<Rightarrow> B
      | Some bs \<Rightarrow> B\<lparr>Block_Checker := bs, Buffer_entries := Buffer_entries B + 1\<rparr>)"

text \<open>Whether the call ends after the block has been stored; the difference of the times is unsigned.\<close>

definition wait_for_more :: "process_env \<Rightarrow> CBlockIndex \<Rightarrow> nat \<Rightarrow> bool \<Rightarrow> block_buffer \<Rightarrow> process_result option" where
  "wait_for_more P best bufsize One_Block_Mode B =
     (let block_synched_time = (word_of_int (pe_GetTime P - GetBlockTime best) :: u64) in
      if block_synched_time > 240 \<and> \<not> One_Block_Mode
      then (if Buffer_entries B < BLOCKER_END_OF_BUFFER then Some NoValue else None)
      else (if Buffer_entries B < int bufsize - 1 then Some (Answer True) else None))"

subsection \<open>Searching the buffer\<close>

text \<open>Differences of times are unsigned: a time far ahead of the best block's is far behind it, too.\<close>

definition timely :: "u32 \<Rightarrow> u32 \<Rightarrow> bool" where
  "timely best t = (if t = 0 then False else if t - best > 10000000 then (if best - t < 1000 then True else False) else True)"

text \<open>
  The counters \<open>marked_entries\<close> and \<open>block_matches\<close> are both the number of the entries of \<open>Match_Block_Map\<close>, of
  which the keys are kept.
\<close>

record block_scan =
  sc_blocks :: "CBlock list"
  Match_Block_Map :: "uint256 list"
  sc_marked :: "int list"

definition scan_block ::
  "('pk, 'sig) node_env \<Rightarrow> CBlockIndex \<Rightarrow> nat \<Rightarrow> block_scan \<Rightarrow> process_fault + block_scan" where
  "scan_block E best block_test S =
     (let b = sc_blocks S ! block_test; h = block_hash E b in
      if \<not> timely (bi_nTime best) (b_nTime b) \<or> hashPrevBlock b = 0 then Inr (S\<lparr>sc_blocks := (sc_blocks S)[block_test := CBlock_SetNull]\<rparr>)
      else if bi_hash best = hashPrevBlock b then
        (if h \<in> set (Match_Block_Map S) then Inr S
         else
           let marked_entries = length (Match_Block_Map S) + 1 in
           if marked_entries \<ge> length (sc_marked S) then Inl PastArray
           else Inr (S\<lparr>Match_Block_Map := h # Match_Block_Map S, sc_marked := (sc_marked S)[marked_entries := int block_test]\<rparr>))
      else Inr S)"

fun scan_blocks :: "('pk, 'sig) node_env \<Rightarrow> CBlockIndex \<Rightarrow> nat list \<Rightarrow> block_scan \<Rightarrow> process_fault + block_scan" where
  "scan_blocks E best [] S = Inr S"
| "scan_blocks E best (n # ns) S = (case scan_block E best n S of Inl e \<Rightarrow> Inl e | Inr S \<Rightarrow> scan_blocks E best ns S)"

subsection \<open>No block on top of the best one\<close>

text \<open>
  The loop over \<open>mapBlockIndex\<close> moves on only from an entry that is not higher than the best block; at a higher
  one it stays.
\<close>

partial_function (option) index_walk :: "int \<Rightarrow> chain list \<Rightarrow> unit option" where
  "index_walk best_height cs =
     (case cs of
        [] \<Rightarrow> Some ()
      | c # rest \<Rightarrow> if nHeight (hd c) > best_height then index_walk best_height cs else index_walk best_height rest)"

definition index_entries :: "(uint256 \<Rightarrow> chain option) \<Rightarrow> chain list" where
  "index_entries m = map (\<lambda>h. the (m h)) (sorted_list_of_set (dom m))"

definition no_match :: "block_buffer \<Rightarrow> node \<Rightarrow> process_result \<times> block_buffer \<times> node" where
  "no_match B s =
     (let entries = index_entries (ns_mapBlockIndex s); best_height = nHeight (hd (ns_best s)) in
      if int (length entries) > best_height \<and> index_walk best_height entries = None then (NoReturn, B, s)
      else
        let B = B\<lparr>synch_check := synch_check B + 1\<rparr> in
        if synch_check B > int MAXIMUM_ARRAY_OF_BLOCKS
        then (if length (ns_best s) < 3 then Fault NullPointer else Answer True, B\<lparr>Block_Checker_Array := False, synch_check := 0\<rparr>, s)
        else (Answer True, B, s))"

subsection \<open>Several blocks on top of the best one\<close>

text \<open>The blocks that are looked at are the first ones of the buffer, as many as there were matches.\<close>

definition drop_late :: "u32 \<Rightarrow> nat \<Rightarrow> CBlock list \<Rightarrow> CBlock list" where
  "drop_late best_time block_matches bs =
     map (\<lambda>b. if b_nTime b > best_time + 1000 then CBlock_SetNull else b) (take block_matches bs) @ drop block_matches bs"

subsection \<open>Handing the blocks to \<open>AcceptBlock\<close>\<close>

text \<open>\<open>accept\<close> is \<open>AcceptBlock\<close>, \<open>best\<close> the hash of the best block. A block that is refused is tried again.\<close>

function process_loop ::
  "('s \<Rightarrow> uint256) \<Rightarrow> (CBlock \<Rightarrow> 's \<Rightarrow> ('e + bool) \<times> CBlock \<times> 's) \<Rightarrow> nat \<Rightarrow> int \<Rightarrow> nat \<Rightarrow> int \<Rightarrow> CBlock list \<Rightarrow> 's
    \<Rightarrow> ('e + unit) \<times> CBlock list \<times> 's" where
  "process_loop best accept Blocks_to_Process entries Blocks_Processed loops_performed bs s =
     (if Blocks_Processed = Blocks_to_Process \<or> loops_performed > entries then (Inr (), bs, s)
      else
        let b = bs ! Blocks_Processed in
        if hashPrevBlock b = 0 then process_loop best accept Blocks_to_Process entries (Blocks_Processed + 1) (loops_performed + 1) bs s
        else if best s = hashPrevBlock b then
          (case accept b s of
             (Inl e, b, s) \<Rightarrow> (Inl e, bs[Blocks_Processed := b], s)
           | (Inr False, b, s) \<Rightarrow>
               process_loop best accept Blocks_to_Process entries Blocks_Processed (loops_performed + 1) (bs[Blocks_Processed := b]) s
           | (Inr True, b, s) \<Rightarrow>
               process_loop best accept Blocks_to_Process entries (Blocks_Processed + 1) (loops_performed + 1)
                 (bs[Blocks_Processed := CBlock_SetNull]) s)
        else process_loop best accept Blocks_to_Process entries (Blocks_Processed + 1) (loops_performed + 1) bs s)"
  by pat_completeness auto
termination by (relation "measure (\<lambda>(_, _, _, entries, _, loops, _, _). nat (entries + 1 - loops))") auto

declare process_loop.simps [simp del]

definition best_hash :: "node \<Rightarrow> uint256" where
  "best_hash s = bi_hash (hd (ns_best s))"

definition process_buffer ::
  "('pk, 'sig) node_env \<Rightarrow> accept_env \<Rightarrow> nat \<Rightarrow> block_buffer \<Rightarrow> node \<Rightarrow> process_result \<times> block_buffer \<times> node" where
  "process_buffer E A bufsize B s =
     (case process_loop best_hash (AcceptBlock E A) bufsize (Buffer_entries B) 0 0 (Block_Checker B) s of
        (Inl e, bs, s) \<Rightarrow> (Fault (AcceptFault e), B\<lparr>Block_Checker := bs\<rparr>, s)
      | (Inr _, bs, s) \<Rightarrow> (Answer True, B\<lparr>Block_Checker := bs, Block_Checker_Array := False, Buffer_entries := 0\<rparr>, s))"

subsection \<open>\<open>ProcessBlock\<close>\<close>

text \<open>The part of the function from the search on.\<close>

definition search_buffer ::
  "('pk, 'sig) node_env \<Rightarrow> accept_env \<Rightarrow> nat \<Rightarrow> block_buffer \<Rightarrow> node \<Rightarrow> process_result \<times> block_buffer \<times> node" where
  "search_buffer E A bufsize B s =
     (let best = hd (ns_best s) in
      case scan_blocks E best [0..<bufsize] \<lparr>sc_blocks = Block_Checker B, Match_Block_Map = [],
          sc_marked = marked_blocks_for_processing B\<rparr> of
        Inl e \<Rightarrow> (Fault e, B, s)
      | Inr S \<Rightarrow>
          let B = B\<lparr>Block_Checker := sc_blocks S, marked_blocks_for_processing := sc_marked S\<rparr>;
              block_matches = length (Match_Block_Map S) in
          if block_matches = 0 \<and> nHeight best > 1000 then no_match B s
          else if block_matches > 1 then
            (Answer True, B\<lparr>Block_Checker := drop_late (bi_nTime best) block_matches (Block_Checker B)\<rparr>, s)
          else process_buffer E A bufsize B s)"

text \<open>\<open>pfrom\<close> tells whether there is a node the block came from, \<open>block_to_check\<close> is the global copy of the block.\<close>

definition ProcessBlock ::
  "('pk, 'sig) node_env \<Rightarrow> accept_env \<Rightarrow> process_env \<Rightarrow> bool \<Rightarrow> CBlock \<Rightarrow> CBlock \<Rightarrow> block_buffer \<Rightarrow> node
    \<Rightarrow> process_result \<times> block_buffer \<times> node" where
  "ProcessBlock E A P pfrom block_to_check pblock B s =
     (if ns_mapBlockIndex s (block_hash E pblock) \<noteq> None then (Answer False, B, s)
      else if pe_fRequestShutdown P then (Answer False, B, s)
      else
        let B = prepare_buffer B in
        if \<not> pfrom then (Fault NullPointer, B, s)
        else
          let One_Block_Mode = (ns_nBestHeight s + 20 > pe_Last_known_block_height P);
              bufsize = (if One_Block_Mode then SYNCH_BLOCK_BUFFER_SIZE else MAXIMUM_ARRAY_OF_BLOCKS) in
          if Buffer_entries B < int bufsize then
            (let B = fill_buffer block_to_check bufsize B in
             case wait_for_more P (hd (ns_best s)) bufsize One_Block_Mode B of
               Some r \<Rightarrow> (r, B, s)
             | None \<Rightarrow> search_buffer E A bufsize B s)
          else search_buffer E A bufsize B s)"

subsection \<open>The loop over the index\<close>

lemma index_walk_Some:
  assumes "index_walk n cs = Some u"
  shows "\<forall>c\<in>set cs. nHeight (hd c) \<le> n"
  by (rule index_walk.raw_induct [where P = "\<lambda>n cs _. \<forall>c\<in>set cs. nHeight (hd c) \<le> n", OF _ assms])
    (force split: list.splits if_splits)

lemma index_walk_returns: "index_walk n cs \<noteq> None \<longleftrightarrow> (\<forall>c\<in>set cs. nHeight (hd c) \<le> n)"
proof
  assume "\<forall>c\<in>set cs. nHeight (hd c) \<le> n"
  then show "index_walk n cs \<noteq> None"
    by (induction cs) (subst index_walk.simps; simp)+
next
  assume "index_walk n cs \<noteq> None"
  then show "\<forall>c\<in>set cs. nHeight (hd c) \<le> n" using index_walk_Some by fastforce
qed

lemma set_index_entries: "set (index_entries m) = ran m"
  by (auto simp: index_entries_def ran_def dom_def image_iff) force+

lemma length_index_entries: "length (index_entries m) = card (dom m)"
  by (simp add: index_entries_def)

subsection \<open>The loop over the buffer\<close>

text \<open>
  What the loop asks of the function it hands the blocks to: it keeps an invariant, and a preorder holds between the states
  before and after.
\<close>

locale acceptor =
  fixes best :: "'s \<Rightarrow> uint256" and accept :: "CBlock \<Rightarrow> 's \<Rightarrow> ('e + bool) \<times> CBlock \<times> 's"
    and inv_ok :: "'s \<Rightarrow> bool" and grows :: "'s \<Rightarrow> 's \<Rightarrow> bool"
  assumes refl: "grows s s"
    and trans: "grows s t \<Longrightarrow> grows t u \<Longrightarrow> grows s u"
    and accept_grows: "inv_ok s \<Longrightarrow> accept b s = (Inr r, b', s') \<Longrightarrow> inv_ok s' \<and> grows s s'"
begin

lemma loop_grows:
  "inv_ok s \<Longrightarrow> process_loop best accept bufsize entries n loops bs s = (Inr u, bs', s') \<Longrightarrow> inv_ok s' \<and> grows s s'"
proof (induction "nat (entries + 1 - loops)" arbitrary: n loops bs s rule: less_induct)
  case less
  let ?b = "bs ! n"
  show ?case
  proof (cases "n = bufsize \<or> loops > entries")
    case True
    then have "s' = s" using less.prems(2) by (subst (asm) process_loop.simps) simp
    then show ?thesis using less.prems(1) refl by simp
  next
    case False
    then have fewer: "nat (entries + 1 - (loops + 1)) < nat (entries + 1 - loops)" by auto
    note IH = less.hyps [OF fewer]
    have step: "process_loop best accept bufsize entries n loops bs s =
      (if hashPrevBlock ?b \<noteq> 0 \<and> best s = hashPrevBlock ?b then
          (case accept ?b s of
             (Inl e, b, s) \<Rightarrow> (Inl e, bs[n := b], s)
           | (Inr r, b, s) \<Rightarrow> if r then process_loop best accept bufsize entries (n + 1) (loops + 1) (bs[n := CBlock_SetNull]) s
               else process_loop best accept bufsize entries n (loops + 1) (bs[n := b]) s)
       else process_loop best accept bufsize entries (n + 1) (loops + 1) bs s)"
      using False by (subst process_loop.simps) (auto simp: Let_def split: sum.splits prod.splits bool.splits)
    show ?thesis
    proof (cases "hashPrevBlock ?b \<noteq> 0 \<and> best s = hashPrevBlock ?b")
      case True
      obtain r b1 s1 where a: "accept ?b s = (Inr r, b1, s1)"
        using less.prems(2) True by (cases "accept ?b s"; cases "fst (accept ?b s)") (auto simp: step)
      then have s1: "inv_ok s1" "grows s s1" using accept_grows less.prems(1) by blast+
      have "inv_ok s' \<and> grows s1 s'" using IH [OF s1(1)] less.prems(2) True a by (cases r) (simp_all add: step)
      then show ?thesis using trans s1(2) by blast
    next
      case False
      show ?thesis using IH [OF less.prems(1)] less.prems(2) unfolding step if_not_P [OF False] by blast
    qed
  qed
qed

text \<open>A block that is accepted when its turn comes is accepted, whatever comes after it.\<close>

lemma loop_reaches:
  assumes "\<And>k. n \<le> k \<Longrightarrow> k < m \<Longrightarrow> hashPrevBlock (bs ! k) = 0 \<or> hashPrevBlock (bs ! k) \<noteq> best s"
    and "n \<le> m" "m \<le> bufsize" "loops + int (m - n) \<le> entries"
  shows "process_loop best accept bufsize entries n loops bs s =
    process_loop best accept bufsize entries m (loops + int (m - n)) bs s"
  using assms
proof (induction "m - n" arbitrary: n loops)
  case (Suc d)
  then have lt: "n < m" "n \<noteq> bufsize" "\<not> loops > entries" by auto
  have "process_loop best accept bufsize entries n loops bs s = process_loop best accept bufsize entries (n + 1) (loops + 1) bs s"
    using lt Suc.prems(1) [of n] by (subst process_loop.simps) (auto simp: Let_def)
  also have "\<dots> = process_loop best accept bufsize entries m (loops + 1 + int (m - (n + 1))) bs s"
    by (rule Suc.hyps(1)) (use Suc lt in auto)
  finally show ?case using lt by (simp add: of_nat_diff)
qed simp

lemma loop_accepts:
  assumes "\<And>k. k < m \<Longrightarrow> hashPrevBlock (bs ! k) = 0 \<or> hashPrevBlock (bs ! k) \<noteq> best s"
    and "m < bufsize" "int m \<le> entries" "hashPrevBlock (bs ! m) = best s" "best s \<noteq> 0"
    and "accept (bs ! m) s = (Inr True, b', t)" "inv_ok t"
    and "process_loop best accept bufsize entries 0 0 bs s = (Inr u, bs', s')"
  shows "grows t s'"
proof -
  have "process_loop best accept bufsize entries 0 0 bs s = process_loop best accept bufsize entries m (int m) bs s"
    using loop_reaches [of 0 m bs s bufsize 0 entries] assms(1-3) by simp
  also have "\<dots> = process_loop best accept bufsize entries (m + 1) (int m + 1) (bs[m := CBlock_SetNull]) t"
    using assms(2-6) by (subst process_loop.simps) (simp add: Let_def)
  finally show ?thesis using loop_grows [OF assms(7)] assms(8) by metis
qed

end

subsection \<open>What \<open>AcceptBlock\<close> keeps\<close>

definition chain_grows :: "node \<Rightarrow> node \<Rightarrow> bool" where
  "chain_grows s s' \<longleftrightarrow> (\<exists>new. ns_best s' = new @ ns_best s) \<and> ns_mapBlockIndex s \<subseteq>\<^sub>m ns_mapBlockIndex s'"

lemma chain_grows_refl: "chain_grows s s"
  by (simp add: chain_grows_def)

lemma chain_grows_trans: "chain_grows s t \<Longrightarrow> chain_grows t u \<Longrightarrow> chain_grows s u"
  unfolding chain_grows_def by (metis append_assoc map_le_trans)

lemma accept_store_cases:
  "accept_store E A h hp b s = (Inr r, b', s') \<Longrightarrow> s' = s \<or> (\<exists>f p. AddToBlockIndex E f p hp b s = (Inr r, b', s'))"
  by (auto simp: accept_store_def split: if_splits option.splits)

lemma AcceptBlock_cases:
  assumes "AcceptBlock E A b s = (Inr r, b', s')"
  shows "s' = s \<or> (\<exists>h hp b1 cache. accept_store E A h hp b1 (s\<lparr>ns_cache := cache\<rparr>) = (Inr r, b', s'))"
proof -
  have same: "s\<lparr>ns_cache := ns_cache s\<rparr> = s" by simp
  have "s' = s \<or> (\<exists>h hp. accept_store E A h hp b s = (Inr r, b', s'))
    \<or> (\<exists>c h hp b1 s1. stake_proof E (hd c) b s = Inr (hp, b1, s1) \<and> accept_store E A h hp b1 s1 = (Inr r, b', s'))"
    using assms by (auto simp: AcceptBlock_def Let_def split: if_splits option.splits sum.splits prod.splits)
  then show ?thesis using stake_proof_keeps same by metis
qed

lemma AcceptBlock_grows:
  assumes "chain_ok (ce_bn (ne_check E)) s" "AcceptBlock E A b s = (Inr r, b', s')"
  shows "chain_ok (ce_bn (ne_check E)) s' \<and> chain_grows s s'"
proof -
  consider "s' = s" | h hp b1 cache where "accept_store E A h hp b1 (s\<lparr>ns_cache := cache\<rparr>) = (Inr r, b', s')"
    using AcceptBlock_cases [OF assms(2)] by blast
  then show ?thesis
  proof cases
    case 2
    let ?s1 = "s\<lparr>ns_cache := cache\<rparr>"
    have ok: "chain_ok (ce_bn (ne_check E)) ?s1" using assms(1) by (simp add: chain_ok_def)
    consider "s' = ?s1" | f p where "AddToBlockIndex E f p hp b1 ?s1 = (Inr r, b', s')" using accept_store_cases [OF 2] by blast
    then show ?thesis
    proof cases
      case 2
      show ?thesis using AddToBlockIndex_step [OF ok 2] ok
        by (auto simp: chain_grows_def map_le_def intro: exI [of _ "[]"])
    qed (use ok in \<open>simp add: chain_grows_def\<close>)
  qed (use assms(1) chain_grows_refl in simp)
qed

interpretation accepting: acceptor best_hash "AcceptBlock E A" "chain_ok (ce_bn (ne_check E))" chain_grows
  for E :: "('pk, 'sig) node_env" and A
  using chain_grows_refl chain_grows_trans AcceptBlock_grows by unfold_locales blast+

subsection \<open>Cases of a call\<close>

definition ends :: "process_result \<Rightarrow> bool" where
  "ends r \<longleftrightarrow> (case r of Answer _ \<Rightarrow> True | NoValue \<Rightarrow> True | _ \<Rightarrow> False)"

lemma no_match_node: "no_match B s = (r, B', s') \<Longrightarrow> s' = s"
  by (auto simp: no_match_def Let_def split: if_splits)

lemma search_buffer_grows:
  assumes "chain_ok (ce_bn (ne_check E)) s" "search_buffer E A bufsize B s = (r, B', s')" "ends r"
  shows "chain_ok (ce_bn (ne_check E)) s' \<and> chain_grows s s'"
proof -
  have "s' = s \<or> (\<exists>n bs bs' u. process_loop best_hash (AcceptBlock E A) bufsize n 0 0 bs s = (Inr u, bs', s'))"
    using assms(2,3) no_match_node
    by (fastforce simp: search_buffer_def process_buffer_def Let_def ends_def split: sum.splits if_splits prod.splits)
  then show ?thesis using accepting.loop_grows assms(1) chain_grows_refl by blast
qed

lemma ProcessBlock_cases:
  assumes "ProcessBlock E A P pfrom bc b B s = (r, B', s')"
  shows "s' = s \<and> r \<noteq> NoReturn \<or> (\<exists>bufsize B. search_buffer E A bufsize B s = (r, B', s'))"
  using assms
  by (auto simp: ProcessBlock_def Let_def wait_for_more_def split: if_splits option.splits)

subsection \<open>Searching\<close>

text \<open>A block the search keeps, and one that it finds on top of the best block.\<close>

definition kept :: "CBlockIndex \<Rightarrow> CBlock \<Rightarrow> bool" where
  "kept best b \<longleftrightarrow> timely (bi_nTime best) (b_nTime b) \<and> hashPrevBlock b \<noteq> 0"

definition on_top :: "CBlockIndex \<Rightarrow> CBlock \<Rightarrow> bool" where
  "on_top best b \<longleftrightarrow> kept best b \<and> hashPrevBlock b = bi_hash best"

lemma scan_block_step:
  assumes "scan_block E best n S = Inr S'"
  shows "sc_blocks S' = (if kept best (sc_blocks S ! n) then sc_blocks S else (sc_blocks S)[n := CBlock_SetNull])
    \<and> Match_Block_Map S' = (if on_top best (sc_blocks S ! n)
        then List.insert (block_hash E (sc_blocks S ! n)) (Match_Block_Map S) else Match_Block_Map S)"
  using assms by (auto simp: scan_block_def Let_def kept_def on_top_def split: if_splits)

lemma scan_blocks_step:
  assumes "scan_blocks E best ns S = Inr S'" "distinct ns"
  shows "length (sc_blocks S') = length (sc_blocks S)
    \<and> (\<forall>i. i < length (sc_blocks S) \<longrightarrow> sc_blocks S' ! i = (if i \<in> set ns \<and> \<not> kept best (sc_blocks S ! i) then CBlock_SetNull else sc_blocks S ! i))
    \<and> set (Match_Block_Map S') = set (Match_Block_Map S) \<union> block_hash E ` {b. on_top best b \<and> (\<exists>i\<in>set ns. b = sc_blocks S ! i)}
    \<and> (distinct (Match_Block_Map S) \<longrightarrow> distinct (Match_Block_Map S'))"
  using assms
proof (induction ns arbitrary: S)
  case (Cons n ns)
  obtain T where T: "scan_block E best n S = Inr T" "scan_blocks E best ns T = Inr S'"
    using Cons.prems(1) by (auto split: sum.splits)
  note step = scan_block_step [OF T(1)]
  have nth: "sc_blocks T ! i = (if i = n \<and> \<not> kept best (sc_blocks S ! i) then CBlock_SetNull else sc_blocks S ! i)"
    if "i < length (sc_blocks S)" for i using step that by auto
  have other: "sc_blocks T ! i = sc_blocks S ! i" if "i \<noteq> n" for i using step that by auto
  have len: "length (sc_blocks T) = length (sc_blocks S)" using step by simp
  have "{b. on_top best b \<and> (\<exists>i\<in>set ns. b = sc_blocks T ! i)} = {b. on_top best b \<and> (\<exists>i\<in>set ns. b = sc_blocks S ! i)}"
    using Cons.prems(2) other by (metis distinct.simps(2))
  then show ?case using Cons.IH [OF T(2)] Cons.prems(2) step nth other len by auto
qed simp

subsection \<open>Competing blocks\<close>

text \<open>Two different blocks near the front of the buffer are on top of the best block, and not late.\<close>

definition waits :: "node \<Rightarrow> CBlock \<Rightarrow> bool" where
  "waits s b \<longleftrightarrow> on_top (hd (ns_best s)) b \<and> \<not> b_nTime b > bi_nTime (hd (ns_best s)) + 1000"

definition competing :: "('pk, 'sig) node_env \<Rightarrow> block_buffer \<Rightarrow> node \<Rightarrow> bool" where
  "competing E B s \<longleftrightarrow> Block_Checker_Array B \<and> length (Block_Checker B) = MAXIMUM_ARRAY_OF_BLOCKS
     \<and> (\<exists>i<SYNCH_BLOCK_BUFFER_SIZE. \<exists>j<SYNCH_BLOCK_BUFFER_SIZE. waits s (Block_Checker B ! i) \<and> waits s (Block_Checker B ! j)
          \<and> block_hash E (Block_Checker B ! i) \<noteq> block_hash E (Block_Checker B ! j))"

lemma competing_keep:
  assumes "competing E B s" "Block_Checker_Array B'" "length (Block_Checker B') = length (Block_Checker B)"
    and "\<And>i. i < length (Block_Checker B) \<Longrightarrow> waits s (Block_Checker B ! i) \<Longrightarrow> Block_Checker B' ! i = Block_Checker B ! i"
  shows "competing E B' s"
proof -
  obtain i j where ij: "i < SYNCH_BLOCK_BUFFER_SIZE" "j < SYNCH_BLOCK_BUFFER_SIZE" "waits s (Block_Checker B ! i)"
    "waits s (Block_Checker B ! j)" "block_hash E (Block_Checker B ! i) \<noteq> block_hash E (Block_Checker B ! j)"
    using assms(1) unfolding competing_def by blast
  then have "Block_Checker B' ! i = Block_Checker B ! i" "Block_Checker B' ! j = Block_Checker B ! j"
    using assms(1,4) by (simp_all add: competing_def SYNCH_BLOCK_BUFFER_SIZE_def MAXIMUM_ARRAY_OF_BLOCKS_def)
  then show ?thesis using assms(1-3) ij unfolding competing_def by metis
qed

lemma store_block_keeps:
  "store_block b n bs = Some bs' \<Longrightarrow> length bs' = length bs
    \<and> (i < length bs \<longrightarrow> hashPrevBlock (bs ! i) \<noteq> 0 \<longrightarrow> bs' ! i = bs ! i)"
proof (induction b n bs arbitrary: bs' i rule: store_block.induct)
  case (3 b n x bs)
  show ?case
  proof (cases "hashPrevBlock x = 0")
    case True
    then show ?thesis using 3 by (cases i) auto
  next
    case False
    then obtain bs1 where "store_block b n bs = Some bs1" "bs' = x # bs1" using 3(2) by auto
    then show ?thesis using 3(1) [OF False] by (cases i) auto
  qed
qed simp_all

lemma competing_fill: "competing E B s \<Longrightarrow> competing E (fill_buffer b n B) s"
proof (cases "store_block b n (Block_Checker B)")
  case (Some bs)
  assume c: "competing E B s"
  show ?thesis
    by (rule competing_keep [OF c])
      (use c store_block_keeps [OF Some] Some in \<open>auto simp: fill_buffer_def competing_def waits_def on_top_def kept_def\<close>)
qed (simp add: fill_buffer_def)

lemma drop_late_keeps:
  assumes "i < length bs" "\<not> b_nTime (bs ! i) > best_time + 1000"
  shows "drop_late best_time n bs ! i = bs ! i"
  using assms by (auto simp: drop_late_def nth_append min_def)

lemma length_drop_late [simp]: "length (drop_late best_time n bs) = length bs"
  by (simp add: drop_late_def)

lemma competing_search:
  assumes "competing E B s" "SYNCH_BLOCK_BUFFER_SIZE \<le> bufsize" "bufsize \<le> MAXIMUM_ARRAY_OF_BLOCKS"
    and "search_buffer E A bufsize B s = (r, B', s')"
  shows "s' = s \<and> competing E B' s"
proof -
  let ?best = "hd (ns_best s)"
  let ?S = "\<lparr>sc_blocks = Block_Checker B, Match_Block_Map = [], sc_marked = marked_blocks_for_processing B\<rparr>"
  show ?thesis
  proof (cases "scan_blocks E ?best [0..<bufsize] ?S")
    case (Inl e)
    then show ?thesis using assms(1,4) by (simp add: search_buffer_def Let_def)
  next
    case (Inr S)
    note step = scan_blocks_step [OF Inr distinct_upt]
    obtain i j where ij: "i < bufsize" "j < bufsize" "waits s (Block_Checker B ! i)"
      "waits s (Block_Checker B ! j)" "block_hash E (Block_Checker B ! i) \<noteq> block_hash E (Block_Checker B ! j)"
      using assms(1,2) unfolding competing_def by (meson less_le_trans)
    have found: "block_hash E (Block_Checker B ! k) \<in> set (Match_Block_Map S)" if "k < bufsize" "waits s (Block_Checker B ! k)" for k
      using step that by (auto simp: waits_def intro!: imageI)
    have mem: "{block_hash E (Block_Checker B ! i), block_hash E (Block_Checker B ! j)} \<subseteq> set (Match_Block_Map S)"
      using found ij by blast
    have "card {block_hash E (Block_Checker B ! i), block_hash E (Block_Checker B ! j)} = 2" using ij(5) by simp
    then have two: "length (Match_Block_Map S) > 1"
      using card_mono [OF finite_set mem] card_length [of "Match_Block_Map S"] by linarith
    then have B': "s' = s" "B' = B\<lparr>Block_Checker := drop_late (bi_nTime ?best) (length (Match_Block_Map S)) (sc_blocks S),
        marked_blocks_for_processing := sc_marked S\<rparr>"
      using assms(4) Inr by (auto simp: search_buffer_def Let_def split: if_splits)
    have "competing E B' s"
    proof (rule competing_keep [OF assms(1)])
      fix k assume k: "k < length (Block_Checker B)" "waits s (Block_Checker B ! k)"
      then have "sc_blocks S ! k = Block_Checker B ! k" using step by (auto simp: waits_def on_top_def)
      then show "Block_Checker B' ! k = Block_Checker B ! k"
        using drop_late_keeps [of k "sc_blocks S" "bi_nTime ?best"] k step B' by (simp add: waits_def)
    qed (use assms(1) B' step in \<open>simp_all add: competing_def\<close>)
    then show ?thesis using B' by simp
  qed
qed

lemma competing_ProcessBlock:
  assumes "competing E B s" "ProcessBlock E A P pfrom bc b B s = (r, B', s')"
  shows "s' = s \<and> competing E B' s"
proof -
  have prep: "prepare_buffer B = B" using assms(1) by (simp add: prepare_buffer_def competing_def)
  let ?n = "if ns_nBestHeight s + 20 > pe_Last_known_block_height P then SYNCH_BLOCK_BUFFER_SIZE else MAXIMUM_ARRAY_OF_BLOCKS"
  have n: "SYNCH_BLOCK_BUFFER_SIZE \<le> ?n" "?n \<le> MAXIMUM_ARRAY_OF_BLOCKS"
    by (simp_all add: SYNCH_BLOCK_BUFFER_SIZE_def MAXIMUM_ARRAY_OF_BLOCKS_def)
  have "s' = s \<and> B' \<in> {B, fill_buffer bc ?n B} \<or> (\<exists>B1\<in>{B, fill_buffer bc ?n B}. search_buffer E A ?n B1 s = (r, B', s'))"
    using assms(2) prep by (auto simp: ProcessBlock_def Let_def split: if_splits option.splits)
  then show ?thesis using competing_search [OF _ n] competing_fill [OF assms(1)] assms(1) by blast
qed

text \<open>The calls that end, with any node, blocks, clocks and answers of the disk; the hash function and the numbers stay the same.\<close>

inductive receives :: "('pk, 'sig) node_env \<Rightarrow> block_buffer \<times> node \<Rightarrow> block_buffer \<times> node \<Rightarrow> bool" for F :: "('pk, 'sig) node_env" where
  call: "ce_hash (ne_check (E :: ('pk, 'sig) node_env)) = ce_hash (ne_check F) \<Longrightarrow> ce_bn (ne_check E) = ce_bn (ne_check F)
    \<Longrightarrow> ProcessBlock E A P pfrom bc b B s = (r, B', s') \<Longrightarrow> ends r \<Longrightarrow> receives F (B, s) (B', s')"

inductive_cases receives_call: "receives F x y"

lemma competing_receives:
  assumes "receives F (B, s) (B', s')" "competing F B s"
  shows "s' = s \<and> competing F B' s"
  using assms(1)
proof (rule receives_call)
  fix E :: "('a, 'b) node_env" and A P pfrom bc b B0 s0 r B1 s1
  assume eq: "(B, s) = (B0, s0)" "(B', s') = (B1, s1)" and h: "ce_hash (ne_check E) = ce_hash (ne_check F)"
    and p: "ProcessBlock E A P pfrom bc b B0 s0 = (r, B1, s1)"
  have same: "competing E C u = competing F C u" for C u by (simp add: competing_def block_hash_def h)
  show ?thesis using competing_ProcessBlock [of E B s A P pfrom bc b r B' s'] p eq assms(2) same by auto
qed

text \<open>
  C1. Two competing blocks stop the node. Once two different blocks on top of the best block, both in
  time, wait among the first three places of the buffer, no call of \<open>ProcessBlock\<close> that ends changes
  the chain any more, whatever blocks arrive, in whatever order, and whatever the clocks say; the two blocks
  stay in the buffer.
\<close>

theorem competing_blocks_stall:
  fixes F :: "('pk, 'sig) node_env"
  assumes "competing F B s" "rtranclp (receives F) (B, s) (B', s')"
  shows "s' = s \<and> competing F B' s"
proof -
  have "snd x = s \<and> competing F (fst x) s" if "rtranclp (receives F) (B, s) x" for x
    using that
  proof (induction rule: rtranclp_induct)
    case (step y z)
    then show ?case using competing_receives [of F "fst y" s "fst z" "snd z"] by (cases y; cases z) auto
  qed (simp add: assms(1))
  from this [OF assms(2)] show ?thesis by simp
qed

lemma receives_grows:
  assumes "receives F (B, s) (B', s')" "chain_ok (ce_bn (ne_check F)) s"
  shows "chain_ok (ce_bn (ne_check F)) s' \<and> chain_grows s s'"
  using assms(1)
proof (rule receives_call)
  fix E :: "('a, 'b) node_env" and A P pfrom bc b B0 s0 r B1 s1
  assume eq: "(B, s) = (B0, s0)" "(B', s') = (B1, s1)" and bn: "ce_bn (ne_check E) = ce_bn (ne_check F)"
    and p: "ProcessBlock E A P pfrom bc b B0 s0 = (r, B1, s1)" and e: "ends r"
  have ok: "chain_ok (ce_bn (ne_check E)) s" using assms(2) bn by simp
  from ProcessBlock_cases [OF p] show ?thesis
    using search_buffer_grows [OF ok _ e, of A _ _ B' s'] assms(2) eq bn chain_grows_refl by auto
qed

text \<open>
  C5. Receiving blocks keeps the chain. Over any sequence of calls of \<open>ProcessBlock\<close> that end, the best
  chain only grows at its end, indexed blocks keep their place, and the index, the heights, the trust and the hash on
  disk stay in step.
\<close>

theorem received_blocks_grow_chain:
  fixes F :: "('pk, 'sig) node_env"
  assumes "chain_ok (ce_bn (ne_check F)) s" "rtranclp (receives F) (B, s) (B', s')"
  shows "chain_ok (ce_bn (ne_check F)) s' \<and> (\<exists>new. ns_best s' = new @ ns_best s) \<and> ns_mapBlockIndex s \<subseteq>\<^sub>m ns_mapBlockIndex s'"
proof -
  have "chain_ok (ce_bn (ne_check F)) (snd x) \<and> chain_grows s (snd x)" if "rtranclp (receives F) (B, s) x" for x
    using that
  proof (induction rule: rtranclp_induct)
    case (step y z)
    then show ?case using receives_grows [of F "fst y" "snd y" "fst z" "snd z"] chain_grows_trans
      by (cases y; cases z) auto
  qed (simp add: assms(1) chain_grows_refl)
  from this [OF assms(2)] show ?thesis by (simp add: chain_grows_def)
qed

subsection \<open>Does a call end?\<close>

lemma no_match_NoReturn:
  "fst (no_match B s) = NoReturn \<longleftrightarrow> int (card (dom (ns_mapBlockIndex s))) > nHeight (hd (ns_best s))
     \<and> (\<exists>c\<in>ran (ns_mapBlockIndex s). nHeight (hd c) > nHeight (hd (ns_best s)))"
  using index_walk_returns [of "nHeight (hd (ns_best s))" "index_entries (ns_mapBlockIndex s)"]
  by (auto simp: no_match_def Let_def length_index_entries set_index_entries not_le split: if_splits)

lemma search_buffer_NoReturn:
  "fst (search_buffer E A bufsize B s) = NoReturn \<Longrightarrow> nHeight (hd (ns_best s)) > 1000 \<and> (\<exists>B. fst (no_match B s) = NoReturn)"
  by (auto simp: search_buffer_def process_buffer_def Let_def split: sum.splits prod.splits if_splits)

text \<open>
  C6. \<open>ProcessBlock\<close> returns as long as no indexed block is higher than the best one. Its loop over the
  buffer always ends; its loop over the index ends only then.
\<close>

theorem ProcessBlock_returns:
  assumes "\<And>h c. ns_mapBlockIndex s h = Some c \<Longrightarrow> nHeight (hd c) \<le> nHeight (hd (ns_best s))"
  shows "fst (ProcessBlock E A P pfrom bc b B s) \<noteq> NoReturn"
proof
  assume hang: "fst (ProcessBlock E A P pfrom bc b B s) = NoReturn"
  obtain r B' s' where p: "ProcessBlock E A P pfrom bc b B s = (r, B', s')" by (metis prod_cases3)
  obtain bufsize B1 where "search_buffer E A bufsize B1 s = (r, B', s')"
    using ProcessBlock_cases [OF p] hang p by auto
  then have "\<exists>B. fst (no_match B s) = NoReturn" using search_buffer_NoReturn [of E A bufsize B1 s] hang p by simp
  then show False using assms unfolding no_match_NoReturn ran_def by fastforce
qed

subsection \<open>A block is accepted\<close>

lemma store_block_first:
  assumes "\<And>k. k < m \<Longrightarrow> hashPrevBlock (bs ! k) \<noteq> 0" "m < n" "m < length bs" "hashPrevBlock (bs ! m) = 0"
  shows "store_block b n bs = Some (bs[m := b])"
  using assms
proof (induction b n bs arbitrary: m rule: store_block.induct)
  case (3 b n x bs)
  show ?case
  proof (cases m)
    case (Suc k)
    then have "hashPrevBlock x \<noteq> 0" using 3(2) [of 0] by simp
    moreover have "store_block b n bs = Some (bs[k := b])"
      by (rule 3(1)) (use 3(3-5) 3(2) [of "Suc _"] Suc calculation in auto)
    ultimately show ?thesis using Suc by simp
  qed (use 3 in simp)
qed simp_all

text \<open>The blocks that reach the part of the buffer in use, with a first free place for one more.\<close>

definition room_at :: "nat \<Rightarrow> block_buffer \<Rightarrow> bool" where
  "room_at m B \<longleftrightarrow> Block_Checker_Array B \<and> length (Block_Checker B) = MAXIMUM_ARRAY_OF_BLOCKS \<and> m < SYNCH_BLOCK_BUFFER_SIZE
     \<and> list_all (\<lambda>b. hashPrevBlock b \<noteq> 0) (take m (Block_Checker B)) \<and> hashPrevBlock (Block_Checker B ! m) = 0
     \<and> length (marked_blocks_for_processing B) = 25 \<and> Buffer_entries B \<in> {1, 2}"

lemma search_one:
  assumes "on_top (hd (ns_best s)) (Block_Checker B ! m)" "m < SYNCH_BLOCK_BUFFER_SIZE" "length (Block_Checker B) = MAXIMUM_ARRAY_OF_BLOCKS"
    and "\<And>k. k < SYNCH_BLOCK_BUFFER_SIZE \<Longrightarrow> k \<noteq> m \<Longrightarrow> hashPrevBlock (Block_Checker B ! k) \<noteq> bi_hash (hd (ns_best s))"
    and "length (marked_blocks_for_processing B) = 25"
  obtains bs marked where "search_buffer E A SYNCH_BLOCK_BUFFER_SIZE B s
      = process_buffer E A SYNCH_BLOCK_BUFFER_SIZE (B\<lparr>Block_Checker := bs, marked_blocks_for_processing := marked\<rparr>) s"
    and "bs ! m = Block_Checker B ! m"
    and "\<And>k. k < SYNCH_BLOCK_BUFFER_SIZE \<Longrightarrow> k \<noteq> m \<Longrightarrow> hashPrevBlock (bs ! k) = 0 \<or> hashPrevBlock (bs ! k) \<noteq> bi_hash (hd (ns_best s))"
proof -
  let ?best = "hd (ns_best s)" and ?n = SYNCH_BLOCK_BUFFER_SIZE
  let ?S = "\<lparr>sc_blocks = Block_Checker B, Match_Block_Map = [], sc_marked = marked_blocks_for_processing B\<rparr>"
  have no_fault: "\<exists>S'. scan_blocks E ?best ns S = Inr S'"
    if "length (sc_marked S) = 25" "length (Match_Block_Map S) + length ns < 25" for ns S
    using that
  proof (induction ns arbitrary: S)
    case (Cons n ns)
    then obtain T where T: "scan_block E ?best n S = Inr T"
      by (cases "scan_block E ?best n S") (auto simp: scan_block_def Let_def split: if_splits)
    then have "length (sc_marked T) = 25" "length (Match_Block_Map T) \<le> length (Match_Block_Map S) + 1"
      using Cons.prems by (auto simp: scan_block_def Let_def split: if_splits)
    then show ?case using Cons.IH [of T] Cons.prems T by simp
  qed simp
  obtain S where S: "scan_blocks E ?best [0..<?n] ?S = Inr S"
    using no_fault [of ?S "[0..<?n]"] assms(5) by (auto simp: SYNCH_BLOCK_BUFFER_SIZE_def)
  note step = scan_blocks_step [OF S distinct_upt]
  have "{b. on_top ?best b \<and> (\<exists>i\<in>set [0..<?n]. b = Block_Checker B ! i)} = {Block_Checker B ! m}"
    using assms(1,2,4) unfolding on_top_def by (auto; metis)
  then have "set (Match_Block_Map S) = {block_hash E (Block_Checker B ! m)}" "distinct (Match_Block_Map S)" using step by auto
  then have "length (Match_Block_Map S) = 1" by (metis distinct_card card.empty card_insert_disjoint empty_iff finite.emptyI One_nat_def)
  then have res: "search_buffer E A ?n B s
      = process_buffer E A ?n (B\<lparr>Block_Checker := sc_blocks S, marked_blocks_for_processing := sc_marked S\<rparr>) s"
    using S by (simp add: search_buffer_def Let_def)
  have inside: "k < length (Block_Checker B)" if "k < ?n" for k
    using that assms(3) by (simp add: SYNCH_BLOCK_BUFFER_SIZE_def MAXIMUM_ARRAY_OF_BLOCKS_def)
  show ?thesis
  proof (rule that [OF res])
    show "sc_blocks S ! m = Block_Checker B ! m" using step inside [OF assms(2)] assms(1) by (simp add: on_top_def)
    show "hashPrevBlock (sc_blocks S ! k) = 0 \<or> hashPrevBlock (sc_blocks S ! k) \<noteq> bi_hash ?best" if "k < ?n" "k \<noteq> m" for k
      using step inside [OF that(1)] assms(4) [OF that] by (auto simp: CBlock_SetNull_def)
  qed
qed

text \<open>
  C2. A received block is accepted without \<open>CheckBlock\<close>. Near the end of the chain, with one or two
  other blocks waiting that are not on top of the best block: if the new block is in time and keeps the
  header rules, a call of \<open>ProcessBlock\<close> that answers leaves it in the index on top of the best chain.
\<close>

theorem ProcessBlock_accepts:
  assumes "chain_ok (ce_bn (ne_check E)) s" "disk_answers E A" "acceptable E A b s" "AcceptBlock E A b s = (Inr r, b1, s1)"
    and "on_top (hd (ns_best s)) b" "\<not> pe_fRequestShutdown P" "pe_Last_known_block_height P < ns_nBestHeight s + 20"
    and "room_at m B" "\<And>k. k < SYNCH_BLOCK_BUFFER_SIZE \<Longrightarrow> k \<noteq> m \<Longrightarrow> hashPrevBlock (Block_Checker B ! k) \<noteq> bi_hash (hd (ns_best s))"
    and "ProcessBlock E A P True b b B s = (Answer a, B', s')"
  shows "a \<and> (\<exists>p. ns_mapBlockIndex s' (block_hash E b) = Some (p # ns_best s))"
proof -
  let ?n = SYNCH_BLOCK_BUFFER_SIZE and ?B = "B\<lparr>Block_Checker := (Block_Checker B)[m := b], Buffer_entries := Buffer_entries B + 1\<rparr>"
  have m: "m < ?n" "length (Block_Checker B) = MAXIMUM_ARRAY_OF_BLOCKS" "Block_Checker_Array B" "Buffer_entries B \<in> {1, 2}"
    "length (marked_blocks_for_processing B) = 25" using assms(8) by (simp_all add: room_at_def)
  then have inside: "m < length (Block_Checker B)" by (simp add: SYNCH_BLOCK_BUFFER_SIZE_def MAXIMUM_ARRAY_OF_BLOCKS_def)
  have "hashPrevBlock (Block_Checker B ! k) \<noteq> 0" if "k < m" for k
    using assms(8) that inside by (auto simp: room_at_def list_all_length)
  then have "store_block b ?n (Block_Checker B) = Some ((Block_Checker B)[m := b])"
    using assms(8) m(1) inside by (intro store_block_first) (simp_all add: room_at_def)
  then have fill: "fill_buffer b ?n B = ?B" by (simp add: fill_buffer_def)
  have new: "ns_mapBlockIndex s (block_hash E b) = None" using assms(3) by (simp add: acceptable_def)
  have "ProcessBlock E A P True b b B s = search_buffer E A ?n ?B s"
    using new assms(6,7) m(3,4) fill
    by (auto simp: ProcessBlock_def Let_def prepare_buffer_def wait_for_more_def SYNCH_BLOCK_BUFFER_SIZE_def)
  then have search: "search_buffer E A ?n ?B s = (Answer a, B', s')" using assms(10) by simp
  have top: "on_top (hd (ns_best s)) (Block_Checker ?B ! m)" using assms(5) inside by simp
  have others: "hashPrevBlock (Block_Checker ?B ! k) \<noteq> bi_hash (hd (ns_best s))" if "k < ?n" "k \<noteq> m" for k
    using assms(9) [OF that] that(2) by simp
  have len: "length (Block_Checker ?B) = MAXIMUM_ARRAY_OF_BLOCKS" "length (marked_blocks_for_processing ?B) = 25" using m(2,5) by simp_all
  obtain bs marked where b: "search_buffer E A ?n ?B s
      = process_buffer E A ?n (?B\<lparr>Block_Checker := bs, marked_blocks_for_processing := marked\<rparr>) s"
    and bm: "bs ! m = Block_Checker ?B ! m"
    and bk: "\<And>k. k < ?n \<Longrightarrow> k \<noteq> m \<Longrightarrow> hashPrevBlock (bs ! k) = 0 \<or> hashPrevBlock (bs ! k) \<noteq> bi_hash (hd (ns_best s))"
    by (rule search_one [OF top m(1) len(1) others len(2), of E A]) blast+
  obtain u bs' where loop: "process_loop best_hash (AcceptBlock E A) ?n (Buffer_entries B + 1) 0 0 bs s = (Inr u, bs', s')" and "a"
    using search unfolding b by (auto simp: process_buffer_def split: sum.splits prod.splits)
  have r: "r" "\<exists>p. ns_mapBlockIndex s1 (block_hash E b) = Some (p # ns_best s)"
    using AcceptBlock_decides [OF assms(1,2,4)] assms(3) by auto
  have "chain_grows s1 s'"
    by (rule accepting.loop_accepts [OF _ m(1) _ _ _ _ _ loop, of b1])
      (use bk m(1,4) bm inside assms(1,4,5) r(1) AcceptBlock_grows [OF assms(1,4)] in \<open>auto simp: best_hash_def on_top_def kept_def SYNCH_BLOCK_BUFFER_SIZE_def\<close>)
  then show ?thesis using r(2) \<open>a\<close> by (auto simp: chain_grows_def map_le_def dom_def)
qed

subsection \<open>Samples\<close>

definition top_entry :: CBlockIndex where
  "top_entry = sample_genesis\<lparr>bi_hash := 5, bi_nTime := 1500\<rparr>"

definition sample_top :: node where
  "sample_top = sample_node\<lparr>ns_db := \<lparr>pdb = [best_key \<mapsto> WRITEDATA 32 (5 :: uint256)], activeBatch = None, fReadOnly = False\<rparr>,
     ns_best := [top_entry], ns_hashBestChain := 5, ns_mapBlockIndex := [5 \<mapsto> [top_entry]]\<rparr>"

definition sample_process :: process_env where
  "sample_process = \<lparr>pe_GetTime = 2000, pe_fRequestShutdown = False, pe_Last_known_block_height = 0\<rparr>"

text \<open>Blocks that differ in their nonce, under a hash that sees it.\<close>

definition rival_env :: "(bytes, bytes) node_env" where
  "rival_env = sample_node_env\<lparr>ne_check := sample_check_env\<lparr>ce_hash := \<lambda>bs. 256 + ucast (last bs)\<rparr>\<rparr>"

definition rival :: "u32 \<Rightarrow> CBlock" where
  "rival n = CBlock_SetNull\<lparr>hashPrevBlock := 5, b_nTime := 2000, nNonce := n\<rparr>"

definition rival_buffer :: block_buffer where
  "rival_buffer = block_buffer_new\<lparr>Block_Checker_Array := True, Buffer_entries := 2,
     Block_Checker := rival 0 # rival 0x01000000 # CBlock_SetNull # replicate 27 CBlock_SetNull\<rparr>"

definition one_buffer :: block_buffer where
  "one_buffer = block_buffer_new\<lparr>Block_Checker_Array := True, Buffer_entries := 1,
     Block_Checker := CBlock_SetNull # CBlock_SetNull # CBlock_SetNull # replicate 27 CBlock_SetNull\<rparr>"

lemma sample_top_ok: "chain_ok ref_lib sample_top"
  using best.value_Ser [of 5]
  by (auto simp: chain_ok_def entries_linked_def sample_top_def top_entry_def sample_node_def sample_genesis_def CBlockIndex_new_def
      db_ReadHashBestChain_def db_Read_view GeneratedStakeModifier_def split: if_splits)

lemma rival_hash: "block_hash rival_env (rival 0) = 256" "block_hash rival_env (rival 0x01000000) = 257"
proof -
  have fixed: "le_fixed 4 n = [of_nat (n mod 256), of_nat (n div 256 mod 256), of_nat (n div 256 div 256 mod 256),
      of_nat (n div 256 div 256 div 256 mod 256)]" for n by (simp only: numeral_eq_Suc le_fixed.simps pred_numeral_simps arith_simps)
  show "block_hash rival_env (rival 0) = 256" "block_hash rival_env (rival 0x01000000) = 257"
    by (simp_all add: block_hash_def rival_env_def CBlock_GetHash_def ser_header_def rival_def WRITEDATA_def fixed)
qed

lemma rivals_compete: "competing rival_env rival_buffer sample_top"
proof -
  have "waits sample_top (rival n)" for n
    by (simp add: waits_def on_top_def kept_def timely_def sample_top_def top_entry_def rival_def)
  then show ?thesis
    unfolding competing_def rival_buffer_def
    by (intro conjI exI [of _ 0] exI [of _ 1]) (simp_all add: rival_hash SYNCH_BLOCK_BUFFER_SIZE_def MAXIMUM_ARRAY_OF_BLOCKS_def)
qed

lemma rival_call:
  "\<exists>B' s'. ProcessBlock rival_env sample_accept_env sample_process True (rival 0) (rival 0) rival_buffer sample_top = (Answer True, B', s')"
proof -
  let ?B = "rival_buffer\<lparr>Block_Checker := rival 0 # rival 0x01000000 # rival 0 # replicate 27 CBlock_SetNull, Buffer_entries := 3\<rparr>"
  have slots: "hashPrevBlock (rival n) = 5" "hashPrevBlock CBlock_SetNull = 0" for n by (simp_all add: rival_def CBlock_SetNull_def)
  have "fill_buffer (rival 0) 3 rival_buffer = ?B"
    by (simp add: fill_buffer_def rival_buffer_def numeral_3_eq_3 slots)
  then have call: "ProcessBlock rival_env sample_accept_env sample_process True (rival 0) (rival 0) rival_buffer sample_top
      = search_buffer rival_env sample_accept_env 3 ?B sample_top"
    by (simp add: ProcessBlock_def Let_def rival_hash sample_process_def prepare_buffer_def rival_buffer_def wait_for_more_def
        SYNCH_BLOCK_BUFFER_SIZE_def sample_top_def sample_node_def)
  have keep: "timely (bi_nTime top_entry) (b_nTime (rival n))" for n by (simp add: timely_def top_entry_def rival_def)
  have top: "bi_hash top_entry = 5" by (simp add: top_entry_def)
  obtain marked where "scan_blocks rival_env top_entry [0..<3] \<lparr>sc_blocks = Block_Checker ?B, Match_Block_Map = [],
      sc_marked = marked_blocks_for_processing ?B\<rparr>
    = Inr \<lparr>sc_blocks = Block_Checker ?B, Match_Block_Map = [257, 256], sc_marked = marked\<rparr>"
    by (simp add: upt_rec numeral_3_eq_3 scan_block_def keep slots top Let_def rival_hash rival_buffer_def block_buffer_new_def)
  then have "fst (search_buffer rival_env sample_accept_env 3 ?B sample_top) = Answer True"
    by (simp add: search_buffer_def Let_def sample_top_def)
  then show ?thesis using call by (metis prod.collapse)
qed

lemma rival_received: "\<exists>B' s'. receives rival_env (rival_buffer, sample_top) (B', s')"
  using rival_call receives.call [of rival_env rival_env sample_accept_env sample_process True "rival 0" "rival 0" rival_buffer sample_top]
  by (fastforce simp: ends_def)

theorem competing_blocks_stall_witness:
  "\<exists>B' s'. rtranclp (receives rival_env) (rival_buffer, sample_top) (B', s') \<and> s' = sample_top \<and> competing rival_env B' sample_top"
proof -
  obtain B' s' where "rtranclp (receives rival_env) (rival_buffer, sample_top) (B', s')" using rival_received by blast
  then show ?thesis using competing_blocks_stall [OF rivals_compete] by blast
qed

theorem ProcessBlock_returns_witness:
  "fst (ProcessBlock rival_env sample_accept_env sample_process True (rival 0) (rival 0) rival_buffer sample_top) \<noteq> NoReturn"
  by (rule ProcessBlock_returns) (auto simp: sample_top_def split: if_splits)

lemma wrong_root_on_top: "acceptable sample_node_env sample_accept_env (wrong_root_block 5) sample_top"
proof -
  have work: "\<not> CBlock_IsProofOfStake (wrong_root_block 5)" by (rule wrong_root_shape)
  have h: "block_hash sample_node_env (wrong_root_block 5) = 80"
    by (simp add: block_hash_def sample_node_env_def sample_check_env_def CBlock_GetHash_def ser_header_def ser_int32_def
        length_WRITEDATA)
  have t: "GetNextTargetRequired ref_lib [top_entry] False = Some (nBits (wrong_root_block 5))"
    by (simp add: wrong_root_block_def GetNextTargetRequired_def Let_def)
  have f: "IsFinalTx n t sample_coinbase height time" for n t height time by (simp add: IsFinalTx_def sample_coinbase_def)
  show ?thesis unfolding acceptable_def h
    using work t f
    by (simp add: wrong_root_block_def CBlock_SetNull_def sample_top_def sample_node_def top_entry_def sample_genesis_def CBlockIndex_new_def
        sample_node_env_def sample_check_env_def sample_accept_env_def LastPOWBlock_def GetBlockTime_def push_int64_def sample_coinbase_def)
qed

lemma wrong_root_answered:
  "\<exists>b' s'. AcceptBlock sample_node_env sample_accept_env (wrong_root_block 5) sample_top = (Inr True, b', s')"
proof -
  let ?E = sample_node_env
  have E: "chain_ok (ce_bn (ne_check ?E)) sample_top" "ne_check ?E = sample_check_env"
    using sample_top_ok by (simp_all add: sample_node_env_def sample_check_env_def)
  have disk: "disk_answers ?E sample_accept_env" by (simp add: disk_answers_def sample_accept_env_def sample_node_env_def)
  obtain r b' s' where res: "AcceptBlock ?E sample_accept_env (wrong_root_block 5) sample_top = (Inr r, b', s')"
    using AcceptBlock_answers [OF E(1) disk wrong_root_on_top] wrong_root_shape wrong_root_refused E(2) by metis
  then show ?thesis using AcceptBlock_decides [OF E(1) disk res] wrong_root_on_top by auto
qed

lemma wrong_root_call:
  "\<exists>B' s'. ProcessBlock sample_node_env sample_accept_env sample_process True (wrong_root_block 5) (wrong_root_block 5) one_buffer sample_top
     = (Answer True, B', s')"
proof -
  let ?b = "wrong_root_block 5"
  let ?B = "one_buffer\<lparr>Block_Checker := ?b # CBlock_SetNull # CBlock_SetNull # replicate 27 CBlock_SetNull, Buffer_entries := 2\<rparr>"
  have slots: "hashPrevBlock ?b = 5" "hashPrevBlock CBlock_SetNull = 0" by (simp_all add: wrong_root_block_def CBlock_SetNull_def)
  have new: "ns_mapBlockIndex sample_top (block_hash sample_node_env ?b) = None" using wrong_root_on_top by (simp add: acceptable_def)
  have "fill_buffer ?b 3 one_buffer = ?B"
    by (simp add: fill_buffer_def one_buffer_def numeral_3_eq_3 slots)
  then have call: "ProcessBlock sample_node_env sample_accept_env sample_process True ?b ?b one_buffer sample_top
      = search_buffer sample_node_env sample_accept_env 3 ?B sample_top"
    using new by (simp add: ProcessBlock_def Let_def sample_process_def prepare_buffer_def one_buffer_def wait_for_more_def
        SYNCH_BLOCK_BUFFER_SIZE_def sample_top_def sample_node_def)
  have keep: "timely (bi_nTime top_entry) (b_nTime ?b)" by (simp add: timely_def top_entry_def wrong_root_block_def)
  have blank: "\<not> timely t (b_nTime CBlock_SetNull)" "(replicate k CBlock_SetNull)[i := CBlock_SetNull] = replicate k CBlock_SetNull" for t i k
    by (simp add: timely_def CBlock_SetNull_def) (metis list_update_beyond list_update_id nth_replicate length_replicate not_less)
  have top: "bi_hash top_entry = 5" by (simp add: top_entry_def)
  obtain marked where scan: "scan_blocks sample_node_env top_entry [0..<3] \<lparr>sc_blocks = Block_Checker ?B, Match_Block_Map = [],
      sc_marked = marked_blocks_for_processing ?B\<rparr>
    = Inr \<lparr>sc_blocks = Block_Checker ?B, Match_Block_Map = [block_hash sample_node_env ?b], sc_marked = marked\<rparr>"
    by (simp add: upt_rec numeral_3_eq_3 scan_block_def keep blank slots top Let_def one_buffer_def block_buffer_new_def)
  obtain b1 s1 where acc: "AcceptBlock sample_node_env sample_accept_env ?b sample_top = (Inr True, b1, s1)"
    using wrong_root_answered by blast
  have best: "best_hash sample_top = 5" by (simp add: best_hash_def sample_top_def top_entry_def)
  have "\<exists>bs s'. process_loop best_hash (AcceptBlock sample_node_env sample_accept_env) 3 2 0 0 (Block_Checker ?B) sample_top = (Inr (), bs, s')"
    by (simp add: process_loop.simps slots best acc Let_def)
  then show ?thesis using call scan by (auto simp: search_buffer_def process_buffer_def Let_def sample_top_def)
qed

theorem ProcessBlock_accepts_witness:
  "\<exists>B' s' p. ProcessBlock sample_node_env sample_accept_env sample_process True (wrong_root_block 5) (wrong_root_block 5) one_buffer sample_top
      = (Answer True, B', s') \<and> ns_mapBlockIndex s' 80 = Some (p # ns_best sample_top)
    \<and> \<not> fst (CheckBlock sample_check_env True True True (wrong_root_block 5))"
proof -
  let ?E = sample_node_env and ?b = "wrong_root_block 5"
  have ok: "chain_ok (ce_bn (ne_check ?E)) sample_top"
    using sample_top_ok by (simp add: sample_node_env_def sample_check_env_def)
  have disk: "disk_answers ?E sample_accept_env" by (simp add: disk_answers_def sample_accept_env_def sample_node_env_def)
  have h: "block_hash ?E ?b = 80"
    by (simp add: block_hash_def sample_node_env_def sample_check_env_def CBlock_GetHash_def ser_header_def ser_int32_def
        length_WRITEDATA)
  obtain b1 s1 where acc: "AcceptBlock ?E sample_accept_env ?b sample_top = (Inr True, b1, s1)" using wrong_root_answered by blast
  obtain B' s' where call: "ProcessBlock ?E sample_accept_env sample_process True ?b ?b one_buffer sample_top = (Answer True, B', s')"
    using wrong_root_call by blast
  have top: "on_top (hd (ns_best sample_top)) ?b"
    by (simp add: on_top_def kept_def timely_def sample_top_def top_entry_def wrong_root_block_def)
  have room: "room_at 0 one_buffer"
    by (simp add: room_at_def one_buffer_def block_buffer_new_def MAXIMUM_ARRAY_OF_BLOCKS_def SYNCH_BLOCK_BUFFER_SIZE_def CBlock_SetNull_def)
  have "hashPrevBlock (Block_Checker one_buffer ! k) \<noteq> bi_hash (hd (ns_best sample_top))" if "k < SYNCH_BLOCK_BUFFER_SIZE" for k
  proof -
    have "k \<in> {0, 1, 2}" using that by (auto simp: SYNCH_BLOCK_BUFFER_SIZE_def)
    then have "Block_Checker one_buffer ! k = CBlock_SetNull" by (auto simp: one_buffer_def numeral_2_eq_2)
    then show ?thesis by (simp add: sample_top_def top_entry_def CBlock_SetNull_def)
  qed
  then show ?thesis
    using ProcessBlock_accepts [OF ok disk wrong_root_on_top acc top _ _ room _ call] call h wrong_root_refused
    by (auto simp: sample_process_def sample_top_def sample_node_def)
qed

lemma wrong_root_received:
  "\<exists>B' s'. receives sample_node_env (one_buffer, sample_top) (B', s')"
  using wrong_root_call
    receives.call [of sample_node_env sample_node_env sample_accept_env sample_process True "wrong_root_block 5" "wrong_root_block 5" one_buffer sample_top]
  by (fastforce simp: ends_def)

theorem received_blocks_grow_chain_witness:
  "\<exists>B' s'. rtranclp (receives sample_node_env) (one_buffer, sample_top) (B', s') \<and> chain_ok ref_lib s'
     \<and> (\<exists>new. ns_best s' = new @ ns_best sample_top)"
proof -
  have bn: "ce_bn (ne_check sample_node_env) = ref_lib" by (simp add: sample_node_env_def sample_check_env_def)
  obtain B' s' where "rtranclp (receives sample_node_env) (one_buffer, sample_top) (B', s')" using wrong_root_received by blast
  then show ?thesis using received_blocks_grow_chain [of sample_node_env sample_top one_buffer B' s'] sample_top_ok bn by auto
qed

end
