(* ===== verification/Spec2Isabelle.thy ===== *)
theory Spec2Isabelle imports Base_Uint Base_58 Hash_Classes Sha1 Script_Limits Transaction Sig_Hash Keystore Script_Consensus Orphans Process_Block begin

text \<open>
  A verification development of the consensus core of Bank Society Gold, a wallet and node of a coin derived from
  Bitcoin, Peercoin and Blackcoin, written in C++ (\<open>src/src\<close>).

  \<^bold>\<open>The program\<close>

  A node receives transactions and blocks from other nodes. A transaction is checked on its own, against the
  memory pool and against the outputs it spends, whose scripts are run; what refers to unknown transactions waits
  as an orphan. A block is put in a buffer, found to be on top of the best block, checked against the rules for
  heights, times and targets, written to disk, filed in the block index and made the best block, which connects its
  transactions to the database of spent outputs. Blocks are made by work or by stake; a stake is proved by a
  kernel hash over a modifier collected from the chain. Keys, signatures and output scripts lie below all this, and
  hash functions and the serialisation of data below them.

  \<^bold>\<open>The theories, from the bottom up\<close>

  \<^item> \<open>BSG_Prelude\<close>: machine types, collections of rewrite rules, facts on lists and words. \<open>Std_Map\<close>: \<open>std::map\<close>
    and \<open>std::multimap\<close> as sorted association lists.
  \<^item> \<open>Crypto_Common\<close> (\<open>crypto/common.h\<close>), \<open>Block_Hasher\<close>, \<open>Sha256\<close>, \<open>Sha1\<close>, \<open>Ripemd160\<close>, \<open>Hash_Classes\<close>
    (\<open>crypto/*.cpp\<close>, \<open>hash.h\<close>): the hash functions with their streaming objects. The locale \<open>block_function\<close> is
    the contract between the streaming front end and a compression function; it is interpreted for
    each class. The digests equal those of the standards, however the input is cut into pieces.
  \<^item> \<open>Serialize\<close> (\<open>serialize.h\<close>): integers, sizes and vectors as byte strings. Its locale of serialisable types is
    interpreted for numbers, transactions, headers, blocks and database records; reading returns what was written, and what
    follows it.
  \<^item> \<open>Script_Ops\<close>, \<open>Script_Num\<close>, \<open>Script_Code\<close>, \<open>Script_Sig\<close> (\<open>script.h\<close>, \<open>script.cpp\<close>): the vocabulary of scripts,
    numbers, instructions, the encodings of keys and signatures.
  \<^item> \<open>Script_Eval\<close>, \<open>Script_Limits\<close>, \<open>Script_Verify\<close>: the interpreter that reports errors, its limits and its flags,
    \<open>VerifyScript\<close>. \<open>Script_Consensus\<close>: the overload over whole transactions that consensus uses, computing with
    \<open>CBigNum\<close> (\<open>Bignum\<close>, \<open>bignum.h\<close>); under strict encodings it is shown to agree with the other one and its checker.
  \<^item> \<open>Base_Uint\<close> (\<open>uint256.h\<close>): the limbs of \<open>uint160\<close> and \<open>uint256\<close>, whose operators are shown to be those of the
    words used elsewhere, and their hexadecimal text. \<open>Base_58\<close> (\<open>base58.cpp\<close>, \<open>base58.h\<close>): the text of addresses and keys.
  \<^item> \<open>Transaction\<close>, \<open>Sig_Hash\<close> (\<open>core.h\<close>, \<open>main.h\<close>, \<open>script.cpp\<close>): transactions, their context-free checks and fees,
    the hash that signatures sign, the signature cache.
  \<^item> \<open>Script_Solve\<close>, \<open>Script_Dest\<close>, \<open>Keys\<close>, \<open>Keystore\<close> (\<open>script.cpp\<close>, \<open>pubkey.cpp\<close>, \<open>key.cpp\<close>, \<open>keystore.cpp\<close>): kinds of
    output scripts, destinations, keys with hierarchical derivation, key stores, ownership and signing.
  \<^item> \<open>Orphans\<close>, \<open>Mempool\<close>, \<open>Connect\<close>, \<open>Accept\<close> (\<open>main.cpp\<close>, \<open>txmempool.cpp\<close>): the pools of transactions, how
    inputs are fetched and connected, admission to the memory pool.
  \<^item> \<open>Block\<close>, \<open>Chain_Index\<close>, \<open>Check_Block\<close> (\<open>main.h\<close>, \<open>main.cpp\<close>): blocks and Merkle trees, entries of the index,
    targets and locators, the checks of a block that do not depend on its place.
  \<^item> \<open>Tx_Database\<close> (\<open>txdb-leveldb.h\<close>, \<open>txdb-leveldb.cpp\<close>): the chain database, byte for byte, with its batches; it implements
    the map of transactions that \<open>Connect\<close> is written over.
  \<^item> \<open>Kernel\<close>, \<open>Rewards\<close> (\<open>kernel.cpp\<close>, \<open>main.cpp\<close>): the proof of stake; block rewards in the arithmetic of \<open>double\<close>.
  \<^item> \<open>Chain_State\<close> (\<open>main.cpp\<close>): \<open>ConnectBlock\<close>, \<open>DisconnectBlock\<close>, \<open>SetBestChain\<close>, \<open>AddToBlockIndex\<close> over the globals of
    the node. \<open>Accept_Block\<close> (\<open>main.cpp\<close>, \<open>checkpoints.cpp\<close>): \<open>AcceptBlock\<close>. \<open>Process_Block\<close>: \<open>ProcessBlock\<close> with its
    buffer.

  \<^bold>\<open>State and operations\<close>

  A class or struct is a record with the names of its members, an enumeration a datatype or a list of named numbers. A
  method is a function from the object to the new object and its answer; a reference parameter that is written
  is returned. Fixed-width integers are words of their width; an \<open>int\<close> or \<open>int64_t\<close> that the code keeps small is
  an integer, with a failed range as an error where it can leave its range. A \<open>throw\<close>, a failed \<open>assert\<close>, an access outside a
  vector and a null pointer are values of error types. A pointer into the block index is the chain it leads to, newest
  entry first. A byte string is a list of bytes; an iterator into a script is the suffix it points at.

  \<^bold>\<open>Bounds and fuel\<close>

  Loops are structural recursions or have a termination measure. \<open>remove\<close> of the memory pool recurses through the
  spenders with fuel; fuel above the size of the pool is enough when the pool is acyclic
  (\<open>Mempool.mempool_remove_descendants\<close>), and fuel 1 without recursion. \<open>IsMine\<close> through script hashes and the loop of
  \<open>ProcessBlock\<close> over the index are partial functions, with theorems on when they return. The work queue of orphans returns
  for every pool.

  \<^bold>\<open>Parameters\<close>

  Not part of the repository's own code, and arguments of the definitions: libsecp256k1, OpenSSL (hash functions,
  \<open>BIGNUM\<close> formats), HMAC-SHA512, random numbers, clocks, LevelDB's answers to writes and commits, the disk, the
  scrypt hash of a header. Parameters, too, are parts of the program that are not modelled: the rate limiter of free
  transactions and the difficulty and hash rate that enter a reward (floating point over the whole chain), the masternode
  payee, the locks of transactions, sporks and the state of the initial download. Locales state what is used of a parameter;
  each is interpreted on the model's definitions.

  \<^bold>\<open>What the theorems show\<close>

  The lower layers do what they should: hash functions meet their standards, encodings round trip, the interpreter keeps its
  limits and its two versions agree under strict encodings, output types are recognised exactly, signing yields scripts that verify, the pools
  keep their indices exact, the Merkle tree and the database refine their specifications. The upper layers do less than their
  comments promise, and the theorems say exactly what is left: \<open>ConnectInputs\<close> ignores spent marks, \<open>ConnectBlock\<close> never
  refuses a small block that spends stored outputs, \<open>SetBestChain\<close> ignores its answer, \<open>CheckProofOfStake\<close> its kernel;
  \<open>AcceptBlock\<close> decides by the header rules alone and \<open>ProcessBlock\<close> never runs \<open>CheckBlock\<close>; the chain never
  reorganises; and two competing blocks in the buffer stop the node. The findings of the manifest list these.

  \<^bold>\<open>Not modelled\<close>

  The user interface (\<open>qt\<close>), the wallet and its database, the network layer (\<open>net.cpp\<close>, \<open>netbase.cpp\<close>, \<open>addrman.cpp\<close>, \<open>protocol.cpp\<close>),
  the message loop and the start-up code of \<open>main.cpp\<close> and \<open>init.cpp\<close>, the remote procedure calls, mining, the masternode, instant
  transaction, mixing and messaging subsystems, sporks and alerts: they are input and output, threads and timers around
  the core, or have no contract the core relies on beyond the parameters above. \<open>Reorganize\<close> and the end of
  \<open>ProcessBlock\<close> are unreachable. \<open>jimmain.cpp\<close> and \<open>AcceptBlock.cpp\<close> are not built. Libraries in the
  tree (LevelDB, secp256k1, json, lz4, xxhash, univalue) and generated resources are not part of the program.
\<close>

end
